(* ===== verification/Prelude.thy ===== *)
theory Prelude
  imports
    "HOL-Library.Word"
    "HOL-Library.Char_ord"
    "HOL-Library.Multiset"
    "HOL-Library.Sublist"
    "HOL-Library.Signed_Division"
begin

text \<open>
  Shared vocabulary of the development: the machine types the C++ code uses, C strings,
  the list operations of \<open>std::vector\<close> (\<open>erase\<close>, \<open>insert\<close>, first match by
  index), and the generic lemmas on them.  C++ \<open>int\<close> division is \<open>sdiv\<close>
  (\<open>HOL-Library.Signed_Division\<close>), which truncates towards zero as C does.
\<close>

section \<open>Machine types\<close>

type_synonym u8 = "8 word"
type_synonym u16 = "16 word"
type_synonym u32 = "32 word"
type_synonym u64 = "64 word"

text \<open>A byte buffer; the bytes of a \<open>std::string\<close>; a UTF-16 \<open>std::wstring\<close>.\<close>

type_synonym bytes = "u8 list"
type_synonym wstr = "u16 list"

text \<open>The bytes of a narrow, and the code units of a wide, string literal.\<close>

definition lit :: "string \<Rightarrow> bytes" where
  "lit s = map of_char s"

definition wlit :: "string \<Rightarrow> wstr" where
  "wlit s = map of_char s"

text \<open>The bytes of a \<open>std::string\<close> seen through a \<open>uint8_t *\<close>, and back.\<close>

definition bytes_of_string :: "string \<Rightarrow> bytes" where
  "bytes_of_string s = map of_char s"

definition string_of_bytes :: "bytes \<Rightarrow> string" where
  "string_of_bytes bs = map (\<lambda>b. char_of (unat b)) bs"

text \<open>What a function that takes a \<open>const char *\<close> sees of a \<open>std::string\<close>.\<close>

definition c_str :: "string \<Rightarrow> string" where
  "c_str s = takeWhile (\<lambda>c. c \<noteq> CHR 0x00) s"

section \<open>Proof collections\<close>

named_theorems vec_simps \<open>characteristic equations of the vector operations\<close>
named_theorems word_to_nat \<open>word facts moved to nat\<close>

section \<open>Vector operations\<close>

definition erase_at :: "nat \<Rightarrow> 'a list \<Rightarrow> 'a list" where
  "erase_at i xs = take i xs @ drop (Suc i) xs"

definition insert_at :: "nat \<Rightarrow> 'a list \<Rightarrow> 'a list \<Rightarrow> 'a list" where
  "insert_at i ys xs = take i xs @ ys @ drop i xs"

fun find_first :: "('a \<Rightarrow> bool) \<Rightarrow> 'a list \<Rightarrow> nat option" where
  "find_first P [] = None"
| "find_first P (x # xs) = (if P x then Some 0 else map_option Suc (find_first P xs))"

definition clamp :: "int \<Rightarrow> int \<Rightarrow> int \<Rightarrow> int" where
  "clamp v lo hi = (if v < lo then lo else if v > hi then hi else v)"

lemma clamp_bounds: "lo \<le> hi \<Longrightarrow> lo \<le> clamp v lo hi \<and> clamp v lo hi \<le> hi"
  by (simp add: clamp_def)

lemma clamp_id: "lo \<le> v \<Longrightarrow> v \<le> hi \<Longrightarrow> clamp v lo hi = v"
  by (simp add: clamp_def)

lemma length_erase_at [vec_simps]: "i < length xs \<Longrightarrow> length (erase_at i xs) = length xs - 1"
  by (auto simp: erase_at_def)

lemma erase_at_Cons_0 [vec_simps]: "erase_at 0 (x # xs) = xs"
  by (simp add: erase_at_def)

lemma erase_at_nth: "i < length xs \<Longrightarrow> j < length xs - 1 \<Longrightarrow>
    erase_at i xs ! j = (if j < i then xs ! j else xs ! Suc j)"
  by (auto simp: erase_at_def nth_append min_def)

lemma erase_at_append_same [vec_simps]: "erase_at (length xs) (xs @ y # ys) = xs @ ys"
  by (simp add: erase_at_def)

lemma insert_at_append_same [vec_simps]: "insert_at (length xs) zs (xs @ ys) = xs @ zs @ ys"
  by (simp add: insert_at_def)

lemma mset_insert_at: "mset (insert_at i ys xs) = mset ys + mset xs"
  by (metis append_take_drop_id insert_at_def mset_append union_commute union_lcomm)

lemma set_erase_at_subset: "set (erase_at i xs) \<subseteq> set xs"
  by (auto simp: erase_at_def dest: in_set_takeD in_set_dropD)

lemma sorted_wrt_erase_at:
  assumes "sorted_wrt R xs"
  shows "sorted_wrt R (erase_at i xs)"
proof -
  have "sorted_wrt R (take i xs @ drop i xs)" using assms by simp
  then have "sorted_wrt R (take i xs)" "sorted_wrt R (drop i xs)"
    and "\<forall>x\<in>set (take i xs). \<forall>y\<in>set (drop i xs). R x y"
    unfolding sorted_wrt_append by blast+
  moreover have "set (drop (Suc i) xs) \<subseteq> set (drop i xs)"
    by (simp add: set_drop_subset_set_drop)
  ultimately show ?thesis
    using sorted_wrt_drop[OF assms, of "Suc i"]
    by (auto simp: erase_at_def sorted_wrt_append)
qed

lemma distinct_erase_at:
  assumes "distinct xs" and "i < length xs"
  shows "distinct (erase_at i xs) \<and> xs ! i \<notin> set (erase_at i xs)"
proof -
  have "distinct (take i xs @ xs ! i # drop (Suc i) xs)"
    using assms by (simp only: id_take_nth_drop[symmetric])
  then show ?thesis by (simp add: erase_at_def)
qed

lemma take_then_rest: "take n (drop k xs) @ drop (k + length (take n (drop k xs))) xs = drop k xs"
proof (cases "n \<le> length xs - k")
  case True
  then show ?thesis
    by (simp add: min_def add.commute[of k] flip: drop_drop)
next
  case False
  then show ?thesis by simp
qed

lemma find_first_None: "find_first P xs = None \<longleftrightarrow> (\<forall>x\<in>set xs. \<not> P x)"
  by (induction xs) auto

lemma find_first_Some:
  "find_first P xs = Some i \<longleftrightarrow> i < length xs \<and> P (xs ! i) \<and> (\<forall>j<i. \<not> P (xs ! j))"
proof (induction xs arbitrary: i)
  case Nil
  then show ?case by simp
next
  case (Cons x xs)
  show ?case
  proof (cases i)
    case 0
    then show ?thesis by auto
  next
    case (Suc k)
    then show ?thesis using Cons.IH[of k] by (auto simp: All_less_Suc2)
  qed
qed

lemma find_first_less: "find_first P xs = Some i \<Longrightarrow> i < length xs"
  by (simp add: find_first_Some)

lemma find_first_exists: "x \<in> set xs \<Longrightarrow> P x \<Longrightarrow> \<exists>i. find_first P xs = Some i"
  using find_first_None[of P xs] by (cases "find_first P xs") auto

lemma find_first_nth_unique:
  "distinct xs \<Longrightarrow> i < length xs \<Longrightarrow> find_first (\<lambda>x. x = xs ! i) xs = Some i"
  by (auto simp: find_first_Some nth_eq_iff_index_eq)

section \<open>Bytes and strings\<close>

lemma length_bytes_of_string [simp]: "length (bytes_of_string s) = length s"
  by (simp add: bytes_of_string_def)

lemma length_string_of_bytes [simp]: "length (string_of_bytes bs) = length bs"
  by (simp add: string_of_bytes_def)

lemma unat_of_char_word: "unat (of_char c :: u8) = of_char c"
proof -
  have "(of_char c :: nat) < 256"
    by (metis of_char_mod_256 mod_less_divisor zero_less_numeral)
  then have "unat (of_nat (of_char c) :: u8) = of_char c"
    by (simp add: unat_of_nat take_bit_eq_mod)
  then show ?thesis by (simp only: of_nat_of_char)
qed

lemma string_of_bytes_of_string [simp]: "string_of_bytes (bytes_of_string s) = s"
  by (induction s) (simp_all add: string_of_bytes_def bytes_of_string_def unat_of_char_word)

lemma bytes_of_string_of_bytes [simp]: "bytes_of_string (string_of_bytes bs) = bs"
proof -
  have "of_char (char_of (unat b) :: char) = (b :: u8)" for b
  proof -
    have "unat b < 256" using unsigned_less[of b] by simp
    then have "(of_char (char_of (unat b) :: char) :: nat) = unat b" by simp
    then show ?thesis by (metis of_nat_of_char of_nat_unat ucast_id)
  qed
  then show ?thesis by (induction bs) (simp_all add: string_of_bytes_def bytes_of_string_def)
qed

lemma c_str_id: "CHR 0x00 \<notin> set s \<Longrightarrow> c_str s = s"
  by (auto simp: c_str_def takeWhile_eq_all_conv)

end
