(* ===== verification/Uni_File.thy ===== *)
theory Uni_File
  imports Prelude
begin

text \<open>
  The \<open>UniFile\<close> interface of unifs/unifile.hpp: its contract as a locale, the one local
  provider (unifs/local_file.cpp over a C stream), and the routines of the program that are
  written against the interface only: \<open>Image::readFromUniFile\<close> (obZrv/Codec.h) and the copy
  loop of \<open>Doc::saveAsLocal\<close> (obZrv/Doc.cpp).
\<close>

section \<open>Seek origins and error codes\<close>

text \<open>\<open>SEEK_SET\<close>, \<open>SEEK_CUR\<close>, \<open>SEEK_END\<close> of the C library.\<close>

datatype whence = SEEK_SET | SEEK_CUR | SEEK_END

text \<open>\<open>enum IM_ErrorCodes\<close> of Codec.h.\<close>

datatype im_code = IM_OK | IM_FAIL | IM_TOO_LARGE | IM_NOT_SUPPORTED | IM_READFILE_ERR
  | IM_NO_MORE_FRAMES

section \<open>The contract\<close>

text \<open>
  An open file is seen through its content and its position.  \<open>tell\<close> also returns the file,
  since on a remote file it exchanges messages.  The position of a good file fits in the
  \<open>int64_t\<close> that \<open>tell\<close> returns.
\<close>

locale unifile =
  fixes seek :: "'f \<Rightarrow> int \<Rightarrow> whence \<Rightarrow> int \<times> 'f"
    and tell :: "'f \<Rightarrow> int \<times> 'f"
    and read :: "'f \<Rightarrow> nat \<Rightarrow> bytes \<times> 'f"
    and content :: "'f \<Rightarrow> bytes"
    and pos :: "'f \<Rightarrow> nat"
    and good :: "'f \<Rightarrow> bool"
  assumes small: "good f \<Longrightarrow> length (content f) < 2 ^ 63 \<and> pos f < 2 ^ 63"
    and seek_set: "good f \<Longrightarrow> n < 2 ^ 63 \<Longrightarrow> seek f (int n) SEEK_SET = (r, g) \<Longrightarrow>
        r = 0 \<and> good g \<and> content g = content f \<and> pos g = n"
    and seek_end: "good f \<Longrightarrow> seek f 0 SEEK_END = (r, g) \<Longrightarrow>
        r = 0 \<and> good g \<and> content g = content f \<and> pos g = length (content f)"
    and tell: "good f \<Longrightarrow> tell f = (r, g) \<Longrightarrow>
        r = int (pos f) \<and> good g \<and> content g = content f \<and> pos g = pos f"
    and read: "good f \<Longrightarrow> read f n = (bs, g) \<Longrightarrow>
        bs = take n (drop (pos f) (content f)) \<and> good g \<and> content g = content f \<and>
        pos g = pos f + length bs"

section \<open>LocalFile\<close>

text \<open>
  A C stream: the bytes of the file, the position, whether \<open>fclose\<close> can flush it, and how
  many more bytes the device takes.  \<open>fseek\<close> refuses a position before the start and allows
  one past the end; \<open>fwrite\<close> writes what the device still takes and returns the number, which
  is short when the device is full.
\<close>

record stream =
  data :: bytes
  offset :: nat
  flushes :: bool
  room :: nat

definition stream_seek :: "stream \<Rightarrow> int \<Rightarrow> whence \<Rightarrow> int \<times> stream" where
  "stream_seek fp off w =
     (let base = (case w of SEEK_SET \<Rightarrow> 0 | SEEK_CUR \<Rightarrow> int (offset fp)
                          | SEEK_END \<Rightarrow> int (length (data fp)))
      in if base + off < 0 \<or> base + off \<ge> 2 ^ 63 then (-1, fp)
         else (0, fp\<lparr>offset := nat (base + off)\<rparr>))"

definition stream_read :: "stream \<Rightarrow> nat \<Rightarrow> bytes \<times> stream" where
  "stream_read fp n = (let bs = take n (drop (offset fp) (data fp))
                       in (bs, fp\<lparr>offset := offset fp + length bs\<rparr>))"

definition stream_write :: "stream \<Rightarrow> bytes \<Rightarrow> nat \<times> stream" where
  "stream_write fp bs =
     (let d = data fp; k = offset fp;
          padded = d @ replicate (k - length d) 0;
          written = take (room fp) bs; n = length written
      in if n = 0 then (0, fp)
         else (n, fp\<lparr>data := take k padded @ written @ drop (k + n) d,
                     offset := k + n, room := room fp - n\<rparr>))"

text \<open>\<open>saved\<close> is what \<open>fclose\<close> left in the file system.\<close>

record local_file =
  fp :: "stream option"
  saved :: "bytes option"

definition lf_seek :: "local_file \<Rightarrow> int \<Rightarrow> whence \<Rightarrow> int \<times> local_file" where
  "lf_seek f off w = (case fp f of None \<Rightarrow> (-1, f)
     | Some s \<Rightarrow> (case stream_seek s off w of (r, s') \<Rightarrow>
         (if r = 0 then 0 else -1, f\<lparr>fp := Some s'\<rparr>)))"

definition lf_tell :: "local_file \<Rightarrow> int \<times> local_file" where
  "lf_tell f = (case fp f of None \<Rightarrow> (-1, f) | Some s \<Rightarrow> (int (offset s), f))"

definition lf_read :: "local_file \<Rightarrow> nat \<Rightarrow> bytes \<times> local_file" where
  "lf_read f n = (case fp f of None \<Rightarrow> ([], f)
     | Some s \<Rightarrow> (case stream_read s n of (bs, s') \<Rightarrow> (bs, f\<lparr>fp := Some s'\<rparr>)))"

definition lf_write :: "local_file \<Rightarrow> bytes \<Rightarrow> nat \<times> local_file" where
  "lf_write f bs = (case fp f of None \<Rightarrow> (0, f)
     | Some s \<Rightarrow> (case stream_write s bs of (n, s') \<Rightarrow> (n, f\<lparr>fp := Some s'\<rparr>)))"

definition lf_close :: "local_file \<Rightarrow> int \<times> local_file" where
  "lf_close f = (case fp f of None \<Rightarrow> (0, f)
     | Some s \<Rightarrow> (if flushes s then 0 else -1, f\<lparr>fp := None, saved := Some (data s)\<rparr>))"

definition lf_content :: "local_file \<Rightarrow> bytes" where
  "lf_content f = (case fp f of None \<Rightarrow> [] | Some s \<Rightarrow> data s)"

definition lf_pos :: "local_file \<Rightarrow> nat" where
  "lf_pos f = (case fp f of None \<Rightarrow> 0 | Some s \<Rightarrow> offset s)"

definition lf_good :: "local_file \<Rightarrow> bool" where
  "lf_good f = (case fp f of None \<Rightarrow> False
     | Some s \<Rightarrow> length (data s) < 2 ^ 63 \<and> offset s < 2 ^ 63)"

lemmas lf_defs = lf_seek_def lf_tell_def lf_read_def lf_content_def lf_pos_def lf_good_def
  stream_seek_def stream_read_def

lemma read_end_bound: "k < m \<Longrightarrow> length d < m \<Longrightarrow> k + length (take n (drop k d)) < (m::nat)"
  by (cases "k \<le> length d") auto

interpretation lf: unifile lf_seek lf_tell lf_read lf_content lf_pos lf_good
proof (unfold_locales, goal_cases)
  case (1 f)
  then show ?case by (auto simp: lf_defs split: option.splits)
next
  case (2 f n r g)
  then show ?case by (auto simp: lf_defs Let_def split: option.splits if_splits)
next
  case (3 f r g)
  then show ?case by (auto simp: lf_defs Let_def split: option.splits if_splits)
next
  case (4 f r g)
  then show ?case by (auto simp: lf_defs split: option.splits)
next
  case (5 f n bs g)
  then show ?case
    using read_end_bound[of "lf_pos f" "2 ^ 63" "lf_content f" n]
    by (auto simp: lf_defs Let_def split: option.splits)
qed

text \<open>After \<open>close\<close> every operation of a \<open>LocalFile\<close> fails, and \<open>close\<close> is idempotent.\<close>

lemma lf_closed: "fp f = None \<Longrightarrow> lf_seek f k w = (-1, f) \<and> lf_tell f = (-1, f) \<and>
    lf_read f n = ([], f) \<and> lf_write f bs = (0, f) \<and> lf_close f = (0, f)"
  by (simp add: lf_defs lf_write_def lf_close_def)

lemma lf_close_closes: "fp (snd (lf_close f)) = None"
  by (simp add: lf_close_def split: option.splits)

section \<open>Image::readFromUniFile\<close>

text \<open>The two members of \<open>Image\<close> that \<open>readFromUniFile\<close> fills.\<close>

record image_buf =
  filebuf :: "bytes option"
  filesize :: nat

definition read_from_unifile ::
  "('f \<Rightarrow> int \<Rightarrow> whence \<Rightarrow> int \<times> 'f) \<Rightarrow> ('f \<Rightarrow> int \<times> 'f) \<Rightarrow> ('f \<Rightarrow> nat \<Rightarrow> bytes \<times> 'f)
    \<Rightarrow> image_buf \<Rightarrow> 'f \<Rightarrow> im_code \<times> image_buf \<times> 'f" where
  "read_from_unifile seek tell read im f =
     (case seek f 0 SEEK_END of (r1, f1) \<Rightarrow>
      if r1 \<noteq> 0 then (IM_READFILE_ERR, im, f1)
      else case tell f1 of (sz, f2) \<Rightarrow>
      if sz \<le> 0 then (IM_READFILE_ERR, im, f2)
      else let im1 = im\<lparr>filesize := nat sz\<rparr> in
      case seek f2 0 SEEK_SET of (r2, f3) \<Rightarrow>
      if r2 \<noteq> 0 then (IM_READFILE_ERR, im1\<lparr>filebuf := None\<rparr>, f3)
      else case read f3 (nat sz) of (got, f4) \<Rightarrow>
      if length got \<noteq> nat sz then (IM_READFILE_ERR, im1\<lparr>filebuf := None\<rparr>, f4)
      else (IM_OK, im1\<lparr>filebuf := Some got\<rparr>, f4))"

section \<open>The copy loop of Doc::saveAsLocal\<close>

text \<open>
  \<open>for (;;) { n = src->read(buf, 64K); if (n == 0) break; if (dst->write(buf, n) != n)
  return -1; } return dst->close();\<close>  The source is any \<open>UniFile\<close>, the target a
  \<open>LocalFile\<close>.  The loop ends when the source does, so not returning is \<open>None\<close>.
\<close>

definition copy_chunk :: nat where
  "copy_chunk = 64 * 1024"

partial_function (option) copy_loop ::
  "('f \<Rightarrow> nat \<Rightarrow> bytes \<times> 'f) \<Rightarrow> 'f \<Rightarrow> local_file \<Rightarrow> (int \<times> 'f \<times> local_file) option" where
  "copy_loop read src dst =
     (case read src copy_chunk of (buf, src') \<Rightarrow>
      if buf = [] then (case lf_close dst of (r, dst') \<Rightarrow> Some (r, src', dst'))
      else case lf_write dst buf of (n, dst') \<Rightarrow>
      if n \<noteq> length buf then Some (-1, src', dst')
      else copy_loop read src' dst')"

text \<open>
  \<open>copy_reads read src bs g\<close>: the reads of the loop return the pieces \<open>bs\<close> one after the
  other and then nothing, at the end of the file or because a read failed; \<open>g\<close> is the source
  after that.
\<close>

fun copy_reads :: "('f \<Rightarrow> nat \<Rightarrow> bytes \<times> 'f) \<Rightarrow> 'f \<Rightarrow> bytes list \<Rightarrow> 'f \<Rightarrow> bool" where
  "copy_reads read src [] g \<longleftrightarrow> read src copy_chunk = ([], g)"
| "copy_reads read src (b # bs) g \<longleftrightarrow> b \<noteq> [] \<and> fst (read src copy_chunk) = b \<and>
     copy_reads read (snd (read src copy_chunk)) bs g"

lemma write_at_end:
  assumes "fp dst = Some s" and "offset s = length (data s)" and "b \<noteq> []"
  shows "\<exists>s'. lf_write dst b = (min (length b) (room s), dst\<lparr>fp := Some s'\<rparr>) \<and>
    data s' = data s @ take (room s) b \<and> offset s' = length (data s') \<and>
    flushes s' = flushes s \<and> room s' = room s - length b"
  using assms by (cases "room s = 0") (auto simp: lf_write_def stream_write_def Let_def min_def)

text \<open>
  The copy loop puts the pieces into the target and closes it, unless the device is full first:
  then it returns -1 and the target, still open, holds what could be written.
\<close>

lemma copy_loop_run:
  assumes "copy_reads read src bs g" and "fp dst = Some s" and "offset s = length (data s)"
  shows "if length (concat bs) \<le> room s
    then copy_loop read src dst = Some (if flushes s then 0 else -1, g,
      dst\<lparr>fp := None, saved := Some (data s @ concat bs)\<rparr>)
    else \<exists>g' s'. copy_loop read src dst = Some (-1, g', dst\<lparr>fp := Some s'\<rparr>) \<and>
      data s' = data s @ take (room s) (concat bs)"
  using assms
proof (induction bs arbitrary: src dst s)
  case Nil
  then show ?case by (simp add: copy_loop.simps lf_close_def)
next
  case (Cons b bs)
  obtain src1 where rd: "read src copy_chunk = (b, src1)" "b \<noteq> []" "copy_reads read src1 bs g"
    using Cons.prems(1) by (cases "read src copy_chunk") auto
  obtain s' where w: "lf_write dst b = (min (length b) (room s), dst\<lparr>fp := Some s'\<rparr>)"
    and s': "data s' = data s @ take (room s) b" "offset s' = length (data s')"
      "flushes s' = flushes s" "room s' = room s - length b"
    using write_at_end[OF Cons.prems(2,3) rd(2)] by blast
  show ?case
  proof (cases "length b \<le> room s")
    case True
    then have "copy_loop read src dst = copy_loop read src1 (dst\<lparr>fp := Some s'\<rparr>)"
      using rd w by (simp add: copy_loop.simps[of read src dst] min_def)
    then show ?thesis using Cons.IH[OF rd(3), of "dst\<lparr>fp := Some s'\<rparr>" s'] s' True
      by (auto split: if_splits)
  next
    case False
    then have "copy_loop read src dst = Some (-1, src1, dst\<lparr>fp := Some s'\<rparr>)"
      using rd w by (simp add: copy_loop.simps[of read src dst] min_def)
    then show ?thesis using s' False by auto
  qed
qed

section \<open>What clients of the contract get\<close>

context unifile
begin

lemma read_whole:
  assumes "good f" and "seek f 0 SEEK_SET = (r, g)" and "read g n = (bs, h)"
  shows "bs = take n (content f)" "content h = content f" "good h"
  using seek_set[of f 0 r g] read[of g n bs h] assms by auto

lemma read_from_unifile_all:
  assumes "good f" and "content f \<noteq> []"
  shows "\<exists>g. read_from_unifile seek tell read im f =
      (IM_OK, im\<lparr>filesize := length (content f), filebuf := Some (content f)\<rparr>, g) \<and>
      good g \<and> content g = content f"
proof -
  obtain r1 f1 where s1: "seek f 0 SEEK_END = (r1, f1)" by fastforce
  note e = seek_end[OF assms(1) s1]
  obtain sz f2 where t: "tell f1 = (sz, f2)" by fastforce
  note t' = tell[OF _ t]
  obtain r2 f3 where s2: "seek f2 0 SEEK_SET = (r2, f3)" by fastforce
  obtain got f4 where rd: "read f3 (nat sz) = (got, f4)" by fastforce
  from e t' have sz: "sz = int (length (content f))" and g2: "good f2" "content f2 = content f"
    by auto
  from seek_set[OF g2(1), of 0 r2 f3] s2 g2(2)
  have g3: "r2 = 0" "good f3" "content f3 = content f" "pos f3 = 0" by auto
  from read[OF g3(2) rd] g3 sz have "got = content f" "good f4" "content f4 = content f" by auto
  with s1 e t sz s2 g3 rd assms(2) show ?thesis
    by (simp add: read_from_unifile_def)
qed

lemma read_from_unifile_empty:
  assumes "good f" and "content f = []"
  shows "fst (read_from_unifile seek tell read im f) = IM_READFILE_ERR"
proof -
  obtain r1 f1 where s1: "seek f 0 SEEK_END = (r1, f1)" by fastforce
  note e = seek_end[OF assms(1) s1]
  obtain sz f2 where t: "tell f1 = (sz, f2)" by fastforce
  from tell[OF _ t] e s1 t assms(2) show ?thesis
    by (simp add: read_from_unifile_def)
qed

text \<open>The reads of the copy loop on a source that keeps the contract deliver the rest of it.\<close>

lemma copy_reads_rest:
  "good src \<Longrightarrow> \<exists>bs g. copy_reads read src bs g \<and> concat bs = drop (pos src) (content src)"
proof (induction "length (content src) - pos src" arbitrary: src rule: less_induct)
  case less
  obtain buf src1 where rd: "read src copy_chunk = (buf, src1)" by fastforce
  note r = read[OF less.prems rd]
  show ?case
  proof (cases "buf = []")
    case True
    then have "length (content src) \<le> pos src"
      using r by (auto simp: copy_chunk_def)
    with True rd have "copy_reads read src [] src1 \<and>
        concat [] = drop (pos src) (content src)" by simp
    then show ?thesis by blast
  next
    case False
    have "pos src < length (content src)"
      using r False by (metis drop_all not_le take_Nil)
    moreover have "length buf > 0" using False by simp
    ultimately have "length (content src1) - pos src1 < length (content src) - pos src"
      using r by auto
    from less.hyps[OF this] r obtain bs g where
      "copy_reads read src1 bs g" "concat bs = drop (pos src1) (content src1)" by blast
    with rd False r have "copy_reads read src (buf # bs) g \<and>
        concat (buf # bs) = drop (pos src) (content src)"
      using take_then_rest[of copy_chunk "pos src" "content src"] by simp
    then show ?thesis by blast
  qed
qed

end

section \<open>Properties\<close>

text \<open>
   Whatever the position of an open local file that is not empty, loading it for a codec
  (\<open>Image::readFromUniFile\<close>) fills the buffer with the complete content and sets the size to
  its length.
\<close>

theorem read_local_file_whole:
  assumes "lf_good f" and "lf_content f \<noteq> []"
  shows "\<exists>g. read_from_unifile lf_seek lf_tell lf_read im f =
    (IM_OK, im\<lparr>filesize := length (lf_content f), filebuf := Some (lf_content f)\<rparr>, g)"
  using lf.read_from_unifile_all[OF assms] by blast

theorem read_local_file_whole_witness:
  "\<exists>g. read_from_unifile lf_seek lf_tell lf_read \<lparr>filebuf = None, filesize = 0\<rparr>
     \<lparr>fp = Some \<lparr>data = [1, 2, 3], offset = 2, flushes = True, room = 0\<rparr>, saved = None\<rparr> =
     (IM_OK, \<lparr>filebuf = Some [1, 2, 3], filesize = 3\<rparr>, g)"
  using read_local_file_whole[of
      "\<lparr>fp = Some \<lparr>data = [1, 2, 3], offset = 2, flushes = True, room = 0\<rparr>, saved = None\<rparr>"
      "\<lparr>filebuf = None, filesize = 0\<rparr>"]
  by (simp add: lf_defs numeral_3_eq_3)



text \<open>A source of two bytes whose second read fails is a complete copy for the loop.\<close>

lemma failed_read_is_success:
  "copy_loop (\<lambda>k n. (if k = 0 then [1] else [], k + 1)) (0::nat)
     \<lparr>fp = Some \<lparr>data = [], offset = 0, flushes = True, room = 9\<rparr>, saved = None\<rparr> =
   Some (0, 2, \<lparr>fp = None, saved = Some [1]\<rparr>)"
  using copy_loop_run[of "\<lambda>k n. (if k = 0 then [1] else [], k + 1)" "0::nat" "[[1]]" 2
      "\<lparr>fp = Some \<lparr>data = [], offset = 0, flushes = True, room = 9\<rparr>, saved = None\<rparr>"]
  by simp

end
