(* ===== verification/ZData_File.thy ===== *)
theory ZData_File
  imports Uni_File
begin

text \<open>
  obZrv/ZDataFile.hpp: a \<open>UniFile\<close> that wraps another one and masks its bytes with the high
  bytes of a 32-bit linear congruential generator seeded by the position.  The theory models
  the generator, its logarithmic jump \<open>seedAfter\<close>, and the wrapped operations, and shows
  that over any \<open>UniFile\<close> the wrapper is again a \<open>UniFile\<close>, whose content is the masked
  content: whatever the sequence of seeks and partial reads, byte \<open>i\<close> is unmasked with the
  \<open>i\<close>-th mask byte.
\<close>

section \<open>The generator\<close>

definition lcg :: "u32 \<Rightarrow> u32" where
  "lcg s = s * 22695477 + 1"

lemma unat_half: "unat (drop_bit (Suc 0) (c :: u64)) = unat c div 2"
  by (simp add: drop_bit_eq_div unat_div_distrib)

lemma unat_half_less: "c \<noteq> (0 :: u64) \<Longrightarrow> unat (drop_bit (Suc 0) c) < unat c"
  by (simp only: unat_half unat_gt_0[symmetric])

text \<open>The loop of \<open>seedAfter\<close>: \<open>count\<close> (here \<open>cnt\<close>), \<open>mul\<close>, \<open>add\<close>, \<open>accMul\<close>, \<open>accAdd\<close>.\<close>

function seed_loop :: "u64 \<Rightarrow> u32 \<Rightarrow> u32 \<Rightarrow> u32 \<Rightarrow> u32 \<Rightarrow> u32 \<times> u32" where
  "seed_loop cnt mul add accMul accAdd =
     (if cnt = 0 then (accMul, accAdd)
      else let accMul' = (if and cnt 1 \<noteq> 0 then accMul * mul else accMul);
               accAdd' = (if and cnt 1 \<noteq> 0 then accAdd * mul + add else accAdd)
           in seed_loop (drop_bit 1 cnt) (mul * mul) (add * (mul + 1)) accMul' accAdd')"
  by pat_completeness auto

termination
  by (relation "measure (\<lambda>(cnt, mul, add, accMul, accAdd). unat cnt)")
    (auto simp: unat_half_less)

declare seed_loop.simps [simp del]

definition seedAfter :: "u64 \<Rightarrow> u32" where
  "seedAfter cnt =
     (case seed_loop cnt 22695477 1 1 0 of (accMul, accAdd) \<Rightarrow> accMul * 32093 + accAdd)"

text \<open>
  One round of the loop squares the affine map \<open>x \<mapsto> mul * x + add\<close>; when the low bit is set
  the map is composed with the accumulated one.
\<close>

lemma affine_twice:
  fixes f :: "u32 \<Rightarrow> u32"
  assumes "f = (\<lambda>x. mul * x + add)"
  shows "f \<circ> f = (\<lambda>x. (mul * mul) * x + add * (mul + 1))"
  by (simp add: assms fun_eq_iff algebra_simps)

lemma funpow_twice: "(f \<circ> f) ^^ n = f ^^ (2 * n)"
proof -
  have "f \<circ> f = f ^^ 2" by (simp add: numeral_2_eq_2)
  then show ?thesis by (simp add: funpow_mult mult.commute)
qed

lemma low_bit: "and (c :: u64) 1 \<noteq> 0 \<longleftrightarrow> odd (unat c)"
proof -
  have "and c 1 \<noteq> 0 \<longleftrightarrow> unat (c mod 2) \<noteq> 0"
    by (simp only: and_one_eq unat_eq_zero)
  then show ?thesis by (simp add: unat_mod_distrib odd_iff_mod_2_eq_one)
qed

lemma seed_loop_affine:
  assumes "f = (\<lambda>x. mul * x + add)"
    and "seed_loop c mul add accMul accAdd = (M, A)"
  shows "M * x + A = (f ^^ unat c) (accMul * x + accAdd)"
  using assms
proof (induction c mul add accMul accAdd arbitrary: f rule: seed_loop.induct)
  case (1 c mul add accMul accAdd)
  show ?case
  proof (cases "c = 0")
    case True
    with "1.prems" show ?thesis by (simp add: seed_loop.simps)
  next
    case False
    let ?b = "and c 1 \<noteq> 0"
    let ?mul' = "if ?b then accMul * mul else accMul"
    let ?add' = "if ?b then accAdd * mul + add else accAdd"
    have rec: "seed_loop (drop_bit 1 c) (mul * mul) (add * (mul + 1)) ?mul' ?add' = (M, A)"
      using "1.prems"(2) False by (simp add: seed_loop.simps[of c] Let_def)
    have "M * x + A = ((f \<circ> f) ^^ unat (drop_bit 1 c)) (?mul' * x + ?add')"
      by (rule "1.IH"[OF False refl refl affine_twice[OF "1.prems"(1)] rec])
    also have "\<dots> = (f ^^ (2 * (unat c div 2))) (?mul' * x + ?add')"
      by (simp only: funpow_twice unat_half One_nat_def)
    also have "?mul' * x + ?add' = (f ^^ (unat c mod 2)) (accMul * x + accAdd)"
      using "1.prems"(1) by (auto simp: low_bit odd_iff_mod_2_eq_one algebra_simps)
    also have "(f ^^ (2 * (unat c div 2))) ((f ^^ (unat c mod 2)) (accMul * x + accAdd)) =
        (f ^^ unat c) (accMul * x + accAdd)"
      by (metis comp_apply funpow_add mult_div_mod_eq)
    finally show ?thesis .
  qed
qed

lemma seedAfter_iterates: "seedAfter n = (lcg ^^ unat n) 32093"
proof -
  obtain M A where l: "seed_loop n 22695477 1 1 0 = (M, A)" by fastforce
  have "lcg = (\<lambda>x. 22695477 * x + 1)" by (simp add: lcg_def fun_eq_iff mult.commute)
  from seed_loop_affine[OF this l, of 32093] l show ?thesis
    by (simp add: seedAfter_def)
qed

section \<open>Masking a buffer\<close>

text \<open>The loop of \<open>ZDataFile::read\<close> over the bytes just read.\<close>

definition mask_byte :: "u32 \<Rightarrow> u8" where
  "mask_byte seed = ucast (drop_bit 16 seed)"

fun unmask :: "u32 \<Rightarrow> bytes \<Rightarrow> bytes \<times> u32" where
  "unmask seed [] = ([], seed)"
| "unmask seed (b # bs) =
     (let seed' = lcg seed in
      case unmask seed' bs of (out, seed'') \<Rightarrow> (xor b (mask_byte seed') # out, seed''))"

lemma snd_unmask: "snd (unmask s bs) = (lcg ^^ length bs) s"
  by (induction s bs rule: unmask.induct)
    (simp_all add: Let_def split_beta funpow_swap1)

lemma length_unmask [simp]: "length (fst (unmask s bs)) = length bs"
  by (induction s bs rule: unmask.induct) (simp_all add: Let_def split_beta)

lemma fst_unmask_append:
  "fst (unmask s (xs @ ys)) = fst (unmask s xs) @ fst (unmask ((lcg ^^ length xs) s) ys)"
  by (induction s xs rule: unmask.induct) (simp_all add: Let_def split_beta funpow_swap1)

lemma unmask_drop: "k \<le> length bs \<Longrightarrow>
    drop k (fst (unmask s bs)) = fst (unmask ((lcg ^^ k) s) (drop k bs))"
  using fst_unmask_append[of s "take k bs" "drop k bs"] by (simp add: min_def)

lemma unmask_take: "take n (fst (unmask s bs)) = fst (unmask s (take n bs))"
  using fst_unmask_append[of s "take n bs" "drop n bs"]
  by (cases "n \<le> length bs") (auto simp: min_def)

lemma unmask_slice:
  "take n (drop k (fst (unmask s bs))) = fst (unmask ((lcg ^^ k) s) (take n (drop k bs)))"
  by (cases "k \<le> length bs") (simp_all add: unmask_drop unmask_take)

lemma unmask_involutive: "fst (unmask s (fst (unmask s bs))) = bs"
  by (induction s bs rule: unmask.induct)
    (simp_all add: Let_def split_beta xor.assoc)

lemma unmask_nth: "i < length bs \<Longrightarrow>
    fst (unmask s bs) ! i = xor (bs ! i) (mask_byte ((lcg ^^ Suc i) s))"
proof (induction bs arbitrary: s i)
  case Nil
  then show ?case by simp
next
  case (Cons b bs)
  then show ?case
    by (cases i) (simp_all add: Let_def split_beta funpow_swap1)
qed

section \<open>The wrapped file\<close>

text \<open>\<open>_inner\<close>, \<open>_pos\<close>, \<open>_seed\<close>; a moved-from \<open>unique_ptr\<close> is \<open>None\<close>.\<close>

record 'f zdata_file =
  inner :: "'f option"
  zpos :: u64
  zseed :: u32

definition zd_new :: "('f \<Rightarrow> int \<times> 'f) \<Rightarrow> 'f option \<Rightarrow> 'f zdata_file" where
  "zd_new tell inn =
     (case inn of None \<Rightarrow> \<lparr>inner = None, zpos = 0, zseed = 32093\<rparr>
      | Some i \<Rightarrow> (case tell i of (p, i') \<Rightarrow>
          if p > 0 then \<lparr>inner = Some i', zpos = word_of_int p,
                         zseed = seedAfter (word_of_int p)\<rparr>
          else \<lparr>inner = Some i', zpos = 0, zseed = 32093\<rparr>))"

definition zd_seek ::
  "('f \<Rightarrow> int \<Rightarrow> whence \<Rightarrow> int \<times> 'f) \<Rightarrow> ('f \<Rightarrow> int \<times> 'f)
    \<Rightarrow> 'f zdata_file \<Rightarrow> int \<Rightarrow> whence \<Rightarrow> int \<times> 'f zdata_file" where
  "zd_seek seek tell z off w =
     (case inner z of None \<Rightarrow> (-1, z)
      | Some i \<Rightarrow> (case seek i off w of (r, i1) \<Rightarrow>
          if r \<noteq> 0 then (-1, z\<lparr>inner := Some i1\<rparr>)
          else case tell i1 of (p, i2) \<Rightarrow>
          if p < 0 then (-1, z\<lparr>inner := Some i2\<rparr>)
          else (0, z\<lparr>inner := Some i2, zpos := word_of_int p,
                     zseed := seedAfter (word_of_int p)\<rparr>)))"

definition zd_tell :: "('f \<Rightarrow> int \<times> 'f) \<Rightarrow> 'f zdata_file \<Rightarrow> int \<times> 'f zdata_file" where
  "zd_tell tell z =
     (case inner z of None \<Rightarrow> (-1, z)
      | Some i \<Rightarrow> (case tell i of (p, i') \<Rightarrow> (p, z\<lparr>inner := Some i'\<rparr>)))"

definition zd_read ::
  "('f \<Rightarrow> nat \<Rightarrow> bytes \<times> 'f) \<Rightarrow> 'f zdata_file \<Rightarrow> nat \<Rightarrow> bytes \<times> 'f zdata_file" where
  "zd_read read z n =
     (case inner z of None \<Rightarrow> ([], z)
      | Some i \<Rightarrow> if n = 0 then ([], z)
         else case read i n of (bs, i') \<Rightarrow>
         case unmask (zseed z) bs of (out, seed') \<Rightarrow>
           (out, z\<lparr>inner := Some i', zpos := zpos z + of_nat (length bs), zseed := seed'\<rparr>))"

definition zd_write :: "'f zdata_file \<Rightarrow> bytes \<Rightarrow> nat \<times> 'f zdata_file" where
  "zd_write z bs = (0, z)"

definition zd_close :: "('f \<Rightarrow> int \<times> 'f) \<Rightarrow> 'f zdata_file \<Rightarrow> int \<times> 'f zdata_file" where
  "zd_close close z =
     (case inner z of None \<Rightarrow> (0, z)
      | Some i \<Rightarrow> (case close i of (r, i') \<Rightarrow> (r, z\<lparr>inner := Some i'\<rparr>)))"

text \<open>\<open>isZDataExt\<close>: the extensions z00 to z99.\<close>

definition isZDataExt :: "string \<Rightarrow> bool" where
  "isZDataExt ext \<longleftrightarrow> length ext = 3 \<and> ext ! 0 = CHR ''z'' \<and>
     CHR ''0'' \<le> ext ! 1 \<and> ext ! 1 \<le> CHR ''9'' \<and> CHR ''0'' \<le> ext ! 2 \<and> ext ! 2 \<le> CHR ''9''"

text \<open>The whole masked content, and when the wrapper's own position and seed are right.\<close>

definition zd_content :: "('f \<Rightarrow> bytes) \<Rightarrow> 'f zdata_file \<Rightarrow> bytes" where
  "zd_content content z =
     (case inner z of None \<Rightarrow> [] | Some i \<Rightarrow> fst (unmask 32093 (content i)))"

definition zd_pos :: "('f \<Rightarrow> nat) \<Rightarrow> 'f zdata_file \<Rightarrow> nat" where
  "zd_pos pos z = (case inner z of None \<Rightarrow> 0 | Some i \<Rightarrow> pos i)"

definition zd_good :: "('f \<Rightarrow> nat) \<Rightarrow> ('f \<Rightarrow> bool) \<Rightarrow> 'f zdata_file \<Rightarrow> bool" where
  "zd_good pos good z = (case inner z of None \<Rightarrow> False
     | Some i \<Rightarrow> good i \<and> zpos z = of_nat (pos i) \<and> zseed z = (lcg ^^ pos i) 32093)"

lemmas zd_defs = zd_seek_def zd_tell_def zd_read_def zd_content_def zd_pos_def zd_good_def

lemma seedAfter_pos: "n < 2 ^ 63 \<Longrightarrow> seedAfter (word_of_int (int n)) = (lcg ^^ n) 32093"
  by (simp add: seedAfter_iterates unat_of_nat take_bit_eq_mod)

lemmas seedAfter_pos' [simp] = seedAfter_pos[simplified of_int_of_nat_eq]

text \<open>A \<open>UniFile\<close> that gets wrapped.\<close>

locale wrapped_unifile = unifile

sublocale wrapped_unifile \<subseteq> zd: unifile "zd_seek seek tell" "zd_tell tell" "zd_read read"
  "zd_content content" "zd_pos pos" "zd_good pos good"
proof (unfold_locales, goal_cases)
  case (1 f)
  then show ?case using small by (auto simp: zd_defs split: option.splits)
next
  case (2 f n r g)
  then obtain i where i: "inner f = Some i" "good i" by (auto simp: zd_defs split: option.splits)
  obtain r1 i1 where s: "seek i (int n) SEEK_SET = (r1, i1)" by fastforce
  obtain p i2 where t: "tell i1 = (p, i2)" by fastforce
  note s' = seek_set[OF i(2) 2(2) s]
  then have "p = int n" "good i2" "content i2 = content i" "pos i2 = n"
    using tell[OF _ t] by auto
  then show ?case using 2 i s s' t
    by (auto simp: zd_defs)
next
  case (3 f r g)
  then obtain i where i: "inner f = Some i" "good i" by (auto simp: zd_defs split: option.splits)
  obtain r1 i1 where s: "seek i 0 SEEK_END = (r1, i1)" by fastforce
  obtain p i2 where t: "tell i1 = (p, i2)" by fastforce
  note s' = seek_end[OF i(2) s]
  then have "p = int (pos i2)" "good i2" "content i2 = content i" "pos i2 = length (content i)"
    using tell[OF _ t] by auto
  then show ?case using 3 i s s' t small[OF i(2)]
    by (auto simp: zd_defs)
next
  case (4 f r g)
  then obtain i where i: "inner f = Some i" "good i" by (auto simp: zd_defs split: option.splits)
  obtain p i1 where t: "tell i = (p, i1)" by fastforce
  from tell[OF i(2) t] 4 i t show ?case by (auto simp: zd_defs)
next
  case (5 f n bs g)
  then obtain i where i: "inner f = Some i" "good i" and
    z: "zpos f = of_nat (pos i)" "zseed f = (lcg ^^ pos i) 32093"
    by (auto simp: zd_defs split: option.splits)
  obtain raw i1 where r: "read i n = (raw, i1)" by fastforce
  note r' = read[OF i(2) r]
  show ?case
  proof (cases "n = 0")
    case True
    with 5 i z show ?thesis by (auto simp: zd_defs)
  next
    case False
    then show ?thesis using 5 i z r r'
      by (auto simp: zd_defs split_beta snd_unmask unmask_slice funpow_add[symmetric]
          add.commute simp flip: comp_apply[of "lcg ^^ _" "lcg ^^ _"])
  qed
qed

interpretation lfz: wrapped_unifile lf_seek lf_tell lf_read lf_content lf_pos lf_good
  by unfold_locales

section \<open>Properties\<close>

text \<open>
   The logarithmic jump agrees with the generator: \<open>seedAfter n\<close> is the seed after \<open>n\<close>
  rounds of \<open>s * 22695477 + 1\<close> from 32093, for every 64-bit position \<open>n\<close> (all arithmetic
  modulo \<open>2 ^ 32\<close>).
\<close>

theorem seedAfter_jumps: "seedAfter n = (lcg ^^ unat n) 32093"
  by (rule seedAfter_iterates)

text \<open>
  C6.  Random access is exact: after a seek of a masked local file to any position \<open>n\<close>, a read
  of \<open>k\<close> bytes returns byte \<open>j\<close> of the file xored with the \<open>j\<close>-th byte of the mask stream, for
  the positions \<open>j\<close> from \<open>n\<close> to the end of the request or of the file, and the position is
  advanced by what was read.
\<close>

theorem zdata_random_access:
  assumes "lf_good f" and "n < 2 ^ 63"
    and "zd_seek lf_seek lf_tell (zd_new lf_tell (Some f)) (int n) SEEK_SET = (r, z)"
    and "zd_read lf_read z k = (out, z')"
  shows "r = 0 \<and> fst (zd_tell lf_tell z') = int (n + length out) \<and>
    out = map (\<lambda>j. xor (lf_content f ! j) (mask_byte ((lcg ^^ Suc j) 32093)))
            [n ..< min (n + k) (length (lf_content f))]"
proof -
  let ?z = "zd_new lf_tell (Some f)"
  have p: "lf_pos f < 2 ^ 63" and t: "lf_tell f = (int (lf_pos f), f)"
    using assms(1) by (auto simp: lf_defs split: option.splits)
  from t have i: "inner ?z = Some f" by (simp add: zd_new_def)
  have "zd_good lf_pos lf_good ?z"
    using assms(1) p t by (simp add: zd_good_def zd_new_def)
  from lfz.zd.seek_set[OF this assms(2,3)] i
  have z: "r = 0" "zd_good lf_pos lf_good z" "zd_pos lf_pos z = n"
    "zd_content lf_content z = fst (unmask 32093 (lf_content f))"
    by (simp_all add: zd_content_def)
  from lfz.zd.read[OF z(2) assms(4)] z
  have out: "out = take k (drop n (fst (unmask 32093 (lf_content f))))"
    and z': "zd_good lf_pos lf_good z'" "zd_pos lf_pos z' = n + length out" by auto
  obtain r' g where "zd_tell lf_tell z' = (r', g)" by fastforce
  with lfz.zd.tell[OF z'(1) this] z'(2) have "fst (zd_tell lf_tell z') = int (n + length out)"
    by simp
  moreover have "out = map (\<lambda>j. xor (lf_content f ! j) (mask_byte ((lcg ^^ Suc j) 32093)))
            [n ..< min (n + k) (length (lf_content f))]"
    unfolding out by (rule nth_equalityI) (auto simp: unmask_nth simp del: funpow.simps)
  ultimately show ?thesis using z(1) by simp
qed

theorem zdata_random_access_witness:
  "let f = \<lparr>fp = Some \<lparr>data = [7, 8, 9], offset = 0, flushes = True, room = 0\<rparr>, saved = None\<rparr>;
       z = snd (zd_seek lf_seek lf_tell (zd_new lf_tell (Some f)) 1 SEEK_SET)
   in fst (zd_read lf_read z 5) =
        [xor 8 (mask_byte (lcg (lcg 32093))), xor 9 (mask_byte (lcg (lcg (lcg 32093))))]"
proof -
  let ?f = "\<lparr>fp = Some \<lparr>data = [7, 8, 9], offset = 0, flushes = True, room = 0\<rparr>, saved = None\<rparr>"
  let ?s = "zd_seek lf_seek lf_tell (zd_new lf_tell (Some ?f)) 1 SEEK_SET"
  have "lf_good ?f" by (simp add: lf_good_def)
  from zdata_random_access[OF this, of 1 "fst ?s" "snd ?s" 5
      "fst (zd_read lf_read (snd ?s) 5)" "snd (zd_read lf_read (snd ?s) 5)"]
  have "fst (zd_read lf_read (snd ?s) 5) =
      map (\<lambda>j. xor (lf_content ?f ! j) (mask_byte ((lcg ^^ Suc j) 32093)))
        [1 ..< min 6 (length (lf_content ?f))]"
    by simp
  also have "[1 ..< min 6 (length (lf_content ?f))] = [1, 2]"
    by (simp add: lf_content_def upt_rec)
  finally show ?thesis by (simp add: lf_content_def numeral_eq_Suc Let_def)
qed

text \<open>
   Masking is undone on the way to the codecs: a local file that holds the masked form of
  \<open>plain\<close> is loaded through the wrapper by \<open>Image::readFromUniFile\<close> as \<open>plain\<close>.
\<close>

theorem zdata_roundtrip:
  assumes "lf_good f" and "lf_content f = fst (unmask 32093 plain)" and "plain \<noteq> []"
  shows "\<exists>g. read_from_unifile (zd_seek lf_seek lf_tell) (zd_tell lf_tell) (zd_read lf_read) im
      (zd_new lf_tell (Some f)) =
      (IM_OK, im\<lparr>filesize := length plain, filebuf := Some plain\<rparr>, g)"
proof -
  let ?z = "zd_new lf_tell (Some f)"
  have p: "lf_pos f < 2 ^ 63" and t: "lf_tell f = (int (lf_pos f), f)"
    using assms(1) by (auto simp: lf_defs split: option.splits)
  from t have i: "inner ?z = Some f" by (simp add: zd_new_def)
  have g: "zd_good lf_pos lf_good ?z"
    using assms(1) p t by (simp add: zd_good_def zd_new_def)
  have c: "zd_content lf_content ?z = plain"
    using i assms(2) by (simp add: zd_content_def unmask_involutive)
  show ?thesis using lfz.zd.read_from_unifile_all[OF g] c assms(3) by fastforce
qed

theorem zdata_roundtrip_witness:
  "\<exists>g. read_from_unifile (zd_seek lf_seek lf_tell) (zd_tell lf_tell) (zd_read lf_read)
      \<lparr>filebuf = None, filesize = 0\<rparr>
      (zd_new lf_tell (Some
        \<lparr>fp = Some \<lparr>data = fst (unmask 32093 [7]), offset = 0, flushes = True, room = 0\<rparr>,
         saved = None\<rparr>)) =
      (IM_OK, \<lparr>filebuf = Some [7], filesize = 1\<rparr>, g)"
  using zdata_roundtrip[of
      "\<lparr>fp = Some \<lparr>data = fst (unmask 32093 [7]), offset = 0, flushes = True, room = 0\<rparr>, saved = None\<rparr>"
      "[7]" "\<lparr>filebuf = None, filesize = 0\<rparr>"]
  by (simp add: lf_good_def lf_content_def lf_pos_def del: unmask.simps)

end
