(* ===== verification/File_Type.thy ===== *)
theory File_Type
  imports Uni_File
begin

text \<open>
  obZrv/filetype.cpp: the image type from the first 512 bytes of a file.  \<open>classify\<close> is the
  chain of signature tests in the order of the code, \<open>filetype\<close> the function that reads the
  head of the file and puts the position back.
\<close>

section \<open>Signature tests\<close>

text \<open>\<open>match(buf, size, off, magic, len)\<close>, with the \<open>size\<close> bytes read as the list.\<close>

definition sig_match :: "bytes \<Rightarrow> nat \<Rightarrow> bytes \<Rightarrow> bool" where
  "sig_match buf off magic \<longleftrightarrow>
     length buf \<ge> off + length magic \<and> take (length magic) (drop off buf) = magic"

text \<open>\<open>for (off = 8; off + 4 <= size && off < 64; off += 4)\<close>\<close>

function brand_loop :: "bytes \<Rightarrow> bytes \<Rightarrow> nat \<Rightarrow> bool" where
  "brand_loop buf brand off =
     (if off + 4 \<le> length buf \<and> off < 64
      then if take 4 (drop off buf) = brand then True else brand_loop buf brand (off + 4)
      else False)"
  by pat_completeness auto
termination
  by (relation "measure (\<lambda>(buf, brand, off). 64 - off)") auto

declare brand_loop.simps [simp del]

definition isFtypBrand :: "bytes \<Rightarrow> bytes \<Rightarrow> bool" where
  "isFtypBrand buf brand =
     (if \<not> sig_match buf 4 (lit ''ftyp'') then False else brand_loop buf brand 8)"

section \<open>The chain of tests\<close>

definition classify :: "bytes \<Rightarrow> string" where
  "classify buf =
    (let m = sig_match buf; b = (\<lambda>s. isFtypBrand buf (lit s)) in
     if length buf = 0 then ''UNK''
     else if length buf \<ge> 3 \<and> buf ! 0 = 0xff \<and> buf ! 1 = 0xd8 \<and> buf ! 2 = 0xff then ''jpg''
     else if m 0 [0x89, 0x50, 0x4e, 0x47, 0x0d, 0x0a, 0x1a, 0x0a] then ''png''
     else if m 0 (lit ''GIF87a'') \<or> m 0 (lit ''GIF89a'') then ''gif''
     else if m 0 (lit ''BM'') then ''bmp''
     else if m 0 (lit ''II*'' @ [0]) \<or> m 0 (lit ''MM'' @ [0] @ lit ''*'') then ''tiff''
     else if m 0 [0, 0, 1, 0] then ''ico''
     else if m 0 (lit ''RIFF'') \<and> m 8 (lit ''WEBP'') then ''webp''
     else if m 0 ([0, 0, 0, 0x0c] @ lit ''jP  '' @ [0x0d, 0x0a, 0x87, 0x0a]) \<or> b ''jp2 ''
       then ''jp2''
     else if m 0 [0xff, 0x0a] \<or> m 0 ([0, 0, 0, 0x0c] @ lit ''JXL '' @ [0x0d, 0x0a, 0x87, 0x0a])
       then ''jxl''
     else if m 0 (lit ''8BPS'') then ''psd''
     else if m 0 (lit ''P1'') \<or> m 0 (lit ''P2'') \<or> m 0 (lit ''P3'') \<or> m 0 (lit ''P4'') \<or>
             m 0 (lit ''P5'') \<or> m 0 (lit ''P6'') \<or> m 0 (lit ''P7'') then ''pnm''
     else if b ''avif'' \<or> b ''avis'' then ''avif''
     else if b ''heic'' \<or> b ''heix'' \<or> b ''hevc'' \<or> b ''hevx'' \<or> b ''mif1'' \<or> b ''msf1''
       then ''heic''
     else if m 0 (lit ''DDS '') then ''dds''
     else if m 0 [0x76, 0x2f, 0x31, 0x01] then ''exr''
     else if m 0 (lit ''#?RADIANCE'') \<or> m 0 (lit ''#?RGBE'') then ''hdr''
     else if m 0 (lit ''qoif'') then ''qoi''
     else if m 0 (lit ''farbfeld'') then ''ff''
     else if m 0 (lit ''icns'') then ''icns''
     else if m 0 [0, 0, 2, 0] then ''cur''
     else if m 0 [0xd7, 0xcd, 0xc6, 0x9a] then ''wmf''
     else if m 40 (lit '' EMF'') then ''emf''
     else ''UNK'')"

definition filetype ::
  "('f \<Rightarrow> int \<Rightarrow> whence \<Rightarrow> int \<times> 'f) \<Rightarrow> ('f \<Rightarrow> int \<times> 'f) \<Rightarrow> ('f \<Rightarrow> nat \<Rightarrow> bytes \<times> 'f)
    \<Rightarrow> 'f \<Rightarrow> string \<times> 'f" where
  "filetype seek tell read f =
     (case tell f of (p, f1) \<Rightarrow>
      case seek f1 0 SEEK_SET of (r, f2) \<Rightarrow>
      if r \<noteq> 0 then (''UNK'', f2)
      else case read f2 512 of (buf, f3) \<Rightarrow>
      let f4 = (if p \<ge> 0 then snd (seek f3 p SEEK_SET) else f3)
      in (classify buf, f4))"

section \<open>The brand loop as a search\<close>

lemma brand_loop_iff: "brand_loop buf brand off \<longleftrightarrow>
    (\<exists>k. off + 4 * k < 64 \<and> off + 4 * k + 4 \<le> length buf \<and>
         take 4 (drop (off + 4 * k) buf) = brand)"
proof (induction buf brand off rule: brand_loop.induct)
  case (1 buf brand off)
  let ?P = "\<lambda>o' k. o' + 4 * k < 64 \<and> o' + 4 * k + 4 \<le> length buf \<and>
         take 4 (drop (o' + 4 * k) buf) = brand"
  have split: "(\<exists>k. ?P off k) \<longleftrightarrow> ?P off 0 \<or> (\<exists>k. ?P (off + 4) k)"
  proof -
    have "(\<exists>k. ?P off k) \<longleftrightarrow> ?P off 0 \<or> (\<exists>k. ?P off (Suc k))"
      by (metis not0_implies_Suc)
    moreover have "?P off (Suc k) = ?P (off + 4) k" for k
      by (simp add: add.assoc)
    ultimately show ?thesis by simp
  qed
  show ?case
  proof (cases "off + 4 \<le> length buf \<and> off < 64")
    case True
    with 1 split show ?thesis
      by (auto simp: brand_loop.simps[of buf brand off])
  next
    case False
    then show ?thesis by (auto simp: brand_loop.simps[of buf brand off])
  qed
qed

section \<open>filetype against the UniFile contract\<close>

context unifile
begin

lemma filetype_head:
  assumes "good f"
  shows "\<exists>g. filetype seek tell read f = (classify (take 512 (content f)), g) \<and>
      good g \<and> content g = content f \<and> pos g = pos f"
proof -
  obtain p f1 where t: "tell f = (p, f1)" by fastforce
  note t' = tell[OF assms t]
  obtain r f2 where s: "seek f1 0 SEEK_SET = (r, f2)" by fastforce
  from seek_set[of f1 0 r f2] s t'
  have s': "r = 0" "good f2" "content f2 = content f" "pos f2 = 0" by auto
  obtain buf f3 where rd: "read f2 512 = (buf, f3)" by fastforce
  from read[OF s'(2) rd] s'
  have rd': "buf = take 512 (content f)" "good f3" "content f3 = content f" by auto
  obtain r' f4 where s2: "seek f3 p SEEK_SET = (r', f4)" by fastforce
  from seek_set[of f3 "pos f" r' f4] s2 rd' t' small[OF assms]
  have "good f4" "content f4 = content f" "pos f4 = pos f" by auto
  with t s s' rd rd' s2 t' show ?thesis
    by (simp add: filetype_def)
qed

end

section \<open>Properties\<close>

text \<open>
  The type of a local file is decided by its first 512 bytes, wherever the position is,
  and looking at the type neither changes the content nor moves the position.
\<close>

theorem filetype_local:
  assumes "lf_good f"
  shows "\<exists>g. filetype lf_seek lf_tell lf_read f = (classify (take 512 (lf_content f)), g) \<and>
    lf_content g = lf_content f \<and> lf_pos g = lf_pos f"
  using lf.filetype_head[OF assms] by blast

theorem filetype_local_witness:
  "fst (filetype lf_seek lf_tell lf_read
     \<lparr>fp = Some \<lparr>data = [0xff, 0xd8, 0xff, 0xe0], offset = 3, flushes = True, room = 0\<rparr>, saved = None\<rparr>)
   = ''jpg''"
proof -
  have "lf_good \<lparr>fp = Some \<lparr>data = [0xff, 0xd8, 0xff, 0xe0], offset = 3, flushes = True, room = 0\<rparr>,
      saved = None\<rparr>" by (simp add: lf_good_def)
  from filetype_local[OF this] show ?thesis
    by (auto simp: lf_content_def classify_def)
qed

text \<open>
   The brand test of ISO media files accepts exactly the files with \<open>ftyp\<close> at offset 4 and
  the brand in one of the 4-byte slots from offset 8 on that lie in the buffer and below 64;
  the loop stops on every input.
\<close>

theorem isFtypBrand_iff:
  "isFtypBrand buf brand \<longleftrightarrow> take 4 (drop 4 buf) = lit ''ftyp'' \<and>
     (\<exists>k<14. 12 + 4 * k \<le> length buf \<and> take 4 (drop (8 + 4 * k) buf) = brand)"
proof -
  have l: "length (lit ''ftyp'') = 4" by (simp add: lit_def)
  have m: "sig_match buf 4 (lit ''ftyp'') \<longleftrightarrow> take 4 (drop 4 buf) = lit ''ftyp''"
  proof
    assume t: "take 4 (drop 4 buf) = lit ''ftyp''"
    then have "length (take 4 (drop 4 buf)) = 4" by (simp only: l)
    then have "8 \<le> length buf" by auto
    with t show "sig_match buf 4 (lit ''ftyp'')" by (simp add: sig_match_def l)
  qed (simp add: sig_match_def l)
  have "(8 + 4 * k < 64) \<longleftrightarrow> k < (14 :: nat)" for k by auto
  then show ?thesis
    by (auto simp: isFtypBrand_def m brand_loop_iff add.commute add.assoc)
qed

end
