(* ===== verification/Protocol.thy ===== *)
theory Protocol
  imports Prelude
begin

text \<open>
  unifs/protocol.hpp: the constants and the little-endian integer encoding of the wire format,
  with the round trips both ways, and the frame \<open>[len:u32][req_id:u16][cmd:u8][payload]\<close> that
  \<open>RemoteConn::send_request\<close> builds and \<open>RemoteConn::on_header\<close> takes apart.
\<close>

section \<open>Constants\<close>

definition FRAME_HEADER_SIZE :: nat where "FRAME_HEADER_SIZE = 7"
definition MAX_PAYLOAD_SIZE :: nat where "MAX_PAYLOAD_SIZE = 1048576"

definition CMD_FS_READDIR :: u8 where "CMD_FS_READDIR = 0x01"
definition CMD_FS_REMOVE :: u8 where "CMD_FS_REMOVE = 0x06"
definition CMD_FILE_OPEN :: u8 where "CMD_FILE_OPEN = 0x11"
definition CMD_FILE_SEEK :: u8 where "CMD_FILE_SEEK = 0x12"
definition CMD_FILE_TELL :: u8 where "CMD_FILE_TELL = 0x13"
definition CMD_FILE_READ :: u8 where "CMD_FILE_READ = 0x14"
definition CMD_FILE_WRITE :: u8 where "CMD_FILE_WRITE = 0x15"
definition CMD_FILE_CLOSE :: u8 where "CMD_FILE_CLOSE = 0x16"
definition CMD_HEARTBEAT :: u8 where "CMD_HEARTBEAT = 0xFF"

definition STATUS_OK :: u8 where "STATUS_OK = 0x00"
definition STATUS_ERR_GENERIC :: u8 where "STATUS_ERR_GENERIC = 0x01"
definition STATUS_ERR_NOT_FOUND :: u8 where "STATUS_ERR_NOT_FOUND = 0x02"
definition STATUS_ERR_PERM :: u8 where "STATUS_ERR_PERM = 0x03"
definition STATUS_ERR_BAD_HANDLE :: u8 where "STATUS_ERR_BAD_HANDLE = 0x04"
definition STATUS_ERR_BAD_ARG :: u8 where "STATUS_ERR_BAD_ARG = 0x05"

definition FILE_FLAG_READ :: u8 where "FILE_FLAG_READ = 0x01"
definition FILE_FLAG_WRITE :: u8 where "FILE_FLAG_WRITE = 0x02"
definition FILE_FLAG_RDWR :: u8 where "FILE_FLAG_RDWR = 0x03"
definition FILE_FLAG_APPEND :: u8 where "FILE_FLAG_APPEND = 0x04"

lemmas cmd_defs = CMD_FS_READDIR_def CMD_FS_REMOVE_def CMD_FILE_OPEN_def CMD_FILE_SEEK_def
  CMD_FILE_TELL_def CMD_FILE_READ_def CMD_FILE_WRITE_def CMD_FILE_CLOSE_def CMD_HEARTBEAT_def

lemmas status_defs = STATUS_OK_def STATUS_ERR_GENERIC_def STATUS_ERR_NOT_FOUND_def
  STATUS_ERR_PERM_def STATUS_ERR_BAD_HANDLE_def STATUS_ERR_BAD_ARG_def

section \<open>Little-endian integers\<close>

text \<open>
  \<open>htop\<close>/\<open>ptoh\<close> are the identity on a little-endian host and a byte swap on a big-endian
  one, so that after the \<open>memcpy\<close> the bytes are least significant first on both.
\<close>

fun le_bytes :: "nat \<Rightarrow> 'a::len word \<Rightarrow> bytes" where
  "le_bytes 0 v = []"
| "le_bytes (Suc n) v = ucast v # le_bytes n (drop_bit 8 v)"

fun le_word :: "bytes \<Rightarrow> 'a::len word" where
  "le_word [] = 0"
| "le_word (b # bs) = or (ucast b) (push_bit 8 (le_word bs))"

definition proto_write_u16 :: "u16 \<Rightarrow> bytes" where "proto_write_u16 v = le_bytes 2 v"
definition proto_write_u32 :: "u32 \<Rightarrow> bytes" where "proto_write_u32 v = le_bytes 4 v"
definition proto_write_u64 :: "u64 \<Rightarrow> bytes" where "proto_write_u64 v = le_bytes 8 v"
definition proto_write_i64 :: "int \<Rightarrow> bytes" where
  "proto_write_i64 v = le_bytes 8 (word_of_int v :: u64)"

definition proto_read_u16 :: "bytes \<Rightarrow> u16" where "proto_read_u16 p = le_word (take 2 p)"
definition proto_read_u32 :: "bytes \<Rightarrow> u32" where "proto_read_u32 p = le_word (take 4 p)"
definition proto_read_u64 :: "bytes \<Rightarrow> u64" where "proto_read_u64 p = le_word (take 8 p)"
definition proto_read_i64 :: "bytes \<Rightarrow> int" where
  "proto_read_i64 p = sint (le_word (take 8 p) :: u64)"

lemmas proto_defs = proto_write_u16_def proto_write_u32_def proto_write_u64_def
  proto_write_i64_def proto_read_u16_def proto_read_u32_def proto_read_u64_def
  proto_read_i64_def

lemma le_bytes_numeral:
  "le_bytes (numeral k) v = ucast v # le_bytes (pred_numeral k) (drop_bit 8 v)"
  by (simp add: numeral_eq_Suc)

lemma length_le_bytes [simp]: "length (le_bytes n v) = n"
  by (induction n v rule: le_bytes.induct) simp_all

lemma le_word_step:
  "or (ucast (ucast v :: u8)) (push_bit 8 (take_bit (8 * n) (drop_bit 8 v))) =
   take_bit (8 + 8 * n) (v :: 'a::len word)"
  by (rule bit_word_eqI)
    (auto simp: bit_or_iff bit_push_bit_iff bit_take_bit_iff bit_drop_bit_eq bit_ucast_iff
      bit_imp_le_length)

lemma le_word_le_bytes: "le_word (le_bytes n v) = take_bit (8 * n) (v :: 'a::len word)"
  by (induction n v rule: le_bytes.induct) (simp_all add: le_word_step)

lemma le_bytes_step:
  assumes "8 + 8 * n \<le> LENGTH('a)"
  shows "ucast (or (ucast b) (push_bit 8 w) :: 'a::len word) = (b :: u8)"
  using assms
  by (intro bit_word_eqI)
    (auto simp: bit_or_iff bit_push_bit_iff bit_ucast_iff dest: bit_imp_le_length)

lemma le_word_bound: "take_bit (8 * length bs) (le_word bs :: 'a::len word) = le_word bs"
proof (induction bs)
  case Nil
  then show ?case by simp
next
  case (Cons b bs)
  have "take_bit (8 + 8 * length bs) (push_bit 8 (le_word bs :: 'a word)) =
      push_bit 8 (take_bit (8 * length bs) (le_word bs))"
    by (rule bit_word_eqI)
      (auto simp: bit_push_bit_iff bit_take_bit_iff)
  moreover have "take_bit (8 + 8 * length bs) (ucast b :: 'a word) = ucast b"
    by (rule bit_word_eqI) (auto simp: bit_take_bit_iff bit_ucast_iff dest: bit_imp_le_length)
  ultimately show ?case using Cons.IH by simp
qed

lemma drop_or_push:
  assumes "take_bit n w = w" and "n + 8 \<le> LENGTH('a)"
  shows "drop_bit 8 (or (ucast (b :: u8)) (push_bit 8 w) :: 'a::len word) = w"
proof (rule bit_word_eqI)
  fix k assume k: "k < LENGTH('a)"
  have "bit w k \<longleftrightarrow> k < n \<and> bit w k"
    by (metis assms(1) bit_take_bit_iff)
  then show "bit (drop_bit 8 (or (ucast b) (push_bit 8 w)) :: 'a word) k = bit w k"
    using assms(2) k
    by (auto simp: bit_drop_bit_eq bit_or_iff bit_push_bit_iff bit_ucast_iff
        dest: bit_imp_le_length)
qed

lemma le_bytes_le_word:
  "8 * length bs \<le> LENGTH('a) \<Longrightarrow> le_bytes (length bs) (le_word bs :: 'a::len word) = bs"
proof (induction bs)
  case Nil
  then show ?case by simp
next
  case (Cons b bs)
  then have l: "8 + 8 * length bs \<le> LENGTH('a)" by simp
  have "drop_bit 8 (or (ucast b) (push_bit 8 (le_word bs)) :: 'a word) = le_word bs"
    by (rule drop_or_push[OF le_word_bound]) (use l in simp)
  with Cons le_bytes_step[OF l] show ?case by simp
qed

lemma write_read_u16 [simp]: "proto_read_u16 (proto_write_u16 v @ bs) = v"
  by (simp add: proto_defs le_word_le_bytes take_bit_word_eq_self)
lemma write_read_u32 [simp]: "proto_read_u32 (proto_write_u32 v @ bs) = v"
  by (simp add: proto_defs le_word_le_bytes take_bit_word_eq_self)
lemma write_read_u64 [simp]: "proto_read_u64 (proto_write_u64 v @ bs) = v"
  by (simp add: proto_defs le_word_le_bytes take_bit_word_eq_self)
lemma write_read_i64:
  "- (2 ^ 63) \<le> v \<Longrightarrow> v < 2 ^ 63 \<Longrightarrow> proto_read_i64 (proto_write_i64 v @ bs) = v"
  by (simp add: proto_defs le_word_le_bytes take_bit_word_eq_self signed_take_bit_int_eq_self signed_of_int)

lemma read_write_u16: "2 \<le> length p \<Longrightarrow> proto_write_u16 (proto_read_u16 p) = take 2 p"
  using le_bytes_le_word[of "take 2 p", where 'a = 16] by (simp add: proto_defs min_absorb2)
lemma read_write_u32: "4 \<le> length p \<Longrightarrow> proto_write_u32 (proto_read_u32 p) = take 4 p"
  using le_bytes_le_word[of "take 4 p", where 'a = 32] by (simp add: proto_defs min_absorb2)
lemma read_write_u64: "8 \<le> length p \<Longrightarrow> proto_write_u64 (proto_read_u64 p) = take 8 p"
  using le_bytes_le_word[of "take 8 p", where 'a = 64] by (simp add: proto_defs min_absorb2)

lemma read_take_u16: "2 \<le> n \<Longrightarrow> proto_read_u16 (take n p) = proto_read_u16 p"
  by (simp add: proto_defs min_def)
lemma read_take_u32: "4 \<le> n \<Longrightarrow> proto_read_u32 (take n p) = proto_read_u32 p"
  by (simp add: proto_defs min_def)

lemma length_proto_write [simp]:
  "length (proto_write_u16 a) = 2" "length (proto_write_u32 b) = 4"
  "length (proto_write_u64 c) = 8" "length (proto_write_i64 d) = 8"
  by (simp_all add: proto_defs)

section \<open>Frames\<close>

text \<open>The header and payload that \<open>send_request\<close> (and the heartbeat) put into a frame.\<close>

definition build_frame :: "u16 \<Rightarrow> u8 \<Rightarrow> bytes \<Rightarrow> bytes" where
  "build_frame req_id cmd payload =
     proto_write_u32 (of_nat (FRAME_HEADER_SIZE + length payload)) @
     proto_write_u16 req_id @ [cmd] @ payload"

text \<open>The three fields that \<open>on_header\<close> reads from the 7 header bytes.\<close>

definition parse_header :: "bytes \<Rightarrow> u32 \<times> u16 \<times> u8" where
  "parse_header h = (proto_read_u32 h, proto_read_u16 (drop 4 h), h ! 6)"

lemma parse_build_header:
  "parse_header (take FRAME_HEADER_SIZE (build_frame i c p @ bs)) =
     (of_nat (FRAME_HEADER_SIZE + length p), i, c)"
proof -
  have "take 7 (build_frame i c p @ bs) =
      proto_write_u32 (of_nat (7 + length p)) @ proto_write_u16 i @ [c]"
    by (simp add: build_frame_def FRAME_HEADER_SIZE_def)
  then show ?thesis
    by (simp add: parse_header_def FRAME_HEADER_SIZE_def nth_append)
qed

lemma length_build_frame [simp]:
  "length (build_frame i c p) = FRAME_HEADER_SIZE + length p"
  by (simp add: build_frame_def FRAME_HEADER_SIZE_def)

lemma drop_build_frame [simp]:
  "drop FRAME_HEADER_SIZE (build_frame i c p @ bs) = p @ bs"
  by (simp add: build_frame_def FRAME_HEADER_SIZE_def)

section \<open>Properties\<close>

text \<open>
  Integers survive the wire, and the encoding is onto: reading what was written gives the
  value back at each width, whatever follows it in the buffer, and writing what was read from
  four bytes gives those bytes.
\<close>

theorem proto_roundtrip:
  "proto_read_u16 (proto_write_u16 a @ rest) = a \<and>
   proto_read_u32 (proto_write_u32 b @ rest) = b \<and>
   proto_read_u64 (proto_write_u64 c @ rest) = c \<and>
   proto_read_i64 (proto_write_i64 (sint c) @ rest) = sint c \<and>
   proto_write_u32 (proto_read_u32 [x0, x1, x2, x3]) = [x0, x1, x2, x3]"
proof -
  have "sint c < 2 ^ 63" "- (2 ^ 63) \<le> sint c"
    using sint_range_size[of c] by (simp_all add: word_size)
  moreover have "proto_write_u32 (proto_read_u32 [x0, x1, x2, x3]) = [x0, x1, x2, x3]"
    using le_bytes_le_word[of "[x0, x1, x2, x3]", where 'a = 32]
    by (simp add: proto_defs numeral_eq_Suc)
  ultimately show ?thesis by (simp add: write_read_i64)
qed

end
