(* ===== verification/Remote_Conn.thy ===== *)
theory Remote_Conn
  imports Protocol "HOL-Library.AList"
begin

text \<open>
  unifs/remote_conn.cpp: the connection shared by the remote file system and its files.  User
  threads register a request under the pending lock and then enqueue its frame under the write
  lock; one IO thread runs the posted handlers, the completions of the single asynchronous read
  and write, and the heartbeat timer.  Each handler and each critical section is a definition,
  and \<open>conn_step\<close> is the relation of their interleavings.  The asio library is the
  environment: when it delivers bytes, fails an operation or fires the timer is not
  determined.
\<close>

section \<open>State\<close>

record response =
  status :: u8
  payload :: bytes

definition err_response :: response where
  "err_response = \<lparr>status = STATUS_ERR_GENERIC, payload = []\<rparr>"

text \<open>
  A \<open>std::future<Response>\<close>: no value yet, a value, or the promise destroyed without one
  (which makes \<open>get\<close> throw).
\<close>

datatype future = Waiting | Ready response | Broken

text \<open>The outstanding \<open>async_read\<close>: of the header, of a payload, or none any more.\<close>

datatype rmode = RHeader | RPayload u16 u8 nat | RStopped

text \<open>Handlers posted to \<open>io_ctx_\<close>.\<close>

datatype task = DoWrite | CloseSocket

text \<open>The heartbeat timer: cancelled, waiting, or expired with its handler queued.\<close>

datatype timer = Cancelled | Armed | Expired

text \<open>
  \<open>staged\<close> holds the frames of user threads between the two critical sections of
  \<open>send_request\<close>; \<open>futures p\<close> is the future of the \<open>p\<close>-th request, of which
  \<open>nfut\<close> exist; \<open>pending\<close> is the map from request ids to promises; \<open>in_flight\<close> says
  that an \<open>async_write\<close> of the front of the queue is outstanding; \<open>inbox\<close> is what the
  socket has received and not yet handed out; \<open>sent\<close> the frames completely written.
\<close>

record conn =
  connected :: bool
  next_req_id :: u16
  pending :: "(u16 \<times> nat) list"
  futures :: "nat \<Rightarrow> future"
  nfut :: nat
  staged :: "bytes list"
  write_queue :: "bytes list"
  writing :: bool
  posted :: "task list"
  in_flight :: bool
  sent :: "bytes list"
  rmode :: rmode
  inbox :: bytes
  hb_timer :: timer
  sock_open :: bool

text \<open>The connection that \<open>RemoteConn::connect\<close> returns: reading, heartbeat scheduled.\<close>

definition new_conn :: conn where
  "new_conn = \<lparr>connected = True, next_req_id = 1, pending = [], futures = (\<lambda>_. Waiting),
     nfut = 0, staged = [], write_queue = [], writing = False, posted = [], in_flight = False,
     sent = [], rmode = RHeader, inbox = [], hb_timer = Armed, sock_open = True\<rparr>"

section \<open>User threads: send_request\<close>

definition alloc_req_id_locked :: "conn \<Rightarrow> u16 \<times> conn" where
  "alloc_req_id_locked c =
     (let i = next_req_id c; n = i + 1
      in (i, c\<lparr>next_req_id := (if n = 0 then 1 else n)\<rparr>))"

text \<open>
  The first critical section.  \<open>pending_[req_id] = std::move(prom)\<close> destroys a promise that
  is still stored under the id.
\<close>

definition send_register :: "u8 \<Rightarrow> bytes \<Rightarrow> conn \<Rightarrow> nat option \<times> conn" where
  "send_register cmd pl c =
     (if \<not> connected c then (None, c)
      else case alloc_req_id_locked c of (i, c1) \<Rightarrow>
        let p = nfut c1;
            fs = (case map_of (pending c1) i of None \<Rightarrow> futures c1
                  | Some q \<Rightarrow> (futures c1)(q := Broken))
        in (Some p, c1\<lparr>pending := AList.update i p (pending c1), futures := fs(p := Waiting),
                       nfut := Suc p, staged := staged c1 @ [build_frame i cmd pl]\<rparr>))"

definition enqueue_write :: "bytes \<Rightarrow> conn \<Rightarrow> conn" where
  "enqueue_write frame c =
     (let c1 = c\<lparr>write_queue := write_queue c @ [frame]\<rparr>
      in if writing c1 then c1 else c1\<lparr>writing := True, posted := posted c1 @ [DoWrite]\<rparr>)"

text \<open>A wait of 60 seconds that ends without a response.\<close>

definition send_timeout :: "conn \<Rightarrow> response \<times> conn" where
  "send_timeout c = (err_response, c\<lparr>posted := posted c @ [CloseSocket]\<rparr>)"

section \<open>IO thread: disconnect and responses\<close>

definition fail_all :: "(u16 \<times> nat) list \<Rightarrow> (nat \<Rightarrow> future) \<Rightarrow> nat \<Rightarrow> future" where
  "fail_all ps fs = fold (\<lambda>(i, p) g. g(p := Ready err_response)) ps fs"

definition on_disconnect :: "conn \<Rightarrow> conn" where
  "on_disconnect c = c\<lparr>hb_timer := (if hb_timer c = Armed then Cancelled else hb_timer c),
     connected := False, futures := fail_all (pending c) (futures c), pending := []\<rparr>"

definition complete_response :: "u16 \<Rightarrow> u8 \<Rightarrow> bytes \<Rightarrow> conn \<Rightarrow> conn" where
  "complete_response i st d c =
     (if i = 0 then c
      else case map_of (pending c) i of
        None \<Rightarrow> c
      | Some p \<Rightarrow> c\<lparr>futures := (futures c)(p := Ready \<lparr>status = st, payload = d\<rparr>),
                     pending := AList.delete i (pending c)\<rparr>)"

section \<open>IO thread: writing\<close>

definition do_write :: "conn \<Rightarrow> conn" where
  "do_write c = (if write_queue c = [] then c\<lparr>writing := False\<rparr> else c\<lparr>in_flight := True\<rparr>)"

definition write_complete :: "bool \<Rightarrow> conn \<Rightarrow> conn" where
  "write_complete ok c =
     (let c1 = c\<lparr>in_flight := False\<rparr> in
      if \<not> ok then on_disconnect c1
      else do_write (c1\<lparr>sent := sent c1 @ [hd (write_queue c1)],
                         write_queue := tl (write_queue c1)\<rparr>))"

fun run_task :: "task \<Rightarrow> conn \<Rightarrow> conn" where
  "run_task DoWrite c = do_write c"
| "run_task CloseSocket c = c\<lparr>sock_open := False\<rparr>"

section \<open>IO thread: reading\<close>

datatype raction = Complete u16 u8 bytes | Disconnect

text \<open>\<open>on_header\<close>: what to do next and which read to start.\<close>

definition on_header :: "bytes \<Rightarrow> raction option \<times> rmode" where
  "on_header h =
     (case parse_header h of (len, req_id, st) \<Rightarrow>
      if unat len < FRAME_HEADER_SIZE then (Some Disconnect, RStopped)
      else let plen = unat (len - of_nat FRAME_HEADER_SIZE) in
      if plen > MAX_PAYLOAD_SIZE then (Some Disconnect, RStopped)
      else if plen = 0 then (Some (Complete req_id st []), RHeader)
      else (None, RPayload req_id st plen))"

text \<open>One completed \<open>async_read\<close>, when enough bytes have arrived for it.\<close>

definition read_stage :: "rmode \<Rightarrow> bytes \<Rightarrow> (raction option \<times> rmode \<times> bytes) option" where
  "read_stage m inb =
     (case m of
        RStopped \<Rightarrow> None
      | RHeader \<Rightarrow> if length inb < FRAME_HEADER_SIZE then None
          else (case on_header (take FRAME_HEADER_SIZE inb) of (a, m') \<Rightarrow>
                  Some (a, m', drop FRAME_HEADER_SIZE inb))
      | RPayload i st n \<Rightarrow> if length inb < n then None
          else Some (Some (Complete i st (take n inb)), RHeader, drop n inb))"

fun apply_action :: "raction option \<Rightarrow> conn \<Rightarrow> conn" where
  "apply_action None c = c"
| "apply_action (Some Disconnect) c = on_disconnect c"
| "apply_action (Some (Complete i st d)) c = complete_response i st d c"

definition read_complete :: "conn \<Rightarrow> conn option" where
  "read_complete c =
     (case read_stage (rmode c) (inbox c) of
        None \<Rightarrow> None
      | Some (a, m, inb) \<Rightarrow> Some (apply_action a (c\<lparr>rmode := m, inbox := inb\<rparr>)))"

definition read_failed :: "conn \<Rightarrow> conn" where
  "read_failed c = on_disconnect (c\<lparr>rmode := RStopped\<rparr>)"

section \<open>IO thread: heartbeat\<close>

definition heartbeat_frame :: bytes where
  "heartbeat_frame = build_frame 0 CMD_HEARTBEAT []"

definition heartbeat_fire :: "conn \<Rightarrow> conn" where
  "heartbeat_fire c = (enqueue_write heartbeat_frame c)\<lparr>hb_timer := Armed\<rparr>"

section \<open>All interleavings\<close>

inductive conn_step :: "conn \<Rightarrow> conn \<Rightarrow> bool" where
  s_register: "send_register cmd pl c = (Some p, c') \<Longrightarrow> conn_step c c'"
| s_enqueue: "staged c = xs @ f # ys \<Longrightarrow> conn_step c (enqueue_write f (c\<lparr>staged := xs @ ys\<rparr>))"
| s_timeout: "p < nfut c \<Longrightarrow> futures c p = Waiting \<Longrightarrow> conn_step c (snd (send_timeout c))"
| s_task: "posted c = t # ts \<Longrightarrow> conn_step c (run_task t (c\<lparr>posted := ts\<rparr>))"
| s_write: "in_flight c \<Longrightarrow> conn_step c (write_complete ok c)"
| s_deliver: "sock_open c \<Longrightarrow> conn_step c (c\<lparr>inbox := inbox c @ bs\<rparr>)"
| s_read: "read_complete c = Some c' \<Longrightarrow> conn_step c c'"
| s_read_failed: "rmode c \<noteq> RStopped \<Longrightarrow> conn_step c (read_failed c)"
| s_expire: "hb_timer c = Armed \<Longrightarrow> conn_step c (c\<lparr>hb_timer := Expired\<rparr>)"
| s_heartbeat: "hb_timer c = Expired \<Longrightarrow> conn_step c (heartbeat_fire c)"

inductive conn_reach :: "conn \<Rightarrow> bool" where
  r_new: "conn_reach new_conn"
| r_step: "conn_reach c \<Longrightarrow> conn_step c c' \<Longrightarrow> conn_reach c'"

text \<open>~RemoteConn, after the IO thread has been joined.\<close>

definition conn_destroy :: "conn \<Rightarrow> conn" where
  "conn_destroy c = c\<lparr>sock_open := False, hb_timer := Cancelled,
     futures := fail_all (pending c) (futures c), pending := []\<rparr>"

section \<open>The invariant\<close>

text \<open>Request ids: 0 is never given out, and no id has two entries.\<close>

definition ids_ok :: "conn \<Rightarrow> bool" where
  "ids_ok c \<longleftrightarrow> next_req_id c \<noteq> 0 \<and> (\<forall>p. (0, p) \<notin> set (pending c)) \<and>
     distinct (map fst (pending c))"

text \<open>Futures: the ones without a value are exactly those with an entry in the map.\<close>

definition proms_ok :: "conn \<Rightarrow> bool" where
  "proms_ok c \<longleftrightarrow>
     (\<forall>i j p. (i, p) \<in> set (pending c) \<longrightarrow> (j, p) \<in> set (pending c) \<longrightarrow> i = j) \<and>
     (\<forall>p. (\<exists>i. (i, p) \<in> set (pending c)) \<longleftrightarrow> p < nfut c \<and> futures c p = Waiting)"

definition drained :: "conn \<Rightarrow> bool" where
  "drained c \<longleftrightarrow> (connected c \<or> pending c = [])"

text \<open>The writer: at most one posted \<open>do_write\<close> or outstanding \<open>async_write\<close>.\<close>

definition writers :: "conn \<Rightarrow> nat" where
  "writers c = count_list (posted c) DoWrite + (if in_flight c then 1 else 0)"

definition writer_ok :: "conn \<Rightarrow> bool" where
  "writer_ok c \<longleftrightarrow> writers c \<le> 1 \<and> (in_flight c \<longrightarrow> write_queue c \<noteq> []) \<and>
     (if writing c then connected c \<longrightarrow> writers c = 1
      else writers c = 0 \<and> write_queue c = [])"

definition conn_inv :: "conn \<Rightarrow> bool" where
  "conn_inv c \<longleftrightarrow> ids_ok c \<and> proms_ok c \<and> drained c \<and> writer_ok c"

lemmas inv_defs = conn_inv_def ids_ok_def proms_ok_def drained_def writer_ok_def writers_def

lemma fail_all_eq:
  "fail_all ps fs p = (if \<exists>i. (i, p) \<in> set ps then Ready err_response else fs p)"
  by (induction ps arbitrary: fs) (auto simp: fail_all_def)

lemma update_mem:
  "distinct (map fst ps) \<Longrightarrow>
     (j, q) \<in> set (AList.update i p ps) \<longleftrightarrow> (if j = i then q = p else (j, q) \<in> set ps)"
  using map_of_eq_Some_iff[of "AList.update i p ps" j q] map_of_eq_Some_iff[of ps j q]
  by (auto simp: distinct_update update_conv')

lemma delete_mem: "(j, q) \<in> set (AList.delete i ps) \<longleftrightarrow> j \<noteq> i \<and> (j, q) \<in> set ps"
  by (auto simp: AList.delete_eq)

lemma map_of_mem:
  "distinct (map fst ps) \<Longrightarrow> map_of ps i = None \<longleftrightarrow> (\<forall>p. (i, p) \<notin> set ps)"
  by (force simp: map_of_eq_None_iff)

lemma inv_new: "conn_inv new_conn"
  by (simp add: inv_defs new_conn_def)

text \<open>
  The two halves of the invariant read different fields: an operation that keeps the fields
  of a half keeps that half.
\<close>

lemma req_inv_frame:
  "pending c' = pending c \<Longrightarrow> next_req_id c' = next_req_id c \<Longrightarrow> futures c' = futures c \<Longrightarrow>
   nfut c' = nfut c \<Longrightarrow> connected c' = connected c \<Longrightarrow>
   ids_ok c \<and> proms_ok c \<and> drained c \<Longrightarrow> ids_ok c' \<and> proms_ok c' \<and> drained c'"
  by (simp add: ids_ok_def proms_ok_def drained_def)

lemma writer_frame:
  "posted c' = posted c \<Longrightarrow> in_flight c' = in_flight c \<Longrightarrow> write_queue c' = write_queue c \<Longrightarrow>
   writing c' = writing c \<Longrightarrow> (connected c' \<Longrightarrow> connected c) \<Longrightarrow> writer_ok c \<Longrightarrow> writer_ok c'"
  by (auto simp: writer_ok_def writers_def)

lemma inv_frame:
  "pending c' = pending c \<Longrightarrow> next_req_id c' = next_req_id c \<Longrightarrow> futures c' = futures c \<Longrightarrow>
   nfut c' = nfut c \<Longrightarrow> connected c' = connected c \<Longrightarrow>
   posted c' = posted c \<Longrightarrow> in_flight c' = in_flight c \<Longrightarrow> write_queue c' = write_queue c \<Longrightarrow>
   writing c' = writing c \<Longrightarrow> conn_inv c \<Longrightarrow> conn_inv c'"
  using req_inv_frame[of c' c] writer_frame[of c' c] by (simp add: conn_inv_def)

lemma inv_writerI:
  "conn_inv c \<Longrightarrow> pending c' = pending c \<Longrightarrow> next_req_id c' = next_req_id c \<Longrightarrow>
   futures c' = futures c \<Longrightarrow> nfut c' = nfut c \<Longrightarrow> connected c' = connected c \<Longrightarrow>
   writer_ok c' \<Longrightarrow> conn_inv c'"
  using req_inv_frame[of c' c] by (simp add: conn_inv_def)

lemma inv_register:
  assumes inv: "conn_inv c" and reg: "send_register cmd pl c = (Some p, c')"
  shows "conn_inv c'"
proof -
  let ?i = "next_req_id c"
  from inv have d: "distinct (map fst (pending c))" and ids: "ids_ok c" and pr: "proms_ok c"
    by (simp_all add: inv_defs)
  from reg have con: "connected c" and
    c': "pending c' = AList.update ?i (nfut c) (pending c)" "nfut c' = Suc (nfut c)"
      "next_req_id c' \<noteq> 0" "connected c' = connected c" "posted c' = posted c"
      "in_flight c' = in_flight c" "write_queue c' = write_queue c" "writing c' = writing c"
    and fs: "\<And>q. futures c' q = (if q = nfut c then Waiting
        else if (?i, q) \<in> set (pending c) then Broken else futures c q)"
    using d map_of_eq_Some_iff[OF d, of ?i] eq_key_imp_eq_value[OF d, of ?i] ids
    by (auto simp: send_register_def alloc_req_id_locked_def Let_def ids_ok_def map_of_mem
        split: if_splits option.splits)
  have ids': "ids_ok c'"
    using ids c' d by (auto simp: ids_ok_def update_mem distinct_update)
  have old: "q < nfut c" if "(j, q) \<in> set (pending c)" for j q
    using pr that unfolding proms_ok_def by blast
  have "(\<exists>j. (j, q) \<in> set (pending c')) \<longleftrightarrow> q < nfut c' \<and> futures c' q = Waiting" for q
  proof (cases "q = nfut c")
    case True
    then show ?thesis using c'(1,2) d fs[of q] by (auto simp: update_mem)
  next
    case q: False
    have "(\<exists>j. (j, q) \<in> set (pending c')) \<longleftrightarrow> (\<exists>j. j \<noteq> ?i \<and> (j, q) \<in> set (pending c))"
      using q c'(1) d by (auto simp: update_mem)
    also have "\<dots> \<longleftrightarrow> q < nfut c \<and> futures c' q = Waiting"
    proof (cases "(?i, q) \<in> set (pending c)")
      case True
      then show ?thesis using pr q fs[of q] unfolding proms_ok_def by auto
    next
      case False
      then have "(\<exists>j. j \<noteq> ?i \<and> (j, q) \<in> set (pending c)) \<longleftrightarrow> (\<exists>j. (j, q) \<in> set (pending c))"
        by metis
      then show ?thesis using pr q fs[of q] False unfolding proms_ok_def by simp
    qed
    finally show ?thesis using q c'(2) by auto
  qed
  moreover have "i = j" if "(i, q) \<in> set (pending c')" "(j, q) \<in> set (pending c')" for i j q
  proof -
    have "\<forall>i j p. (i, p) \<in> set (pending c) \<longrightarrow> (j, p) \<in> set (pending c) \<longrightarrow> i = j"
      using pr by (simp add: proms_ok_def)
    then show ?thesis using that old d unfolding c'(1)
      by (auto simp: update_mem split: if_splits)
  qed
  ultimately have "proms_ok c'" unfolding proms_ok_def by blast
  moreover have "drained c'" using con c'(4) by (simp add: drained_def)
  moreover have "writer_ok c'"
    using writer_frame[OF c'(5-8)] inv c'(4) by (simp add: conn_inv_def)
  ultimately show ?thesis by (simp add: conn_inv_def ids')
qed

lemma inv_enqueue: "conn_inv c \<Longrightarrow> conn_inv (enqueue_write f c)"
  by (rule inv_writerI[of c])
    (auto simp: enqueue_write_def Let_def writer_ok_def writers_def conn_inv_def split: if_splits)

lemma inv_post_close: "conn_inv c \<Longrightarrow> conn_inv (snd (send_timeout c))"
  by (rule inv_writerI[of c])
    (auto simp: send_timeout_def writer_ok_def writers_def conn_inv_def split: if_splits)

lemma inv_disconnect:
  assumes "conn_inv c"
  shows "conn_inv (on_disconnect c)"
proof -
  have "writer_ok (on_disconnect c)"
    by (rule writer_frame[of _ c]) (use assms in \<open>simp_all add: on_disconnect_def conn_inv_def\<close>)
  then show ?thesis using assms
    by (auto simp: conn_inv_def ids_ok_def proms_ok_def drained_def on_disconnect_def
        fail_all_eq split: if_splits)
qed

lemma inv_complete:
  assumes "conn_inv c"
  shows "conn_inv (complete_response i st d' c)"
proof (cases "i = 0 \<or> map_of (pending c) i = None")
  case True
  with assms show ?thesis by (auto simp: complete_response_def)
next
  case False
  then obtain p where i: "i \<noteq> 0" and p: "map_of (pending c) i = Some p" by auto
  let ?c' = "complete_response i st d' c"
  have "writer_ok ?c'"
    by (rule writer_frame[of _ c])
      (use assms i p in \<open>simp_all add: complete_response_def conn_inv_def\<close>)
  moreover have "ids_ok ?c'" "drained ?c'"
    using assms i p
    by (auto simp: conn_inv_def ids_ok_def drained_def complete_response_def delete_mem
        distinct_delete)
  moreover have "proms_ok ?c'"
  proof -
    from assms have d: "distinct (map fst (pending c))"
      and inj: "\<And>i j p. (i, p) \<in> set (pending c) \<Longrightarrow> (j, p) \<in> set (pending c) \<Longrightarrow> i = j"
      and wt: "\<And>p. (\<exists>i. (i, p) \<in> set (pending c)) \<longleftrightarrow> p < nfut c \<and> futures c p = Waiting"
      unfolding conn_inv_def proms_ok_def ids_ok_def by blast+
    have c': "pending ?c' = AList.delete i (pending c)" "nfut ?c' = nfut c"
      "futures ?c' = (futures c)(p := Ready \<lparr>status = st, payload = d'\<rparr>)"
      using i p by (simp_all add: complete_response_def)
    have other: "(j, q) \<in> set (pending c) \<Longrightarrow> j \<noteq> i \<longleftrightarrow> q \<noteq> p" for j q
      using inj[of j p i] eq_key_imp_eq_value[OF d, of i p q] map_of_SomeD[OF p] by blast
    have "(\<exists>j. (j, q) \<in> set (pending ?c')) \<longleftrightarrow> q \<noteq> p \<and> (\<exists>j. (j, q) \<in> set (pending c))" for q
      using other by (auto simp: c' delete_mem)
    then show ?thesis using inj wt unfolding proms_ok_def
      by (simp add: c' delete_mem) blast
  qed
  ultimately show ?thesis by (simp add: conn_inv_def)
qed

lemma inv_task:
  "conn_inv c \<Longrightarrow> posted c = t # ts \<Longrightarrow> conn_inv (run_task t (c\<lparr>posted := ts\<rparr>))"
  by (cases t; rule inv_writerI[of c])
    (auto simp: do_write_def writer_ok_def writers_def conn_inv_def split: if_splits)

lemma inv_write_ok: "conn_inv c \<Longrightarrow> in_flight c \<Longrightarrow> conn_inv (write_complete True c)"
  by (rule inv_writerI[of c])
    (auto simp: write_complete_def Let_def do_write_def writer_ok_def writers_def conn_inv_def
      split: if_splits)

lemma inv_write_failed:
  assumes "conn_inv c" and "in_flight c"
  shows "conn_inv (write_complete False c)"
proof -
  let ?c = "on_disconnect c"
  have "conn_inv (?c\<lparr>in_flight := False\<rparr>)"
    by (rule inv_writerI[OF inv_disconnect[OF assms(1)]])
      (use assms in \<open>auto simp: on_disconnect_def writer_ok_def writers_def conn_inv_def
        split: if_splits\<close>)
  moreover have "write_complete False c = ?c\<lparr>in_flight := False\<rparr>"
    by (simp add: write_complete_def Let_def on_disconnect_def)
  ultimately show ?thesis by simp
qed

lemma inv_action: "conn_inv c \<Longrightarrow> conn_inv (apply_action a c)"
  by (induction a c rule: apply_action.induct) (auto simp: inv_disconnect inv_complete)

lemma inv_reading: "conn_inv c \<Longrightarrow> conn_inv (c\<lparr>rmode := m, inbox := x\<rparr>)"
  by (erule inv_frame[rotated -1]) simp_all

lemma inv_read: "conn_inv c \<Longrightarrow> read_complete c = Some c' \<Longrightarrow> conn_inv c'"
  by (auto simp: read_complete_def inv_action inv_reading split: option.splits)

lemma inv_step: "conn_step c c' \<Longrightarrow> conn_inv c \<Longrightarrow> conn_inv c'"
proof (induction rule: conn_step.induct)
  case (s_enqueue c xs f ys)
  have "conn_inv (c\<lparr>staged := xs @ ys\<rparr>)"
    by (rule inv_frame[of _ c]) (simp_all add: s_enqueue)
  then show ?case by (rule inv_enqueue)
next
  case (s_write c ok)
  then show ?case by (cases ok) (simp_all add: inv_write_ok inv_write_failed)
next
  case (s_read_failed c)
  have "conn_inv (c\<lparr>rmode := RStopped\<rparr>)"
    by (rule inv_frame[of _ c]) (simp_all add: s_read_failed)
  then show ?case by (simp add: read_failed_def inv_disconnect)
next
  case (s_heartbeat c)
  have "conn_inv ((enqueue_write heartbeat_frame c)\<lparr>hb_timer := Armed\<rparr>)"
    by (rule inv_frame[of _ "enqueue_write heartbeat_frame c"])
      (simp_all add: inv_enqueue s_heartbeat)
  then show ?case by (simp add: heartbeat_fire_def)
next
  case (s_deliver c bs)
  show ?case by (rule inv_frame[of _ c]) (simp_all add: s_deliver)
next
  case (s_expire c)
  show ?case by (rule inv_frame[of _ c]) (simp_all add: s_expire)
next
  case (s_register cmd pl c p c')
  then show ?case by (blast intro: inv_register)
next
  case (s_timeout p c)
  then show ?case by (blast intro: inv_post_close)
next
  case (s_task c t ts)
  then show ?case by (blast intro: inv_task)
next
  case (s_read c c')
  then show ?case by (blast intro: inv_read)
qed

lemma reach_inv: "conn_reach c \<Longrightarrow> conn_inv c"
  by (induction rule: conn_reach.induct) (auto simp: inv_new intro: inv_step)

section \<open>The read pipeline as a stream decoder\<close>

text \<open>All completions that the bytes received so far allow, and what they leave.\<close>

function pump :: "rmode \<Rightarrow> bytes \<Rightarrow> raction list \<times> rmode \<times> bytes" where
  "pump m inb =
     (case read_stage m inb of
        None \<Rightarrow> ([], m, inb)
      | Some (a, m', inb') \<Rightarrow>
          (case pump m' inb' of (as, r) \<Rightarrow> ((case a of None \<Rightarrow> as | Some x \<Rightarrow> x # as), r)))"
  by pat_completeness auto
termination
  by (relation "measure (\<lambda>(m, inb). 2 * length inb + (case m of RPayload _ _ _ \<Rightarrow> 1 | _ \<Rightarrow> 0))")
    (auto simp: read_stage_def on_header_def Let_def FRAME_HEADER_SIZE_def
      split: rmode.splits if_splits prod.splits)

declare pump.simps [simp del]

text \<open>The same with the bytes arriving in pieces.\<close>

fun pump_chunks :: "rmode \<Rightarrow> bytes \<Rightarrow> bytes list \<Rightarrow> raction list \<times> rmode \<times> bytes" where
  "pump_chunks m inb [] = ([], m, inb)"
| "pump_chunks m inb (x # xs) =
     (case pump m (inb @ x) of (as, m', r) \<Rightarrow>
      case pump_chunks m' r xs of (bs, q) \<Rightarrow> (as @ bs, q))"

lemma read_stage_append:
  "read_stage m xs = Some (a, m', r) \<Longrightarrow> read_stage m (xs @ ys) = Some (a, m', r @ ys)"
  by (auto simp: read_stage_def split: rmode.splits if_splits prod.splits)

lemma pump_append:
  "pump m (xs @ ys) =
     (case pump m xs of (as, m', r) \<Rightarrow> case pump m' (r @ ys) of (bs, q) \<Rightarrow> (as @ bs, q))"
proof (induction m xs rule: pump.induct)
  case (1 m xs)
  show ?case
  proof (cases "read_stage m xs")
    case None
    then show ?thesis by (simp add: pump.simps[of m xs] split: prod.splits)
  next
    case (Some z)
    obtain a m' r where z: "z = (a, m', r)" by (cases z) auto
    from Some z read_stage_append
    have "read_stage m (xs @ ys) = Some (a, m', r @ ys)" by simp
    then show ?thesis
      using 1[OF Some z[symmetric] refl] Some z
      by (simp add: pump.simps[of m xs] pump.simps[of m "xs @ ys"] split: prod.splits option.splits)
  qed
qed

lemma pump_idle: "pump m xs = (as, m', r) \<Longrightarrow> pump m' r = ([], m', r)"
proof (induction m xs arbitrary: as m' r rule: pump.induct)
  case (1 m xs)
  show ?case
  proof (cases "read_stage m xs")
    case None
    with 1(2) show ?thesis by (auto simp: pump.simps[of m xs] pump.simps[of m' r])
  next
    case (Some z)
    then obtain a n s where z: "z = (a, n, s)" by (cases z) auto
    with Some 1(2) obtain bs where "pump n s = (bs, m', r)"
      by (auto simp: pump.simps[of m xs] split: prod.splits)
    then show ?thesis by (rule 1(1)[OF Some z[symmetric] refl])
  qed
qed

lemma pump_chunks_pump:
  "pump m inb = ([], m, inb) \<Longrightarrow> pump_chunks m inb xs = pump m (inb @ concat xs)"
proof (induction xs arbitrary: m inb)
  case Nil
  then show ?case by simp
next
  case (Cons x xs)
  obtain as m' r where p: "pump m (inb @ x) = (as, m', r)" by (cases "pump m (inb @ x)") auto
  with Cons.IH[OF pump_idle[OF p]] show ?case
    using pump_append[of m "inb @ x" "concat xs"] by simp
qed

lemma pump_RHeader_nil: "pump RHeader [] = ([], RHeader, [])"
  by (simp add: pump.simps read_stage_def FRAME_HEADER_SIZE_def)

lemma pump_frame:
  assumes "length p \<le> MAX_PAYLOAD_SIZE"
  shows "pump RHeader (build_frame i s p @ bs) =
     (case pump RHeader bs of (as, r) \<Rightarrow> (Complete i s p # as, r))"
proof -
  from assms have l: "length p \<le> 1048576" by (simp add: MAX_PAYLOAD_SIZE_def)
  have u: "unat (of_nat (7 + length p) :: u32) = 7 + length p"
    using l by (simp add: unat_of_nat take_bit_eq_mod del: of_nat_add)
  have "of_nat (7 + length p) - (of_nat 7 :: u32) = of_nat (length p)" by simp
  moreover have "unat (of_nat (length p) :: u32) = length p"
    using l by (simp add: unat_of_nat take_bit_eq_mod)
  ultimately have v: "unat (of_nat (7 + length p) - (of_nat 7 :: u32)) = length p" by metis
  have h: "on_header (take FRAME_HEADER_SIZE (build_frame i s p @ bs)) =
      (if p = [] then (Some (Complete i s []), RHeader) else (None, RPayload i s (length p)))"
    unfolding on_header_def FRAME_HEADER_SIZE_def
      parse_build_header[of i s p bs, unfolded FRAME_HEADER_SIZE_def] Let_def prod.case u v
    using assms by auto
  have r: "read_stage RHeader (build_frame i s p @ bs) =
      Some (if p = [] then (Some (Complete i s []), RHeader, bs)
            else (None, RPayload i s (length p), p @ bs))"
    by (auto simp add: read_stage_def h simp del: take_append drop_append)
  have "pump (RPayload i s (length p)) (p @ bs) =
     (case pump RHeader bs of (as, r) \<Rightarrow> (Complete i s p # as, r))"
    by (simp add: pump.simps[of "RPayload i s (length p)"] read_stage_def)
  with r show ?thesis
    by (auto simp: pump.simps[of RHeader "build_frame i s p @ bs"] split: prod.splits)
qed

lemma pump_frames:
  "\<forall>(i, s, p)\<in>set rs. length p \<le> MAX_PAYLOAD_SIZE \<Longrightarrow>
   pump RHeader (concat (map (\<lambda>(i, s, p). build_frame i s p) rs)) =
     (map (\<lambda>(i, s, p). Complete i s p) rs, RHeader, [])"
  by (induction rs) (auto simp: pump_frame pump_RHeader_nil)

text \<open>The decoder is what the steps \<open>s_read\<close> of the connection perform.\<close>

lemma apply_action_reading:
  "apply_action a (c\<lparr>rmode := m, inbox := x\<rparr>) = (apply_action a c)\<lparr>rmode := m, inbox := x\<rparr>"
  by (induction a c rule: apply_action.induct)
    (auto simp: on_disconnect_def complete_response_def split: option.splits)

lemma apply_action_inbox [simp]:
  "rmode (apply_action a c) = rmode c" "inbox (apply_action a c) = inbox c"
  by (induction a c rule: apply_action.induct)
    (auto simp: on_disconnect_def complete_response_def split: option.splits)

lemma fold_action_reading:
  "fold (\<lambda>x. apply_action (Some x)) as (c\<lparr>rmode := m, inbox := r\<rparr>) =
     (fold (\<lambda>x. apply_action (Some x)) as c)\<lparr>rmode := m, inbox := r\<rparr>"
  by (induction as arbitrary: c) (simp_all add: apply_action_reading)

lemma pump_steps:
  "pump (rmode c) (inbox c) = (as, m, r) \<Longrightarrow>
   conn_step\<^sup>*\<^sup>* c ((fold (\<lambda>x. apply_action (Some x)) as c)\<lparr>rmode := m, inbox := r\<rparr>)"
proof (induction "rmode c" "inbox c" arbitrary: c as rule: pump.induct)
  case 1
  show ?case
  proof (cases "read_stage (rmode c) (inbox c)")
    case None
    with 1(2) show ?thesis by (auto simp: pump.simps)
  next
    case (Some z)
    obtain a m' r' where z: "z = (a, m', r')" by (cases z) auto
    let ?c = "apply_action a (c\<lparr>rmode := m', inbox := r'\<rparr>)"
    have step: "conn_step c ?c"
      by (rule s_read) (simp add: read_complete_def Some z)
    from 1(2) Some z obtain bs where bs: "pump m' r' = (bs, m, r)"
      and as: "as = (case a of None \<Rightarrow> bs | Some x \<Rightarrow> x # bs)"
      by (auto simp: pump.simps[of "rmode c"] split: prod.splits)
    have "conn_step\<^sup>*\<^sup>* ?c ((fold (\<lambda>x. apply_action (Some x)) bs ?c)\<lparr>rmode := m, inbox := r\<rparr>)"
      by (rule 1(1)[OF Some z[symmetric]]) (simp_all add: bs)
    also have "(fold (\<lambda>x. apply_action (Some x)) bs ?c)\<lparr>rmode := m, inbox := r\<rparr> =
        (fold (\<lambda>x. apply_action (Some x)) as c)\<lparr>rmode := m, inbox := r\<rparr>"
      by (simp add: as fold_action_reading apply_action_reading split: option.splits)
    finally show ?thesis using step by (rule converse_rtranclp_into_rtranclp[rotated])
  qed
qed

section \<open>Order of the frames\<close>

text \<open>No step drops, reorders or repeats a frame that was enqueued.\<close>

definition frames_log :: "conn \<Rightarrow> bytes list" where
  "frames_log c = sent c @ write_queue c"

lemma log_unchanged:
  "frames_log (on_disconnect c) = frames_log c"
  "frames_log (complete_response i st d c) = frames_log c"
  "frames_log (do_write c) = frames_log c"
  by (auto simp: frames_log_def on_disconnect_def complete_response_def do_write_def
      split: option.splits)

lemma log_action: "frames_log (apply_action a c) = frames_log c"
  by (induction a c rule: apply_action.induct) (simp_all add: log_unchanged)

lemma log_enqueue: "frames_log (enqueue_write f c) = frames_log c @ [f]"
  by (simp add: frames_log_def enqueue_write_def Let_def)

lemma log_write: "write_queue c \<noteq> [] \<Longrightarrow> frames_log (write_complete ok c) = frames_log c"
  by (auto simp: write_complete_def Let_def log_unchanged)
    (auto simp: frames_log_def)

lemma log_step: "conn_step c c' \<Longrightarrow> conn_inv c \<Longrightarrow> prefix (frames_log c) (frames_log c')"
proof (induction rule: conn_step.induct)
  case (s_register cmd pl c p c')
  then show ?case
    by (auto simp: frames_log_def send_register_def alloc_req_id_locked_def Let_def
        split: if_splits)
next
  case (s_task c t ts)
  then show ?case by (cases t) (simp_all add: log_unchanged, simp_all add: frames_log_def)
next
  case (s_write c ok)
  then have "write_queue c \<noteq> []" by (simp add: conn_inv_def writer_ok_def)
  then show ?case by (simp add: log_write)
next
  case (s_read c c')
  then show ?case
    by (auto simp: read_complete_def log_action split: option.splits)
      (simp add: frames_log_def)
qed (simp_all add: log_enqueue log_unchanged heartbeat_fire_def read_failed_def,
    simp_all add: frames_log_def send_timeout_def enqueue_write_def Let_def)

lemma log_steps: "conn_step\<^sup>*\<^sup>* c c' \<Longrightarrow> conn_inv c \<Longrightarrow>
    prefix (frames_log c) (frames_log c') \<and> conn_inv c'"
  by (induction rule: rtranclp_induct) (auto intro: inv_step log_step prefix_order.trans)

section \<open>Request ids\<close>

text \<open>The id of the \<open>p\<close>-th request: 1 .. 65535, again and again.\<close>

definition id_of :: "nat \<Rightarrow> u16" where
  "id_of p = of_nat (Suc (p mod 65535))"

lemma unat_id_of: "unat (id_of p) = Suc (p mod 65535)"
proof -
  have "p mod 65535 < 65535" by simp
  then have "Suc (p mod 65535) < 2 ^ 16" by simp
  then show ?thesis unfolding id_of_def
    by (simp add: unat_of_nat take_bit_eq_mod del: of_nat_Suc)
qed

lemma id_of_Suc: "id_of (Suc p) = (if id_of p + 1 = 0 then 1 else id_of p + 1)"
proof (cases "Suc (p mod 65535) = 65535")
  case True
  then have m: "p mod 65535 = 65534" by simp
  then have "Suc p mod 65535 = 0" by (simp add: mod_Suc)
  then show ?thesis by (simp add: id_of_def m)
next
  case False
  then have m: "Suc p mod 65535 = Suc (p mod 65535)" by (simp add: mod_Suc)
  have n: "id_of p + 1 = of_nat (Suc (Suc (p mod 65535)))"
    by (simp add: id_of_def)
  have "p mod 65535 < 65535" by simp
  with False have "Suc (Suc (p mod 65535)) < 2 ^ 16" by simp
  then have "unat (id_of p + 1) = Suc (Suc (p mod 65535))"
    unfolding n by (simp add: unat_of_nat take_bit_eq_mod del: of_nat_Suc)
  then have "id_of p + 1 \<noteq> 0" by (metis unat_0 nat.distinct(1))
  then show ?thesis by (simp add: n m) (simp add: id_of_def m)
qed

lemma id_of_inj: "id_of p = id_of q \<longleftrightarrow> p mod 65535 = q mod 65535"
  by (metis unat_id_of id_of_def nat.inject)

definition ids_cycle :: "conn \<Rightarrow> bool" where
  "ids_cycle c \<longleftrightarrow> next_req_id c = id_of (nfut c) \<and>
     (\<forall>(i, p)\<in>set (pending c). i = id_of p) \<and>
     (nfut c \<le> 65535 \<longrightarrow> (\<forall>p<nfut c. futures c p \<noteq> Broken))"

lemma cycle_frame:
  "pending c' = pending c \<Longrightarrow> next_req_id c' = next_req_id c \<Longrightarrow> futures c' = futures c \<Longrightarrow>
   nfut c' = nfut c \<Longrightarrow> ids_cycle c \<Longrightarrow> ids_cycle c'"
  by (simp add: ids_cycle_def)

lemma cycle_fields [simp]:
  "pending (do_write c) = pending c" "next_req_id (do_write c) = next_req_id c"
  "futures (do_write c) = futures c" "nfut (do_write c) = nfut c"
  "pending (enqueue_write f c) = pending c" "next_req_id (enqueue_write f c) = next_req_id c"
  "futures (enqueue_write f c) = futures c" "nfut (enqueue_write f c) = nfut c"
  by (simp_all add: do_write_def enqueue_write_def Let_def)

lemma cycle_disconnect: "ids_cycle c \<Longrightarrow> ids_cycle (on_disconnect c)"
  by (auto simp: ids_cycle_def on_disconnect_def fail_all_eq)

lemma cycle_action: "ids_cycle c \<Longrightarrow> ids_cycle (apply_action a c)"
  by (induction a c rule: apply_action.induct)
    (auto simp: cycle_disconnect, auto simp: ids_cycle_def complete_response_def delete_mem
      split: option.splits)

lemma cycle_register:
  assumes cyc: "ids_cycle c" and inv: "conn_inv c"
    and reg: "send_register cmd pl c = (Some p, c')"
  shows "ids_cycle c'"
proof -
  let ?i = "next_req_id c"
  from inv have d: "distinct (map fst (pending c))" and pr: "proms_ok c"
    by (simp_all add: conn_inv_def ids_ok_def)
  from reg cyc have f: "next_req_id c' = id_of (nfut c')" "nfut c' = Suc (nfut c)"
    "pending c' = AList.update ?i (nfut c) (pending c)"
    by (auto simp: send_register_def alloc_req_id_locked_def Let_def ids_cycle_def id_of_Suc
        split: if_splits)
  have "\<forall>(i, q)\<in>set (pending c'). i = id_of q"
    using cyc d by (auto simp: f update_mem ids_cycle_def split: if_splits)
  moreover have "futures c' q \<noteq> Broken" if "nfut c' \<le> 65535" "q < nfut c'" for q
  proof -
    have "map_of (pending c) ?i = None"
    proof (rule ccontr)
      assume "map_of (pending c) ?i \<noteq> None"
      then obtain r where r: "(?i, r) \<in> set (pending c)" by (auto dest: map_of_SomeD)
      then have "r < nfut c" using pr by (auto simp: proms_ok_def)
      moreover have "id_of r = id_of (nfut c)" using cyc r by (auto simp: ids_cycle_def)
      ultimately show False using that(1) f(2) by (simp add: id_of_inj)
    qed
    then show ?thesis using reg cyc that f(2)
      by (auto simp: send_register_def alloc_req_id_locked_def Let_def ids_cycle_def less_Suc_eq
          split: if_splits)
  qed
  ultimately show ?thesis using f(1) by (simp add: ids_cycle_def)
qed

lemma cycle_step: "conn_step c c' \<Longrightarrow> conn_inv c \<Longrightarrow> ids_cycle c \<Longrightarrow> ids_cycle c'"
proof (induction rule: conn_step.induct)
  case (s_register cmd pl c p c')
  then show ?case by (blast intro: cycle_register)
next
  case (s_enqueue c xs f ys)
  then show ?case by (simp add: ids_cycle_def)
next
  case (s_task c t ts)
  then show ?case by (cases t) (simp_all add: ids_cycle_def)
next
  case (s_write c ok)
  then show ?case
    by (cases ok) (auto simp: write_complete_def Let_def cycle_disconnect intro: cycle_frame
        intro!: cycle_disconnect)
next
  case (s_read c c')
  then show ?case
    by (auto simp: read_complete_def split: option.splits intro!: cycle_action
        intro: cycle_frame)
next
  case (s_read_failed c)
  then show ?case
    by (auto simp: read_failed_def intro!: cycle_disconnect intro: cycle_frame)
qed (simp_all add: ids_cycle_def send_timeout_def heartbeat_fire_def)

lemma reach_cycle: "conn_reach c \<Longrightarrow> ids_cycle c"
proof (induction rule: conn_reach.induct)
  case r_new
  then show ?case by (simp add: ids_cycle_def new_conn_def id_of_def)
next
  case (r_step c c')
  then show ?case using cycle_step reach_inv by blast
qed

section \<open>Delivery of responses\<close>

lemma complete_pending:
  assumes "conn_inv c" and "(i, p) \<in> set (pending c)"
  shows "complete_response i st d c =
     c\<lparr>futures := (futures c)(p := Ready \<lparr>status = st, payload = d\<rparr>),
       pending := AList.delete i (pending c)\<rparr>"
proof -
  from assms have "distinct (map fst (pending c))" "i \<noteq> 0"
    by (auto simp: conn_inv_def ids_ok_def)
  with assms(2) show ?thesis by (simp add: complete_response_def)
qed

lemma complete_other:
  assumes "conn_inv c" and "(j, q) \<in> set (pending c)" and "i \<noteq> j"
  shows "(j, q) \<in> set (pending (complete_response i st d c)) \<and>
    futures (complete_response i st d c) q = futures c q"
proof -
  from assms have "(i, q) \<notin> set (pending c)" by (auto simp: conn_inv_def proms_ok_def)
  then show ?thesis using assms
    by (auto simp: complete_response_def delete_mem dest: map_of_SomeD split: option.splits)
qed

lemma complete_done:
  assumes "conn_inv c" and "q < nfut c" and "futures c q \<noteq> Waiting"
  shows "futures (complete_response i st d c) q = futures c q \<and>
    nfut (complete_response i st d c) = nfut c"
proof -
  from assms have "(i, q) \<notin> set (pending c)" by (auto simp: conn_inv_def proms_ok_def)
  then show ?thesis
    by (auto simp: complete_response_def dest: map_of_SomeD split: option.splits)
qed

abbreviation complete_all :: "(u16 \<times> u8 \<times> bytes) list \<Rightarrow> conn \<Rightarrow> conn" where
  "complete_all rs \<equiv> fold (\<lambda>(i, s, d). complete_response i s d) rs"

lemma complete_all_done:
  "conn_inv c \<Longrightarrow> q < nfut c \<Longrightarrow> futures c q \<noteq> Waiting \<Longrightarrow>
   futures (complete_all rs c) q = futures c q"
  by (induction rs arbitrary: c) (auto simp: complete_done inv_complete)

lemma complete_all_delivers:
  "conn_inv c \<Longrightarrow> (i, p) \<in> set (pending c) \<Longrightarrow> map_of rs i = Some (s, d) \<Longrightarrow>
   futures (complete_all rs c) p = Ready \<lparr>status = s, payload = d\<rparr>"
proof (induction rs arbitrary: c)
  case Nil
  then show ?case by simp
next
  case (Cons r rs)
  obtain j t e where r: "r = (j, t, e)" by (cases r) auto
  show ?case
  proof (cases "j = i")
    case True
    let ?c = "complete_response i s d c"
    from Cons.prems True r have e: "t = s" "e = d" by auto
    have "p < nfut c" using Cons.prems(1,2) by (auto simp: conn_inv_def proms_ok_def)
    then have "futures (complete_all rs ?c) p = futures ?c p"
      using inv_complete[OF Cons.prems(1)]
      by (intro complete_all_done)
        (auto simp flip: complete_pending[OF Cons.prems(1,2)],
         simp_all add: complete_pending[OF Cons.prems(1,2)])
    then show ?thesis using True r e by (simp add: complete_pending[OF Cons.prems(1,2)])
  next
    case False
    then show ?thesis
      using Cons.prems r complete_other[OF Cons.prems(1,2)]
      by (simp add: Cons.IH inv_complete)
  qed
qed

lemma fold_completions:
  "fold (\<lambda>x. apply_action (Some x)) (map (\<lambda>(i, s, d). Complete i s d) rs) c =
   complete_all rs c"
  by (induction rs arbitrary: c) auto

lemma register_collision_breaks:
  assumes "conn_reach c" and "connected c" and "(next_req_id c, q) \<in> set (pending c)"
  shows "futures (snd (send_register cmd pl c)) q = Broken"
proof -
  from reach_inv[OF assms(1)] have "distinct (map fst (pending c))" "q < nfut c"
    using assms(3) by (auto simp: conn_inv_def ids_ok_def proms_ok_def)
  with assms show ?thesis by (simp add: send_register_def alloc_req_id_locked_def Let_def)
qed

section \<open>Properties\<close>

text \<open>
  C1.  A thread never waits for a promise that nobody will fulfil: in every reachable state a
  future is without a value exactly when one request id is mapped to its promise, and after
  a disconnect (whatever the interleaving with \<open>send_request\<close>) no future is left waiting.
\<close>

theorem conn_no_lost_promise:
  assumes "conn_reach c"
  shows "(p < nfut c \<and> futures c p = Waiting \<longleftrightarrow> (\<exists>!i. (i, p) \<in> set (pending c))) \<and>
    (\<not> connected c \<longrightarrow> p < nfut c \<longrightarrow> futures c p \<noteq> Waiting)"
proof -
  from reach_inv[OF assms] have pr: "proms_ok c" and dr: "drained c"
    by (simp_all add: conn_inv_def)
  from pr have "p < nfut c \<and> futures c p = Waiting \<longleftrightarrow> (\<exists>i. (i, p) \<in> set (pending c))"
    and "\<And>i j. (i, p) \<in> set (pending c) \<Longrightarrow> (j, p) \<in> set (pending c) \<Longrightarrow> i = j"
    unfolding proms_ok_def by blast+
  then show ?thesis using dr unfolding drained_def by auto
qed

theorem conn_no_lost_promise_witness:
  "futures (read_failed (snd (send_register CMD_FILE_TELL [1, 0, 0, 0] new_conn))) 0 \<noteq> Waiting"
proof -
  let ?c = "snd (send_register CMD_FILE_TELL [1, 0, 0, 0] new_conn)"
  have "fst (send_register CMD_FILE_TELL [1, 0, 0, 0] new_conn) = Some 0"
    by (simp add: send_register_def new_conn_def alloc_req_id_locked_def)
  then have "conn_step new_conn ?c"
    by (intro s_register[of CMD_FILE_TELL "[1, 0, 0, 0]" new_conn 0]) (simp add: prod_eq_iff)
  then have "conn_reach ?c" by (intro r_step[OF r_new])
  moreover have "conn_step ?c (read_failed ?c)"
    by (rule s_read_failed) (simp add: send_register_def new_conn_def alloc_req_id_locked_def)
  ultimately have "conn_reach (read_failed ?c)" by (rule r_step)
  from conn_no_lost_promise[OF this, of 0] show ?thesis
    by (simp add: read_failed_def on_disconnect_def send_register_def new_conn_def
        alloc_req_id_locked_def fail_all_def)
qed

text \<open>
  C3.  There is one writer: on a live connection with frames to send exactly one \<open>do_write\<close> is
  posted or one \<open>async_write\<close> outstanding, and never are there two, so that two frames are
  never interleaved on the socket and no queued frame is forgotten.
\<close>

theorem conn_single_writer:
  assumes "conn_reach c"
  shows "count_list (posted c) DoWrite + (if in_flight c then 1 else 0) \<le> 1 \<and>
    (connected c \<longrightarrow> write_queue c \<noteq> [] \<longrightarrow>
       count_list (posted c) DoWrite + (if in_flight c then 1 else 0) = 1)"
  using reach_inv[OF assms]
  by (auto simp: conn_inv_def writer_ok_def writers_def split: if_splits)

theorem conn_single_writer_witness:
  "write_queue (heartbeat_fire (new_conn\<lparr>hb_timer := Expired\<rparr>)) \<noteq> [] \<and>
   count_list (posted (heartbeat_fire (new_conn\<lparr>hb_timer := Expired\<rparr>))) DoWrite = 1"
proof -
  let ?c = "new_conn\<lparr>hb_timer := Expired\<rparr>"
  have "conn_step new_conn ?c" by (rule s_expire) (simp add: new_conn_def)
  then have "conn_reach ?c" by (rule r_step[OF r_new])
  moreover have "conn_step ?c (heartbeat_fire ?c)" by (rule s_heartbeat) simp
  ultimately have "conn_reach (heartbeat_fire ?c)" by (rule r_step)
  from conn_single_writer[OF this] show ?thesis
    by (simp add: heartbeat_fire_def enqueue_write_def new_conn_def)
qed

text \<open>
  C4.  The frames go out in the order in which they were enqueued: along any run the frames
  written so far followed by the queue only ever grow at the end.
\<close>

theorem conn_fifo:
  assumes "conn_reach c" and "conn_step\<^sup>*\<^sup>* c c'"
  shows "prefix (sent c @ write_queue c) (sent c' @ write_queue c')"
  using log_steps[OF assms(2) reach_inv[OF assms(1)]] by (simp add: frames_log_def)

theorem conn_fifo_witness:
  "prefix (sent new_conn @ write_queue new_conn)
     (sent (new_conn\<lparr>hb_timer := Expired\<rparr>) @ write_queue (new_conn\<lparr>hb_timer := Expired\<rparr>))"
  by (rule conn_fifo[OF r_new r_into_rtranclp]) (rule s_expire, simp add: new_conn_def)

text \<open>
  C5.  The read pipeline decodes what a peer encoded, however TCP cuts it: when the received
  pieces put together are the frames of a list of responses (payloads up to the limit), the
  completions are those responses, in order, and the pipeline waits for a header again.
\<close>

theorem responses_any_segmentation:
  assumes "concat chunks = concat (map (\<lambda>(i, s, d). build_frame i s d) rs)"
    and "\<forall>(i, s, d)\<in>set rs. length d \<le> MAX_PAYLOAD_SIZE"
  shows "pump_chunks RHeader [] chunks = (map (\<lambda>(i, s, d). Complete i s d) rs, RHeader, [])"
  using pump_chunks_pump[OF pump_RHeader_nil, of chunks] pump_frames[OF assms(2)]
  by (simp add: assms(1))

theorem responses_any_segmentation_witness:
  "pump_chunks RHeader [] [[9, 0, 0], [0, 1, 0, 0, 5, 6, 7, 0], [0, 0, 2, 0, 3]] =
     ([Complete 1 0 [5, 6], Complete 2 3 []], RHeader, [])"
proof -
  have "concat [[9, 0, 0], [0, 1, 0, 0, 5, 6, 7, 0], [0, 0, 2, 0, 3]] =
      concat (map (\<lambda>(i, s, d). build_frame i s d) [(1, 0, [5, 6]), (2, 3, [])])"
    by (simp add: build_frame_def proto_defs FRAME_HEADER_SIZE_def le_bytes_numeral)
  from responses_any_segmentation[OF this] show ?thesis
    by (simp add: MAX_PAYLOAD_SIZE_def)
qed

text \<open>
  C2.  A response that has arrived in full reaches its thread: from any reachable state whose
  inbox holds the frames of responses \<open>rs\<close>, the read steps of the IO thread lead to a state
  where every request with a response in \<open>rs\<close> has that status and payload in its future.
\<close>

theorem conn_responses_delivered:
  assumes "conn_reach c" and "rmode c = RHeader"
    and "inbox c = concat (map (\<lambda>(i, s, d). build_frame i s d) rs)"
    and "\<forall>(i, s, d)\<in>set rs. length d \<le> MAX_PAYLOAD_SIZE"
  shows "\<exists>c'. conn_step\<^sup>*\<^sup>* c c' \<and> inbox c' = [] \<and> (\<forall>(i, p)\<in>set (pending c).
      \<forall>s d. map_of rs i = Some (s, d) \<longrightarrow> futures c' p = Ready \<lparr>status = s, payload = d\<rparr>)"
proof -
  have "pump (rmode c) (inbox c) = (map (\<lambda>(i, s, d). Complete i s d) rs, RHeader, [])"
    using pump_frames[OF assms(4)] by (simp add: assms(2,3))
  from pump_steps[OF this] have
    "conn_step\<^sup>*\<^sup>* c ((complete_all rs c)\<lparr>rmode := RHeader, inbox := []\<rparr>)"
    by (simp add: fold_completions)
  then show ?thesis using complete_all_delivers[OF reach_inv[OF assms(1)]] by fastforce
qed

theorem conn_responses_delivered_witness:
  "\<exists>c'. conn_step\<^sup>*\<^sup>* ((snd (send_register CMD_FILE_TELL [] new_conn))
          \<lparr>inbox := build_frame 1 0 [9, 9]\<rparr>) c' \<and>
        futures c' 0 = Ready \<lparr>status = 0, payload = [9, 9]\<rparr>"
proof -
  let ?c = "snd (send_register CMD_FILE_TELL [] new_conn)"
  let ?d = "?c\<lparr>inbox := inbox ?c @ build_frame 1 0 [9, 9]\<rparr>"
  have "conn_step new_conn ?c"
    by (rule s_register[where cmd = CMD_FILE_TELL and pl = "[]" and p = 0])
      (simp add: send_register_def new_conn_def alloc_req_id_locked_def)
  moreover have "conn_step ?c ?d"
    by (rule s_deliver) (simp add: send_register_def new_conn_def alloc_req_id_locked_def)
  ultimately have "conn_reach ?d" by (blast intro: r_new r_step)
  from conn_responses_delivered[OF this, of "[(1, 0, [9, 9])]"]
  show ?thesis
    by (auto simp: send_register_def new_conn_def alloc_req_id_locked_def MAX_PAYLOAD_SIZE_def)
qed

text \<open>
  Request ids are handed out cyclically and skip 0, so that a promise is destroyed without
  a value (a new request takes its id) only after more than 65535 requests.
\<close>

theorem conn_ids_unique:
  assumes "conn_reach c"
  shows "unat (next_req_id c) = Suc (nfut c mod 65535) \<and>
    (nfut c \<le> 65535 \<longrightarrow> (\<forall>p<nfut c. futures c p \<noteq> Broken))"
  using reach_cycle[OF assms] by (simp add: ids_cycle_def unat_id_of)

theorem conn_ids_unique_witness: "unat (next_req_id new_conn) = 1"
  using conn_ids_unique[OF r_new] by (simp add: new_conn_def)

end
