(* ===== verification/Remote_File.thy ===== *)
theory Remote_File
  imports Uni_File Remote_Conn
begin

text \<open>
  unifs/remote_file.cpp: the operations of \<open>RemoteFile\<close>, each of which exchanges messages
  through \<open>RemoteConn::send_request\<close>.  The connection with the server behind it is the
  parameter \<open>send\<close>, a state transformer on \<open>'s\<close>.  The contract of a server is the locale
  \<open>file_server\<close>; over any server that keeps it a remote file keeps the \<open>UniFile\<close> contract,
  so that the theorems on clients of \<open>UniFile\<close> hold of remote files.  The server itself is not in
  the repository: the properties are stated over every \<open>send\<close> that keeps the contract, and a
  small example server only shows that the contract can be met.
\<close>

section \<open>The operations\<close>

type_synonym 's transport = "'s \<Rightarrow> u8 \<Rightarrow> bytes \<Rightarrow> response \<times> 's"

text \<open>\<open>conn_\<close> (with all that it leads to), \<open>handle_\<close>, \<open>closed_\<close>.\<close>

record 's remote_file =
  link :: 's
  handle :: u32
  is_closed :: bool

definition MAX_READ_CHUNK :: nat where
  "MAX_READ_CHUNK = MAX_PAYLOAD_SIZE - 4"

fun whence_byte :: "whence \<Rightarrow> u8" where
  "whence_byte SEEK_SET = 0"
| "whence_byte SEEK_CUR = 1"
| "whence_byte SEEK_END = 2"

definition rf_new :: "'s \<Rightarrow> u32 \<Rightarrow> 's remote_file" where
  "rf_new s h = \<lparr>link = s, handle = h, is_closed = False\<rparr>"

definition rf_seek :: "'s transport \<Rightarrow> 's remote_file \<Rightarrow> int \<Rightarrow> whence \<Rightarrow> int \<times> 's remote_file" where
  "rf_seek send f off w =
     (if is_closed f then (-1, f)
      else case send (link f) CMD_FILE_SEEK
             (proto_write_u32 (handle f) @ proto_write_i64 off @ [whence_byte w]) of
        (resp, s) \<Rightarrow> (if status resp = STATUS_OK then 0 else -1, f\<lparr>link := s\<rparr>))"

definition rf_tell :: "'s transport \<Rightarrow> 's remote_file \<Rightarrow> int \<times> 's remote_file" where
  "rf_tell send f =
     (if is_closed f then (-1, f)
      else case send (link f) CMD_FILE_TELL (proto_write_u32 (handle f)) of
        (resp, s) \<Rightarrow>
          (if status resp \<noteq> STATUS_OK \<or> length (payload resp) < 8 then -1
           else proto_read_i64 (payload resp), f\<lparr>link := s\<rparr>))"

text \<open>
  The bytes that \<open>read\<close> has put into the caller's buffer, or a \<open>memcpy\<close> that reads behind the
  payload or writes behind the buffer (\<open>n\<close> comes from the server).
\<close>

datatype read_result = Got bytes | Out_of_bounds

text \<open>
  The loop; \<open>sz\<close> is what is left of the buffer.  \<open>4 + n\<close> is computed with 32 bits.
\<close>

function rf_read_loop ::
  "'s transport \<Rightarrow> u32 \<Rightarrow> 's \<Rightarrow> nat \<Rightarrow> bytes \<Rightarrow> read_result \<times> 's" where
  "rf_read_loop send h s sz got =
     (if sz = 0 then (Got got, s)
      else let chunk = (if sz > MAX_READ_CHUNK then MAX_READ_CHUNK else sz) in
      case send s CMD_FILE_READ (proto_write_u32 h @ proto_write_u32 (of_nat chunk)) of
        (resp, s') \<Rightarrow>
      if status resp \<noteq> STATUS_OK \<or> length (payload resp) < 4 then (Got got, s')
      else let n = proto_read_u32 (payload resp) in
      if n = 0 then (Got got, s')
      else if length (payload resp) < unat (4 + n) then (Got got, s')
      else if unat n > length (payload resp) - 4 \<or> unat n > sz then (Out_of_bounds, s')
      else let got' = got @ take (unat n) (drop 4 (payload resp)) in
      if n < of_nat chunk then (Got got', s')
      else rf_read_loop send h s' (sz - unat n) got')"
  by pat_completeness auto
termination
  by (relation "measure (\<lambda>(send, h, s, sz, got). sz)") (auto simp: unat_gt_0)

declare rf_read_loop.simps [simp del]

definition rf_read_raw :: "'s transport \<Rightarrow> 's remote_file \<Rightarrow> nat \<Rightarrow> read_result \<times> 's remote_file" where
  "rf_read_raw send f sz =
     (if is_closed f \<or> sz = 0 then (Got [], f)
      else case rf_read_loop send (handle f) (link f) sz [] of
        (r, s) \<Rightarrow> (r, f\<lparr>link := s\<rparr>))"

text \<open>\<open>read\<close> as its callers see it when no copy is out of bounds.\<close>

definition rf_read :: "'s transport \<Rightarrow> 's remote_file \<Rightarrow> nat \<Rightarrow> bytes \<times> 's remote_file" where
  "rf_read send f sz =
     (case rf_read_raw send f sz of
        (r, g) \<Rightarrow> (case r of Got bs \<Rightarrow> bs | Out_of_bounds \<Rightarrow> [], g))"

definition rf_write_payload :: "u32 \<Rightarrow> bytes \<Rightarrow> bytes" where
  "rf_write_payload h buf =
     (let data_len = (if length buf > MAX_PAYLOAD_SIZE - 8 then MAX_PAYLOAD_SIZE - 8
                      else length buf)
      in proto_write_u32 h @ proto_write_u32 (of_nat data_len) @ take data_len buf)"

definition rf_write :: "'s transport \<Rightarrow> 's remote_file \<Rightarrow> bytes \<Rightarrow> nat \<times> 's remote_file" where
  "rf_write send f buf =
     (if is_closed f \<or> buf = [] then (0, f)
      else case send (link f) CMD_FILE_WRITE (rf_write_payload (handle f) buf) of
        (resp, s) \<Rightarrow>
          (if status resp \<noteq> STATUS_OK \<or> length (payload resp) < 4 then 0
           else unat (proto_read_u32 (payload resp)), f\<lparr>link := s\<rparr>))"

definition rf_close :: "'s transport \<Rightarrow> 's remote_file \<Rightarrow> int \<times> 's remote_file" where
  "rf_close send f =
     (if is_closed f then (0, f)
      else case send (link f) CMD_FILE_CLOSE (proto_write_u32 (handle f)) of
        (resp, s) \<Rightarrow>
          (if status resp = STATUS_OK then 0 else -1, f\<lparr>link := s, is_closed := True\<rparr>))"

section \<open>The contract of a server\<close>

text \<open>
  What the client relies on for a handle that is open: \<open>fcontent\<close> and \<open>fpos\<close> are the server's
  file and position, \<open>live\<close> says that the handle is open.  unifs/protocol.hpp gives the
  requests; the answers are those that remote_file.cpp decodes: a seek and a tell that succeed,
  the position as eight bytes, and for a read the count and as many bytes, fewer than asked for
  only at the end of the file (``partial read means EOF reached'').
\<close>

locale file_server =
  fixes send :: "'s transport"
    and fcontent :: "'s \<Rightarrow> u32 \<Rightarrow> bytes"
    and fpos :: "'s \<Rightarrow> u32 \<Rightarrow> nat"
    and live :: "'s \<Rightarrow> u32 \<Rightarrow> bool"
  assumes fits: "live s h \<Longrightarrow> length (fcontent s h) < 2 ^ 63 \<and> fpos s h < 2 ^ 63"
    and srv_set: "live s h \<Longrightarrow> n < 2 ^ 63 \<Longrightarrow>
        send s CMD_FILE_SEEK (proto_write_u32 h @ proto_write_i64 (int n) @ [0]) = (r, t) \<Longrightarrow>
        status r = STATUS_OK \<and> live t h \<and> fcontent t h = fcontent s h \<and> fpos t h = n"
    and srv_end: "live s h \<Longrightarrow>
        send s CMD_FILE_SEEK (proto_write_u32 h @ proto_write_i64 0 @ [2]) = (r, t) \<Longrightarrow>
        status r = STATUS_OK \<and> live t h \<and> fcontent t h = fcontent s h \<and>
        fpos t h = length (fcontent s h)"
    and srv_tell: "live s h \<Longrightarrow> send s CMD_FILE_TELL (proto_write_u32 h) = (r, t) \<Longrightarrow>
        status r = STATUS_OK \<and> payload r = proto_write_i64 (int (fpos s h)) \<and>
        live t h \<and> fcontent t h = fcontent s h \<and> fpos t h = fpos s h"
    and srv_read: "live s h \<Longrightarrow> c \<le> MAX_READ_CHUNK \<Longrightarrow>
        send s CMD_FILE_READ (proto_write_u32 h @ proto_write_u32 (of_nat c)) = (r, t) \<Longrightarrow>
        bs = take c (drop (fpos s h) (fcontent s h)) \<Longrightarrow>
        status r = STATUS_OK \<and> payload r = proto_write_u32 (of_nat (length bs)) @ bs \<and>
        live t h \<and> fcontent t h = fcontent s h \<and> fpos t h = fpos s h + length bs"

definition rf_content :: "('s \<Rightarrow> u32 \<Rightarrow> bytes) \<Rightarrow> 's remote_file \<Rightarrow> bytes" where
  "rf_content fcontent f = fcontent (link f) (handle f)"

definition rf_pos :: "('s \<Rightarrow> u32 \<Rightarrow> nat) \<Rightarrow> 's remote_file \<Rightarrow> nat" where
  "rf_pos fpos f = fpos (link f) (handle f)"

definition rf_good :: "('s \<Rightarrow> u32 \<Rightarrow> bool) \<Rightarrow> 's remote_file \<Rightarrow> bool" where
  "rf_good live f \<longleftrightarrow> \<not> is_closed f \<and> live (link f) (handle f)"

lemmas rf_view = rf_content_def rf_pos_def rf_good_def

lemma small_u32: "n \<le> MAX_READ_CHUNK \<Longrightarrow> unat (of_nat n :: u32) = n"
  by (simp add: MAX_READ_CHUNK_def MAX_PAYLOAD_SIZE_def unat_of_nat take_bit_eq_mod)

lemma small_u32_4: "n \<le> MAX_READ_CHUNK \<Longrightarrow> unat (4 + of_nat n :: u32) = 4 + n"
proof -
  assume "n \<le> MAX_READ_CHUNK"
  then have "4 + n < 2 ^ 32" by (simp add: MAX_READ_CHUNK_def MAX_PAYLOAD_SIZE_def)
  then have "unat (of_nat (4 + n) :: u32) = 4 + n"
    by (simp add: unat_of_nat take_bit_eq_mod del: of_nat_add)
  then show ?thesis by simp
qed

context file_server
begin

lemma read_loop_reads:
  "live s h \<Longrightarrow> rf_read_loop send h s sz got = (r, t) \<Longrightarrow>
   r = Got (got @ take sz (drop (fpos s h) (fcontent s h))) \<and> live t h \<and>
   fcontent t h = fcontent s h \<and>
   fpos t h = fpos s h + length (take sz (drop (fpos s h) (fcontent s h)))"
proof (induction sz arbitrary: s got rule: less_induct)
  case (less sz)
  show ?case
  proof (cases "sz = 0")
    case True
    with less.prems show ?thesis by (simp add: rf_read_loop.simps)
  next
    case False
    define c where "c = (if sz > MAX_READ_CHUNK then MAX_READ_CHUNK else sz)"
    have c: "c \<le> MAX_READ_CHUNK" "c \<le> sz" "0 < c"
      using False by (auto simp: c_def MAX_READ_CHUNK_def MAX_PAYLOAD_SIZE_def)
    obtain a u where sd:
      "send s CMD_FILE_READ (proto_write_u32 h @ proto_write_u32 (of_nat c)) = (a, u)"
      by fastforce
    define bs where "bs = take c (drop (fpos s h) (fcontent s h))"
    note rd = srv_read[OF less.prems(1) c(1) sd bs_def]
    have lb: "length bs \<le> c" by (simp add: bs_def)
    with c have lm: "length bs \<le> MAX_READ_CHUNK" "length bs \<le> sz" by auto
    have n: "proto_read_u32 (payload a) = of_nat (length bs)" using rd by simp
    have lp: "length (payload a) = 4 + length bs" "drop 4 (payload a) = bs" using rd by simp_all
    have z: "(of_nat (length bs) :: u32) = 0 \<longleftrightarrow> bs = []"
      by (simp only: word_unat_eq_iff small_u32[OF lm(1)] unat_0 length_0_conv)
    have lt: "(of_nat (length bs) :: u32) < of_nat c \<longleftrightarrow> length bs < c"
      using small_u32[OF lm(1)] small_u32[OF c(1)] by (simp add: word_less_nat_alt)
    have ok: "status a = STATUS_OK" using rd by simp
    have step: "rf_read_loop send h s sz got =
        (if bs = [] then (Got got, u)
         else if length bs < c then (Got (got @ bs), u)
         else rf_read_loop send h u (sz - length bs) (got @ bs))"
      using False lm(2)
      by (subst rf_read_loop.simps)
        (simp only: Let_def c_def[symmetric] sd prod.case ok n lp z lt small_u32[OF lm(1)]
          small_u32_4[OF lm(1)], simp)
    show ?thesis
    proof (cases "length bs < c")
      case True
      then have "take sz (drop (fpos s h) (fcontent s h)) = bs" using c(2) by (auto simp: bs_def)
      with True less.prems rd step show ?thesis by (auto split: if_splits)
    next
      case full: False
      then have l: "length bs = c" using lb by simp
      with c(3) have ne: "bs \<noteq> []" by auto
      have "rf_read_loop send h u (sz - c) (got @ bs) = (r, t)"
        using step full ne l less.prems(2) by simp
      moreover have "sz - c < sz" using c by simp
      moreover have "live u h" "fcontent u h = fcontent s h" "fpos u h = fpos s h + c"
        using rd l by auto
      moreover have "take sz xs = take c xs @ take (sz - c) (drop c xs)" for xs :: bytes
        using c(2) by (metis le_add_diff_inverse take_add)
      ultimately show ?thesis
        using less.IH[of "sz - c" u "got @ bs"] l
        by (simp add: add.commute bs_def)
    qed
  qed
qed

lemma read_raw_reads:
  "rf_good live f \<Longrightarrow> rf_read_raw send f n = (r, g) \<Longrightarrow>
   r = Got (take n (drop (rf_pos fpos f) (rf_content fcontent f))) \<and> rf_good live g \<and>
   rf_content fcontent g = rf_content fcontent f \<and>
   rf_pos fpos g = rf_pos fpos f + length (take n (drop (rf_pos fpos f) (rf_content fcontent f)))"
  using read_loop_reads[of "link f" "handle f" n "[]"]
  by (auto simp: rf_read_raw_def rf_view split: if_splits prod.splits)

end

sublocale file_server \<subseteq> rf: unifile "rf_seek send" "rf_tell send" "rf_read send"
  "rf_content fcontent" "rf_pos fpos" "rf_good live"
proof (unfold_locales, goal_cases)
  case (1 f)
  then show ?case using fits by (simp add: rf_view)
next
  case (2 f n r g)
  then show ?case using srv_set[of "link f" "handle f" n]
    by (auto simp: rf_seek_def rf_view split: prod.splits)
next
  case (3 f r g)
  then show ?case using srv_end[of "link f" "handle f"]
    by (auto simp: rf_seek_def rf_view split: prod.splits)
next
  case (4 f r g)
  then show ?case using srv_tell[of "link f" "handle f"] fits[of "link f" "handle f"]
      write_read_i64[of "int (fpos (link f) (handle f))" "[]"]
    by (auto simp: rf_tell_def rf_view split: prod.splits)
next
  case (5 f n bs g)
  then show ?case using read_raw_reads[of f n]
    by (auto simp: rf_read_def split: prod.splits)
qed

section \<open>An example server\<close>

text \<open>
  Not code of the repository, but an instance of the contract, for the witnesses: per open
  handle a stream; \<open>CMD_FILE_OPEN\<close> looks the path up in \<open>disk\<close>.  Commands that no contract
  mentions are refused.
\<close>

record server =
  disk :: "bytes \<Rightarrow> bytes option"
  handles :: "u32 \<Rightarrow> stream option"
  next_handle :: u32

definition reply :: "u8 \<Rightarrow> bytes \<Rightarrow> response" where
  "reply st p = \<lparr>status = st, payload = p\<rparr>"

definition whence_of :: "u8 \<Rightarrow> whence option" where
  "whence_of b = (if b = 0 then Some SEEK_SET else if b = 1 then Some SEEK_CUR
     else if b = 2 then Some SEEK_END else None)"

definition with_handle :: "server \<Rightarrow> bytes \<Rightarrow> (stream \<Rightarrow> response \<times> stream option)
    \<Rightarrow> response \<times> server" where
  "with_handle s p k =
     (let h = proto_read_u32 p in case handles s h of
        None \<Rightarrow> (reply STATUS_ERR_BAD_HANDLE [], s)
      | Some st \<Rightarrow> (case k st of (r, st') \<Rightarrow> (r, s\<lparr>handles := (handles s)(h := st')\<rparr>)))"

definition serve_seek :: "bytes \<Rightarrow> stream \<Rightarrow> response \<times> stream option" where
  "serve_seek p st =
     (case whence_of (p ! 12) of None \<Rightarrow> (reply STATUS_ERR_BAD_ARG [], Some st)
      | Some w \<Rightarrow> (case stream_seek st (proto_read_i64 (drop 4 p)) w of (r, st') \<Rightarrow>
          (reply (if r = 0 then STATUS_OK else STATUS_ERR_GENERIC) [], Some st')))"

definition serve_read :: "bytes \<Rightarrow> stream \<Rightarrow> response \<times> stream option" where
  "serve_read p st =
     (case stream_read st (unat (proto_read_u32 (drop 4 p))) of (bs, st') \<Rightarrow>
        (reply STATUS_OK (proto_write_u32 (of_nat (length bs)) @ bs), Some st'))"

definition serve_open :: "server \<Rightarrow> bytes \<Rightarrow> response \<times> server" where
  "serve_open s p =
     (case disk s (take (unat (proto_read_u16 (drop 1 p))) (drop 3 p)) of
        None \<Rightarrow> (reply STATUS_ERR_NOT_FOUND [], s)
      | Some d \<Rightarrow> (reply STATUS_OK (proto_write_u32 (next_handle s)),
          s\<lparr>handles := (handles s)(next_handle s := Some \<lparr>data = d, offset = 0, flushes = True, room = 0\<rparr>),
            next_handle := next_handle s + 1\<rparr>))"

definition serve :: "server \<Rightarrow> u8 \<Rightarrow> bytes \<Rightarrow> response \<times> server" where
  "serve s cmd p =
     (if cmd = CMD_FILE_SEEK then with_handle s p (serve_seek p)
      else if cmd = CMD_FILE_TELL then with_handle s p (\<lambda>st.
        (reply STATUS_OK (proto_write_i64 (int (offset st))), Some st))
      else if cmd = CMD_FILE_READ then with_handle s p (serve_read p)
      else if cmd = CMD_FILE_OPEN then serve_open s p
      else (reply STATUS_ERR_GENERIC [], s))"

definition served :: "server \<Rightarrow> u32 \<Rightarrow> bytes" where
  "served s h = (case handles s h of None \<Rightarrow> [] | Some st \<Rightarrow> data st)"

definition served_pos :: "server \<Rightarrow> u32 \<Rightarrow> nat" where
  "served_pos s h = (case handles s h of None \<Rightarrow> 0 | Some st \<Rightarrow> offset st)"

definition serving :: "server \<Rightarrow> u32 \<Rightarrow> bool" where
  "serving s h = (case handles s h of None \<Rightarrow> False
     | Some st \<Rightarrow> length (data st) < 2 ^ 63 \<and> offset st < 2 ^ 63)"

lemmas served_defs = served_def served_pos_def serving_def

lemmas serve_simps = serve_def with_handle_def serve_seek_def serve_read_def reply_def
  whence_of_def stream_seek_def stream_read_def cmd_defs Let_def

lemma seek_frame_simps:
  "drop 4 (proto_write_u32 h @ proto_write_i64 k @ [w]) = proto_write_i64 k @ [w]"
  "(proto_write_u32 h @ proto_write_i64 k @ [w]) ! 12 = w"
  by (simp_all add: nth_append)

interpretation srv: file_server serve served served_pos serving
proof (unfold_locales, goal_cases)
  case (1 s h)
  then show ?case by (simp add: served_defs split: option.splits)
next
  case (2 s h n r t)
  then show ?case
    by (auto simp: served_defs serve_simps seek_frame_simps write_read_i64
        simp del: append_assoc split: option.splits)
next
  case (3 s h r t)
  then show ?case
    by (auto simp: served_defs serve_simps seek_frame_simps write_read_i64
        simp del: append_assoc split: option.splits)
next
  case (4 s h r t)
  from write_read_u32[of h "[]"] 4 show ?case
    by (auto simp: served_defs serve_simps split: option.splits)
next
  case (5 s h c r t bs)
  have "drop 4 (proto_write_u32 h @ proto_write_u32 (of_nat c)) = proto_write_u32 (of_nat c)"
    by simp
  moreover have "proto_read_u32 (proto_write_u32 (of_nat c)) = of_nat c"
    using write_read_u32[of "of_nat c" "[]"] by simp
  ultimately show ?case using 5 small_u32[of c] read_end_bound[of "served_pos s h" "2 ^ 63" "served s h" c]
    by (auto simp: served_defs serve_simps split: option.splits)
qed

section \<open>A server that breaks the contract\<close>

text \<open>
  \<open>n\<close> is compared with the length of the payload (in 32 bits) but not with what was asked for.
\<close>

lemma read_overruns_buffer:
  "fst (rf_read_raw (\<lambda>s cmd p. (reply STATUS_OK (proto_write_u32 2 @ [1, 2]), s))
     (rf_new () 7) 1) = Out_of_bounds"
  by (simp add: rf_read_raw_def rf_new_def rf_read_loop.simps reply_def status_defs
      MAX_READ_CHUNK_def MAX_PAYLOAD_SIZE_def Let_def)

lemma read_wraps_check:
  "fst (rf_read_raw (\<lambda>s cmd p. (reply STATUS_OK (proto_write_u32 0xFFFFFFFC), s))
     (rf_new () 7) 1) = Out_of_bounds"
  using write_read_u32[of "0xFFFFFFFC" "[]"]
  by (simp add: rf_read_raw_def rf_new_def rf_read_loop.simps reply_def status_defs
      MAX_READ_CHUNK_def MAX_PAYLOAD_SIZE_def Let_def)

lemma written_payload:
  "drop 8 (rf_write_payload h buf) = take (MAX_PAYLOAD_SIZE - 8) buf"
  "proto_read_u32 (drop 4 (rf_write_payload h buf)) =
     of_nat (min (length buf) (MAX_PAYLOAD_SIZE - 8))"
  "proto_read_u32 (rf_write_payload h buf) = h"
  by (auto simp: rf_write_payload_def Let_def min_def)

section \<open>Properties\<close>

text \<open>
  C14.  A remote read of any size, split by the loop into requests that fit into a frame: over
  every connection whose server answers for the open handle as the contract \<open>file_server\<close> says
  (counts within the request, short only at the end of the file), it returns exactly the bytes
  of the server's file from its position to the end of the request or of the file, advances the
  position by as much, leaves the file as it is, and no copy is out of bounds.  The restriction
  matters: \<open>read_overruns_buffer\<close> and \<open>read_wraps_check\<close> show other answers that make the copy
  leave the buffer.
\<close>

theorem remote_read_exact:
  assumes "file_server send fcontent fpos live"
    and "\<not> is_closed f" and "live (link f) (handle f)"
    and "rf_read_raw send f n = (r, g)"
  shows "r = Got (take n (drop (fpos (link f) (handle f)) (fcontent (link f) (handle f)))) \<and>
    \<not> is_closed g \<and> handle g = handle f \<and> live (link g) (handle g) \<and>
    fcontent (link g) (handle g) = fcontent (link f) (handle f) \<and>
    fpos (link g) (handle g) = fpos (link f) (handle f) +
      length (take n (drop (fpos (link f) (handle f)) (fcontent (link f) (handle f))))"
proof -
  have "handle g = handle f" using assms(4)
    by (auto simp: rf_read_raw_def split: if_splits prod.splits)
  then show ?thesis
    using file_server.read_raw_reads[OF assms(1), of f n r g] assms(2-4) by (simp add: rf_view)
qed

theorem remote_read_exact_witness:
  "fst (rf_read_raw serve (rf_new \<lparr>disk = Map.empty,
      handles = [3 \<mapsto> \<lparr>data = [5, 6, 7], offset = 1, flushes = True, room = 0\<rparr>],
      next_handle = 4\<rparr> 3) 10) = Got [6, 7]"
proof -
  let ?f = "rf_new \<lparr>disk = Map.empty,
    handles = [3 \<mapsto> \<lparr>data = [5, 6, 7], offset = 1, flushes = True, room = 0\<rparr>],
    next_handle = 4\<rparr> 3"
  have "\<not> is_closed ?f" "serving (link ?f) (handle ?f)"
    by (simp_all add: rf_new_def serving_def)
  from remote_read_exact[OF srv.file_server_axioms this, of 10] show ?thesis
    by (cases "rf_read_raw serve ?f 10")
      (simp add: rf_new_def served_def served_pos_def)
qed

text \<open>
  A write sends one frame, whose payload is within the protocol's limit and carries the first
  \<open>min (length buf) (MAX_PAYLOAD_SIZE - 8)\<close> bytes and their number, and returns the number the
  server reports: longer writes are short writes.
\<close>

lemma remote_write_clamped:
  assumes "\<not> is_closed f" and "buf \<noteq> []"
    and "send (link f) CMD_FILE_WRITE (rf_write_payload (handle f) buf) =
      (\<lparr>status = STATUS_OK, payload = proto_write_u32 n\<rparr>, s)"
  shows "length (rf_write_payload (handle f) buf) \<le> MAX_PAYLOAD_SIZE \<and>
    rf_write send f buf = (unat n, f\<lparr>link := s\<rparr>)"
  using assms write_read_u32[of n "[]"]
  by (simp add: rf_write_def Let_def) (simp add: rf_write_payload_def Let_def MAX_PAYLOAD_SIZE_def)

end
