(* ===== verification/Paths.thy ===== *)
theory Paths
  imports Prelude
begin

text \<open>
  Strings and paths: obZrv/strutil.h, unifs/win_path.hpp and \<open>LocalDisplayPath\<close> of
  obZrv/RecentFileRegistry.cpp.  The program speaks Unix-style UTF-8 paths (\<open>/c/dir/file\<close>)
  inside and Windows paths (\<open>C:\\dir\\file\<close>) at its borders.  A \<open>const char *\<close> is the list of
  the characters before its NUL.  The two Windows conversions are parameters: \<open>w2u\<close> is
  \<open>WideCharToMultiByte(CP_UTF8)\<close>, \<open>u2w\<close> is \<open>MultiByteToWideChar(CP_UTF8)\<close>, with \<open>None\<close> when
  they return 0.
\<close>

section \<open>Characters\<close>

text \<open>The C library in the "C" locale.\<close>

definition isalpha :: "char \<Rightarrow> bool" where
  "isalpha c \<longleftrightarrow> (CHR ''a'' \<le> c \<and> c \<le> CHR ''z'') \<or> (CHR ''A'' \<le> c \<and> c \<le> CHR ''Z'')"

definition tolower :: "char \<Rightarrow> char" where
  "tolower c = (if CHR ''A'' \<le> c \<and> c \<le> CHR ''Z'' then char_of (of_char c + 32 :: nat) else c)"

definition toupper :: "char \<Rightarrow> char" where
  "toupper c = (if CHR ''a'' \<le> c \<and> c \<le> CHR ''z'' then char_of (of_char c - 32 :: nat) else c)"

abbreviation bslash :: char where "bslash \<equiv> CHR 0x5C"
abbreviation wslash :: u16 where "wslash \<equiv> 0x2F"
abbreviation wbslash :: u16 where "wbslash \<equiv> 0x5C"
abbreviation wcolon :: u16 where "wcolon \<equiv> 0x3A"

definition towlower :: "u16 \<Rightarrow> u16" where
  "towlower c = (if 0x41 \<le> c \<and> c \<le> 0x5A then c + 32 else c)"

definition towupper :: "u16 \<Rightarrow> u16" where
  "towupper c = (if 0x61 \<le> c \<and> c \<le> 0x7A then c - 32 else c)"

definition wletter :: "u16 \<Rightarrow> bool" where
  "wletter c \<longleftrightarrow> (0x61 \<le> c \<and> c \<le> 0x7A) \<or> (0x41 \<le> c \<and> c \<le> 0x5A)"

section \<open>Conversions\<close>

definition wstr_to_utf8 :: "(wstr \<Rightarrow> string option) \<Rightarrow> wstr \<Rightarrow> string" where
  "wstr_to_utf8 w2u s = (if s = [] then [] else case w2u s of None \<Rightarrow> [] | Some x \<Rightarrow> x)"

definition utf8_to_wstr :: "(string \<Rightarrow> wstr option) \<Rightarrow> string \<Rightarrow> wstr" where
  "utf8_to_wstr u2w s = (if s = [] then [] else case u2w s of None \<Rightarrow> [] | Some x \<Rightarrow> x)"

section \<open>Splitting a path\<close>

text \<open>\<open>strrchr\<close>: what stands before and after the last occurrence.\<close>

fun strrchr :: "'a list \<Rightarrow> 'a \<Rightarrow> ('a list \<times> 'a list) option" where
  "strrchr [] c = None"
| "strrchr (x # xs) c = (case strrchr xs c of
     Some (a, b) \<Rightarrow> Some (x # a, b)
   | None \<Rightarrow> if x = c then Some ([], xs) else None)"

lemma strrchr_None: "strrchr s c = None \<longleftrightarrow> c \<notin> set s"
  by (induction s) (auto split: option.splits)

lemma strrchr_Some: "strrchr s c = Some (a, b) \<longleftrightarrow> s = a @ c # b \<and> c \<notin> set b"
proof (induction s arbitrary: a b)
  case Nil
  then show ?case by simp
next
  case (Cons x s)
  show ?case
  proof (cases "strrchr s c")
    case None
    then have "c \<notin> set s" by (simp add: strrchr_None)
    then show ?thesis by (cases a) (auto simp: None)
  next
    case (Some z)
    obtain a' b' where z: "z = (a', b')" by (cases z) auto
    with Some Cons.IH[of a' b'] have s: "s = a' @ c # b'" "c \<notin> set b'" by simp_all
    from Some z Cons.IH[of "tl a" b]
    have "a' = tl a \<and> b' = b \<longleftrightarrow> s = tl a @ c # b \<and> c \<notin> set b" by simp
    with Some z s(1) show ?thesis by (cases a) auto
  qed
qed

text \<open>The file name and directory of a path, as \<open>Doc\<close> takes them apart.\<close>

definition path_file :: "string \<Rightarrow> string" where
  "path_file p = (case strrchr p (CHR ''/'') of None \<Rightarrow> p | Some (a, b) \<Rightarrow> b)"

definition path_dir :: "string \<Rightarrow> string" where
  "path_dir p = (case strrchr p (CHR ''/'') of None \<Rightarrow> ''.'' | Some (a, b) \<Rightarrow> a)"

definition getExt :: "string \<Rightarrow> string" where
  "getExt p = (case strrchr (path_file p) (CHR ''.'') of
     None \<Rightarrow> [] | Some (a, e) \<Rightarrow> map tolower e)"

lemma path_split: "CHR ''/'' \<notin> set f \<Longrightarrow>
    path_dir (d @ ''/'' @ f) = d \<and> path_file (d @ ''/'' @ f) = f"
proof -
  assume "CHR ''/'' \<notin> set f"
  then have "strrchr (d @ ''/'' @ f) (CHR ''/'') = Some (d, f)" by (simp add: strrchr_Some)
  then show ?thesis by (simp add: path_dir_def path_file_def)
qed

lemma getExt_name: "CHR ''/'' \<notin> set f \<Longrightarrow> getExt (d @ ''/'' @ f) = getExt f"
proof -
  assume f: "CHR ''/'' \<notin> set f"
  then have "strrchr f (CHR ''/'') = None" by (simp add: strrchr_None)
  then show ?thesis using path_split[OF f] by (simp add: getExt_def path_file_def)
qed

section \<open>Between Windows and Unix style\<close>

definition to_unipath :: "(wstr \<Rightarrow> string option) \<Rightarrow> wstr \<Rightarrow> string" where
  "to_unipath w2u s =
     (case s of [] \<Rightarrow> []
      | c # _ \<Rightarrow>
        if c = wslash \<or> c = 0x72 then wstr_to_utf8 w2u s
        else if wletter c \<and> length s \<ge> 2 \<and> s ! 1 = wcolon then
          wstr_to_utf8 w2u (wslash # towlower c #
            map (\<lambda>p. if p = wbslash then wslash else p) (drop 2 s))
        else wstr_to_utf8 w2u s)"

definition linux_path_to_win :: "string \<Rightarrow> string" where
  "linux_path_to_win path =
     (case path of [] \<Rightarrow> []
      | c0 # p1 \<Rightarrow> if c0 \<noteq> CHR ''/'' then path
        else (case p1 of [] \<Rightarrow> []
        | drive # rest \<Rightarrow>
            if \<not> isalpha drive then path
            else if rest \<noteq> [] \<and> hd rest \<noteq> CHR ''/'' then path
            else toupper drive # CHR '':'' #
              (if rest = [] then [bslash]
               else map (\<lambda>c. if c = CHR ''/'' then bslash else c) rest)))"

definition LocalDisplayPath :: "(string \<Rightarrow> wstr option) \<Rightarrow> string \<Rightarrow> wstr" where
  "LocalDisplayPath u2w path =
     (let w = utf8_to_wstr u2w path in
      if length w \<ge> 3 \<and> w ! 0 = wslash \<and> wletter (w ! 1) \<and> w ! 2 = wslash then
        towupper (w ! 1) # wcolon # map (\<lambda>c. if c = wslash then wbslash else c) (drop 2 w)
      else map (\<lambda>c. if c = wslash then wbslash else c) w)"

section \<open>The styles correspond\<close>

text \<open>
  What is used of UTF-8: an ASCII code unit is one byte wherever it stands, and an ASCII byte
  comes from an ASCII code unit.
\<close>

definition utf8_like :: "(wstr \<Rightarrow> string) \<Rightarrow> bool" where
  "utf8_like u \<longleftrightarrow> u [] = [] \<and>
     (\<forall>a b c. c < 0x80 \<longrightarrow> u (a @ c # b) = u a @ char_of (unat c) # u b) \<and>
     (\<forall>s c. c < 0x80 \<longrightarrow> char_of (unat c) \<in> set (u s) \<longrightarrow> c \<in> set s)"

text \<open>An instance: the conversion of strings that are ASCII throughout.\<close>

definition ascii_utf8 :: "wstr \<Rightarrow> string" where
  "ascii_utf8 s = map (\<lambda>c. char_of (unat c)) (filter (\<lambda>c. c < 0x80) s)"

lemma ascii_char_inj:
  "a < 0x80 \<Longrightarrow> b < 0x80 \<Longrightarrow> (char_of (unat a) :: char) = char_of (unat b) \<longleftrightarrow> a = (b :: u16)"
proof -
  assume l: "a < 0x80" "b < 0x80"
  then have "unat a < 256" "unat b < 256" by (simp_all add: word_less_nat_alt)
  then have "(char_of (unat a) :: char) = char_of (unat b) \<longleftrightarrow> unat a = unat b"
    by (simp add: char_of_eq_iff take_bit_eq_mod)
  then show ?thesis by (simp add: word_unat_eq_iff)
qed

lemma utf8_like_ascii: "utf8_like ascii_utf8"
proof -
  have "c \<in> set s" if "c < 0x80" "char_of (unat c) \<in> set (ascii_utf8 s)" for s and c :: u16
  proof -
    from that(2) obtain d where "d \<in> set s" "d < 0x80" "(char_of (unat c) :: char) = char_of (unat d)"
      unfolding ascii_utf8_def by force
    with ascii_char_inj[OF that(1) \<open>d < 0x80\<close>] show ?thesis by blast
  qed
  then show ?thesis unfolding utf8_like_def by (simp add: ascii_utf8_def)
qed

lemma utf8_like_append:
  "utf8_like u \<Longrightarrow> c < 0x80 \<Longrightarrow> u (a @ c # b) = u a @ char_of (unat c) # u b"
  unfolding utf8_like_def by blast

lemma utf8_like_Cons: "utf8_like u \<Longrightarrow> c < 0x80 \<Longrightarrow> u (c # b) = char_of (unat c) # u b"
  using utf8_like_append[of u c "[]" b] by (simp add: utf8_like_def)

lemma slash_ascii [simp]: "wslash < 0x80" "wbslash < 0x80" "wcolon < 0x80"
  by (simp_all add: word_less_nat_alt)

lemma ascii_chars [simp]:
  "char_of (47 :: nat) = CHR ''/''" "char_of (92 :: nat) = bslash" "char_of (58 :: nat) = CHR '':''"
  by code_simp+

lemma slash_chars:
  "(char_of (unat wslash) :: char) = CHR ''/''" "(char_of (unat wbslash) :: char) = bslash"
  "(char_of (unat wcolon) :: char) = CHR '':''"
  by simp_all

lemma utf8_no_char: "utf8_like u \<Longrightarrow> c < 0x80 \<Longrightarrow> c \<notin> set s \<Longrightarrow> char_of (unat c) \<notin> set (u s)"
  unfolding utf8_like_def by blast

lemma slashes_back:
  assumes u: "utf8_like u" and "wslash \<notin> set s"
  shows "map (\<lambda>c. if c = CHR ''/'' then bslash else c)
      (u (map (\<lambda>p. if p = wbslash then wslash else p) s)) = u s"
  using assms(2)
proof (induction "length s" arbitrary: s rule: less_induct)
  case less
  show ?case
  proof (cases "wbslash \<in> set s")
    case False
    then have "map (\<lambda>p. if p = wbslash then wslash else p) s = s"
      by (intro map_idI) auto
    moreover have "CHR ''/'' \<notin> set (u s)"
      using utf8_no_char[OF u _ less.prems] unfolding slash_chars by simp
    ultimately show ?thesis by (auto intro!: map_idI)
  next
    case True
    then obtain a b where s: "s = a @ wbslash # b" "wbslash \<notin> set a"
      by (meson split_list_first)
    have "map (\<lambda>p. if p = wbslash then wslash else p) a = a"
      using s(2) by (intro map_idI) auto
    moreover have "map (\<lambda>c. if c = CHR ''/'' then bslash else c) (u a) = u a"
      using utf8_no_char[OF u _, of wslash a] less.prems s unfolding slash_chars
      by (auto intro!: map_idI)
    ultimately show ?thesis
      using less.hyps[of b] less.prems s by (simp add: utf8_like_append[OF u])
  qed
qed

lemma wletter_ascii: "wletter d \<Longrightarrow> d < 0x80 \<and> towlower d < 0x80"
  by (auto simp: wletter_def towlower_def word_less_nat_alt word_le_nat_alt unat_word_ariths)

lemma of_char_char_of_small: "n < 256 \<Longrightarrow> (of_char (char_of n :: char) :: nat) = n"
  by simp

lemma drive_cases:
  assumes "wletter d"
  shows "isalpha (char_of (unat (towlower d))) \<and>
    toupper (char_of (unat (towlower d))) = char_of (unat (towupper d))"
proof (cases "0x61 \<le> d \<and> d \<le> 0x7A")
  case True
  then have k: "97 \<le> unat d" "unat d \<le> 122" by (simp_all add: word_le_nat_alt)
  have "unat (d - 32) = unat d - 32" using k by (simp add: unat_sub word_le_nat_alt)
  moreover have "towlower d = d" using k by (auto simp: towlower_def word_le_nat_alt)
  ultimately show ?thesis using k True
    by (simp add: isalpha_def toupper_def towupper_def less_eq_char_def of_char_char_of_small)
next
  case False
  with assms have k: "65 \<le> unat d" "unat d \<le> 90"
    by (auto simp: wletter_def word_le_nat_alt)
  then have "unat (d + 32) = unat d + 32" by (subst unat_add_lem[THEN iffD1]) simp_all
  moreover have "towlower d = d + 32" "towupper d = d"
    using k by (auto simp: towlower_def towupper_def word_le_nat_alt)
  ultimately show ?thesis using k
    by (simp add: isalpha_def toupper_def less_eq_char_def of_char_char_of_small)
qed

text \<open>The test for \<open>remote:\<close> also takes the lower-case drive \<open>r:\<close>, which stays as it is.\<close>

lemma drive_r_not_converted:
  "to_unipath (\<lambda>s. Some (ascii_utf8 s)) (wlit ''r:'' @ [wbslash] @ wlit ''a'') =
     ''r:'' @ [bslash] @ ''a''"
  by code_simp

section \<open>Properties\<close>

text \<open>
  C17.  Paths survive the way in and out: an absolute Windows path \<open>X:\\...\<close> that the program
  has turned into its Unix style is turned by the file layer into the UTF-8 form of the same
  path (with an upper-case drive letter), and by the list of recent files into the same wide
  path.  This holds for every drive letter but the lower-case \<open>r\<close> (which the code takes for
  \<open>remote://\<close>, see \<open>drive_r_not_converted\<close>), for a rest without forward slashes, and for a
  conversion \<open>u\<close> to UTF-8 that treats ASCII as UTF-8 does and that \<open>u2w\<close> inverts on the converted
  path.
\<close>

theorem path_roundtrip:
  assumes "utf8_like u"
    and "u2w (u (wslash # towlower d # wslash #
           map (\<lambda>p. if p = wbslash then wslash else p) rest)) =
         Some (wslash # towlower d # wslash # map (\<lambda>p. if p = wbslash then wslash else p) rest)"
    and "wletter d" and "d \<noteq> 0x72" and "wslash \<notin> set rest"
  shows "linux_path_to_win (to_unipath (\<lambda>s. Some (u s)) (d # wcolon # wbslash # rest)) =
      wstr_to_utf8 (\<lambda>s. Some (u s)) (towupper d # wcolon # wbslash # rest) \<and>
    LocalDisplayPath u2w (to_unipath (\<lambda>s. Some (u s)) (d # wcolon # wbslash # rest)) =
      towupper d # wcolon # wbslash # rest"
proof -
  let ?m = "map (\<lambda>p. if p = wbslash then wslash else p)"
  note C = utf8_like_Cons[OF assms(1)]
  have d: "d \<noteq> wslash" "towlower d < 0x80" "towupper d < 0x80" "wletter (towlower d)"
    "towupper (towlower d) = towupper d"
    using assms(3) by (auto simp: wletter_def towlower_def towupper_def word_le_nat_alt
        word_less_nat_alt word_unat_eq_iff unat_word_ariths unat_sub_if_size word_size)
  have unix: "to_unipath (\<lambda>s. Some (u s)) (d # wcolon # wbslash # rest) =
      u (wslash # towlower d # wslash # ?m rest)"
    using assms(3,4) d(1) by (simp add: to_unipath_def wstr_to_utf8_def)
  also have "\<dots> = CHR ''/'' # char_of (unat (towlower d)) # CHR ''/'' # u (?m rest)"
    using d(2) by (simp add: C)
  finally have unix': "to_unipath (\<lambda>s. Some (u s)) (d # wcolon # wbslash # rest) = \<dots>" .
  have "linux_path_to_win \<dots> = wstr_to_utf8 (\<lambda>s. Some (u s)) (towupper d # wcolon # wbslash # rest)"
    using drive_cases[OF assms(3)] d(3) slashes_back[OF assms(1,5)]
    by (simp add: linux_path_to_win_def wstr_to_utf8_def C)
  note win = this
  have "map (\<lambda>c. if c = wslash then wbslash else c) (?m rest) = rest"
    using assms(5) by (auto intro!: map_idI)
  moreover have "u (wslash # towlower d # wslash # ?m rest) \<noteq> []" by (simp add: C)
  then have "utf8_to_wstr u2w (u (wslash # towlower d # wslash # ?m rest)) =
      wslash # towlower d # wslash # ?m rest"
    using assms(2) by (simp only: utf8_to_wstr_def if_False option.case)
  ultimately have "LocalDisplayPath u2w (u (wslash # towlower d # wslash # ?m rest)) =
      towupper d # wcolon # wbslash # rest"
    using d(4,5) by (simp add: LocalDisplayPath_def del: map_map)
  then show ?thesis using unix unix' win by simp
qed

theorem path_roundtrip_witness:
  "linux_path_to_win (to_unipath (\<lambda>s. Some (ascii_utf8 s))
     (wlit ''c:'' @ [wbslash] @ wlit ''ab'')) = ''C:'' @ [bslash] @ ''ab''"
proof -
  have "(\<lambda>s. Some (map of_char s)) (ascii_utf8 (wslash # towlower 0x63 # wslash #
           map (\<lambda>p. if p = wbslash then wslash else p) (wlit ''ab''))) =
         Some (wslash # towlower 0x63 # wslash #
           map (\<lambda>p. if p = wbslash then wslash else p) (wlit ''ab'') :: wstr)"
    by code_simp
  from path_roundtrip[where u = ascii_utf8 and u2w = "\<lambda>s. Some (map of_char s)" and d = "0x63" and
      rest = "wlit ''ab''",
      OF utf8_like_ascii this]
  have "linux_path_to_win (to_unipath (\<lambda>s. Some (ascii_utf8 s))
      (0x63 # wcolon # wbslash # wlit ''ab'')) =
      wstr_to_utf8 (\<lambda>s. Some (ascii_utf8 s)) (towupper 0x63 # wcolon # wbslash # wlit ''ab'')"
    by (simp add: wletter_def wlit_def)
  also have "\<dots> = ''C:'' @ [bslash] @ ''ab''" by code_simp
  finally show ?thesis by (simp add: wlit_def)
qed

text \<open>
   The extension of a path is the lower-cased part after the last dot of its file name; a
  dot in a directory name does not count, and a name without a dot or that ends in a dot has
  no extension.
\<close>

theorem getExt_of_name:
  assumes "CHR ''/'' \<notin> set base" and "CHR ''/'' \<notin> set ext" and "CHR ''.'' \<notin> set ext"
  shows "getExt (dir @ ''/'' @ base @ ''.'' @ ext) = map tolower ext \<and>
    (CHR ''.'' \<notin> set base \<longrightarrow> getExt (dir @ ''/'' @ base) = [])"
proof -
  have "strrchr (base @ ''.'' @ ext) (CHR ''.'') = Some (base, ext)"
    using assms(3) by (simp add: strrchr_Some)
  moreover have "CHR ''/'' \<notin> set (base @ ''.'' @ ext)" using assms(1,2) by simp
  moreover have "CHR ''.'' \<notin> set base \<longrightarrow> strrchr base (CHR ''.'') = None"
    by (simp add: strrchr_None)
  ultimately show ?thesis using assms(1) path_split[of base dir]
      path_split[of "base @ ''.'' @ ext" dir]
    by (simp add: getExt_def)
qed

theorem getExt_of_name_witness: "getExt ''/c/pics.old/Photo.JPG'' = ''jpg''"
proof -
  have "getExt (''/c/pics.old'' @ ''/'' @ ''Photo'' @ ''.'' @ ''JPG'') = map tolower ''JPG''"
    using getExt_of_name[of "''Photo''" "''JPG''" "''/c/pics.old''"] by simp
  also have "map tolower ''JPG'' = ''jpg''" by code_simp
  finally show ?thesis by simp
qed

end
