(* ===== verification/Uni_Fs.thy ===== *)
theory Uni_Fs
  imports Paths
begin

text \<open>
  unifs/unifs.hpp: directory entries and directory iterators.  A provider of directories
  (Windows, Linux, remote) supplies \<open>next\<close>; the locale \<open>dir_iterator\<close> is its contract and
  \<open>range_for\<close> the loop that every client runs over it (\<open>while ((e = iter.next()) != nullptr)\<close>
  and the range-for).
\<close>

section \<open>DirEntry\<close>

text \<open>
  The enum has \<open>uint8_t\<close> as its type and is filled by a cast from a received byte, so that any
  byte is a value of it.
\<close>

type_synonym de_kind = u8

definition DE_FILE :: de_kind where "DE_FILE = 0"
definition DE_DIR :: de_kind where "DE_DIR = 1"
definition DE_SYMLINK :: de_kind where "DE_SYMLINK = 2"
definition DE_OTHER :: de_kind where "DE_OTHER = 3"

lemmas de_defs = DE_FILE_def DE_DIR_def DE_SYMLINK_def DE_OTHER_def

record dir_entry =
  de_fullname :: string
  de_type :: de_kind
  de_size :: u64
  de_ctime :: u32
  de_mtime :: u32

definition empty_entry :: dir_entry where
  "empty_entry = \<lparr>de_fullname = [], de_type = DE_OTHER, de_size = 0, de_ctime = 0, de_mtime = 0\<rparr>"

text \<open>\<open>name()\<close> hands out \<open>name_.c_str()\<close>.\<close>

definition de_name :: "dir_entry \<Rightarrow> string" where
  "de_name e = c_str (de_fullname e)"

definition de_copy :: "dir_entry \<Rightarrow> dir_entry" where
  "de_copy e = \<lparr>de_fullname = de_fullname e, de_type = de_type e, de_size = de_size e,
     de_ctime = de_ctime e, de_mtime = de_mtime e\<rparr>"

section \<open>DirIter\<close>

text \<open>An invalid iterator (of a failed \<open>readdir\<close>) holds no implementation.\<close>

definition diriter_valid :: "'i option \<Rightarrow> bool" where
  "diriter_valid it \<longleftrightarrow> it \<noteq> None"

definition diriter_next ::
  "('i \<Rightarrow> dir_entry option \<times> 'i) \<Rightarrow> 'i option \<Rightarrow> dir_entry option \<times> 'i option" where
  "diriter_next nxt it =
     (case it of None \<Rightarrow> (None, None) | Some i \<Rightarrow> (case nxt i of (e, j) \<Rightarrow> (e, Some j)))"

partial_function (option) range_for ::
  "('i \<Rightarrow> dir_entry option \<times> 'i) \<Rightarrow> (dir_entry \<Rightarrow> 's \<Rightarrow> 's) \<Rightarrow> 'i option \<Rightarrow> 's \<Rightarrow> 's option" where
  "range_for nxt body it s =
     (case diriter_next nxt it of
        (None, it') \<Rightarrow> Some s
      | (Some e, it') \<Rightarrow> range_for nxt body it' (body e s))"

text \<open>\<open>left i\<close>: the entries that the iterator has still to deliver.\<close>

locale dir_iterator =
  fixes nxt :: "'i \<Rightarrow> dir_entry option \<times> 'i"
    and left :: "'i \<Rightarrow> dir_entry list"
  assumes nxt_end: "left i = [] \<Longrightarrow> fst (nxt i) = None"
    and nxt_entry: "left i = e # es \<Longrightarrow> fst (nxt i) = Some e \<and> left (snd (nxt i)) = es"
begin

lemma range_for_all: "range_for nxt body (Some i) s = Some (fold body (left i) s)"
proof (induction "left i" arbitrary: i s)
  case Nil
  then show ?case
    using nxt_end[of i]
    by (cases "nxt i") (simp add: range_for.simps[of nxt body "Some i"] diriter_next_def)
next
  case (Cons e es)
  obtain j where n: "nxt i = (Some e, j)" "left j = es"
    using nxt_entry[OF Cons(2)[symmetric]] by (cases "nxt i") auto
  with Cons(1)[of j] Cons(2)[symmetric] show ?case
    by (simp add: range_for.simps[of nxt body "Some i"] diriter_next_def)
qed

lemma collect_all: "range_for nxt (\<lambda>e es. es @ [e]) (Some i) [] = Some (left i)"
proof -
  have "fold (\<lambda>e es. es @ [e]) xs ys = ys @ xs" for xs ys :: "dir_entry list"
    by (induction xs arbitrary: ys) auto
  then show ?thesis by (simp add: range_for_all)
qed

end

lemma range_for_invalid: "range_for nxt body None s = Some s"
  by (simp add: range_for.simps diriter_next_def)

end
