(* ===== verification/Remote_Fs.thy ===== *)
theory Remote_Fs
  imports Uni_Fs Remote_File ZData_File
begin

text \<open>
  unifs/remote_fs.cpp: the remote file system.  Requests carry a path with a 16-bit length; the
  answer to \<open>CMD_FS_READDIR\<close> is parsed into a batch of entries that the iterator then hands
  out.  As in \<open>Remote_File\<close> the connection is a transport \<open>send\<close> over a state, and opening one
  is the parameter \<open>connect\<close>.
\<close>

section \<open>State\<close>

text \<open>\<open>host_\<close>, \<open>port_\<close>, \<open>conn_\<close>, \<open>last_status_\<close>.\<close>

record 's remote_fs =
  host :: string
  port :: u16
  rconn :: 's
  last_status :: u8

definition rfs_open :: "(string \<Rightarrow> u16 \<Rightarrow> 's option) \<Rightarrow> string \<Rightarrow> u16 \<Rightarrow> 's remote_fs option" where
  "rfs_open connect h p = (case connect h p of None \<Rightarrow> None
     | Some s \<Rightarrow> Some \<lparr>host = h, port = p, rconn = s, last_status = STATUS_OK\<rparr>)"

definition rfs_reconnect ::
  "(string \<Rightarrow> u16 \<Rightarrow> 's option) \<Rightarrow> 's remote_fs \<Rightarrow> bool \<times> 's remote_fs" where
  "rfs_reconnect connect fs = (case connect (host fs) (port fs) of
       None \<Rightarrow> (False, fs\<lparr>last_status := STATUS_ERR_GENERIC\<rparr>)
     | Some s \<Rightarrow> (True, fs\<lparr>rconn := s, last_status := STATUS_OK\<rparr>))"

section \<open>RemoteDirIterImpl\<close>

record remote_dir_iter =
  entries :: "dir_entry list"
  idx :: nat

definition rdi_next :: "remote_dir_iter \<Rightarrow> dir_entry option \<times> remote_dir_iter" where
  "rdi_next it = (if idx it \<ge> length (entries it) then (None, it)
     else (Some (entries it ! idx it), it\<lparr>idx := idx it + 1\<rparr>))"

definition rdi_left :: "remote_dir_iter \<Rightarrow> dir_entry list" where
  "rdi_left it = drop (idx it) (entries it)"

interpretation rdi: dir_iterator rdi_next rdi_left
proof (unfold_locales, goal_cases)
  case (1 i)
  then show ?case by (simp add: rdi_next_def rdi_left_def)
next
  case (2 i e es)
  then have "idx i < length (entries i)" by (metis drop_all linorder_not_le list.distinct(1) rdi_left_def)
  with 2 show ?case
    by (auto simp: rdi_next_def rdi_left_def Cons_nth_drop_Suc[symmetric])
qed

section \<open>readdir\<close>

text \<open>\<open>(uint16_t)strlen(path)\<close> and as many bytes of the path.\<close>

definition path_len :: "string \<Rightarrow> u16" where
  "path_len path = of_nat (length path)"

definition path_bytes :: "string \<Rightarrow> bytes" where
  "path_bytes path = take (unat (path_len path)) (bytes_of_string path)"

definition path_payload :: "string \<Rightarrow> bytes" where
  "path_payload path = proto_write_u16 (path_len path) @ path_bytes path"

text \<open>The loop over \<open>count\<close> entries; \<open>p\<close> is the rest of the payload, and \<open>None\<close> an invalid
  iterator.\<close>

fun parse_entries :: "nat \<Rightarrow> bytes \<Rightarrow> dir_entry list option" where
  "parse_entries 0 p = Some []"
| "parse_entries (Suc n) p =
     (if length p < 19 then None
      else let nlen = unat (proto_read_u16 (drop 17 p)); q = drop 19 p in
      if length q < nlen then None
      else case parse_entries n (drop nlen q) of
        None \<Rightarrow> None
      | Some es \<Rightarrow> Some (\<lparr>de_fullname = string_of_bytes (take nlen q), de_type = p ! 0,
            de_size = proto_read_u64 (drop 9 p), de_ctime = proto_read_u32 (drop 1 p),
            de_mtime = proto_read_u32 (drop 5 p)\<rparr> # es))"

definition rfs_readdir ::
  "'s transport \<Rightarrow> 's remote_fs \<Rightarrow> string \<Rightarrow> remote_dir_iter option \<times> 's remote_fs" where
  "rfs_readdir send fs path =
     (case send (rconn fs) CMD_FS_READDIR (path_payload path) of (resp, s) \<Rightarrow>
      let fs' = fs\<lparr>rconn := s, last_status := status resp\<rparr> in
      if status resp \<noteq> STATUS_OK \<or> length (payload resp) < 4 then (None, fs')
      else case parse_entries (unat (proto_read_u32 (payload resp))) (drop 4 (payload resp)) of
        None \<Rightarrow> (None, fs')
      | Some es \<Rightarrow> (Some \<lparr>entries = es, idx = 0\<rparr>, fs'))"

section \<open>openfile and removefile\<close>

definition open_flags :: "string \<Rightarrow> u8 option" where
  "open_flags mode =
     (if mode = ''r'' \<or> mode = ''rb'' then Some FILE_FLAG_READ
      else if mode = ''w'' \<or> mode = ''wb'' then Some FILE_FLAG_WRITE
      else if mode = ''r+'' \<or> mode = ''r+b'' then Some FILE_FLAG_RDWR
      else if mode = ''a'' \<or> mode = ''ab'' then Some FILE_FLAG_APPEND
      else None)"

definition rfs_openfile ::
  "'s transport \<Rightarrow> 's remote_fs \<Rightarrow> string \<Rightarrow> string \<Rightarrow> 's remote_file option \<times> 's remote_fs" where
  "rfs_openfile send fs path mode =
     (case open_flags mode of None \<Rightarrow> (None, fs)
      | Some fl \<Rightarrow>
        (case send (rconn fs) CMD_FILE_OPEN (fl # path_payload path) of (resp, s) \<Rightarrow>
         let fs' = fs\<lparr>rconn := s, last_status := status resp\<rparr> in
         if status resp \<noteq> STATUS_OK \<or> length (payload resp) < 4 then (None, fs')
         else (Some (rf_new s (proto_read_u32 (payload resp))), fs')))"

definition rfs_removefile :: "'s transport \<Rightarrow> 's remote_fs \<Rightarrow> string \<Rightarrow> int \<times> 's remote_fs" where
  "rfs_removefile send fs path =
     (case send (rconn fs) CMD_FS_REMOVE (path_payload path) of (resp, s) \<Rightarrow>
        (if status resp = STATUS_OK then 0 else -1,
         fs\<lparr>rconn := s, last_status := status resp\<rparr>))"

section \<open>The directory batch on the wire\<close>

text \<open>The encoding that unifs/protocol.hpp gives for the answer to \<open>CMD_FS_READDIR\<close>.\<close>

definition encode_entry :: "dir_entry \<Rightarrow> bytes" where
  "encode_entry e = de_type e # proto_write_u32 (de_ctime e) @ proto_write_u32 (de_mtime e) @
     proto_write_u64 (de_size e) @ proto_write_u16 (of_nat (length (de_fullname e))) @
     bytes_of_string (de_fullname e)"

definition encode_dir :: "dir_entry list \<Rightarrow> bytes" where
  "encode_dir es = proto_write_u32 (of_nat (length es)) @ concat (map encode_entry es)"

lemma entry_fields:
  "encode_entry e @ r = [de_type e] @ proto_write_u32 (de_ctime e) @
     proto_write_u32 (de_mtime e) @ proto_write_u64 (de_size e) @
     proto_write_u16 (of_nat (length (de_fullname e))) @ bytes_of_string (de_fullname e) @ r"
  by (simp add: encode_entry_def)

lemma parse_encoded_entry:
  assumes "length (de_fullname e) < 2 ^ 16"
  shows "parse_entries (Suc n) (encode_entry e @ r) =
    (case parse_entries n r of None \<Rightarrow> None | Some es \<Rightarrow> Some (e # es))"
proof -
  let ?p = "encode_entry e @ r"
  have d: "drop 1 ?p = proto_write_u32 (de_ctime e) @ drop 5 ?p"
    "drop 5 ?p = proto_write_u32 (de_mtime e) @ drop 9 ?p"
    "drop 9 ?p = proto_write_u64 (de_size e) @ drop 17 ?p"
    "drop 17 ?p = proto_write_u16 (of_nat (length (de_fullname e))) @ drop 19 ?p"
    "drop 19 ?p = bytes_of_string (de_fullname e) @ r"
    unfolding entry_fields by (simp_all del: append_assoc)
  have n: "unat (of_nat (length (de_fullname e)) :: u16) = length (de_fullname e)"
    using assms by (simp add: unat_of_nat take_bit_eq_mod)
  have f: "proto_read_u32 (drop 1 ?p) = de_ctime e" "proto_read_u32 (drop 5 ?p) = de_mtime e"
    "proto_read_u64 (drop 9 ?p) = de_size e"
    "unat (proto_read_u16 (drop 17 ?p)) = length (de_fullname e)"
    using n by (simp_all only: d(1-4) write_read_u32 write_read_u64 write_read_u16)
  have l: "(length ?p < 19) = False" "?p ! 0 = de_type e"
    by (simp_all add: encode_entry_def)
  show ?thesis
    unfolding parse_entries.simps Let_def f d(5) l if_False
    by (simp split: option.splits)
qed

lemma parse_encoded:
  "\<forall>e\<in>set es. length (de_fullname e) < 2 ^ 16 \<Longrightarrow>
   parse_entries (length es) (concat (map encode_entry es) @ r) = Some es"
proof (induction es)
  case Nil
  then show ?case by simp
next
  case (Cons e es)
  then show ?case by (simp add: parse_encoded_entry del: parse_entries.simps)
qed

lemma parse_sound:
  "parse_entries n p = Some es \<Longrightarrow>
   length es = n \<and> (\<forall>e\<in>set es. length (de_fullname e) < 2 ^ 16) \<and>
   (\<exists>r. p = concat (map encode_entry es) @ r)"
proof (induction n p arbitrary: es rule: parse_entries.induct)
  case (1 p)
  then show ?case by simp
next
  case (2 n p)
  define k where "k = unat (proto_read_u16 (drop 17 p))"
  define q where "q = drop 19 p"
  have l: "19 \<le> length p" "k \<le> length q"
    using 2(2) by (auto simp: k_def q_def Let_def split: if_splits)
  define e where "e = \<lparr>de_fullname = string_of_bytes (take k q), de_type = p ! 0,
            de_size = proto_read_u64 (drop 9 p), de_ctime = proto_read_u32 (drop 1 p),
            de_mtime = proto_read_u32 (drop 5 p)\<rparr>"
  obtain fs where fs: "parse_entries n (drop k q) = Some fs" "es = e # fs"
    using 2(2) l by (auto simp: k_def q_def Let_def e_def split: if_splits option.splits)
  have ih: "length fs = n \<and> (\<forall>e\<in>set fs. length (de_fullname e) < 2 ^ 16) \<and>
      (\<exists>r. drop k q = concat (map encode_entry fs) @ r)"
    using 2(1)[of k q fs] l fs(1) by (simp add: k_def q_def)
  have kb: "k < 2 ^ 16" unfolding k_def using unsigned_less[of "proto_read_u16 (drop 17 p)"] by simp
  have "length (take k q) = k" using l by simp
  then have "encode_entry e = [p ! 0] @ take 4 (drop 1 p) @ take 4 (drop 5 p) @
      take 8 (drop 9 p) @ take 2 (drop 17 p) @ take k q"
    using l(1) by (simp add: encode_entry_def e_def read_write_u32 read_write_u64 k_def
        read_write_u16)
  also have "\<dots> = take 19 p @ take k q"
  proof -
    have c: "take (a + b) p = take a p @ take b (drop a p)" for a b
      by (rule take_add)
    have "take 1 p = [p ! 0]" using l(1) by (cases p) auto
    then show ?thesis using c[of 1 4] c[of 5 4] c[of 9 8] c[of 17 2] by simp
  qed
  finally have "encode_entry e = take 19 p @ take k q" .
  moreover have "p = take 19 p @ take k q @ drop k q"
    by (simp only: q_def append_take_drop_id)
  ultimately have p: "p = encode_entry e @ drop k q" by simp
  obtain r where "drop k q = concat (map encode_entry fs) @ r" using ih by blast
  with p have "p = concat (map encode_entry es) @ r" by (simp add: fs(2))
  moreover have "length (de_fullname e) < 2 ^ 16" using kb l(2) by (simp add: e_def)
  ultimately show ?case using ih fs(2) by auto
qed

lemma path_len_small: "length path < 2 ^ 16 \<Longrightarrow> unat (path_len path) = length path"
  by (simp add: path_len_def unat_of_nat take_bit_eq_mod)

text \<open>A path of 65536 bytes is sent as the empty path.\<close>

lemma path_payload_truncates: "length path = 65536 \<Longrightarrow> path_payload path = [0, 0]"
  by (simp add: path_payload_def path_bytes_def path_len_def proto_defs le_bytes_numeral)

lemma open_serves:
  assumes "disk s (bytes_of_string path) = Some d" and "length path < 2 ^ 16"
  shows "serve s CMD_FILE_OPEN (fl # path_payload path) =
    (reply STATUS_OK (proto_write_u32 (next_handle s)),
     s\<lparr>handles := (handles s)(next_handle s \<mapsto> \<lparr>data = d, offset = 0, flushes = True, room = 0\<rparr>),
       next_handle := next_handle s + 1\<rparr>)"
proof -
  have "path_bytes path = bytes_of_string path"
    using path_len_small[OF assms(2)] by (simp add: path_bytes_def)
  then have "take (unat (proto_read_u16 (drop 1 (fl # path_payload path))))
      (drop 3 (fl # path_payload path)) = bytes_of_string path"
    using path_len_small[OF assms(2)] by (simp add: path_payload_def)
  then show ?thesis using assms(1) by (simp add: serve_def cmd_defs serve_open_def)
qed

text \<open>Over a server that keeps its contract the wrapper of masked files applies as well.\<close>

sublocale file_server \<subseteq> rfz: wrapped_unifile "rf_seek send" "rf_tell send" "rf_read send"
  "rf_content fcontent" "rf_pos fpos" "rf_good live"
  by unfold_locales

lemma open_payload:
  "length path < 2 ^ 16 \<Longrightarrow>
   path_payload path = proto_write_u16 (of_nat (length path)) @ bytes_of_string path"
  using path_len_small[of path] by (simp add: path_payload_def path_bytes_def) (simp add: path_len_def)

lemma opened_file:
  assumes "send (rconn fs) CMD_FILE_OPEN (FILE_FLAG_READ # path_payload path) =
      (\<lparr>status = STATUS_OK, payload = proto_write_u32 h\<rparr>, s)"
  shows "rfs_openfile send fs path ''rb'' =
    (Some (rf_new s h), fs\<lparr>rconn := s, last_status := STATUS_OK\<rparr>)"
  using assms write_read_u32[of h "[]"]
  by (simp add: rfs_openfile_def open_flags_def Let_def)

context file_server
begin

lemma load_fresh:
  assumes "live s h" and "fcontent s h \<noteq> []"
  shows "\<exists>g. read_from_unifile (rf_seek send) (rf_tell send) (rf_read send) im (rf_new s h) =
    (IM_OK, im\<lparr>filesize := length (fcontent s h), filebuf := Some (fcontent s h)\<rparr>, g)"
  using rf.read_from_unifile_all[of "rf_new s h" im] assms by (auto simp: rf_view rf_new_def)

lemma load_fresh_masked:
  assumes "live s h" and "fpos s h = 0" and "fcontent s h = fst (unmask 32093 plain)"
    and "plain \<noteq> []"
  shows "\<exists>g. read_from_unifile (zd_seek (rf_seek send) (rf_tell send)) (zd_tell (rf_tell send))
         (zd_read (rf_read send)) im (zd_new (rf_tell send) (Some (rf_new s h))) =
         (IM_OK, im\<lparr>filesize := length plain, filebuf := Some plain\<rparr>, g)"
proof -
  let ?f = "rf_new s h"
  have f: "rf_good live ?f" "rf_content fcontent ?f = fst (unmask 32093 plain)" "rf_pos fpos ?f = 0"
    using assms by (simp_all add: rf_view rf_new_def)
  obtain t where t: "rf_tell send ?f = (0, t)" "rf_good live t"
    "rf_content fcontent t = fst (unmask 32093 plain)" "rf_pos fpos t = 0"
    using rf.tell[OF f(1)] f by (cases "rf_tell send ?f") auto
  let ?z = "zd_new (rf_tell send) (Some ?f)"
  have z: "zd_good (rf_pos fpos) (rf_good live) ?z" "zd_content (rf_content fcontent) ?z = plain"
    using t by (simp_all add: zd_new_def zd_good_def zd_content_def unmask_involutive)
  show ?thesis using rfz.zd.read_from_unifile_all[OF z(1)] z(2) assms(4) by fastforce
qed

end

section \<open>Properties\<close>

text \<open>
  C15.  Directories survive the wire: when a server answers with the documented encoding of a
  list of entries, \<open>readdir\<close> succeeds, records the status, and the loop over the iterator
  ends and sees exactly these entries in this order.
\<close>

theorem readdir_roundtrip:
  assumes "send (rconn fs) CMD_FS_READDIR (path_payload path) =
      (\<lparr>status = STATUS_OK, payload = encode_dir es\<rparr>, s)"
    and "length es < 2 ^ 32" and "\<forall>e\<in>set es. length (de_fullname e) < 2 ^ 16"
  shows "\<exists>it. rfs_readdir send fs path =
      (Some it, fs\<lparr>rconn := s, last_status := STATUS_OK\<rparr>) \<and>
    range_for rdi_next (\<lambda>e acc. acc @ [e]) (Some it) [] = Some es"
proof -
  have "unat (of_nat (length es) :: u32) = length es"
    using assms(2) by (simp add: unat_of_nat take_bit_eq_mod)
  then have "rfs_readdir send fs path = (Some \<lparr>entries = es, idx = 0\<rparr>,
      fs\<lparr>rconn := s, last_status := STATUS_OK\<rparr>)"
    using assms(1) parse_encoded[OF assms(3), of "[]"]
    by (simp add: rfs_readdir_def Let_def encode_dir_def)
  then show ?thesis using rdi.collect_all[of "\<lparr>entries = es, idx = 0\<rparr>"]
    by (simp add: rdi_left_def)
qed

theorem readdir_roundtrip_witness:
  "let e = \<lparr>de_fullname = ''a.png'', de_type = DE_FILE, de_size = 9, de_ctime = 1, de_mtime = 2\<rparr>;
       send = (\<lambda>s c p. (\<lparr>status = STATUS_OK, payload = encode_dir [e]\<rparr>, s))
   in \<exists>it. fst (rfs_readdir send \<lparr>host = ''h'', port = 1, rconn = (), last_status = 0\<rparr> ''/x'') =
        Some it \<and> range_for rdi_next (\<lambda>e acc. acc @ [e]) (Some it) [] = Some [e]"
proof -
  let ?e = "\<lparr>de_fullname = ''a.png'', de_type = DE_FILE, de_size = 9, de_ctime = 1, de_mtime = 2\<rparr>"
  let ?send = "\<lambda>s c p. (\<lparr>status = STATUS_OK, payload = encode_dir [?e]\<rparr>, s)"
  from readdir_roundtrip[of ?send "\<lparr>host = ''h'', port = 1, rconn = (), last_status = 0\<rparr>"
      "''/x''" "[?e]" "()"]
  show ?thesis by (auto simp: Let_def)
qed

text \<open>
   The parser of directory answers never goes past the payload and invents nothing: when
  \<open>readdir\<close> yields an iterator, the payload it got is the encoding of the iterator's entries,
  followed by bytes it did not look at.
\<close>

theorem readdir_sound:
  assumes "rfs_readdir send fs path = (Some it, fs')"
  shows "\<exists>resp s rest. send (rconn fs) CMD_FS_READDIR (path_payload path) = (resp, s) \<and>
    payload resp = encode_dir (entries it) @ rest \<and> idx it = 0"
proof -
  obtain resp s where sd: "send (rconn fs) CMD_FS_READDIR (path_payload path) = (resp, s)"
    by fastforce
  with assms have l: "4 \<le> length (payload resp)" "idx it = 0"
    and p: "parse_entries (unat (proto_read_u32 (payload resp))) (drop 4 (payload resp)) =
      Some (entries it)"
    by (auto simp: rfs_readdir_def Let_def split: if_splits option.splits)
  from parse_sound[OF p] obtain r where
    n: "length (entries it) = unat (proto_read_u32 (payload resp))"
    and r: "drop 4 (payload resp) = concat (map encode_entry (entries it)) @ r"
    by blast
  have "proto_write_u32 (of_nat (length (entries it))) = take 4 (payload resp)"
    using read_write_u32[OF l(1)] by (simp add: n)
  then have "payload resp = encode_dir (entries it) @ r"
    using r append_take_drop_id[of 4 "payload resp"] by (simp add: encode_dir_def)
  with sd l show ?thesis by blast
qed

theorem readdir_sound_witness:
  "\<exists>rest. encode_dir [] @ [9] = encode_dir [] @ rest"
proof -
  let ?send = "\<lambda>s c p. (\<lparr>status = STATUS_OK, payload = [0, 0, 0, 0, 9]\<rparr>, s)"
  let ?fs = "\<lparr>host = ''h'', port = 1, rconn = (), last_status = 0\<rparr>"
  have "rfs_readdir ?send ?fs ''/x'' = (Some \<lparr>entries = [], idx = 0\<rparr>, ?fs)"
    by (simp add: rfs_readdir_def proto_defs STATUS_OK_def Let_def)
  from readdir_sound[OF this] show ?thesis
    by (auto simp: encode_dir_def proto_defs le_bytes_numeral)
qed

text \<open>
  C16.  Opening a remote image end to end, over every connection whose server answers for open
  handles as the contract \<open>file_server\<close> says: when the request for a path of less than 65536
  bytes (flags, length and path as protocol.hpp gives them) is answered with a handle that is
  open at the start of a file that is not empty, \<open>openfile\<close> yields the file and records the
  status, loading it for a codec yields the file's bytes, and when it holds the masked form of
  \<open>plain\<close>, loading it through \<open>ZDataFile\<close> yields \<open>plain\<close>.
\<close>

theorem remote_open_and_load:
  assumes "file_server send fcontent fpos live" and "length path < 2 ^ 16"
    and "send (rconn fs) CMD_FILE_OPEN
        (FILE_FLAG_READ # proto_write_u16 (of_nat (length path)) @ bytes_of_string path) =
      (\<lparr>status = STATUS_OK, payload = proto_write_u32 h\<rparr>, s)"
    and "live s h" and "fpos s h = 0" and "fcontent s h = d" and "d \<noteq> []"
  shows "\<exists>f fs'. rfs_openfile send fs path ''rb'' = (Some f, fs') \<and> last_status fs' = STATUS_OK \<and>
    (\<exists>g. read_from_unifile (rf_seek send) (rf_tell send) (rf_read send) im f =
       (IM_OK, im\<lparr>filesize := length d, filebuf := Some d\<rparr>, g)) \<and>
    (\<forall>plain. d = fst (unmask 32093 plain) \<longrightarrow>
      (\<exists>g. read_from_unifile (zd_seek (rf_seek send) (rf_tell send)) (zd_tell (rf_tell send))
         (zd_read (rf_read send)) im (zd_new (rf_tell send) (Some f)) =
         (IM_OK, im\<lparr>filesize := length plain, filebuf := Some plain\<rparr>, g)))"
proof -
  have "rfs_openfile send fs path ''rb'' =
      (Some (rf_new s h), fs\<lparr>rconn := s, last_status := STATUS_OK\<rparr>)"
    using assms(3) by (intro opened_file) (simp add: open_payload[OF assms(2)])
  moreover have "\<exists>g. read_from_unifile (rf_seek send) (rf_tell send) (rf_read send) im (rf_new s h) =
       (IM_OK, im\<lparr>filesize := length d, filebuf := Some d\<rparr>, g)"
    using file_server.load_fresh[OF assms(1,4)] assms(6,7) by simp
  moreover have "\<exists>g. read_from_unifile (zd_seek (rf_seek send) (rf_tell send))
         (zd_tell (rf_tell send)) (zd_read (rf_read send)) im
         (zd_new (rf_tell send) (Some (rf_new s h))) =
         (IM_OK, im\<lparr>filesize := length plain, filebuf := Some plain\<rparr>, g)"
    if "d = fst (unmask 32093 plain)" for plain
    using that assms(6,7)
    by (intro file_server.load_fresh_masked[OF assms(1,4,5)]) auto
  ultimately show ?thesis by auto
qed

theorem remote_open_and_load_witness:
  "let s = \<lparr>disk = [bytes_of_string ''/p.z01'' \<mapsto> fst (unmask 32093 [1, 2, 3])],
            handles = Map.empty, next_handle = 5\<rparr>
   in \<exists>f fs' g. rfs_openfile serve \<lparr>host = ''h'', port = 1, rconn = s, last_status = 0\<rparr>
        ''/p.z01'' ''rb'' = (Some f, fs') \<and>
      read_from_unifile (zd_seek (rf_seek serve) (rf_tell serve)) (zd_tell (rf_tell serve))
        (zd_read (rf_read serve)) \<lparr>filebuf = None, filesize = 0\<rparr>
        (zd_new (rf_tell serve) (Some f)) =
        (IM_OK, \<lparr>filebuf = Some [1, 2, 3], filesize = length [1, 2, 3 :: u8]\<rparr>, g)"
proof -
  let ?d = "fst (unmask 32093 [1, 2, 3])"
  let ?p = "''/p.z01''"
  let ?s = "\<lparr>disk = [bytes_of_string ?p \<mapsto> ?d], handles = Map.empty, next_handle = 5\<rparr>"
  let ?fs = "\<lparr>host = ''h'', port = 1, rconn = ?s, last_status = 0\<rparr>"
  let ?t = "?s\<lparr>handles := [5 \<mapsto> \<lparr>data = ?d, offset = 0, flushes = True, room = 0\<rparr>],
    next_handle := 6\<rparr>"
  have l: "length ?d = 3" by (simp del: unmask.simps)
  then have "?d \<noteq> []" by auto
  moreover have p: "length ?p < 2 ^ 16" by simp
  moreover have "serve (rconn ?fs) CMD_FILE_OPEN
      (FILE_FLAG_READ # proto_write_u16 (of_nat (length ?p)) @ bytes_of_string ?p) =
      (\<lparr>status = STATUS_OK, payload = proto_write_u32 5\<rparr>, ?t)"
    using open_serves[of ?s ?p ?d FILE_FLAG_READ, OF _ p]
    by (simp add: open_payload[OF p] reply_def del: unmask.simps)
  moreover have "serving ?t 5" "served_pos ?t 5 = 0" "served ?t 5 = ?d"
    using l by (simp_all add: served_defs del: unmask.simps)
  ultimately show ?thesis
    using remote_open_and_load[OF srv.file_server_axioms, of ?p ?fs 5 ?t ?d
        "\<lparr>filebuf = None, filesize = 0\<rparr>"]
    unfolding Let_def by (fastforce simp del: unmask.simps)
qed

end
