(* ===== verification/Nix_Fs.thy ===== *)
theory Nix_Fs
  imports Uni_Fs Uni_File
begin

text \<open>
  unifs/nix_fs.cpp: the local file system on Linux.  The system calls are parameters:
  \<open>opendir\<close> gives the entries that \<open>readdir\<close> will return, \<open>stat\<close>, \<open>fopen\<close> and \<open>unlink\<close> what
  the system answers.
\<close>

section \<open>What the system returns\<close>

datatype d_type = DT_UNKNOWN | DT_REG | DT_DIR | DT_LNK | DT_SPECIAL

datatype file_mode = S_REG | S_DIR | S_LNK | S_SPECIAL

record stat_buf =
  st_mtime :: int
  st_size :: int
  st_mode :: file_mode

type_synonym dirent = "string \<times> d_type"

section \<open>NixDirIterImpl\<close>

record nix_dir_iter =
  dir :: "dirent list option"
  base :: string

definition nix_iter_new :: "(string \<Rightarrow> dirent list option) \<Rightarrow> string \<Rightarrow> nix_dir_iter" where
  "nix_iter_new opendir path =
     (let b = (if path \<noteq> [] \<and> last path \<noteq> CHR ''/'' then path @ ''/'' else path)
      in \<lparr>dir = opendir b, base = b\<rparr>)"

definition nix_iter_valid :: "nix_dir_iter \<Rightarrow> bool" where
  "nix_iter_valid it \<longleftrightarrow> dir it \<noteq> None"

definition is_dot_name :: "string \<Rightarrow> bool" where
  "is_dot_name n \<longleftrightarrow> n \<noteq> [] \<and> n ! 0 = CHR ''.'' \<and>
     (length n = 1 \<or> (n ! 1 = CHR ''.'' \<and> length n = 2))"

definition nix_entry :: "(string \<Rightarrow> stat_buf option) \<Rightarrow> string \<Rightarrow> dirent \<Rightarrow> dir_entry" where
  "nix_entry stat b ent =
     (case ent of (name, ty) \<Rightarrow>
      let st = stat (b @ name);
          ty' = (case st of None \<Rightarrow> ty
                 | Some s \<Rightarrow> if ty = DT_UNKNOWN then
                     (case st_mode s of S_REG \<Rightarrow> DT_REG | S_DIR \<Rightarrow> DT_DIR | S_LNK \<Rightarrow> DT_LNK
                      | S_SPECIAL \<Rightarrow> ty) else ty);
          mt = (case st of None \<Rightarrow> 0 | Some s \<Rightarrow> ucast (word_of_int (st_mtime s) :: u64))
      in \<lparr>de_fullname = name,
          de_type = (case ty' of DT_REG \<Rightarrow> DE_FILE | DT_DIR \<Rightarrow> DE_DIR | DT_LNK \<Rightarrow> DE_SYMLINK
                     | _ \<Rightarrow> DE_OTHER),
          de_size = (case st of None \<Rightarrow> 0
                     | Some s \<Rightarrow> if ty' = DT_REG then word_of_int (st_size s) else 0),
          de_ctime = mt, de_mtime = mt\<rparr>)"

text \<open>\<open>while ((ent = ::readdir(dir_)) != nullptr)\<close>\<close>

fun nix_scan :: "(string \<Rightarrow> stat_buf option) \<Rightarrow> string \<Rightarrow> dirent list \<Rightarrow>
    dir_entry option \<times> dirent list" where
  "nix_scan stat b [] = (None, [])"
| "nix_scan stat b (ent # ds) =
     (if is_dot_name (fst ent) then nix_scan stat b ds
      else (Some (nix_entry stat b ent), ds))"

definition nix_next :: "(string \<Rightarrow> stat_buf option) \<Rightarrow> nix_dir_iter \<Rightarrow>
    dir_entry option \<times> nix_dir_iter" where
  "nix_next stat it =
     (case dir it of None \<Rightarrow> (None, it)
      | Some ds \<Rightarrow> (case nix_scan stat (base it) ds of (e, ds') \<Rightarrow> (e, it\<lparr>dir := Some ds'\<rparr>)))"

definition nix_left :: "(string \<Rightarrow> stat_buf option) \<Rightarrow> nix_dir_iter \<Rightarrow> dir_entry list" where
  "nix_left stat it = (case dir it of None \<Rightarrow> []
     | Some ds \<Rightarrow> map (nix_entry stat (base it)) (filter (\<lambda>e. \<not> is_dot_name (fst e)) ds))"

lemma nix_scan_left:
  "map (nix_entry stat b) (filter (\<lambda>e. \<not> is_dot_name (fst e)) ds) =
     (case nix_scan stat b ds of (None, _) \<Rightarrow> []
      | (Some e, ds') \<Rightarrow> e # map (nix_entry stat b) (filter (\<lambda>e. \<not> is_dot_name (fst e)) ds'))"
  by (induction stat b ds rule: nix_scan.induct) auto

interpretation nix: dir_iterator "nix_next stat" "nix_left stat" for stat
proof (unfold_locales, goal_cases)
  case (1 it)
  then show ?case using nix_scan_left[of stat "base it" "the (dir it)"]
    by (auto simp: nix_next_def nix_left_def split: option.splits prod.splits)
next
  case (2 it e es)
  then show ?case using nix_scan_left[of stat "base it" "the (dir it)"]
    by (auto simp: nix_next_def nix_left_def split: option.splits prod.splits)
qed

section \<open>NixFs\<close>

definition nix_readdir :: "(string \<Rightarrow> dirent list option) \<Rightarrow> string \<Rightarrow> nix_dir_iter option" where
  "nix_readdir opendir path =
     (let it = nix_iter_new opendir path in if \<not> nix_iter_valid it then None else Some it)"

definition nix_openfile :: "(string \<Rightarrow> string \<Rightarrow> stream option) \<Rightarrow> string \<Rightarrow> string \<Rightarrow>
    local_file option" where
  "nix_openfile fopen path mode = (case fopen path mode of None \<Rightarrow> None
     | Some s \<Rightarrow> Some \<lparr>fp = Some s, saved = None\<rparr>)"

definition nix_removefile :: "(string \<Rightarrow> 'w \<Rightarrow> int \<times> 'w) \<Rightarrow> string \<Rightarrow> 'w \<Rightarrow> int \<times> 'w" where
  "nix_removefile unlink path w = (case unlink path w of (r, w') \<Rightarrow> (if r = 0 then 0 else -1, w'))"

lemma is_dot_name_iff: "is_dot_name n \<longleftrightarrow> n = ''.'' \<or> n = ''..''"
proof (cases n)
  case Nil
  then show ?thesis by (simp add: is_dot_name_def)
next
  case (Cons x xs)
  then show ?thesis by (cases xs) (auto simp: is_dot_name_def)
qed

section \<open>Properties\<close>

text \<open>
  Listing a local directory on Linux ends and delivers one entry for every name the system
  reports, in its order, except \<open>.\<close> and \<open>..\<close>; the directory is the path with one slash at its
  end, and each entry is completed by \<open>stat\<close> of its own full path.
\<close>

theorem nix_listing:
  assumes "opendir b = Some ds"
    and "b = (if path \<noteq> [] \<and> last path \<noteq> CHR ''/'' then path @ ''/'' else path)"
  shows "range_for (nix_next stat) (\<lambda>e acc. acc @ [e]) (nix_readdir opendir path) [] =
    Some (map (nix_entry stat b) (filter (\<lambda>e. fst e \<noteq> ''.'' \<and> fst e \<noteq> ''..'') ds))"
proof -
  have "nix_readdir opendir path = Some \<lparr>dir = Some ds, base = b\<rparr>"
    using assms by (simp add: nix_readdir_def nix_iter_new_def nix_iter_valid_def Let_def)
  then show ?thesis using nix.collect_all[of stat "\<lparr>dir = Some ds, base = b\<rparr>"]
    by (simp add: nix_left_def is_dot_name_iff)
qed

theorem nix_listing_witness:
  "range_for (nix_next (\<lambda>p. None)) (\<lambda>e acc. acc @ [e])
     (nix_readdir (\<lambda>p. Some [(''.'', DT_DIR), (''a'', DT_REG)]) ''/d'') [] =
   Some [\<lparr>de_fullname = ''a'', de_type = DE_FILE, de_size = 0, de_ctime = 0, de_mtime = 0\<rparr>]"
proof -
  have "''/d/'' = (if ''/d'' \<noteq> [] \<and> last ''/d'' \<noteq> CHR ''/'' then ''/d'' @ ''/'' else ''/d'')"
    by simp
  from nix_listing[of "\<lambda>p. Some [(''.'', DT_DIR), (''a'', DT_REG)]", OF refl this]
  show ?thesis by (simp only: filter.simps list.map fst_conv) (simp add: nix_entry_def)
qed

end
