(* ===== verification/Win_Fs.thy ===== *)
theory Win_Fs
  imports Uni_Fs Uni_File
begin

unbundle bit_operations_syntax

text \<open>
  unifs/win_fs.cpp: the local file system on Windows, seen through Unix-style paths: \<open>/\<close> lists
  the drives, \<open>/c/dir\<close> the directory \<open>C:\\dir\<close>.  The Windows calls are parameters: the UTF-8
  conversions (\<open>u2w n s\<close> fails when the result with its NUL does not fit into \<open>n\<close> units),
  \<open>FindFirstFileW\<close> with the files that \<open>FindNextFileW\<close> will then return, the drive dm,
  \<open>_wfopen\<close> and \<open>DeleteFileW\<close>.
\<close>

section \<open>Time stamps\<close>

definition EPOCH_OFFSET :: u64 where "EPOCH_OFFSET = 116444736000000000"

definition filetime_to_unix_sec :: "u32 \<Rightarrow> u32 \<Rightarrow> u32" where
  "filetime_to_unix_sec dwHigh dwLow =
     (let t = push_bit 32 (ucast dwHigh :: u64) OR ucast dwLow in
      if t < EPOCH_OFFSET then 0 else ucast ((t - EPOCH_OFFSET) div 10000000))"

section \<open>WinDirIterImpl\<close>

definition MAX_PATH :: nat where "MAX_PATH = 260"

definition to_search_path :: "(nat \<Rightarrow> string \<Rightarrow> wstr option) \<Rightarrow> string \<Rightarrow> nat \<Rightarrow> wstr option" where
  "to_search_path u2w path buf_size =
     (case u2w (buf_size - 3) path of None \<Rightarrow> None
      | Some buf \<Rightarrow> Some ((if buf \<noteq> [] \<and> last buf \<noteq> wbslash \<and> last buf \<noteq> wslash
                          then buf @ [wbslash] else buf) @ [0x2A]))"

text \<open>\<open>WIN32_FIND_DATAW\<close>\<close>

record find_data =
  cFileName :: wstr
  dwFileAttributes :: u32
  ftCreation :: "u32 \<times> u32"
  ftLastWrite :: "u32 \<times> u32"
  nFileSizeHigh :: u32
  nFileSizeLow :: u32

definition FILE_ATTRIBUTE_DIRECTORY :: u32 where "FILE_ATTRIBUTE_DIRECTORY = 0x10"
definition FILE_ATTRIBUTE_REPARSE_POINT :: u32 where "FILE_ATTRIBUTE_REPARSE_POINT = 0x400"

text \<open>\<open>handle_\<close> is the list of what \<open>FindNextFileW\<close> still returns.\<close>

record win_dir_iter =
  whandle :: "find_data list option"
  wfind :: find_data
  has_first :: bool
  valid :: bool
  root_mode :: bool
  drives_mask :: u32
  drive_idx :: nat

definition no_find :: find_data where
  "no_find = \<lparr>cFileName = [], dwFileAttributes = 0, ftCreation = (0, 0), ftLastWrite = (0, 0),
     nFileSizeHigh = 0, nFileSizeLow = 0\<rparr>"

definition win_iter_new :: "(nat \<Rightarrow> string \<Rightarrow> wstr option) \<Rightarrow> u32 \<Rightarrow>
    (wstr \<Rightarrow> (find_data \<times> find_data list) option) \<Rightarrow> string \<Rightarrow> win_dir_iter" where
  "win_iter_new u2w drives findfirst path =
     (let it = \<lparr>whandle = None, wfind = no_find, has_first = False, valid = False,
                root_mode = False, drives_mask = 0, drive_idx = 0\<rparr>;
          win_path = linux_path_to_win path in
      if win_path = [] then
        it\<lparr>root_mode := True, drives_mask := drives, valid := drives \<noteq> 0\<rparr>
      else case to_search_path u2w win_path (MAX_PATH + 4) of None \<Rightarrow> it
      | Some sp \<Rightarrow> (case findfirst sp of None \<Rightarrow> it
        | Some (d, ds) \<Rightarrow> it\<lparr>whandle := Some ds, wfind := d, has_first := True, valid := True\<rparr>))"

definition is_dot :: "wstr \<Rightarrow> bool" where
  "is_dot n \<longleftrightarrow> n \<noteq> [] \<and> n ! 0 = 0x2E \<and>
     (length n = 1 \<or> (n ! 1 = 0x2E \<and> length n = 2))"

definition drive_entry :: "nat \<Rightarrow> dir_entry" where
  "drive_entry i = \<lparr>de_fullname = [char_of (of_char (CHR ''a'') + i)], de_type = DE_DIR,
     de_size = 0, de_ctime = 0, de_mtime = 0\<rparr>"

text \<open>\<open>while (drive_idx_ < 26)\<close>, by the drives that are left.\<close>

function drive_scan :: "u32 \<Rightarrow> nat \<Rightarrow> dir_entry option \<times> nat" where
  "drive_scan dm i =
     (if i < 26 then
        (if dm AND push_bit i 1 = 0 then drive_scan dm (i + 1)
         else (Some (drive_entry i), i + 1))
      else (None, i))"
  by pat_completeness auto
termination
  by (relation "measure (\<lambda>(dm, i). 26 - i)") auto

declare drive_scan.simps [simp del]

definition find_entry :: "string \<Rightarrow> find_data \<Rightarrow> dir_entry" where
  "find_entry name d =
     (let attr = dwFileAttributes d in
      \<lparr>de_fullname = name,
       de_type = (if attr AND FILE_ATTRIBUTE_REPARSE_POINT \<noteq> 0 then DE_SYMLINK
                  else if attr AND FILE_ATTRIBUTE_DIRECTORY \<noteq> 0 then DE_DIR else DE_FILE),
       de_size = (if attr AND FILE_ATTRIBUTE_REPARSE_POINT \<noteq> 0 then 0
                  else if attr AND FILE_ATTRIBUTE_DIRECTORY \<noteq> 0 then 0
                  else push_bit 32 (ucast (nFileSizeHigh d)) OR ucast (nFileSizeLow d)),
       de_ctime = (case ftCreation d of (h, l) \<Rightarrow> filetime_to_unix_sec h l),
       de_mtime = (case ftLastWrite d of (h, l) \<Rightarrow> filetime_to_unix_sec h l)\<rparr>)"

definition accept_find :: "(wstr \<Rightarrow> string option) \<Rightarrow> find_data \<Rightarrow> dir_entry option" where
  "accept_find w2u d =
     (if is_dot (cFileName d) then None
      else case w2u (cFileName d) of None \<Rightarrow> None | Some name \<Rightarrow> Some (find_entry name d))"

text \<open>The endless loop of \<open>next\<close>; the first round may use the data of \<open>FindFirstFileW\<close>.\<close>

fun find_scan :: "(wstr \<Rightarrow> string option) \<Rightarrow> find_data \<Rightarrow> find_data list \<Rightarrow>
    dir_entry option \<times> find_data \<times> find_data list" where
  "find_scan w2u cur [] = (None, cur, [])"
| "find_scan w2u cur (d # ds) =
     (case accept_find w2u d of None \<Rightarrow> find_scan w2u d ds | Some e \<Rightarrow> (Some e, d, ds))"

definition win_next :: "(wstr \<Rightarrow> string option) \<Rightarrow> win_dir_iter \<Rightarrow> dir_entry option \<times> win_dir_iter" where
  "win_next w2u it =
     (if \<not> valid it then (None, it)
      else if root_mode it then
        (case drive_scan (drives_mask it) (drive_idx it) of (e, i) \<Rightarrow> (e, it\<lparr>drive_idx := i\<rparr>))
      else case whandle it of None \<Rightarrow> (None, it)
      | Some ds \<Rightarrow>
        (case (if has_first it then accept_find w2u (wfind it) else None) of
           Some e \<Rightarrow> (Some e, it\<lparr>has_first := False\<rparr>)
         | None \<Rightarrow> (case find_scan w2u (wfind it) ds of (e, d, ds') \<Rightarrow>
             (e, it\<lparr>has_first := False, wfind := d, whandle := Some ds'\<rparr>))))"

section \<open>WinFs\<close>

definition win_readdir :: "(nat \<Rightarrow> string \<Rightarrow> wstr option) \<Rightarrow> u32 \<Rightarrow>
    (wstr \<Rightarrow> (find_data \<times> find_data list) option) \<Rightarrow> string \<Rightarrow> win_dir_iter option" where
  "win_readdir u2w drives findfirst path =
     (let it = win_iter_new u2w drives findfirst path in if \<not> valid it then None else Some it)"

definition win_openfile :: "(nat \<Rightarrow> string \<Rightarrow> wstr option) \<Rightarrow>
    (wstr \<Rightarrow> wstr \<Rightarrow> stream option) \<Rightarrow> string \<Rightarrow> string \<Rightarrow> local_file option" where
  "win_openfile u2w wfopen path mode =
     (case u2w MAX_PATH (linux_path_to_win path) of None \<Rightarrow> None
      | Some wpath \<Rightarrow> (case u2w 16 mode of None \<Rightarrow> None
        | Some wmode \<Rightarrow> (case wfopen wpath wmode of None \<Rightarrow> None
          | Some s \<Rightarrow> Some \<lparr>fp = Some s, saved = None\<rparr>)))"

definition win_removefile :: "(nat \<Rightarrow> string \<Rightarrow> wstr option) \<Rightarrow> (wstr \<Rightarrow> 'w \<Rightarrow> bool \<times> 'w) \<Rightarrow>
    string \<Rightarrow> 'w \<Rightarrow> int \<times> 'w" where
  "win_removefile u2w delete path w =
     (let win_path = linux_path_to_win path; p = (if win_path = [] then path else win_path) in
      case u2w MAX_PATH p of None \<Rightarrow> (-1, w)
      | Some wpath \<Rightarrow> (case delete wpath w of (ok, w') \<Rightarrow> (if ok then 0 else -1, w')))"

section \<open>What the iterator delivers\<close>

definition drives_from :: "u32 \<Rightarrow> nat \<Rightarrow> nat list" where
  "drives_from dm i = filter (bit dm) [i..<26]"

definition win_left :: "(wstr \<Rightarrow> string option) \<Rightarrow> win_dir_iter \<Rightarrow> dir_entry list" where
  "win_left w2u it =
     (if \<not> valid it then []
      else if root_mode it then map drive_entry (drives_from (drives_mask it) (drive_idx it))
      else case whandle it of None \<Rightarrow> []
      | Some ds \<Rightarrow> List.map_filter (accept_find w2u)
          ((if has_first it then [wfind it] else []) @ ds))"

lemma drive_scan_left:
  "map drive_entry (drives_from dm i) =
     (case drive_scan dm i of (None, _) \<Rightarrow> []
      | (Some e, j) \<Rightarrow> e # map drive_entry (drives_from dm j))"
proof (induction dm i rule: drive_scan.induct)
  case (1 dm i)
  show ?case
  proof (cases "i < 26")
    case True
    then have "drives_from dm i = (if bit dm i then [i] else []) @ drives_from dm (i + 1)"
      by (simp add: drives_from_def upt_conv_Cons)
    with True 1 show ?thesis by (simp add: drive_scan.simps[of dm i] and_exp_eq_0_iff_not_bit)
  next
    case False
    then show ?thesis by (simp add: drive_scan.simps drives_from_def)
  qed
qed

lemma find_scan_left:
  "List.map_filter (accept_find w2u) ds =
     (case find_scan w2u cur ds of (None, _) \<Rightarrow> []
      | (Some e, d, ds') \<Rightarrow> e # List.map_filter (accept_find w2u) ds')"
  by (induction w2u cur ds rule: find_scan.induct)
    (auto simp: List.map_filter_def split: option.splits)

interpretation win: dir_iterator "win_next w2u" "win_left w2u" for w2u
proof (unfold_locales, goal_cases)
  case (1 it)
  then show ?case
    using drive_scan_left[of "drives_mask it" "drive_idx it"]
      find_scan_left[of w2u "the (whandle it)" "wfind it"]
    by (auto simp: win_next_def win_left_def List.map_filter_def
        split: option.splits prod.splits if_splits)
next
  case (2 it e es)
  then show ?case
    using drive_scan_left[of "drives_mask it" "drive_idx it"]
      find_scan_left[of w2u "the (whandle it)" "wfind it"]
    by (auto simp: win_next_def win_left_def List.map_filter_def
        split: option.splits prod.splits if_splits)
qed

lemma filetime_value: "unat (push_bit 32 (ucast hi :: u64) OR ucast (lo :: u32)) =
    unat (hi :: u32) * 2 ^ 32 + unat lo"
proof -
  have "push_bit 32 (ucast hi :: u64) AND ucast lo = 0"
    by (rule bit_word_eqI)
      (auto simp: bit_and_iff bit_push_bit_iff bit_ucast_iff dest: bit_imp_le_length)
  then have "push_bit 32 (ucast hi :: u64) OR ucast lo = push_bit 32 (ucast hi) + ucast lo"
    by (simp add: disjunctive_add_eq_or)
  moreover have "unat hi < 2 ^ 32" "unat lo < 2 ^ 32"
    using unsigned_less[of hi] unsigned_less[of lo] by simp_all
  then have "unat (push_bit 32 (ucast hi :: u64) + ucast lo) = unat hi * 2 ^ 32 + unat lo"
    by (simp add: push_bit_eq_mult unat_word_ariths unsigned_ucast_eq take_bit_eq_mod)
  ultimately show ?thesis by simp
qed

section \<open>Properties\<close>

text \<open>
   A Windows file time is turned into whole seconds since 1970, rounded down, with 0 for
  earlier times, for all 64-bit time stamps; only the final cast wraps, from 2106 on.
\<close>

theorem filetime_seconds:
  "unat (filetime_to_unix_sec hi lo) =
     ((unat hi * 2 ^ 32 + unat lo - 116444736000000000) div 10000000) mod 2 ^ 32"
proof -
  let ?t = "push_bit 32 (ucast hi :: u64) OR ucast lo"
  let ?n = "unat hi * 2 ^ 32 + unat lo"
  note v = filetime_value[of hi lo]
  show ?thesis
  proof (cases "?t < EPOCH_OFFSET")
    case True
    then have "?n < 116444736000000000"
      using v by (simp add: word_less_nat_alt EPOCH_OFFSET_def)
    with True show ?thesis by (simp add: filetime_to_unix_sec_def Let_def)
  next
    case False
    then have le: "EPOCH_OFFSET \<le> ?t" by simp
    have "unat ((?t - EPOCH_OFFSET) div 10000000) = (?n - 116444736000000000) div 10000000"
      using unat_sub[OF le] v by (simp add: unat_div_distrib EPOCH_OFFSET_def)
    with False show ?thesis
      by (simp add: filetime_to_unix_sec_def Let_def unsigned_ucast_eq take_bit_eq_mod)
  qed
qed

text \<open>The fields of an entry for a found file.\<close>

lemma find_entry_fields:
  "de_fullname (find_entry n d) = n"
  "unat (de_size (find_entry n d)) =
    (if dwFileAttributes d AND FILE_ATTRIBUTE_REPARSE_POINT = 0 \<and> dwFileAttributes d AND FILE_ATTRIBUTE_DIRECTORY = 0
     then unat (nFileSizeHigh d) * 2 ^ 32 + unat (nFileSizeLow d) else 0)"
  "unat (de_mtime (find_entry n d)) =
    ((unat (fst (ftLastWrite d)) * 2 ^ 32 + unat (snd (ftLastWrite d)) - 116444736000000000) div 10000000) mod 2 ^ 32"
  using filetime_value[of "nFileSizeHigh d" "nFileSizeLow d"]
    filetime_seconds[of "fst (ftLastWrite d)" "snd (ftLastWrite d)"]
  by (cases "ftLastWrite d"; simp add: find_entry_def Let_def)+

lemma is_dot_names: "is_dot n \<longleftrightarrow> n = [0x2E] \<or> n = [0x2E, 0x2E]"
  by (auto simp: is_dot_def length_Suc_conv numeral_2_eq_2 neq_Nil_conv)

lemma accepted_files:
  "List.map_filter (accept_find w2u) ds = map (\<lambda>d. find_entry (the (w2u (cFileName d))) d)
     (filter (\<lambda>d. cFileName d \<noteq> [0x2E] \<and> cFileName d \<noteq> [0x2E, 0x2E] \<and> w2u (cFileName d) \<noteq> None) ds)"
  by (induction ds) (auto simp: List.map_filter_def accept_find_def is_dot_names split: option.splits)

text \<open>
  C20. Listing on Windows, for every path and whatever the system answers: the loop over the iterator
  ends.  A path that \<open>linux_path_to_win\<close> maps to nothing, as \<open>/\<close>, yields one directory entry per drive
  letter of the mask, in alphabetical order (none if the mask is empty); any other path yields
  nothing if it cannot be converted or the search does not start, and else, in the order of the
  system and with nothing left out or repeated, the found files except \<open>.\<close> and \<open>..\<close> and names that
  cannot be converted.  The entry of a file has the name, a 64-bit size (0 for directories and
  links) and the time of the last write in whole seconds since 1970 (0 before), cut to 32 bits.
\<close>

theorem win_listing:
  "range_for (win_next w2u) (\<lambda>e acc. acc @ [e]) (win_readdir u2w drives ff path) [] =
     Some (if linux_path_to_win path = [] then map drive_entry (filter (bit drives) [0..<26])
       else case to_search_path u2w (linux_path_to_win path) 264 of None \<Rightarrow> []
       | Some sp \<Rightarrow> (case ff sp of None \<Rightarrow> []
         | Some (d, ds) \<Rightarrow> map (\<lambda>d. find_entry (the (w2u (cFileName d))) d)
             (filter (\<lambda>d. cFileName d \<noteq> [0x2E] \<and> cFileName d \<noteq> [0x2E, 0x2E] \<and> w2u (cFileName d) \<noteq> None) (d # ds)))) \<and>
   de_fullname (find_entry n d) = n \<and>
   unat (de_size (find_entry n d)) =
     (if dwFileAttributes d AND FILE_ATTRIBUTE_REPARSE_POINT = 0 \<and> dwFileAttributes d AND FILE_ATTRIBUTE_DIRECTORY = 0
      then unat (nFileSizeHigh d) * 2 ^ 32 + unat (nFileSizeLow d) else 0) \<and>
   unat (de_mtime (find_entry n d)) =
     ((unat (fst (ftLastWrite d)) * 2 ^ 32 + unat (snd (ftLastWrite d)) - 116444736000000000) div 10000000) mod 2 ^ 32"
proof -
  have no_drives: "filter (bit (0 :: u32)) [0..<26] = []" by simp
  have "range_for (win_next w2u) (\<lambda>e acc. acc @ [e]) (win_readdir u2w drives ff path) [] =
     Some (if linux_path_to_win path = [] then map drive_entry (filter (bit drives) [0..<26])
       else case to_search_path u2w (linux_path_to_win path) 264 of None \<Rightarrow> []
       | Some sp \<Rightarrow> (case ff sp of None \<Rightarrow> []
         | Some (d, ds) \<Rightarrow> List.map_filter (accept_find w2u) (d # ds)))"
    using win.collect_all[of w2u "win_iter_new u2w drives ff path"] no_drives
    by (auto simp: win_readdir_def win_iter_new_def Let_def win_left_def drives_from_def MAX_PATH_def
        range_for_invalid split: option.splits)
  then show ?thesis unfolding accepted_files using find_entry_fields[of n d] by blast
qed

text \<open>Two drives; a directory with one file.\<close>

lemma listing_examples:
  "range_for (win_next (\<lambda>n. Some ''x'')) (\<lambda>e acc. acc @ [e])
     (win_readdir (\<lambda>n s. Some []) 5 (\<lambda>p. None) ''/'') [] = Some [drive_entry 0, drive_entry 2]"
  "range_for (win_next (\<lambda>n. Some ''x'')) (\<lambda>e acc. acc @ [e])
     (win_readdir (\<lambda>n s. Some []) 5
       (\<lambda>p. Some (no_find\<lparr>cFileName := [0x2E]\<rparr>, [no_find\<lparr>cFileName := [0x61]\<rparr>])) ''/c'') [] =
   Some [find_entry ''x'' (no_find\<lparr>cFileName := [0x61]\<rparr>)]"
proof -
  have drives: "filter (bit (5 :: u32)) [0..<26] = [0, 2]" by code_simp
  have path: "linux_path_to_win ''/'' = []" "linux_path_to_win ''/c'' \<noteq> []"
    by (simp_all add: linux_path_to_win_def isalpha_def less_eq_char_def)
  show "range_for (win_next (\<lambda>n. Some ''x'')) (\<lambda>e acc. acc @ [e])
     (win_readdir (\<lambda>n s. Some []) 5 (\<lambda>p. None) ''/'') [] = Some [drive_entry 0, drive_entry 2]"
    using win.collect_all[of "\<lambda>n. Some ''x''" "win_iter_new (\<lambda>n s. Some []) 5 (\<lambda>p. None) ''/''"] drives path
    by (simp add: win_readdir_def win_iter_new_def Let_def win_left_def drives_from_def)
  show "range_for (win_next (\<lambda>n. Some ''x'')) (\<lambda>e acc. acc @ [e])
     (win_readdir (\<lambda>n s. Some []) 5
       (\<lambda>p. Some (no_find\<lparr>cFileName := [0x2E]\<rparr>, [no_find\<lparr>cFileName := [0x61]\<rparr>])) ''/c'') [] =
   Some [find_entry ''x'' (no_find\<lparr>cFileName := [0x61]\<rparr>)]"
    using win.collect_all[of "\<lambda>n. Some ''x''" "win_iter_new (\<lambda>n s. Some []) 5
       (\<lambda>p. Some (no_find\<lparr>cFileName := [0x2E]\<rparr>, [no_find\<lparr>cFileName := [0x61]\<rparr>])) ''/c''"] path
    by (simp add: win_readdir_def win_iter_new_def Let_def win_left_def to_search_path_def accept_find_def is_dot_names List.map_filter_def)
qed

end
