(* ===== verification/File_List.thy ===== *)
theory File_List
  imports Paths
begin

text \<open>
  obZrv/FileList.cpp: the panel with the list of images.  The Windows ListView is a list of row
  texts with at most one selected row (\<open>LVS_SINGLESEL\<close>); selecting a row that was not selected
  sends \<open>LVN_ITEMCHANGED\<close> to the panel, which opens the file unless \<open>_rebuilding\<close> is set.
  \<open>cmp\<close> is \<open>StrCmpLogicalW\<close>, a parameter.  The document is seen through its directory list and
  index.
\<close>

section \<open>The ListView\<close>

record list_view =
  rows :: "wstr list"
  selected :: "nat option"

definition lv_delete_all :: "list_view \<Rightarrow> list_view" where
  "lv_delete_all lv = lv\<lparr>rows := [], selected := None\<rparr>"

definition lv_insert :: "nat \<Rightarrow> wstr \<Rightarrow> list_view \<Rightarrow> list_view" where
  "lv_insert i t lv = (let k = min i (length (rows lv)) in
     lv\<lparr>rows := insert_at k [t] (rows lv),
        selected := map_option (\<lambda>s. if k \<le> s then s + 1 else s) (selected lv)\<rparr>)"

definition lv_delete :: "nat \<Rightarrow> list_view \<Rightarrow> list_view" where
  "lv_delete i lv = (if i < length (rows lv) then
     lv\<lparr>rows := erase_at i (rows lv),
        selected := (case selected lv of None \<Rightarrow> None
          | Some s \<Rightarrow> if s = i then None else if i < s then Some (s - 1) else Some s)\<rparr>
     else lv)"

definition lv_select :: "nat \<Rightarrow> list_view \<Rightarrow> list_view" where
  "lv_select i lv = (if i < length (rows lv) then lv\<lparr>selected := Some i\<rparr> else lv)"

definition lv_deselect :: "nat \<Rightarrow> list_view \<Rightarrow> list_view" where
  "lv_deselect i lv = (if selected lv = Some i then lv\<lparr>selected := None\<rparr> else lv)"

section \<open>The panel\<close>

text \<open>
  \<open>lview\<close> is \<open>m_hList\<close>; \<open>activations\<close> are the rows for which \<open>OnActivateItem\<close> was called.
\<close>

record file_list =
  lview :: "list_view option"
  rebuilding :: bool
  activations :: "nat list"

text \<open>The document as the panel reads it: \<open>getDirFile\<close>/\<open>getDirCount\<close> and \<open>getDirIdx\<close>.\<close>

type_synonym doc_view = "wstr list \<times> int"

text \<open>\<open>ListView_SetItemState(SELECTED | FOCUSED)\<close> with the notification it causes.\<close>

definition fl_select :: "nat \<Rightarrow> file_list \<Rightarrow> file_list" where
  "fl_select i fl = (case lview fl of None \<Rightarrow> fl
     | Some lv \<Rightarrow>
        (if i < length (rows lv) \<and> selected lv \<noteq> Some i \<and> \<not> rebuilding fl
         then fl\<lparr>lview := Some (lv_select i lv), activations := activations fl @ [i]\<rparr>
         else fl\<lparr>lview := Some (lv_select i lv)\<rparr>))"

definition fl_map :: "(list_view \<Rightarrow> list_view) \<Rightarrow> file_list \<Rightarrow> file_list" where
  "fl_map f fl = fl\<lparr>lview := map_option f (lview fl)\<rparr>"

text \<open>Selecting the current file at the end of an update.\<close>

definition fl_show_current :: "int \<Rightarrow> nat \<Rightarrow> file_list \<Rightarrow> file_list" where
  "fl_show_current idx cnt fl =
     (if idx \<ge> 0 \<and> idx < int cnt then fl_select (nat idx) fl else fl)"

text \<open>\<open>for (int i = 0; i < count; i++) ListView_InsertItem\<close>\<close>

fun fl_fill :: "nat \<Rightarrow> wstr list \<Rightarrow> file_list \<Rightarrow> file_list" where
  "fl_fill i [] fl = fl"
| "fl_fill i (f # fs) fl = fl_fill (i + 1) fs (fl_map (lv_insert i f) fl)"

definition fl_rebuild :: "doc_view option \<Rightarrow> file_list \<Rightarrow> file_list" where
  "fl_rebuild doc fl =
     (if lview fl = None then fl
      else let fl1 = fl_map lv_delete_all (fl\<lparr>rebuilding := True\<rparr>) in
      case doc of None \<Rightarrow> fl1
      | Some (fs, idx) \<Rightarrow>
        if fs = [] then fl1
        else (fl_show_current idx (length fs) (fl_fill 0 fs fl1))\<lparr>rebuilding := False\<rparr>)"

definition fl_moveSelection :: "doc_view option \<Rightarrow> int \<Rightarrow> int \<Rightarrow> file_list \<Rightarrow> file_list" where
  "fl_moveSelection doc oldIdx newIdx fl =
     (case doc of None \<Rightarrow> fl
      | Some (fs, _) \<Rightarrow>
        if lview fl = None then fl
        else let fl1 = fl\<lparr>rebuilding := True\<rparr>;
                 fl2 = (if oldIdx \<ge> 0 then fl_map (lv_deselect (nat oldIdx)) fl1 else fl1)
             in (fl_show_current newIdx (length fs) fl2)\<lparr>rebuilding := False\<rparr>)"

definition fl_removeItem :: "doc_view option \<Rightarrow> nat \<Rightarrow> int \<Rightarrow> file_list \<Rightarrow> file_list" where
  "fl_removeItem doc delIdx newSelIdx fl =
     (case doc of None \<Rightarrow> fl
      | Some (fs, _) \<Rightarrow>
        if lview fl = None then fl
        else (fl_show_current newSelIdx (length fs)
               (fl_map (lv_delete delIdx) (fl\<lparr>rebuilding := True\<rparr>)))\<lparr>rebuilding := False\<rparr>)"

text \<open>The two-pointer merge of \<open>smoothRebuild\<close>, by what is left of the old and the new list.\<close>

fun merge_loop :: "(wstr \<Rightarrow> wstr \<Rightarrow> int) \<Rightarrow> nat \<Rightarrow> wstr list \<Rightarrow> wstr list \<Rightarrow>
    list_view \<Rightarrow> list_view" where
  "merge_loop cmp k [] [] lv = lv"
| "merge_loop cmp k [] (n # ns) lv = merge_loop cmp (k + 1) [] ns (lv_insert k n lv)"
| "merge_loop cmp k (x # xs) [] lv = merge_loop cmp k xs [] (lv_delete k lv)"
| "merge_loop cmp k (x # xs) (n # ns) lv =
     (if cmp x n = 0 then merge_loop cmp (k + 1) xs ns lv
      else if cmp x n < 0 then merge_loop cmp k xs (n # ns) (lv_delete k lv)
      else merge_loop cmp (k + 1) (x # xs) ns (lv_insert k n lv))"

definition fl_smoothRebuild :: "(wstr \<Rightarrow> wstr \<Rightarrow> int) \<Rightarrow> doc_view option \<Rightarrow> wstr list \<Rightarrow>
    file_list \<Rightarrow> file_list" where
  "fl_smoothRebuild cmp doc oldFiles fl =
     (case doc of None \<Rightarrow> fl
      | Some (fs, idx) \<Rightarrow>
        if lview fl = None then fl
        else (fl_show_current idx (length fs)
               (fl_map (merge_loop cmp 0 oldFiles fs) (fl\<lparr>rebuilding := True\<rparr>)))
               \<lparr>rebuilding := False\<rparr>)"

text \<open>
  \<open>OnActivateItem\<close>: the path to open, if any; and the condition of the \<open>LVN_ITEMCHANGED\<close>
  handler.
\<close>

definition fl_activate_path :: "(wstr \<Rightarrow> string option) \<Rightarrow> doc_view option \<Rightarrow> string \<Rightarrow> string \<Rightarrow>
    int \<Rightarrow> string option" where
  "fl_activate_path w2u doc d cur idx =
     (case doc of None \<Rightarrow> None
      | Some (fs, _) \<Rightarrow>
        if idx < 0 \<or> idx \<ge> int (length fs) then None
        else let p = d @ ''/'' @ wstr_to_utf8 w2u (fs ! nat idx)
             in if p = cur then None else Some p)"

definition fl_item_changed :: "bool \<Rightarrow> bool \<Rightarrow> bool \<Rightarrow> bool \<Rightarrow> bool" where
  "fl_item_changed rebuild state_changed new_sel old_sel \<longleftrightarrow>
     \<not> rebuild \<and> state_changed \<and> new_sel \<and> \<not> old_sel"

section \<open>Rows and files correspond\<close>

text \<open>A row shows a file when the texts are equal for the natural order.\<close>

definition shows_file :: "(wstr \<Rightarrow> wstr \<Rightarrow> int) \<Rightarrow> wstr \<Rightarrow> wstr \<Rightarrow> bool" where
  "shows_file cmp r f \<longleftrightarrow> r = f \<or> cmp r f = 0"

definition in_sync :: "(wstr \<Rightarrow> wstr \<Rightarrow> int) \<Rightarrow> wstr list \<Rightarrow> file_list \<Rightarrow> bool" where
  "in_sync cmp fs fl = (case lview fl of None \<Rightarrow> True
     | Some lv \<Rightarrow> list_all2 (shows_file cmp) (rows lv) fs)"

text \<open>What is used of \<open>StrCmpLogicalW\<close>: being equal for it is transitive.\<close>

definition cmp_trans :: "(wstr \<Rightarrow> wstr \<Rightarrow> int) \<Rightarrow> bool" where
  "cmp_trans cmp \<longleftrightarrow> (\<forall>a b c. cmp a b = 0 \<longrightarrow> cmp b c = 0 \<longrightarrow> cmp a c = 0)"

lemma shows_file_refl [simp]: "shows_file cmp r r"
  by (simp add: shows_file_def)

lemma shows_file_step: "cmp_trans cmp \<Longrightarrow> shows_file cmp r x \<Longrightarrow> cmp x n = 0 \<Longrightarrow> shows_file cmp r n"
  unfolding shows_file_def cmp_trans_def by blast

lemma all2_refl: "list_all2 (shows_file cmp) xs xs"
  by (simp add: list_all2_same)

lemma rows_lv_insert: "rows (lv_insert (length d) t lv) = d @ t # r" if "rows lv = d @ r"
  using that by (simp add: lv_insert_def Let_def insert_at_def)

lemma rows_lv_delete: "rows (lv_delete (length d) lv) = d @ r" if "rows lv = d @ x # r"
  using that by (simp add: lv_delete_def erase_at_def)

lemma merge_rows:
  "cmp_trans cmp \<Longrightarrow> rows lv = d @ r \<Longrightarrow> length d = k \<Longrightarrow> list_all2 (shows_file cmp) r xs \<Longrightarrow>
   \<exists>s. rows (merge_loop cmp k xs ns lv) = d @ s \<and> list_all2 (shows_file cmp) s ns"
proof (induction cmp k xs ns lv arbitrary: d r rule: merge_loop.induct)
  case (1 cmp k lv)
  then show ?case by simp
next
  case (2 cmp k n ns lv)
  then have "r = []" by simp
  with 2 have "rows (lv_insert k n lv) = (d @ [n]) @ []"
    using rows_lv_insert[of lv d r n] by simp
  from 2(1)[OF 2(2) this] 2 obtain s where
    "rows (merge_loop cmp (k + 1) [] ns (lv_insert k n lv)) = (d @ [n]) @ s"
    "list_all2 (shows_file cmp) s ns" by auto
  then show ?case by (intro exI[of _ "n # s"]) simp
next
  case (3 cmp k x xs lv)
  then obtain y r' where r: "r = y # r'" "list_all2 (shows_file cmp) r' xs"
    by (auto simp: list_all2_Cons2)
  then have "rows (lv_delete k lv) = d @ r'" using rows_lv_delete[of lv d y r'] 3 by simp
  from 3(1)[OF 3(2) this 3(4) r(2)] show ?case by simp
next
  case (4 cmp k x xs n ns lv)
  then obtain y r' where r: "r = y # r'" "shows_file cmp y x" "list_all2 (shows_file cmp) r' xs"
    by (auto simp: list_all2_Cons2)
  consider "cmp x n = 0" | "cmp x n < 0" | "cmp x n > 0" by linarith
  then show ?case
  proof cases
    case 1
    have "rows lv = (d @ [y]) @ r'" using 4(5) r(1) by simp
    from 4(1)[OF 1 4(4) this _ r(3)] 4(6) obtain s where
      "rows (merge_loop cmp (k + 1) xs ns lv) = (d @ [y]) @ s"
      "list_all2 (shows_file cmp) s ns" by auto
    with 1 shows_file_step[OF 4(4) r(2) 1] show ?thesis by (intro exI[of _ "y # s"]) simp
  next
    case 2
    then have "rows (lv_delete k lv) = d @ r'" using rows_lv_delete[of lv d y r'] 4 r by simp
    from 4(2)[OF _ 2 4(4) this 4(6) r(3)] 2 show ?thesis by simp
  next
    case 3
    then have "rows (lv_insert k n lv) = (d @ [n]) @ r"
      using rows_lv_insert[of lv d r n] 4 by simp
    from 4(3)[OF _ _ 4(4) this _ 4(7)] 3 4(6) obtain s where
      "rows (merge_loop cmp (k + 1) (x # xs) ns (lv_insert k n lv)) = (d @ [n]) @ s"
      "list_all2 (shows_file cmp) s ns" by auto
    with 3 show ?thesis by (intro exI[of _ "n # s"]) simp
  qed
qed

section \<open>The operations keep the rows in step\<close>

lemma fl_select_rows [simp]:
  "map_option rows (lview (fl_select i fl)) = map_option rows (lview fl)"
  "rebuilding (fl_select i fl) = rebuilding fl"
  "rebuilding fl \<Longrightarrow> activations (fl_select i fl) = activations fl"
  by (auto simp: fl_select_def lv_select_def split: option.splits)

lemma fl_show_rows [simp]:
  "map_option rows (lview (fl_show_current i n fl)) = map_option rows (lview fl)"
  "rebuilding (fl_show_current i n fl) = rebuilding fl"
  "rebuilding fl \<Longrightarrow> activations (fl_show_current i n fl) = activations fl"
  by (simp_all add: fl_show_current_def)

lemma fl_map_fields [simp]:
  "rebuilding (fl_map f fl) = rebuilding fl" "activations (fl_map f fl) = activations fl"
  "lview (fl_map f fl) = map_option f (lview fl)"
  by (simp_all add: fl_map_def)

lemma in_sync_rows: "map_option rows (lview fl) = map_option rows (lview fl') \<Longrightarrow>
    in_sync cmp fs fl = in_sync cmp fs fl'"
  by (auto simp: in_sync_def split: option.splits)

lemma in_sync_flag [simp]: "in_sync cmp fs (fl\<lparr>rebuilding := b\<rparr>) = in_sync cmp fs fl"
  by (simp add: in_sync_def)

lemma in_sync_show [simp]: "in_sync cmp fs (fl_show_current i n fl) = in_sync cmp fs fl"
  by (rule in_sync_rows) simp

lemma fl_fill_rows:
  "lview fl = Some lv \<Longrightarrow> i = length (rows lv) \<Longrightarrow>
   \<exists>lv'. lview (fl_fill i fs fl) = Some lv' \<and> rows lv' = rows lv @ fs"
proof (induction i fs fl arbitrary: lv rule: fl_fill.induct)
  case (1 i fl)
  then show ?case by simp
next
  case (2 i f fs fl)
  have "rows (lv_insert i f lv) = rows lv @ [f]"
    using rows_lv_insert[of lv "rows lv" "[]" f] 2 by simp
  then show ?case using 2(1)[of "lv_insert i f lv"] 2(2,3) by simp
qed

lemma fl_fill_fields [simp]:
  "rebuilding (fl_fill i fs fl) = rebuilding fl"
  "activations (fl_fill i fs fl) = activations fl"
  "lview (fl_fill i fs fl) = None \<longleftrightarrow> lview fl = None"
  by (induction i fs fl rule: fl_fill.induct) auto

lemma sync_rebuild: "in_sync cmp fs (fl_rebuild (Some (fs, i)) fl)"
proof (cases "lview fl")
  case None
  then show ?thesis by (simp add: fl_rebuild_def in_sync_def)
next
  case (Some lv)
  let ?fl = "fl_map lv_delete_all (fl\<lparr>rebuilding := True\<rparr>)"
  have "lview ?fl = Some (lv_delete_all lv)" using Some by simp
  from fl_fill_rows[OF this, of 0 fs] obtain lv' where
    "lview (fl_fill 0 fs ?fl) = Some lv'" "rows lv' = fs" by (auto simp: lv_delete_all_def)
  with Some show ?thesis
    by (auto simp: fl_rebuild_def Let_def in_sync_def[of cmp fs "fl_fill 0 fs ?fl"] all2_refl)
      (simp add: in_sync_def lv_delete_all_def)
qed

lemma in_sync_deselect [simp]:
  "in_sync cmp fs (fl_map (lv_deselect k) fl) = in_sync cmp fs fl"
  by (rule in_sync_rows) (cases "lview fl"; simp add: lv_deselect_def)

lemma sync_move: "in_sync cmp fs fl \<Longrightarrow> in_sync cmp fs (fl_moveSelection (Some d) a b fl)"
  by (cases d) (simp add: fl_moveSelection_def Let_def)

lemma sync_remove:
  assumes "in_sync cmp fs fl" and "k < length fs"
  shows "in_sync cmp (erase_at k fs) (fl_removeItem (Some (erase_at k fs, i)) k j fl)"
proof (cases "lview fl")
  case None
  then show ?thesis by (simp add: fl_removeItem_def in_sync_def)
next
  case (Some lv)
  with assms have a: "list_all2 (shows_file cmp) (rows lv) fs" by (simp add: in_sync_def)
  then have "k < length (rows lv)" using assms(2) by (simp add: list_all2_lengthD)
  moreover have "list_all2 (shows_file cmp) (erase_at k (rows lv)) (erase_at k fs)"
    unfolding erase_at_def by (intro list_all2_appendI list_all2_takeI list_all2_dropI a)
  ultimately show ?thesis using Some
    by (simp add: fl_removeItem_def in_sync_def[of _ _ "fl_map _ _"] lv_delete_def)
qed

lemma sync_smooth:
  assumes "cmp_trans cmp" and "in_sync cmp old fl"
  shows "in_sync cmp fs (fl_smoothRebuild cmp (Some (fs, i)) old fl)"
proof (cases "lview fl")
  case None
  then show ?thesis by (simp add: fl_smoothRebuild_def in_sync_def)
next
  case (Some lv)
  with assms(2) have "list_all2 (shows_file cmp) (rows lv) old" by (simp add: in_sync_def)
  from merge_rows[OF assms(1) _ _ this, of lv "[]" 0 fs]
  have "list_all2 (shows_file cmp) (rows (merge_loop cmp 0 old fs lv)) fs" by auto
  with Some show ?thesis
    by (simp add: fl_smoothRebuild_def in_sync_def[of _ _ "fl_map _ _"])
qed

text \<open>The panel's own updates do not open files: the notifications they cause are ignored.\<close>

lemma no_activation:
  "activations (fl_rebuild d fl) = activations fl"
  "activations (fl_moveSelection d a b fl) = activations fl"
  "activations (fl_removeItem d k j fl) = activations fl"
  "activations (fl_smoothRebuild cmp d old fl) = activations fl"
  by (auto simp: fl_rebuild_def fl_moveSelection_def fl_removeItem_def fl_smoothRebuild_def Let_def
      split: option.splits)

text \<open>
  \<open>rebuild\<close> returns with \<open>_rebuilding\<close> still set when there is nothing to show; then there is no
  row whose selection could be missed.
\<close>

lemma rebuild_flag: "lview fl \<noteq> None \<Longrightarrow>
    rebuilding (fl_rebuild (Some (fs, i)) fl) \<longleftrightarrow> fs = []"
  by (auto simp: fl_rebuild_def Let_def)

lemma selected_show:
  "lview fl = Some lv \<Longrightarrow> length (rows lv) = n \<Longrightarrow> 0 \<le> i \<Longrightarrow> i < int n \<Longrightarrow>
   \<exists>lv'. lview (fl_show_current i n fl) = Some lv' \<and> selected lv' = Some (nat i)"
  by (auto simp: fl_show_current_def fl_select_def lv_select_def)

section \<open>Properties\<close>

text \<open>
  C13.  The smooth update brings the panel to the new directory whatever the two lists are
  (sorted or not): when the rows showed the old files, afterwards row \<open>i\<close> shows new file \<open>i\<close>,
  the current file is the selected row, and no file was opened by the selection changes.
\<close>

theorem smoothRebuild_shows_new:
  assumes "cmp_trans cmp" and "lview fl = Some lv"
    and "list_all2 (shows_file cmp) (rows lv) old" and "0 \<le> i" and "i < int (length fs)"
  shows "\<exists>lv'. lview (fl_smoothRebuild cmp (Some (fs, i)) old fl) = Some lv' \<and>
      list_all2 (shows_file cmp) (rows lv') fs \<and> selected lv' = Some (nat i) \<and>
      activations (fl_smoothRebuild cmp (Some (fs, i)) old fl) = activations fl"
proof -
  have s: "in_sync cmp fs (fl_smoothRebuild cmp (Some (fs, i)) old fl)"
    by (rule sync_smooth) (simp_all add: assms in_sync_def)
  from merge_rows[OF assms(1) _ _ assms(3), of lv "[]" 0 fs]
  have "length (rows (merge_loop cmp 0 old fs lv)) = length fs" by (auto dest: list_all2_lengthD)
  from selected_show[of "fl_map (merge_loop cmp 0 old fs) (fl\<lparr>rebuilding := True\<rparr>)", OF _ this assms(4,5)]
  obtain lv' where "lview (fl_smoothRebuild cmp (Some (fs, i)) old fl) = Some lv'"
    "selected lv' = Some (nat i)"
    using assms(2) by (auto simp: fl_smoothRebuild_def)
  with s show ?thesis by (simp add: in_sync_def no_activation)
qed

theorem smoothRebuild_shows_new_witness:
  "let cmp = (\<lambda>a b. int (length a) - int (length b));
       lv = \<lparr>rows = [[1], [2, 2]], selected = Some 0\<rparr>
   in \<exists>lv'. lview (fl_smoothRebuild cmp (Some ([[2, 2], [3, 3, 3]], 1)) [[1], [2, 2]]
        \<lparr>lview = Some lv, rebuilding = False, activations = []\<rparr>) = Some lv' \<and>
      selected lv' = Some 1 \<and> length (rows lv') = 2"
proof -
  let ?cmp = "\<lambda>a b :: wstr. int (length a) - int (length b)"
  let ?fl = "\<lparr>lview = Some \<lparr>rows = [[1], [2, 2]], selected = Some 0\<rparr>, rebuilding = False,
    activations = []\<rparr>"
  have "cmp_trans ?cmp" by (simp add: cmp_trans_def)
  from smoothRebuild_shows_new[OF this, of ?fl "\<lparr>rows = [[1], [2, 2]], selected = Some 0\<rparr>"
      "[[1], [2, 2]]" 1 "[[2, 2], [3, 3, 3]]"]
  show ?thesis by (auto simp: Let_def dest: list_all2_lengthD)
qed

end
