(* ===== verification/Doc.thy ===== *)
theory Doc
  imports File_List Uni_Fs ZData_File File_Type Protocol
begin

text \<open>
  obZrv/Doc.cpp: the document.  It holds the open image, the file system it came from, and the
  sorted list of the images in its directory with the index of the current one, and it keeps
  the file list panel (\<open>File_List\<close>) in step.  What lies outside is bundled in \<open>env\<close>: the file
  systems (a handle \<open>'h\<close> on state in the world \<open>'w\<close>, as the code holds them through shared
  pointers), the codecs, the clock, the shell's delete, and the Windows string functions.
  Messages to the user and calls of the view are recorded in \<open>ui\<close>.
\<close>

section \<open>State\<close>

datatype ui_event = Msg string | FileOpened int | UpdateStatus | SetTimer int | KillTimer
  | FrameUpdate

record ('h, 'w, 'img) doc =
  view :: bool
  flist :: "file_list option"
  image :: "'img option"
  dpath :: string
  unifs :: "'h option"
  animated :: bool
  curframe :: int
  curloop :: int
  tmstart :: int
  totaldelay :: int
  ddir :: string
  dirfiles :: "wstr list"
  diridx :: int
  curFile :: wstr
  prevFile :: wstr
  world :: 'w
  ui :: "ui_event list"

record ('w, 'f, 'img) codec =
  types :: "string list"
  decode :: "'f \<Rightarrow> 'w \<Rightarrow> (im_code + 'img) \<times> 'f \<times> 'w"

text \<open>
  \<open>is_local\<close> and \<open>is_remote\<close> are the dynamic casts; \<open>wrap_zdata\<close> puts a file into a
  \<open>ZDataFile\<close>, \<open>sniff\<close> is \<open>filetype\<close>, \<open>rewind\<close> is \<open>seek(0, SEEK_SET)\<close>.
\<close>

record ('h, 'w, 'f, 'img) env =
  openfile :: "'h \<Rightarrow> string \<Rightarrow> string \<Rightarrow> 'w \<Rightarrow> 'f option \<times> 'w"
  readdir :: "'h \<Rightarrow> string \<Rightarrow> 'w \<Rightarrow> dir_entry list option \<times> 'w"
  removefile :: "'h \<Rightarrow> string \<Rightarrow> 'w \<Rightarrow> int \<times> 'w"
  is_remote :: "'h \<Rightarrow> bool"
  is_local :: "'h \<Rightarrow> bool"
  fs_status :: "'h \<Rightarrow> 'w \<Rightarrow> u8"
  reconnect :: "'h \<Rightarrow> 'w \<Rightarrow> bool \<times> 'w"
  codecs :: "('w, 'f, 'img) codec list"
  supported_types :: "string list"
  wrap_zdata :: "'f \<Rightarrow> 'f"
  sniff :: "'f \<Rightarrow> 'w \<Rightarrow> string \<times> 'f \<times> 'w"
  rewind :: "'f \<Rightarrow> 'w \<Rightarrow> 'f \<times> 'w"
  file_read :: "'f \<Rightarrow> nat \<Rightarrow> bytes \<times> 'f"
  create_local :: "string \<Rightarrow> 'w \<Rightarrow> local_file option \<times> 'w"
  shell_delete :: "wstr \<Rightarrow> bool \<Rightarrow> 'w \<Rightarrow> (int \<times> bool) \<times> 'w"
  tick :: "'w \<Rightarrow> int \<times> 'w"
  is_anim :: "'img \<Rightarrow> bool"
  frame_delay :: "'img \<Rightarrow> int"
  cmp :: "wstr \<Rightarrow> wstr \<Rightarrow> int"
  w2u :: "wstr \<Rightarrow> string option"
  u2w :: "string \<Rightarrow> wstr option"

definition emit :: "ui_event \<Rightarrow> ('h, 'w, 'img) doc \<Rightarrow> ('h, 'w, 'img) doc" where
  "emit e d = d\<lparr>ui := ui d @ [e]\<rparr>"

definition with_view :: "ui_event \<Rightarrow> ('h, 'w, 'img) doc \<Rightarrow> ('h, 'w, 'img) doc" where
  "with_view e d = (if view d then emit e d else d)"

definition on_list :: "(doc_view option \<Rightarrow> file_list \<Rightarrow> file_list) \<Rightarrow> ('h, 'w, 'img) doc \<Rightarrow>
    ('h, 'w, 'img) doc" where
  "on_list f d = d\<lparr>flist := map_option (f (Some (dirfiles d, diridx d))) (flist d)\<rparr>"

definition new_doc :: "'w \<Rightarrow> ('h, 'w, 'img) doc" where
  "new_doc w = \<lparr>view = False, flist = None, image = None, dpath = [], unifs = None,
     animated = False, curframe = 0, curloop = 0, tmstart = 0, totaldelay = 0, ddir = [],
     dirfiles = [], diridx = -1, curFile = [], prevFile = [], world = w, ui = []\<rparr>"

section \<open>Supported types\<close>

text \<open>\<open>initCodec\<close> with the results of the codecs' \<open>init\<close>.\<close>

fun initCodec :: "(int \<times> string list) list \<Rightarrow> string list \<Rightarrow> int \<times> string list" where
  "initCodec [] acc = (0, acc @ map (\<lambda>c. [CHR ''z'', c, CHR ''?'']) ''0123456789'')"
| "initCodec ((r, ts) # cs) acc = (if r \<noteq> 0 then (-1, acc) else initCodec cs (acc @ ts))"

definition isSupportedExt :: "string list \<Rightarrow> string \<Rightarrow> bool" where
  "isSupportedExt ts ext \<longleftrightarrow> ext \<in> set ts \<or> isZDataExt ext"

section \<open>close and clearOpenState\<close>

definition doc_close :: "('h, 'w, 'img) doc \<Rightarrow> ('h, 'w, 'img) doc" where
  "doc_close d =
     (let d1 = (if animated d then with_view KillTimer d else d)
      in d1\<lparr>animated := False, image := None, diridx := -1, unifs := None\<rparr>)"

definition clearOpenState :: "('h, 'w, 'img) doc \<Rightarrow> ('h, 'w, 'img) doc" where
  "clearOpenState d =
     with_view UpdateStatus (on_list fl_rebuild
       ((doc_close d)\<lparr>dpath := [], ddir := [], dirfiles := [], prevFile := [], curFile := []\<rparr>))"

section \<open>Reconnecting\<close>

definition shouldReconnectRemote :: "('h, 'w, 'f, 'img) env \<Rightarrow> 'h \<Rightarrow> ('h, 'w, 'img) doc \<Rightarrow> bool" where
  "shouldReconnectRemote E h d \<longleftrightarrow>
     is_remote E h \<and> fs_status E h (world d) \<noteq> STATUS_ERR_NOT_FOUND"

definition reconnectRemoteOnce :: "('h, 'w, 'f, 'img) env \<Rightarrow> 'h \<Rightarrow> ('h, 'w, 'img) doc \<Rightarrow>
    bool \<times> ('h, 'w, 'img) doc" where
  "reconnectRemoteOnce E h d =
     (if \<not> is_remote E h then (False, d)
      else case reconnect E h (world d) of (ok, w) \<Rightarrow> (ok, d\<lparr>world := w\<rparr>))"

definition give_up :: "string \<Rightarrow> ('h, 'w, 'img) doc \<Rightarrow> ('h, 'w, 'img) doc" where
  "give_up m d = emit (Msg m) (clearOpenState d)"

definition msg_reconnect :: string where
  "msg_reconnect = ''Could not reconnect to the remote server.''"
definition msg_dir :: string where "msg_dir = ''Cannot open directory.''"
definition msg_none :: string where "msg_none = ''No image files found in this folder.''"

text \<open>
  The block that stands four times in \<open>open\<close>: when \<open>act\<close> has failed, nothing was retried yet
  and the server may be gone, reconnect once and run \<open>act\<close> again.  \<open>Inl\<close>: \<open>open\<close> returns
  \<open>IM_FAIL\<close>.
\<close>

definition retry_remote :: "('h, 'w, 'f, 'img) env \<Rightarrow> 'h \<Rightarrow> bool \<Rightarrow> ('r \<Rightarrow> bool) \<Rightarrow>
    (('h, 'w, 'img) doc \<Rightarrow> 'r \<times> ('h, 'w, 'img) doc) \<Rightarrow> 'r \<times> ('h, 'w, 'img) doc \<Rightarrow>
    ('h, 'w, 'img) doc + ('r \<times> bool \<times> ('h, 'w, 'img) doc)" where
  "retry_remote E h retried failed act rd =
     (case rd of (r, d) \<Rightarrow>
      if failed r \<and> \<not> retried \<and> shouldReconnectRemote E h d then
        (case reconnectRemoteOnce E h d of (ok, d1) \<Rightarrow>
           if \<not> ok then Inl (give_up msg_reconnect d1)
           else case act d1 of (r2, d2) \<Rightarrow> Inr (r2, True, d2))
      else Inr (r, retried, d))"

definition do_open :: "('h, 'w, 'f, 'img) env \<Rightarrow> 'h \<Rightarrow> string \<Rightarrow> ('h, 'w, 'img) doc \<Rightarrow>
    'f option \<times> ('h, 'w, 'img) doc" where
  "do_open E h p d = (case openfile E h p ''rb'' (world d) of (f, w) \<Rightarrow> (f, d\<lparr>world := w\<rparr>))"

section \<open>updateDir\<close>

text \<open>\<open>std::sort\<close> with the natural order, here stable (the order of equal names is left open).\<close>

fun insert_sorted :: "(wstr \<Rightarrow> wstr \<Rightarrow> int) \<Rightarrow> wstr \<Rightarrow> wstr list \<Rightarrow> wstr list" where
  "insert_sorted le x [] = [x]"
| "insert_sorted le x (y # ys) = (if le y x < 0 then y # insert_sorted le x ys else x # y # ys)"

definition natural_sort :: "(wstr \<Rightarrow> wstr \<Rightarrow> int) \<Rightarrow> wstr list \<Rightarrow> wstr list" where
  "natural_sort le xs = foldr (insert_sorted le) xs []"

definition listed :: "string list \<Rightarrow> dir_entry \<Rightarrow> bool" where
  "listed ts e \<longleftrightarrow> de_type e = DE_FILE \<and> getExt (de_name e) \<noteq> [] \<and>
     isSupportedExt ts (getExt (de_name e))"

definition wcsicmp_eq :: "wstr \<Rightarrow> wstr \<Rightarrow> bool" where
  "wcsicmp_eq a b \<longleftrightarrow> map towlower a = map towlower b"

definition index_or :: "int \<Rightarrow> nat option \<Rightarrow> int" where
  "index_or k i = (case i of None \<Rightarrow> k | Some j \<Rightarrow> int j)"

definition dir_images :: "('h, 'w, 'f, 'img) env \<Rightarrow> dir_entry list \<Rightarrow> wstr list" where
  "dir_images E ents = natural_sort (cmp E)
     (map (\<lambda>e. utf8_to_wstr (u2w E) (de_name e)) (filter (listed (supported_types E)) ents))"

definition updateDir :: "('h, 'w, 'f, 'img) env \<Rightarrow> 'h \<Rightarrow> string \<Rightarrow> bool \<Rightarrow> ('h, 'w, 'img) doc \<Rightarrow>
    int \<times> ('h, 'w, 'img) doc" where
  "updateDir E h filepath preservelast d =
     (let nd = path_dir filepath; filename = path_file filepath in
      if ddir d = nd \<and> preservelast then (0, d)
      else let filenameW = map towlower (utf8_to_wstr (u2w E) filename);
               d1 = d\<lparr>ddir := [], dirfiles := [], diridx := -1\<rparr> in
      if filename = [] then (0, d1)
      else case readdir E h nd (world d1) of (iter, w) \<Rightarrow>
      (case iter of None \<Rightarrow> (-1, d1\<lparr>world := w\<rparr>)
       | Some ents \<Rightarrow>
          let fs = dir_images E ents in
          (0, d1\<lparr>world := w, ddir := nd, dirfiles := fs,
                   diridx := index_or (-1) (find_first (wcsicmp_eq filenameW) fs)\<rparr>)))"

section \<open>open\<close>

text \<open>
  Step 1, the fallback: rescan the directory and take the neighbour of the file that is gone.
  The result of step 1 is a code to return, or the open file with what later steps need:
  \<open>scanned\<close>, \<open>retriedRemote\<close>, \<open>oldFiles\<close>, \<open>targetFileW\<close>, \<open>targetFile\<close>.
\<close>

type_synonym 'f opened = "'f \<times> bool \<times> bool \<times> wstr list \<times> wstr \<times> string"

text \<open>The insertion point of the missing file, and the neighbour on the side of the hint.\<close>

definition fallback_target :: "(wstr \<Rightarrow> wstr \<Rightarrow> int) \<Rightarrow> int \<Rightarrow> wstr \<Rightarrow> wstr list \<Rightarrow> int" where
  "fallback_target le dirHint targetFileW files =
     (let size = int (length files);
          pos = index_or size (find_first (\<lambda>f. le f targetFileW \<ge> 0) files)
      in if dirHint \<ge> 0 then min pos (size - 1) else max 0 (pos - 1))"

definition open_neighbour :: "('h, 'w, 'f, 'img) env \<Rightarrow> 'h \<Rightarrow> wstr list \<Rightarrow> bool \<Rightarrow> int \<Rightarrow>
    ('h, 'w, 'img) doc \<Rightarrow>
    (im_code \<times> ('h, 'w, 'img) doc) + ('f opened \<times> ('h, 'w, 'img) doc)" where
  "open_neighbour E h oldFiles retried target d =
     (let tw = dirfiles d ! nat target;
          tf = wstr_to_utf8 (w2u E) tw;
          d1 = d\<lparr>diridx := target\<rparr>;
          newPath = ddir d1 @ ''/'' @ tf in
      case retry_remote E h retried (\<lambda>f. f = None) (do_open E h newPath)
             (do_open E h newPath d1) of
        Inl e \<Rightarrow> Inl (IM_FAIL, e)
      | Inr (uf, retried1, d2) \<Rightarrow>
        (case uf of None \<Rightarrow>
           Inl (IM_FAIL, on_list (\<lambda>v. fl_smoothRebuild (cmp E) v oldFiles) d2)
         | Some f \<Rightarrow> Inr ((f, True, retried1, oldFiles, tw, tf), d2)))"

definition open_fallback :: "('h, 'w, 'f, 'img) env \<Rightarrow> 'h \<Rightarrow> string \<Rightarrow> int \<Rightarrow> bool \<Rightarrow> wstr \<Rightarrow>
    ('h, 'w, 'img) doc \<Rightarrow>
    (im_code \<times> ('h, 'w, 'img) doc) + ('f opened \<times> ('h, 'w, 'img) doc)" where
  "open_fallback E h p dirHint retried targetFileW d =
     (case retry_remote E h retried (\<lambda>r. r \<noteq> 0) (updateDir E h p False) (updateDir E h p False d) of
        Inl e \<Rightarrow> Inl (IM_FAIL, e)
      | Inr (dirRes, retried1, d1) \<Rightarrow>
        if dirRes \<noteq> 0 then Inl (IM_FAIL, give_up msg_dir d1)
        else if dirfiles d1 = [] then Inl (IM_FAIL, give_up msg_none d1)
        else open_neighbour E h (dirfiles d) retried1
               (fallback_target (cmp E) dirHint targetFileW (dirfiles d1)) d1)"

definition open_step1 :: "('h, 'w, 'f, 'img) env \<Rightarrow> 'h \<Rightarrow> string \<Rightarrow> int option \<Rightarrow>
    ('h, 'w, 'img) doc \<Rightarrow>
    (im_code \<times> ('h, 'w, 'img) doc) + ('f opened \<times> ('h, 'w, 'img) doc)" where
  "open_step1 E h p dirHint d =
     (let targetFile = path_file p;
          targetFileW = utf8_to_wstr (u2w E) targetFile in
      case retry_remote E h False (\<lambda>f. f = None) (do_open E h p) (do_open E h p d) of
        Inl e \<Rightarrow> Inl (IM_FAIL, e)
      | Inr (uf, retried, d1) \<Rightarrow>
        (case uf of Some f \<Rightarrow> Inr ((f, False, retried, [], targetFileW, targetFile), d1)
         | None \<Rightarrow> (case dirHint of None \<Rightarrow> Inl (IM_READFILE_ERR, d1)
             | Some hint \<Rightarrow> open_fallback E h p hint retried targetFileW d1)))"

text \<open>The loop over the codecs that take the extension \<open>ext\<close>; \<open>res\<close> is the last error.\<close>

fun try_codecs :: "('h, 'w, 'f, 'img) env \<Rightarrow> string \<Rightarrow> ('w, 'f, 'img) codec list \<Rightarrow> im_code \<Rightarrow>
    'f \<Rightarrow> 'w \<Rightarrow> (im_code + 'img) \<times> 'f \<times> 'w" where
  "try_codecs E ext [] res f w = (Inl res, f, w)"
| "try_codecs E ext (c # cs) res f w =
     (if ext \<in> set (types c) then
        (case rewind E f w of (f1, w1) \<Rightarrow>
         case decode c f1 w1 of (r, f2, w2) \<Rightarrow>
         (case r of Inr img \<Rightarrow> (Inr img, f2, w2) | Inl e \<Rightarrow> try_codecs E ext cs e f2 w2))
      else try_codecs E ext cs res f w)"

text \<open>Step 2, the decoding: by the extension, then by the detected type.\<close>

definition open_decode :: "('h, 'w, 'f, 'img) env \<Rightarrow> string \<Rightarrow> 'f \<Rightarrow> 'w \<Rightarrow> (im_code + 'img) \<times> 'w" where
  "open_decode E ext f w =
     (let f0 = (if isZDataExt ext then wrap_zdata E f else f) in
      case try_codecs E ext (codecs E) IM_NOT_SUPPORTED f0 w of (r, f1, w1) \<Rightarrow>
      (case r of Inr img \<Rightarrow> (Inr img, w1)
       | Inl res \<Rightarrow>
         (case sniff E f1 w1 of (detectedExt, f2, w2) \<Rightarrow>
            if detectedExt \<noteq> ''UNK'' \<and> detectedExt \<noteq> ext then
              (case try_codecs E detectedExt (codecs E) res f2 w2 of (r2, f3, w3) \<Rightarrow> (r2, w3))
            else (Inl res, w2))))"

definition open_show :: "('h, 'w, 'f, 'img) env \<Rightarrow> string \<Rightarrow> int \<Rightarrow> 'img \<Rightarrow> ('h, 'w, 'img) doc \<Rightarrow>
    ('h, 'w, 'img) doc" where
  "open_show E fullPath cmdid img d =
     (let d1 = (with_view (FileOpened cmdid) (d\<lparr>image := Some img, dpath := fullPath\<rparr>))
                 \<lparr>curframe := 0, curloop := 0, animated := is_anim E img\<rparr>;
          d2 = (if is_anim E img then
                  (case tick E (world d1) of (t, w) \<Rightarrow>
                     with_view (SetTimer (frame_delay E img))
                       (d1\<lparr>world := w, tmstart := t, totaldelay := frame_delay E img\<rparr>))
                else d1)
      in with_view UpdateStatus d2)"

text \<open>Step 3: rescan the directory, or look up the index in the list at hand.\<close>

definition open_rescan :: "('h, 'w, 'f, 'img) env \<Rightarrow> 'h \<Rightarrow> string \<Rightarrow> bool \<Rightarrow> bool \<Rightarrow> bool \<Rightarrow>
    wstr list \<Rightarrow> wstr \<Rightarrow> ('h, 'w, 'img) doc \<Rightarrow>
    ('h, 'w, 'img) doc + (bool \<times> wstr list \<times> ('h, 'w, 'img) doc)" where
  "open_rescan E h p forceScanDir scanned retried oldFiles targetFileW d =
     (if forceScanDir \<and> \<not> scanned then
        let old = dirfiles d in
        (case retry_remote E h retried (\<lambda>r. r \<noteq> 0) (updateDir E h p False)
                (updateDir E h p False d) of
           Inl e \<Rightarrow> Inl e
         | Inr (dirRes, _, d1) \<Rightarrow>
             if dirRes \<noteq> 0 then Inl (give_up msg_dir d1) else Inr (True, old, d1))
      else Inr (scanned, oldFiles,
        d\<lparr>diridx := index_or (diridx d) (find_first (\<lambda>f. f = targetFileW) (dirfiles d))\<rparr>))"

text \<open>Step 4: the panel, and the previous and current file.\<close>

definition finish_list :: "('h, 'w, 'f, 'img) env \<Rightarrow> bool \<Rightarrow> int \<Rightarrow> int \<Rightarrow> bool \<Rightarrow> wstr list \<Rightarrow>
    doc_view option \<Rightarrow> file_list \<Rightarrow> file_list" where
  "finish_list E sameDir prevIdx idx scanned oldFiles v fl =
     (if \<not> scanned then fl_moveSelection v prevIdx idx fl
      else if sameDir then fl_smoothRebuild (cmp E) v oldFiles fl
      else fl_rebuild v fl)"

definition open_finish :: "('h, 'w, 'f, 'img) env \<Rightarrow> string \<Rightarrow> int \<Rightarrow> bool \<Rightarrow> wstr list \<Rightarrow> wstr \<Rightarrow>
    ('h, 'w, 'img) doc \<Rightarrow> ('h, 'w, 'img) doc" where
  "open_finish E prevDir prevIdx scanned oldFiles targetFileW d =
     (on_list (finish_list E (ddir d = prevDir) prevIdx (diridx d) scanned oldFiles) d)
       \<lparr>prevFile := (if ddir d = prevDir then curFile d else []), curFile := targetFileW\<rparr>"

definition doc_open :: "('h, 'w, 'f, 'img) env \<Rightarrow> 'h option \<Rightarrow> string \<Rightarrow> int \<Rightarrow> bool \<Rightarrow>
    int option \<Rightarrow> ('h, 'w, 'img) doc \<Rightarrow> im_code \<times> ('h, 'w, 'img) doc" where
  "doc_open E fs p cmdid forceScanDir dirHint d =
     (case (case fs of None \<Rightarrow> unifs d | Some h \<Rightarrow> Some h) of
        None \<Rightarrow> (IM_READFILE_ERR, d)
      | Some h \<Rightarrow>
        (case open_step1 E h p dirHint d of
           Inl r \<Rightarrow> r
         | Inr ((uf, scanned, retried, oldFiles, tw, tf), d1) \<Rightarrow>
           let d2 = (doc_close d1)\<lparr>unifs := Some h\<rparr>;
               fullPath = (if scanned then ddir d2 @ ''/'' @ tf else p) in
           (case open_decode E (getExt fullPath) uf (world d2) of
              (Inl res, w) \<Rightarrow> (res, d2\<lparr>world := w\<rparr>)
            | (Inr img, w) \<Rightarrow>
              let d3 = open_show E fullPath cmdid img (d2\<lparr>world := w\<rparr>) in
              (case open_rescan E h p forceScanDir scanned retried oldFiles tw d3 of
                 Inl e \<Rightarrow> (IM_FAIL, e)
               | Inr (scanned1, old1, d4) \<Rightarrow>
                 (IM_OK, open_finish E (ddir d) (diridx d) scanned1 old1 tw d4)))))"

section \<open>Navigation, refresh, save\<close>

datatype nav_cmd = NAV_FIRST | NAV_LAST | NAV_PREV | NAV_NEXT

fun cmdid_of :: "nav_cmd \<Rightarrow> int" where
  "cmdid_of NAV_FIRST = 0" | "cmdid_of NAV_LAST = 1" | "cmdid_of NAV_PREV = 2" | "cmdid_of NAV_NEXT = 3"

text \<open>What the callers of \<open>navigate\<close> and of \<open>refreshDir\<close> get: \<open>-1\<close>, or the code of \<open>open\<close>.\<close>

datatype nav_result = Nothing | Opened im_code

definition nav_target :: "nav_cmd \<Rightarrow> int \<Rightarrow> int \<Rightarrow> int" where
  "nav_target cmd i n =
     (if cmd = NAV_PREV \<and> i > 0 then i - 1
      else if cmd = NAV_NEXT \<and> i < n - 1 then i + 1
      else if cmd = NAV_FIRST \<and> i > 0 then 0
      else if cmd = NAV_LAST \<and> i < n - 1 then n - 1
      else -1)"

definition navigate :: "('h, 'w, 'f, 'img) env \<Rightarrow> nav_cmd \<Rightarrow> ('h, 'w, 'img) doc \<Rightarrow>
    nav_result \<times> ('h, 'w, 'img) doc" where
  "navigate E cmd d =
     (if diridx d = -1 \<or> dirfiles d = [] then (Nothing, d)
      else let target = nav_target cmd (diridx d) (int (length (dirfiles d))) in
      if target = -1 then (Nothing, d)
      else case doc_open E (unifs d)
               (ddir d @ ''/'' @ wstr_to_utf8 (w2u E) (dirfiles d ! nat target))
               (cmdid_of cmd) False (Some (if cmd = NAV_PREV then -1 else 1)) d of
        (r, d') \<Rightarrow> (Opened r, d'))"

definition refreshDir :: "('h, 'w, 'f, 'img) env \<Rightarrow> ('h, 'w, 'img) doc \<Rightarrow>
    nav_result \<times> ('h, 'w, 'img) doc" where
  "refreshDir E d =
     (if dpath d = [] then (Nothing, d)
      else case doc_open E (unifs d) (dpath d) (-1) True (Some 1) d of (r, d') \<Rightarrow> (Opened r, d'))"

definition saveAsLocal :: "('h, 'w, 'f, 'img) env \<Rightarrow> wstr \<Rightarrow> ('h, 'w, 'img) doc \<Rightarrow>
    (int \<times> local_file option \<times> ('h, 'w, 'img) doc) option" where
  "saveAsLocal E p d =
     (case unifs d of None \<Rightarrow> Some (-1, None, d)
      | Some h \<Rightarrow>
        if dpath d = [] \<or> p = [] then Some (-1, None, d)
        else case do_open E h (dpath d) d of (src, d1) \<Rightarrow>
        (case src of None \<Rightarrow> Some (-1, None, d1)
         | Some f \<Rightarrow> (case create_local E (to_unipath (w2u E) p) (world d1) of (dst, w) \<Rightarrow>
           (case dst of None \<Rightarrow> Some (-1, None, d1\<lparr>world := w\<rparr>)
            | Some l \<Rightarrow> map_option (\<lambda>(r, f', l'). (r, Some l', d1\<lparr>world := w\<rparr>))
                (copy_loop (file_read E) f l)))))"

section \<open>removeCurrentFile\<close>

text \<open>The path handed to the shell for a local file: the slashes of \<open>_dir\<close> turned around.\<close>

definition shell_path :: "(string \<Rightarrow> wstr option) \<Rightarrow> string \<Rightarrow> wstr \<Rightarrow> wstr" where
  "shell_path conv d f =
     map (\<lambda>c. if c = wslash then wbslash else c) (utf8_to_wstr conv d) @ [wbslash] @ f"

text \<open>Which neighbour of the deleted file is opened next, and from which side.\<close>

definition next_after_delete :: "(wstr \<Rightarrow> wstr \<Rightarrow> int) \<Rightarrow> wstr \<Rightarrow> wstr \<Rightarrow> int \<Rightarrow> int \<Rightarrow> int" where
  "next_after_delete le prev delFile delIdx n =
     (let pick = (if prev \<noteq> [] \<and> \<not> wcsicmp_eq prev delFile then
            (if le prev delFile > 0 then (if delIdx - 1 \<ge> 0 then delIdx - 1 else -1)
             else (if delIdx < n then delIdx else -1))
          else -1)
      in if pick < 0 then (if delIdx < n then delIdx else n - 1) else pick)"

text \<open>After the deletion: drop the entry and open the next file.\<close>

definition remove_listed :: "('h, 'w, 'f, 'img) env \<Rightarrow> wstr \<Rightarrow> int \<Rightarrow> ('h, 'w, 'img) doc \<Rightarrow>
    ('h, 'w, 'img) doc" where
  "remove_listed E delFile delIdx d =
     (let d1 = d\<lparr>dirfiles := erase_at (nat delIdx) (dirfiles d)\<rparr> in
      if dirfiles d1 = [] then
        with_view UpdateStatus (on_list fl_rebuild
          ((doc_close d1)\<lparr>ddir := [], prevFile := [], curFile := []\<rparr>))
      else
      let n = int (length (dirfiles d1));
          nextIdx = next_after_delete (cmp E) (prevFile d1) delFile delIdx n;
          dirHint = (if nextIdx \<ge> delIdx then 1 else -1);
          nextPath = ddir d1 @ ''/'' @ wstr_to_utf8 (w2u E) (dirfiles d1 ! nat nextIdx);
          d2 = on_list (\<lambda>v. fl_removeItem v (nat delIdx) (-1)) (d1\<lparr>diridx := -1\<rparr>)
      in snd (doc_open E (unifs d2) nextPath (-1) False (Some dirHint) d2))"

text \<open>\<open>None\<close>: the call through the null \<open>_unifs\<close> of the remote branch.\<close>

definition removeCurrentFile :: "('h, 'w, 'f, 'img) env \<Rightarrow> bool \<Rightarrow> ('h, 'w, 'img) doc \<Rightarrow>
    (int \<times> ('h, 'w, 'img) doc) option" where
  "removeCurrentFile E shift d =
     (if diridx d < 0 \<or> diridx d \<ge> int (length (dirfiles d)) then Some (-1, d)
      else let delFile = dirfiles d ! nat (diridx d); delIdx = diridx d in
      case unifs d of None \<Rightarrow> None
      | Some h \<Rightarrow>
        if \<not> is_local E h then
          (case removefile E h (ddir d @ ''/'' @ wstr_to_utf8 (w2u E) delFile) (world d) of (r, w) \<Rightarrow>
             if r \<noteq> 0 then Some (-1, snd (refreshDir E (d\<lparr>world := w\<rparr>)))
             else Some (0, remove_listed E delFile delIdx (d\<lparr>world := w\<rparr>)))
        else
          (case shell_delete E (shell_path (u2w E) (ddir d) delFile) shift (world d) of
             ((r, aborted), w) \<Rightarrow>
             if r \<noteq> 0 then Some (-1, snd (refreshDir E (d\<lparr>world := w\<rparr>)))
             else if aborted then Some (-1, d\<lparr>world := w\<rparr>)
             else Some (0, remove_listed E delFile delIdx (d\<lparr>world := w\<rparr>))))"

section \<open>The invariant\<close>

definition cmp_order :: "(wstr \<Rightarrow> wstr \<Rightarrow> int) \<Rightarrow> bool" where
  "cmp_order le \<longleftrightarrow> (\<forall>a b. le a b < 0 \<longleftrightarrow> le b a > 0) \<and>
     (\<forall>a b c. le a b \<le> 0 \<longrightarrow> le b c \<le> 0 \<longrightarrow> le a c \<le> 0)"

definition in_order :: "(wstr \<Rightarrow> wstr \<Rightarrow> int) \<Rightarrow> wstr list \<Rightarrow> bool" where
  "in_order le xs \<longleftrightarrow> sorted_wrt (\<lambda>a b. le a b \<le> 0) xs"

definition doc_ok :: "('h, 'w, 'f, 'img) env \<Rightarrow> ('h, 'w, 'img) doc \<Rightarrow> bool" where
  "doc_ok E d \<longleftrightarrow> (diridx d = -1 \<or> (0 \<le> diridx d \<and> diridx d < int (length (dirfiles d)))) \<and>
     (diridx d \<noteq> -1 \<longrightarrow> unifs d \<noteq> None) \<and> (image d \<noteq> None \<longrightarrow> unifs d \<noteq> None) \<and>
     (animated d \<longrightarrow> image d \<noteq> None) \<and> in_order (cmp E) (dirfiles d)"

definition panel_ok :: "('h, 'w, 'f, 'img) env \<Rightarrow> ('h, 'w, 'img) doc \<Rightarrow> bool" where
  "panel_ok E d \<longleftrightarrow> (\<forall>fl. flist d = Some fl \<longrightarrow> in_sync (cmp E) (dirfiles d) fl)"

lemma insert_sorted_mset: "mset (insert_sorted le x ys) = {#x#} + mset ys"
  by (induction le x ys rule: insert_sorted.induct) auto

lemma natural_sort_mset [simp]: "mset (natural_sort le xs) = mset xs"
  by (induction xs) (auto simp: natural_sort_def insert_sorted_mset)

lemma natural_sort_set [simp]: "set (natural_sort le xs) = set xs"
  by (metis natural_sort_mset set_mset_mset)

lemma insert_sorted_order:
  assumes "cmp_order le" and "in_order le ys"
  shows "in_order le (insert_sorted le x ys)"
  using assms(2)
proof (induction ys)
  case Nil
  then show ?case by (simp add: in_order_def)
next
  case (Cons y ys)
  have neg: "le a b \<le> 0" if "\<not> le b a < 0" for a b
    using assms(1) that unfolding cmp_order_def by (metis linorder_not_le)
  have tr: "le a c \<le> 0" if "le a b \<le> 0" "le b c \<le> 0" for a b c
    using assms(1) that unfolding cmp_order_def by blast
  have "set (insert_sorted le x ys) = insert x (set ys)"
    using insert_sorted_mset[of le x ys] by (metis set_mset_add_mset_insert set_mset_mset add_mset_add_single add.commute)
  moreover have ys: "in_order le ys" "\<forall>z\<in>set ys. le y z \<le> 0"
    using Cons.prems by (simp_all add: in_order_def)
  ultimately show ?case
  proof (cases "le y x < 0")
    case True
    with ys Cons.IH \<open>set _ = _\<close> show ?thesis by (simp add: in_order_def)
  next
    case False
    then have "le x y \<le> 0" by (rule neg)
    with ys tr have "\<forall>z\<in>set (y # ys). le x z \<le> 0" by auto
    with False Cons.prems show ?thesis by (simp add: in_order_def)
  qed
qed

lemma natural_sort_order: "cmp_order le \<Longrightarrow> in_order le (natural_sort le xs)"
  by (induction xs) (auto simp: natural_sort_def insert_sorted_order, simp add: in_order_def)

lemma in_order_Nil [simp]: "in_order le []"
  by (simp add: in_order_def)

lemma index_or_find:
  "index_or k (find_first P xs) = i \<Longrightarrow> i = k \<or> (0 \<le> i \<and> i < int (length xs) \<and> P (xs ! nat i))"
  by (auto simp: index_or_def find_first_Some split: option.splits)

lemma with_view_fields [simp]:
  "unifs (with_view e d) = unifs d" "image (with_view e d) = image d"
  "diridx (with_view e d) = diridx d" "dirfiles (with_view e d) = dirfiles d"
  "animated (with_view e d) = animated d" "ddir (with_view e d) = ddir d"
  "dpath (with_view e d) = dpath d" "flist (with_view e d) = flist d"
  "world (with_view e d) = world d" "view (with_view e d) = view d"
  "curFile (with_view e d) = curFile d" "prevFile (with_view e d) = prevFile d"
  by (simp_all add: with_view_def emit_def)

lemma on_list_fields [simp]:
  "unifs (on_list f d) = unifs d" "image (on_list f d) = image d"
  "diridx (on_list f d) = diridx d" "dirfiles (on_list f d) = dirfiles d"
  "animated (on_list f d) = animated d" "ddir (on_list f d) = ddir d"
  "dpath (on_list f d) = dpath d" "world (on_list f d) = world d" "view (on_list f d) = view d"
  "curFile (on_list f d) = curFile d" "prevFile (on_list f d) = prevFile d"
  by (simp_all add: on_list_def)

lemma ok_same:
  "unifs d' = unifs d \<Longrightarrow> image d' = image d \<Longrightarrow> diridx d' = diridx d \<Longrightarrow>
   dirfiles d' = dirfiles d \<Longrightarrow> animated d' = animated d \<Longrightarrow> doc_ok E d \<Longrightarrow> doc_ok E d'"
  by (simp add: doc_ok_def)

lemma doc_close_fields [simp]:
  "unifs (doc_close d) = None" "image (doc_close d) = None" "diridx (doc_close d) = -1"
  "animated (doc_close d) = False" "dirfiles (doc_close d) = dirfiles d"
  "ddir (doc_close d) = ddir d" "dpath (doc_close d) = dpath d" "flist (doc_close d) = flist d"
  "world (doc_close d) = world d" "view (doc_close d) = view d"
  "curFile (doc_close d) = curFile d" "prevFile (doc_close d) = prevFile d"
  by (simp_all add: doc_close_def Let_def)

lemma clear_fields [simp]:
  "unifs (clearOpenState d) = None" "image (clearOpenState d) = None"
  "diridx (clearOpenState d) = -1" "dirfiles (clearOpenState d) = []"
  "animated (clearOpenState d) = False" "world (clearOpenState d) = world d"
  "dpath (clearOpenState d) = []" "ddir (clearOpenState d) = []"
  by (simp_all add: clearOpenState_def)

lemma give_up_fields [simp]:
  "unifs (give_up m d) = None" "image (give_up m d) = None" "diridx (give_up m d) = -1"
  "dirfiles (give_up m d) = []" "animated (give_up m d) = False" "dpath (give_up m d) = []"
  "flist (give_up m d) = flist (clearOpenState d)"
  by (simp_all add: give_up_def emit_def)

lemma ok_close: "doc_ok E d \<Longrightarrow> doc_ok E (doc_close d)"
  by (simp add: doc_ok_def)

lemma ok_give_up: "doc_ok E (give_up m d)"
  by (simp add: doc_ok_def)

lemma panel_same: "flist d' = flist d \<Longrightarrow> dirfiles d' = dirfiles d \<Longrightarrow> panel_ok E d' = panel_ok E d"
  by (simp add: panel_ok_def)

lemma panel_rebuild: "panel_ok E (on_list fl_rebuild d)"
  by (auto simp: panel_ok_def on_list_def sync_rebuild)

lemma panel_give_up: "panel_ok E (give_up m d)"
  using panel_rebuild[of E
      "(doc_close d)\<lparr>dpath := [], ddir := [], dirfiles := [], prevFile := [], curFile := []\<rparr>"]
  by (simp add: panel_ok_def clearOpenState_def)

section \<open>open keeps the invariant\<close>

lemma retry_Inl: "retry_remote E h rt failed act rd = Inl e \<Longrightarrow> \<exists>d. e = give_up msg_reconnect d"
  by (auto simp: retry_remote_def split: prod.splits if_splits)

lemma reconnect_world: "reconnectRemoteOnce E h d = (ok, d') \<Longrightarrow> \<exists>w. d' = d\<lparr>world := w\<rparr>"
  by (cases d) (auto simp: reconnectRemoteOnce_def split: if_splits prod.splits)

lemma retry_Inr:
  assumes "retry_remote E h rt failed act (r, d) = Inr (r', rt', d')"
  shows "(r', d') = (r, d) \<or> (\<exists>w. (r', d') = act (d\<lparr>world := w\<rparr>))"
proof (cases "failed r \<and> \<not> rt \<and> shouldReconnectRemote E h d")
  case False
  with assms show ?thesis by (auto simp: retry_remote_def)
next
  case True
  obtain ok d1 where rc: "reconnectRemoteOnce E h d = (ok, d1)" by fastforce
  from reconnect_world[OF this] obtain w where "d1 = d\<lparr>world := w\<rparr>" by blast
  with True rc assms have "act (d\<lparr>world := w\<rparr>) = (r', d')"
    by (auto simp: retry_remote_def split: if_splits prod.splits)
  then show ?thesis by metis
qed

lemma do_open_world: "do_open E h p d = (f, d') \<Longrightarrow> \<exists>w. d' = d\<lparr>world := w\<rparr>"
  by (auto simp: do_open_def split: prod.splits)

lemma retry_open:
  assumes "retry_remote E h rt failed (do_open E h p) (do_open E h p d) = Inr (r, rt', d')"
  shows "\<exists>w. d' = d\<lparr>world := w\<rparr>"
proof -
  obtain f d1 where o: "do_open E h p d = (f, d1)" by fastforce
  from do_open_world[OF o] obtain w where d1: "d1 = d\<lparr>world := w\<rparr>" by blast
  from retry_Inr[OF assms[unfolded o]] show ?thesis
  proof
    assume "(r, d') = (f, d1)"
    with d1 show ?thesis by auto
  next
    assume "\<exists>w. (r, d') = do_open E h p (d1\<lparr>world := w\<rparr>)"
    then obtain w' where "do_open E h p (d1\<lparr>world := w'\<rparr>) = (r, d')" by metis
    from do_open_world[OF this] d1 show ?thesis by auto
  qed
qed

text \<open>What a rescan may change, and what it establishes.\<close>

definition rescanned :: "('h, 'w, 'f, 'img) env \<Rightarrow> ('h, 'w, 'img) doc \<Rightarrow> ('h, 'w, 'img) doc \<Rightarrow> bool" where
  "rescanned E d d' \<longleftrightarrow>
     unifs d' = unifs d \<and> image d' = image d \<and> animated d' = animated d \<and> flist d' = flist d \<and>
     dpath d' = dpath d \<and> curFile d' = curFile d \<and> prevFile d' = prevFile d \<and> view d' = view d \<and>
     in_order (cmp E) (dirfiles d') \<and>
     (diridx d' = -1 \<or> (0 \<le> diridx d' \<and> diridx d' < int (length (dirfiles d'))))"

lemma rescanned_same:
  assumes "rescanned E d d'"
  shows "unifs d' = unifs d" "image d' = image d" "animated d' = animated d" "flist d' = flist d"
    "dpath d' = dpath d" "curFile d' = curFile d" "prevFile d' = prevFile d" "view d' = view d"
  using assms by (simp_all add: rescanned_def)

lemma rescanned_order:
  assumes "rescanned E d d'"
  shows "in_order (cmp E) (dirfiles d')"
    "diridx d' = -1 \<or> (0 \<le> diridx d' \<and> diridx d' < int (length (dirfiles d')))"
  using assms by (auto simp: rescanned_def)

lemma rescanned_world: "rescanned E (d\<lparr>world := w\<rparr>) d' \<Longrightarrow> rescanned E d d'"
  by (simp add: rescanned_def)

lemma rescanned_trans: "rescanned E d d1 \<Longrightarrow> rescanned E d1 d2 \<Longrightarrow> rescanned E d d2"
  by (simp add: rescanned_def)

lemma updateDir_rescans:
  assumes "cmp_order (cmp E)" and "updateDir E h p False d = (r, d')"
  shows "rescanned E d d'"
proof -
  have I: "index_or (-1) (find_first P fs) = -1 \<or> (0 \<le> index_or (-1) (find_first P fs) \<and>
      index_or (-1) (find_first P fs) < int (length fs))" for P and fs :: "wstr list"
    using index_or_find[of "-1" P fs] by auto
  show ?thesis
  proof (cases "path_file p = []")
    case True
    with assms(2) have "d' = d\<lparr>ddir := [], dirfiles := [], diridx := -1\<rparr>"
      by (simp add: updateDir_def Let_def)
    then show ?thesis by (simp add: rescanned_def)
  next
    case False
    obtain iter w where rd: "readdir E h (path_dir p) (world d) = (iter, w)" by fastforce
    show ?thesis
    proof (cases iter)
      case None
      with False rd assms(2) have
        "d' = d\<lparr>ddir := [], dirfiles := [], diridx := -1, world := w\<rparr>"
        by (auto simp: updateDir_def Let_def)
      then show ?thesis by (simp add: rescanned_def)
    next
      case (Some ents)
      with False rd assms(2) have
        "d' = d\<lparr>world := w, ddir := path_dir p, dirfiles := dir_images E ents,
          diridx := index_or (-1) (find_first
            (wcsicmp_eq (map towlower (utf8_to_wstr (u2w E) (path_file p)))) (dir_images E ents))\<rparr>"
        by (simp add: updateDir_def Let_def)
      then show ?thesis
        using natural_sort_order[OF assms(1)] I by (simp add: rescanned_def dir_images_def)
    qed
  qed
qed

lemma retry_update:
  assumes "cmp_order (cmp E)"
    and "retry_remote E h rt failed (updateDir E h p False) (updateDir E h p False d) =
      Inr (r, rt', d')"
  shows "rescanned E d d'"
proof -
  obtain q d1 where u: "updateDir E h p False d = (q, d1)" by fastforce
  note d1 = updateDir_rescans[OF assms(1) u]
  from retry_Inr[OF assms(2)[unfolded u]] show ?thesis
  proof
    assume "(r, d') = (q, d1)"
    with d1 show ?thesis by simp
  next
    assume "\<exists>w. (r, d') = updateDir E h p False (d1\<lparr>world := w\<rparr>)"
    then obtain w where "updateDir E h p False (d1\<lparr>world := w\<rparr>) = (r, d')" by metis
    from rescanned_trans[OF d1 rescanned_world[OF updateDir_rescans[OF assms(1) this]]]
    show ?thesis .
  qed
qed

text \<open>Step 1: how it can return, and what holds when it goes on.\<close>

text \<open>The two ways out of step 1 that leave the directory in place.\<close>

definition gave_up :: "('h, 'w, 'f, 'img) env \<Rightarrow> ('h, 'w, 'img) doc \<Rightarrow> ('h, 'w, 'img) doc \<Rightarrow> bool" where
  "gave_up E d e \<longleftrightarrow> (\<exists>m d'. e = give_up m d') \<or>
      (\<exists>d'. rescanned E d d' \<and> e = on_list (\<lambda>v. fl_smoothRebuild (cmp E) v (dirfiles d)) d')"

definition found_neighbour :: "('h, 'w, 'f, 'img) env \<Rightarrow> ('h, 'w, 'img) doc \<Rightarrow> 'f opened \<Rightarrow>
    ('h, 'w, 'img) doc \<Rightarrow> bool" where
  "found_neighbour E d o1 d' \<longleftrightarrow> (case o1 of (f, sc, rt, old, tw, tf) \<Rightarrow>
      rescanned E d d' \<and> sc \<and> old = dirfiles d \<and> 0 \<le> diridx d' \<and>
      tw = dirfiles d' ! nat (diridx d') \<and> tf = wstr_to_utf8 (w2u E) tw)"

lemma fallback_target_bounds:
  "files \<noteq> [] \<Longrightarrow> 0 \<le> fallback_target le hint tw files \<and>
     fallback_target le hint tw files < int (length files)"
proof -
  assume "files \<noteq> []"
  moreover define pos where
    "pos = index_or (int (length files)) (find_first (\<lambda>f. le f tw \<ge> 0) files)"
  moreover have "0 \<le> pos \<and> pos \<le> int (length files)"
    using index_or_find[OF pos_def[symmetric]] by auto
  moreover have "0 < int (length files)" using \<open>files \<noteq> []\<close> by simp
  ultimately show ?thesis by (auto simp: fallback_target_def Let_def)
qed

lemma neighbour_results:
  assumes "rescanned E d0 d" and "0 \<le> t" and "t < int (length (dirfiles d))"
  shows "case open_neighbour E h (dirfiles d0) rt t d of
      Inl (c, e) \<Rightarrow> gave_up E d0 e | Inr (o1, d') \<Rightarrow> found_neighbour E d0 o1 d'"
proof -
  define d1 where "d1 = d\<lparr>diridx := t\<rparr>"
  define tf where "tf = wstr_to_utf8 (w2u E) (dirfiles d ! nat t)"
  define np where "np = ddir d1 @ ''/'' @ tf"
  have d1: "rescanned E d0 d1" using assms by (simp add: rescanned_def d1_def)
  show ?thesis
  proof (cases "retry_remote E h rt (\<lambda>f. f = None) (do_open E h np) (do_open E h np d1)")
    case (Inl e)
    from retry_Inl[OF Inl] obtain d' where "e = give_up msg_reconnect d'" by blast
    with Inl show ?thesis
      by (auto simp: open_neighbour_def Let_def d1_def[symmetric] tf_def[symmetric]
          np_def[symmetric, simplified] gave_up_def)
  next
    case (Inr y)
    obtain uf rt2 d2 where y: "y = (uf, rt2, d2)" by (cases y) auto
    from retry_open[OF Inr[unfolded y]] obtain w where "d2 = d1\<lparr>world := w\<rparr>" by blast
    then have "rescanned E d0 d2" "diridx d2 = t" "dirfiles d2 = dirfiles d"
      using d1 by (simp_all add: rescanned_def d1_def)
    with Inr y assms(2) show ?thesis
      by (cases uf) (auto simp: open_neighbour_def Let_def d1_def[symmetric] tf_def[symmetric]
          np_def[symmetric, simplified] gave_up_def found_neighbour_def)
  qed
qed

lemma fallback_results:
  assumes "cmp_order (cmp E)"
  shows "case open_fallback E h p hint rt tw d of
      Inl (c, e) \<Rightarrow> gave_up E d e | Inr (o1, d') \<Rightarrow> found_neighbour E d o1 d'"
proof (cases "retry_remote E h rt (\<lambda>r. r \<noteq> 0) (updateDir E h p False) (updateDir E h p False d)")
  case (Inl e)
  from retry_Inl[OF Inl] obtain d' where "e = give_up msg_reconnect d'" by blast
  with Inl show ?thesis by (auto simp: open_fallback_def gave_up_def)
next
  case (Inr z)
  obtain r rt1 d1 where z: "z = (r, rt1, d1)" by (cases z) auto
  note d1 = retry_update[OF assms Inr[unfolded z]]
  show ?thesis
  proof (cases "r \<noteq> 0 \<or> dirfiles d1 = []")
    case True
    with Inr z show ?thesis by (auto simp: open_fallback_def gave_up_def)
  next
    case False
    then have t: "0 \<le> fallback_target (cmp E) hint tw (dirfiles d1)"
      "fallback_target (cmp E) hint tw (dirfiles d1) < int (length (dirfiles d1))"
      using fallback_target_bounds by blast+
    from neighbour_results[OF d1 t, of h rt1] False Inr z show ?thesis
      by (simp add: open_fallback_def)
  qed
qed

text \<open>Step 1 without the fallback only runs the file system.\<close>

definition opened_directly :: "('h, 'w, 'f, 'img) env \<Rightarrow> string \<Rightarrow> ('h, 'w, 'img) doc \<Rightarrow> 'f opened \<Rightarrow>
    ('h, 'w, 'img) doc \<Rightarrow> bool" where
  "opened_directly E p d o1 d' \<longleftrightarrow> (case o1 of (f, sc, rt, old, tw, tf) \<Rightarrow>
      (\<exists>w. d' = d\<lparr>world := w\<rparr>) \<and> \<not> sc \<and> tw = utf8_to_wstr (u2w E) (path_file p))"

lemma gave_up_world: "gave_up E (d\<lparr>world := w\<rparr>) e \<Longrightarrow> gave_up E d e"
  unfolding gave_up_def by (auto dest: rescanned_world)

lemma found_world: "found_neighbour E (d\<lparr>world := w\<rparr>) o1 d' \<Longrightarrow> found_neighbour E d o1 d'"
  unfolding found_neighbour_def by (auto dest: rescanned_world)

lemma step1_results:
  assumes "cmp_order (cmp E)"
  shows "case open_step1 E h p hint d of
      Inl (c, e) \<Rightarrow> (\<exists>w. e = d\<lparr>world := w\<rparr>) \<or> (\<exists>m d'. e = give_up m d') \<or>
        (hint \<noteq> None \<and> gave_up E d e)
    | Inr (o1, d') \<Rightarrow> opened_directly E p d o1 d' \<or> (hint \<noteq> None \<and> found_neighbour E d o1 d')"
proof (cases "retry_remote E h False (\<lambda>f. f = None) (do_open E h p) (do_open E h p d)")
  case (Inl e)
  from retry_Inl[OF Inl] obtain d' where "e = give_up msg_reconnect d'" by blast
  with Inl show ?thesis by (auto simp: open_step1_def Let_def)
next
  case (Inr y)
  obtain uf rt d1 where y: "y = (uf, rt, d1)" by (cases y) auto
  from retry_open[OF Inr[unfolded y]] obtain w where d1: "d1 = d\<lparr>world := w\<rparr>" by blast
  show ?thesis
  proof (cases uf)
    case (Some f)
    with Inr y d1 show ?thesis by (auto simp: open_step1_def Let_def opened_directly_def)
  next
    case None
    show ?thesis
    proof (cases hint)
      case None
      with \<open>uf = None\<close> Inr y d1 show ?thesis by (auto simp: open_step1_def Let_def)
    next
      case (Some k)
      let ?tw = "utf8_to_wstr (u2w E) (path_file p)"
      have F: "open_step1 E h p hint d = open_fallback E h p k rt ?tw d1"
        using Inr y \<open>uf = None\<close> Some by (simp add: open_step1_def Let_def)
      from fallback_results[OF assms, where h = h and p = p and hint = k and rt = rt and
          tw = ?tw and d = d1] Some d1 show ?thesis
        unfolding F by (auto split: sum.splits prod.splits dest: gave_up_world found_world)
    qed
  qed
qed

lemma ok_gave_up:
  assumes "doc_ok E d" and "unifs d \<noteq> None" and "gave_up E d e"
  shows "doc_ok E e"
  using assms(3) unfolding gave_up_def
proof (elim disjE exE conjE)
  fix d' assume r: "rescanned E d d'" and e: "e = on_list (\<lambda>v. fl_smoothRebuild (cmp E) v (dirfiles d)) d'"
  from r assms(1,2) have "doc_ok E d'" by (auto simp: rescanned_def doc_ok_def)
  then show ?thesis unfolding e by (rule ok_same[rotated -1]) simp_all
qed (simp add: ok_give_up)

lemma panel_smooth:
  assumes "cmp_trans (cmp E)" and "panel_ok E d" and "flist d' = flist d"
  shows "panel_ok E (on_list (\<lambda>v. fl_smoothRebuild (cmp E) v (dirfiles d)) d')"
  using assms by (auto simp: panel_ok_def on_list_def sync_smooth)

lemma panel_gave_up:
  "cmp_trans (cmp E) \<Longrightarrow> panel_ok E d \<Longrightarrow> gave_up E d e \<Longrightarrow> panel_ok E e"
  unfolding gave_up_def by (auto simp: panel_give_up panel_smooth rescanned_same)

text \<open>What step 1 hands on, as far as the later steps need it.\<close>

definition step1_ok :: "('h, 'w, 'f, 'img) env \<Rightarrow> ('h, 'w, 'img) doc \<Rightarrow> 'f opened \<Rightarrow>
    ('h, 'w, 'img) doc \<Rightarrow> bool" where
  "step1_ok E d o1 d' \<longleftrightarrow> (case o1 of (f, sc, rt, old, tw, tf) \<Rightarrow>
      in_order (cmp E) (dirfiles d') \<and> flist d' = flist d \<and> curFile d' = curFile d \<and>
      (if sc then old = dirfiles d else dirfiles d' = dirfiles d \<and> ddir d' = ddir d))"

lemma step1_ok_results:
  "doc_ok E d \<Longrightarrow> opened_directly E p d o1 d' \<or> found_neighbour E d o1 d' \<Longrightarrow> step1_ok E d o1 d'"
  by (auto simp: step1_ok_def opened_directly_def found_neighbour_def doc_ok_def rescanned_def)

lemma show_fields [simp]:
  "unifs (open_show E q c img d) = unifs d" "image (open_show E q c img d) = Some img"
  "diridx (open_show E q c img d) = diridx d" "dirfiles (open_show E q c img d) = dirfiles d"
  "ddir (open_show E q c img d) = ddir d" "flist (open_show E q c img d) = flist d"
  "dpath (open_show E q c img d) = q" "curFile (open_show E q c img d) = curFile d"
  by (auto simp: open_show_def Let_def split: prod.splits)

lemma rescan_results:
  assumes "cmp_order (cmp E)" and "in_order (cmp E) (dirfiles d)" and "diridx d = -1"
  shows "case open_rescan E h p force sc rt old tw d of
      Inl e \<Rightarrow> (\<exists>m d'. e = give_up m d')
    | Inr (sc', old', d') \<Rightarrow> rescanned E d d' \<and>
        (if force \<and> \<not> sc then sc' \<and> old' = dirfiles d
         else sc' = sc \<and> old' = old \<and> dirfiles d' = dirfiles d \<and> ddir d' = ddir d \<and>
           diridx d' = index_or (-1) (find_first (\<lambda>f. f = tw) (dirfiles d)))"
proof (cases "force \<and> \<not> sc")
  case False
  have "index_or (-1) (find_first (\<lambda>f. f = tw) (dirfiles d)) = -1 \<or>
      (0 \<le> index_or (-1) (find_first (\<lambda>f. f = tw) (dirfiles d)) \<and>
       index_or (-1) (find_first (\<lambda>f. f = tw) (dirfiles d)) < int (length (dirfiles d)))"
    using index_or_find[of "-1" "\<lambda>f. f = tw" "dirfiles d"] by auto
  then show ?thesis using False assms(2,3)
    by (cases force; cases sc) (simp_all add: open_rescan_def rescanned_def)
next
  case True
  show ?thesis
  proof (cases "retry_remote E h rt (\<lambda>r. r \<noteq> 0) (updateDir E h p False) (updateDir E h p False d)")
    case (Inl e)
    from retry_Inl[OF Inl] obtain d' where "e = give_up msg_reconnect d'" by blast
    with Inl True show ?thesis by (auto simp: open_rescan_def Let_def)
  next
    case (Inr z)
    obtain r rt1 d1 where z: "z = (r, rt1, d1)" by (cases z) auto
    from retry_update[OF assms(1) Inr[unfolded z]] True Inr z show ?thesis
      by (auto simp: open_rescan_def Let_def)
  qed
qed

lemma finish_fields [simp]:
  "unifs (open_finish E pd pi sc old tw d) = unifs d"
  "image (open_finish E pd pi sc old tw d) = image d"
  "diridx (open_finish E pd pi sc old tw d) = diridx d"
  "dirfiles (open_finish E pd pi sc old tw d) = dirfiles d"
  "animated (open_finish E pd pi sc old tw d) = animated d"
  "dpath (open_finish E pd pi sc old tw d) = dpath d"
  "ddir (open_finish E pd pi sc old tw d) = ddir d"
  "curFile (open_finish E pd pi sc old tw d) = tw"
  by (simp_all add: open_finish_def Let_def)

lemma panel_on_list:
  "(\<And>fl. flist d = Some fl \<Longrightarrow> in_sync (cmp E) (dirfiles d) (f (Some (dirfiles d, diridx d)) fl)) \<Longrightarrow>
   panel_ok E (on_list f d)"
  by (auto simp: panel_ok_def on_list_def)

lemma finish_panel:
  assumes "cmp_trans (cmp E)" and "flist d = flist d0" and "panel_ok E d0"
    and "if sc then old = dirfiles d0 else dirfiles d = dirfiles d0"
  shows "panel_ok E (open_finish E pd pi sc old tw d)"
proof -
  have "panel_ok E (on_list (finish_list E b pi i sc old) d)" for b i
  proof (rule panel_on_list)
    fix fl assume "flist d = Some fl"
    with assms show "in_sync (cmp E) (dirfiles d)
        (finish_list E b pi i sc old (Some (dirfiles d, diridx d)) fl)"
      by (cases sc; cases b) (simp_all add: panel_ok_def finish_list_def sync_rebuild sync_move
          sync_smooth)
  qed
  then show ?thesis by (simp add: open_finish_def panel_ok_def)
qed

text \<open>Steps 2 to 4 after a file has been opened.\<close>

definition open_rest :: "('h, 'w, 'f, 'img) env \<Rightarrow> 'h \<Rightarrow> string \<Rightarrow> int \<Rightarrow> bool \<Rightarrow> string \<Rightarrow> int \<Rightarrow>
    'f opened \<Rightarrow> ('h, 'w, 'img) doc \<Rightarrow> im_code \<times> ('h, 'w, 'img) doc" where
  "open_rest E h p cmdid force pd pi o1 d1 =
     (case o1 of (uf, scanned, retried, oldFiles, tw, tf) \<Rightarrow>
           let d2 = (doc_close d1)\<lparr>unifs := Some h\<rparr>;
               fullPath = (if scanned then ddir d2 @ ''/'' @ tf else p) in
           (case open_decode E (getExt fullPath) uf (world d2) of
              (Inl res, w) \<Rightarrow> (res, d2\<lparr>world := w\<rparr>)
            | (Inr img, w) \<Rightarrow>
              let d3 = open_show E fullPath cmdid img (d2\<lparr>world := w\<rparr>) in
              (case open_rescan E h p force scanned retried oldFiles tw d3 of
                 Inl e \<Rightarrow> (IM_FAIL, e)
               | Inr (scanned1, old1, d4) \<Rightarrow>
                 (IM_OK, open_finish E pd pi scanned1 old1 tw d4))))"

lemma doc_open_rest:
  "doc_open E fs p cmdid force hint d =
     (case (case fs of None \<Rightarrow> unifs d | Some h \<Rightarrow> Some h) of
        None \<Rightarrow> (IM_READFILE_ERR, d)
      | Some h \<Rightarrow> (case open_step1 E h p hint d of Inl r \<Rightarrow> r
         | Inr (o1, d1) \<Rightarrow> open_rest E h p cmdid force (ddir d) (diridx d) o1 d1))"
  by (auto simp: doc_open_def open_rest_def Let_def split: option.splits sum.splits prod.splits)

lemma rest_results:
  assumes "cmp_order (cmp E)" and "step1_ok E d o1 d1"
    and "open_rest E h p cmdid force pd pi o1 d1 = (r, d')"
  shows "doc_ok E d' \<and> (unifs d' = Some h \<or> (\<exists>m e. d' = give_up m e)) \<and>
    (cmp_trans (cmp E) \<longrightarrow> panel_ok E d \<longrightarrow> image d' \<noteq> None \<or> \<not> fst (snd o1) \<longrightarrow> panel_ok E d')"
proof -
  obtain uf sc rt old tw tf where o1: "o1 = (uf, sc, rt, old, tw, tf)" by (cases o1) auto
  let ?d2 = "(doc_close d1)\<lparr>unifs := Some h\<rparr>"
  define full where "full = (if sc then ddir ?d2 @ ''/'' @ tf else p)"
  have s1: "in_order (cmp E) (dirfiles d1)" "flist d1 = flist d"
    "if sc then old = dirfiles d else dirfiles d1 = dirfiles d"
    using assms(2) by (simp_all add: step1_ok_def o1 split: if_splits)
  obtain dec w where dec: "open_decode E (getExt full) uf (world d1) = (dec, w)" by fastforce
  show ?thesis
  proof (cases dec)
    case (Inl res)
    with dec assms(3) have d': "d' = ?d2\<lparr>world := w\<rparr>"
      by (simp add: open_rest_def o1 Let_def full_def[symmetric])
    with s1 show ?thesis by (auto simp: doc_ok_def panel_ok_def o1)
  next
    case (Inr img)
    define d3 where "d3 = open_show E full cmdid img (?d2\<lparr>world := w\<rparr>)"
    have d3: "in_order (cmp E) (dirfiles d3)" "diridx d3 = -1" "unifs d3 = Some h"
      "image d3 = Some img" "flist d3 = flist d" "dirfiles d3 = dirfiles d1"
      using s1 by (simp_all add: d3_def)
    have R: "open_rest E h p cmdid force pd pi o1 d1 =
      (case open_rescan E h p force sc rt old tw d3 of Inl e \<Rightarrow> (IM_FAIL, e)
       | Inr (sc1, old1, d4) \<Rightarrow> (IM_OK, open_finish E pd pi sc1 old1 tw d4))"
      using dec Inr by (simp add: open_rest_def o1 Let_def full_def[symmetric] d3_def)
    note rs = rescan_results[OF assms(1) d3(1,2), where h = h and p = p and force = force and
        sc = sc and rt = rt and old = old and tw = tw]
    show ?thesis
    proof (cases "open_rescan E h p force sc rt old tw d3")
      case (Inl e)
      with rs R assms(3) show ?thesis by (auto simp: ok_give_up panel_give_up)
    next
      case (Inr z)
      obtain sc1 old1 d4 where z: "z = (sc1, old1, d4)" by (cases z) auto
      from rs Inr z have d4: "rescanned E d3 d4"
        "if force \<and> \<not> sc then sc1 \<and> old1 = dirfiles d3
         else sc1 = sc \<and> old1 = old \<and> dirfiles d4 = dirfiles d3"
        by (auto split: if_splits)
      have eq: "r = IM_OK" "d' = open_finish E pd pi sc1 old1 tw d4"
        using R assms(3) Inr z by simp_all
      have "doc_ok E d'" "unifs d' = Some h"
        using d4(1) d3 by (auto simp: eq doc_ok_def rescanned_def)
      moreover have "panel_ok E d'" if "cmp_trans (cmp E)" "panel_ok E d"
        unfolding eq
      proof (rule finish_panel[OF that(1) _ that(2)])
        show "flist d4 = flist d" using d4(1) d3 by (simp add: rescanned_same)
        show "if sc1 then old1 = dirfiles d else dirfiles d4 = dirfiles d"
          using d4(2) s1(3) d3(6) by (cases force; cases sc) auto
      qed
      ultimately show ?thesis by simp
    qed
  qed
qed

lemma open_ok:
  assumes "cmp_order (cmp E)" and "doc_ok E d" and "hint = None \<or> fs = None \<or> unifs d \<noteq> None"
    and "doc_open E fs p cmdid force hint d = (r, d')"
  shows "doc_ok E d' \<and>
    (cmp_trans (cmp E) \<longrightarrow> panel_ok E d \<longrightarrow> image d' \<noteq> None \<or> hint = None \<longrightarrow> panel_ok E d')"
proof (cases "case fs of None \<Rightarrow> unifs d | Some h \<Rightarrow> Some h")
  case None
  with assms(2,4) show ?thesis by (auto simp: doc_open_rest)
next
  case (Some h)
  with assms(3) have u: "hint \<noteq> None \<Longrightarrow> unifs d \<noteq> None"
    by (cases fs; cases "unifs d") auto
  note s1 = step1_results[OF assms(1), where h = h and p = p and hint = hint and d = d]
  show ?thesis
  proof (cases "open_step1 E h p hint d")
    case (Inl ce)
    obtain c e where ce: "ce = (c, e)" by fastforce
    have d': "d' = e" using assms(4) Some Inl ce by (simp add: doc_open_rest)
    from s1 Inl ce consider w where "e = d\<lparr>world := w\<rparr>" | m q where "e = give_up m q"
      | "hint \<noteq> None" "gave_up E d e" by auto
    then show ?thesis
    proof cases
      case 1
      have "doc_ok E d'" unfolding d' 1 by (rule ok_same[OF _ _ _ _ _ assms(2)]) simp_all
      then show ?thesis unfolding d' 1 by (simp add: panel_ok_def)
    next
      case 2
      then show ?thesis by (simp add: d' ok_give_up panel_give_up)
    next
      case 3
      with assms(2) u show ?thesis by (simp add: d' ok_gave_up panel_gave_up)
    qed
  next
    case (Inr z)
    obtain o1 d1 where z: "z = (o1, d1)" by fastforce
    from s1 Inr z have s: "opened_directly E p d o1 d1 \<or> (hint \<noteq> None \<and> found_neighbour E d o1 d1)"
      by simp
    then have "step1_ok E d o1 d1" using step1_ok_results[OF assms(2)] by blast
    moreover have "open_rest E h p cmdid force (ddir d) (diridx d) o1 d1 = (r, d')"
      using assms(4) Some Inr z by (simp add: doc_open_rest)
    ultimately have "doc_ok E d' \<and>
      (cmp_trans (cmp E) \<longrightarrow> panel_ok E d \<longrightarrow> image d' \<noteq> None \<or> \<not> fst (snd o1) \<longrightarrow> panel_ok E d')"
      using rest_results[OF assms(1)] by blast
    moreover have "hint = None \<Longrightarrow> \<not> fst (snd o1)"
      using s by (auto simp: opened_directly_def)
    ultimately show ?thesis by blast
  qed
qed

lemma open_ok_snd:
  "cmp_order (cmp E) \<Longrightarrow> doc_ok E d \<Longrightarrow> hint = None \<or> fs = None \<or> unifs d \<noteq> None \<Longrightarrow>
   doc_ok E (snd (doc_open E fs p cmdid force hint d))"
  using open_ok[of E d hint fs p cmdid force] by (metis prod.collapse)

lemma reopen_ok:
  "cmp_order (cmp E) \<Longrightarrow> doc_ok E d \<Longrightarrow>
   doc_ok E (snd (doc_open E (unifs d) p cmdid force hint d))"
  using open_ok_snd[of E d hint "unifs d" p cmdid force] by (cases "unifs d") auto

section \<open>The user's operations\<close>

lemma nav_ok:
  assumes "cmp_order (cmp E)" and "doc_ok E d"
  shows "doc_ok E (snd (navigate E cmd d))" "doc_ok E (snd (refreshDir E d))"
  using reopen_ok[OF assms]
  by (simp_all add: navigate_def refreshDir_def Let_def assms(2) split_beta)

lemma in_order_erase: "in_order le xs \<Longrightarrow> in_order le (erase_at i xs)"
  by (simp add: in_order_def sorted_wrt_erase_at)

lemma remove_listed_ok:
  assumes "cmp_order (cmp E)" and "doc_ok E d"
  shows "doc_ok E (remove_listed E f i d)"
proof (cases "erase_at (nat i) (dirfiles d) = []")
  case True
  then show ?thesis by (simp add: remove_listed_def Let_def doc_ok_def)
next
  case False
  let ?d2 = "on_list (\<lambda>v. fl_removeItem v (nat i) (-1))
      (d\<lparr>dirfiles := erase_at (nat i) (dirfiles d), diridx := -1\<rparr>)"
  have "doc_ok E ?d2" using assms(2) by (simp add: doc_ok_def in_order_erase)
  from reopen_ok[OF assms(1) this] False show ?thesis
    by (simp add: remove_listed_def Let_def)
qed

lemma remove_ok:
  assumes "cmp_order (cmp E)" and "doc_ok E d"
  shows "\<exists>r d'. removeCurrentFile E shift d = Some (r, d') \<and> doc_ok E d'"
proof (cases "diridx d < 0 \<or> diridx d \<ge> int (length (dirfiles d))")
  case True
  with assms(2) show ?thesis by (simp add: removeCurrentFile_def)
next
  case False
  then obtain h where h: "unifs d = Some h" using assms(2) by (auto simp: doc_ok_def)
  have w: "doc_ok E (d\<lparr>world := w\<rparr>)" for w by (rule ok_same[OF _ _ _ _ _ assms(2)]) simp_all
  note R = nav_ok(2)[OF assms(1) w] remove_listed_ok[OF assms(1) w]
  show ?thesis
  proof (cases "is_local E h")
    case True
    obtain r ab w where s: "shell_delete E (shell_path (u2w E) (ddir d)
        (dirfiles d ! nat (diridx d))) shift (world d) = ((r, ab), w)"
      by (metis prod.collapse)
    with True False h R w show ?thesis by (auto simp: removeCurrentFile_def Let_def)
  next
    case local: False
    obtain r w where s: "removefile E h (ddir d @ ''/'' @
        wstr_to_utf8 (w2u E) (dirfiles d ! nat (diridx d))) (world d) = (r, w)"
      by fastforce
    then show ?thesis using local False h R w by (auto simp: removeCurrentFile_def Let_def)
  qed
qed

text \<open>
  The operations of the user interface on the document: opening by name (with a new file
  system), opening from the panel or the slide show of a folder, a slide of a custom list (on a
  local file system, MainWnd.cpp 901-907), navigation, refresh, delete, save and close.  The
  slide of a custom list is taken here only while the document has a file system: without one
  it can leave an index and no file system, see \<open>slide_without_file_system\<close>.
\<close>

inductive doc_step :: "('h, 'w, 'f, 'img) env \<Rightarrow> ('h, 'w, 'img) doc \<Rightarrow> ('h, 'w, 'img) doc \<Rightarrow> bool"
  for E where
  by_name: "doc_step E d (snd (doc_open E (Some h) p c True None d))"
| by_list: "doc_step E d (snd (doc_open E None p c False (Some k) d))"
| by_slide: "unifs d \<noteq> None \<Longrightarrow>
    doc_step E d (snd (doc_open E (Some h) p (-1) False (Some 1) d))"
| by_nav: "doc_step E d (snd (navigate E cmd d))"
| by_refresh: "doc_step E d (snd (refreshDir E d))"
| by_delete: "removeCurrentFile E shift d = Some (r, d') \<Longrightarrow> doc_step E d d'"
| by_save: "saveAsLocal E q d = Some (r, l, d') \<Longrightarrow> doc_step E d d'"
| by_close: "doc_step E d (doc_close d)"
| by_clear: "doc_step E d (clearOpenState d)"

lemma save_world: "saveAsLocal E q d = Some (r, l, d') \<Longrightarrow> \<exists>w. d' = d\<lparr>world := w\<rparr>"
  by (cases d) (auto simp: saveAsLocal_def do_open_def split: option.splits if_splits prod.splits)

lemma doc_step_ok: "doc_step E d d' \<Longrightarrow> cmp_order (cmp E) \<Longrightarrow> doc_ok E d \<Longrightarrow> doc_ok E d'"
proof (induction rule: doc_step.induct)
  case (by_name d h p c)
  then show ?case using open_ok[of E d None "Some h" p c True] by (metis prod.collapse)
next
  case (by_list d p c k)
  then show ?case using open_ok[of E d "Some k" None p c False] by (metis prod.collapse)
next
  case (by_slide d h p)
  then show ?case using open_ok_snd[of E d "Some 1" "Some h" p "-1" False] by simp
next
  case (by_save q d r l d')
  then obtain w where "d' = d\<lparr>world := w\<rparr>" using save_world by blast
  then show ?case using by_save by (simp add: doc_ok_def)
next
  case (by_delete shift d r d')
  then show ?case using remove_ok[of E d shift] by auto
qed (simp_all add: nav_ok ok_close, simp add: doc_ok_def)

lemma doc_steps_ok:
  "(doc_step E)\<^sup>*\<^sup>* d d' \<Longrightarrow> cmp_order (cmp E) \<Longrightarrow> doc_ok E d \<Longrightarrow> doc_ok E d'"
  by (induction rule: rtranclp_induct) (auto intro: doc_step_ok)

lemma new_doc_ok: "doc_ok E (new_doc w)"
  by (simp add: doc_ok_def new_doc_def)

section \<open>The list after a successful open\<close>

lemma updateDir_lists:
  assumes "updateDir E h p False d = (0, d')" and "path_file p \<noteq> []"
  shows "\<exists>ents w. readdir E h (path_dir p) (world d) = (Some ents, w) \<and>
    dirfiles d' = dir_images E ents \<and> ddir d' = path_dir p \<and>
    diridx d' = index_or (-1) (find_first
      (wcsicmp_eq (map towlower (utf8_to_wstr (u2w E) (path_file p)))) (dir_images E ents))"
  using assms by (auto simp: updateDir_def Let_def split: prod.splits option.splits)

lemma retry_not_needed: "\<not> failed r \<Longrightarrow> retry_remote E h rt failed act (r, d) = Inr (r, rt, d)"
  by (simp add: retry_remote_def)

lemma step1_direct:
  assumes "openfile E h p ''rb'' (world d) = (Some f, w1)"
  shows "open_step1 E h p hint d =
    Inr ((f, False, False, [], utf8_to_wstr (u2w E) (path_file p), path_file p), d\<lparr>world := w1\<rparr>)"
  using assms by (simp add: open_step1_def Let_def do_open_def retry_not_needed)

text \<open>Opening a file that can be opened and decoded, without and with the rescan.\<close>

definition shown :: "('h, 'w, 'f, 'img) env \<Rightarrow> 'h \<Rightarrow> string \<Rightarrow> 'img \<Rightarrow> ('h, 'w, 'img) doc \<Rightarrow> bool" where
  "shown E h p img d \<longleftrightarrow> image d = Some img \<and> dpath d = p \<and> unifs d = Some h \<and>
     curFile d = utf8_to_wstr (u2w E) (path_file p)"

lemma open_no_scan:
  assumes "(case fs of None \<Rightarrow> unifs d | Some h \<Rightarrow> Some h) = Some h"
    and "openfile E h p ''rb'' (world d) = (Some f, w1)"
    and "open_decode E (getExt p) f w1 = (Inr img, w2)"
    and "doc_open E fs p c False hint d = (r, d')"
  shows "r = IM_OK \<and> shown E h p img d' \<and> dirfiles d' = dirfiles d \<and> ddir d' = ddir d \<and>
    diridx d' = index_or (-1) (find_first
      (\<lambda>f. f = utf8_to_wstr (u2w E) (path_file p)) (dirfiles d)) \<and> prevFile d' = curFile d"
proof -
  let ?d3 = "open_show E p c img ((doc_close (d\<lparr>world := w1\<rparr>))\<lparr>unifs := Some h, world := w2\<rparr>)"
  let ?d4 = "?d3\<lparr>diridx := index_or (-1) (find_first
      (\<lambda>f. f = utf8_to_wstr (u2w E) (path_file p)) (dirfiles d))\<rparr>"
  have "(r, d') = (IM_OK, open_finish E (ddir d) (diridx d) False []
      (utf8_to_wstr (u2w E) (path_file p)) ?d4)"
    using assms by (simp add: doc_open_def step1_direct[OF assms(2)] open_rescan_def)
  then show ?thesis by (simp add: shown_def open_finish_def)
qed

lemma open_with_scan:
  assumes "openfile E h p ''rb'' (world d) = (Some f, w1)"
    and "open_decode E (getExt p) f w1 = (Inr img, w2)"
    and "readdir E h (path_dir p) (if is_anim E img then snd (tick E w2) else w2) = (Some ents, w3)"
    and "path_file p \<noteq> []"
    and "doc_open E (Some h) p c True hint d = (r, d')"
  shows "r = IM_OK \<and> shown E h p img d' \<and> dirfiles d' = dir_images E ents \<and>
    ddir d' = path_dir p \<and> diridx d' = index_or (-1) (find_first
      (wcsicmp_eq (map towlower (utf8_to_wstr (u2w E) (path_file p)))) (dir_images E ents))"
proof -
  define d3 where
    "d3 = open_show E p c img ((doc_close (d\<lparr>world := w1\<rparr>))\<lparr>unifs := Some h, world := w2\<rparr>)"
  have w: "world d3 = (if is_anim E img then snd (tick E w2) else w2)"
    by (simp add: d3_def open_show_def Let_def split: prod.splits)
  obtain d4 where u: "updateDir E h p False d3 = (0, d4)"
    "unifs d4 = unifs d3" "image d4 = image d3" "dpath d4 = dpath d3"
    using assms(3,4) by (simp add: updateDir_def Let_def w)
  from updateDir_lists[OF u(1) assms(4)] assms(3) have l: "dirfiles d4 = dir_images E ents"
    "ddir d4 = path_dir p" "diridx d4 = index_or (-1) (find_first
      (wcsicmp_eq (map towlower (utf8_to_wstr (u2w E) (path_file p)))) (dir_images E ents))"
    by (auto simp: w)
  have "open_rescan E h p True False False [] tw d3 = Inr (True, dirfiles d3, d4)" for tw
    using u(1) by (simp add: open_rescan_def Let_def retry_not_needed)
  then have "(r, d') = (IM_OK, open_finish E (ddir d) (diridx d) True (dirfiles d3)
      (utf8_to_wstr (u2w E) (path_file p)) d4)"
    using assms(1,2,5) by (simp add: doc_open_def step1_direct[OF assms(1)] d3_def)
  then show ?thesis using l u(2-4) by (simp add: shown_def d3_def)
qed

lemma dir_images_of: "set (dir_images E ents) =
    (\<lambda>e. utf8_to_wstr (u2w E) (de_name e)) ` {e \<in> set ents. listed (supported_types E) e}"
  by (auto simp: dir_images_def)

text \<open>The path of a listed file names that file.\<close>

definition name_ok :: "('h, 'w, 'f, 'img) env \<Rightarrow> wstr \<Rightarrow> bool" where
  "name_ok E f \<longleftrightarrow> CHR ''/'' \<notin> set (wstr_to_utf8 (w2u E) f) \<and>
     utf8_to_wstr (u2w E) (wstr_to_utf8 (w2u E) f) = f"

lemma name_ok_path: "name_ok E f \<Longrightarrow>
    utf8_to_wstr (u2w E) (path_file (dr @ ''/'' @ wstr_to_utf8 (w2u E) f)) = f"
  using path_split[of "wstr_to_utf8 (w2u E) f" dr] by (simp add: name_ok_def)

lemma open_listed:
  assumes "unifs d = Some h" and "fs = None \<or> fs = Some h" and "distinct fls" and "i < length fls"
    and "name_ok E (fls ! i)" and "dirfiles d = fls"
    and "p = ddir d @ ''/'' @ wstr_to_utf8 (w2u E) (fls ! i)"
    and "openfile E h p ''rb'' (world d) = (Some f, w1)"
    and "open_decode E (getExt p) f w1 = (Inr img, w2)"
    and "doc_open E fs p c False hint d = (r, d')"
  shows "r = IM_OK \<and> shown E h p img d' \<and> curFile d' = fls ! i \<and> diridx d' = int i \<and>
    dirfiles d' = fls \<and> ddir d' = ddir d \<and> prevFile d' = curFile d"
proof -
  have n: "utf8_to_wstr (u2w E) (path_file p) = fls ! i"
    unfolding assms(7) by (rule name_ok_path[OF assms(5)])
  have "(case fs of None \<Rightarrow> unifs d | Some h \<Rightarrow> Some h) = Some h" using assms(1,2) by auto
  from open_no_scan[OF this assms(8-10)] n find_first_nth_unique[OF assms(3,4)] assms(6)
  show ?thesis by (simp add: shown_def index_or_def)
qed

section \<open>An example environment\<close>

text \<open>A directory \<open>/p\<close> with three images and a text file, all of which can be read.\<close>

definition ex_entry :: "string \<Rightarrow> dir_entry" where
  "ex_entry n = \<lparr>de_fullname = n, de_type = DE_FILE, de_size = 1, de_ctime = 0, de_mtime = 0\<rparr>"

definition ex_cmp :: "wstr \<Rightarrow> wstr \<Rightarrow> int" where
  "ex_cmp a b = int (unat (case a of [] \<Rightarrow> 0 | x # _ \<Rightarrow> x)) -
     int (unat (case b of [] \<Rightarrow> 0 | x # _ \<Rightarrow> x))"

definition ex_env :: "(unit, unit, string, string) env" where
  "ex_env = \<lparr>openfile = (\<lambda>h p m w. (Some p, w)),
     readdir = (\<lambda>h p w. (Some (map ex_entry [''b.jpg'', ''a.txt'', ''c.jpg'', ''a.jpg'']), w)),
     removefile = (\<lambda>h p w. (0, w)), is_remote = (\<lambda>h. True), is_local = (\<lambda>h. False),
     fs_status = (\<lambda>h w. STATUS_OK), reconnect = (\<lambda>h w. (True, w)),
     codecs = [\<lparr>types = [''jpg''], decode = (\<lambda>f w. (Inr f, f, w))\<rparr>],
     supported_types = [''jpg''], wrap_zdata = (\<lambda>f. f), sniff = (\<lambda>f w. (''UNK'', f, w)),
     rewind = (\<lambda>f w. (f, w)), file_read = (\<lambda>f n. ([], f)), create_local = (\<lambda>p w. (None, w)),
     shell_delete = (\<lambda>p b w. ((0, False), w)), tick = (\<lambda>w. (0, w)), is_anim = (\<lambda>i. False),
     frame_delay = (\<lambda>i. 0), cmp = ex_cmp, w2u = (\<lambda>s. Some (map (\<lambda>c. char_of (unat c)) s)),
     u2w = (\<lambda>s. Some (map of_char s))\<rparr>"

definition ex_panel :: file_list where
  "ex_panel = \<lparr>lview = Some \<lparr>rows = [], selected = None\<rparr>, rebuilding = False, activations = []\<rparr>"

definition ex_doc :: "(unit, unit, string) doc" where
  "ex_doc = snd (doc_open ex_env (Some ()) ''/p/b.jpg'' (-1) True None
     ((new_doc ())\<lparr>view := True, flist := Some ex_panel\<rparr>))"

lemma ex_cmp_order: "cmp_order ex_cmp" "cmp_trans ex_cmp"
  by (auto simp: cmp_order_def cmp_trans_def ex_cmp_def)

lemma ex_doc_state:
  "image ex_doc = Some ''/p/b.jpg'' \<and> dirfiles ex_doc = map wlit [''a.jpg'', ''b.jpg'', ''c.jpg''] \<and>
   diridx ex_doc = 1 \<and> unifs ex_doc = Some () \<and> ddir ex_doc = ''/p'' \<and>
   curFile ex_doc = wlit ''b.jpg'' \<and> prevFile ex_doc = []"
  by code_simp

lemma ex_doc_ok: "doc_ok ex_env ex_doc \<and> panel_ok ex_env ex_doc"
proof -
  let ?d = "(new_doc ())\<lparr>view := True, flist := Some ex_panel\<rparr>"
  have "cmp_order (cmp ex_env)" "cmp_trans (cmp ex_env)"
    by (simp_all add: ex_env_def ex_cmp_order)
  moreover have "doc_ok ex_env ?d" "panel_ok ex_env ?d"
    by (simp_all add: doc_ok_def panel_ok_def new_doc_def ex_panel_def in_sync_def)
  ultimately show ?thesis
    using open_ok[of ex_env ?d None "Some ()" "''/p/b.jpg''" "-1" True]
    unfolding ex_doc_def by (metis prod.collapse)
qed

section \<open>Cases the code does not handle well\<close>

text \<open>
  When a file opens but does not decode, the directory list stays but the index is lost, and
  no navigation is possible any more although the neighbours could be shown.
\<close>

definition ex_bad :: "(unit, unit, string, string) env" where
  "ex_bad = ex_env\<lparr>codecs := [\<lparr>types = [''jpg''],
     decode = (\<lambda>f w. (if f = ''/p/c.jpg'' then Inl IM_FAIL else Inr f, f, w))\<rparr>]\<rparr>"

lemma decode_failure_blocks_navigation:
  "let d = snd (navigate ex_bad NAV_NEXT ex_doc)
   in fst (navigate ex_bad NAV_NEXT ex_doc) = Opened IM_FAIL \<and> length (dirfiles d) = 3 \<and>
      map (\<lambda>c. fst (navigate ex_bad c d)) [NAV_FIRST, NAV_LAST, NAV_PREV, NAV_NEXT] =
      [Nothing, Nothing, Nothing, Nothing]"
  by code_simp

text \<open>
  When the file to show has gone and its neighbour does not decode, the rescanned list is not
  given to the panel: its rows no longer show the files of the document.
\<close>

definition ex_gone :: "(unit, unit, string, string) env" where
  "ex_gone = ex_bad\<lparr>openfile := (\<lambda>h p m w. (if p = ''/p/b.jpg'' then None else Some p, w)),
     fs_status := (\<lambda>h w. STATUS_ERR_NOT_FOUND),
     readdir := (\<lambda>h p w. (Some (map ex_entry [''a.jpg'', ''c.jpg'']), w))\<rparr>"

lemma stale_panel:
  "let d = snd (refreshDir ex_gone ex_doc)
   in fst (refreshDir ex_gone ex_doc) = Opened IM_FAIL \<and>
      dirfiles d = map wlit [''a.jpg'', ''c.jpg''] \<and>
      map_option (\<lambda>fl. map_option rows (lview fl)) (flist d) =
        Some (Some (map wlit [''a.jpg'', ''b.jpg'', ''c.jpg'']))"
  by code_simp

text \<open>
  The path handed to the shell for a local file turns the slashes of \<open>/c/pics\<close> around but does
  not restore the drive: it is not the path the file layer uses.
\<close>

lemma shell_path_is_not_native:
  "shell_path (\<lambda>s. Some (map of_char s)) ''/c/pics'' (wlit ''x.jpg'') =
     [wbslash] @ wlit ''c'' @ [wbslash] @ wlit ''pics'' @ [wbslash] @ wlit ''x.jpg'' \<and>
   linux_path_to_win ''/c/pics/x.jpg'' = ''C:'' @ [bslash] @ ''pics'' @ [bslash] @ ''x.jpg''"
  by code_simp

text \<open>Deleting the last file empties the list but keeps the path of the deleted file.\<close>

lemma delete_last_keeps_path:
  "let d = ex_doc\<lparr>dirfiles := [wlit ''b.jpg''], diridx := 0\<rparr>
   in map_option (\<lambda>(r, d'). (r, dirfiles d', ddir d', dpath d')) (removeCurrentFile ex_env False d) =
      Some (0, [], [], ''/p/b.jpg'')"
  by code_simp

text \<open>
  A slide of a custom list, started while nothing is open: the list of the folder is read, no
  file of it can be opened, and \<open>open\<close> returns with the index of the neighbour but without a
  file system.  The next delete calls \<open>removefile\<close> through the null pointer.
\<close>

definition ex_unreadable :: "(unit, unit, string, string) env" where
  "ex_unreadable = ex_env\<lparr>openfile := (\<lambda>h p m w. (None, w))\<rparr>"

lemma slide_without_file_system:
  "let d = snd (doc_open ex_unreadable (Some ()) ''/p/b.jpg'' (-1) False (Some 1) (new_doc ()))
   in (diridx d, length (dirfiles d), unifs d, removeCurrentFile ex_unreadable False d) =
      (1, 3, None, None)"
  by code_simp

section \<open>Properties\<close>

text \<open>
  C9.  Whatever the user does (open by name, from the panel or the slide show of a folder, show a
  slide of a custom list while a file system is open, navigate, refresh, delete, save, close), in
  any order and however the file systems answer: the current index is \<open>-1\<close> or inside the list,
  the list is in natural order, an image or an index implies an open file system, and a delete
  never calls through a null file system.  A slide of a custom list that is shown while the
  document has no file system is left out, because there the last two claims fail in the code
  (\<open>slide_without_file_system\<close>).
\<close>

theorem doc_runs_safely:
  assumes "cmp_order (cmp E)"
    and "(doc_step E)\<^sup>*\<^sup>* ((new_doc w)\<lparr>view := v, flist := fl\<rparr>) d"
  shows "(diridx d = -1 \<or> (0 \<le> diridx d \<and> diridx d < int (length (dirfiles d)))) \<and>
    sorted_wrt (\<lambda>a b. cmp E a b \<le> 0) (dirfiles d) \<and>
    (image d \<noteq> None \<or> diridx d \<noteq> -1 \<longrightarrow> unifs d \<noteq> None) \<and>
    removeCurrentFile E shift d \<noteq> None"
proof -
  have "doc_ok E ((new_doc w)\<lparr>view := v, flist := fl\<rparr>)" by (simp add: doc_ok_def new_doc_def)
  from doc_steps_ok[OF assms(2,1) this] have ok: "doc_ok E d" .
  then show ?thesis using remove_ok[OF assms(1) ok, of shift]
    by (auto simp: doc_ok_def in_order_def)
qed

theorem doc_runs_safely_witness:
  "removeCurrentFile ex_env True (doc_close ex_doc) \<noteq> None \<and> diridx (doc_close ex_doc) = -1"
proof -
  let ?d = "(new_doc ())\<lparr>view := True, flist := Some ex_panel\<rparr>"
  have "doc_step ex_env ?d ex_doc" unfolding ex_doc_def by (rule by_name)
  moreover have "doc_step ex_env ex_doc (doc_close ex_doc)" by (rule by_close)
  ultimately have "(doc_step ex_env)\<^sup>*\<^sup>* ?d (doc_close ex_doc)" by auto
  moreover have "cmp_order (cmp ex_env)" by (simp add: ex_env_def ex_cmp_order)
  ultimately show ?thesis
    using doc_runs_safely[where E = ex_env and w = "()" and v = True and fl = "Some ex_panel"
      and d = "doc_close ex_doc" and shift = True] by simp
qed

text \<open>
   An open that shows an image, and any open without the fallback, leaves the panel in step
  with the document: row \<open>i\<close> shows file \<open>i\<close>, through every retry, rescan and fallback.
\<close>

theorem open_keeps_panel:
  assumes "cmp_order (cmp E)" and "cmp_trans (cmp E)" and "doc_ok E d" and "panel_ok E d"
    and "hint = None \<or> fs = None \<or> unifs d \<noteq> None"
    and "doc_open E fs p c force hint d = (r, d')" and "image d' \<noteq> None \<or> hint = None"
    and "flist d' = Some fl" and "lview fl = Some lv"
  shows "list_all2 (shows_file (cmp E)) (rows lv) (dirfiles d')"
  using open_ok[OF assms(1,3,5,6)] assms(2,4,7-9) by (auto simp: panel_ok_def in_sync_def)

theorem open_keeps_panel_witness:
  "length (rows (the (lview (the (flist
     (snd (doc_open ex_env None ''/p/c.jpg'' (-1) True (Some 1) ex_doc))))))) = 3"
proof -
  let ?o = "doc_open ex_env None ''/p/c.jpg'' (-1) True (Some 1) ex_doc"
  have s: "image (snd ?o) \<noteq> None" "length (dirfiles (snd ?o)) = 3" by code_simp+
  have "flist (snd ?o) \<noteq> None \<and> lview (the (flist (snd ?o))) \<noteq> None" by code_simp
  then obtain fl lv where l: "flist (snd ?o) = Some fl" "lview fl = Some lv" by auto
  have "list_all2 (shows_file (cmp ex_env)) (rows lv) (dirfiles (snd ?o))"
    by (rule open_keeps_panel[of ex_env ex_doc "Some 1" None "''/p/c.jpg''" "-1" True "fst ?o"
        "snd ?o"]) (use s l ex_doc_ok in \<open>simp_all add: ex_env_def ex_cmp_order\<close>)
  with s(2) l show ?thesis by (auto dest: list_all2_lengthD)
qed

text \<open>
  C11.  Opening a file by name, when it can be read and decoded and its directory can be listed:
  the image is shown, the list is exactly the supported files of the directory in natural order,
  and the index is at the file whenever it is listed (up to case).
\<close>

theorem open_by_name_lists:
  assumes "cmp_order (cmp E)" and "openfile E h p ''rb'' (world d) = (Some f, w1)"
    and "open_decode E (getExt p) f w1 = (Inr img, w2)"
    and "readdir E h (path_dir p) (if is_anim E img then snd (tick E w2) else w2) = (Some ents, w3)"
    and "path_file p \<noteq> []" and "doc_open E (Some h) p c True hint d = (r, d')"
    and "lower = map towlower (utf8_to_wstr (u2w E) (path_file p))"
  shows "r = IM_OK \<and> shown E h p img d' \<and> ddir d' = path_dir p \<and>
    mset (dirfiles d') = image_mset (\<lambda>e. utf8_to_wstr (u2w E) (de_name e))
      {#e \<in># mset ents. listed (supported_types E) e#} \<and>
    sorted_wrt (\<lambda>a b. cmp E a b \<le> 0) (dirfiles d') \<and>
    (if \<exists>g\<in>set (dirfiles d'). wcsicmp_eq lower g
     then 0 \<le> diridx d' \<and> wcsicmp_eq lower (dirfiles d' ! nat (diridx d'))
     else diridx d' = -1)"
proof -
  note o = open_with_scan[OF assms(2-6)]
  then have l: "dirfiles d' = dir_images E ents"
    and i: "diridx d' = index_or (-1) (find_first (wcsicmp_eq lower) (dirfiles d'))"
    by (simp_all add: assms(7))
  have "if \<exists>g\<in>set (dirfiles d'). wcsicmp_eq lower g
     then 0 \<le> diridx d' \<and> wcsicmp_eq lower (dirfiles d' ! nat (diridx d'))
     else diridx d' = -1"
  proof (cases "find_first (wcsicmp_eq lower) (dirfiles d')")
    case None
    with i show ?thesis by (simp add: find_first_None index_or_def)
  next
    case (Some k)
    then have "k < length (dirfiles d')" "wcsicmp_eq lower (dirfiles d' ! k)"
      by (simp_all add: find_first_Some)
    with i Some show ?thesis by (auto simp: index_or_def)
  qed
  then show ?thesis using o natural_sort_order[OF assms(1)]
    by (simp add: l dir_images_def in_order_def mset_filter)
qed

theorem open_by_name_lists_witness:
  "mset (dirfiles ex_doc) = mset (map wlit [''b.jpg'', ''c.jpg'', ''a.jpg''])"
proof -
  let ?d = "(new_doc ())\<lparr>view := True, flist := Some ex_panel\<rparr>"
  have dec: "open_decode ex_env (getExt ''/p/b.jpg'') ''/p/b.jpg'' () = (Inr ''/p/b.jpg'', ())"
    "path_file ''/p/b.jpg'' \<noteq> []" by code_simp+
  have op: "openfile ex_env () ''/p/b.jpg'' ''rb'' (world ?d) = (Some ''/p/b.jpg'', ())"
    "cmp_order (cmp ex_env)"
    "readdir ex_env () (path_dir ''/p/b.jpg'') (if is_anim ex_env ''/p/b.jpg'' then snd (tick ex_env ()) else ()) =
      (Some (map ex_entry [''b.jpg'', ''a.txt'', ''c.jpg'', ''a.jpg'']), ())"
    by (simp_all add: ex_env_def ex_cmp_order)
  have "doc_open ex_env (Some ()) ''/p/b.jpg'' (-1) True None ?d =
      (fst (doc_open ex_env (Some ()) ''/p/b.jpg'' (-1) True None ?d), ex_doc)"
    by (simp add: ex_doc_def)
  from open_by_name_lists[OF op(2,1) dec(1) op(3) dec(2) this refl]
  have "mset (dirfiles ex_doc) = image_mset (\<lambda>e. utf8_to_wstr (u2w ex_env) (de_name e))
      {#e \<in># mset (map ex_entry [''b.jpg'', ''a.txt'', ''c.jpg'', ''a.jpg'']).
        listed (supported_types ex_env) e#}" by blast
  moreover have "map (\<lambda>e. utf8_to_wstr (u2w ex_env) (de_name e)) (filter (listed (supported_types ex_env))
      (map ex_entry [''b.jpg'', ''a.txt'', ''c.jpg'', ''a.jpg''])) = map wlit [''b.jpg'', ''c.jpg'', ''a.jpg'']"
    by code_simp
  ultimately show ?thesis by (simp only: mset_filter[symmetric] mset_map[symmetric])
qed

text \<open>
  C10.  Navigation goes exactly where the command says: first, last, or one step, within the
  list, when that file can be read and decoded.  The list stays, and the file shown before
  becomes the previous file.
\<close>

theorem navigate_moves:
  assumes "doc_ok E d" and "distinct (dirfiles d)" and "diridx d \<noteq> -1"
    and "t = nav_target cmd (diridx d) (int (length (dirfiles d)))" and "t \<noteq> -1"
    and "name_ok E (dirfiles d ! nat t)" and "unifs d = Some h"
    and "p = ddir d @ ''/'' @ wstr_to_utf8 (w2u E) (dirfiles d ! nat t)"
    and "openfile E h p ''rb'' (world d) = (Some f, w1)"
    and "open_decode E (getExt p) f w1 = (Inr img, w2)"
    and "navigate E cmd d = (r, d')"
  shows "r = Opened IM_OK \<and> diridx d' = t \<and> curFile d' = dirfiles d ! nat t \<and>
    image d' = Some img \<and> dpath d' = p \<and> dirfiles d' = dirfiles d \<and> prevFile d' = curFile d \<and>
    (case cmd of NAV_FIRST \<Rightarrow> t = 0 | NAV_LAST \<Rightarrow> t = int (length (dirfiles d)) - 1
      | NAV_PREV \<Rightarrow> t = diridx d - 1 | NAV_NEXT \<Rightarrow> t = diridx d + 1)"
proof -
  from assms(1,3) have i: "0 \<le> diridx d" "diridx d < int (length (dirfiles d))"
    by (auto simp: doc_ok_def)
  then have t: "0 \<le> t" "t < int (length (dirfiles d))" "case cmd of NAV_FIRST \<Rightarrow> t = 0
      | NAV_LAST \<Rightarrow> t = int (length (dirfiles d)) - 1
      | NAV_PREV \<Rightarrow> t = diridx d - 1 | NAV_NEXT \<Rightarrow> t = diridx d + 1"
    using assms(4,5) by (cases cmd; auto simp: nav_target_def split: if_splits)+
  then have n: "nat t < length (dirfiles d)" "dirfiles d \<noteq> []" by auto
  obtain r0 where o: "doc_open E (unifs d) p (cmdid_of cmd) False
      (Some (if cmd = NAV_PREV then -1 else 1)) d = (r0, d')" "r = Opened r0"
    using assms(3,4,5,8,11) n(2) by (auto simp: navigate_def Let_def split: prod.splits)
  have "unifs d = None \<or> unifs d = Some h" using assms(7) by simp
  from open_listed[OF assms(7) this assms(2) n(1) assms(6) refl assms(8-10) o(1)] t
  show ?thesis unfolding shown_def o(2) by (intro conjI) auto
qed

theorem navigate_moves_witness:
  "diridx (snd (navigate ex_env NAV_NEXT ex_doc)) = 2 \<and>
   image (snd (navigate ex_env NAV_NEXT ex_doc)) = Some ''/p/c.jpg''"
proof -
  have w: "wstr_to_utf8 (w2u ex_env) (wlit ''c.jpg'') = ''c.jpg''" "name_ok ex_env (wlit ''c.jpg'')"
    "distinct (map wlit [''a.jpg'', ''b.jpg'', ''c.jpg''])"
    "open_decode ex_env (getExt ''/p/c.jpg'') ''/p/c.jpg'' () = (Inr ''/p/c.jpg'', ())"
    by code_simp+
  have o: "openfile ex_env () ''/p/c.jpg'' ''rb'' (world ex_doc) = (Some ''/p/c.jpg'', ())"
    by (simp add: ex_env_def)
  have t: "nav_target NAV_NEXT (diridx ex_doc) (int (length (dirfiles ex_doc))) = 2"
    using ex_doc_state by (simp add: nav_target_def)
  have "diridx (snd (navigate ex_env NAV_NEXT ex_doc)) = 2 \<and>
      image (snd (navigate ex_env NAV_NEXT ex_doc)) = Some ''/p/c.jpg''"
    using navigate_moves[where E = ex_env and d = ex_doc and cmd = NAV_NEXT and t = 2 and h = "()"
        and p = "''/p/c.jpg''" and f = "''/p/c.jpg''" and ?w1.0 = "()" and img = "''/p/c.jpg''" and
        ?w2.0 = "()" and r = "fst (navigate ex_env NAV_NEXT ex_doc)"
        and d' = "snd (navigate ex_env NAV_NEXT ex_doc)"]
      ex_doc_ok ex_doc_state t o w by simp
  then show ?thesis .
qed

text \<open>
  C12.  A delete that the file system carries out takes exactly the current entry out of the list
  and shows its neighbour: the one before it when the user came from behind it or when it was
  the last, and otherwise the one that follows.
\<close>

theorem delete_shows_neighbour:
  assumes "doc_ok E d" and "distinct (dirfiles d)" and "diridx d = int i"
    and "2 \<le> length (dirfiles d)" and "unifs d = Some h" and "del = dirfiles d ! i"
    and "if is_local E h then shell_delete E (shell_path (u2w E) (ddir d) del) shift (world d) = ((0, False), w0)
         else removefile E h (ddir d @ ''/'' @ wstr_to_utf8 (w2u E) del) (world d) = (0, w0)"
    and "j = (if (prevFile d \<noteq> [] \<and> \<not> wcsicmp_eq (prevFile d) del \<and> cmp E (prevFile d) del > 0 \<and> 0 < i) \<or>
         i = length (dirfiles d) - 1 then i - 1 else i)"
    and "nxt = erase_at i (dirfiles d) ! j" and "name_ok E nxt"
    and "p = ddir d @ ''/'' @ wstr_to_utf8 (w2u E) nxt"
    and "openfile E h p ''rb'' w0 = (Some f, w1)" and "open_decode E (getExt p) f w1 = (Inr img, w2)"
    and "removeCurrentFile E shift d = Some (r, d')"
  shows "r = 0 \<and> dirfiles d' = erase_at i (dirfiles d) \<and> diridx d' = int j \<and> curFile d' = nxt \<and>
    image d' = Some img \<and> dpath d' = p \<and> del \<notin> set (dirfiles d')"
proof -
  let ?fs = "erase_at i (dirfiles d)" and ?n = "int (length (dirfiles d)) - 1"
  from assms(1,3) have i: "i < length (dirfiles d)" by (auto simp: doc_ok_def)
  then have len: "length ?fs = length (dirfiles d) - 1" by (simp add: vec_simps)
  have nx: "next_after_delete (cmp E) (prevFile d) del (int i) ?n = int j"
    using i assms(4) by (auto simp: next_after_delete_def Let_def assms(8))
  have j: "j < length ?fs" "?fs \<noteq> []" using i assms(4,8) len by (auto split: if_splits)
  have dist: "distinct ?fs" "del \<notin> set ?fs"
    using distinct_erase_at[OF assms(2) i] unfolding assms(6) by blast+
  let ?d2 = "on_list (\<lambda>v. fl_removeItem v i (-1)) (d\<lparr>world := w0, dirfiles := ?fs, diridx := -1\<rparr>)"
  have "int (length ?fs) = ?n" using len assms(4) by simp
  then have rl: "remove_listed E del (int i) (d\<lparr>world := w0\<rparr>) =
      snd (doc_open E (unifs ?d2) p (-1) False (Some (if int j \<ge> int i then 1 else -1)) ?d2)"
    using j nx by (simp add: remove_listed_def Let_def assms(9,11))
  have rm: "r = 0 \<and> d' = remove_listed E del (int i) (d\<lparr>world := w0\<rparr>)"
    using assms(5,6,7,14) i
    by (auto simp: removeCurrentFile_def assms(3) Let_def split: if_splits)
  obtain r0 where o: "doc_open E (unifs ?d2) p (-1) False (Some (if int j \<ge> int i then 1 else -1)) ?d2 = (r0, d')"
    using rm rl by (metis prod.collapse)
  have "unifs ?d2 = Some h" "unifs ?d2 = None \<or> unifs ?d2 = Some h" using assms(5) by simp_all
  from open_listed[OF this dist(1) j(1) assms(10)[unfolded assms(9)] _ _ _ assms(13) o] assms(11,12)
  have "shown E h p img d' \<and> curFile d' = nxt \<and> diridx d' = int j \<and> dirfiles d' = ?fs"
    by (simp add: assms(9))
  then show ?thesis using rm dist(2) unfolding shown_def by (intro conjI) auto
qed

theorem delete_shows_neighbour_witness:
  "map_option (\<lambda>(r, d'). (dirfiles d', diridx d')) (removeCurrentFile ex_env False ex_doc) =
     Some (map wlit [''a.jpg'', ''c.jpg''], 1)"
proof -
  obtain r d' where rm: "removeCurrentFile ex_env False ex_doc = Some (r, d')"
    using remove_ok[of ex_env ex_doc False] ex_doc_ok by (auto simp: ex_env_def ex_cmp_order)
  have w: "wstr_to_utf8 (w2u ex_env) (wlit ''c.jpg'') = ''c.jpg''" "name_ok ex_env (wlit ''c.jpg'')"
    "distinct (map wlit [''a.jpg'', ''b.jpg'', ''c.jpg''])" "\<not> is_local ex_env ()"
    "open_decode ex_env (getExt ''/p/c.jpg'') ''/p/c.jpg'' () = (Inr ''/p/c.jpg'', ())"
    "erase_at 1 (map wlit [''a.jpg'', ''b.jpg'', ''c.jpg'']) = map wlit [''a.jpg'', ''c.jpg'']"
    by code_simp+
  have o: "openfile ex_env () ''/p/c.jpg'' ''rb'' () = (Some ''/p/c.jpg'', ())"
    "\<And>p. removefile ex_env () p (world ex_doc) = (0, ())" by (simp_all add: ex_env_def)
  have "r = 0 \<and> dirfiles d' = erase_at 1 (dirfiles ex_doc) \<and> diridx d' = int 1 \<and> curFile d' = wlit ''c.jpg'' \<and>
     image d' = Some ''/p/c.jpg'' \<and> dpath d' = ''/p/c.jpg'' \<and> wlit ''b.jpg'' \<notin> set (dirfiles d')"
    by (rule delete_shows_neighbour[where E = ex_env and d = ex_doc and i = 1 and h = "()" and
        ?w0.0 = "()" and f = "''/p/c.jpg''" and ?w1.0 = "()" and ?w2.0 = "()" and shift = False])
      (use ex_doc_ok ex_doc_state o w rm in \<open>simp_all\<close>)
  with rm w(6) ex_doc_state show ?thesis by simp
qed

end
