(* ===== verification/Bitmap.thy ===== *)
theory Bitmap
  imports Protocol
begin

text \<open>
  The bitmaps of obZrv/BasicBitmap: the pixel formats, the layout of the rows, and
  \<open>BlendColor\<close>, which lays a picture with an alpha channel over the background colour, in its
  portable form and in the SSE2 form that may be installed in its place. Pixels, blitting,
  blending and scaling follow in the theories from \<open>Pixels\<close> on.
\<close>

unbundle bit_operations_syntax

section \<open>Bitmaps\<close>

datatype pixel_fmt = A8R8G8B8 | A8B8G8R8 | X8R8G8B8 | R8G8B8 | R5G6B5 | A1R5G5B5 | X1R5G5B5
  | A4R4G4B4 | G8 | UNKNOW

record bitmap =
  bm_w :: nat
  bm_h :: nat
  bm_fmt :: pixel_fmt
  bm_lines :: "bytes list"

fun fmt_bpp :: "pixel_fmt \<Rightarrow> nat" where
  "fmt_bpp A8R8G8B8 = 32" | "fmt_bpp A8B8G8R8 = 32" | "fmt_bpp X8R8G8B8 = 32"
| "fmt_bpp R8G8B8 = 24" | "fmt_bpp R5G6B5 = 16" | "fmt_bpp A1R5G5B5 = 16"
| "fmt_bpp X1R5G5B5 = 16" | "fmt_bpp A4R4G4B4 = 16" | "fmt_bpp G8 = 8" | "fmt_bpp UNKNOW = 0"

text \<open>\<open>(bpp + 1) / 8\<close>, and the row length: \<open>width * pixelsize\<close> rounded up to four bytes.\<close>

definition pixelsize :: "pixel_fmt \<Rightarrow> nat" where
  "pixelsize f = (fmt_bpp f + 1) div 8"

definition pixel_round :: "nat \<Rightarrow> nat \<Rightarrow> nat" where
  "pixel_round x n = (x + n - 1) div n * n"

definition pitch_of :: "nat \<Rightarrow> pixel_fmt \<Rightarrow> nat" where
  "pitch_of w f = pixel_round (w * pixelsize f) 4"

text \<open>\<open>None\<close> for the unknown format; the content of the new buffer is given as zero.\<close>

definition new_bitmap :: "nat \<Rightarrow> nat \<Rightarrow> pixel_fmt \<Rightarrow> bitmap option" where
  "new_bitmap w h f = (if f = UNKNOW then None
     else Some \<lparr>bm_w = w, bm_h = h, bm_fmt = f,
                bm_lines = replicate h (replicate (pitch_of w f) 0)\<rparr>)"

section \<open>One pixel, portable\<close>

definition fast_div_255 :: "u32 \<Rightarrow> u32" where
  "fast_div_255 x = drop_bit 8 (x + drop_bit 8 (x + 257))"

definition blend_pixel :: "u32 \<Rightarrow> u32 \<Rightarrow> u32 \<Rightarrow> u32" where
  "blend_pixel bg_rb bg_ag c =
     (let bg_r = drop_bit 16 bg_rb AND 0xff; bg_g = bg_ag AND 0xff; bg_b = bg_rb AND 0xff;
          sa = drop_bit 24 c in
      if sa = 0 then 0xff000000 OR push_bit 16 bg_r OR push_bit 8 bg_g OR bg_b
      else if sa < 255 then
        let inv_sa = 255 - sa;
            sr = drop_bit 16 c AND 0xff; sg = drop_bit 8 c AND 0xff; sb = c AND 0xff;
            dr = fast_div_255 (sr * sa + bg_r * inv_sa);
            dg = fast_div_255 (sg * sa + bg_g * inv_sa);
            db = fast_div_255 (sb * sa + bg_b * inv_sa)
        in 0xff000000 OR push_bit 16 dr OR push_bit 8 dg OR db
      else c OR 0xff000000)"

definition BlendColorRow_Default :: "u32 \<Rightarrow> u32 \<Rightarrow> u32 list \<Rightarrow> u32 list" where
  "BlendColorRow_Default bg_rb bg_ag pixels = map (blend_pixel bg_rb bg_ag) pixels"

section \<open>Four pixels, SSE2\<close>

text \<open>
  A register is four 32-bit lanes, and every instruction used works within a lane, on the lane
  or on its two 16-bit halves (four bytes for \<open>_mm_subs_epu8\<close>).
\<close>

definition hi16 :: "u32 \<Rightarrow> u16" where "hi16 x = ucast (drop_bit 16 x)"
definition lo16 :: "u32 \<Rightarrow> u16" where "lo16 x = ucast x"
definition join16 :: "u16 \<Rightarrow> u16 \<Rightarrow> u32" where "join16 h l = push_bit 16 (ucast h) OR ucast l"

definition halves :: "(u16 \<Rightarrow> u16 \<Rightarrow> u16) \<Rightarrow> u32 \<Rightarrow> u32 \<Rightarrow> u32" where
  "halves f x y = join16 (f (hi16 x) (hi16 y)) (f (lo16 x) (lo16 y))"

definition mullo_epi16 :: "u32 \<Rightarrow> u32 \<Rightarrow> u32" where
  "mullo_epi16 = halves (*)"

definition sat_add16 :: "u16 \<Rightarrow> u16 \<Rightarrow> u16" where
  "sat_add16 a b = (if unat a + unat b > 65535 then 65535 else a + b)"

definition adds_epu16 :: "u32 \<Rightarrow> u32 \<Rightarrow> u32" where
  "adds_epu16 = halves sat_add16"

definition srli_epi16 :: "u32 \<Rightarrow> nat \<Rightarrow> u32" where
  "srli_epi16 x n = halves (\<lambda>a _. drop_bit n a) x x"

definition sat_sub8 :: "u8 \<Rightarrow> u8 \<Rightarrow> u8" where
  "sat_sub8 a b = (if a < b then 0 else a - b)"

definition subs16 :: "u16 \<Rightarrow> u16 \<Rightarrow> u16" where
  "subs16 a b = push_bit 8 (ucast (sat_sub8 (ucast (drop_bit 8 a)) (ucast (drop_bit 8 b)))) OR
     ucast (sat_sub8 (ucast a) (ucast b))"

definition subs_epu8 :: "u32 \<Rightarrow> u32 \<Rightarrow> u32" where
  "subs_epu8 = halves subs16"

definition expand_alpha :: "u32 \<Rightarrow> u32" where
  "expand_alpha c = (let alpha = drop_bit 24 c in push_bit 16 alpha OR alpha)"

definition pixel_rb :: "u32 \<Rightarrow> u32" where "pixel_rb c = c AND 0x00ff00ff"
definition pixel_ag :: "u32 \<Rightarrow> u32" where "pixel_ag c = srli_epi16 c 8"

definition fast_div_255_epu16 :: "u32 \<Rightarrow> u32" where
  "fast_div_255_epu16 x = srli_epi16 (adds_epu16 x (srli_epi16 (adds_epu16 x 0x01010101) 8)) 8"

definition blend_lane :: "u32 \<Rightarrow> u32 \<Rightarrow> u32 \<Rightarrow> u32" where
  "blend_lane bg_rb bg_ag src =
     (let alpha = expand_alpha src;
          inv_alpha = subs_epu8 0x00ff00ff alpha;
          src_rb = pixel_rb src;
          src_ag = pixel_ag src;
          res_rb = adds_epu16 (mullo_epi16 src_rb alpha) (mullo_epi16 bg_rb inv_alpha);
          res_ag = adds_epu16 (mullo_epi16 src_ag alpha) (mullo_epi16 bg_ag inv_alpha);
          res_rb = fast_div_255_epu16 res_rb;
          res_ag = fast_div_255_epu16 res_ag
      in (push_bit 8 res_ag OR res_rb) OR 0xff000000)"

fun BlendColorRow_SSE2 :: "u32 \<Rightarrow> u32 \<Rightarrow> u32 list \<Rightarrow> u32 list" where
  "BlendColorRow_SSE2 bg_rb bg_ag (p0 # p1 # p2 # p3 # pixels) =
     map (blend_lane bg_rb bg_ag) [p0, p1, p2, p3] @ BlendColorRow_SSE2 bg_rb bg_ag pixels"
| "BlendColorRow_SSE2 bg_rb bg_ag pixels = map (blend_pixel bg_rb bg_ag) pixels"

section \<open>Division by 255\<close>

lemma div255_nat:
  assumes "x \<le> 65025"
  shows "(x + (x + 257) div 256) div 256 = x div (255::nat)"
proof -
  define q r where "q = x div 255" and "r = x mod 255"
  then have x: "x = 255 * q + r" and r: "r < 255" by simp_all
  with assms have q: "q \<le> 255" by simp
  define t where "t = r + 257 - q"
  have t: "2 \<le> t" "t < 512" using q r by (simp_all add: t_def)
  have "x + 257 = t + 256 * q" using q by (simp add: t_def x)
  then have "(x + 257) div 256 = q + t div 256" by simp
  moreover have "t div 256 \<le> 1" using t by simp
  ultimately have e: "x + (x + 257) div 256 = (r + t div 256) + 256 * q" by (simp add: x)
  have "r + t div 256 < 256" using r \<open>t div 256 \<le> 1\<close> by simp
  then show ?thesis unfolding e by (simp add: x r)
qed

lemma unat_add_small: "unat (x :: 'a::len word) + unat y < 2 ^ LENGTH('a) \<Longrightarrow> unat (x + y) = unat x + unat y"
  by (simp add: unat_word_ariths(1))

lemma unat_mult_small: "unat (x :: 'a::len word) * unat y < 2 ^ LENGTH('a) \<Longrightarrow> unat (x * y) = unat x * unat y"
  by (simp add: unat_word_ariths(2))

lemma fast_div_255_exact:
  assumes "unat x \<le> 65025"
  shows "unat (fast_div_255 x) = unat x div 255"
proof -
  have a: "unat (x + 257) = unat x + 257" using assms by (subst unat_add_small) simp_all
  then have b: "unat (drop_bit 8 (x + 257)) = (unat x + 257) div 256"
    by (simp only: unat_drop_bit_eq a) (simp add: drop_bit_eq_div)
  moreover have "unat (x + drop_bit 8 (x + 257)) = unat x + (unat x + 257) div 256"
    by (subst unat_add_small) (use assms b in simp_all)
  ultimately show ?thesis
    using div255_nat[OF assms] unfolding fast_div_255_def
    by (simp only: unat_drop_bit_eq) (simp add: drop_bit_eq_div)
qed

text \<open>One channel of the blend, over the naturals: rounded down, between source and background.\<close>

definition mix :: "nat \<Rightarrow> nat \<Rightarrow> nat \<Rightarrow> nat" where
  "mix s a b = (s * a + b * (255 - a)) div 255"

lemma mix_sum:
  assumes "s \<le> 255" and "a \<le> 255" and "b \<le> (255::nat)"
  shows "s * a + b * (255 - a) \<le> 65025"
proof -
  have "s * a + b * (255 - a) \<le> 255 * a + 255 * (255 - a)"
    using assms by (intro add_mono mult_right_mono) auto
  also have "\<dots> = 65025" using assms by (simp flip: distrib_left)
  finally show ?thesis .
qed

lemma mix_between:
  assumes "a \<le> 255" and "lo \<le> s" and "lo \<le> b" and "s \<le> up" and "b \<le> up"
  shows "lo \<le> mix s a b \<and> mix s a b \<le> up"
proof -
  have "s * a + b * (255 - a) \<le> up * a + up * (255 - a)"
    "lo * a + lo * (255 - a) \<le> s * a + b * (255 - a)"
    using assms by (auto intro!: add_mono mult_right_mono)
  moreover have "up * a + up * (255 - a) = up * 255" "lo * a + lo * (255 - a) = lo * 255"
    using assms(1) by (simp_all flip: distrib_left)
  ultimately have "lo * 255 \<le> s * a + b * (255 - a)" "s * a + b * (255 - a) \<le> up * 255"
    by simp_all
  then show ?thesis unfolding mix_def
    by (metis div_le_mono div_mult_self_is_m zero_less_numeral)
qed

lemma mix_le: "s \<le> 255 \<Longrightarrow> a \<le> 255 \<Longrightarrow> b \<le> 255 \<Longrightarrow> mix s a b \<le> 255"
  using mix_between[of a 0 s b 255] by simp

lemma mix_ends: "mix s 0 b = b" "mix s 255 b = s"
  by (simp_all add: mix_def)

lemma unat_sub_255:
  "unat (a :: u32) \<le> 255 \<Longrightarrow> unat (255 - a) = 255 - unat a"
  "unat (x :: u16) \<le> 255 \<Longrightarrow> unat (255 - x) = 255 - unat x"
  by (simp_all add: unat_sub word_le_nat_alt)

lemma channel32:
  assumes "unat s \<le> 255" and "unat a \<le> 255" and "unat b \<le> 255"
  shows "unat (fast_div_255 (s * a + b * (255 - a))) = mix (unat s) (unat a) (unat b)"
proof -
  note m = mix_sum[OF assms]
  have i: "unat (255 - a) = 255 - unat a" by (rule unat_sub_255(1)[OF assms(2)])
  have "unat (s * a) = unat s * unat a" "unat (b * (255 - a)) = unat b * (255 - unat a)"
    using m i by (auto intro!: unat_mult_small[THEN trans])
  then have "unat (s * a + b * (255 - a)) = unat s * unat a + unat b * (255 - unat a)"
    using m by (subst unat_add_small) auto
  with m fast_div_255_exact show ?thesis by (simp add: mix_def)
qed

section \<open>The SSE2 row is the portable row\<close>

definition channel16 :: "u16 \<Rightarrow> u16 \<Rightarrow> u16 \<Rightarrow> u16" where
  "channel16 s a b =
     (let x = sat_add16 (s * a) (b * (255 - a))
      in drop_bit 8 (sat_add16 x (drop_bit 8 (sat_add16 x 0x0101))))"

lemma sat_add16_small: "unat a + unat b \<le> 65535 \<Longrightarrow> unat (sat_add16 a b) = unat a + unat b"
  by (simp add: sat_add16_def unat_add_small)

lemma channel16_exact:
  assumes "unat s \<le> 255" and "unat a \<le> 255" and "unat b \<le> 255"
  shows "unat (channel16 s a b) = mix (unat s) (unat a) (unat b)"
proof -
  define x where "x = sat_add16 (s * a) (b * (255 - a))"
  note m = mix_sum[OF assms]
  have i: "unat (255 - a) = 255 - unat a" by (rule unat_sub_255(2)[OF assms(2)])
  have p: "unat (s * a) = unat s * unat a" "unat (b * (255 - a)) = unat b * (255 - unat a)"
    using m i by (auto intro!: unat_mult_small[THEN trans])
  then have x: "unat x = unat s * unat a + unat b * (255 - unat a)"
    using m by (simp add: x_def sat_add16_small)
  define y where "y = drop_bit 8 (sat_add16 x 0x0101)"
  have "unat (sat_add16 x 0x0101) = unat x + 257" using x m by (simp add: sat_add16_small)
  then have y: "unat y = (unat x + 257) div 256"
    unfolding y_def by (simp only: unat_drop_bit_eq) (simp add: drop_bit_eq_div)
  then have "unat (sat_add16 x y) = unat x + (unat x + 257) div 256"
    using x m by (simp add: sat_add16_small)
  then have "unat (drop_bit 8 (sat_add16 x y)) = unat x div 255"
    using div255_nat[of "unat x"] x m
    by (simp only: unat_drop_bit_eq) (simp add: drop_bit_eq_div)
  then show ?thesis by (simp add: channel16_def Let_def x_def[symmetric] y_def[symmetric] x mix_def)
qed

lemma halves_join [simp]: "hi16 (join16 h l) = h" "lo16 (join16 h l) = l"
  by (rule bit_word_eqI; auto simp: hi16_def lo16_def join16_def bit_simps dest: bit_imp_le_length)+

lemma join_halves: "join16 (hi16 x) (lo16 x) = x"
  by (rule bit_word_eqI) (auto simp: hi16_def lo16_def join16_def bit_simps)

lemma mask_eq: "0xff = (mask 8 :: 'a::len word)" "(0xff000000::u32) = push_bit 24 (mask 8)"
  "(0x00ff00ff::u32) = push_bit 16 (mask 8) OR mask 8"
  by (simp_all add: mask_eq_exp_minus_1)

lemma alpha_parts:
  "hi16 (expand_alpha c) = ucast (drop_bit 24 c)" "lo16 (expand_alpha c) = ucast (drop_bit 24 c)"
  by (rule bit_word_eqI; auto simp: expand_alpha_def Let_def hi16_def lo16_def bit_simps
      dest: bit_imp_le_length)+

lemma rb_parts:
  "hi16 (pixel_rb c) = ucast (drop_bit 16 c AND 0xff)" "lo16 (pixel_rb c) = ucast (c AND 0xff)"
  unfolding pixel_rb_def mask_eq
  by (rule bit_word_eqI; auto simp: hi16_def lo16_def bit_simps dest: bit_imp_le_length)+

lemma ag_parts:
  "hi16 (pixel_ag c) = ucast (drop_bit 24 c)" "lo16 (pixel_ag c) = ucast (drop_bit 8 c AND 0xff)"
  unfolding pixel_ag_def srli_epi16_def halves_def halves_join mask_eq
  by (rule bit_word_eqI; auto simp: hi16_def lo16_def bit_simps dest: bit_imp_le_length)+

lemma byte_le:
  "unat (x AND 0xff :: u32) \<le> 255" "unat (drop_bit 24 (x :: u32)) \<le> 255"
proof -
  have "x AND 0xff \<le> 0xff" by (rule word_and_le1)
  then show "unat (x AND 0xff :: u32) \<le> 255" by (simp add: word_le_nat_alt)
  have "unat x < 4294967296" using unsigned_less[of x] by simp
  then have "unat x div 2 ^ 24 < 256" by simp
  then show "unat (drop_bit 24 (x :: u32)) \<le> 255"
    by (simp only: unat_drop_bit_eq) (simp add: drop_bit_eq_div)
qed

lemma unat_ucast_byte: "unat (x :: u32) \<le> 255 \<Longrightarrow> unat (ucast x :: u16) = unat x"
  by (simp add: unsigned_ucast_eq take_bit_eq_mod)

lemma subs16_alpha:
  assumes "unat a \<le> 255"
  shows "subs16 0xff a = 255 - a"
proof -
  have h: "drop_bit 8 a = 0"
    using assms by (simp only: word_unat_eq_iff unat_drop_bit_eq) (simp add: drop_bit_eq_div)
  have l: "unat (ucast a :: u8) = unat a" using assms by (simp add: unsigned_ucast_eq take_bit_eq_mod)
  have "\<not> (255 :: u8) < ucast a" using l assms by (simp add: word_less_nat_alt)
  moreover have "(ucast a :: u8) \<le> 255" using l assms by (simp add: word_le_nat_alt)
  then have "unat (255 - ucast a :: u8) = 255 - unat a" using l by (simp add: unat_sub)
  then have "(ucast (255 - ucast a :: u8) :: u16) = 255 - a"
    using unat_sub_255(2)[OF assms]
    by (simp add: word_unat_eq_iff unsigned_ucast_eq take_bit_eq_mod)
  ultimately show ?thesis using h by (simp add: subs16_def sat_sub8_def)
qed

text \<open>The channels of the portable and of the SSE2 form, at the same bytes.\<close>

lemma channels_agree:
  assumes "unat s \<le> 255" and "unat a \<le> 255" and "unat b \<le> 255"
  shows "ucast (channel16 (ucast s) (ucast a) (ucast b)) = fast_div_255 (s * a + b * (255 - a))"
    (is "ucast ?x = ?y")
proof -
  have "unat ?x = unat ?y"
    using assms by (simp add: channel32 channel16_exact unat_ucast_byte)
  moreover have "unat ?y \<le> 255" using assms by (simp add: channel32 mix_le)
  ultimately show ?thesis by (simp add: word_unat_eq_iff unsigned_ucast_eq take_bit_eq_mod)
qed

definition blended :: "u32 \<Rightarrow> u32 \<Rightarrow> u32 \<Rightarrow> u32" where
  "blended bg_rb bg_ag c =
     (let ch = (\<lambda>s b. fast_div_255 (s * drop_bit 24 c + b * (255 - drop_bit 24 c))) in
      0xff000000 OR push_bit 16 (ch (drop_bit 16 c AND 0xff) (drop_bit 16 bg_rb AND 0xff)) OR
      push_bit 8 (ch (drop_bit 8 c AND 0xff) (bg_ag AND 0xff)) OR ch (c AND 0xff) (bg_rb AND 0xff))"

lemma channel_ends:
  assumes "unat s \<le> 255" and "unat b \<le> 255"
  shows "fast_div_255 (s * 0 + b * (255 - 0)) = b" "fast_div_255 (s * 255 + b * (255 - 255)) = s"
  using channel32[of s 0 b] channel32[of s 255 b] assms
  by (simp_all add: word_unat_eq_iff mix_ends)

lemma blend_pixel_uniform: "blend_pixel bg_rb bg_ag c = blended bg_rb bg_ag c"
proof -
  consider "drop_bit 24 c = 0" | "drop_bit 24 c = 255" | "drop_bit 24 c \<noteq> 0 \<and> drop_bit 24 c < 255"
    using byte_le(2)[of c] by (fastforce simp: word_less_nat_alt word_unat_eq_iff)
  then show ?thesis
  proof cases
    case 1
    then show ?thesis using channel_ends(1)[OF byte_le(1) byte_le(1)]
      by (simp add: blend_pixel_def blended_def)
  next
    case 2
    have "c OR 0xff000000 = 0xff000000 OR push_bit 16 (drop_bit 16 c AND 0xff) OR
        push_bit 8 (drop_bit 8 c AND 0xff) OR (c AND 0xff)"
      unfolding mask_eq
    proof (rule bit_word_eqI)
      fix n assume "n < LENGTH(32)"
      then have "n < 32" by simp
      then show "bit (c OR push_bit 24 (mask 8)) n = bit (push_bit 24 (mask 8) OR
          push_bit 16 (drop_bit 16 c AND mask 8) OR push_bit 8 (drop_bit 8 c AND mask 8) OR
          (c AND mask 8)) n"
        by (cases "16 \<le> n") (auto simp: bit_simps not_less)
    qed
    then show ?thesis using 2 channel_ends(2)[OF byte_le(1) byte_le(1)]
      by (simp add: blend_pixel_def blended_def)
  next
    case 3
    then show ?thesis by (simp add: blend_pixel_def blended_def Let_def)
  qed
qed

text \<open>A background as \<open>BlendColor\<close> splits it: \<open>00RR00BB\<close> and \<open>00AA00GG\<close>.\<close>

definition split_ok :: "u32 \<Rightarrow> bool" where
  "split_ok b \<longleftrightarrow> b AND 0x00ff00ff = b"

lemma split_parts:
  assumes "split_ok b"
  shows "hi16 b = ucast (drop_bit 16 b AND 0xff)" "lo16 b = ucast (b AND 0xff)"
  using rb_parts[of b] assms by (simp_all add: split_ok_def pixel_rb_def)

lemma inv_parts:
  "hi16 (subs_epu8 0x00ff00ff (expand_alpha c)) = 255 - ucast (drop_bit 24 c)"
  "lo16 (subs_epu8 0x00ff00ff (expand_alpha c)) = 255 - ucast (drop_bit 24 c)"
proof -
  have m: "hi16 0x00ff00ff = 0xff" "lo16 0x00ff00ff = 0xff" by (simp_all add: hi16_def lo16_def)
  have "unat (ucast (drop_bit 24 c) :: u16) \<le> 255" using byte_le(2)[of c] by (simp add: unat_ucast_byte)
  then show "hi16 (subs_epu8 0x00ff00ff (expand_alpha c)) = 255 - ucast (drop_bit 24 c)"
    "lo16 (subs_epu8 0x00ff00ff (expand_alpha c)) = 255 - ucast (drop_bit 24 c)"
    by (simp_all add: subs_epu8_def halves_def m alpha_parts subs16_alpha)
qed

lemma lane_channels:
  assumes "hi16 al = a" and "lo16 al = a" and "hi16 iv = 255 - a" and "lo16 iv = 255 - a"
  shows "fast_div_255_epu16 (adds_epu16 (mullo_epi16 s al) (mullo_epi16 b iv)) =
    join16 (channel16 (hi16 s) a (hi16 b)) (channel16 (lo16 s) a (lo16 b))"
proof -
  have "hi16 0x01010101 = 0x0101" "lo16 0x01010101 = 0x0101" by (simp_all add: hi16_def lo16_def)
  then show ?thesis
    by (simp add: fast_div_255_epu16_def srli_epi16_def adds_epu16_def mullo_epi16_def halves_def
        assms channel16_def Let_def)
qed

lemma pack_lanes:
  assumes "unat r \<le> 255" and "unat g \<le> 255" and "unat b \<le> 255" and "unat a \<le> 255"
  shows "(push_bit 8 (join16 a g) OR join16 r b) OR 0xff000000 =
    (0xff000000 OR push_bit 16 (ucast r) OR push_bit 8 (ucast g) OR ucast b :: u32)"
proof -
  have m: "x = take_bit 8 x" if "unat x \<le> 255" for x :: u16
    using that by (simp only: word_unat_eq_iff unsigned_take_bit_eq) (simp add: take_bit_eq_mod)
  have "\<not> bit x n" if "unat x \<le> 255" "8 \<le> n" for x :: u16 and n
    using m[OF that(1)] that(2) by (metis bit_take_bit_iff not_le)
  with assms have "\<And>n. 8 \<le> n \<Longrightarrow> \<not> bit r n \<and> \<not> bit g n \<and> \<not> bit b n \<and> \<not> bit a n" by blast
  then show ?thesis unfolding mask_eq join16_def
    by (intro bit_word_eqI) (auto simp: bit_simps not_less dest: bit_imp_le_length)
qed

lemma blend_lane_uniform:
  assumes "split_ok bg_rb" and "split_ok bg_ag"
  shows "blend_lane bg_rb bg_ag c = blended bg_rb bg_ag c"
proof -
  let ?a = "ucast (drop_bit 24 c) :: u16"
  let ?ch = "\<lambda>s b. channel16 (ucast s) ?a (ucast b)"
  note L = lane_channels[OF alpha_parts inv_parts]
  have le: "unat (?ch s b) \<le> 255" if "unat s \<le> 255" "unat b \<le> 255" for s b :: u32
    using that byte_le(2)[of c] by (simp add: channel16_exact unat_ucast_byte mix_le)
  have "blend_lane bg_rb bg_ag c =
      (push_bit 8 (join16 (?ch (drop_bit 24 c) (drop_bit 16 bg_ag AND 0xff))
                          (?ch (drop_bit 8 c AND 0xff) (bg_ag AND 0xff))) OR
       join16 (?ch (drop_bit 16 c AND 0xff) (drop_bit 16 bg_rb AND 0xff))
              (?ch (c AND 0xff) (bg_rb AND 0xff))) OR 0xff000000"
    by (simp only: blend_lane_def Let_def L rb_parts ag_parts split_parts[OF assms(1)]
        split_parts[OF assms(2)])
  also have "\<dots> = blended bg_rb bg_ag c"
    by (subst pack_lanes) (simp_all only: le byte_le blended_def Let_def channels_agree)
  finally show ?thesis .
qed

lemma split_masks: "split_ok (color AND 0x00ff00ff)" "split_ok (drop_bit 8 color AND 0x00ff00ff)"
  by (simp_all add: split_ok_def and.assoc)

section \<open>BlendColor\<close>

text \<open>
  A row as pixels of \<open>k\<close> bytes: what the code reads and writes through an \<open>IUINT32 *\<close> or an
  \<open>IUINT16 *\<close> into the row, on the little-endian machines it is built for.
\<close>

fun row_pixels :: "nat \<Rightarrow> nat \<Rightarrow> bytes \<Rightarrow> 'a::len word list" where
  "row_pixels k 0 bs = []"
| "row_pixels k (Suc n) bs = le_word (take k bs) # row_pixels k n (drop k bs)"

definition row_store :: "nat \<Rightarrow> 'a::len word list \<Rightarrow> bytes \<Rightarrow> bytes" where
  "row_store k px bs = concat (map (le_bytes k) px) @ drop (k * length px) bs"

definition on_row :: "nat \<Rightarrow> ('a::len word list \<Rightarrow> 'a word list) \<Rightarrow> nat \<Rightarrow> bytes \<Rightarrow> bytes" where
  "on_row k f w bs = row_store k (f (row_pixels k w bs)) bs"

definition pixel_asm_1555 :: "u32 \<Rightarrow> u32 \<Rightarrow> u32 \<Rightarrow> u32 \<Rightarrow> u16" where
  "pixel_asm_1555 a b c d = push_bit 8 (ucast (a AND 0x80)) OR push_bit 7 (ucast (b AND 0xf8)) OR
     push_bit 2 (ucast (c AND 0xf8)) OR drop_bit 3 (ucast (d AND 0xf8))"

definition pixel_asm_4444 :: "u32 \<Rightarrow> u32 \<Rightarrow> u32 \<Rightarrow> u32 \<Rightarrow> u16" where
  "pixel_asm_4444 a b c d = push_bit 8 (ucast (a AND 0xf0)) OR push_bit 4 (ucast (b AND 0xf0)) OR
     ucast (c AND 0xf0) OR drop_bit 4 (ucast (d AND 0xf0))"

definition pixel_scale_4 :: "u32 list" where
  "pixel_scale_4 = [0, 16, 32, 49, 65, 82, 98, 115, 139, 156, 172, 189, 205, 222, 238, 255]"

definition scale_4 :: "u16 \<Rightarrow> nat \<Rightarrow> u32" where
  "scale_4 x k = pixel_scale_4 ! unat (drop_bit k x AND 0xf)"

definition blend_1555 :: "u32 \<Rightarrow> u16 \<Rightarrow> u16" where
  "blend_1555 color p =
     (let bg_r = drop_bit 16 color AND 0xff; bg_g = drop_bit 8 color AND 0xff; bg_b = color AND 0xff
      in if p AND 0x8000 = 0 then pixel_asm_1555 0xff bg_r bg_g bg_b else p)"

definition blend_4444 :: "u32 \<Rightarrow> u16 \<Rightarrow> u16" where
  "blend_4444 color p =
     (let bg_r = drop_bit 16 color AND 0xff; bg_g = drop_bit 8 color AND 0xff; bg_b = color AND 0xff;
          a = scale_4 p 12; r = scale_4 p 8; g = scale_4 p 4; b = scale_4 p 0;
          inv_a = 255 - a;
          ch = (\<lambda>s bg. if a = 0 then bg
            else if a < 255 then fast_div_255 (s * a + bg * inv_a) else s)
      in pixel_asm_4444 0xff (ch r bg_r) (ch g bg_g) (ch b bg_b))"

text \<open>\<open>row_fn\<close> is \<open>BlendColorRowPtr\<close>, or the portable row when no driver is set.\<close>

definition BlendColor :: "(u32 \<Rightarrow> u32 \<Rightarrow> u32 list \<Rightarrow> u32 list) \<Rightarrow> u32 \<Rightarrow> bitmap \<Rightarrow> bitmap" where
  "BlendColor row_fn color b =
     (let w = bm_w b;
          bg_rb = color AND 0x00ff00ff; bg_ag = drop_bit 8 color AND 0x00ff00ff in
      case bm_fmt b of
        A8R8G8B8 \<Rightarrow> b\<lparr>bm_lines := map (on_row 4 (row_fn bg_rb bg_ag) w) (bm_lines b)\<rparr>
      | A8B8G8R8 \<Rightarrow>
          let bg_rb_swap = (drop_bit 16 color AND 0xff) OR push_bit 16 (color AND 0xff);
              bg_rb2 = bg_rb_swap AND 0x00ff00ff
          in b\<lparr>bm_lines := map (on_row 4 (row_fn bg_rb2 bg_ag) w) (bm_lines b)\<rparr>
      | A1R5G5B5 \<Rightarrow> b\<lparr>bm_lines := map (on_row 2 (map (blend_1555 color)) w) (bm_lines b)\<rparr>
      | A4R4G4B4 \<Rightarrow> b\<lparr>bm_lines := map (on_row 2 (map (blend_4444 color)) w) (bm_lines b)\<rparr>
      | _ \<Rightarrow> b)"

definition pixel_at :: "bitmap \<Rightarrow> nat \<Rightarrow> nat \<Rightarrow> u32" where
  "pixel_at b j i = row_pixels 4 (bm_w b) (bm_lines b ! j) ! i"

definition bitmap_ok :: "bitmap \<Rightarrow> bool" where
  "bitmap_ok b \<longleftrightarrow> length (bm_lines b) = bm_h b \<and>
     (\<forall>l\<in>set (bm_lines b). length l = pitch_of (bm_w b) (bm_fmt b))"

lemma length_row_pixels [simp]: "length (row_pixels k n bs) = n"
  by (induction k n bs rule: row_pixels.induct) simp_all

lemma row_pixels_store:
  "LENGTH('a) = 8 * k \<Longrightarrow> row_pixels k (length px) (concat (map (le_bytes k) px) @ bs) =
     (px :: 'a::len word list)"
proof -
  assume l: "LENGTH('a) = 8 * k"
  have "take_bit (8 * k) a = a" for a :: "'a word" by (metis l take_bit_length_eq)
  then show ?thesis by (induction px) (simp_all add: le_word_le_bytes)
qed

lemma length_concat_bytes: "length (concat (map (le_bytes k) px)) = k * length px"
  by (induction px) simp_all

lemma pixel_round_le: "0 < n \<Longrightarrow> x \<le> pixel_round x n \<and> pixel_round x n < x + n"
proof -
  assume n: "0 < n"
  have "(x + n - 1) div n * n + (x + n - 1) mod n = x + n - 1" by simp
  moreover have "(x + n - 1) mod n < n" using n by simp
  ultimately show ?thesis using n unfolding pixel_round_def by linarith
qed

lemma pitch_holds_row: "w * pixelsize f \<le> pitch_of w f"
  by (simp add: pitch_of_def pixel_round_le)

lemma BlendColorRow_SSE2_map:
  "split_ok bg_rb \<Longrightarrow> split_ok bg_ag \<Longrightarrow> BlendColorRow_SSE2 bg_rb bg_ag px = map (blended bg_rb bg_ag) px"
  by (induction bg_rb bg_ag px rule: BlendColorRow_SSE2.induct)
    (simp_all add: blend_lane_uniform blend_pixel_uniform)

lemma row_fns_agree:
  "row_fn \<in> {BlendColorRow_Default, BlendColorRow_SSE2} \<Longrightarrow>
   row_fn (color AND 0x00ff00ff) (drop_bit 8 color AND 0x00ff00ff) px =
   map (blended (color AND 0x00ff00ff) (drop_bit 8 color AND 0x00ff00ff)) px"
  using BlendColorRow_SSE2_map[OF split_masks] by (auto simp: BlendColorRow_Default_def blend_pixel_uniform)

lemma on_row_pixel:
  assumes "4 * w \<le> length bs" and "i < w" and "length (f (row_pixels 4 w bs)) = w"
  shows "row_pixels 4 w (on_row 4 f w bs) ! i = (f (row_pixels 4 w bs) ! i :: u32)"
  using row_pixels_store[of 4 "f (row_pixels 4 w bs) :: u32 list"] assms
  by (simp add: on_row_def row_store_def)

section \<open>Properties\<close>

text \<open>
  C18.  The SSE2 row function that can replace the portable one computes the same pixels,
  for every background colour and every row, whatever its length modulo four.
\<close>

theorem sse2_blend_equals_portable:
  "BlendColorRow_SSE2 (color AND 0x00ff00ff) (drop_bit 8 color AND 0x00ff00ff) pixels =
   BlendColorRow_Default (color AND 0x00ff00ff) (drop_bit 8 color AND 0x00ff00ff) pixels"
  by (simp add: BlendColorRow_SSE2_map[OF split_masks] BlendColorRow_Default_def blend_pixel_uniform)

text \<open>The channels of a blended pixel.\<close>

definition channel_of :: "u32 \<Rightarrow> nat \<Rightarrow> nat" where
  "channel_of c k = unat (drop_bit (8 * k) c AND 0xff)"

lemma blended_bits:
  assumes "unat r \<le> 255" and "unat g \<le> 255" and "unat b \<le> 255"
  shows "channel_of (0xff000000 OR push_bit 16 r OR push_bit 8 g OR b) k =
    (if k = 0 then unat b else if k = 1 then unat g else if k = 2 then unat r
     else if k = 3 then 255 else 0)"
proof -
  have m: "x = take_bit 8 x" if "unat x \<le> 255" for x :: u32
    using that by (simp only: word_unat_eq_iff unsigned_take_bit_eq) (simp add: take_bit_eq_mod)
  have n: "\<not> bit x n" if "unat x \<le> 255" "8 \<le> n" for x :: u32 and n
    using m[OF that(1)] that(2) by (metis bit_take_bit_iff not_le)
  have nb: "bit r n \<Longrightarrow> n < 8" "bit g n \<Longrightarrow> n < 8" "bit b n \<Longrightarrow> n < 8" for n
    using assms n by (meson not_le)+
  let ?c = "0xff000000 OR push_bit 16 r OR push_bit 8 g OR b"
  have "?c AND 0xff = b" "drop_bit 8 ?c AND 0xff = g" "drop_bit 16 ?c AND 0xff = r"
    "drop_bit 24 ?c AND 0xff = 0xff"
    unfolding mask_eq by (rule bit_word_eqI; auto simp: bit_simps not_less dest: nb)+
  moreover have "4 \<le> k \<Longrightarrow> drop_bit (8 * k) ?c = 0"
    by (intro bit_word_eqI) (auto simp: bit_simps dest: bit_imp_le_length)
  moreover consider "k = 0" | "k = 1" | "k = 2" | "k = 3" | "4 \<le> k" by linarith
  ultimately show ?thesis by cases (simp_all add: channel_of_def)
qed

lemma blended_channels:
  "channel_of (blended bg_rb bg_ag c) k =
    (if k = 3 then 255
     else if k = 2 then mix (channel_of c 2) (channel_of c 3) (channel_of bg_rb 2)
     else if k = 1 then mix (channel_of c 1) (channel_of c 3) (channel_of bg_ag 0)
     else if k = 0 then mix (channel_of c 0) (channel_of c 3) (channel_of bg_rb 0) else 0)"
proof -
  have "drop_bit 24 c AND 0xff = drop_bit 24 c"
    unfolding mask_eq by (rule bit_word_eqI) (auto simp: bit_simps dest: bit_imp_le_length)
  then have a: "channel_of c 3 = unat (drop_bit 24 c)" by (simp add: channel_of_def)
  have ch: "unat (fast_div_255 (s * drop_bit 24 c + b * (255 - drop_bit 24 c))) =
      mix (unat s) (channel_of c 3) (unat b)" if "unat s \<le> 255" "unat b \<le> 255" for s b
    using channel32[OF that(1) byte_le(2) that(2)] by (simp add: a)
  have le: "mix (unat s) (channel_of c 3) (unat b) \<le> 255" if "unat s \<le> 255" "unat b \<le> 255" for s b :: u32
    using that byte_le(2) by (simp add: a mix_le)
  show ?thesis unfolding blended_def Let_def
    by (subst blended_bits) (simp_all only: ch le byte_le, simp_all add: channel_of_def)
qed

lemma bg_channels:
  "channel_of (color AND 0x00ff00ff) 2 = channel_of color 2"
  "channel_of (color AND 0x00ff00ff) 0 = channel_of color 0"
  "channel_of (drop_bit 8 color AND 0x00ff00ff) 0 = channel_of color 1"
proof -
  have "drop_bit 16 (color AND 0x00ff00ff) AND 0xff = drop_bit 16 color AND 0xff"
    "(color AND 0x00ff00ff) AND 0xff = color AND 0xff"
    "(drop_bit 8 color AND 0x00ff00ff) AND 0xff = drop_bit 8 color AND 0xff"
    unfolding mask_eq by (rule bit_word_eqI; auto simp: bit_simps)+
  then show "channel_of (color AND 0x00ff00ff) 2 = channel_of color 2"
    "channel_of (color AND 0x00ff00ff) 0 = channel_of color 0"
    "channel_of (drop_bit 8 color AND 0x00ff00ff) 0 = channel_of color 1"
    by (simp_all add: channel_of_def)
qed

text \<open>
   Blending a picture in \<open>A8R8G8B8\<close>, with either row function: afterwards every pixel is
  opaque, and each of its colours is the weighted mean of the pixel's and the background's,
  rounded down, so an opaque pixel keeps its colour and a clear one gets the background.
\<close>

theorem blend_color_pixels:
  assumes "bm_fmt b = A8R8G8B8" and "bitmap_ok b" and "j < bm_h b" and "i < bm_w b"
    and "row_fn \<in> {BlendColorRow_Default, BlendColorRow_SSE2}"
    and "p = pixel_at b j i" and "q = pixel_at (BlendColor row_fn color b) j i"
  shows "channel_of q 3 = 255 \<and>
    (\<forall>k<3. channel_of q k = mix (channel_of p k) (channel_of p 3) (channel_of color k))"
proof -
  let ?f = "row_fn (color AND 0x00ff00ff) (drop_bit 8 color AND 0x00ff00ff)"
  let ?g = "blended (color AND 0x00ff00ff) (drop_bit 8 color AND 0x00ff00ff)"
  have f: "?f px = map ?g px" for px by (rule row_fns_agree[OF assms(5)])
  have j: "j < length (bm_lines b)" using assms(2,3) by (simp add: bitmap_ok_def)
  have "length (bm_lines b ! j) = pitch_of (bm_w b) A8R8G8B8"
    using assms(1,2) j by (simp add: bitmap_ok_def)
  then have l: "4 * bm_w b \<le> length (bm_lines b ! j)"
    using pitch_holds_row[of "bm_w b" A8R8G8B8] by (simp add: pixelsize_def)
  have "bm_lines (BlendColor row_fn color b) ! j = on_row 4 ?f (bm_w b) (bm_lines b ! j)"
    "bm_w (BlendColor row_fn color b) = bm_w b"
    using assms(1) j by (simp_all add: BlendColor_def)
  then have "q = ?f (row_pixels 4 (bm_w b) (bm_lines b ! j)) ! i"
    unfolding assms(7) pixel_at_def using on_row_pixel[OF l assms(4), of ?f] by (simp add: f)
  then have "q = ?g p" using assms(4) by (simp add: f assms(6) pixel_at_def)
  moreover have "k < 3 \<Longrightarrow> k = 0 \<or> k = 1 \<or> k = 2" for k :: nat by linarith
  moreover have "channel_of (drop_bit 8 color) 0 = channel_of color (Suc 0)"
    by (simp add: channel_of_def)
  ultimately show ?thesis by (auto simp: blended_channels bg_channels)
qed

definition ex_bitmap :: bitmap where
  "ex_bitmap = \<lparr>bm_w = 1, bm_h = 1, bm_fmt = A8R8G8B8, bm_lines = [[0, 0, 200, 128]]\<rparr>"

theorem blend_color_pixels_witness:
  "channel_of (pixel_at (BlendColor BlendColorRow_SSE2 0xFAFAFA ex_bitmap) 0 0) 3 = 255 \<and>
   channel_of (pixel_at (BlendColor BlendColorRow_SSE2 0xFAFAFA ex_bitmap) 0 0) 2 = mix 200 128 250"
proof -
  have h: "bm_fmt ex_bitmap = A8R8G8B8" "bitmap_ok ex_bitmap" "0 < bm_h ex_bitmap" "0 < bm_w ex_bitmap"
    by code_simp+
  have c: "channel_of (pixel_at ex_bitmap 0 0) 2 = 200" "channel_of (pixel_at ex_bitmap 0 0) 3 = 128"
    "channel_of 0xFAFAFA 2 = 250" by code_simp+
  have "BlendColorRow_SSE2 \<in> {BlendColorRow_Default, BlendColorRow_SSE2}" by simp
  from blend_color_pixels[OF h this refl refl, of "0xFAFAFA"] c show ?thesis by simp
qed

end
