(* ===== verification/Codecs.thy ===== *)
theory Codecs
  imports Bitmap Uni_File
begin

text \<open>
  obZrv/GdiPlusCodec.cpp and obZrv/WebpCodec.cpp: the two codecs.  GDI+ and libwebp are given by
  what they report about a file: a record for a GDI+ bitmap, and functions on an abstract
  decoder for the animated WebP.  What the code makes of it is modelled: which files count as
  animated, the delays and the loop count, the conversion into a \<open>bitmap\<close> in blocks of rows,
  and the frame cursor of \<open>nextFrame\<close>.  The cursor's contract is the locale \<open>frames\<close>, which
  both classes fulfil and on which the animation of the document is built.
\<close>

section \<open>The contract of an animated image\<close>

text \<open>
  \<open>frame_at\<close> is the frame the cursor is on, \<open>delays\<close> the delay of every frame, and \<open>pictured\<close>
  the frame whose picture is at hand; a run past the last frame is answered by
  \<open>IM_NO_MORE_FRAMES\<close>, keeps the picture and otherwise only promises that a rewind works.  A
  frame that cannot be decoded is another code, and the cursor moves all the same.
\<close>

locale frames =
  fixes next_frame :: "bool \<Rightarrow> 'i \<Rightarrow> im_code \<times> 'i"
    and frame_delay :: "'i \<Rightarrow> int option"
    and frame_count :: "'i \<Rightarrow> int"
    and loop_num :: "'i \<Rightarrow> int"
    and live :: "'i \<Rightarrow> bool"
    and frame_at :: "'i \<Rightarrow> nat option"
    and delays :: "'i \<Rightarrow> int list"
    and pictured :: "'i \<Rightarrow> nat"
  assumes many: "live i \<Longrightarrow> frame_count i = int (length (delays i)) \<and> 1 < length (delays i) \<and>
        (\<forall>d\<in>set (delays i). 0 \<le> d)"
    and delay: "live i \<Longrightarrow> frame_at i = Some k \<Longrightarrow> k < length (delays i) \<and>
        frame_delay i = Some (delays i ! k) \<and> pictured i = k"
    and rewound: "live i \<Longrightarrow> next_frame True i = (r, j) \<Longrightarrow>
        r \<noteq> IM_NO_MORE_FRAMES \<and> live j \<and> delays j = delays i \<and> loop_num j = loop_num i \<and> frame_at j = Some 0"
    and advanced: "live i \<Longrightarrow> frame_at i = Some k \<Longrightarrow> next_frame False i = (r, j) \<Longrightarrow>
        live j \<and> delays j = delays i \<and> loop_num j = loop_num i \<and>
        (if k + 1 < length (delays i) then r \<noteq> IM_NO_MORE_FRAMES \<and> frame_at j = Some (k + 1)
         else r = IM_NO_MORE_FRAMES \<and> pictured j = k)"

section \<open>GDI+ bitmaps\<close>

datatype gdi_format = Fmt_GIF | Fmt_TIFF | Fmt_BMP | Fmt_EMF | Fmt_WMF | Fmt_JPEG | Fmt_PNG
  | Fmt_Icon | Fmt_Other

datatype gdi_pixfmt = Px32ARGB | Px32PARGB | Px64ARGB | Px64PARGB | Px32RGB | Px24RGB | Px48RGB
  | Px16RGB565 | Px16RGB555 | Px16ARGB1555 | Px16GrayScale | Px8Indexed | Px4Indexed | Px1Indexed
  | PxOther

text \<open>
  A loaded \<open>Gdiplus::Bitmap\<close>: the results of its queries (\<open>None\<close> is a status other than
  \<open>Ok\<close>), the frame counts of its dimensions, and \<open>LockBits\<close> of the active frame, which
  gives the rows from a line on in a pixel format.
\<close>

record gdi_bitmap =
  gb_width :: nat
  gb_height :: nat
  gb_raw :: "gdi_format option"
  gb_dims :: "nat list option"
  gb_delays :: "int list option"
  gb_loop :: "int option"
  gb_pixfmt :: gdi_pixfmt
  gb_lock :: "nat \<Rightarrow> nat \<Rightarrow> nat \<Rightarrow> gdi_pixfmt \<Rightarrow> bytes list option"

section \<open>gdiplusConvert\<close>

fun convert_outfmt :: "gdi_pixfmt \<Rightarrow> pixel_fmt" where
  "convert_outfmt Px32ARGB = A8R8G8B8"
| "convert_outfmt Px24RGB = R8G8B8"
| "convert_outfmt Px16RGB565 = R5G6B5"
| "convert_outfmt Px16ARGB1555 = A1R5G5B5"
| "convert_outfmt Px16RGB555 = X1R5G5B5"
| "convert_outfmt Px32PARGB = A8R8G8B8"
| "convert_outfmt Px64ARGB = A8R8G8B8"
| "convert_outfmt Px64PARGB = A8R8G8B8"
| "convert_outfmt _ = R8G8B8"

fun convert_getfmt :: "pixel_fmt \<Rightarrow> (gdi_pixfmt \<times> nat) option" where
  "convert_getfmt A8R8G8B8 = Some (Px32ARGB, 4)"
| "convert_getfmt R8G8B8 = Some (Px24RGB, 3)"
| "convert_getfmt R5G6B5 = Some (Px16RGB565, 2)"
| "convert_getfmt A1R5G5B5 = Some (Px16ARGB1555, 2)"
| "convert_getfmt X1R5G5B5 = Some (Px16RGB555, 2)"
| "convert_getfmt _ = None"

text \<open>\<open>(nbytes * width + 3) & ~3\<close>, and the rows per block: about ten megabytes.\<close>

definition convert_stride :: "nat \<Rightarrow> nat \<Rightarrow> nat" where
  "convert_stride nbytes width = (nbytes * width + 3) div 4 * 4"

definition convert_linestep :: "nat \<Rightarrow> nat" where
  "convert_linestep stride = max 1 (1024 * 1024 * 10 div stride)"

text \<open>One row: \<open>stride\<close> bytes over the start of the row of the new bitmap.\<close>

definition copy_row :: "nat \<Rightarrow> bytes \<Rightarrow> bytes \<Rightarrow> bytes" where
  "copy_row stride src dst = take stride src @ drop stride dst"

fun copy_rows :: "nat \<Rightarrow> nat \<Rightarrow> bytes list \<Rightarrow> bytes list \<Rightarrow> bytes list" where
  "copy_rows stride i [] ls = ls"
| "copy_rows stride i (src # srcs) ls =
     copy_rows stride (i + 1) srcs (ls[i := copy_row stride src (ls ! i)])"

text \<open>The loop over the blocks; \<open>None\<close> is a failed \<open>LockBits\<close>.\<close>

function convert_blocks :: "(nat \<Rightarrow> nat \<Rightarrow> gdi_pixfmt \<Rightarrow> bytes list option) \<Rightarrow> gdi_pixfmt \<Rightarrow> nat \<Rightarrow>
    nat \<Rightarrow> nat \<Rightarrow> nat \<Rightarrow> bytes list \<Rightarrow> bytes list option" where
  "convert_blocks lock getfmt stride linestep height i ls =
     (if i < height \<and> 0 < linestep then
        let blockh = min linestep (height - i) in
        (case lock i blockh getfmt of None \<Rightarrow> None
         | Some srcs \<Rightarrow> convert_blocks lock getfmt stride linestep height (i + linestep)
             (copy_rows stride i (take blockh srcs) ls))
      else Some ls)"
  by pat_completeness auto
termination
  by (relation "measure (\<lambda>(lock, getfmt, stride, linestep, height, i, ls). height - i)") auto

declare convert_blocks.simps [simp del]

text \<open>\<open>None\<close> is the null pointer.  A width of zero would divide by zero; GDI+ has no such bitmap.\<close>

definition gdiplusConvert :: "gdi_bitmap \<Rightarrow> nat \<Rightarrow> bitmap option" where
  "gdiplusConvert gb frame =
     (let outfmt = convert_outfmt (gb_pixfmt gb) in
      case convert_getfmt outfmt of None \<Rightarrow> None
      | Some (getfmt, nbytes) \<Rightarrow>
        let width = gb_width gb; height = gb_height gb; stride = convert_stride nbytes width in
        (case new_bitmap width height outfmt of None \<Rightarrow> None
         | Some bmp \<Rightarrow>
           map_option (\<lambda>ls. bmp\<lparr>bm_lines := ls\<rparr>)
             (convert_blocks (gb_lock gb frame) getfmt stride (convert_linestep stride) height 0
                (bm_lines bmp))))"

section \<open>GdiPlusImage\<close>

record gdi_image =
  gi_fmt :: gdi_format
  gi_dim :: "nat \<times> nat"
  gi_framecnt :: int
  gi_framedelay :: "int list"
  gi_loopnum :: int
  gi_curfid :: int
  gi_pixfmt :: gdi_pixfmt
  gi_fbitmap :: "bitmap option"
  gi_gbitmap :: "gdi_bitmap option"
  gi_bgcolor :: u32
  gi_filebuf :: "bytes option"

definition gdi_image_new :: gdi_image where
  "gdi_image_new = \<lparr>gi_fmt = Fmt_Other, gi_dim = (0, 0), gi_framecnt = 0, gi_framedelay = [],
     gi_loopnum = 0, gi_curfid = 0, gi_pixfmt = Px32ARGB, gi_fbitmap = None, gi_gbitmap = None,
     gi_bgcolor = 0, gi_filebuf = None\<rparr>"

text \<open>
  The delays in hundredths of a second become milliseconds; the frame delay property must have
  a value for every frame, since the loop reads that many (\<open>None\<close>: it reads past the end).
  A loop count of zero or less plays for ever, but only once when all delays are zero.
\<close>

definition anim_info :: "gdi_bitmap \<Rightarrow> nat \<Rightarrow> (im_code + int list \<times> int) option" where
  "anim_info gb framecnt =
     (case gb_delays gb of None \<Rightarrow> Some (Inl IM_FAIL)
      | Some ds \<Rightarrow>
        if length ds < framecnt then None
        else let fd = map (\<lambda>d. max (d * 10) 0) (take framecnt ds) in
        (case gb_loop gb of None \<Rightarrow> Some (Inl IM_FAIL)
         | Some n \<Rightarrow> Some (Inr (fd, if sum_list fd = 0 \<and> n \<le> 0 then 1 else n))))"

definition frame_blended :: "(u32 \<Rightarrow> bitmap \<Rightarrow> bitmap) \<Rightarrow> u32 \<Rightarrow> gdi_bitmap \<Rightarrow> nat \<Rightarrow> bitmap option" where
  "frame_blended blend bg gb frame = map_option (blend bg) (gdiplusConvert gb frame)"

text \<open>\<open>load\<close> is the memory stream and \<open>FromStream\<close>; the file buffer is in \<open>gi_filebuf\<close>.\<close>

definition gdi_openFromBuffer :: "(bytes \<Rightarrow> gdi_bitmap option) \<Rightarrow> (u32 \<Rightarrow> bitmap \<Rightarrow> bitmap) \<Rightarrow> u32 \<Rightarrow>
    bytes \<Rightarrow> (im_code + gdi_image) option" where
  "gdi_openFromBuffer load blend bg buf =
     (case load buf of None \<Rightarrow> Some (Inl IM_FAIL)
      | Some gb \<Rightarrow>
      (case gb_raw gb of None \<Rightarrow> Some (Inl IM_NOT_SUPPORTED)
       | Some fmt \<Rightarrow>
       (case gb_dims gb of None \<Rightarrow> Some (Inl IM_FAIL)
        | Some dims \<Rightarrow>
          let framecnt = (case dims of [] \<Rightarrow> 1 | n # _ \<Rightarrow> n);
              cnt = (if framecnt > 1 \<and> fmt \<noteq> Fmt_GIF \<and> fmt \<noteq> Fmt_TIFF then 1 else int framecnt) in
          (case (if framecnt > 1 then anim_info gb framecnt else Some (Inr ([], 0))) of
             None \<Rightarrow> None
           | Some (Inl e) \<Rightarrow> Some (Inl e)
           | Some (Inr (fd, n)) \<Rightarrow>
             (case frame_blended blend bg gb 0 of None \<Rightarrow> Some (Inl IM_FAIL)
              | Some bmp \<Rightarrow> Some (Inr (gdi_image_new\<lparr>gi_fmt := fmt,
                  gi_dim := (gb_width gb, gb_height gb), gi_framecnt := cnt, gi_framedelay := fd,
                  gi_loopnum := n, gi_pixfmt := gb_pixfmt gb, gi_fbitmap := Some bmp,
                  gi_gbitmap := (if cnt \<le> 1 then None else Some gb), gi_bgcolor := bg,
                  gi_filebuf := (if cnt \<le> 1 then None else Some buf)\<rparr>)))))))"

definition gdi_nextFrame :: "(u32 \<Rightarrow> bitmap \<Rightarrow> bitmap) \<Rightarrow> bool \<Rightarrow> gdi_image \<Rightarrow> im_code \<times> gdi_image" where
  "gdi_nextFrame blend rewind im =
     (if gi_framecnt im \<le> 1 then (IM_OK, im)
      else let im1 = im\<lparr>gi_curfid := (if rewind then 0 else gi_curfid im + 1)\<rparr> in
      if gi_curfid im1 \<ge> gi_framecnt im1 then (IM_NO_MORE_FRAMES, im1)
      else case gi_gbitmap im1 of None \<Rightarrow> (IM_FAIL, im1)
      | Some gb \<Rightarrow>
        (case frame_blended blend (gi_bgcolor im1) gb (nat (gi_curfid im1)) of
           None \<Rightarrow> (IM_FAIL, im1\<lparr>gi_fbitmap := None\<rparr>)
         | Some bmp \<Rightarrow> (IM_OK, im1\<lparr>gi_fbitmap := Some bmp\<rparr>)))"

text \<open>\<open>_framedelay[_curfid]\<close>; \<open>None\<close> is an index out of the vector.\<close>

definition gdi_getFrameDelay :: "gdi_image \<Rightarrow> int option" where
  "gdi_getFrameDelay im =
     (if 0 \<le> gi_curfid im \<and> gi_curfid im < int (length (gi_framedelay im))
      then Some (gi_framedelay im ! nat (gi_curfid im)) else None)"

fun gdi_getFormat :: "gdi_format \<Rightarrow> string" where
  "gdi_getFormat Fmt_GIF = ''gif''" | "gdi_getFormat Fmt_TIFF = ''tiff''"
| "gdi_getFormat Fmt_BMP = ''bmp''" | "gdi_getFormat Fmt_EMF = ''emf''"
| "gdi_getFormat Fmt_WMF = ''wmf''" | "gdi_getFormat Fmt_JPEG = ''jpeg''"
| "gdi_getFormat Fmt_PNG = ''png''" | "gdi_getFormat Fmt_Icon = ''icon''"
| "gdi_getFormat Fmt_Other = ''UNKNOWN''"

fun gdi_getColorInfo :: "gdi_pixfmt \<Rightarrow> string" where
  "gdi_getColorInfo Px32ARGB = ''ARGB32''" | "gdi_getColorInfo Px32PARGB = ''ARGB32''"
| "gdi_getColorInfo Px64ARGB = ''ARGB64''" | "gdi_getColorInfo Px64PARGB = ''ARGB64''"
| "gdi_getColorInfo Px32RGB = ''RGB32''" | "gdi_getColorInfo Px24RGB = ''RGB24''"
| "gdi_getColorInfo Px48RGB = ''RGB48''" | "gdi_getColorInfo Px16RGB565 = ''RGB16''"
| "gdi_getColorInfo Px16RGB555 = ''RGB16''" | "gdi_getColorInfo Px16ARGB1555 = ''ARGB16''"
| "gdi_getColorInfo Px16GrayScale = ''Gray16''" | "gdi_getColorInfo Px8Indexed = ''Index8''"
| "gdi_getColorInfo Px4Indexed = ''Index4''" | "gdi_getColorInfo Px1Indexed = ''Index1''"
| "gdi_getColorInfo PxOther = ''''"

definition gdi_types :: "string list" where
  "gdi_types = [''bmp'', ''jpg'', ''jpeg'', ''gif'', ''png'', ''tiff'', ''tif'', ''ico'']"

text \<open>\<open>GdiPlusCodec::open\<close>; the file is read through the \<open>UniFile\<close> operations.\<close>

definition gdi_open :: "('f \<Rightarrow> int \<Rightarrow> whence \<Rightarrow> int \<times> 'f) \<Rightarrow> ('f \<Rightarrow> int \<times> 'f) \<Rightarrow> ('f \<Rightarrow> nat \<Rightarrow> bytes \<times> 'f) \<Rightarrow>
    (bytes \<Rightarrow> gdi_bitmap option) \<Rightarrow> (u32 \<Rightarrow> bitmap \<Rightarrow> bitmap) \<Rightarrow> 'f \<Rightarrow> u32 \<Rightarrow>
    ((im_code + gdi_image) \<times> 'f) option" where
  "gdi_open seek tell read load blend f bg =
     (case read_from_unifile seek tell read \<lparr>filebuf = None, filesize = 0\<rparr> f of (r, b, f') \<Rightarrow>
      if r \<noteq> IM_OK then Some (Inl r, f')
      else case filebuf b of None \<Rightarrow> None
      | Some buf \<Rightarrow> map_option (\<lambda>res. (res, f')) (gdi_openFromBuffer load blend bg buf))"

section \<open>WebpImage\<close>

text \<open>
  libwebp: the features of a file (width, height, alpha, animation), the decoding of a still
  picture into rows, and the animation decoder with its reset, its test for more frames and its
  step, which gives the canvas as rows and the time stamp up to which it is shown.
\<close>

record 'd webp_api =
  wp_features :: "bytes \<Rightarrow> (nat \<times> nat \<times> bool \<times> bool) option"
  wp_still :: "bool \<Rightarrow> bytes \<Rightarrow> bytes list option"
  wp_new :: "bytes \<Rightarrow> 'd option"
  wp_info :: "'d \<Rightarrow> (int \<times> int \<times> nat \<times> nat) option"
  wp_reset :: "'d \<Rightarrow> 'd"
  wp_more :: "'d \<Rightarrow> bool"
  wp_next :: "'d \<Rightarrow> (bytes list \<times> int) option \<times> 'd"

record 'd webp_image =
  wi_dim :: "nat \<times> nat"
  wi_fbitmap :: "bitmap option"
  wi_bgcolor :: u32
  wi_framecnt :: int
  wi_frametm :: int
  wi_lframetm :: int
  wi_loopnum :: int
  wi_curfid :: int
  wi_animdec :: "'d option"
  wi_filebuf :: "bytes option"

definition webp_image_new :: "bytes \<Rightarrow> 'd webp_image" where
  "webp_image_new buf = \<lparr>wi_dim = (0, 0), wi_fbitmap = None, wi_bgcolor = 0, wi_framecnt = 0,
     wi_frametm = 0, wi_lframetm = 0, wi_loopnum = 0, wi_curfid = 0, wi_animdec = None,
     wi_filebuf = Some buf\<rparr>"

definition webp_getFrameDelay :: "'d webp_image \<Rightarrow> int" where
  "webp_getFrameDelay im = max 0 (wi_frametm im - wi_lframetm im)"

text \<open>The bitmap the frame is copied into: the old one, or a new one of the right shape.\<close>

definition webp_target :: "'d webp_image \<Rightarrow> bitmap option" where
  "webp_target im =
     (case wi_dim im of (w, h) \<Rightarrow>
      (case wi_fbitmap im of
         Some b \<Rightarrow> if bm_w b \<noteq> w \<or> bm_h b \<noteq> h \<or> bm_fmt b \<noteq> A8R8G8B8
                   then new_bitmap w h A8R8G8B8 else Some b
       | None \<Rightarrow> new_bitmap w h A8R8G8B8))"

definition webp_store :: "(u32 \<Rightarrow> bitmap \<Rightarrow> bitmap) \<Rightarrow> bytes list \<Rightarrow> 'd webp_image \<Rightarrow> 'd webp_image" where
  "webp_store blend canvas im =
     im\<lparr>wi_fbitmap := map_option (\<lambda>b. blend (wi_bgcolor im)
          (b\<lparr>bm_lines := copy_rows (fst (wi_dim im) * 4) 0 (take (bm_h b) canvas) (bm_lines b)\<rparr>))
        (webp_target im)\<rparr>"

text \<open>A null decoder has no more frames, as the library's functions treat it.\<close>

definition webp_nextFrame :: "'d webp_api \<Rightarrow> (u32 \<Rightarrow> bitmap \<Rightarrow> bitmap) \<Rightarrow> bool \<Rightarrow> 'd webp_image \<Rightarrow>
    im_code \<times> 'd webp_image" where
  "webp_nextFrame api blend rewind im =
     (if \<not> wi_framecnt im > 1 then (IM_OK, im)
      else let im1 = (if rewind then im\<lparr>wi_animdec := map_option (wp_reset api) (wi_animdec im),
                                       wi_frametm := 0, wi_lframetm := 0\<rparr> else im) in
      case wi_animdec im1 of None \<Rightarrow> (IM_NO_MORE_FRAMES, im1)
      | Some dec \<Rightarrow>
        if \<not> wp_more api dec then (IM_NO_MORE_FRAMES, im1)
        else let im2 = im1\<lparr>wi_lframetm := wi_frametm im1\<rparr> in
        (case wp_next api dec of (res, dec') \<Rightarrow>
          (case res of
             None \<Rightarrow> (IM_FAIL, im2\<lparr>wi_animdec := Some dec'\<rparr>)
           | Some (canvas, tm) \<Rightarrow>
               (IM_OK, webp_store blend canvas (im2\<lparr>wi_animdec := Some dec', wi_frametm := tm\<rparr>)))))"

definition webp_openFromBuffer :: "'d webp_api \<Rightarrow> (u32 \<Rightarrow> bitmap \<Rightarrow> bitmap) \<Rightarrow> u32 \<Rightarrow> bytes \<Rightarrow>
    im_code + 'd webp_image" where
  "webp_openFromBuffer api blend bg buf =
     (let im = (webp_image_new buf)\<lparr>wi_bgcolor := bg\<rparr> in
      case wp_features api buf of None \<Rightarrow> Inl IM_FAIL
      | Some (w, h, alpha, anim) \<Rightarrow>
        if \<not> anim then
          (case wp_still api alpha buf of None \<Rightarrow> Inl IM_FAIL
           | Some canvas \<Rightarrow>
               Inr (im\<lparr>wi_fbitmap := map_option (\<lambda>b. blend bg (b\<lparr>bm_lines := canvas\<rparr>))
                          (new_bitmap w h (if alpha then A8R8G8B8 else R8G8B8)),
                      wi_dim := (w, h), wi_filebuf := None\<rparr>))
        else (case wp_new api buf of None \<Rightarrow> Inl IM_FAIL
         | Some dec \<Rightarrow>
           (case wp_info api dec of None \<Rightarrow> Inl IM_FAIL
            | Some (cnt, loops, cw, ch) \<Rightarrow>
              (case webp_nextFrame api blend True (im\<lparr>wi_animdec := Some dec, wi_framecnt := cnt,
                      wi_loopnum := loops, wi_dim := (cw, ch)\<rparr>) of (res, im1) \<Rightarrow>
                if res \<noteq> IM_OK then Inl res
                else if cnt \<le> 1 then Inr (im1\<lparr>wi_animdec := None, wi_filebuf := None\<rparr>)
                else Inr im1))))"

definition webp_types :: "string list" where
  "webp_types = [''webp'']"

definition webp_getColorInfo :: "'d webp_image \<Rightarrow> string" where
  "webp_getColorInfo im = (case wi_fbitmap im of None \<Rightarrow> ''''
     | Some b \<Rightarrow> if bm_fmt b = A8R8G8B8 then ''ARGB32'' else ''RGB24'')"

definition webp_open :: "('f \<Rightarrow> int \<Rightarrow> whence \<Rightarrow> int \<times> 'f) \<Rightarrow> ('f \<Rightarrow> int \<times> 'f) \<Rightarrow> ('f \<Rightarrow> nat \<Rightarrow> bytes \<times> 'f) \<Rightarrow>
    'd webp_api \<Rightarrow> (u32 \<Rightarrow> bitmap \<Rightarrow> bitmap) \<Rightarrow> 'f \<Rightarrow> u32 \<Rightarrow> ((im_code + 'd webp_image) \<times> 'f) option" where
  "webp_open seek tell read api blend f bg =
     (case read_from_unifile seek tell read \<lparr>filebuf = None, filesize = 0\<rparr> f of (r, b, f') \<Rightarrow>
      if r \<noteq> IM_OK then Some (Inl r, f')
      else case filebuf b of None \<Rightarrow> None
      | Some buf \<Rightarrow> Some (webp_openFromBuffer api blend bg buf, f'))"

section \<open>Both images are frame cursors\<close>

text \<open>
  The frame whose picture a GDI+ image holds: that of the cursor, or the last one after the
  end.  The picture is the conversion of that frame with the background blended in, and none
  when GDI+ cannot convert the frame: \<open>nextFrame\<close> then answers \<open>IM_FAIL\<close>, which the animation
  does not look at.
\<close>

definition gdi_shown :: "gdi_image \<Rightarrow> nat" where
  "gdi_shown im = nat (min (gi_curfid im) (gi_framecnt im - 1))"

definition gdi_frame_ok :: "(u32 \<Rightarrow> bitmap \<Rightarrow> bitmap) \<Rightarrow> gdi_image \<Rightarrow> bool" where
  "gdi_frame_ok blend im \<longleftrightarrow> 1 < gi_framecnt im \<and> gi_framecnt im = int (length (gi_framedelay im)) \<and>
     (\<forall>d\<in>set (gi_framedelay im). 0 \<le> d) \<and> 0 \<le> gi_curfid im \<and>
     (\<exists>gb. gi_gbitmap im = Some gb \<and>
        gi_fbitmap im = frame_blended blend (gi_bgcolor im) gb (gdi_shown im))"

text \<open>The same file: what \<open>nextFrame\<close> never changes.\<close>

definition gdi_same :: "gdi_image \<Rightarrow> gdi_image \<Rightarrow> bool" where
  "gdi_same img im \<longleftrightarrow> gi_framecnt im = gi_framecnt img \<and> gi_framedelay im = gi_framedelay img \<and>
     gi_loopnum im = gi_loopnum img \<and> gi_gbitmap im = gi_gbitmap img \<and>
     gi_bgcolor im = gi_bgcolor img \<and> gi_dim im = gi_dim img \<and> gi_filebuf im = gi_filebuf img"

definition gdi_frame_at :: "gdi_image \<Rightarrow> nat option" where
  "gdi_frame_at im = (if 0 \<le> gi_curfid im \<and> gi_curfid im < gi_framecnt im
     then Some (nat (gi_curfid im)) else None)"

lemma gdi_next_moves:
  assumes "gdi_frame_ok blend im" and "gdi_nextFrame blend rw im = (r, j)"
    and "cur = (if rw then 0 else gi_curfid im + 1)"
  shows "gdi_frame_ok blend j \<and> gdi_same im j \<and> gi_curfid j = cur \<and>
    (r = IM_NO_MORE_FRAMES \<longleftrightarrow> gi_framecnt im \<le> cur)"
proof -
  obtain gb where gb: "gi_gbitmap im = Some gb" using assms(1) by (auto simp: gdi_frame_ok_def)
  have c: "0 \<le> cur" using assms(1,3) by (auto simp: gdi_frame_ok_def)
  show ?thesis
  proof (cases "gi_framecnt im \<le> cur")
    case True
    then have "(r, j) = (IM_NO_MORE_FRAMES, im\<lparr>gi_curfid := cur\<rparr>)"
      using assms by (auto simp: gdi_nextFrame_def gdi_frame_ok_def Let_def)
    moreover have "\<not> rw" "cur = gi_curfid im + 1" using True assms(1,3)
      by (auto simp: gdi_frame_ok_def split: if_splits)
    moreover have "gdi_shown (im\<lparr>gi_curfid := cur\<rparr>) = gdi_shown im"
      using True calculation(3) by (auto simp: gdi_shown_def min_def)
    ultimately show ?thesis using assms(1) True c
      by (simp add: gdi_frame_ok_def gdi_same_def)
  next
    case False
    then have "gdi_shown (im\<lparr>gi_curfid := cur\<rparr>) = nat cur"
      by (simp add: gdi_shown_def min_def)
    with False show ?thesis using assms(1,2) assms(3)[symmetric] gb c
      by (auto simp: gdi_nextFrame_def gdi_frame_ok_def gdi_same_def gdi_shown_def Let_def
          split: option.splits)
  qed
qed

lemma gdi_same_trans: "gdi_same a b \<Longrightarrow> gdi_same b c \<Longrightarrow> gdi_same a c"
  by (simp add: gdi_same_def)

lemma gdi_same_refl: "gdi_same a a"
  by (simp add: gdi_same_def)

text \<open>A live cursor of the file \<open>img\<close>.\<close>

definition gdi_live :: "(u32 \<Rightarrow> bitmap \<Rightarrow> bitmap) \<Rightarrow> gdi_image \<Rightarrow> gdi_image \<Rightarrow> bool" where
  "gdi_live blend img im \<longleftrightarrow> gdi_frame_ok blend im \<and> gdi_same img im"

interpretation gdi: frames "gdi_nextFrame blend" gdi_getFrameDelay gi_framecnt gi_loopnum
  "gdi_live blend img" gdi_frame_at gi_framedelay gdi_shown
  for blend img
proof (unfold_locales, goal_cases)
  case (1 i)
  then show ?case by (auto simp: gdi_live_def gdi_frame_ok_def)
next
  case (2 i k)
  then show ?case
    by (auto simp: gdi_live_def gdi_frame_ok_def gdi_frame_at_def gdi_getFrameDelay_def gdi_shown_def
        min_def split: if_splits)
next
  case (3 i r j)
  then have i: "gdi_frame_ok blend i" "gdi_same img i" by (simp_all add: gdi_live_def)
  from gdi_next_moves[OF i(1) 3(2) refl] gdi_same_trans[OF i(2)] i(1) show ?case
    by (auto simp: gdi_live_def gdi_frame_ok_def gdi_frame_at_def gdi_same_def)
next
  case (4 i k r j)
  then have i: "gdi_frame_ok blend i" "gdi_same img i" by (simp_all add: gdi_live_def)
  from gdi_next_moves[OF i(1) 4(3) refl] gdi_same_trans[OF i(2)] i(1) 4(2) show ?case
    by (auto simp: gdi_live_def gdi_frame_ok_def gdi_frame_at_def gdi_same_def gdi_shown_def min_def
        split: if_splits)
qed

text \<open>
  The animation decoder of libwebp as documented: it gives the frames in order with time stamps
  that do not decrease, and starts over after a reset.
\<close>

fun stamp_delays :: "int \<Rightarrow> int list \<Rightarrow> int list" where
  "stamp_delays t0 [] = []"
| "stamp_delays t0 (t # ts) = (t - t0) # stamp_delays t ts"

lemma length_stamp_delays [simp]: "length (stamp_delays t0 ts) = length ts"
  by (induction t0 ts rule: stamp_delays.induct) simp_all

lemma stamp_delays_nth:
  "k < length ts \<Longrightarrow> stamp_delays t0 ts ! k = ts ! k - (t0 # ts) ! k"
  by (induction t0 ts arbitrary: k rule: stamp_delays.induct) (auto simp: nth_Cons split: nat.split)

lemma stamp_delays_nonneg: "sorted (t0 # ts) \<Longrightarrow> d \<in> set (stamp_delays t0 ts) \<Longrightarrow> 0 \<le> d"
  by (induction t0 ts rule: stamp_delays.induct) auto

lemma stamp_delays_sum: "ts \<noteq> [] \<Longrightarrow> sum_list (stamp_delays t0 ts) = last ts - t0"
  by (induction t0 ts rule: stamp_delays.induct) auto

locale webp_decoder =
  fixes api :: "'d webp_api"
    and blend :: "u32 \<Rightarrow> bitmap \<Rightarrow> bitmap"
    and dec_ok :: "'d \<Rightarrow> bool"
    and stamps :: "'d \<Rightarrow> int list"
    and given :: "'d \<Rightarrow> nat"
  assumes stamps_sorted: "dec_ok d \<Longrightarrow> sorted (0 # stamps d)"
    and more: "dec_ok d \<Longrightarrow> wp_more api d \<longleftrightarrow> given d < length (stamps d)"
    and reset: "dec_ok d \<Longrightarrow> dec_ok (wp_reset api d) \<and> stamps (wp_reset api d) = stamps d \<and>
        given (wp_reset api d) = 0"
    and step: "dec_ok d \<Longrightarrow> given d < length (stamps d) \<Longrightarrow>
        \<exists>canvas d'. wp_next api d = (Some (canvas, stamps d ! given d), d') \<and> dec_ok d' \<and>
          stamps d' = stamps d \<and> given d' = given d + 1"
begin

definition webp_delays :: "'d webp_image \<Rightarrow> int list" where
  "webp_delays im = (case wi_animdec im of None \<Rightarrow> [] | Some d \<Rightarrow> stamp_delays 0 (stamps d))"

definition webp_frame_at :: "'d webp_image \<Rightarrow> nat option" where
  "webp_frame_at im = (case wi_animdec im of None \<Rightarrow> None
     | Some d \<Rightarrow> if given d = 0 then None else Some (given d - 1))"

definition webp_pictured :: "'d webp_image \<Rightarrow> nat" where
  "webp_pictured im = (case webp_frame_at im of None \<Rightarrow> 0 | Some k \<Rightarrow> k)"

definition webp_frame_ok :: "'d webp_image \<Rightarrow> bool" where
  "webp_frame_ok im \<longleftrightarrow> 1 < wi_framecnt im \<and>
     (\<exists>d. wi_animdec im = Some d \<and> dec_ok d \<and> wi_framecnt im = int (length (stamps d)) \<and>
        given d \<le> length (stamps d) \<and>
        (0 < given d \<longrightarrow> wi_frametm im = stamps d ! (given d - 1) \<and>
           wi_lframetm im = (0 # stamps d) ! (given d - 1)) \<and>
        (given d = 0 \<longrightarrow> wi_frametm im = 0))"

lemma webp_step:
  assumes "webp_frame_ok im" and "wi_animdec im = Some d0" and "webp_nextFrame api blend rw im = (r, j)"
    and "d = (if rw then wp_reset api d0 else d0)"
  shows "webp_frame_ok j \<and> webp_delays j = webp_delays im \<and> wi_loopnum j = wi_loopnum im \<and>
    (if given d < length (stamps d) then r = IM_OK \<and> webp_frame_at j = Some (given d)
     else r = IM_NO_MORE_FRAMES \<and> (\<not> rw \<longrightarrow> j = im))"
proof -
  have ok: "dec_ok d0" "1 < wi_framecnt im" "wi_framecnt im = int (length (stamps d0))"
    using assms(1,2) by (auto simp: webp_frame_ok_def)
  then have d: "dec_ok d" "stamps d = stamps d0" "rw \<Longrightarrow> given d = 0"
    using reset[of d0] by (auto simp: assms(4))
  define im1 where "im1 = (if rw then im\<lparr>wi_animdec := map_option (wp_reset api) (wi_animdec im),
      wi_frametm := 0, wi_lframetm := 0\<rparr> else im)"
  have i1: "wi_animdec im1 = Some d" "wi_framecnt im1 = wi_framecnt im" "wi_loopnum im1 = wi_loopnum im"
    using assms(2,4) by (auto simp: im1_def)
  have ok1: "webp_frame_ok im1"
  proof (cases rw)
    case True
    with d ok i1 show ?thesis by (simp add: webp_frame_ok_def) (simp add: im1_def)
  next
    case False
    with assms(1) show ?thesis by (simp add: im1_def)
  qed
  show ?thesis
  proof (cases "given d < length (stamps d)")
    case False
    then have "(r, j) = (IM_NO_MORE_FRAMES, im1)"
      using assms(3) ok(2) more[OF d(1)] i1(1) by (simp add: webp_nextFrame_def Let_def im1_def[symmetric])
    moreover have "\<not> rw \<Longrightarrow> im1 = im" by (simp add: im1_def)
    ultimately show ?thesis using False ok1 i1 d assms(2) by (simp add: webp_delays_def)
  next
    case True
    then obtain canvas d' where n: "wp_next api d = (Some (canvas, stamps d ! given d), d')" "dec_ok d'"
      "stamps d' = stamps d" "given d' = given d + 1" using step[OF d(1)] by blast
    have "(r, j) = (IM_OK, webp_store blend canvas (im1\<lparr>wi_lframetm := wi_frametm im1,
        wi_animdec := Some d', wi_frametm := stamps d ! given d\<rparr>))"
      using assms(3) ok(2) more[OF d(1)] i1(1) n(1) True
      by (simp add: webp_nextFrame_def Let_def im1_def[symmetric])
    moreover have "wi_frametm im1 = (0 # stamps d) ! given d"
      using ok1 i1(1) by (auto simp: webp_frame_ok_def nth_Cons split: nat.split)
    ultimately show ?thesis using True n(2-4) ok d(2) i1 assms(2)
      by (simp add: webp_frame_ok_def webp_delays_def webp_frame_at_def webp_store_def)
  qed
qed

end

sublocale webp_decoder \<subseteq> wf: frames "webp_nextFrame api blend" "\<lambda>im. Some (webp_getFrameDelay im)"
  wi_framecnt wi_loopnum webp_frame_ok webp_frame_at webp_delays webp_pictured
proof (unfold_locales, goal_cases)
  case (1 i)
  then show ?case
    using stamp_delays_nonneg[OF stamps_sorted] by (auto simp: webp_frame_ok_def webp_delays_def)
next
  case (2 i k)
  then obtain d where d: "wi_animdec i = Some d" "dec_ok d" "given d \<le> length (stamps d)"
    "0 < given d" "k = given d - 1" "wi_frametm i = stamps d ! k" "wi_lframetm i = (0 # stamps d) ! k"
    by (auto simp: webp_frame_ok_def webp_frame_at_def split: if_splits)
  then have k: "k < length (stamps d)" by simp
  then have "stamp_delays 0 (stamps d) ! k \<in> set (stamp_delays 0 (stamps d))" by simp
  from stamp_delays_nonneg[OF stamps_sorted[OF d(2)] this] k d show ?case
    using 2(2) by (simp add: webp_delays_def webp_getFrameDelay_def stamp_delays_nth webp_pictured_def)
next
  case (3 i r j)
  then obtain d where d: "wi_animdec i = Some d" "dec_ok d" "1 < length (stamps d)"
    by (auto simp: webp_frame_ok_def)
  have "0 < length (stamps d)" using d(3) by linarith
  with webp_step[OF 3(1) d(1) 3(2), of "wp_reset api d"] reset[OF d(2)] show ?case by auto
next
  case (4 i k r j)
  then obtain d where d: "wi_animdec i = Some d" "given d = Suc k"
    by (auto simp: webp_frame_at_def split: option.splits if_splits)
  from webp_step[OF 4(1) d(1) 4(3) refl] d 4(2) show ?case
    by (auto simp: webp_delays_def webp_pictured_def)
qed

section \<open>A reference decoder\<close>

record list_decoder =
  ld_stamps :: "int list"
  ld_pos :: nat
  ld_canvas :: "bytes list"

definition list_api :: "(bytes \<Rightarrow> (nat \<times> nat \<times> bool \<times> bool) option) \<Rightarrow> (nat \<times> nat) \<Rightarrow> int list \<Rightarrow>
    list_decoder webp_api" where
  "list_api feat dim ts = \<lparr>wp_features = feat, wp_still = (\<lambda>a b. None),
     wp_new = (\<lambda>b. Some \<lparr>ld_stamps = ts, ld_pos = 0, ld_canvas = []\<rparr>),
     wp_info = (\<lambda>d. Some (int (length (ld_stamps d)), 0, fst dim, snd dim)),
     wp_reset = (\<lambda>d. d\<lparr>ld_pos := 0\<rparr>), wp_more = (\<lambda>d. ld_pos d < length (ld_stamps d)),
     wp_next = (\<lambda>d. if ld_pos d < length (ld_stamps d)
       then (Some (ld_canvas d, ld_stamps d ! ld_pos d), d\<lparr>ld_pos := ld_pos d + 1\<rparr>)
       else (None, d))\<rparr>"

interpretation wd: webp_decoder "list_api feat dim ts" blend "\<lambda>d. sorted (0 # ld_stamps d)" ld_stamps ld_pos
  for feat dim ts blend
  by unfold_locales (auto simp: list_api_def)

section \<open>The conversion\<close>

lemma copy_rows_nth:
  "i + length srcs \<le> length ls \<Longrightarrow>
   length (copy_rows stride i srcs ls) = length ls \<and>
   (\<forall>k<length ls. copy_rows stride i srcs ls ! k =
     (if i \<le> k \<and> k < i + length srcs then copy_row stride (srcs ! (k - i)) (ls ! k) else ls ! k))"
proof (induction stride i srcs ls rule: copy_rows.induct)
  case (1 stride i ls)
  then show ?case by auto
next
  case (2 stride i src srcs ls)
  let ?ls = "ls[i := copy_row stride src (ls ! i)]"
  have IH: "length (copy_rows stride (i + 1) srcs ?ls) = length ls"
    "\<And>k. k < length ls \<Longrightarrow> copy_rows stride (i + 1) srcs ?ls ! k =
      (if i + 1 \<le> k \<and> k < i + 1 + length srcs then copy_row stride (srcs ! (k - (i + 1))) (?ls ! k)
       else ?ls ! k)"
    using 2 by simp_all
  have "copy_rows stride (i + 1) srcs ?ls ! k =
      (if i \<le> k \<and> k < i + Suc (length srcs)
       then copy_row stride ((src # srcs) ! (k - i)) (ls ! k) else ls ! k)"
    if "k < length ls" for k
    using IH(2)[OF that] that by (cases "k = i") (auto simp: nth_Cons' not_less_eq_eq)
  with IH(1) show ?case by simp
qed

lemma convert_blocks_rows:
  assumes "0 < linestep" and "length ls = height"
    and "\<And>i h. i + h \<le> height \<Longrightarrow> lock i h getfmt = Some (map row [i..<i + h])"
  shows "\<exists>ls'. convert_blocks lock getfmt stride linestep height i ls = Some ls' \<and> length ls' = height \<and>
    (\<forall>k<height. ls' ! k = (if i \<le> k then copy_row stride (row k) (ls ! k) else ls ! k))"
  using assms(2)
proof (induction "height - i" arbitrary: i ls rule: less_induct)
  case less
  show ?case
  proof (cases "i < height")
    case False
    with less.prems show ?thesis by (subst convert_blocks.simps) simp
  next
    case True
    define h where "h = min linestep (height - i)"
    have h: "0 < h" "i + h \<le> height" using True assms(1) by (auto simp: h_def)
    define ls1 where "ls1 = copy_rows stride i (map row [i..<i + h]) ls"
    have l1: "length ls1 = height"
      "\<And>k. k < height \<Longrightarrow> ls1 ! k = (if i \<le> k \<and> k < i + h then copy_row stride (row k) (ls ! k) else ls ! k)"
      using copy_rows_nth[of i "map row [i..<i + h]" ls stride] h less.prems
      by (auto simp: ls1_def)
    have "height - (i + linestep) < height - i" using True assms(1) by simp
    from less.hyps[OF this l1(1)] obtain ls' where ls':
      "convert_blocks lock getfmt stride linestep height (i + linestep) ls1 = Some ls'"
      "length ls' = height"
      "\<And>k. k < height \<Longrightarrow> ls' ! k = (if i + linestep \<le> k then copy_row stride (row k) (ls1 ! k) else ls1 ! k)"
      by blast
    have "convert_blocks lock getfmt stride linestep height i ls = Some ls'"
      using True assms(1) assms(3)[OF h(2)] ls'(1)
      by (subst convert_blocks.simps) (simp add: Let_def h_def[symmetric] ls1_def[symmetric])
    moreover have "ls' ! k = (if i \<le> k then copy_row stride (row k) (ls ! k) else ls ! k)" if "k < height" for k
      using ls'(3)[OF that] l1(2)[OF that] that by (auto simp: h_def)
    ultimately show ?thesis using ls'(2) by blast
  qed
qed

lemma getfmt_pixelsize: "convert_getfmt f = Some (g, n) \<Longrightarrow> pixelsize f = n \<and> f \<noteq> UNKNOW"
  by (cases f) (auto simp: pixelsize_def)

lemma stride_is_pitch: "convert_getfmt f = Some (g, n) \<Longrightarrow> convert_stride n w = pitch_of w f"
  by (simp add: convert_stride_def pitch_of_def pixel_round_def getfmt_pixelsize mult.commute)

section \<open>Properties\<close>

text \<open>
  A frame of a GDI+ bitmap becomes a bitmap of the same size whose rows are exactly the
  rows \<open>LockBits\<close> gives, whatever the size of the blocks they are fetched in: none is
  skipped, repeated or cut.
\<close>

theorem convert_copies_every_row:
  assumes "convert_getfmt (convert_outfmt (gb_pixfmt gb)) = Some (getfmt, nbytes)"
    and "\<And>i h. i + h \<le> gb_height gb \<Longrightarrow> gb_lock gb frame i h getfmt = Some (map row [i..<i + h])"
    and "\<And>k. k < gb_height gb \<Longrightarrow> length (row k) = convert_stride nbytes (gb_width gb)"
  shows "gdiplusConvert gb frame = Some \<lparr>bm_w = gb_width gb, bm_h = gb_height gb,
    bm_fmt = convert_outfmt (gb_pixfmt gb), bm_lines = map row [0..<gb_height gb]\<rparr>"
proof -
  let ?f = "convert_outfmt (gb_pixfmt gb)" and ?w = "gb_width gb" and ?h = "gb_height gb"
  let ?s = "convert_stride nbytes ?w"
  let ?ls = "replicate ?h (replicate (pitch_of ?w ?f) (0 :: u8))"
  have n: "new_bitmap ?w ?h ?f = Some \<lparr>bm_w = ?w, bm_h = ?h, bm_fmt = ?f, bm_lines = ?ls\<rparr>"
    using getfmt_pixelsize[OF assms(1)] by (simp add: new_bitmap_def)
  have "0 < convert_linestep ?s" by (simp add: convert_linestep_def)
  note B = convert_blocks_rows[OF this, of ?ls ?h "gb_lock gb frame" getfmt row ?s 0]
  obtain ls' where ls':
    "convert_blocks (gb_lock gb frame) getfmt ?s (convert_linestep ?s) ?h 0 ?ls = Some ls'"
    "length ls' = ?h" "\<And>k. k < ?h \<Longrightarrow> ls' ! k = copy_row ?s (row k) (?ls ! k)" using B assms(2) by auto
  have "ls' = map row [0..<?h]"
  proof (rule nth_equalityI)
    fix k assume "k < length ls'"
    then have k: "k < ?h" using ls'(2) by simp
    have "length (row k) = pitch_of ?w ?f" "?s = pitch_of ?w ?f"
      using assms(3)[OF k] stride_is_pitch[OF assms(1)] by simp_all
    then show "ls' ! k = map row [0..<?h] ! k" using ls'(3)[OF k] k by (simp add: copy_row_def)
  qed (simp add: ls'(2))
  then show ?thesis using assms(1) n ls'(1) by (simp add: gdiplusConvert_def Let_def)
qed

definition ex_row :: "nat \<Rightarrow> bytes" where
  "ex_row k = [of_nat k, 1, 2, 0]"

definition ex_gdi :: gdi_bitmap where
  "ex_gdi = \<lparr>gb_width = 1, gb_height = 2, gb_raw = Some Fmt_GIF, gb_dims = Some [3],
     gb_delays = Some [0, 4, 7], gb_loop = Some 0, gb_pixfmt = Px24RGB,
     gb_lock = (\<lambda>frame i h f. if f = Px24RGB then Some (map ex_row [i..<i + h]) else None)\<rparr>"

theorem convert_copies_every_row_witness:
  "gdiplusConvert ex_gdi 0 = Some \<lparr>bm_w = 1, bm_h = 2, bm_fmt = R8G8B8, bm_lines = [ex_row 0, ex_row 1]\<rparr>"
  using convert_copies_every_row[of ex_gdi Px24RGB 3 0 ex_row]
  by (simp add: ex_gdi_def ex_row_def convert_stride_def upt_rec)

text \<open>
   Opening a GIF or TIFF of several frames whose first frame converts gives a live frame
  cursor at frame 0, with the delays in milliseconds, and plays it once only when a file
  without a loop count has no delay at all.
\<close>

theorem gdi_open_animates:
  assumes "load buf = Some gb" and "gb_raw gb = Some fmt" and "fmt = Fmt_GIF \<or> fmt = Fmt_TIFF"
    and "gb_dims gb = Some (n # dims)" and "1 < n" and "gb_delays gb = Some ds" and "length ds = n"
    and "gb_loop gb = Some loops" and "gdiplusConvert gb 0 \<noteq> None"
    and "gdi_openFromBuffer load blend bg buf = Some res"
  shows "\<exists>im. res = Inr im \<and> gdi_frame_ok blend im \<and> gdi_frame_at im = Some 0 \<and>
    gi_framedelay im = map (\<lambda>d. max (d * 10) 0) ds \<and> gi_framecnt im = int n \<and>
    gi_loopnum im = (if (\<forall>d\<in>set ds. d \<le> 0) \<and> loops \<le> 0 then 1 else loops)"
proof -
  let ?fd = "map (\<lambda>d. max (d * 10) 0) ds"
  obtain b where b: "gdiplusConvert gb 0 = Some b" using assms(9) by blast
  have m: "max (d * 10) 0 = 0 \<longleftrightarrow> d \<le> 0" for d :: int by auto
  have "sum_list ?fd = 0 \<longleftrightarrow> (\<forall>d\<in>set ds. d \<le> 0)"
    by (subst sum_list_nonneg_eq_0_iff) (auto simp: m)
  then have "anim_info gb n = Some (Inr (?fd, if (\<forall>d\<in>set ds. d \<le> 0) \<and> loops \<le> 0 then 1 else loops))"
    using assms(6-8) by (simp add: anim_info_def)
  then have "res = Inr (gdi_image_new\<lparr>gi_fmt := fmt, gi_dim := (gb_width gb, gb_height gb),
      gi_framecnt := int n, gi_framedelay := ?fd,
      gi_loopnum := (if (\<forall>d\<in>set ds. d \<le> 0) \<and> loops \<le> 0 then 1 else loops),
      gi_pixfmt := gb_pixfmt gb, gi_fbitmap := Some (blend bg b), gi_gbitmap := Some gb,
      gi_bgcolor := bg, gi_filebuf := Some buf\<rparr>)"
    using assms(1-5,10) b by (auto simp: gdi_openFromBuffer_def Let_def frame_blended_def)
  then show ?thesis using assms(5,7) b
    by (auto simp: gdi_frame_ok_def gdi_frame_at_def gdi_image_new_def gdi_shown_def min_def
        frame_blended_def)
qed

lemma ex_gdi_converts: "gdiplusConvert ex_gdi k \<noteq> None"
  using convert_copies_every_row[of ex_gdi Px24RGB 3 k ex_row]
  by (simp add: ex_gdi_def ex_row_def convert_stride_def)

theorem gdi_open_animates_witness:
  "\<exists>im. gdi_openFromBuffer (\<lambda>b. Some ex_gdi) (\<lambda>bg b. b) 0 [1] = Some (Inr im) \<and>
     gi_framedelay im = [0, 40, 70] \<and> gdi_frame_ok (\<lambda>bg b. b) im"
proof -
  have "\<exists>res. gdi_openFromBuffer (\<lambda>b. Some ex_gdi) (\<lambda>bg b. b) 0 [1] = Some res"
    by (auto simp: gdi_openFromBuffer_def ex_gdi_def anim_info_def Let_def split: option.split)
  then obtain res where r: "gdi_openFromBuffer (\<lambda>b. Some ex_gdi) (\<lambda>bg b. b) 0 [1] = Some res" by blast
  have "\<exists>im. res = Inr im \<and> gdi_frame_ok (\<lambda>bg b. b) im \<and> gdi_frame_at im = Some 0 \<and>
    gi_framedelay im = map (\<lambda>d. max (d * 10) 0) [0, 4, 7] \<and> gi_framecnt im = int 3 \<and>
    gi_loopnum im = (if (\<forall>d\<in>set [0, 4, 7::int]. d \<le> 0) \<and> (0::int) \<le> 0 then 1 else 0)"
    by (rule gdi_open_animates[OF _ _ _ _ _ _ _ _ ex_gdi_converts r, where fmt = Fmt_GIF and dims = "[]"])
      (simp_all add: ex_gdi_def)
  with r show ?thesis by auto
qed

section \<open>Cases the code does not handle well\<close>

text \<open>
  An animated WebP of one frame is opened without being decoded: \<open>nextFrame\<close> returns at once
  since the image does not count as animated, and the decoder is deleted.  The image opens
  with \<open>IM_OK\<close> and no bitmap, and \<open>getBBitmap\<close> goes through a null pointer.
\<close>

lemma webp_single_frame_undecoded:
  "let api = list_api (\<lambda>b. Some (1, 1, True, True)) (1, 1) [100] in
   case webp_openFromBuffer api (\<lambda>bg b. b) 0 [1] of Inl e \<Rightarrow> False
   | Inr im \<Rightarrow> wi_fbitmap im = None \<and> wi_animdec im = None"
  by code_simp

text \<open>A file of several frames without a frame delay property (a multi-page TIFF) is refused.\<close>

lemma multipage_tiff_refused:
  "gdi_openFromBuffer (\<lambda>b. Some (ex_gdi\<lparr>gb_raw := Some Fmt_TIFF, gb_delays := None\<rparr>)) (\<lambda>bg b. b) 0 [1] =
     Some (Inl IM_FAIL)"
  by (simp add: gdi_openFromBuffer_def ex_gdi_def anim_info_def)

end
