(* ===== verification/Doc_Anim.thy ===== *)
theory Doc_Anim
  imports Doc Codecs
begin

text \<open>
  \<open>Doc::onAnimate\<close> (obZrv/Doc.cpp): the timer callback that advances an animated image, keeps
  it on the schedule \<open>_tmstart + _totaldelay\<close>, catches up when it is late and starts over
  when it is off by more than \<open>allowdiff\<close>.  \<open>None\<close> stands for a callback that does not
  return, or that reads a frame delay outside the table.
\<close>

record 'img anim_ops =
  an_next :: "bool \<Rightarrow> 'img \<Rightarrow> im_code \<times> 'img"
  an_loops :: "'img \<Rightarrow> int"
  an_count :: "'img \<Rightarrow> int"
  an_delay :: "'img \<Rightarrow> int option"

text \<open>\<open>_image\<close>, \<open>_curframe\<close>, \<open>_curloop\<close> and \<open>_totaldelay\<close> while the loop runs.\<close>

record 'img play =
  pimg :: 'img
  pframe :: int
  ploop :: int
  ptotal :: int

section \<open>One round of the loop\<close>

text \<open>From the test for a delay of zero on; the flag says whether the loop was left by \<open>break\<close>.\<close>

definition anim_delay :: "'img anim_ops \<Rightarrow> 'img play \<Rightarrow> ('img play \<times> bool) option" where
  "anim_delay A p =
     (case an_delay A (pimg p) of None \<Rightarrow> None
      | Some dl \<Rightarrow>
        if dl = 0 then
          (if ploop p > 0 \<and> ptotal p = 0 then
             Some (p\<lparr>pimg := snd (an_next A True (pimg p)), pframe := 0, ploop := -1\<rparr>, True)
           else Some (p, False))
        else Some (p\<lparr>ptotal := ptotal p + dl\<rparr>, False))"

definition anim_round :: "'img anim_ops \<Rightarrow> bool \<Rightarrow> 'img play \<Rightarrow> ('img play \<times> bool) option" where
  "anim_round A reset p =
     (case an_next A reset (pimg p) of (res, i1) \<Rightarrow>
      let p1 = p\<lparr>pimg := i1, pframe := (if reset then 0 else pframe p + 1)\<rparr> in
      if res = IM_NO_MORE_FRAMES then
        let p2 = p1\<lparr>ploop := ploop p1 + 1\<rparr> in
        if an_loops A i1 > 0 \<and> ploop p2 \<ge> an_loops A i1 then
          Some (p2\<lparr>pframe := an_count A i1 - 1\<rparr>, True)
        else if pframe p2 \<le> 1 then Some (p2\<lparr>pframe := 0, ploop := -1\<rparr>, True)
        else anim_delay A (p2\<lparr>pimg := snd (an_next A True i1), pframe := 0\<rparr>)
      else anim_delay A p1)"

text \<open>The \<open>do\<close> loop; \<open>continue\<close> also goes through its condition.  \<open>t0\<close> is \<open>_tmstart\<close>.\<close>

partial_function (option) catch_up ::
  "'img anim_ops \<Rightarrow> bool \<Rightarrow> int \<Rightarrow> int \<Rightarrow> 'img play \<Rightarrow> 'img play option" where
  "catch_up A reset t0 tmcur p =
     (case anim_round A reset p of None \<Rightarrow> None
      | Some (p', brk) \<Rightarrow>
        if \<not> brk \<and> t0 + ptotal p' \<le> tmcur + 10 then catch_up A reset t0 tmcur p' else Some p')"

section \<open>The callback\<close>

text \<open>\<open>GetTickCount\<close> wraps after 49 days: \<open>_tmstart\<close> is moved back until it fits.\<close>

function wrap_start :: "int \<Rightarrow> int \<Rightarrow> int \<Rightarrow> int" where
  "wrap_start t0 elapsed tmcur =
     (if t0 + elapsed > tmcur then wrap_start (t0 - 0x100000000) elapsed tmcur else t0)"
  by pat_completeness auto
termination
  by (relation "measure (\<lambda>(t, e, c). nat (t + e - c))") auto

declare wrap_start.simps [simp del]

definition to_uint :: "int \<Rightarrow> int" where
  "to_uint x = x mod 2 ^ 32"

text \<open>After the loop: the view is updated, and the timer set when the animation still runs.\<close>

definition anim_finish :: "('h, 'w, 'f, 'img) env \<Rightarrow> 'img anim_ops \<Rightarrow> int \<Rightarrow> ('h, 'w, 'img) doc \<Rightarrow>
    'img \<Rightarrow> ('h, 'w, 'img) doc option" where
  "anim_finish E A tmcur d i =
     (let d1 = emit FrameUpdate d;
          stillRunning = (an_loops A i \<le> 0 \<and> curloop d1 \<ge> 0) \<or> curloop d1 < an_loops A i in
      if \<not> stillRunning then Some d1
      else case tick E (world d1) of (tmcurnew, w) \<Rightarrow>
        let ts = (if tmcurnew < tmcur then tmstart d1 - 0x100000000 else tmstart d1);
            due = ts + totaldelay d1;
            delay = (if due > tmcur then to_uint (due - tmcur) else 1) in
        (case an_delay A i of None \<Rightarrow> None
         | Some dl \<Rightarrow>
           Some (emit (SetTimer (min delay (to_uint (to_uint dl * 5)))) (d1\<lparr>world := w, tmstart := ts\<rparr>))))"

definition anim_advance :: "('h, 'w, 'f, 'img) env \<Rightarrow> 'img anim_ops \<Rightarrow> bool \<Rightarrow> int \<Rightarrow> 'img \<Rightarrow>
    ('h, 'w, 'img) doc \<Rightarrow> ('h, 'w, 'img) doc option" where
  "anim_advance E A reset tmcur i d =
     (case catch_up A reset (tmstart d) tmcur
        \<lparr>pimg = i, pframe = curframe d, ploop = curloop d, ptotal = totaldelay d\<rparr> of
        None \<Rightarrow> None
      | Some p \<Rightarrow> anim_finish E A tmcur
          (d\<lparr>image := Some (pimg p), curframe := pframe p, curloop := ploop p, totaldelay := ptotal p\<rparr>)
          (pimg p))"

definition onAnimate :: "('h, 'w, 'f, 'img) env \<Rightarrow> 'img anim_ops \<Rightarrow> ('h, 'w, 'img) doc \<Rightarrow>
    ('h, 'w, 'img) doc option" where
  "onAnimate E A d =
     (if \<not> view d then Some d
      else let d0 = emit KillTimer d in
      case image d0 of None \<Rightarrow> Some d0
      | Some i \<Rightarrow>
        if an_loops A i > 0 \<and> curloop d0 \<ge> an_loops A i then
          Some (emit FrameUpdate (d0\<lparr>curframe := an_count A i - 1\<rparr>))
        else case tick E (world d0) of (tmcur, w) \<Rightarrow>
          (case an_delay A i of None \<Rightarrow> None
           | Some dl \<Rightarrow>
             let ts = wrap_start (tmstart d0) (totaldelay d0 - dl) tmcur;
                 d1 = d0\<lparr>world := w, tmstart := ts\<rparr>;
                 due = ts + totaldelay d1;
                 allowdiff = max (dl * 10) 1000 in
             if due > tmcur + allowdiff \<or> due < tmcur - allowdiff then
               anim_advance E A True tmcur i
                 (d1\<lparr>curframe := an_count A i - 1, tmstart := tmcur\<rparr>)
             else if due > tmcur + 20 then Some (emit (SetTimer (to_uint (due - tmcur))) d1)
             else anim_advance E A False tmcur i d1))"

section \<open>The callback on a live frame cursor\<close>

lemma wrap_start_le: "wrap_start t0 elapsed tmcur \<le> t0 \<and> wrap_start t0 elapsed tmcur + elapsed \<le> tmcur"
proof (induction t0 elapsed tmcur rule: wrap_start.induct)
  case (1 t0 elapsed tmcur)
  then show ?case by (subst (1 2) wrap_start.simps) auto
qed

lemma to_uint_range: "0 \<le> to_uint x \<and> to_uint x < 2 ^ 32"
  by (simp add: to_uint_def)

context frames begin

definition ops :: "'i anim_ops" where
  "ops = \<lparr>an_next = next_frame, an_loops = loop_num, an_count = frame_count, an_delay = frame_delay\<rparr>"

lemma ops_simps [simp]:
  "an_next ops = next_frame" "an_loops ops = loop_num" "an_count ops = frame_count"
  "an_delay ops = frame_delay"
  by (simp_all add: ops_def)

text \<open>
  While the loop runs the counter \<open>pframe\<close> is the frame of the image, and loops are left; after
  the last loop it is the last frame, whose picture stays.
\<close>

definition in_play :: "'i play \<Rightarrow> bool" where
  "in_play p \<longleftrightarrow> live (pimg p) \<and> 0 \<le> pframe p \<and> frame_at (pimg p) = Some (nat (pframe p)) \<and>
     0 \<le> ploop p \<and> (0 < loop_num (pimg p) \<longrightarrow> ploop p < loop_num (pimg p)) \<and> 0 < ptotal p"

definition finished :: "'i play \<Rightarrow> bool" where
  "finished p \<longleftrightarrow> live (pimg p) \<and> 0 < loop_num (pimg p) \<and> loop_num (pimg p) \<le> ploop p \<and>
     pframe p = frame_count (pimg p) - 1 \<and> pictured (pimg p) = nat (pframe p) \<and> 0 < ptotal p"

lemma anim_delay_play:
  assumes "in_play p"
  shows "anim_delay ops p = Some (p\<lparr>ptotal := ptotal p + delays (pimg p) ! nat (pframe p)\<rparr>, False) \<and>
    0 \<le> delays (pimg p) ! nat (pframe p) \<and> nat (pframe p) < length (delays (pimg p))"
proof -
  have f: "live (pimg p)" "frame_at (pimg p) = Some (nat (pframe p))" "0 < ptotal p"
    using assms by (simp_all add: in_play_def)
  from delay[OF f(1,2)] have k: "nat (pframe p) < length (delays (pimg p))"
    and d: "frame_delay (pimg p) = Some (delays (pimg p) ! nat (pframe p))" by simp_all
  from k many[OF f(1)] have "0 \<le> delays (pimg p) ! nat (pframe p)" by simp
  with k d f(3) show ?thesis by (simp add: anim_delay_def)
qed

text \<open>The next frame in the cycle, and one round that is not a restart.\<close>

definition next_in :: "'i \<Rightarrow> int \<Rightarrow> int" where
  "next_in i k = (if nat k + 1 < length (delays i) then k + 1 else 0)"

lemma anim_round_play:
  assumes "in_play p"
  shows "(\<exists>p'. anim_round ops False p = Some (p', True) \<and> finished p' \<and>
      delays (pimg p') = delays (pimg p) \<and> loop_num (pimg p') = loop_num (pimg p)) \<or>
    (\<exists>p'. anim_round ops False p = Some (p', False) \<and> in_play p' \<and>
      delays (pimg p') = delays (pimg p) \<and> loop_num (pimg p') = loop_num (pimg p) \<and>
      pframe p' = next_in (pimg p) (pframe p) \<and>
      ptotal p' = ptotal p + delays (pimg p) ! nat (pframe p'))"
proof -
  have f: "live (pimg p)" "frame_at (pimg p) = Some (nat (pframe p))" "0 \<le> pframe p" "0 \<le> ploop p"
    "0 < ptotal p" using assms by (simp_all add: in_play_def)
  obtain r j where n: "next_frame False (pimg p) = (r, j)" by fastforce
  note a = advanced[OF f(1,2) n]
  show ?thesis
  proof (cases "nat (pframe p) + 1 < length (delays (pimg p))")
    case True
    let ?p = "p\<lparr>pimg := j, pframe := pframe p + 1\<rparr>"
    have "in_play ?p" using a True assms by (auto simp: in_play_def nat_add_distrib)
    from anim_delay_play[OF this] this a True n show ?thesis
      by (intro disjI2 exI[of _ "?p\<lparr>ptotal := ptotal p + delays j ! nat (pframe p + 1)\<rparr>"])
        (auto simp: anim_round_def in_play_def next_in_def)
  next
    case False
    then have r: "r = IM_NO_MORE_FRAMES" "live j" "delays j = delays (pimg p)" "loop_num j = loop_num (pimg p)"
      using a by auto
    have lo: "0 < loop_num (pimg p) \<Longrightarrow> ploop p < loop_num (pimg p)"
      using assms by (simp add: in_play_def)
    have k: "1 < pframe p + 1" using False many[OF f(1)] f(3) by auto
    obtain r2 j2 where n2: "next_frame True j = (r2, j2)" by fastforce
    note b = rewound[OF r(2) n2]
    let ?q = "p\<lparr>ploop := ploop p + 1, pimg := j2, pframe := 0\<rparr>"
    show ?thesis
    proof (cases "loop_num j > 0 \<and> ploop p + 1 \<ge> loop_num j")
      case True
      have "nat (pframe p) < length (delays (pimg p))" using delay[OF f(1,2)] by simp
      then have "nat (pframe p) = nat (frame_count j - 1)"
        using False many[OF r(2)] r(3) by simp
      then have "pictured j = nat (frame_count j - 1)" using a False by simp
      with True show ?thesis using n r f(5)
        by (intro disjI1) (auto simp: anim_round_def finished_def Let_def)
    next
      case L: False
      have e: "anim_round ops False p = anim_delay ops ?q"
        using n n2 r L k by (auto simp: anim_round_def Let_def)
      have "in_play ?q" using b f L r by (auto simp: in_play_def)
      from anim_delay_play[OF this] this have D: "anim_delay ops ?q =
        Some (?q\<lparr>ptotal := ptotal p + delays j2 ! 0\<rparr>, False)" "0 \<le> delays j2 ! 0" by simp_all
      show ?thesis unfolding e D(1) using False D(2) b r f \<open>in_play ?q\<close>
        by (intro disjI2) (auto simp: in_play_def next_in_def)
    qed
  qed
qed

text \<open>
  The loop ends: a round adds to \<open>_totaldelay\<close>, or steps over a frame without delay and comes
  nearer to frame 0, which has one.
\<close>

definition to_go :: "int \<Rightarrow> int \<Rightarrow> 'i play \<Rightarrow> nat" where
  "to_go t0 tmcur p = (let n = length (delays (pimg p)) in
     nat (tmcur + 11 - t0 - ptotal p) * n + (n - nat (pframe p)))"

lemma to_go_decreases:
  assumes "in_play p" and "in_play q" and "delays (pimg q) = delays (pimg p)"
    and "0 < delays (pimg p) ! 0" and "pframe q = next_in (pimg p) (pframe p)"
    and "ptotal q = ptotal p + delays (pimg p) ! nat (pframe q)" and "t0 + ptotal q \<le> tmcur + 10"
  shows "to_go t0 tmcur q < to_go t0 tmcur p"
proof -
  define n where "n = length (delays (pimg p))"
  define D D' where "D = nat (tmcur + 11 - t0 - ptotal p)" and "D' = nat (tmcur + 11 - t0 - ptotal q)"
  have k: "nat (pframe p) < n" "0 \<le> delays (pimg p) ! nat (pframe q)" "0 \<le> pframe p"
    using anim_delay_play[OF assms(1)] anim_delay_play[OF assms(2)] assms(1,3)
    by (simp_all add: n_def in_play_def)
  show ?thesis
  proof (cases "delays (pimg p) ! nat (pframe q) = 0")
    case True
    then have "pframe q = pframe p + 1" "D' = D"
      using assms(4,5,6) by (auto simp: next_in_def D_def D'_def split: if_splits)
    moreover have "D * n + (n - Suc (nat (pframe p))) < D * n + (n - nat (pframe p))"
      using k(1) by simp
    ultimately show ?thesis using k assms(3) by (simp add: to_go_def Let_def D_def[symmetric]
      D'_def[symmetric] n_def[symmetric] nat_add_distrib del: Nat.add_diff_assoc)
  next
    case False
    then have "D' + 1 \<le> D" using k(2) assms(6,7) by (auto simp: D_def D'_def)
    then have "D' * n + n \<le> D * n" by (metis add.commute mult.commute mult_Suc_right mult_le_mono2 Suc_eq_plus1)
    then show ?thesis using k assms(3)
      by (simp add: to_go_def Let_def D_def[symmetric] D'_def[symmetric] n_def[symmetric])
  qed
qed

definition caught_up :: "int \<Rightarrow> int \<Rightarrow> 'i play \<Rightarrow> 'i play \<Rightarrow> bool" where
  "caught_up t0 tmcur p q \<longleftrightarrow> delays (pimg q) = delays (pimg p) \<and> loop_num (pimg q) = loop_num (pimg p) \<and>
     (finished q \<or> in_play q \<and> tmcur + 10 < t0 + ptotal q \<and> ptotal p \<le> ptotal q \<and>
        (t0 + ptotal p \<le> tmcur + 20 \<longrightarrow>
           t0 + ptotal q - delays (pimg p) ! nat (pframe q) \<le> tmcur + 20))"

lemma catch_up_returns:
  assumes "in_play p" and "0 < delays (pimg p) ! 0"
  shows "\<exists>q. catch_up ops False t0 tmcur p = Some q \<and> caught_up t0 tmcur p q"
  using assms
proof (induction "to_go t0 tmcur p" arbitrary: p rule: less_induct)
  case less
  from anim_round_play[OF less.prems(1)] show ?case
  proof (elim disjE exE conjE)
    fix q assume "anim_round ops False p = Some (q, True)" "finished q"
      "delays (pimg q) = delays (pimg p)" "loop_num (pimg q) = loop_num (pimg p)"
    then show ?thesis by (subst catch_up.simps) (simp add: caught_up_def)
  next
    fix q assume q: "anim_round ops False p = Some (q, False)" "in_play q"
      "delays (pimg q) = delays (pimg p)" "loop_num (pimg q) = loop_num (pimg p)"
      "pframe q = next_in (pimg p) (pframe p)" "ptotal q = ptotal p + delays (pimg p) ! nat (pframe q)"
    have pos: "0 \<le> delays (pimg p) ! nat (pframe q)" using anim_delay_play[OF q(2)] q(3) by simp
    show ?thesis
    proof (cases "t0 + ptotal q \<le> tmcur + 10")
      case False
      with q pos show ?thesis by (subst catch_up.simps) (simp add: caught_up_def)
    next
      case True
      have "to_go t0 tmcur q < to_go t0 tmcur p"
        by (rule to_go_decreases[OF less.prems(1) q(2,3) less.prems(2) q(5,6) True])
      from less.hyps[OF this q(2)] less.prems(2) q(3) obtain s where
        s: "catch_up ops False t0 tmcur q = Some s" "caught_up t0 tmcur q s" by auto
      have "catch_up ops False t0 tmcur p = Some s"
        using q(1) True s(1) by (subst catch_up.simps) simp
      moreover have "caught_up t0 tmcur p s" using s(2) q(3,4,6) pos True by (auto simp: caught_up_def)
      ultimately show ?thesis by blast
    qed
  qed
qed

text \<open>A restart: the first frame is shown until the total is past the present.\<close>

lemma restart_round:
  assumes "live (pimg p)" and "0 \<le> ploop p" and "0 < ptotal p" and "0 < delays (pimg p) ! 0"
    and "0 < loop_num (pimg p) \<longrightarrow> ploop p < loop_num (pimg p)"
  shows "\<exists>q. anim_round ops True p = Some (q, False) \<and> in_play q \<and> delays (pimg q) = delays (pimg p) \<and>
    loop_num (pimg q) = loop_num (pimg p) \<and> pframe q = 0 \<and> ploop q = ploop p \<and>
    ptotal q = ptotal p + delays (pimg p) ! 0"
proof -
  obtain r j where n: "next_frame True (pimg p) = (r, j)" by fastforce
  note b = rewound[OF assms(1) n]
  let ?q = "p\<lparr>pimg := j, pframe := 0\<rparr>"
  have "in_play ?q" using b assms by (simp add: in_play_def)
  from anim_delay_play[OF this] this b n assms(4) show ?thesis
    by (auto simp: anim_round_def in_play_def)
qed

lemma restart_returns:
  assumes "live (pimg p)" and "0 \<le> ploop p" and "0 < ptotal p" and "0 < delays (pimg p) ! 0"
    and "0 < loop_num (pimg p) \<longrightarrow> ploop p < loop_num (pimg p)"
  shows "\<exists>q. catch_up ops True t0 tmcur p = Some q \<and> in_play q \<and> delays (pimg q) = delays (pimg p) \<and>
    loop_num (pimg q) = loop_num (pimg p) \<and> pframe q = 0 \<and> ploop q = ploop p \<and>
    ptotal p + delays (pimg p) ! 0 \<le> ptotal q"
  using assms
proof (induction "nat (tmcur + 11 - t0 - ptotal p)" arbitrary: p rule: less_induct)
  case less
  from restart_round[OF less.prems] obtain q where q: "anim_round ops True p = Some (q, False)" "in_play q"
    "delays (pimg q) = delays (pimg p)" "loop_num (pimg q) = loop_num (pimg p)" "pframe q = 0"
    "ploop q = ploop p" "ptotal q = ptotal p + delays (pimg p) ! 0" by blast
  show ?case
  proof (cases "t0 + ptotal q \<le> tmcur + 10")
    case False
    with q show ?thesis by (subst catch_up.simps) simp
  next
    case True
    then have "nat (tmcur + 11 - t0 - ptotal q) < nat (tmcur + 11 - t0 - ptotal p)"
      using q(7) less.prems(4) by auto
    from less.hyps[OF this] q(2,3,6,7) less.prems obtain s where "catch_up ops True t0 tmcur q = Some s"
      "in_play s" "delays (pimg s) = delays (pimg q)" "loop_num (pimg s) = loop_num (pimg q)"
      "pframe s = 0" "ploop s = ploop q" "ptotal q + delays (pimg q) ! 0 \<le> ptotal s"
      by (auto simp: in_play_def)
    with q True less.prems(4) show ?thesis by (subst catch_up.simps) auto
  qed
qed

section \<open>The document stays on schedule\<close>

definition anim_ok :: "('h, 'w, 'i) doc \<Rightarrow> bool" where
  "anim_ok d \<longleftrightarrow> (\<exists>i. image d = Some i \<and> live i \<and> 0 < delays i ! 0 \<and> 0 < totaldelay d \<and>
     0 \<le> curloop d \<and>
     (if 0 < loop_num i \<and> loop_num i \<le> curloop d
      then curframe d = frame_count i - 1 \<and> pictured i = nat (curframe d)
      else 0 \<le> curframe d \<and> frame_at i = Some (nat (curframe d))))"

text \<open>The frame number is in range, and its picture is the one shown.\<close>

lemma anim_ok_frame:
  assumes "anim_ok d"
  shows "\<exists>i. image d = Some i \<and> live i \<and> 0 < totaldelay d \<and> 0 \<le> curloop d \<and>
    0 \<le> curframe d \<and> curframe d < frame_count i \<and> pictured i = nat (curframe d)"
proof -
  from assms obtain i where i: "image d = Some i" "live i" "0 < totaldelay d" "0 \<le> curloop d"
    "if 0 < loop_num i \<and> loop_num i \<le> curloop d
     then curframe d = frame_count i - 1 \<and> pictured i = nat (curframe d)
     else 0 \<le> curframe d \<and> frame_at i = Some (nat (curframe d))" by (auto simp: anim_ok_def)
  then show ?thesis using many[OF i(2)] delay[OF i(2), of "nat (curframe d)"]
    by (cases "0 < loop_num i \<and> loop_num i \<le> curloop d") auto
qed

definition doc_play :: "'i \<Rightarrow> ('h, 'w, 'i) doc \<Rightarrow> 'i play" where
  "doc_play i d = \<lparr>pimg = i, pframe = curframe d, ploop = curloop d, ptotal = totaldelay d\<rparr>"

definition same_play :: "'i play \<Rightarrow> ('h, 'w, 'i) doc \<Rightarrow> bool" where
  "same_play p d \<longleftrightarrow> image d = Some (pimg p) \<and> curframe d = pframe p \<and> curloop d = ploop p \<and>
     totaldelay d = ptotal p"

lemma anim_finish_play:
  assumes "in_play p \<or> finished p"
    and "d1 = d\<lparr>image := Some (pimg p), curframe := pframe p, curloop := ploop p, totaldelay := ptotal p\<rparr>"
  shows "\<exists>d'. anim_finish E ops tmcur d1 (pimg p) = Some d' \<and> same_play p d'"
proof (cases "finished p")
  case True
  then show ?thesis using assms(2)
    by (auto simp: anim_finish_def Let_def emit_def same_play_def finished_def)
next
  case False
  with assms(1) have p: "in_play p" by simp
  obtain t w where t: "tick E (world d) = (t, w)" by fastforce
  have "frame_delay (pimg p) \<noteq> None" using delay p by (auto simp: in_play_def)
  then show ?thesis using assms(2) t
    by (auto simp: anim_finish_def Let_def emit_def same_play_def)
qed

lemma anim_advance_play:
  assumes "catch_up ops reset (tmstart d) tmcur (doc_play i d) = Some p" and "in_play p \<or> finished p"
  shows "\<exists>d'. anim_advance E ops reset tmcur i d = Some d' \<and> same_play p d'"
  using anim_finish_play[OF assms(2) refl, of E tmcur d] assms(1)
  by (auto simp: anim_advance_def doc_play_def)

lemma same_play_ok: "same_play p d \<Longrightarrow> in_play p \<or> finished p \<Longrightarrow> 0 \<le> ploop p \<Longrightarrow>
    0 < delays (pimg p) ! 0 \<Longrightarrow> anim_ok d"
  by (auto simp: anim_ok_def same_play_def in_play_def finished_def)

text \<open>Every callback on a running animation returns, reads only delays that exist, and keeps this.\<close>

lemma animate_keeps:
  fixes d :: "('h, 'w, 'i) doc" and E :: "('h, 'w, 'f, 'i) env"
  assumes "anim_ok d"
  shows "\<exists>d'. onAnimate E ops d = Some d' \<and> anim_ok d'"
proof (cases "view d")
  case False
  with assms show ?thesis by (simp add: onAnimate_def)
next
  case v: True
  from assms obtain i where i: "image d = Some i" "live i" "0 < delays i ! 0" "0 < totaldelay d"
    "0 \<le> curloop d" and ph: "if 0 < loop_num i \<and> loop_num i \<le> curloop d
       then curframe d = frame_count i - 1 \<and> pictured i = nat (curframe d)
       else 0 \<le> curframe d \<and> frame_at i = Some (nat (curframe d))" by (auto simp: anim_ok_def)
  show ?thesis
  proof (cases "0 < loop_num i \<and> loop_num i \<le> curloop d")
    case True
    with i v ph show ?thesis
      by (auto simp: onAnimate_def Let_def emit_def anim_ok_def)
  next
    case run: False
    with ph have f: "0 \<le> curframe d" "frame_at i = Some (nat (curframe d))" by auto
    have lo: "0 < loop_num i \<longrightarrow> curloop d < loop_num i" using run by auto
    from delay[OF i(2) f(2)] obtain dl where dl: "frame_delay i = Some dl" by blast
    obtain tmcur w where t: "tick E (world d) = (tmcur, w)" by fastforce
    define ts where "ts = wrap_start (tmstart d) (totaldelay d - dl) tmcur"
    define d1 where "d1 = (emit KillTimer d)\<lparr>world := w, tmstart := ts\<rparr>"
    have d1: "image d1 = Some i" "totaldelay d1 = totaldelay d" "curloop d1 = curloop d"
      "curframe d1 = curframe d" by (simp_all add: d1_def emit_def i(1))
    let ?dr = "d1\<lparr>curframe := frame_count i - 1, tmstart := tmcur\<rparr>"
    have e: "onAnimate E ops d =
      (if ts + totaldelay d > tmcur + max (dl * 10) 1000 \<or> ts + totaldelay d < tmcur - max (dl * 10) 1000
       then anim_advance E ops True tmcur i ?dr
       else if ts + totaldelay d > tmcur + 20
       then Some (emit (SetTimer (to_uint (ts + totaldelay d - tmcur))) d1)
       else anim_advance E ops False tmcur i d1)"
      using v i(1) run t dl by (auto simp: onAnimate_def Let_def emit_def ts_def d1_def)
    have R: "\<exists>d'. anim_advance E ops True tmcur i ?dr = Some d' \<and> anim_ok d'"
    proof -
      from restart_returns[of "doc_play i ?dr" tmcur tmcur] i d1 lo obtain q where
        "catch_up ops True (tmstart ?dr) tmcur (doc_play i ?dr) = Some q" "in_play q"
        "delays (pimg q) = delays i" "ploop q = curloop d"
        by (auto simp: doc_play_def)
      with anim_advance_play[of True ?dr tmcur i q E] same_play_ok[of q] i show ?thesis by auto
    qed
    have A: "\<exists>d'. anim_advance E ops False tmcur i d1 = Some d' \<and> anim_ok d'"
    proof -
      have "in_play (doc_play i d1)" using i f d1 lo by (simp add: in_play_def doc_play_def)
      from catch_up_returns[OF this, of "tmstart d1" tmcur] i obtain q where
        q: "catch_up ops False (tmstart d1) tmcur (doc_play i d1) = Some q"
        "caught_up (tmstart d1) tmcur (doc_play i d1) q" by (auto simp: doc_play_def)
      then have "in_play q \<or> finished q" "0 \<le> ploop q" "delays (pimg q) = delays i"
        by (auto simp: caught_up_def in_play_def finished_def doc_play_def)
      with anim_advance_play[OF q(1), of E] same_play_ok[of q] i show ?thesis by auto
    qed
    have "anim_ok (emit (SetTimer k) d1)" for k
      using i f d1 run by (auto simp: anim_ok_def emit_def)
    then show ?thesis unfolding e using R A by simp
  qed
qed

text \<open>
  A callback that comes in time, or late by no more than \<open>allowdiff\<close>, leaves the animation at
  the frame that is due: its time ends after the present and did not begin later than 20 ms
  from now.
\<close>

lemma animate_schedule:
  fixes d :: "('h, 'w, 'i) doc" and E :: "('h, 'w, 'f, 'i) env"
  assumes "anim_ok d" and "view d" and "image d = Some i" and "\<not> (0 < loop_num i \<and> loop_num i \<le> curloop d)"
    and "tick E (world d) = (tmcur, w)" and "frame_delay i = Some dl"
    and "ts = wrap_start (tmstart d) (totaldelay d - dl) tmcur"
    and "tmcur - max (dl * 10) 1000 \<le> ts + totaldelay d" and "ts + totaldelay d \<le> tmcur + 20"
    and "onAnimate E ops d = Some d'"
  shows "\<exists>j. image d' = Some j \<and> delays j = delays i \<and> loop_num j = loop_num i \<and>
    (0 < loop_num j \<and> loop_num j \<le> curloop d' \<or>
     tmcur + 10 < ts + totaldelay d' \<and> 0 \<le> curframe d' \<and> frame_at j = Some (nat (curframe d')) \<and>
     ts + totaldelay d' - delays j ! nat (curframe d') \<le> tmcur + 20)"
proof -
  define d1 where "d1 = (emit KillTimer d)\<lparr>world := w, tmstart := ts\<rparr>"
  have i: "live i" "0 < delays i ! 0" "0 < totaldelay d" "0 \<le> curloop d" "0 \<le> curframe d"
    "frame_at i = Some (nat (curframe d))" using assms(1,3,4) by (auto simp: anim_ok_def)
  have adv: "onAnimate E ops d = anim_advance E ops False tmcur i d1"
    using assms(2-9) by (auto simp: onAnimate_def Let_def emit_def d1_def)
  have p: "in_play (doc_play i d1)" "ptotal (doc_play i d1) = totaldelay d" "tmstart d1 = ts"
    using i assms(4) by (auto simp: in_play_def doc_play_def d1_def emit_def)
  obtain q where q: "catch_up ops False ts tmcur (doc_play i d1) = Some q"
    "caught_up ts tmcur (doc_play i d1) q"
    using catch_up_returns[OF p(1), of ts tmcur] i by (auto simp: doc_play_def)
  then have "\<exists>e. anim_advance E ops False tmcur i d1 = Some e \<and> same_play q e"
    by (intro anim_advance_play) (auto simp: caught_up_def p(3))
  then have "same_play q d'" using assms(10) adv by auto
  then show ?thesis using q(2) p(2) assms(9)
    by (auto simp: caught_up_def same_play_def finished_def in_play_def doc_play_def)
qed

text \<open>
  A restart sets \<open>_tmstart\<close> to the present but keeps \<open>_totaldelay\<close>.  The next callback then
  finds the current frame not begun yet, takes that for a wrap of the clock, and so restarts
  again: as long as the callbacks come within the total, the animation stays at its first frame
  while the total keeps growing.
\<close>

lemma stuck_again:
  fixes d :: "('h, 'w, 'i) doc" and E :: "('h, 'w, 'f, 'i) env"
  assumes "anim_ok d" and "view d" and "image d = Some i" and "\<not> (0 < loop_num i \<and> loop_num i \<le> curloop d)"
    and "curframe d = 0" and "tick E (world d) = (tmcur, w)" and "tick E w = (t2, w2)" and "tmcur \<le> t2"
    and "tmstart d \<le> tmcur" and "tmcur < tmstart d + totaldelay d - delays i ! 0"
    and "10 < totaldelay d" and "totaldelay d + max (delays i ! 0 * 10) 1000 < 2 ^ 32"
  shows "\<exists>d' j. onAnimate E ops d = Some d' \<and> image d' = Some j \<and> delays j = delays i \<and>
    curframe d' = 0 \<and> tmstart d' = tmcur \<and> totaldelay d' = totaldelay d + delays i ! 0"
proof -
  have i: "live i" "0 < delays i ! 0" "0 \<le> curloop d" "frame_at i = Some 0"
    using assms(1,3,4,5) by (auto simp: anim_ok_def)
  have dl: "frame_delay i = Some (delays i ! 0)" using delay[OF i(1,4)] by simp
  let ?ts = "tmstart d - 0x100000000"
  have ts: "wrap_start (tmstart d) (totaldelay d - delays i ! 0) tmcur = ?ts"
  proof -
    have "tmstart d + (totaldelay d - delays i ! 0) > tmcur"
      "\<not> ?ts + (totaldelay d - delays i ! 0) > tmcur"
      using assms(9,10,12) i(2) by simp_all
    then show ?thesis
      using wrap_start.simps[of "tmstart d" "totaldelay d - delays i ! 0" tmcur]
        wrap_start.simps[of ?ts "totaldelay d - delays i ! 0" tmcur] by simp
  qed
  let ?d = "(emit KillTimer d)\<lparr>world := w, curframe := frame_count i - 1, tmstart := tmcur\<rparr>"
  have e: "onAnimate E ops d = anim_advance E ops True tmcur i ?d"
    using assms(2-12) dl ts by (auto simp: onAnimate_def Let_def emit_def)
  have p: "live (pimg (doc_play i ?d))" "0 \<le> ploop (doc_play i ?d)" "0 < ptotal (doc_play i ?d)"
    "0 < delays (pimg (doc_play i ?d)) ! 0"
    "0 < loop_num (pimg (doc_play i ?d)) \<longrightarrow> ploop (doc_play i ?d) < loop_num (pimg (doc_play i ?d))"
    using i assms(4,11) by (auto simp: doc_play_def emit_def)
  from restart_round[OF p] obtain q where q: "anim_round ops True (doc_play i ?d) = Some (q, False)"
    "in_play q" "delays (pimg q) = delays i" "loop_num (pimg q) = loop_num i" "pframe q = 0"
    "ploop q = curloop d" "ptotal q = totaldelay d + delays i ! 0" by (auto simp: doc_play_def emit_def)
  then have c: "catch_up ops True tmcur tmcur (doc_play i ?d) = Some q"
    using assms(11) i(2) by (subst catch_up.simps) simp
  have "frame_at (pimg q) = Some 0" using q(2,5) by (simp add: in_play_def)
  then have fd: "frame_delay (pimg q) = Some (delays i ! 0)"
    using delay[of "pimg q" 0] q(2,3) by (simp add: in_play_def)
  have run: "(loop_num i \<le> 0 \<and> 0 \<le> curloop d) \<or> curloop d < loop_num i" using assms(4) i(3) by auto
  show ?thesis unfolding e using c fd run q(3-7) assms(7,8)
    by (auto simp: anim_advance_def anim_finish_def doc_play_def Let_def emit_def)
qed

end

section \<open>GIF and TIFF animations\<close>

definition gdi_anim :: "(u32 \<Rightarrow> bitmap \<Rightarrow> bitmap) \<Rightarrow> gdi_image anim_ops" where
  "gdi_anim blend = \<lparr>an_next = gdi_nextFrame blend, an_loops = gi_loopnum, an_count = gi_framecnt,
     an_delay = gdi_getFrameDelay\<rparr>"

lemma gdi_ops: "gdi.ops blend = gdi_anim blend"
  by (simp add: gdi.ops_def gdi_anim_def)

fun callbacks :: "('h, 'w, 'f, 'img) env \<Rightarrow> 'img anim_ops \<Rightarrow> nat \<Rightarrow> ('h, 'w, 'img) doc \<Rightarrow>
    ('h, 'w, 'img) doc option" where
  "callbacks E A 0 d = Some d"
| "callbacks E A (Suc n) d = (case onAnimate E A d of None \<Rightarrow> None | Some d' \<Rightarrow> callbacks E A n d')"


lemma shown_anim_ok:
  assumes "gdi_frame_ok blend img" and "gdi_frame_at img = Some 0" and "0 < gi_framedelay img ! 0"
    and "is_anim E img" and "frame_delay E img = gi_framedelay img ! 0"
  shows "gdi.anim_ok blend img (open_show E p c img d)"
  using assms by (auto simp: gdi.anim_ok_def open_show_def with_view_def emit_def gdi_live_def
      gdi_same_refl split: prod.splits)

section \<open>Properties\<close>


text \<open>
  A callback that comes in time, or late by no more than ten frames or one second, shows the
  frame that is due on the schedule, skipping the frames that were missed: the frame shown ends
  more than 10 ms from now and did not begin later than 20 ms from now, unless the last loop
  ended.
\<close>

theorem animation_keeps_schedule:
  assumes "gdi.anim_ok blend img d" and "view d" and "image d = Some im"
    and "\<not> (0 < gi_loopnum im \<and> gi_loopnum im \<le> curloop d)"
    and "tick E (world d) = (now, w)" and "gdi_getFrameDelay im = Some dl"
    and "ts = wrap_start (tmstart d) (totaldelay d - dl) now"
    and "now - max (dl * 10) 1000 \<le> ts + totaldelay d" and "ts + totaldelay d \<le> now + 20"
    and "onAnimate E (gdi_anim blend) d = Some d'"
  shows "\<exists>im'. image d' = Some im' \<and> gi_framedelay im' = gi_framedelay im \<and>
    gi_loopnum im' = gi_loopnum im \<and> (0 < gi_loopnum im' \<and> gi_loopnum im' \<le> curloop d' \<or>
     now + 10 < ts + totaldelay d' \<and> gi_curfid im' = curframe d' \<and>
     ts + totaldelay d' - gi_framedelay im' ! nat (curframe d') \<le> now + 20)"
  using gdi.animate_schedule[of blend img d, OF assms(1-9)] assms(10)
  by (fastforce simp: gdi_ops gdi_frame_at_def split: if_splits)

section \<open>Examples\<close>

text \<open>A GIF of three frames of 100, 0 and 200 ms, and a clock that \<open>world\<close> advances.\<close>

definition ex_clip :: gdi_image where
  "ex_clip = gdi_image_new\<lparr>gi_fmt := Fmt_GIF, gi_dim := (1, 2), gi_framecnt := 3,
     gi_framedelay := [100, 0, 200], gi_pixfmt := Px24RGB, gi_gbitmap := Some ex_gdi,
     gi_fbitmap := gdiplusConvert ex_gdi 0\<rparr>"

lemma ex_clip_ok: "gdi_frame_ok (\<lambda>bg b. b) ex_clip"
  by (simp add: gdi_frame_ok_def ex_clip_def gdi_image_new_def gdi_shown_def frame_blended_def
      option.map_ident)

definition clock_env :: "(unit, int list, unit, gdi_image) env" where
  "clock_env = \<lparr>openfile = (\<lambda>h p m w. (None, w)), readdir = (\<lambda>h p w. (None, w)),
     removefile = (\<lambda>h p w. (-1, w)), is_remote = (\<lambda>h. False), is_local = (\<lambda>h. True),
     fs_status = (\<lambda>h w. STATUS_OK), reconnect = (\<lambda>h w. (False, w)), codecs = [], supported_types = [],
     wrap_zdata = (\<lambda>f. f), sniff = (\<lambda>f w. ([], f, w)), rewind = (\<lambda>f w. (f, w)),
     file_read = (\<lambda>f n. ([], f)), create_local = (\<lambda>p w. (None, w)),
     shell_delete = (\<lambda>p b w. ((-1, False), w)),
     tick = (\<lambda>w. (hd (w @ [0]), tl w)), is_anim = (\<lambda>i. 1 < gi_framecnt i),
     frame_delay = (\<lambda>i. gi_framedelay i ! nat (gi_curfid i)), cmp = (\<lambda>a b. 0),
     w2u = (\<lambda>s. None), u2w = (\<lambda>s. None)\<rparr>"

definition clip_doc :: "int list \<Rightarrow> (unit, int list, gdi_image) doc" where
  "clip_doc ts = open_show clock_env ''x'' 0 ex_clip ((new_doc ts)\<lparr>view := True\<rparr>)"


lemma clip_doc_ok: "gdi.anim_ok (\<lambda>bg b. b) ex_clip (clip_doc ts)"
  unfolding clip_doc_def
  by (rule shown_anim_ok[OF ex_clip_ok])
    (simp_all add: clock_env_def gdi_frame_at_def ex_clip_def gdi_image_new_def)

lemma clip_doc_state:
  "view (clip_doc [0, 105, 106])" "image (clip_doc [0, 105, 106]) = Some ex_clip"
  "world (clip_doc [0, 105, 106]) = [105, 106]" "tmstart (clip_doc [0, 105, 106]) = 0"
  "totaldelay (clip_doc [0, 105, 106]) = 100"
  by (simp_all add: clip_doc_def open_show_def with_view_def emit_def clock_env_def ex_clip_def
      gdi_image_new_def new_doc_def)

theorem animation_keeps_schedule_witness:
  "\<exists>d' im'. onAnimate clock_env (gdi_anim (\<lambda>bg b. b)) (clip_doc [0, 105, 106]) = Some d' \<and>
     image d' = Some im' \<and> 115 < totaldelay d' \<and> gi_curfid im' = curframe d'"
proof -
  let ?d = "clip_doc [0, 105, 106]"
  obtain d' where d': "onAnimate clock_env (gdi_anim (\<lambda>bg b. b)) ?d = Some d'"
    using gdi.animate_keeps[OF clip_doc_ok] by (auto simp: gdi_ops)
  have c: "\<not> (0 < gi_loopnum ex_clip \<and> gi_loopnum ex_clip \<le> curloop ?d)"
    "gdi_getFrameDelay ex_clip = Some 100" "gi_loopnum ex_clip = 0"
    "tick clock_env (world ?d) = (105, [106])"
    "(0::int) = wrap_start (tmstart ?d) (totaldelay ?d - 100) 105"
    by (simp_all add: ex_clip_def gdi_image_new_def gdi_getFrameDelay_def clip_doc_state clock_env_def
        wrap_start.simps)
  obtain im' where im': "image d' = Some im'" "gi_loopnum im' = 0" "0 < gi_loopnum im' \<and> gi_loopnum im' \<le> curloop d' \<or>
     105 + 10 < 0 + totaldelay d' \<and> gi_curfid im' = curframe d' \<and>
     0 + totaldelay d' - gi_framedelay im' ! nat (curframe d') \<le> 105 + 20"
    using animation_keeps_schedule[OF clip_doc_ok clip_doc_state(1,2) c(1,4,2,5) _ _ d'] c(3)
    by (auto simp: clip_doc_state)
  with im' d' show ?thesis by auto
qed

section \<open>Cases the code does not handle well\<close>

text \<open>
  The restart flag is never cleared inside the loop.  When the first frame has no delay (which
  is common in GIF files) and the total is still small, a restart rewinds for ever: the callback
  does not return and the program hangs.
\<close>

lemma restart_hangs:
  fixes p :: "'img play"
  assumes "\<And>i. P i \<Longrightarrow> \<exists>r j. an_next A True i = (r, j) \<and> r \<noteq> IM_NO_MORE_FRAMES \<and> P j \<and>
      an_delay A j = Some 0"
    and "P (pimg p)" and "t0 + ptotal p \<le> tmcur + 10" and "\<not> (0 < ploop p \<and> ptotal p = 0)"
  shows "catch_up A True t0 tmcur p = None"
proof (rule ccontr)
  assume "catch_up A True t0 tmcur p \<noteq> None"
  then obtain q where q: "catch_up A True t0 tmcur p = Some q" by blast
  define bad where "bad A' reset t0' tm p \<longleftrightarrow> A' = A \<and> reset \<and> P (pimg p) \<and> t0' + ptotal p \<le> tm + 10 \<and>
    \<not> (0 < ploop p \<and> ptotal p = 0)" for A' reset t0' tm and p :: "'img play"
  have "\<not> bad A True t0 tmcur p"
  proof (rule catch_up.raw_induct[where P = "\<lambda>A r t0 tm p q. \<not> bad A r t0 tm p", OF _ q])
    fix f A' r t0' tm p' q'
    assume IH: "\<And>A r t0 tm p q. f A r t0 tm p = Some q \<Longrightarrow> \<not> bad A r t0 tm p"
      and eq: "(case anim_round A' r p' of None \<Rightarrow> None
        | Some (p'', brk) \<Rightarrow> if \<not> brk \<and> t0' + ptotal p'' \<le> tm + 10 then f A' r t0' tm p'' else Some p'') =
        Some (q' :: 'img play)"
    show "\<not> bad A' r t0' tm p'"
    proof
      assume b: "bad A' r t0' tm p'"
      then have "A' = A" "r" "P (pimg p')" by (simp_all add: bad_def)
      with assms(1) obtain r1 j where j: "an_next A True (pimg p') = (r1, j)" "P j"
        "an_delay A j = Some 0" "r1 \<noteq> IM_NO_MORE_FRAMES" by blast
      let ?p = "p'\<lparr>pimg := j, pframe := 0\<rparr>"
      have "anim_round A' r p' = Some (?p, False)"
        using b j by (auto simp: bad_def anim_round_def anim_delay_def)
      with eq b have "f A' r t0' tm ?p = Some q'" by (auto simp: bad_def)
      moreover have "bad A' r t0' tm ?p" using b j(2) by (simp add: bad_def)
      ultimately show False using IH by blast
    qed
  qed
  then show False using assms by (simp add: bad_def)
qed

text \<open>
  So a GIF with delays of 0, 100 and 200 ms hangs the program when its first callback comes two
  seconds after it was opened, for example after a slow directory scan.
\<close>

definition zero_clip :: gdi_image where
  "zero_clip = ex_clip\<lparr>gi_framedelay := [0, 100, 200]\<rparr>"

lemma zero_first_frame_hangs:
  "onAnimate clock_env (gdi_anim (\<lambda>bg b. b))
     (open_show clock_env ''x'' 0 zero_clip ((new_doc [0, 2000])\<lparr>view := True\<rparr>)) = None"
proof -
  let ?P = "\<lambda>im. gdi_frame_ok (\<lambda>bg b. b) im \<and> gi_framedelay im = [0, 100, 200]"
  have s: "\<exists>r j. an_next (gdi_anim (\<lambda>bg b. b)) True im = (r, j) \<and> r \<noteq> IM_NO_MORE_FRAMES \<and> ?P j \<and>
      an_delay (gdi_anim (\<lambda>bg b. b)) j = Some 0" if p: "?P im" for im
  proof -
    obtain r j where n: "gdi_nextFrame (\<lambda>bg b. b) True im = (r, j)" by fastforce
    from gdi_next_moves[OF conjunct1[OF p] n refl] p n show ?thesis
      by (auto simp: gdi_anim_def gdi_getFrameDelay_def gdi_frame_ok_def gdi_same_def)
  qed
  have z: "?P zero_clip"
    by (simp add: zero_clip_def gdi_frame_ok_def ex_clip_def gdi_image_new_def gdi_shown_def
        frame_blended_def option.map_ident)
  have "catch_up (gdi_anim (\<lambda>bg b. b)) True 2000 2000
      \<lparr>pimg = zero_clip, pframe = 2, ploop = 0, ptotal = 0\<rparr> = None"
    by (rule restart_hangs[where P = ?P]) (use s z in simp_all)
  moreover have "gdi_getFrameDelay zero_clip = Some 0" "gi_loopnum zero_clip = 0"
    "gi_framecnt zero_clip = 3" "gi_curfid zero_clip = 0" "gi_framedelay zero_clip = [0, 100, 200]"
    by (simp_all add: zero_clip_def ex_clip_def gdi_image_new_def gdi_getFrameDelay_def)
  ultimately show ?thesis
    by (simp add: onAnimate_def open_show_def with_view_def emit_def clock_env_def new_doc_def
        gdi_anim_def wrap_start.simps anim_advance_def Let_def)
qed

end
