(* ===== verification/Geometry.thy ===== *)
theory Geometry
  imports Prelude
begin

text \<open>
  The Windows geometry the user interface computes with: points, sizes and rectangles, the DPI
  helper of obZrv/dpi.cpp and dpi.h, and the small arithmetic the windows share.  Coordinates
  are integers without a bound; every value the code forms from screen and image sizes below
  \<open>2 ^ 16\<close> and zoom levels up to \<open>10000\<close> fits into 32 bits unless stated otherwise.
\<close>

type_synonym pt = "int \<times> int"
type_synonym sz = "int \<times> int"

record rect =
  r_left :: int
  r_top :: int
  r_right :: int
  r_bottom :: int

definition mk_rect :: "int \<Rightarrow> int \<Rightarrow> int \<Rightarrow> int \<Rightarrow> rect" where
  "mk_rect l t r b = \<lparr>r_left = l, r_top = t, r_right = r, r_bottom = b\<rparr>"

definition rectW :: "rect \<Rightarrow> int" where "rectW r = r_right r - r_left r"
definition rectH :: "rect \<Rightarrow> int" where "rectH r = r_bottom r - r_top r"

text \<open>\<open>PtInRect\<close>: the right and bottom edges are outside.\<close>

definition pt_in_rect :: "rect \<Rightarrow> pt \<Rightarrow> bool" where
  "pt_in_rect r p \<longleftrightarrow> r_left r \<le> fst p \<and> fst p < r_right r \<and> r_top r \<le> snd p \<and> snd p < r_bottom r"

section \<open>Dpi\<close>

text \<open>\<open>Scale\<close>; \<open>s_dpi\<close> is the argument.\<close>

definition dpi_scale :: "int \<Rightarrow> int \<Rightarrow> int" where
  "dpi_scale s_dpi px = (px * s_dpi + 48) sdiv 96"

text \<open>
  \<open>Update\<close>: the first source that exists and answers.  The arguments are \<open>GetDpiForWindow\<close> (for
  a window), \<open>GetDpiForMonitor\<close> with its success, and the device capability.
\<close>

definition dpi_update :: "int option \<Rightarrow> bool \<Rightarrow> int option \<Rightarrow> int \<Rightarrow> int" where
  "dpi_update for_window has_hwnd for_monitor device =
     (case for_window of
        Some d \<Rightarrow> if has_hwnd then d
                  else (case for_monitor of Some m \<Rightarrow> m | None \<Rightarrow> device)
      | None \<Rightarrow> (case for_monitor of Some m \<Rightarrow> m | None \<Rightarrow> device))"

datatype dpi_call = SetContext | SetAwareness | SetAware | NoCall

definition dpi_enable :: "bool \<Rightarrow> bool \<Rightarrow> bool \<Rightarrow> dpi_call" where
  "dpi_enable has_context has_awareness has_aware =
     (if has_context then SetContext else if has_awareness then SetAwareness
      else if has_aware then SetAware else NoCall)"

lemma sdiv_div: "0 \<le> a \<Longrightarrow> 0 < b \<Longrightarrow> a sdiv b = a div (b :: int)"
  by (simp add: signed_divide_int_def sgn_if)

lemma dpi_scale_96: "0 \<le> px \<Longrightarrow> dpi_scale 96 px = px"
  by (simp add: dpi_scale_def sdiv_div)

lemma dpi_scale_rounds:
  assumes "0 \<le> px" and "0 < d"
  shows "2 * \<bar>96 * dpi_scale d px - px * d\<bar> \<le> 96"
proof -
  have "dpi_scale d px = (px * d + 48) div 96" using assms by (simp add: dpi_scale_def sdiv_div)
  moreover have "96 * ((px * d + 48) div 96) + (px * d + 48) mod 96 = px * d + 48" by simp
  moreover have "0 \<le> (px * d + 48) mod 96" "(px * d + 48) mod 96 < 96" by simp_all
  ultimately have "\<bar>96 * dpi_scale d px - px * d\<bar> \<le> 48" unfolding abs_le_iff by linarith
  then show ?thesis by simp
qed

section \<open>Moving one axis of a window into the work area\<close>

text \<open>
  The adjustment \<open>ImageView::fitWindow2Image\<close> makes on each axis: grow by \<open>d\<close> around the
  centre, then move back over the far and the near edge.
\<close>

definition shift_axis :: "int \<Rightarrow> int \<Rightarrow> int \<times> int \<Rightarrow> int \<Rightarrow> int \<times> int" where
  "shift_axis wlo whi lohi d =
     (let lo = fst lohi - d sdiv 2;
          hi = snd lohi + (d - d sdiv 2);
          lh = (if hi > whi then (whi - (hi - lo), whi) else (lo, hi))
      in if fst lh < wlo then (wlo, wlo + (snd lh - fst lh)) else lh)"

lemma shift_axis_inside:
  assumes "shift_axis wlo whi (lo, hi) d = (lo', hi')"
  shows "hi' - lo' = hi - lo + d \<and> wlo \<le> lo' \<and> (hi - lo + d \<le> whi - wlo \<longrightarrow> hi' \<le> whi)"
  using assms by (auto simp: shift_axis_def Let_def split: if_splits)

end
