(* ===== verification/Image_View.thy ===== *)
theory Image_View
  imports Complex_Main Geometry Doc
begin

text \<open>
  obZrv/ImageView.cpp: the view of the image.  Its state is the zoom mode and level, the size of
  the scaled image, the crop of it that is visible, the pan offset, and a drag in progress.
  \<open>OnPaint\<close> computes the layout and has the image rendered for it; the bitmap it keeps is
  represented by the scale and crop it was rendered for.  The client size, the image dimensions
  and the placement of the main window are arguments.  Drawing itself is Windows calls.
\<close>

section \<open>State\<close>

datatype zoom_type = ZT_W2I_ZOOMOUT | ZT_W2I | ZT_I2W_ZOOMOUT | ZT_I2W | ZT_NOFIT

datatype drag_type = DT_PAN | DT_ZOOMDRAG

record image_view =
  zoomtype :: zoom_type
  zoomlevel :: int
  fitlevel :: int
  vbitmap :: "(sz \<times> rect) option"
  vwnd :: sz
  vscale :: sz
  voffset :: sz
  vcrop :: rect
  dragtype :: drag_type
  isdragging :: bool
  dorigin :: pt
  dcur :: pt
  zorigin :: pt
  zstart :: int
  click :: sz

definition view_new :: image_view where
  "view_new = \<lparr>zoomtype = ZT_W2I_ZOOMOUT, zoomlevel = 0, fitlevel = 0, vbitmap = None,
     vwnd = (-1, -1), vscale = (-1, -1), voffset = (0, 0), vcrop = mk_rect (-1) (-1) (-1) (-1),
     dragtype = DT_PAN, isdragging = False, dorigin = (-1, -1), dcur = (-1, -1),
     zorigin = (-1, -1), zstart = 0, click = (0, 0)\<rparr>"

definition releaseBitmap :: "image_view \<Rightarrow> image_view" where
  "releaseBitmap v = v\<lparr>vbitmap := None\<rparr>"

text \<open>The modes in which the window follows the image, and those with panning at 100 percent.\<close>

definition fits_window :: "image_view \<Rightarrow> bool" where
  "fits_window v \<longleftrightarrow> zoomtype v = ZT_W2I_ZOOMOUT \<or> zoomtype v = ZT_W2I"

definition natural_mode :: "image_view \<Rightarrow> bool" where
  "natural_mode v \<longleftrightarrow> zoomtype v = ZT_W2I \<or> zoomtype v = ZT_NOFIT"

section \<open>Layout\<close>

text \<open>\<open>(LONG)((double)a * b / c + 0.5)\<close>, exact for the sizes in question.\<close>

definition round_div :: "int \<Rightarrow> int \<Rightarrow> int \<Rightarrow> int" where
  "round_div a b c = (2 * a * b + c) div (2 * c)"

text \<open>The scale that fits the image into the view: level in percent, and size.\<close>

definition fit_scale :: "sz \<Rightarrow> sz \<Rightarrow> int \<times> sz" where
  "fit_scale ws img =
     (if fst ws * snd img > snd ws * fst img
      then (snd ws * 100 sdiv snd img, (max (round_div (snd ws) (fst img) (snd img)) 1, snd ws))
      else (fst ws * 100 sdiv fst img, (fst ws, max (round_div (fst ws) (snd img) (fst img)) 1)))"

definition auto_fit :: "zoom_type \<Rightarrow> sz \<Rightarrow> sz \<Rightarrow> int \<times> sz" where
  "auto_fit zt ws img =
     (case zt of
        ZT_I2W \<Rightarrow> if fst img = 0 \<or> snd img = 0 then (100, (1, 1)) else fit_scale ws img
      | _ \<Rightarrow> if fst ws \<ge> fst img \<and> snd ws \<ge> snd img then (100, img) else fit_scale ws img)"

definition auto_layout :: "sz \<Rightarrow> sz \<Rightarrow> image_view \<Rightarrow> image_view" where
  "auto_layout ws img v =
     (if zoomlevel v \<noteq> 0 then v
      else if natural_mode v then v\<lparr>fitlevel := 100, vscale := img\<rparr>
      else case auto_fit (zoomtype v) ws img of (lvl, sc) \<Rightarrow>
        v\<lparr>fitlevel := lvl, vscale := sc, vcrop := mk_rect 0 0 (fst sc) (snd sc), voffset := (0, 0)\<rparr>)"

text \<open>One axis of the crop: centred, then moved by the pan offset and the drag.\<close>

definition axis_crop :: "int \<Rightarrow> int \<Rightarrow> int \<times> int" where
  "axis_crop vw scale =
     (if vw \<ge> scale then (0, scale)
      else let lo = (scale - vw) sdiv 2 in (lo, lo + vw))"

definition axis_pan :: "int \<Rightarrow> int \<Rightarrow> int \<times> int \<Rightarrow> int \<times> int \<times> int" where
  "axis_pan off scale lohi =
     (case lohi of (lo, hi) \<Rightarrow>
      if hi - lo < scale then
        let o1 = (if lo + off < 0 then - lo else off);
            o2 = (if hi + o1 > scale then scale - hi else o1)
        in (o2, lo + o2, hi + o2)
      else (0, lo, hi))"

definition zoom_scale :: "int \<Rightarrow> sz \<Rightarrow> sz" where
  "zoom_scale level img = (max (fst img * level sdiv 100) 1, max (snd img * level sdiv 100) 1)"

definition pan_offset :: "image_view \<Rightarrow> sz" where
  "pan_offset v = (if isdragging v \<and> dragtype v = DT_PAN
     then (fst (voffset v) - (fst (dcur v) - fst (dorigin v)),
           snd (voffset v) - (snd (dcur v) - snd (dorigin v)))
     else voffset v)"

definition fixed_layout :: "sz \<Rightarrow> sz \<Rightarrow> image_view \<Rightarrow> image_view" where
  "fixed_layout ws img v =
     (if \<not> (zoomlevel v \<noteq> 0 \<or> natural_mode v) then v
      else
      let v1 = (if zoomlevel v \<noteq> 0 then v\<lparr>vscale := zoom_scale (zoomlevel v) img\<rparr> else v);
          sc = vscale v1;
          cx = axis_crop (fst ws) (fst sc); cy = axis_crop (snd ws) (snd sc);
          px = axis_pan (fst (pan_offset v1)) (fst sc) cx;
          py = axis_pan (snd (pan_offset v1)) (snd sc) cy in
      if voffset v1 \<noteq> (0, 0) \<or> (isdragging v1 \<and> dorigin v1 \<noteq> dcur v1) then
        v1\<lparr>vcrop := mk_rect (fst (snd px)) (fst (snd py)) (snd (snd px)) (snd (snd py)),
           voffset := (if \<not> isdragging v1 then (fst px, fst py) else voffset v1)\<rparr>
      else v1\<lparr>vcrop := mk_rect (fst cx) (fst cy) (snd cx) (snd cy)\<rparr>)"

text \<open>\<open>OnPaint\<close> up to the drawing; without an image it only fills the background.\<close>

definition OnPaint :: "sz option \<Rightarrow> sz \<Rightarrow> image_view \<Rightarrow> image_view" where
  "OnPaint im ws v =
     (case im of None \<Rightarrow> v
      | Some img \<Rightarrow>
        if vbitmap v = None \<or> ws \<noteq> vwnd v then
          let v1 = (fixed_layout ws img (auto_layout ws img v))\<lparr>vwnd := ws\<rparr>;
              v2 = (if vcrop v1 \<noteq> vcrop v then releaseBitmap v1 else v1)
          in (if vbitmap v2 = None then v2\<lparr>vbitmap := Some (vscale v2, vcrop v2)\<rparr> else v2)
        else v)"

text \<open>Where the bitmap is drawn, and the margins filled around it.\<close>

definition draw_rect :: "sz \<Rightarrow> rect \<Rightarrow> rect" where
  "draw_rect ws crop =
     (let imgw = rectW crop; imgh = rectH crop;
          l = (if fst ws > imgw then (fst ws - imgw) sdiv 2 else 0);
          t = (if snd ws > imgh then (snd ws - imgh) sdiv 2 else 0)
      in mk_rect l t (if fst ws > imgw then l + imgw else fst ws)
           (if snd ws > imgh then t + imgh else snd ws))"

definition margins :: "sz \<Rightarrow> rect \<Rightarrow> rect list" where
  "margins ws crop =
     (let d = draw_rect ws crop; imgw = rectW crop; w = fst ws; h = snd ws in
      (if r_left d > 0 then [mk_rect 0 0 (r_left d) h] else []) @
      (if r_right d < w then [mk_rect (r_right d) 0 (r_right d + (w - r_right d)) h] else []) @
      (if r_top d > 0 then [mk_rect (r_left d) 0 (r_left d + imgw) (r_top d)] else []) @
      (if r_bottom d < h
       then [mk_rect (r_left d) (r_bottom d) (r_left d + imgw) (r_bottom d + (h - r_bottom d))]
       else []))"

section \<open>fitWindow2Image\<close>

text \<open>
  The main window: whether its placement can be read and is normal, its rectangle, the work
  area of its monitor, and the client size of the view.
\<close>

record main_window =
  placement_ok :: bool
  show_normal :: bool
  normal_pos :: rect
  work_area :: "rect option"
  view_size :: sz

text \<open>The size the view should get; \<open>mw\<close>, \<open>mh\<close> are the most the work area allows.\<close>

definition fit_wanted :: "zoom_type \<Rightarrow> int \<Rightarrow> sz \<Rightarrow> int \<Rightarrow> int \<Rightarrow> sz" where
  "fit_wanted zt level img mw mh =
     (if level \<noteq> 0 \<or> zt = ZT_W2I then
        let iw = (if level \<noteq> 0 then fst img * level sdiv 100 else fst img);
            ih = (if level \<noteq> 0 then snd img * level sdiv 100 else snd img)
        in (min iw mw, min ih mh)
      else
        let imw = fst img; imh = snd img in
        if imw > mw \<and> mw * imh \<le> mh * imw then (mw, min (mw * imh sdiv imw + 1) mh)
        else if imh > mh \<and> mw * imh \<ge> mh * imw then (min (mh * imw sdiv imh + 1) mw, mh)
        else (imw, imh))"

text \<open>\<open>(int)(400 * dpiScale)\<close> with \<open>dpiScale = Dpi::Scale(1000) / 1000.0\<close>.\<close>

definition fit_size :: "int \<Rightarrow> zoom_type \<Rightarrow> int \<Rightarrow> sz \<Rightarrow> int \<Rightarrow> int \<Rightarrow> sz" where
  "fit_size s_dpi zt level img mw mh =
     (case fit_wanted zt level img mw mh of (imw, imh) \<Rightarrow>
        (min (max imw (400 * dpi_scale s_dpi 1000 div 1000)) mw, min (max imh 20) mh))"

text \<open>The new placement, and where the cursor is put; \<open>None\<close> when nothing is set.\<close>

definition fit_placement :: "int \<Rightarrow> zoom_type \<Rightarrow> int \<Rightarrow> sz \<Rightarrow> pt \<Rightarrow> main_window \<Rightarrow>
    (rect \<times> pt option) option" where
  "fit_placement s_dpi zt level img mousepos m =
     (if \<not> placement_ok m \<or> \<not> show_normal m then None
      else case work_area m of None \<Rightarrow> None
      | Some wa \<Rightarrow>
        let viewW = fst (view_size m); viewH = snd (view_size m); np = normal_pos m;
            mw = rectW wa - (rectW np - viewW); mh = rectH wa - (rectH np - viewH);
            im = fit_size s_dpi zt level img mw mh;
            dw = fst im - viewW; dh = snd im - viewH;
            h = (if dw \<noteq> 0 then shift_axis (r_left wa) (r_right wa) (r_left np, r_right np) dw
                 else (r_left np, r_right np));
            w = (if dh \<noteq> 0 then shift_axis (r_top wa) (r_bottom wa) (r_top np, r_bottom np) dh
                 else (r_top np, r_bottom np)) in
        if dw \<noteq> 0 \<or> dh \<noteq> 0 then
          Some (mk_rect (fst h) (fst w) (snd h) (snd w),
                if fst mousepos \<ge> 0 then Some (fst mousepos + fst h, snd mousepos + fst w) else None)
        else None)"

text \<open>\<open>fitWindow2Image\<close>: on every path the bitmap is dropped.\<close>

definition fitWindow2Image :: "int \<Rightarrow> sz \<Rightarrow> pt \<Rightarrow> main_window \<Rightarrow> image_view \<Rightarrow>
    (rect \<times> pt option) option \<times> image_view" where
  "fitWindow2Image s_dpi img mousepos m v =
     (fit_placement s_dpi (zoomtype v) (zoomlevel v) img mousepos m, releaseBitmap v)"

section \<open>preserveMouse\<close>

text \<open>
  The tool bar: the cursor on the screen and in the bar, the client area, the buttons (\<open>None\<close>
  where \<open>TB_GETBUTTON\<close> fails), and the corner of the main window.
\<close>

record tb_button =
  tb_sep :: bool
  tb_hidden :: bool
  tb_rect :: "rect option"
  tb_id :: int

record tool_bar =
  tb_cursor :: pt
  tb_pos :: pt
  tb_client :: rect
  tb_buttons :: "tb_button option list"
  frame_corner :: pt

fun hit_button :: "pt \<Rightarrow> tb_button option list \<Rightarrow> int option" where
  "hit_button p [] = None"
| "hit_button p (None # bs) = hit_button p bs"
| "hit_button p (Some b # bs) =
     (if tb_sep b \<or> tb_hidden b then hit_button p bs
      else case tb_rect b of None \<Rightarrow> hit_button p bs
        | Some r \<Rightarrow> if pt_in_rect r p then Some (tb_id b) else hit_button p bs)"

definition preserveMouse :: "int \<Rightarrow> tool_bar option \<Rightarrow> pt" where
  "preserveMouse cid tb =
     (case tb of None \<Rightarrow> (-1, -1)
      | Some t \<Rightarrow>
        if cid < 0 \<or> \<not> pt_in_rect (tb_client t) (tb_pos t) then (-1, -1)
        else (case hit_button (tb_pos t) (tb_buttons t) of None \<Rightarrow> (-1, -1)
          | Some b \<Rightarrow> if b \<noteq> cid then (-1, -1)
              else (fst (tb_cursor t) - fst (frame_corner t), snd (tb_cursor t) - snd (frame_corner t))))"

section \<open>Callbacks of the document\<close>

text \<open>What a handler can see of the windows around the view.\<close>

record ui_ctx =
  dpi :: int
  tbar :: "tool_bar option"
  mainw :: main_window

type_synonym placed = "(rect \<times> pt option) option"

definition ID_FILE_PREV :: int where "ID_FILE_PREV = 1005"
definition ID_FILE_NEXT :: int where "ID_FILE_NEXT = 1006"
definition ID_VIEW_ZOOMIN :: int where "ID_VIEW_ZOOMIN = 1007"
definition ID_VIEW_ZOOMOUT :: int where "ID_VIEW_ZOOMOUT = 1008"
definition ID_ZOOMMODE_W2I_ZOOMOUT :: int where "ID_ZOOMMODE_W2I_ZOOMOUT = 1010"

definition toolbar_id :: "int \<Rightarrow> int" where
  "toolbar_id cmdid =
     (if cmdid = cmdid_of NAV_PREV then ID_FILE_PREV
      else if cmdid = cmdid_of NAV_NEXT then ID_FILE_NEXT
      else if cmdid = ID_FILE_PREV \<or> cmdid = ID_FILE_NEXT then cmdid else -1)"

definition onFileOpened :: "ui_ctx \<Rightarrow> sz option \<Rightarrow> int \<Rightarrow> image_view \<Rightarrow> placed \<times> image_view" where
  "onFileOpened c im cmdid v =
     (case im of None \<Rightarrow> (None, v)
      | Some img \<Rightarrow>
        let mousepos = preserveMouse (toolbar_id cmdid) (tbar c);
            v1 = v\<lparr>zoomlevel := 0, fitlevel := 0, vscale := (-1, -1),
                   vcrop := mk_rect (-1) (-1) (-1) (-1), voffset := (0, 0)\<rparr>
        in if fits_window v1 then fitWindow2Image (dpi c) img mousepos (mainw c) v1
           else (None, releaseBitmap v1))"

definition onFrameUpdate :: "sz option \<Rightarrow> image_view \<Rightarrow> image_view" where
  "onFrameUpdate im v =
     (let v1 = releaseBitmap v
      in (if im \<noteq> None then v1\<lparr>vbitmap := Some (vscale v1, vcrop v1)\<rparr> else v1))"

section \<open>Zoom steps and modes\<close>

definition zoom_levels :: "int list" where
  "zoom_levels = [1, 2, 3, 5, 7, 10, 15, 20, 30, 50, 70, 100, 150, 200, 300, 500, 700, 1000,
     2000, 3000, 5000, 7000, 10000]"

definition cur_level :: "image_view \<Rightarrow> int" where
  "cur_level v = (if zoomlevel v \<noteq> 0 then zoomlevel v else fitlevel v)"

text \<open>\<open>upper_bound\<close>, and the element before \<open>lower_bound\<close>, on a sorted list.\<close>

definition next_level :: "int \<Rightarrow> int" where
  "next_level cur = hd (dropWhile (\<lambda>l. l \<le> cur) zoom_levels)"

definition prev_level :: "int \<Rightarrow> int" where
  "prev_level cur = last (takeWhile (\<lambda>l. l < cur) zoom_levels)"

text \<open>The level \<open>zoom\<close> moves to; \<open>None\<close> where it returns \<open>-1\<close>.\<close>

definition zoom_to :: "int \<Rightarrow> sz \<Rightarrow> int \<Rightarrow> int option" where
  "zoom_to inout img cur =
     (if inout > 0 then
        (if cur \<ge> last zoom_levels then None else Some (next_level cur))
      else if cur \<le> hd zoom_levels then None
      else if max (fst img) (snd img) * prev_level cur sdiv 100 < 1 then None
      else Some (prev_level cur))"

definition zoom :: "ui_ctx \<Rightarrow> sz option \<Rightarrow> int \<Rightarrow> bool \<Rightarrow> image_view \<Rightarrow> int \<times> placed \<times> image_view" where
  "zoom c im inout test v =
     (case im of None \<Rightarrow> (-1, None, v)
      | Some img \<Rightarrow>
        if inout = 0 then (0, None, v)
        else
        let orilevel = (if zoomlevel v \<noteq> 0 then zoomlevel v else 100) in
        (case zoom_to inout img (cur_level v) of None \<Rightarrow> (-1, None, v)
         | Some l \<Rightarrow>
           if test then (0, None, v)
           else
           let v1 = v\<lparr>zoomlevel := l\<rparr>;
               v2 = v1\<lparr>voffset := (fst (voffset v1) * l sdiv orilevel,
                                    snd (voffset v1) * l sdiv orilevel)\<rparr>
           in if fits_window v2 then
                (case fitWindow2Image (dpi c) img
                        (preserveMouse (if inout > 0 then ID_VIEW_ZOOMIN else ID_VIEW_ZOOMOUT) (tbar c))
                        (mainw c) v2
                 of (p, v3) \<Rightarrow> (0, p, v3))
              else (0, None, releaseBitmap (v2\<lparr>vwnd := (-1, -1)\<rparr>))))"

definition zoom_modes :: "zoom_type list" where
  "zoom_modes = [ZT_W2I_ZOOMOUT, ZT_W2I, ZT_I2W_ZOOMOUT, ZT_I2W, ZT_NOFIT]"

definition setZoomMode :: "ui_ctx \<Rightarrow> sz option \<Rightarrow> int \<Rightarrow> image_view \<Rightarrow> placed \<times> image_view" where
  "setZoomMode c im cmdId v =
     (let idx = cmdId - ID_ZOOMMODE_W2I_ZOOMOUT in
      if idx < 0 \<or> idx \<ge> int (length zoom_modes) then (None, v)
      else
      let v1 = v\<lparr>zoomtype := zoom_modes ! nat idx, zoomlevel := 0, fitlevel := 0,
                 voffset := (0, 0), vscale := (-1, -1),
                 vcrop := mk_rect (-1) (-1) (-1) (-1), vwnd := (-1, -1)\<rparr> in
      case im of None \<Rightarrow> (None, v1)
      | Some img \<Rightarrow>
        if fits_window v1 then fitWindow2Image (dpi c) img (-1, -1) (mainw c) v1
        else (None, releaseBitmap v1))"

section \<open>Dragging\<close>

text \<open>Where the scaled image starts in the view, before the pan offset.\<close>

definition centre_offset :: "int \<Rightarrow> int \<Rightarrow> int" where
  "centre_offset sc w = max 0 ((sc - w) sdiv 2)"

definition adjustViewOffsetForZoom :: "sz \<Rightarrow> image_view \<Rightarrow> image_view" where
  "adjustViewOffsetForZoom ws v =
     v\<lparr>voffset := (fst (click v) * zoomlevel v sdiv 100 - fst (zorigin v)
                      - centre_offset (fst (vscale v)) (fst ws),
                    snd (click v) * zoomlevel v sdiv 100 - snd (zorigin v)
                      - centre_offset (snd (vscale v)) (snd ws)),
       vwnd := (-1, -1)\<rparr>"

definition clamp_zoom :: "int \<Rightarrow> int" where
  "clamp_zoom t = (if t < 1 then 1 else if t > 10000 then 10000 else t)"

definition applyZoomDrag :: "sz option \<Rightarrow> sz \<Rightarrow> int \<Rightarrow> image_view \<Rightarrow> image_view" where
  "applyZoomDrag im ws target v =
     (case im of None \<Rightarrow> v
      | Some img \<Rightarrow>
        let t = clamp_zoom target in
        if t = cur_level v then v
        else adjustViewOffsetForZoom ws (v\<lparr>zoomlevel := t, vscale := zoom_scale t img\<rparr>))"

text \<open>
  The start of a zoom drag, the same under both buttons: \<open>None\<close> is the division by a zero
  level.
\<close>

definition zoom_drag_start :: "sz \<Rightarrow> pt \<Rightarrow> image_view \<Rightarrow> image_view option" where
  "zoom_drag_start ws p v =
     (let v1 = v\<lparr>isdragging := True, dorigin := p, dcur := p, dragtype := DT_ZOOMDRAG,
                 zorigin := p, zstart := cur_level v\<rparr>;
          x = centre_offset (fst (vscale v1)) (fst ws) + fst (voffset v1) + fst p;
          y = centre_offset (snd (vscale v1)) (snd ws) + snd (voffset v1) + snd p
      in if zstart v1 = 0 then None
         else Some (v1\<lparr>click := (x * 100 sdiv zstart v1, y * 100 sdiv zstart v1)\<rparr>))"

definition onLButtonDown :: "sz \<Rightarrow> pt \<Rightarrow> bool \<Rightarrow> image_view \<Rightarrow> image_view option" where
  "onLButtonDown ws p bctrl v =
     (if bctrl then zoom_drag_start ws p v
      else Some (v\<lparr>isdragging := True, dorigin := p, dcur := p, dragtype := DT_PAN\<rparr>))"

definition onLButtonUp :: "image_view \<Rightarrow> image_view" where
  "onLButtonUp v =
     (if isdragging v then
        let v1 = v\<lparr>isdragging := False\<rparr>;
            v2 = (if dragtype v1 = DT_PAN
                  then v1\<lparr>voffset := (fst (voffset v1) - (fst (dcur v1) - fst (dorigin v1)),
                                       snd (voffset v1) - (snd (dcur v1) - snd (dorigin v1)))\<rparr>
                  else v1)
        in releaseBitmap v2
      else v)"

definition onRButtonUp :: "image_view \<Rightarrow> image_view" where
  "onRButtonUp v = (if isdragging v then releaseBitmap (v\<lparr>isdragging := False\<rparr>) else v)"

text \<open>
  \<open>pw k\<close> is the \<open>double\<close> that \<open>std::pow(1.01, k)\<close> returns.  The cast to \<open>int\<close> truncates;
  \<open>None\<close> where the value is outside the type.
\<close>

definition drag_level :: "(int \<Rightarrow> rat) \<Rightarrow> int \<Rightarrow> int \<Rightarrow> int option" where
  "drag_level pw start dy =
     (let x = rat_of_int start * pw (- dy) + 1 / 2;
          n = (if x < 0 then - \<lfloor>- x\<rfloor> else \<lfloor>x\<rfloor>)
      in if n < - (2 ^ 31) \<or> n \<ge> 2 ^ 31 then None else Some n)"

definition onMouseMove :: "(int \<Rightarrow> rat) \<Rightarrow> sz option \<Rightarrow> sz \<Rightarrow> pt \<Rightarrow> image_view \<Rightarrow> image_view option" where
  "onMouseMove pw im ws p v =
     (if isdragging v then
        let v1 = v\<lparr>dcur := p\<rparr> in
        if dragtype v1 = DT_ZOOMDRAG then
          (case drag_level pw (zstart v1) (snd (dcur v1) - snd (dorigin v1)) of None \<Rightarrow> None
           | Some t \<Rightarrow> Some (releaseBitmap (applyZoomDrag im ws t v1)))
        else Some (releaseBitmap v1)
      else Some v)"

definition onSize :: "image_view \<Rightarrow> image_view" where
  "onSize v = v\<lparr>vwnd := (-1, -1)\<rparr>"

section \<open>Keys and wheel\<close>

datatype key_action = KNavigate nav_cmd | KExit | KZoom int | KDefault

definition onKeyDown :: "bool \<Rightarrow> int \<Rightarrow> bool \<Rightarrow> bool \<Rightarrow> bool \<Rightarrow> key_action" where
  "onKeyDown has_doc k bshift bctrl balt =
     (if \<not> has_doc then KDefault
      else if (k = 0x25 \<or> k = 0x26 \<or> k = 0x21) \<and> \<not> bshift \<and> \<not> bctrl \<and> \<not> balt then KNavigate NAV_PREV
      else if (k = 0x27 \<or> k = 0x28 \<or> k = 0x22) \<and> \<not> bshift \<and> \<not> bctrl \<and> \<not> balt then KNavigate NAV_NEXT
      else if k = 0x24 then KNavigate NAV_FIRST
      else if k = 0x23 then KNavigate NAV_LAST
      else if k = 0x1B then KExit
      else if (k = 0xBB \<or> k = 0x6B) \<and> \<not> balt then KZoom 1
      else if (k = 0xBD \<or> k = 0x6D) \<and> \<not> balt then KZoom (-1)
      else KDefault)"

definition onMouseWheel :: "bool \<Rightarrow> int \<Rightarrow> nav_cmd option" where
  "onMouseWheel has_doc delta =
     (if has_doc then Some (if delta > 0 then NAV_PREV else NAV_NEXT) else None)"

section \<open>The view in operation\<close>

text \<open>
  The events that reach the view, with the image the document holds at that moment.  The
  document changes its image only in \<open>Opened\<close> and \<open>Closed\<close>.  The timer behind \<open>Frame\<close> is
  delivered after a pending paint, so there is a bitmap when it comes.
\<close>

datatype view_event = Opened sz int | Closed | Frame | Paint | Sized | Zoomed int bool
  | Mode int | LDown pt bool | LUp | RDown pt | RUp | Moved pt

inductive view_step :: "(int \<Rightarrow> rat) \<Rightarrow> view_event \<Rightarrow> sz option \<times> image_view \<Rightarrow>
    sz option \<times> image_view \<Rightarrow> bool" for pw :: "int \<Rightarrow> rat" where
  opened: "0 \<le> fst img \<Longrightarrow> 0 \<le> snd img \<Longrightarrow>
    view_step pw (Opened img cmdid) (im, v) (Some img, snd (onFileOpened c (Some img) cmdid v))"
| closed: "view_step pw Closed (im, v) (None, v)"
| frame: "vbitmap v \<noteq> None \<Longrightarrow> view_step pw Frame (im, v) (im, onFrameUpdate im v)"
| paint: "1 \<le> fst ws \<Longrightarrow> 1 \<le> snd ws \<Longrightarrow> view_step pw Paint (im, v) (im, OnPaint im ws v)"
| sized: "view_step pw Sized (im, v) (im, onSize v)"
| zoomed: "view_step pw (Zoomed d test) (im, v) (im, snd (snd (zoom c im d test v)))"
| mode: "view_step pw (Mode cmdid) (im, v) (im, snd (setZoomMode c im cmdid v))"
| ldown: "onLButtonDown ws p ctrl v = Some v' \<Longrightarrow> view_step pw (LDown p ctrl) (im, v) (im, v')"
| lup: "view_step pw LUp (im, v) (im, onLButtonUp v)"
| rdown: "zoom_drag_start ws p v = Some v' \<Longrightarrow> view_step pw (RDown p) (im, v) (im, v')"
| rup: "view_step pw RUp (im, v) (im, onRButtonUp v)"
| moved: "onMouseMove pw im ws p v = Some v' \<Longrightarrow> view_step pw (Moved p) (im, v) (im, v')"

inductive view_reachable :: "(int \<Rightarrow> rat) \<Rightarrow> sz option \<times> image_view \<Rightarrow> bool"
  for pw :: "int \<Rightarrow> rat" where
  start: "view_reachable pw (None, view_new)"
| step: "view_reachable pw s \<Longrightarrow> view_step pw e s s' \<Longrightarrow> view_reachable pw s'"

section \<open>Layout lemmas\<close>

definition axis_ok :: "int \<Rightarrow> int \<Rightarrow> int \<Rightarrow> int \<Rightarrow> bool" where
  "axis_ok w sc lo hi \<longleftrightarrow> 0 \<le> lo \<and> hi \<le> sc \<and> hi - lo = min w sc"

text \<open>The crop lies in the scaled image and is as large as view and image allow.\<close>

definition crop_ok :: "sz \<Rightarrow> sz \<Rightarrow> rect \<Rightarrow> bool" where
  "crop_ok ws sc c \<longleftrightarrow> axis_ok (fst ws) (fst sc) (r_left c) (r_right c) \<and>
     axis_ok (snd ws) (snd sc) (r_top c) (r_bottom c)"

lemma axis_crop_ok:
  assumes "0 \<le> w" and "axis_crop w sc = (lo, hi)"
  shows "axis_ok w sc lo hi"
proof (cases "w \<ge> sc")
  case True then show ?thesis using assms by (auto simp: axis_crop_def axis_ok_def)
next
  case False
  then have "(sc - w) sdiv 2 = (sc - w) div 2" by (simp add: sdiv_div)
  then have "lo = (sc - w) div 2" "hi = lo + w" using False assms(2) by (simp_all add: axis_crop_def Let_def)
  then show ?thesis using False assms(1) unfolding axis_ok_def by linarith
qed

lemma axis_pan_ok:
  assumes "axis_ok w sc lo hi" and "axis_pan off sc (lo, hi) = (o', lo', hi')"
  shows "axis_ok w sc lo' hi'"
  using assms by (auto simp: axis_pan_def axis_ok_def Let_def split: if_splits)

lemma round_div_le:
  assumes "0 \<le> a" "0 < c" and "a * b \<le> m * c"
  shows "round_div a b c \<le> m"
proof -
  let ?x = "2 * a * b + c" and ?d = "2 * c"
  have "?x < (m + 1) * ?d" using assms by (simp add: algebra_simps)
  moreover have "?x div ?d * ?d \<le> ?x"
    using assms(2) pos_mod_sign [of ?d ?x] div_mult_mod_eq [of ?x ?d] by linarith
  ultimately have "?x div ?d * ?d < (m + 1) * ?d" by linarith
  then have "?x div ?d < m + 1" using assms(2) by (simp add: mult_less_cancel_right)
  then show ?thesis by (simp add: round_div_def)
qed

text \<open>A fitted image is not larger than the view, on both axes, and one of them is full.\<close>

lemma fit_scale_in:
  assumes "1 \<le> fst ws" "1 \<le> snd ws" "0 \<le> fst img" "0 \<le> snd img"
    and "fst ws * snd img \<le> snd ws * fst img \<Longrightarrow> 0 < fst img" and "fit_scale ws img = (l, sc)"
  shows "1 \<le> fst sc \<and> fst sc \<le> fst ws \<and> 1 \<le> snd sc \<and> snd sc \<le> snd ws \<and>
    (fst sc = fst ws \<or> snd sc = snd ws)"
proof (cases "fst ws * snd img > snd ws * fst img")
  case True
  then have "sc = (max (round_div (snd ws) (fst img) (snd img)) 1, snd ws)"
    using assms(6) by (auto simp: fit_scale_def)
  moreover have "0 < snd img" using True assms(2-4) by (metis mult_nonneg_nonneg mult_zero_right not_less
    order_le_less order_trans zero_le_one)
  moreover have "round_div (snd ws) (fst img) (snd img) \<le> fst ws"
    using True assms \<open>0 < snd img\<close> by (intro round_div_le) (auto simp: mult.commute)
  ultimately show ?thesis using assms by auto
next
  case False
  then have "sc = (fst ws, max (round_div (fst ws) (snd img) (fst img)) 1)"
    using assms(6) by (auto simp: fit_scale_def)
  moreover have "0 < fst img" using False assms(5) by simp
  moreover have "round_div (fst ws) (snd img) (fst img) \<le> snd ws"
    using False assms by (intro round_div_le) (auto simp: mult.commute)
  ultimately show ?thesis using assms by auto
qed

lemma auto_fit_in:
  assumes "1 \<le> fst ws" "1 \<le> snd ws" "0 \<le> fst img" "0 \<le> snd img" and "auto_fit zt ws img = (l, sc)"
  shows "0 \<le> fst sc \<and> fst sc \<le> fst ws \<and> 0 \<le> snd sc \<and> snd sc \<le> snd ws"
proof -
  have pos: "0 < fst img" if "fst ws * snd img \<le> snd ws * fst img" "fst img \<noteq> 0 \<or> snd img > snd ws"
  proof (rule ccontr)
    assume "\<not> 0 < fst img"
    then have z: "fst img = 0" "snd img > snd ws" using that(2) assms(3) by auto
    then have "0 < fst ws * snd img" using assms(1,2) by (intro mult_pos_pos) auto
    then show False using that(1) z by simp
  qed
  consider "sc = (1, 1)" | "sc = img" "fst ws \<ge> fst img" "snd ws \<ge> snd img"
    | "fit_scale ws img = (l, sc)" "fst img \<noteq> 0 \<or> snd img > snd ws"
    using assms(1-5) by (auto simp: auto_fit_def split: zoom_type.splits if_splits)
  then show ?thesis
  proof cases
    case 3
    then show ?thesis using fit_scale_in [of ws img l sc] pos assms(1-4) by force
  qed (use assms in auto)
qed

definition scale_ok :: "sz \<Rightarrow> image_view \<Rightarrow> bool" where
  "scale_ok img v \<longleftrightarrow>
     (if zoomlevel v \<noteq> 0 then vscale v = zoom_scale (zoomlevel v) img
      else if natural_mode v then vscale v = img
      else vcrop v = mk_rect 0 0 (fst (vscale v)) (snd (vscale v)))"

definition relayout :: "sz \<Rightarrow> sz \<Rightarrow> image_view \<Rightarrow> image_view" where
  "relayout ws img v = (fixed_layout ws img (auto_layout ws img v))\<lparr>vwnd := ws\<rparr>"

lemma fixed_layout_ok:
  assumes "0 \<le> fst ws" "0 \<le> snd ws" and "zoomlevel v \<noteq> 0 \<or> natural_mode v"
  shows "crop_ok ws (vscale (fixed_layout ws img v)) (vcrop (fixed_layout ws img v)) \<and>
    vscale (fixed_layout ws img v) = (if zoomlevel v \<noteq> 0 then zoom_scale (zoomlevel v) img else vscale v)"
proof -
  define v1 where "v1 = (if zoomlevel v \<noteq> 0 then v\<lparr>vscale := zoom_scale (zoomlevel v) img\<rparr> else v)"
  obtain lx hx where cx: "axis_crop (fst ws) (fst (vscale v1)) = (lx, hx)" by fastforce
  obtain ly hy where cy: "axis_crop (snd ws) (snd (vscale v1)) = (ly, hy)" by fastforce
  obtain ox lx' hx' where px: "axis_pan (fst (pan_offset v1)) (fst (vscale v1)) (lx, hx) = (ox, lx', hx')"
    by (metis prod_cases3)
  obtain oy ly' hy' where py: "axis_pan (snd (pan_offset v1)) (snd (vscale v1)) (ly, hy) = (oy, ly', hy')"
    by (metis prod_cases3)
  note ok = axis_crop_ok [OF assms(1) cx] axis_crop_ok [OF assms(2) cy]
  note ok' = axis_pan_ok [OF ok(1) px] axis_pan_ok [OF ok(2) py]
  have sc: "vscale v1 = (if zoomlevel v \<noteq> 0 then zoom_scale (zoomlevel v) img else vscale v)"
    by (simp add: v1_def)
  have "fixed_layout ws img v =
      (if voffset v1 \<noteq> (0, 0) \<or> (isdragging v1 \<and> dorigin v1 \<noteq> dcur v1) then
        v1\<lparr>vcrop := mk_rect lx' ly' hx' hy',
           voffset := (if \<not> isdragging v1 then (ox, oy) else voffset v1)\<rparr>
      else v1\<lparr>vcrop := mk_rect lx ly hx hy\<rparr>)"
    using assms(3) by (simp add: fixed_layout_def Let_def v1_def [symmetric] cx cy px py del: split_paired_All)
  then have "crop_ok ws (vscale (fixed_layout ws img v)) (vcrop (fixed_layout ws img v)) \<and>
      vscale (fixed_layout ws img v) = vscale v1"
    using ok ok' by (auto simp: crop_ok_def mk_rect_def)
  then show ?thesis using sc by metis
qed

lemma layout_frame [simp]:
  "zoomlevel (fixed_layout ws img v) = zoomlevel v" "zoomtype (fixed_layout ws img v) = zoomtype v"
  "vbitmap (fixed_layout ws img v) = vbitmap v"
  "zoomlevel (auto_layout ws img v) = zoomlevel v" "zoomtype (auto_layout ws img v) = zoomtype v"
  "vbitmap (auto_layout ws img v) = vbitmap v"
  by (auto simp: fixed_layout_def auto_layout_def Let_def split: prod.splits)

lemma relayout_ok:
  assumes "1 \<le> fst ws" "1 \<le> snd ws" "0 \<le> fst img" "0 \<le> snd img"
  shows "crop_ok ws (vscale (relayout ws img v)) (vcrop (relayout ws img v)) \<and>
    scale_ok img (relayout ws img v) \<and> vwnd (relayout ws img v) = ws \<and>
    zoomlevel (relayout ws img v) = zoomlevel v \<and> zoomtype (relayout ws img v) = zoomtype v \<and>
    vbitmap (relayout ws img v) = vbitmap v"
proof (cases "zoomlevel v \<noteq> 0 \<or> natural_mode v")
  case True
  let ?a = "auto_layout ws img v"
  have *: "zoomlevel ?a \<noteq> 0 \<or> natural_mode ?a" using True by (simp add: natural_mode_def)
  have "zoomlevel v = 0 \<Longrightarrow> vscale ?a = img"
    using True by (simp add: auto_layout_def)
  then show ?thesis
    using fixed_layout_ok [OF _ _ *, of ws img] assms True
    by (auto simp: relayout_def scale_ok_def natural_mode_def)
next
  case False
  obtain l sc where f: "auto_fit (zoomtype v) ws img = (l, sc)" by (rule prod.exhaust)
  have "0 \<le> fst sc \<and> fst sc \<le> fst ws \<and> 0 \<le> snd sc \<and> snd sc \<le> snd ws"
    using auto_fit_in [OF assms f] .
  then show ?thesis
    using False f by (auto simp: relayout_def fixed_layout_def auto_layout_def natural_mode_def
        scale_ok_def crop_ok_def axis_ok_def mk_rect_def)
qed

lemma OnPaint_eq:
  "OnPaint (Some img) ws v =
     (if vbitmap v = None \<or> ws \<noteq> vwnd v then
        let v1 = relayout ws img v in
        v1\<lparr>vbitmap := (if vbitmap v = None \<or> vcrop v1 \<noteq> vcrop v then Some (vscale v1, vcrop v1)
                       else vbitmap v)\<rparr>
      else v)"
  by (auto simp: OnPaint_def relayout_def Let_def releaseBitmap_def)

definition bitmap_ok :: "sz \<Rightarrow> image_view \<Rightarrow> bool" where
  "bitmap_ok img v \<longleftrightarrow> vbitmap v = Some (vscale v, vcrop v) \<and> scale_ok img v \<and>
     (1 \<le> fst (vwnd v) \<and> 1 \<le> snd (vwnd v) \<longrightarrow> crop_ok (vwnd v) (vscale v) (vcrop v))"

definition view_inv :: "sz option \<times> image_view \<Rightarrow> bool" where
  "view_inv s = (case s of (None, v) \<Rightarrow> True
     | (Some img, v) \<Rightarrow> 0 \<le> fst img \<and> 0 \<le> snd img \<and> (vbitmap v \<noteq> None \<longrightarrow> bitmap_ok img v))"

lemma paint_ok:
  assumes ws: "1 \<le> fst ws" "1 \<le> snd ws" and inv: "view_inv (Some img, v)"
  shows "bitmap_ok img (OnPaint (Some img) ws v) \<and> vwnd (OnPaint (Some img) ws v) = ws"
proof -
  have img: "0 \<le> fst img" "0 \<le> snd img" and b: "vbitmap v \<noteq> None \<Longrightarrow> bitmap_ok img v"
    using inv by (simp_all add: view_inv_def)
  define v1 where "v1 = relayout ws img v"
  have r: "crop_ok ws (vscale v1) (vcrop v1)" "scale_ok img v1" "vwnd v1 = ws"
      "zoomlevel v1 = zoomlevel v" "zoomtype v1 = zoomtype v"
    using relayout_ok [OF ws img, of v] by (simp_all add: v1_def)
  have same: "vscale v1 = vscale v" if "vbitmap v \<noteq> None" "vcrop v1 = vcrop v"
    using b [OF that(1)] r that(2)
    by (auto simp: bitmap_ok_def scale_ok_def natural_mode_def mk_rect_def prod_eq_iff split: if_splits)
  have sc: "scale_ok img (v1\<lparr>vbitmap := x\<rparr>)" for x
    using r(2) by (simp add: scale_ok_def natural_mode_def)
  show ?thesis
  proof (cases "vbitmap v = None \<or> ws \<noteq> vwnd v")
    case False
    then show ?thesis using b by (auto simp: OnPaint_eq)
  next
    case True
    then show ?thesis
      using r same sc b by (auto simp: OnPaint_eq v1_def [symmetric] Let_def bitmap_ok_def)
  qed
qed

lemma onFileOpened_bitmap: "vbitmap (snd (onFileOpened c (Some img) cmdid v)) = None"
  by (simp add: onFileOpened_def fitWindow2Image_def releaseBitmap_def Let_def)

lemma applyZoomDrag_bitmap [simp]: "vbitmap (applyZoomDrag im ws t v) = vbitmap v"
  by (simp add: applyZoomDrag_def adjustViewOffsetForZoom_def Let_def split: option.split)

lemma zoom_bitmap:
  "snd (snd (zoom c im d test v)) = v \<or> vbitmap (snd (snd (zoom c im d test v))) = None"
  by (auto simp: zoom_def fitWindow2Image_def releaseBitmap_def Let_def split: option.split)

lemma setZoomMode_bitmap:
  "snd (setZoomMode c (Some img) cmdid v) = v \<or> vbitmap (snd (setZoomMode c (Some img) cmdid v)) = None"
  by (auto simp: setZoomMode_def fitWindow2Image_def releaseBitmap_def Let_def)

definition layout_of :: "image_view \<Rightarrow> (sz \<times> rect) option \<times> sz \<times> rect \<times> sz \<times> int \<times> zoom_type" where
  "layout_of v = (vbitmap v, vscale v, vcrop v, vwnd v, zoomlevel v, zoomtype v)"

lemma bitmap_ok_cong: "layout_of v' = layout_of v \<Longrightarrow> bitmap_ok img v' = bitmap_ok img v"
  by (simp add: layout_of_def bitmap_ok_def scale_ok_def natural_mode_def)

lemma layout_of_drag [simp]:
  "layout_of (v\<lparr>isdragging := a, dorigin := b, dcur := c, dragtype := d\<rparr>) = layout_of v"
  "layout_of (v\<lparr>isdragging := a, dorigin := b, dcur := c, dragtype := d, zorigin := e, zstart := f,
    click := g\<rparr>) = layout_of v"
  by (simp_all add: layout_of_def)

lemma zoom_drag_start_frame:
  "zoom_drag_start ws p v = Some v' \<Longrightarrow> layout_of v' = layout_of v"
  by (simp add: zoom_drag_start_def Let_def layout_of_def split: if_splits) (erule subst, simp)

lemma onLButtonDown_frame:
  "onLButtonDown ws p ctrl v = Some v' \<Longrightarrow> layout_of v' = layout_of v"
  by (cases ctrl) (auto simp: onLButtonDown_def dest: zoom_drag_start_frame)

lemma view_inv_frame:
  assumes "layout_of v' = layout_of v" and "view_inv (im, v)"
  shows "view_inv (im, v')"
  using assms bitmap_ok_cong [OF assms(1)] by (cases im) (auto simp: view_inv_def layout_of_def)

lemma onMouseMove_bitmap:
  "onMouseMove pw im ws p v = Some v' \<Longrightarrow> v' = v \<or> vbitmap v' = None"
  by (auto simp: onMouseMove_def releaseBitmap_def Let_def split: if_splits option.splits)

lemma onLButtonUp_bitmap: "onLButtonUp v = v \<or> vbitmap (onLButtonUp v) = None"
  by (simp add: onLButtonUp_def releaseBitmap_def Let_def)

lemma onRButtonUp_bitmap: "onRButtonUp v = v \<or> vbitmap (onRButtonUp v) = None"
  by (simp add: onRButtonUp_def releaseBitmap_def)

lemma view_inv_None [simp]: "view_inv (None, v)" by (simp add: view_inv_def)

lemma view_inv_keep:
  assumes "view_inv (im, v)" and "v' = v \<or> vbitmap v' = None"
  shows "view_inv (im, v')"
  using assms by (cases im) (auto simp: view_inv_def)

lemma view_inv_step:
  assumes "view_step pw e s s'" and "view_inv s"
  shows "view_inv s'"
  using assms
proof (induction rule: view_step.induct)
  case (opened img cmdid im v c)
  then show ?case using onFileOpened_bitmap [of c img cmdid v] by (simp add: view_inv_def)
next
  case (frame v im)
  then show ?case by (cases im) (auto simp: view_inv_def onFrameUpdate_def releaseBitmap_def Let_def
    bitmap_ok_def scale_ok_def natural_mode_def)
next
  case (paint ws im v)
  then show ?case
  proof (cases im)
    case (Some img)
    then show ?thesis using paint_ok [of ws img v] paint by (simp add: view_inv_def)
  qed simp
next
  case (sized im v)
  then show ?case by (cases im) (auto simp: view_inv_def onSize_def bitmap_ok_def scale_ok_def natural_mode_def)
next
  case (zoomed d test im v c)
  then show ?case using zoom_bitmap view_inv_keep by blast
next
  case (mode cmdid im v c)
  then show ?case
  proof (cases im)
    case (Some img)
    then show ?thesis using setZoomMode_bitmap [of c img cmdid v] mode view_inv_keep by blast
  qed simp
next
  case (ldown ws p ctrl v v' im)
  then show ?case using onLButtonDown_frame view_inv_frame by blast
next
  case (rdown ws p v v' im)
  then show ?case using zoom_drag_start_frame view_inv_frame by blast
next
  case (lup im v)
  then show ?case using onLButtonUp_bitmap view_inv_keep by blast
next
  case (rup im v)
  then show ?case using onRButtonUp_bitmap view_inv_keep by blast
next
  case (moved im ws p v v')
  then show ?case using onMouseMove_bitmap view_inv_keep by blast
qed simp

lemma view_inv_reachable: "view_reachable pw s \<Longrightarrow> view_inv s"
  by (induction rule: view_reachable.induct) (auto intro: view_inv_step)

text \<open>
  C24. Whatever happened before, after a paint the bitmap on the screen is the one rendered for
  the view's own scale and crop, the scale is the one its zoom mode and level ask for, and the
  crop lies inside the scaled image and is as large as view and image allow.
\<close>

theorem paint_shows_layout:
  assumes "view_reachable pw (Some img, v)" and "1 \<le> fst ws" "1 \<le> snd ws"
    and "v' = OnPaint (Some img) ws v"
  shows "vbitmap v' = Some (vscale v', vcrop v') \<and> scale_ok img v' \<and>
    crop_ok ws (vscale v') (vcrop v')"
  using paint_ok [OF assms(2,3) view_inv_reachable [OF assms(1)]] assms(2-4)
  by (auto simp: bitmap_ok_def)

definition demo_ctx :: ui_ctx where
  "demo_ctx = \<lparr>dpi = 96, tbar = None, mainw = \<lparr>placement_ok = True, show_normal = True,
     normal_pos = mk_rect 100 100 900 700, work_area = Some (mk_rect 0 0 1920 1040),
     view_size = (780, 500)\<rparr>\<rparr>"

definition demo_view :: image_view where
  "demo_view = snd (onFileOpened demo_ctx (Some (1600, 1200)) 0 view_new)"

lemma demo_reachable: "view_reachable pw (Some (1600, 1200), demo_view)"
proof -
  have "view_step pw (Opened (1600, 1200) 0) (None, view_new) (Some (1600, 1200), demo_view)"
    unfolding demo_view_def by (rule view_step.opened) simp_all
  then show ?thesis by (rule view_reachable.step [OF view_reachable.start])
qed

theorem paint_shows_layout_witness:
  "vscale (OnPaint (Some (1600, 1200)) (800, 500) demo_view) = (667, 500) \<and>
   crop_ok (800, 500) (vscale (OnPaint (Some (1600, 1200)) (800, 500) demo_view))
     (vcrop (OnPaint (Some (1600, 1200)) (800, 500) demo_view))"
proof
  show "vscale (OnPaint (Some (1600, 1200)) (800, 500) demo_view) = (667, 500)" by code_simp
  show "crop_ok (800, 500) (vscale (OnPaint (Some (1600, 1200)) (800, 500) demo_view))
     (vcrop (OnPaint (Some (1600, 1200)) (800, 500) demo_view))"
    using paint_shows_layout [OF demo_reachable, of "(800, 500)"] by simp
qed

section \<open>Zoom levels\<close>

lemma zoom_levels_sorted: "sorted zoom_levels" "distinct zoom_levels"
  by (simp_all add: zoom_levels_def)

lemma next_level_least:
  assumes "cur < last zoom_levels"
  shows "next_level cur \<in> set zoom_levels \<and> cur < next_level cur \<and>
    (\<forall>l \<in> set zoom_levels. l \<le> cur \<or> next_level cur \<le> l)"
  using assms by (auto simp: next_level_def zoom_levels_def)

lemma prev_level_greatest:
  assumes "hd zoom_levels < cur"
  shows "prev_level cur \<in> set zoom_levels \<and> prev_level cur < cur \<and>
    (\<forall>l \<in> set zoom_levels. cur \<le> l \<or> l \<le> prev_level cur)"
  using assms by (auto simp: prev_level_def zoom_levels_def)

text \<open>
  A zoom command that succeeds moves to the neighbouring preset level: the least one above
  the current level, or the greatest one below it, so no level is skipped.
\<close>

theorem zoom_neighbour:
  assumes "zoom c (Some img) d False v = (0, p, v')" and "d \<noteq> 0"
  shows "zoomlevel v' \<in> set zoom_levels \<and>
    (if d > 0 then cur_level v < zoomlevel v' \<and>
        list_all (\<lambda>l. l \<le> cur_level v \<or> zoomlevel v' \<le> l) zoom_levels
     else zoomlevel v' < cur_level v \<and>
        list_all (\<lambda>l. cur_level v \<le> l \<or> l \<le> zoomlevel v') zoom_levels)"
proof -
  obtain l where l: "zoom_to d img (cur_level v) = Some l"
    using assms by (cases "zoom_to d img (cur_level v)") (simp_all add: zoom_def)
  have "zoomlevel (snd (snd (zoom c (Some img) d False v))) = l"
    using assms(2) l by (simp add: zoom_def Let_def fitWindow2Image_def releaseBitmap_def)
  then have z: "zoomlevel v' = l" using assms(1) by simp
  show ?thesis
  proof (cases "d > 0")
    case True
    then have "cur_level v < last zoom_levels" "l = next_level (cur_level v)"
      using l by (auto simp: zoom_to_def split: if_splits)
    then show ?thesis using next_level_least [of "cur_level v"] True z by (simp add: list_all_iff)
  next
    case False
    then have "hd zoom_levels < cur_level v" "l = prev_level (cur_level v)"
      using l by (auto simp: zoom_to_def split: if_splits)
    then show ?thesis using prev_level_greatest [of "cur_level v"] False z by (simp add: list_all_iff)
  qed
qed

definition painted_demo :: image_view where
  "painted_demo = OnPaint (Some (1600, 1200)) (800, 500) demo_view"

theorem zoom_neighbour_witness:
  "cur_level painted_demo = 41 \<and>
   zoomlevel (snd (snd (zoom demo_ctx (Some (1600, 1200)) 1 False painted_demo))) \<in> set zoom_levels"
proof
  show "cur_level painted_demo = 41" by code_simp
  have "fst (zoom demo_ctx (Some (1600, 1200)) 1 False painted_demo) = 0" by code_simp
  then show "zoomlevel (snd (snd (zoom demo_ctx (Some (1600, 1200)) 1 False painted_demo))) \<in> set zoom_levels"
    using zoom_neighbour [of demo_ctx "(1600, 1200)" 1 painted_demo] by (metis prod.collapse zero_neq_one)
qed

lemma zoom_result:
  assumes "zoom_to d img (cur_level v) = Some l" and "d \<noteq> 0"
  shows "fst (zoom c (Some img) d False v) = 0 \<and>
    cur_level (snd (snd (zoom c (Some img) d False v))) = (if l = 0 then fitlevel v else l) \<and>
    zoomlevel (snd (snd (zoom c (Some img) d False v))) = l"
  using assms by (simp add: zoom_def cur_level_def Let_def fitWindow2Image_def releaseBitmap_def)

lemma levels_up_down:
  assumes "l \<in> set zoom_levels" and "l \<noteq> 10000"
  shows "zoom_to 1 img l = Some (next_level l) \<and> prev_level (next_level l) = l \<and> 1 < next_level l"
proof -
  have "list_all (\<lambda>l. l = 10000 \<or> (l < last zoom_levels \<and> prev_level (next_level l) = l \<and> 1 < next_level l))
      zoom_levels"
    by code_simp
  then show ?thesis using assms by (auto simp: zoom_to_def list_all_iff)
qed

text \<open>
  Zooming in from a preset level and zooming out again returns to it, as long as the image
  has at least one pixel left at that level.
\<close>

theorem zoom_in_out:
  assumes "zoomlevel v \<in> set zoom_levels" "zoomlevel v \<noteq> 10000"
    and "1 \<le> max (fst img) (snd img) * zoomlevel v sdiv 100"
    and "v' = snd (snd (zoom c (Some img) 1 False v))"
  shows "fst (zoom c (Some img) (-1) False v') = 0 \<and>
    zoomlevel (snd (snd (zoom c (Some img) (-1) False v'))) = zoomlevel v"
proof -
  have nz: "zoomlevel v \<noteq> 0" using assms(1) by (auto simp: zoom_levels_def)
  then have cur: "cur_level v = zoomlevel v" by (simp add: cur_level_def)
  note ud = levels_up_down [OF assms(1,2), of img]
  have v': "cur_level v' = next_level (zoomlevel v)"
    using zoom_result [of 1 img v _ c] ud cur assms(4) by auto
  have "zoom_to (-1) img (cur_level v') = Some (zoomlevel v)"
    using ud assms(3) v' by (auto simp: zoom_to_def zoom_levels_def)
  then show ?thesis using zoom_result [of "-1" img v'] by simp
qed

theorem zoom_in_out_witness:
  "zoomlevel (snd (snd (zoom demo_ctx (Some (1600, 1200)) (-1) False
     (snd (snd (zoom demo_ctx (Some (1600, 1200)) 1 False (painted_demo\<lparr>zoomlevel := 150\<rparr>))))))) = 150"
proof -
  let ?v = "painted_demo\<lparr>zoomlevel := 150\<rparr>"
  have "zoomlevel ?v \<in> set zoom_levels" "zoomlevel ?v \<noteq> 10000"
    "1 \<le> max (fst (1600, 1200)) (snd (1600, 1200)) * zoomlevel ?v sdiv 100"
    by (simp_all add: zoom_levels_def)
  from zoom_in_out [OF this refl] show ?thesis by simp
qed

section \<open>Placement of the main window\<close>

lemma fit_size_le: "fst (fit_size s zt l img mw mh) \<le> mw \<and> snd (fit_size s zt l img mw mh) \<le> mh"
  by (simp add: fit_size_def split: prod.split)

text \<open>
  When \<open>fitWindow2Image\<close> moves the main window, the window changes by exactly what the view
  needs, never exceeds the work area, lies inside the work area on every axis that changed, and
  the cursor keeps its place relative to the frame.
\<close>

theorem fit_inside_work_area:
  assumes "fit_placement s zt l img mp m = Some (r, q)" and "work_area m = Some wa"
    and "im = fit_size s zt l img (rectW wa - (rectW (normal_pos m) - fst (view_size m)))
           (rectH wa - (rectH (normal_pos m) - snd (view_size m)))"
  shows "rectW r - rectW (normal_pos m) = fst im - fst (view_size m) \<and> rectW r \<le> rectW wa \<and>
    rectH r - rectH (normal_pos m) = snd im - snd (view_size m) \<and> rectH r \<le> rectH wa \<and>
    (rectW r = rectW (normal_pos m) \<or> r_left wa \<le> r_left r \<and> r_right r \<le> r_right wa) \<and>
    (rectH r = rectH (normal_pos m) \<or> r_top wa \<le> r_top r \<and> r_bottom r \<le> r_bottom wa) \<and>
    q = (if fst mp \<ge> 0 then Some (fst mp + r_left r, snd mp + r_top r) else None)"
proof -
  let ?np = "normal_pos m"
  define dw where "dw = fst im - fst (view_size m)"
  define dh where "dh = snd im - snd (view_size m)"
  obtain x0 x1 where x: "shift_axis (r_left wa) (r_right wa) (r_left ?np, r_right ?np) dw = (x0, x1)"
    by (rule prod.exhaust)
  obtain y0 y1 where y: "shift_axis (r_top wa) (r_bottom wa) (r_top ?np, r_bottom ?np) dh = (y0, y1)"
    by (rule prod.exhaust)
  note X = shift_axis_inside [OF x] and Y = shift_axis_inside [OF y]
  have room: "rectW ?np + dw \<le> rectW wa" "rectH ?np + dh \<le> rectH wa"
    using fit_size_le [of s zt l img "rectW wa - (rectW ?np - fst (view_size m))"
        "rectH wa - (rectH ?np - snd (view_size m))", folded assms(3)]
    by (simp_all add: dw_def dh_def)
  have "fit_placement s zt l img mp m = (if dw \<noteq> 0 \<or> dh \<noteq> 0 then
      let a = (if dw \<noteq> 0 then (x0, x1) else (r_left ?np, r_right ?np));
          b = (if dh \<noteq> 0 then (y0, y1) else (r_top ?np, r_bottom ?np)) in
      Some (mk_rect (fst a) (fst b) (snd a) (snd b),
        if fst mp \<ge> 0 then Some (fst mp + fst a, snd mp + fst b) else None) else None)"
    using assms(1,2) x y
    by (simp add: fit_placement_def Let_def assms(3) dw_def dh_def split: if_splits)
  then show ?thesis using assms(1) X Y room dw_def dh_def
    by (auto simp: mk_rect_def rectW_def rectH_def split: if_splits)
qed

theorem fit_inside_work_area_witness:
  "rectW (fst (the (fit_placement 96 ZT_W2I_ZOOMOUT 0 (3000, 1000) (-1, -1) (mainw demo_ctx)))) \<le> 1920"
proof -
  let ?f = "fit_placement 96 ZT_W2I_ZOOMOUT 0 (3000, 1000) (-1, -1) (mainw demo_ctx)"
  have "?f \<noteq> None" by code_simp
  then have "?f = Some (fst (the ?f), snd (the ?f))" by simp
  from fit_inside_work_area [OF this, of "mk_rect 0 0 1920 1040"] show ?thesis
    by (simp add: demo_ctx_def rectW_def mk_rect_def)
qed

section \<open>Dragging and drawing lemmas\<close>








definition drag_of :: "image_view \<Rightarrow> bool \<times> drag_type \<times> pt \<times> pt \<times> int \<times> sz" where
  "drag_of v = (isdragging v, dragtype v, dorigin v, zorigin v, zstart v, click v)"

lemma drag_of_layout [simp]:
  "drag_of (fixed_layout ws img v) = drag_of v" "drag_of (auto_layout ws img v) = drag_of v"
  "drag_of (v\<lparr>vwnd := a\<rparr>) = drag_of v" "drag_of (v\<lparr>vbitmap := b\<rparr>) = drag_of v"
  "drag_of (v\<lparr>dcur := c\<rparr>) = drag_of v"
  by (auto simp: drag_of_def fixed_layout_def auto_layout_def Let_def split: prod.splits)

lemma drag_of_zoom [simp]: "drag_of (applyZoomDrag im ws t v) = drag_of v"
  by (auto simp: drag_of_def applyZoomDrag_def adjustViewOffsetForZoom_def Let_def split: option.splits)







text \<open>
  The drawn bitmap and the background margins tile the client area: every pixel of it is
  painted by exactly one of them.
\<close>

theorem paint_tiles_client:
  assumes "rectW crop \<le> fst ws" "rectH crop \<le> snd ws" "0 \<le> rectW crop" "0 \<le> rectH crop"
    and "pt_in_rect (mk_rect 0 0 (fst ws) (snd ws)) p"
  shows "length (filter (\<lambda>r. pt_in_rect r p) (draw_rect ws crop # margins ws crop)) = 1"
proof -
  define l where "l = (if fst ws > rectW crop then (fst ws - rectW crop) sdiv 2 else 0)"
  define t where "t = (if snd ws > rectH crop then (snd ws - rectH crop) sdiv 2 else 0)"
  have l: "0 \<le> l" "l + rectW crop \<le> fst ws"
    using assms(1,3) by (auto simp: l_def sdiv_div)
  have t: "0 \<le> t" "t + rectH crop \<le> snd ws"
    using assms(2,4) by (auto simp: t_def sdiv_div)
  have d: "draw_rect ws crop = mk_rect l t (l + rectW crop) (t + rectH crop)"
    using assms(1,2) by (auto simp: draw_rect_def Let_def l_def t_def mk_rect_def)
  show ?thesis
    using l t assms(3-5) by (auto simp: margins_def Let_def d pt_in_rect_def mk_rect_def)
qed

theorem paint_tiles_client_witness:
  "length (filter (\<lambda>r. pt_in_rect r (799, 10))
     (draw_rect (800, 500) (mk_rect 0 0 601 500) # margins (800, 500) (mk_rect 0 0 601 500))) = 1"
  by (rule paint_tiles_client) (simp_all add: rectW_def rectH_def mk_rect_def pt_in_rect_def)

section \<open>Where the arithmetic fails\<close>

text \<open>With no image opened yet the level is zero, and the right button divides by it.\<close>

lemma right_click_no_image: "zoom_drag_start ws p view_new = None"
  by (simp add: zoom_drag_start_def view_new_def cur_level_def Let_def)

text \<open>The same after painting an image more than a hundred times as high as the view.\<close>

lemma right_click_tall_image:
  "zoom_drag_start (800, 600) p (OnPaint (Some (10, 65000)) (800, 600) view_new) = None"
proof -
  have "cur_level (OnPaint (Some (10, 65000)) (800, 600) view_new) = 0" by code_simp
  then show ?thesis by (simp add: zoom_drag_start_def Let_def cur_level_def)
qed

text \<open>
  A drag of 1700 pixels from 100 percent leaves the range of \<open>int\<close> before the level is clamped;
  \<open>std::pow\<close> is taken to be exact here.
\<close>

lemma drag_level_None:
  assumes "(2 :: rat) ^ 31 \<le> rat_of_int start * pw (- dy)"
  shows "drag_level pw start dy = None"
proof -
  let ?x = "rat_of_int start * pw (- dy) + 1 / 2"
  have "0 \<le> ?x" using assms by simp
  moreover have "2 ^ 31 \<le> \<lfloor>?x\<rfloor>" using assms by (simp add: le_floor_iff)
  ultimately show ?thesis by (simp add: drag_level_def Let_def)
qed

lemma drag_overflows: "drag_level (\<lambda>k. (101 / 100) ^ nat k) 100 (-1700) = None"
proof (rule drag_level_None)
  have big: "(2 :: rat) ^ 31 \<le> 100 * q" if "(27 / 10) ^ 17 \<le> q" for q :: rat
  proof -
    have "(2 :: rat) ^ 31 \<le> 100 * (27 / 10) ^ 17" by (simp add: power_divide)
    then show ?thesis using that by linarith
  qed
  have "(27 / 10 :: rat) \<le> (101 / 100) ^ 100" by (simp add: power_divide)
  then have "(27 / 10 :: rat) ^ 17 \<le> ((101 / 100) ^ 100) ^ 17" by (rule power_mono) simp
  also have "((101 / 100 :: rat) ^ 100) ^ 17 = (101 / 100) ^ (100 * 17)" by (rule power_mult [symmetric])
  also have "(100 * 17 :: nat) = nat (- (- 1700))" by simp
  finally have le: "(27 / 10 :: rat) ^ 17 \<le> (101 / 100) ^ nat (- (- 1700))" .
  show "(2 :: rat) ^ 31 \<le> rat_of_int 100 * (101 / 100) ^ nat (- (- 1700))"
    unfolding of_int_numeral by (rule big [OF le])
qed

text \<open>
  An image that is smaller than the view is drawn in its middle, but the margin is not taken off
  the click: the middle of a picture of 100 x 100 pixels counts as its point (400, 250).
\<close>

lemma small_image_click_off:
  "map_option click (zoom_drag_start (800, 500) (400, 250)
     (OnPaint (Some (100, 100)) (800, 500) (view_new\<lparr>zoomlevel := 100\<rparr>))) = Some (400, 250) \<and>
   draw_rect (800, 500) (mk_rect 0 0 100 100) = mk_rect 350 200 450 300"
  by code_simp


end
