(* ===== verification/Settings.thy ===== *)
theory Settings
  imports Paths
begin

text \<open>
  obZrv/config.cpp, obZrv/RecentFileRegistry.cpp and the address history of obZrv/ConnectDlg.cpp:
  settings in two INI files, the list of recent files kept in them, and the list of remote
  addresses.  The INI files themselves are the Windows profile functions, a parameter: what a
  key holds, a write, and \<open>GetPrivateProfileInt\<close>.
\<close>

section \<open>Numbers as text\<close>

text \<open>\<open>%d\<close> and \<open>wcstol\<close> in base ten; \<open>LONG\<close> has 32 bits and the result saturates.\<close>

fun dec_digits :: "nat \<Rightarrow> wstr" where
  "dec_digits n = (if n < 10 then [0x30 + of_nat n]
                   else dec_digits (n div 10) @ [0x30 + of_nat (n mod 10)])"

declare dec_digits.simps [simp del]

definition wdec :: "int \<Rightarrow> wstr" where
  "wdec i = (if i < 0 then 0x2D # dec_digits (nat (- i)) else dec_digits (nat i))"

definition wdigit :: "u16 \<Rightarrow> bool" where
  "wdigit c \<longleftrightarrow> 0x30 \<le> c \<and> c \<le> 0x39"

definition wblank :: "u16 \<Rightarrow> bool" where
  "wblank c \<longleftrightarrow> c = 0x20 \<or> (0x09 \<le> c \<and> c \<le> 0x0D)"

definition digits_val :: "wstr \<Rightarrow> int" where
  "digits_val s = foldl (\<lambda>a c. a * 10 + (uint c - 48)) 0 (takeWhile wdigit s)"

definition wcstol :: "wstr \<Rightarrow> int" where
  "wcstol s =
     (let t = dropWhile wblank s;
          v = (case t of [] \<Rightarrow> 0
               | c # r \<Rightarrow> if c = 0x2D then - digits_val r else if c = 0x2B then digits_val r
                          else digits_val t)
      in clamp v (- (2 ^ 31)) (2 ^ 31 - 1))"

section \<open>Config\<close>

record config =
  exeIni :: wstr
  userIni :: wstr
  writeIni :: wstr

record 'f ini_api =
  ini_get :: "wstr \<Rightarrow> wstr \<Rightarrow> wstr \<Rightarrow> 'f \<Rightarrow> wstr option"
  ini_put :: "wstr \<Rightarrow> wstr \<Rightarrow> wstr \<Rightarrow> wstr \<Rightarrow> 'f \<Rightarrow> 'f"
  ini_int :: "wstr \<Rightarrow> wstr \<Rightarrow> wstr \<Rightarrow> int \<Rightarrow> 'f \<Rightarrow> int"

text \<open>\<open>ExeDir\<close> of the module's file name; \<open>UserDir\<close> of the roaming folder and the fallback.\<close>

definition ExeDir :: "wstr \<Rightarrow> wstr" where
  "ExeDir buf = (case strrchr buf wbslash of None \<Rightarrow> buf | Some (a, b) \<Rightarrow> a @ [wbslash])"

definition UserDir :: "wstr option \<Rightarrow> wstr \<Rightarrow> wstr" where
  "UserDir folder temp =
     (case folder of None \<Rightarrow> temp | Some p \<Rightarrow> p) @ [wbslash] @ wlit ''obZrv'' @ [wbslash]"

text \<open>\<open>CanWrite\<close>: the result, and whether the file is removed again.\<close>

definition CanWrite :: "bool \<Rightarrow> int \<Rightarrow> int \<Rightarrow> bool \<times> bool" where
  "CanWrite opened last_error fsize = (opened, opened \<and> last_error = 0 \<and> fsize = 0)"

definition config_new :: "wstr \<Rightarrow> wstr \<Rightarrow> (wstr \<Rightarrow> bool) \<Rightarrow> config" where
  "config_new exedir userdir canwrite =
     (let exe = exedir @ wlit ''obZrv.ini''; user = userdir @ wlit ''obZrv.ini''
      in \<lparr>exeIni = exe, userIni = user, writeIni = (if canwrite exe then exe else user)\<rparr>)"

definition sentinel :: wstr where
  "sentinel = [1, 2] @ wlit ''NOTFOUND''"

text \<open>\<open>GetPrivateProfileStringW\<close> into a buffer of \<open>n\<close> characters, with the sentinel as default.\<close>

definition profile_str :: "'f ini_api \<Rightarrow> wstr \<Rightarrow> wstr \<Rightarrow> nat \<Rightarrow> wstr \<Rightarrow> 'f \<Rightarrow> wstr" where
  "profile_str api sect key n file st =
     take (n - 1) (case ini_get api file sect key st of None \<Rightarrow> sentinel | Some v \<Rightarrow> v)"

definition found :: "wstr \<Rightarrow> bool" where
  "found buf \<longleftrightarrow> length buf > 0 \<and> buf \<noteq> sentinel"

definition getInt :: "'f ini_api \<Rightarrow> config \<Rightarrow> wstr \<Rightarrow> wstr \<Rightarrow> int \<Rightarrow> 'f \<Rightarrow> int" where
  "getInt api c sect key def st =
     (let buf = profile_str api sect key 64 (exeIni c) st in
      if exeIni c \<noteq> [] \<and> found buf then wcstol buf
      else ini_int api (userIni c) sect key def st)"

definition getStr :: "'f ini_api \<Rightarrow> config \<Rightarrow> wstr \<Rightarrow> wstr \<Rightarrow> wstr \<Rightarrow> 'f \<Rightarrow> wstr" where
  "getStr api c sect key def st =
     (let buf = profile_str api sect key 512 (exeIni c) st;
          ubuf = profile_str api sect key 512 (userIni c) st in
      if exeIni c \<noteq> [] \<and> found buf then buf
      else if found ubuf then ubuf else def)"

definition setStr :: "'f ini_api \<Rightarrow> config \<Rightarrow> wstr \<Rightarrow> wstr \<Rightarrow> wstr \<Rightarrow> 'f \<Rightarrow> 'f" where
  "setStr api c sect key v st = ini_put api (writeIni c) sect key v st"

definition setInt :: "'f ini_api \<Rightarrow> config \<Rightarrow> wstr \<Rightarrow> wstr \<Rightarrow> int \<Rightarrow> 'f \<Rightarrow> 'f" where
  "setInt api c sect key v st = ini_put api (writeIni c) sect key (wdec v) st"

section \<open>Recent files\<close>

datatype rf_type = RF_LOCAL | RF_REMOTE

record rf_entry =
  etype :: rf_type
  epath :: string
  ehost :: string
  eport :: u16

definition MAX_ITEMS :: nat where "MAX_ITEMS = 20"
definition MAX_DISPLAY_CHARS :: nat where "MAX_DISPLAY_CHARS = 50"

definition RECENT_SECTION :: wstr where "RECENT_SECTION = wlit ''RecentFiles''"

definition slot_key :: "string \<Rightarrow> nat \<Rightarrow> wstr" where
  "slot_key name i = wlit name @ wdec (int i)"

definition load_slot :: "'f ini_api \<Rightarrow> config \<Rightarrow> (wstr \<Rightarrow> string option) \<Rightarrow> 'f \<Rightarrow> nat \<Rightarrow> rf_entry option" where
  "load_slot api c w2u st i =
     (let typ = getStr api c RECENT_SECTION (slot_key ''Type'' i) [] st in
      if typ = [] then None
      else
      let path = getStr api c RECENT_SECTION (slot_key ''Path'' i) [] st in
      if path = [] then None
      else
      let t = (if typ = wlit ''remote'' then RF_REMOTE else RF_LOCAL);
          p = wstr_to_utf8 w2u path in
      if t = RF_REMOTE then
        let host = wstr_to_utf8 w2u (getStr api c RECENT_SECTION (slot_key ''Host'' i) [] st);
            port = word_of_int (getInt api c RECENT_SECTION (slot_key ''Port'' i) 0 st)
        in if host = [] \<or> port = 0 then None
           else Some \<lparr>etype = t, epath = p, ehost = host, eport = port\<rparr>
      else Some \<lparr>etype = t, epath = p, ehost = [], eport = 0\<rparr>)"

definition rf_Load :: "'f ini_api \<Rightarrow> config \<Rightarrow> (wstr \<Rightarrow> string option) \<Rightarrow> 'f \<Rightarrow> rf_entry list" where
  "rf_Load api c w2u st = List.map_filter (load_slot api c w2u st) [0..<MAX_ITEMS]"

definition save_slot :: "'f ini_api \<Rightarrow> config \<Rightarrow> (string \<Rightarrow> wstr option) \<Rightarrow> rf_entry list \<Rightarrow> nat \<Rightarrow>
    'f \<Rightarrow> 'f" where
  "save_slot api c u2w es i st =
     (let e = (if i < length es then Some (es ! i) else None);
          st1 = setStr api c RECENT_SECTION (slot_key ''Type'' i)
                  (case e of None \<Rightarrow> [] | Some x \<Rightarrow>
                     if etype x = RF_REMOTE then wlit ''remote'' else wlit ''local'') st;
          st2 = setStr api c RECENT_SECTION (slot_key ''Path'' i)
                  (case e of None \<Rightarrow> [] | Some x \<Rightarrow> utf8_to_wstr u2w (epath x)) st1;
          st3 = setStr api c RECENT_SECTION (slot_key ''Host'' i)
                  (case e of None \<Rightarrow> [] | Some x \<Rightarrow> utf8_to_wstr u2w (ehost x)) st2
      in setInt api c RECENT_SECTION (slot_key ''Port'' i)
           (case e of None \<Rightarrow> 0 | Some x \<Rightarrow> uint (eport x)) st3)"

definition rf_Save :: "'f ini_api \<Rightarrow> config \<Rightarrow> (string \<Rightarrow> wstr option) \<Rightarrow> rf_entry list \<Rightarrow> 'f \<Rightarrow> 'f" where
  "rf_Save api c u2w es st = fold (save_slot api c u2w es) [0..<MAX_ITEMS] st"

text \<open>\<open>Add\<close>: the entries, then the saved state.\<close>

definition add_entry :: "rf_entry \<Rightarrow> rf_entry list \<Rightarrow> rf_entry list" where
  "add_entry e es =
     (let es1 = e # filter (\<lambda>x. \<not> (etype x = etype e \<and> epath x = epath e \<and> ehost x = ehost e \<and>
                                  eport x = eport e)) es
      in if length es1 > MAX_ITEMS then take MAX_ITEMS es1 else es1)"

definition rf_Add :: "'f ini_api \<Rightarrow> config \<Rightarrow> (string \<Rightarrow> wstr option) \<Rightarrow> rf_entry \<Rightarrow>
    rf_entry list \<times> 'f \<Rightarrow> rf_entry list \<times> 'f" where
  "rf_Add api c u2w e s =
     (case s of (es, st) \<Rightarrow>
      if epath e = [] then (es, st)
      else (add_entry e es, rf_Save api c u2w (add_entry e es) st))"

definition local_entry :: "string \<Rightarrow> rf_entry" where
  "local_entry path = \<lparr>etype = RF_LOCAL, epath = path, ehost = [], eport = 0\<rparr>"

definition remote_entry :: "string \<Rightarrow> u16 \<Rightarrow> string \<Rightarrow> rf_entry" where
  "remote_entry host port path = \<lparr>etype = RF_REMOTE, epath = path, ehost = host, eport = port\<rparr>"

definition AddLocal where "AddLocal api c u2w path = rf_Add api c u2w (local_entry path)"
definition AddRemote where
  "AddRemote api c u2w host port path = rf_Add api c u2w (remote_entry host port path)"

text \<open>
  \<open>FormatEntry\<close>: \<open>None\<close> when the prefix fills the buffer of 320 characters, which
  \<open>_snwprintf\<close> then leaves without a terminator.
\<close>

definition FormatEntry :: "(string \<Rightarrow> wstr option) \<Rightarrow> rf_entry \<Rightarrow> wstr option" where
  "FormatEntry u2w e =
     (let path = utf8_to_wstr u2w (epath e) in
      if etype e = RF_LOCAL then Some (LocalDisplayPath u2w (epath e))
      else
      let prefix = wlit ''remote:'' @ utf8_to_wstr u2w (ehost e) @ wlit '':'' @ wdec (uint (eport e))
      in if length prefix < 320 then Some (prefix @ path) else None)"

definition ClipMiddle :: "wstr \<Rightarrow> wstr" where
  "ClipMiddle text =
     (if length text \<le> MAX_DISPLAY_CHARS then text
      else
      let ellipsis = wlit ''...'';
          keep = MAX_DISPLAY_CHARS - length ellipsis;
          l = keep div 2; r = keep - l
      in take l text @ ellipsis @ drop (length text - r) text)"

definition DisplayText :: "(string \<Rightarrow> wstr option) \<Rightarrow> rf_entry list \<Rightarrow> int \<Rightarrow> wstr option" where
  "DisplayText u2w es i =
     (if i < 0 \<or> i \<ge> int (length es) then Some []
      else map_option ClipMiddle (FormatEntry u2w (es ! nat i)))"

section \<open>Address history\<close>

definition HISTORY :: wstr where "HISTORY = wlit ''RemoteHistory''"

definition LoadHistory :: "'f ini_api \<Rightarrow> config \<Rightarrow> 'f \<Rightarrow> wstr list" where
  "LoadHistory api c st =
     filter (\<lambda>v. v \<noteq> []) (map (\<lambda>i. getStr api c HISTORY (slot_key ''Host'' i) [] st) [0..<5])"

definition history_add :: "wstr \<Rightarrow> wstr list \<Rightarrow> wstr list" where
  "history_add entry hist =
     (let h = entry # filter (\<lambda>x. x \<noteq> entry) hist in if length h > 5 then take 5 h else h)"

definition SaveHistory :: "'f ini_api \<Rightarrow> config \<Rightarrow> wstr \<Rightarrow> 'f \<Rightarrow> 'f" where
  "SaveHistory api c entry st =
     (let hist = history_add entry (LoadHistory api c st) in
      fold (\<lambda>i. setStr api c HISTORY (slot_key ''Host'' i) (if i < length hist then hist ! i else []))
        [0..<5] st)"

section \<open>Numbers survive the text\<close>

lemma digit_char:
  assumes "d < 10"
  shows "wdigit (0x30 + of_nat d)" and "uint (0x30 + of_nat d :: u16) = 48 + int d"
proof -
  have "unat (0x30 + of_nat d :: u16) = 48 + d"
    using assms by (simp add: unat_word_ariths unat_of_nat take_bit_eq_mod)
  then show u: "uint (0x30 + of_nat d :: u16) = 48 + int d"
    by (metis of_nat_add of_nat_numeral uint_nat)
  show "wdigit (0x30 + of_nat d)"
    using u assms by (simp add: wdigit_def word_le_def)
qed

lemma dec_digits_all: "list_all wdigit (dec_digits n)"
proof (induction n rule: dec_digits.induct)
  case (1 n)
  then show ?case
    using digit_char(1) [of n] digit_char(1) [of "n mod 10"] by (subst dec_digits.simps) auto
qed

lemma dec_digits_val:
  "foldl (\<lambda>a c. a * 10 + (uint c - 48)) 0 (dec_digits n) = int n"
proof (induction n rule: dec_digits.induct)
  case (1 n)
  show ?case
  proof (cases "n < 10")
    case True
    then show ?thesis using digit_char(2) [of n] by (subst dec_digits.simps) simp
  next
    case False
    have "int (n div 10) * 10 + int (n mod 10) = int n" by presburger
    then show ?thesis
      using 1 False digit_char(2) [of "n mod 10"] by (subst dec_digits.simps) simp
  qed
qed

lemma digits_val_dec: "digits_val (dec_digits n) = int n"
proof -
  have "takeWhile wdigit (dec_digits n) = dec_digits n"
    using dec_digits_all by (simp add: takeWhile_eq_all_conv list_all_iff)
  then show ?thesis unfolding digits_val_def by (simp only: dec_digits_val)
qed

lemma dec_digits_hd: "\<exists>c r. dec_digits n = c # r \<and> wdigit c"
  using dec_digits_all [of n] by (cases "dec_digits n") (subst (asm) dec_digits.simps, auto split: if_splits)

lemma digit_not:
  assumes "wdigit c"
  shows "\<not> wblank c" "c \<noteq> 0x2D" "c \<noteq> 0x2B" "c \<noteq> 1"
  using assms by (auto simp: wdigit_def wblank_def word_le_def)

lemma wcstol_dec:
  assumes "- (2 ^ 31) \<le> i" "i < 2 ^ 31"
  shows "wcstol (wdec i) = i"
proof (cases "i < 0")
  case True
  have "\<not> wblank 0x2D" by (simp add: wblank_def word_le_def)
  then show ?thesis
    using True assms by (simp add: wcstol_def wdec_def digits_val_dec clamp_def)
next
  case False
  obtain c r where d: "dec_digits (nat i) = c # r" "wdigit c" using dec_digits_hd by blast
  have "wdec i = c # r" using False d by (simp add: wdec_def)
  moreover have "digits_val (c # r) = i" using digits_val_dec [of "nat i"] d False by simp
  ultimately show ?thesis
    using digit_not [OF d(2)] assms by (simp add: wcstol_def clamp_def)
qed

lemma dec_digits_length: "n < 10 ^ k \<Longrightarrow> 0 < k \<Longrightarrow> length (dec_digits n) \<le> k"
proof (induction n arbitrary: k rule: dec_digits.induct)
  case (1 n)
  show ?case
  proof (cases "n < 10")
    case True
    then show ?thesis using 1(3) by (subst dec_digits.simps) simp
  next
    case False
    then have "k \<noteq> 1" using 1(2) by auto
    then obtain j where k: "k = Suc j" "0 < j" using 1(3) by (cases k) auto
    then have "n div 10 < 10 ^ j" using 1(2) by (simp add: less_mult_imp_div_less mult.commute)
    then show ?thesis using 1(1) [OF False _ k(2)] False k(1) by (subst dec_digits.simps) simp
  qed
qed

section \<open>Config lemmas\<close>

text \<open>
  What the profile functions promise: a written value that \<open>ok\<close> admits is read back, and a
  write leaves every other key alone; names are compared without case.
\<close>

definition low :: "wstr \<Rightarrow> wstr" where "low s = map towlower s"

definition ini_laws :: "'f ini_api \<Rightarrow> (wstr \<Rightarrow> bool) \<Rightarrow> bool" where
  "ini_laws api ok \<longleftrightarrow>
     (\<forall>f s k v st. ok v \<longrightarrow> ini_get api f s k (ini_put api f s k v st) = Some v) \<and>
     (\<forall>f s k v f' s' k' st. (low f', low s', low k') \<noteq> (low f, low s, low k) \<longrightarrow>
        ini_get api f' s' k' (ini_put api f s k v st) = ini_get api f' s' k' st)"

text \<open>An instance, with the file system as a map.\<close>

definition map_ini :: "(wstr \<times> wstr \<times> wstr \<Rightarrow> wstr option) ini_api" where
  "map_ini = \<lparr>ini_get = (\<lambda>f s k st. st (low f, low s, low k)),
     ini_put = (\<lambda>f s k v st. st((low f, low s, low k) := Some v)),
     ini_int = (\<lambda>f s k d st. case st (low f, low s, low k) of None \<Rightarrow> d | Some v \<Rightarrow> wcstol v)\<rparr>"

lemma map_ini_laws: "ini_laws map_ini (\<lambda>v. True)"
  by (auto simp: ini_laws_def map_ini_def)

lemma ini_get_put: "ini_laws api ok \<Longrightarrow> ok v \<Longrightarrow> ini_get api f s k (ini_put api f s k v st) = Some v"
  by (simp add: ini_laws_def)

lemma ini_get_other:
  "ini_laws api ok \<Longrightarrow> (low f', low s', low k') \<noteq> (low f, low s, low k) \<Longrightarrow>
    ini_get api f' s' k' (ini_put api f s k v st) = ini_get api f' s' k' st"
  by (simp add: ini_laws_def)

lemma sentinel_length: "length sentinel = 10" by (simp add: sentinel_def wlit_def)

lemma profile_str_Some:
  "ini_get api f s k st = Some v \<Longrightarrow> length v < n \<Longrightarrow> profile_str api s k n f st = v"
  by (simp add: profile_str_def)

lemma profile_str_None:
  "ini_get api f s k st = None \<Longrightarrow> 10 < n \<Longrightarrow> profile_str api s k n f st = sentinel"
  by (simp add: profile_str_def sentinel_length)

lemma not_found_sentinel [simp]: "\<not> found sentinel" "\<not> found []"
  by (simp_all add: found_def)

lemma wdec_found:
  assumes "- (2 ^ 31) \<le> i" "i < 2 ^ 31"
  shows "found (wdec i)" "length (wdec i) < 64"
proof -
  have "hd (wdec i) \<noteq> 1 \<and> wdec i \<noteq> []"
  proof (cases "i < 0")
    case True then show ?thesis by (simp add: wdec_def)
  next
    case False
    obtain c r where "dec_digits (nat i) = c # r" "wdigit c" using dec_digits_hd by blast
    then show ?thesis using digit_not [of c] False by (simp add: wdec_def)
  qed
  then show "found (wdec i)" by (auto simp: found_def sentinel_def)
  have "length (dec_digits n) \<le> 10" if "n < 10 ^ 10" for n using dec_digits_length [OF that] by simp
  then have "length (dec_digits (nat (- i))) \<le> 10" "length (dec_digits (nat i)) \<le> 10" using assms by simp_all
  then show "length (wdec i) < 64" by (simp add: wdec_def)
qed

lemma getStr_exe:
  assumes "exeIni c \<noteq> []" "ini_get api (exeIni c) s k st = Some v" "found v" "length v < 512"
  shows "getStr api c s k d st = v"
  using assms by (simp add: getStr_def profile_str_Some)

lemma getStr_default:
  assumes "exeIni c = [] \<or> ini_get api (exeIni c) s k st \<in> {None, Some []}"
    and "ini_get api (userIni c) s k st \<in> {None, Some []}"
  shows "getStr api c s k d st = d"
  using assms by (auto simp: getStr_def profile_str_None profile_str_Some)

text \<open>
  A number stored in the settings is read back unchanged, when the INI file beside the
  program is the one written; when the user's file is written instead, it is read back if the
  file beside the program does not hold the key.
\<close>

theorem setInt_getInt:
  assumes laws: "ini_laws api ok" "ok (wdec v)" and v: "- (2 ^ 31) \<le> v" "v < 2 ^ 31"
    and wfile: "exeIni c \<noteq> []" "writeIni c = exeIni c \<or>
      (writeIni c = userIni c \<and> low (exeIni c) \<noteq> low (userIni c) \<and>
       ini_get api (exeIni c) s k st = None \<and>
       ini_int api (userIni c) s k d (setInt api c s k v st) =
         wcstol (the (ini_get api (userIni c) s k (setInt api c s k v st))))"
  shows "getInt api c s k d (setInt api c s k v st) = v"
proof -
  note put = ini_get_put [OF laws, of "writeIni c" s k st]
  show ?thesis
  proof (cases "writeIni c = exeIni c")
    case True
    then have "profile_str api s k 64 (exeIni c) (setInt api c s k v st) = wdec v"
      using put wdec_found(2) [OF v] by (simp add: setInt_def profile_str_Some)
    then show ?thesis
      using wfile(1) wdec_found(1) [OF v] wcstol_dec [OF v] by (simp add: getInt_def)
  next
    case False
    then have u: "writeIni c = userIni c" "low (exeIni c) \<noteq> low (userIni c)"
      "ini_get api (exeIni c) s k st = None"
      "ini_int api (userIni c) s k d (setInt api c s k v st) =
         wcstol (the (ini_get api (userIni c) s k (setInt api c s k v st)))"
      using wfile(2) by auto
    have "ini_get api (exeIni c) s k (setInt api c s k v st) = None"
      using ini_get_other [OF laws(1), of "exeIni c" s k "writeIni c" s k] u by (simp add: setInt_def)
    then have "profile_str api s k 64 (exeIni c) (setInt api c s k v st) = sentinel"
      by (rule profile_str_None) simp
    then show ?thesis using u put wcstol_dec [OF v] by (simp add: getInt_def setInt_def)
  qed
qed

definition ex_config :: config where
  "ex_config = config_new (wlit ''C:/app/'') (wlit ''U:/'') (\<lambda>_. True)"

theorem setInt_getInt_witness:
  "getInt map_ini ex_config [] [] 0 (setInt map_ini ex_config [] [] (-17) (\<lambda>_. None)) = -17"
  by (rule setInt_getInt [OF map_ini_laws])
    (simp_all add: ex_config_def config_new_def Let_def wlit_def)

text \<open>
  A key the file beside the program holds hides what is written to the user's file, for good.
\<close>

lemma exe_value_shadows:
  assumes "ini_laws api ok" "exeIni c \<noteq> []" "writeIni c = userIni c"
    "low (exeIni c) \<noteq> low (userIni c)"
    and "ini_get api (exeIni c) s k st = Some old" "found old" "length old < 512"
  shows "getStr api c s k d (setStr api c s k v st) = old"
proof (rule getStr_exe [OF assms(2) _ assms(6,7)])
  show "ini_get api (exeIni c) s k (setStr api c s k v st) = Some old"
    using ini_get_other [OF assms(1), of "exeIni c" s k "writeIni c" s k] assms(3-5)
    by (simp add: setStr_def)
qed

text \<open>
  Clearing a key (writing the empty string) does not clear it while the user's file still has
  an old value: an empty value counts as absent.
\<close>

lemma cleared_value_returns:
  assumes "ini_laws api ok" "ok []" "writeIni c = exeIni c" "low (exeIni c) \<noteq> low (userIni c)"
    and "ini_get api (userIni c) s k st = Some old" "found old" "length old < 512"
  shows "getStr api c s k d (setStr api c s k [] st) = old"
proof -
  have e: "ini_get api (exeIni c) s k (setStr api c s k [] st) = Some []"
    using ini_get_put [OF assms(1,2)] assms(3) by (simp add: setStr_def)
  have u: "ini_get api (userIni c) s k (setStr api c s k [] st) = Some old"
    using ini_get_other [OF assms(1), of "userIni c" s k "writeIni c" s k] assms(3-5)
    by (auto simp: setStr_def)
  show ?thesis
    using profile_str_Some [OF e, of 512] profile_str_Some [OF u assms(7)] assms(6)
    by (simp add: getStr_def)
qed

section \<open>Recent file lemmas\<close>

lemma add_entry_eq: "add_entry e es = take MAX_ITEMS (e # filter (\<lambda>x. x \<noteq> e) es)"
proof -
  have "(\<lambda>x. \<not> (etype x = etype e \<and> epath x = epath e \<and> ehost x = ehost e \<and> eport x = eport e)) =
      (\<lambda>x. x \<noteq> e)"
    by (rule ext, cases e) (auto simp: rf_entry.splits intro: rf_entry.equality)
  then show ?thesis by (simp add: add_entry_def Let_def)
qed

lemma filter_neq_absent: "e \<notin> set xs \<Longrightarrow> filter (\<lambda>x. x \<noteq> e) xs = xs"
  by (induction xs) auto

lemma take_filter_neq:
  "distinct xs \<Longrightarrow> take n (filter (\<lambda>x. x \<noteq> e) (take (Suc n) xs)) = take n (filter (\<lambda>x. x \<noteq> e) xs)"
proof (induction n arbitrary: xs)
  case (Suc n)
  show ?case
  proof (cases xs)
    case (Cons a ys)
    show ?thesis
    proof (cases "a = e")
      case True
      then have n: "e \<notin> set ys" using Suc.prems Cons by simp
      then have "filter (\<lambda>x. x \<noteq> e) (take (Suc n) ys) = take (Suc n) ys"
        by (intro filter_neq_absent) (auto dest: in_set_takeD)
      then show ?thesis using True Cons n by (simp add: filter_neq_absent)
    next
      case False
      then show ?thesis using Suc Cons by simp
    qed
  qed simp
qed simp

lemma remdups_snoc: "remdups (xs @ [x]) = filter (\<lambda>y. y \<noteq> x) (remdups xs) @ [x]"
  by (induction xs) auto

lemma rev_filter_remdups: "rev (remdups (xs @ [x])) = x # filter (\<lambda>y. y \<noteq> x) (rev (remdups xs))"
  by (simp add: remdups_snoc rev_filter)

lemma fold_add_entry:
  "fold add_entry xs [] = take MAX_ITEMS (rev (remdups xs))"
proof (induction xs rule: rev_induct)
  case (snoc x xs)
  have "take 19 (filter (\<lambda>y. y \<noteq> x) (take 20 (rev (remdups xs)))) =
      take 19 (filter (\<lambda>y. y \<noteq> x) (rev (remdups xs)))"
    using take_filter_neq [of "rev (remdups xs)" 19 x] by simp
  then show ?case
    using snoc by (simp add: add_entry_eq rev_filter_remdups MAX_ITEMS_def)
qed simp

text \<open>
  C26. The list of recent files holds the last twenty distinct files, newest first: after any
  sequence of additions it is the additions without the earlier duplicates, reversed and cut
  to twenty.
\<close>

theorem recent_is_last_twenty:
  "fst (fold (rf_Add api c u2w) es ([], st)) =
     take MAX_ITEMS (rev (remdups (filter (\<lambda>e. epath e \<noteq> []) es)))"
proof -
  have "fst (fold (rf_Add api c u2w) es (acc, st)) = fold add_entry (filter (\<lambda>e. epath e \<noteq> []) es) acc"
    for acc
    by (induction es arbitrary: acc st) (simp_all add: rf_Add_def)
  then show ?thesis by (simp add: fold_add_entry)
qed

section \<open>Saving and loading\<close>

text \<open>The keys and values one slot writes.\<close>

definition slot_names :: "string list" where
  "slot_names = [''Type'', ''Path'', ''Host'', ''Port'']"

definition slot_values :: "(string \<Rightarrow> wstr option) \<Rightarrow> rf_entry list \<Rightarrow> nat \<Rightarrow> wstr list" where
  "slot_values u2w es i =
     (if i < length es then
        [if etype (es ! i) = RF_REMOTE then wlit ''remote'' else wlit ''local'',
         utf8_to_wstr u2w (epath (es ! i)), utf8_to_wstr u2w (ehost (es ! i)),
         wdec (uint (eport (es ! i)))]
      else [[], [], [], wdec 0])"

definition slot_kvs :: "(string \<Rightarrow> wstr option) \<Rightarrow> rf_entry list \<Rightarrow> nat \<Rightarrow> (wstr \<times> wstr) list" where
  "slot_kvs u2w es i = zip (map (\<lambda>n. slot_key n i) slot_names) (slot_values u2w es i)"

definition puts :: "'f ini_api \<Rightarrow> wstr \<Rightarrow> wstr \<Rightarrow> (wstr \<times> wstr) list \<Rightarrow> 'f \<Rightarrow> 'f" where
  "puts api f s kvs st = fold (\<lambda>kv. ini_put api f s (fst kv) (snd kv)) kvs st"

lemma puts_other:
  assumes "ini_laws api ok" "low f' \<noteq> low f \<or> low k \<notin> low ` fst ` set kvs"
  shows "ini_get api f' s k (puts api f s kvs st) = ini_get api f' s k st"
  using assms(2)
proof (induction kvs arbitrary: st)
  case (Cons kv kvs)
  then have "ini_get api f' s k (ini_put api f s (fst kv) (snd kv) st) = ini_get api f' s k st"
    using ini_get_other [OF assms(1), of f' s k f s "fst kv"] by auto
  then show ?case using Cons by (auto simp: puts_def)
qed (simp add: puts_def)

lemma puts_get:
  assumes "ini_laws api ok" "distinct (map (low \<circ> fst) kvs)" "(k, v) \<in> set kvs" "ok v"
  shows "ini_get api f s k (puts api f s kvs st) = Some v"
  using assms(2,3)
proof (induction kvs arbitrary: st)
  case (Cons kv kvs)
  show ?case
  proof (cases "kv = (k, v)")
    case True
    then have "low k \<notin> low ` fst ` set kvs" using Cons.prems(1) by (auto simp: image_iff)
    then show ?thesis
      using puts_other [OF assms(1), of f f k kvs s] ini_get_put [OF assms(1,4)] True
      by (simp add: puts_def)
  next
    case False
    then show ?thesis using Cons by (simp add: puts_def)
  qed
qed simp

lemma save_slot_puts:
  "save_slot api c u2w es i st = puts api (writeIni c) RECENT_SECTION (slot_kvs u2w es i) st"
  by (simp add: save_slot_def slot_kvs_def slot_values_def slot_names_def puts_def setStr_def
      setInt_def Let_def)

definition all_kvs :: "(string \<Rightarrow> wstr option) \<Rightarrow> rf_entry list \<Rightarrow> (wstr \<times> wstr) list" where
  "all_kvs u2w es = concat (map (slot_kvs u2w es) [0..<MAX_ITEMS])"

lemma puts_append: "puts api f s (a @ b) st = puts api f s b (puts api f s a st)"
  by (simp add: puts_def)

lemma rf_Save_puts:
  "rf_Save api c u2w es st = puts api (writeIni c) RECENT_SECTION (all_kvs u2w es) st"
proof -
  have "fold (save_slot api c u2w es) is st =
      puts api (writeIni c) RECENT_SECTION (concat (map (slot_kvs u2w es) is)) st" for "is"
    by (induction "is" arbitrary: st) (simp_all add: save_slot_puts puts_append, simp add: puts_def)
  then show ?thesis by (simp add: rf_Save_def all_kvs_def)
qed

lemma slot_keys_distinct:
  "distinct (map low (concat (map (\<lambda>i. map (\<lambda>n. slot_key n i) slot_names) [0..<MAX_ITEMS])))"
  by code_simp

lemma low_slot_kvs:
  "map (\<lambda>kv. low (fst kv)) (slot_kvs u2w es i) = map (\<lambda>n. low (slot_key n i)) slot_names"
  by (simp add: slot_kvs_def slot_values_def slot_names_def)

lemma all_kvs_distinct: "distinct (map (low \<circ> fst) (all_kvs u2w es))"
proof -
  have "map (low \<circ> fst) (all_kvs u2w es) =
      map low (concat (map (\<lambda>i. map (\<lambda>n. slot_key n i) slot_names) [0..<MAX_ITEMS]))"
    by (simp add: all_kvs_def map_concat comp_def low_slot_kvs)
  then show ?thesis using slot_keys_distinct by simp
qed

lemma slot_read:
  assumes "ini_laws api ok" "list_all (\<lambda>kv. ok (snd kv)) (all_kvs u2w es)"
    and "writeIni c = exeIni c" "(slot_key n i, v) \<in> set (slot_kvs u2w es i)" "i < MAX_ITEMS"
  shows "ini_get api (exeIni c) RECENT_SECTION (slot_key n i) (rf_Save api c u2w es st) = Some v"
proof -
  have "(slot_key n i, v) \<in> set (all_kvs u2w es)" using assms(4,5) by (auto simp: all_kvs_def)
  then show ?thesis
    using puts_get [OF assms(1) all_kvs_distinct, of "slot_key n i" v u2w es] assms(2,3)
    by (auto simp: rf_Save_puts list_all_iff)
qed

text \<open>An entry whose texts survive the conversions and fit the buffer.\<close>

definition text_ok :: "(string \<Rightarrow> wstr option) \<Rightarrow> (wstr \<Rightarrow> string option) \<Rightarrow> string \<Rightarrow> bool" where
  "text_ok u2w w2u t \<longleftrightarrow> found (utf8_to_wstr u2w t) \<and> length (utf8_to_wstr u2w t) < 512 \<and>
     wstr_to_utf8 w2u (utf8_to_wstr u2w t) = t \<and> t \<noteq> []"

definition entry_ok :: "(string \<Rightarrow> wstr option) \<Rightarrow> (wstr \<Rightarrow> string option) \<Rightarrow> rf_entry \<Rightarrow> bool" where
  "entry_ok u2w w2u e \<longleftrightarrow> text_ok u2w w2u (epath e) \<and>
     (if etype e = RF_REMOTE then text_ok u2w w2u (ehost e) \<and> eport e \<noteq> 0
      else ehost e = [] \<and> eport e = 0)"

lemma type_names:
  "wlit ''remote'' \<noteq> []" "wlit ''local'' \<noteq> []" "wlit ''local'' \<noteq> wlit ''remote''"
  "found (wlit ''remote'')" "found (wlit ''local'')"
  "length (wlit ''remote'') < 512" "length (wlit ''local'') < 512"
  by (simp_all add: found_def sentinel_def wlit_def)

lemma load_saved_slot:
  assumes laws: "ini_laws api ok" "list_all (\<lambda>kv. ok (snd kv)) (all_kvs u2w es)"
    and c: "exeIni c \<noteq> []" "writeIni c = exeIni c" and i: "i < length es" "i < MAX_ITEMS"
    and e: "entry_ok u2w w2u (es ! i)"
  shows "load_slot api c w2u (rf_Save api c u2w es st) i = Some (es ! i)"
proof -
  let ?st = "rf_Save api c u2w es st"
  have kvs: "slot_kvs u2w es i = zip (map (\<lambda>n. slot_key n i) slot_names)
      [if etype (es ! i) = RF_REMOTE then wlit ''remote'' else wlit ''local'',
       utf8_to_wstr u2w (epath (es ! i)), utf8_to_wstr u2w (ehost (es ! i)),
       wdec (uint (eport (es ! i)))]"
    using i(1) by (simp add: slot_kvs_def slot_values_def)
  note get = slot_read [OF laws c(2) _ i(2), of _ _ st]
  have str: "getStr api c RECENT_SECTION (slot_key n i) [] ?st = v"
    if "(slot_key n i, v) \<in> set (slot_kvs u2w es i)" "found v" "length v < 512" for n v
    using getStr_exe [OF c(1) get [OF that(1)] that(2,3)] .
  have ty: "getStr api c RECENT_SECTION (slot_key ''Type'' i) [] ?st =
      (if etype (es ! i) = RF_REMOTE then wlit ''remote'' else wlit ''local'')"
    by (rule str) (simp_all add: kvs slot_names_def type_names)
  have path: "getStr api c RECENT_SECTION (slot_key ''Path'' i) [] ?st = utf8_to_wstr u2w (epath (es ! i))"
    using e by (intro str) (auto simp: kvs slot_names_def entry_ok_def text_ok_def)
  have path_ne: "utf8_to_wstr u2w (epath (es ! i)) \<noteq> []"
    "wstr_to_utf8 w2u (utf8_to_wstr u2w (epath (es ! i))) = epath (es ! i)"
    using e by (auto simp: entry_ok_def text_ok_def found_def)
  show ?thesis
  proof (cases "etype (es ! i) = RF_REMOTE")
    case True
    have host: "getStr api c RECENT_SECTION (slot_key ''Host'' i) [] ?st = utf8_to_wstr u2w (ehost (es ! i))"
      using e True by (intro str) (auto simp: kvs slot_names_def entry_ok_def text_ok_def)
    have p: "- (2 ^ 31) \<le> uint (eport (es ! i))" "uint (eport (es ! i)) < 2 ^ 31"
      using uint_bounded [of "eport (es ! i)"] order_trans [OF _ uint_ge_0 [of "eport (es ! i)"]]
      by simp_all
    have "profile_str api RECENT_SECTION (slot_key ''Port'' i) 64 (exeIni c) ?st = wdec (uint (eport (es ! i)))"
      using get [of "''Port''" "wdec (uint (eport (es ! i)))"] wdec_found(2) [OF p]
      by (intro profile_str_Some) (simp_all add: kvs slot_names_def)
    then have port: "getInt api c RECENT_SECTION (slot_key ''Port'' i) 0 ?st = uint (eport (es ! i))"
      using c(1) wdec_found(1) [OF p] wcstol_dec [OF p] by (simp add: getInt_def)
    show ?thesis
      using True e path_ne by (cases "es ! i")
        (auto simp: load_slot_def ty path host port type_names Let_def entry_ok_def text_ok_def)
  next
    case False
    then have "etype (es ! i) = RF_LOCAL" by (cases "etype (es ! i)") auto
    then show ?thesis
      using False e path_ne by (cases "es ! i")
        (auto simp: load_slot_def ty path type_names Let_def entry_ok_def)
  qed
qed

lemma load_empty_slot:
  assumes laws: "ini_laws api ok" "list_all (\<lambda>kv. ok (snd kv)) (all_kvs u2w es)"
    and c: "writeIni c = exeIni c" "low (exeIni c) \<noteq> low (userIni c)" and i: "length es \<le> i" "i < MAX_ITEMS"
    and u: "ini_get api (userIni c) RECENT_SECTION (slot_key ''Type'' i) st = None"
  shows "load_slot api c w2u (rf_Save api c u2w es st) i = None"
proof -
  have "(slot_key ''Type'' i, []) \<in> set (slot_kvs u2w es i)"
    using i(1) by (simp add: slot_kvs_def slot_values_def slot_names_def)
  then have "ini_get api (exeIni c) RECENT_SECTION (slot_key ''Type'' i) (rf_Save api c u2w es st) = Some []"
    by (rule slot_read [OF laws c(1) _ i(2)])
  moreover have "ini_get api (userIni c) RECENT_SECTION (slot_key ''Type'' i) (rf_Save api c u2w es st) = None"
    using puts_other [OF laws(1), of "userIni c" "exeIni c"] c u by (simp add: rf_Save_puts)
  ultimately show ?thesis by (simp add: load_slot_def getStr_default)
qed

lemma map_filter_prefix:
  assumes "length es \<le> m" "\<And>i. i < length es \<Longrightarrow> f i = Some (es ! i)"
    "\<And>i. length es \<le> i \<Longrightarrow> i < m \<Longrightarrow> f i = None"
  shows "List.map_filter f [0..<m] = es"
proof -
  have "[0..<m] = [0..<length es] @ [length es..<m]" using assms(1) upt_add_eq_append [of 0 "length es" "m - length es"] by simp
  moreover have "List.map_filter f [length es..<m] = []"
    using assms(3) by (auto simp: List.map_filter_def filter_empty_conv)
  moreover have "List.map_filter f [0..<length es] = es"
    using assms(2) by (intro nth_equalityI) (simp_all add: List.map_filter_def filter_True)
  ultimately show ?thesis by (simp add: List.map_filter_def)
qed

text \<open>
  Saving the recent files and loading them at the next start gives the same list, local and
  remote entries with their host and port alike, when the INI file beside the program is the
  one written, the user's file holds no list, and every text survives the conversions.
\<close>

theorem recent_roundtrip:
  assumes "ini_laws api ok" "list_all (\<lambda>kv. ok (snd kv)) (all_kvs u2w es)"
    and "exeIni c \<noteq> []" "writeIni c = exeIni c" "low (exeIni c) \<noteq> low (userIni c)"
    and "length es \<le> MAX_ITEMS" "list_all (entry_ok u2w w2u) es"
    and "list_all (\<lambda>i. ini_get api (userIni c) RECENT_SECTION (slot_key ''Type'' i) st = None)
           [0..<MAX_ITEMS]"
  shows "rf_Load api c w2u (rf_Save api c u2w es st) = es"
  unfolding rf_Load_def
proof (rule map_filter_prefix [OF assms(6)])
  fix i
  show "load_slot api c w2u (rf_Save api c u2w es st) i = Some (es ! i)" if "i < length es"
    using load_saved_slot [OF assms(1-4) that] that assms(6,7) by (simp add: list_all_length)
  show "load_slot api c w2u (rf_Save api c u2w es st) i = None" if "length es \<le> i" "i < MAX_ITEMS"
    using load_empty_slot [OF assms(1,2,4,5) that] that assms(8) by (simp add: list_all_iff)
qed

definition ascii_u2w :: "string \<Rightarrow> wstr option" where "ascii_u2w s = Some (wlit s)"
definition ascii_w2u :: "wstr \<Rightarrow> string option" where
  "ascii_w2u s = Some (map (\<lambda>c. char_of (unat c)) s)"

theorem recent_roundtrip_witness:
  "rf_Load map_ini ex_config ascii_w2u (rf_Save map_ini ex_config ascii_u2w
     [local_entry ''/c/a.png'', remote_entry ''host'' 7000 ''/b.png''] (\<lambda>_. None)) =
   [local_entry ''/c/a.png'', remote_entry ''host'' 7000 ''/b.png'']"
proof (rule recent_roundtrip [OF map_ini_laws])
  show "list_all (entry_ok ascii_u2w ascii_w2u)
      [local_entry ''/c/a.png'', remote_entry ''host'' 7000 ''/b.png'']"
    by code_simp
qed (simp_all add: ex_config_def config_new_def Let_def wlit_def low_def towlower_def MAX_ITEMS_def
    map_ini_def list_all_iff word_le_def)

section \<open>Menu texts and history\<close>

lemma clip_length: "length (ClipMiddle t) \<le> MAX_DISPLAY_CHARS"
  by (simp add: ClipMiddle_def MAX_DISPLAY_CHARS_def Let_def wlit_def)

lemma clip_ends:
  assumes "MAX_DISPLAY_CHARS < length t"
  shows "length (ClipMiddle t) = MAX_DISPLAY_CHARS \<and> take 23 (ClipMiddle t) = take 23 t \<and>
    drop 26 (ClipMiddle t) = drop (length t - 24) t"
  using assms by (simp add: ClipMiddle_def MAX_DISPLAY_CHARS_def Let_def wlit_def)

text \<open>Addresses as the dialog accepts them leave room in the prefix buffer.\<close>

lemma FormatEntry_Some:
  assumes "length (utf8_to_wstr u2w (ehost e)) < 300"
  shows "FormatEntry u2w e \<noteq> None"
proof -
  have "nat (uint (eport e)) < 10 ^ 5" using uint_bounded [of "eport e"] by (simp add: nat_less_iff del: nat_uint_eq)
  then have "length (wdec (uint (eport e))) \<le> 5"
    using dec_digits_length [of "nat (uint (eport e))" 5] uint_ge_0 [of "eport e"]
    by (simp add: wdec_def not_less [symmetric])
  then show ?thesis using assms by (simp add: FormatEntry_def Let_def wlit_def)
qed

lemma history_add_props:
  assumes "distinct hist"
  shows "distinct (history_add e hist) \<and> length (history_add e hist) \<le> 5 \<and> hd (history_add e hist) = e"
  using assms by (auto simp: history_add_def Let_def distinct_take dest: in_set_takeD)

text \<open>After connecting, the address is the first of the history.\<close>

lemma history_first:
  assumes "ini_laws api ok" "ok e" "list_all ok (history_add e (LoadHistory api c st))" "ok []"
    and "exeIni c \<noteq> []" "writeIni c = exeIni c" "found e" "length e < 512"
  shows "hd (LoadHistory api c (SaveHistory api c e st)) = e"
proof -
  define h where "h = history_add e (LoadHistory api c st)"
  define kvs where "kvs = map (\<lambda>i. (slot_key ''Host'' i, if i < length h then h ! i else [])) [0..<5]"
  have h0: "h ! 0 = e" "h \<noteq> []" by (simp_all add: h_def history_add_def Let_def)
  have "SaveHistory api c e st = puts api (exeIni c) HISTORY kvs st"
    by (simp add: SaveHistory_def h_def [symmetric] kvs_def puts_def setStr_def assms(6) upt_rec)
  moreover have "distinct (map (low \<circ> fst) kvs)"
  proof -
    have "distinct (map low (map (\<lambda>i. slot_key ''Host'' i) [0..<5]))" by code_simp
    then show ?thesis by (simp add: kvs_def comp_def)
  qed
  moreover have "(slot_key ''Host'' 0, e) \<in> set kvs" using h0 by (simp add: kvs_def upt_rec)
  ultimately have "ini_get api (exeIni c) HISTORY (slot_key ''Host'' 0) (SaveHistory api c e st) = Some e"
    using puts_get [OF assms(1) _ _ assms(2), of kvs] by simp
  then have "getStr api c HISTORY (slot_key ''Host'' 0) [] (SaveHistory api c e st) = e"
    by (rule getStr_exe [OF assms(5) _ assms(7,8)])
  moreover have "e \<noteq> []" using assms(7) by auto
  ultimately show ?thesis by (simp add: LoadHistory_def upt_rec)
qed

end
