(* ===== verification/Slide_Show.thy ===== *)
theory Slide_Show
  imports Settings Image_View
begin

text \<open>
  The slide show: the dialog of obZrv/SlideShowDlg.cpp with its list of files and its settings,
  and the player in obZrv/MainWnd.cpp.  The player calls the document through \<open>slide_ops\<close>, which
  the last section instantiates with \<open>Doc::open\<close>.  \<open>rand\<close> is a parameter: the numbers it returns
  after \<open>srand\<close> with the time at that moment.
\<close>

section \<open>Options\<close>

datatype source_mode = SOURCE_CURRENT_FOLDER | SOURCE_CUSTOM
datatype order_mode = ORDER_NORMAL | ORDER_REVERSE | ORDER_RANDOM
datatype repeat_mode = REPEAT_FOREVER | REPEAT_COUNT
datatype start_mode = START_CANCEL | START_FULLSCREEN | START_WINDOWED

record slide_item =
  item_display :: wstr
  item_path :: string

record slide_options =
  o_source :: source_mode
  o_order :: order_mode
  o_repeat :: repeat_mode
  o_start :: start_mode
  o_interval :: int
  o_rounds :: int
  o_zoom :: int
  o_items :: "slide_item list"

definition default_options :: slide_options where
  "default_options = \<lparr>o_source = SOURCE_CURRENT_FOLDER, o_order = ORDER_NORMAL,
     o_repeat = REPEAT_FOREVER, o_start = START_CANCEL, o_interval = 5, o_rounds = 1, o_zoom = 0,
     o_items = []\<rparr>"

section \<open>The dialog's list\<close>

definition AppendItem :: "(wstr \<Rightarrow> string option) \<Rightarrow> slide_item list \<Rightarrow> wstr \<Rightarrow> slide_item list" where
  "AppendItem wu items path = items @ [\<lparr>item_display = path, item_path = to_unipath wu path\<rparr>]"

text \<open>\<open>pathext\<close> is \<open>PathFindExtensionW\<close>: the extension with its dot, or nothing.\<close>

definition LowerExtNoDot :: "(wstr \<Rightarrow> string option) \<Rightarrow> (wstr \<Rightarrow> wstr) \<Rightarrow> wstr \<Rightarrow> string" where
  "LowerExtNoDot wu pathext path =
     (case pathext path of [] \<Rightarrow> []
      | c # r \<Rightarrow> wstr_to_utf8 wu (map towlower (if c = 0x2E then r else c # r)))"

definition IsSupportedImage :: "(wstr \<Rightarrow> string option) \<Rightarrow> (wstr \<Rightarrow> wstr) \<Rightarrow> string list \<Rightarrow> wstr \<Rightarrow> bool" where
  "IsSupportedImage wu pathext ts path =
     (let ext = LowerExtNoDot wu pathext path in ext \<noteq> [] \<and> isSupportedExt ts ext)"

fun filter_types :: "(string \<Rightarrow> wstr option) \<Rightarrow> bool \<Rightarrow> string list \<Rightarrow> wstr" where
  "filter_types uw first [] = []"
| "filter_types uw first (t # ts) =
     (if first then [] else wlit '';'') @ wlit ''*.'' @ utf8_to_wstr uw t @ filter_types uw False ts"

definition BuildImageFilter :: "(string \<Rightarrow> wstr option) \<Rightarrow> string list \<Rightarrow> wstr" where
  "BuildImageFilter uw ts =
     wlit ''Image Files'' @ [0] @ filter_types uw True ts @ [0] @ wlit ''All Files'' @ [0] @
     wlit ''*.*'' @ [0, 0]"

text \<open>The names in the buffer of \<open>GetOpenFileName\<close>, each ended by a NUL, the last by two.\<close>

function buffer_names :: "wstr \<Rightarrow> wstr list" where
  "buffer_names b =
     (if b = [] \<or> hd b = 0 then []
      else takeWhile (\<lambda>c. c \<noteq> 0) b # buffer_names (tl (dropWhile (\<lambda>c. c \<noteq> 0) b)))"
  by pat_completeness auto
termination
  by (relation "measure length")
    (auto simp: neq_Nil_conv intro: le_less_trans [OF diff_le_self] simp: length_dropWhile_le less_Suc_eq_le)

definition AddFiles :: "(wstr \<Rightarrow> string option) \<Rightarrow> wstr \<Rightarrow> slide_item list \<Rightarrow> slide_item list" where
  "AddFiles wu buffer items =
     (let first = takeWhile (\<lambda>c. c \<noteq> 0) buffer;
          names = buffer_names (tl (dropWhile (\<lambda>c. c \<noteq> 0) buffer)) in
      if names = [] then AppendItem wu items first
      else foldl (\<lambda>its n. AppendItem wu its (first @ [wbslash] @ n)) items names)"

definition AddFolder :: "(wstr \<Rightarrow> string option) \<Rightarrow> (wstr \<Rightarrow> wstr) \<Rightarrow> (wstr \<Rightarrow> wstr \<Rightarrow> int) \<Rightarrow> string list \<Rightarrow>
    wstr \<Rightarrow> (bool \<times> wstr) list \<Rightarrow> slide_item list \<Rightarrow> slide_item list" where
  "AddFolder wu pathext le ts folder entries items =
     (let paths = filter (IsSupportedImage wu pathext ts)
                    (map (\<lambda>e. folder @ [wbslash] @ snd e) (filter (\<lambda>e. \<not> fst e) entries))
      in foldl (AppendItem wu) items (natural_sort le paths))"

text \<open>\<open>MoveSelection\<close>: the loop that splits the list, then the move; \<open>None\<close> when nothing moves.\<close>

fun split_sel :: "nat \<Rightarrow> nat list \<Rightarrow> 'a list \<Rightarrow> 'a list \<times> 'a list" where
  "split_sel i sel [] = ([], [])"
| "split_sel i sel (x # xs) =
     (if sel \<noteq> [] \<and> hd sel = i
      then (case split_sel (Suc i) (tl sel) xs of (b, r) \<Rightarrow> (x # b, r))
      else (case split_sel (Suc i) sel xs of (b, r) \<Rightarrow> (b, x # r)))"

definition move_selection :: "bool \<Rightarrow> nat list \<Rightarrow> 'a list \<Rightarrow> ('a list \<times> nat \<times> nat) option" where
  "move_selection down sel0 items =
     (let sel = sort sel0 in
      if sel = [] then None
      else if (\<not> down \<and> hd sel = 0) \<or> (down \<and> int (last sel) = int (length items) - 1) then None
      else (case split_sel 0 sel items of (block, rest) \<Rightarrow>
        let pos = nat (clamp (if down then int (hd sel) + 1 else int (hd sel) - 1) 0 (int (length rest)))
        in Some (insert_at pos block rest, pos, length block)))"

section \<open>The dialog's settings\<close>

definition CFG_SECTION :: wstr where "CFG_SECTION = wlit ''SlideShow''"

definition zoom_ids :: "int list" where
  "zoom_ids = map (\<lambda>i. ID_ZOOMMODE_W2I_ZOOMOUT + i) [0, 1, 2, 3, 4]"

definition SelectedZoom :: "int \<Rightarrow> int" where
  "SelectedZoom idx = (if idx < 0 \<or> idx \<ge> int (length zoom_ids) then ID_ZOOMMODE_W2I_ZOOMOUT
                       else zoom_ids ! nat idx)"

definition GetIntText :: "wstr \<Rightarrow> int \<Rightarrow> int" where
  "GetIntText t def = (let val = wcstol (take 31 t) in if val > 0 then val else def)"

text \<open>What the controls hold, and what opening the dialog puts into them.\<close>

record dlg_state =
  d_current :: bool
  d_order :: order_mode
  d_count :: bool
  d_interval :: wstr
  d_rounds :: wstr
  d_zoom :: int

fun order_of :: "int \<Rightarrow> order_mode" where
  "order_of i = (if i = 1 then ORDER_REVERSE else if i = 2 then ORDER_RANDOM else ORDER_NORMAL)"

fun order_num :: "order_mode \<Rightarrow> int" where
  "order_num ORDER_NORMAL = 0" | "order_num ORDER_REVERSE = 1" | "order_num ORDER_RANDOM = 2"

fun repeat_num :: "repeat_mode \<Rightarrow> int" where
  "repeat_num REPEAT_FOREVER = 0" | "repeat_num REPEAT_COUNT = 1"

definition zoom_index :: "int \<Rightarrow> int" where
  "zoom_index z = index_or 0 (find_first (\<lambda>i. i = z) zoom_ids)"

definition init_dialog :: "'f ini_api \<Rightarrow> config \<Rightarrow> bool \<Rightarrow> int \<Rightarrow> 'f \<Rightarrow> dlg_state" where
  "init_dialog api c hasCurrentFolder zoommode st =
     (let interval = clamp (getInt api c CFG_SECTION (wlit ''IntervalSec'') 5 st) 1 3600;
          ord = clamp (getInt api c CFG_SECTION (wlit ''Order'') 0 st) 0 2;
          rep = clamp (getInt api c CFG_SECTION (wlit ''Repeat'') 0 st) 0 1;
          rounds = clamp (getInt api c CFG_SECTION (wlit ''Rounds'') 1 st) 1 9999
      in \<lparr>d_current = hasCurrentFolder, d_order = order_of ord, d_count = (rep = 1),
          d_interval = wdec interval, d_rounds = wdec rounds, d_zoom = zoom_index zoommode\<rparr>)"

definition ValidateAndSave :: "'f ini_api \<Rightarrow> config \<Rightarrow> dlg_state \<Rightarrow> slide_item list \<Rightarrow> start_mode \<Rightarrow>
    slide_options \<Rightarrow> 'f \<Rightarrow> bool \<times> slide_options \<times> 'f" where
  "ValidateAndSave api c d items start opt st =
     (let opt1 = opt\<lparr>o_source := (if d_current d then SOURCE_CURRENT_FOLDER else SOURCE_CUSTOM),
            o_order := d_order d,
            o_repeat := (if d_count d then REPEAT_COUNT else REPEAT_FOREVER),
            o_interval := clamp (GetIntText (d_interval d) 5) 1 3600,
            o_rounds := clamp (GetIntText (d_rounds d) 1) 1 9999,
            o_zoom := SelectedZoom (d_zoom d), o_start := start, o_items := items\<rparr> in
      if o_source opt1 = SOURCE_CUSTOM \<and> o_items opt1 = [] then (False, opt1, st)
      else
      let st1 = setInt api c CFG_SECTION (wlit ''IntervalSec'') (o_interval opt1) st;
          st2 = setInt api c CFG_SECTION (wlit ''Order'') (order_num (o_order opt1)) st1;
          st3 = setInt api c CFG_SECTION (wlit ''Repeat'') (repeat_num (o_repeat opt1)) st2;
          st4 = setInt api c CFG_SECTION (wlit ''Rounds'') (o_rounds opt1) st3
      in (True, opt1, st4))"

section \<open>The player's state\<close>

text \<open>What the player asks of the document, and the numbers \<open>rand\<close> returns.\<close>

record 'd slide_ops =
  so_open :: "bool \<Rightarrow> string \<Rightarrow> 'd \<Rightarrow> bool \<times> 'd"
  so_path :: "'d \<Rightarrow> string"
  so_dir :: "'d \<Rightarrow> string"
  so_names :: "'d \<Rightarrow> string list"
  so_idx :: "'d \<Rightarrow> int"
  so_rand :: "'d \<Rightarrow> nat \<Rightarrow> nat"

text \<open>The parts of the main window that full screen changes.\<close>

record frame =
  f_style :: u32
  f_exstyle :: u32
  f_place :: rect
  f_menu :: bool
  f_toolbar :: bool
  f_status :: bool
  f_list :: bool

record 'd slide =
  ss_doc :: 'd
  ss_active :: bool
  ss_fullscreen :: bool
  ss_opening :: bool
  ss_timer :: "int option"
  ss_opts :: slide_options
  ss_files :: "string list"
  ss_index :: int
  ss_round :: int
  ss_frame :: frame
  ss_saved :: frame
  ss_zoom :: "int list"

text \<open>
  \<open>ss_timer\<close> is the interval of the running timer; \<open>ss_zoom\<close> records the calls of
  \<open>setZoomMode\<close>.  The member \<open>m_fileListVisible\<close> is \<open>list_visible\<close>.
\<close>

definition WS_OVERLAPPEDWINDOW :: u32 where "WS_OVERLAPPEDWINDOW = 0x00CF0000"

unbundle bit_operations_syntax

definition EnterSlideShowFullscreen :: "rect \<Rightarrow> bool \<Rightarrow> 'd slide \<Rightarrow> 'd slide" where
  "EnterSlideShowFullscreen monitor list_visible s =
     (if ss_fullscreen s then s
      else
      let f = ss_frame s in
      s\<lparr>ss_saved := f\<lparr>f_list := list_visible\<rparr>,
        ss_frame := f\<lparr>f_toolbar := False, f_status := False, f_list := False,
          f_style := f_style f AND NOT WS_OVERLAPPEDWINDOW, f_place := monitor, f_menu := False\<rparr>,
        ss_fullscreen := True\<rparr>)"

definition LeaveSlideShowFullscreen :: "'d slide \<Rightarrow> 'd slide" where
  "LeaveSlideShowFullscreen s =
     (if \<not> ss_fullscreen s then s
      else
      let v = ss_saved s in
      s\<lparr>ss_frame := (ss_frame s)\<lparr>f_style := f_style v, f_exstyle := f_exstyle v, f_place := f_place v,
          f_menu := True, f_toolbar := f_toolbar v, f_status := f_status v, f_list := f_list v\<rparr>,
        ss_fullscreen := False\<rparr>)"

definition StopSlideShow :: "'d slide \<Rightarrow> 'd slide" where
  "StopSlideShow s =
     (LeaveSlideShowFullscreen (s\<lparr>ss_timer := None\<rparr>))\<lparr>ss_active := False, ss_files := []\<rparr>"

definition ResetSlideShowTimer :: "'d slide \<Rightarrow> 'd slide" where
  "ResetSlideShowTimer s =
     (if \<not> ss_active s then s else s\<lparr>ss_timer := Some (o_interval (ss_opts s) * 1000)\<rparr>)"

section \<open>The files to show\<close>

definition dir_path :: "'d slide_ops \<Rightarrow> 'd \<Rightarrow> string \<Rightarrow> string" where
  "dir_path ops d n = so_dir ops d @ ''/'' @ n"

definition BuildSlideShowFiles :: "'d slide_ops \<Rightarrow> 'd slide \<Rightarrow> 'd slide" where
  "BuildSlideShowFiles ops s =
     (let opts = ss_opts s; d = ss_doc s in
      if o_source opts = SOURCE_CUSTOM then
        let fs = map item_path (o_items opts)
        in s\<lparr>ss_files := (if o_order opts = ORDER_REVERSE then rev fs else fs)\<rparr>
      else
      let names = so_names ops d; cnt = length names; idx = so_idx ops d in
      if cnt = 0 \<or> idx < 0 then s\<lparr>ss_files := []\<rparr>
      else if o_order opts = ORDER_REVERSE then
        s\<lparr>ss_files := map (\<lambda>i. dir_path ops d (names ! i))
            (rev [0..<Suc (nat idx)] @ rev [Suc (nat idx)..<cnt])\<rparr>
      else s\<lparr>ss_files := map (\<lambda>i. dir_path ops d (names ! i)) ([nat idx..<cnt] @ [0..<nat idx])\<rparr>)"

definition swap :: "nat \<Rightarrow> nat \<Rightarrow> 'a list \<Rightarrow> 'a list" where
  "swap i j xs = xs[i := xs ! j, j := xs ! i]"

text \<open>The loop from the last index down to 1; \<open>k\<close> counts the calls of \<open>rand\<close>.\<close>

fun shuffle_loop :: "(nat \<Rightarrow> nat) \<Rightarrow> nat \<Rightarrow> nat \<Rightarrow> 'a list \<Rightarrow> 'a list" where
  "shuffle_loop rnd k 0 xs = xs"
| "shuffle_loop rnd k (Suc i) xs =
     shuffle_loop rnd (Suc k) i (swap (Suc i) (rnd k mod (Suc i + 1)) xs)"

definition ShuffleSlideShowFiles :: "'d slide_ops \<Rightarrow> 'd slide \<Rightarrow> 'd slide" where
  "ShuffleSlideShowFiles ops s =
     (let fs = ss_files s in
      if length fs < 2 then s
      else s\<lparr>ss_files := shuffle_loop (so_rand ops (ss_doc s)) 0 (length fs - 1) fs\<rparr>)"

section \<open>Playing\<close>

definition OpenSlideShowCurrent :: "'d slide_ops \<Rightarrow> 'd slide \<Rightarrow> bool \<times> 'd slide" where
  "OpenSlideShowCurrent ops s =
     (if ss_index s < 0 \<or> ss_index s \<ge> int (length (ss_files s)) then (False, s)
      else case so_open ops (o_source (ss_opts s) = SOURCE_CUSTOM)
                  (ss_files s ! nat (ss_index s)) (ss_doc s) of
        (ok, d) \<Rightarrow> (ok, s\<lparr>ss_doc := d, ss_opening := False\<rparr>))"

definition StepSlideShowIndex :: "'d slide_ops \<Rightarrow> 'd slide \<Rightarrow> bool \<times> 'd slide" where
  "StepSlideShowIndex ops s =
     (let s1 = s\<lparr>ss_index := ss_index s + 1\<rparr> in
      if ss_index s1 < int (length (ss_files s1)) then (True, s1)
      else
      let s2 = s1\<lparr>ss_round := ss_round s1 + 1\<rparr> in
      if o_repeat (ss_opts s2) = REPEAT_COUNT \<and> ss_round s2 \<ge> o_rounds (ss_opts s2)
      then (False, StopSlideShow s2)
      else
      let s3 = s2\<lparr>ss_index := 0\<rparr> in
      (True, if o_order (ss_opts s3) = ORDER_RANDOM then ShuffleSlideShowFiles ops s3 else s3))"

fun advance_loop :: "'d slide_ops \<Rightarrow> nat \<Rightarrow> 'd slide \<Rightarrow> 'd slide" where
  "advance_loop ops 0 s = StopSlideShow s"
| "advance_loop ops (Suc attempts) s =
     (case StepSlideShowIndex ops s of (False, s1) \<Rightarrow> s1
      | (True, s1) \<Rightarrow>
        (case OpenSlideShowCurrent ops s1 of (True, s2) \<Rightarrow> ResetSlideShowTimer s2
         | (False, s2) \<Rightarrow> advance_loop ops attempts s2))"

definition AdvanceSlideShow :: "'d slide_ops \<Rightarrow> 'd slide \<Rightarrow> 'd slide" where
  "AdvanceSlideShow ops s =
     (if \<not> ss_active s \<or> ss_files s = [] then s else advance_loop ops (length (ss_files s)) s)"

definition StartSlideShow :: "'d slide_ops \<Rightarrow> rect \<Rightarrow> bool \<Rightarrow> slide_options \<Rightarrow> 'd slide \<Rightarrow> 'd slide" where
  "StartSlideShow ops monitor list_visible options s =
     (let s1 = BuildSlideShowFiles ops ((StopSlideShow s)\<lparr>ss_opts := options\<rparr>) in
      if ss_files s1 = [] then s1
      else
      let s2 = (if o_order (ss_opts s1) = ORDER_RANDOM then ShuffleSlideShowFiles ops s1 else s1);
          s3 = s2\<lparr>ss_active := True, ss_index := 0, ss_round := 0,
                  ss_zoom := ss_zoom s2 @ [o_zoom (ss_opts s2)]\<rparr>;
          s4 = (if o_start (ss_opts s3) = START_FULLSCREEN
                then EnterSlideShowFullscreen monitor list_visible s3 else s3) in
      case OpenSlideShowCurrent ops s4 of
        (True, s5) \<Rightarrow> ResetSlideShowTimer s5
      | (False, s5) \<Rightarrow> AdvanceSlideShow ops s5)"

definition SyncSlideShowIndexToCurrent :: "'d slide_ops \<Rightarrow> 'd slide \<Rightarrow> 'd slide" where
  "SyncSlideShowIndexToCurrent ops s =
     (if so_path ops (ss_doc s) = [] then s
      else case find_first (\<lambda>f. f = so_path ops (ss_doc s)) (ss_files s) of
        None \<Rightarrow> s | Some i \<Rightarrow> s\<lparr>ss_index := int i\<rparr>)"

text \<open>The message posted after the user navigated.\<close>

definition onResetTimer :: "'d slide_ops \<Rightarrow> 'd slide \<Rightarrow> 'd slide" where
  "onResetTimer ops s =
     (if ss_active s \<and> \<not> ss_opening s then ResetSlideShowTimer (SyncSlideShowIndexToCurrent ops s)
      else s)"

section \<open>Shuffling and building\<close>

lemma swap_mset: "i < length xs \<Longrightarrow> j < length xs \<Longrightarrow> mset (swap i j xs) = mset xs"
  by (simp add: swap_def mset_swap)

lemma swap_length [simp]: "length (swap i j xs) = length xs"
  by (simp add: swap_def)

lemma shuffle_loop_mset:
  "i < length xs \<Longrightarrow> mset (shuffle_loop rnd k i xs) = mset xs"
proof (induction rnd k i xs rule: shuffle_loop.induct)
  case (2 rnd k i xs)
  have "rnd k mod (Suc i + 1) < length xs"
    using 2(2) mod_less_divisor [of "Suc i + 1" "rnd k"] by linarith
  then show ?case using 2 by (simp add: swap_mset)
qed simp

lemma shuffle_mset: "mset (ss_files (ShuffleSlideShowFiles ops s)) = mset (ss_files s)"
  by (auto simp: ShuffleSlideShowFiles_def Let_def intro!: shuffle_loop_mset)

lemma shuffle_frame [simp]:
  "ss_index (ShuffleSlideShowFiles ops s) = ss_index s"
  "ss_active (ShuffleSlideShowFiles ops s) = ss_active s"
  "ss_opts (ShuffleSlideShowFiles ops s) = ss_opts s"
  "ss_frame (ShuffleSlideShowFiles ops s) = ss_frame s"
  "ss_saved (ShuffleSlideShowFiles ops s) = ss_saved s"
  "ss_fullscreen (ShuffleSlideShowFiles ops s) = ss_fullscreen s"
  "ss_doc (ShuffleSlideShowFiles ops s) = ss_doc s"
  by (simp_all add: ShuffleSlideShowFiles_def Let_def)

lemma shuffle_length [simp]: "length (ss_files (ShuffleSlideShowFiles ops s)) = length (ss_files s)"
  by (rule mset_eq_length [OF shuffle_mset])

lemma shuffle_empty [simp]: "ss_files (ShuffleSlideShowFiles ops s) = [] \<longleftrightarrow> ss_files s = []"
  by (metis length_0_conv shuffle_length)

lemma shuffle_set [simp]: "set (ss_files (ShuffleSlideShowFiles ops s)) = set (ss_files s)"
  by (rule mset_eq_setD [OF shuffle_mset])

text \<open>
  In the current folder the show starts with the current image and goes through every image
  of the folder exactly once per round, forwards or backwards from there.
\<close>

theorem build_covers_folder:
  assumes "o_source (ss_opts s) = SOURCE_CURRENT_FOLDER" and "so_idx ops (ss_doc s) = int i"
    and "i < length (so_names ops (ss_doc s))"
    and "fs = ss_files (BuildSlideShowFiles ops s)"
  shows "mset fs = mset (map (dir_path ops (ss_doc s)) (so_names ops (ss_doc s))) \<and>
    fs ! 0 = dir_path ops (ss_doc s) (so_names ops (ss_doc s) ! i)"
proof -
  let ?names = "so_names ops (ss_doc s)" and ?n = "length (so_names ops (ss_doc s))"
  let ?p = "\<lambda>i. dir_path ops (ss_doc s) (?names ! i)"
  have all: "map ?p [0..<?n] = map (dir_path ops (ss_doc s)) ?names"
    by (intro nth_equalityI) simp_all
  have split: "[0..<?n] = [0..<k] @ [k..<?n]" if "k \<le> ?n" for k
    using upt_add_eq_append [of 0 k "?n - k"] that by simp
  define r where "r = rev [0..<Suc i] @ rev [Suc i..<?n]"
  define f where "f = [i..<?n] @ [0..<i]"
  have "mset r = mset ([0..<Suc i] @ [Suc i..<?n])" unfolding r_def mset_append mset_rev ..
  moreover have "mset f = mset ([0..<i] @ [i..<?n])" unfolding f_def mset_append by (rule add.commute)
  ultimately have perm: "mset r = mset [0..<?n]" "mset f = mset [0..<?n]"
    using split [of "Suc i"] split [of i] assms(3) by (metis Suc_leI, metis less_imp_le)
  have hd: "r ! 0 = i" "f ! 0 = i" "r \<noteq> []" "f \<noteq> []"
    using assms(3) by (auto simp: r_def f_def nth_append)
  have "fs = (if o_order (ss_opts s) = ORDER_REVERSE then map ?p r else map ?p f)"
    using assms by (auto simp: BuildSlideShowFiles_def Let_def r_def f_def)
  then obtain g where g: "fs = map ?p g" "mset g = mset [0..<?n]" "g ! 0 = i" "g \<noteq> []"
    using perm hd by (metis (full_types))
  have "mset fs = image_mset ?p (mset [0..<?n])" using g by (simp only: mset_map)
  then have "mset fs = mset (map ?p [0..<?n])" by simp
  then show ?thesis unfolding all using g by simp
qed

section \<open>Leaving full screen\<close>

lemma stop_fields [simp]:
  "ss_active (StopSlideShow s) = False" "ss_files (StopSlideShow s) = []"
  "ss_timer (StopSlideShow s) = None" "ss_fullscreen (StopSlideShow s) = False"
  "ss_doc (StopSlideShow s) = ss_doc s" "ss_opts (StopSlideShow s) = ss_opts s"
  by (simp_all add: StopSlideShow_def LeaveSlideShowFullscreen_def Let_def)

text \<open>The window is as it was, or full screen with the old state saved.\<close>

definition window_kept :: "frame \<Rightarrow> 'd slide \<Rightarrow> bool" where
  "window_kept f s \<longleftrightarrow>
     (if ss_fullscreen s then ss_saved s = f \<and> f_menu f \<and> f_exstyle (ss_frame s) = f_exstyle f
      else ss_frame s = f)"

lemma window_kept_stop: "window_kept f s \<Longrightarrow> ss_frame (StopSlideShow s) = f"
  by (cases "ss_frame s"; cases f)
    (auto simp: window_kept_def StopSlideShow_def LeaveSlideShowFullscreen_def Let_def)

lemma window_kept_cong:
  "ss_fullscreen s' = ss_fullscreen s \<Longrightarrow> ss_saved s' = ss_saved s \<Longrightarrow> ss_frame s' = ss_frame s \<Longrightarrow>
    window_kept f s' = window_kept f s"
  by (simp add: window_kept_def)

lemma window_kept_after_stop: "window_kept f s \<Longrightarrow> window_kept f (StopSlideShow s)"
  using window_kept_stop [of f s] by (simp add: window_kept_def)

section \<open>The running show\<close>

text \<open>
  The events: the dialog starts a show, the timer fires, the user navigates (which changes the
  document and posts the reset message), the show is stopped.  \<open>f\<close> is the window before; the
  panel is shown in it as \<open>m_fileListVisible\<close> says.
\<close>

inductive slide_step :: "'d slide_ops \<Rightarrow> frame \<Rightarrow> 'd slide \<Rightarrow> 'd slide \<Rightarrow> bool"
  for ops :: "'d slide_ops" and f :: frame where
  started: "slide_step ops f s (StartSlideShow ops monitor (f_list f) opts s)"
| timer: "slide_step ops f s (AdvanceSlideShow ops s)"
| navigated: "slide_step ops f s (onResetTimer ops (s\<lparr>ss_doc := d\<rparr>))"
| stopped: "slide_step ops f s (StopSlideShow s)"

definition slide_inv :: "frame \<Rightarrow> 'd slide \<Rightarrow> bool" where
  "slide_inv f s \<longleftrightarrow> window_kept f s \<and>
     (if ss_active s then ss_timer s = Some (o_interval (ss_opts s) * 1000) \<and>
        0 \<le> ss_index s \<and> ss_index s < int (length (ss_files s))
      else ss_timer s = None \<and> \<not> ss_fullscreen s)"

text \<open>While a step is under way: the timer may not be set yet.\<close>

definition mid_inv :: "frame \<Rightarrow> 'd slide \<Rightarrow> bool" where
  "mid_inv f s \<longleftrightarrow> window_kept f s \<and> ss_active s \<and> 0 \<le> ss_index s \<and>
     ss_index s < int (length (ss_files s))"

lemma slide_inv_stop: "window_kept f s \<Longrightarrow> slide_inv f (StopSlideShow s)"
  by (simp add: slide_inv_def window_kept_after_stop)

lemma mid_inv_open:
  assumes "mid_inv f s" and "OpenSlideShowCurrent ops s = (ok, s')"
  shows "mid_inv f s' \<and> ss_files s' = ss_files s"
  using assms by (auto simp: mid_inv_def OpenSlideShowCurrent_def window_kept_def split: prod.splits if_splits)

lemma mid_inv_reset: "mid_inv f s \<Longrightarrow> slide_inv f (ResetSlideShowTimer s)"
  by (simp add: mid_inv_def slide_inv_def ResetSlideShowTimer_def window_kept_def)

lemma mid_inv_step:
  assumes "mid_inv f s" and "StepSlideShowIndex ops s = (go, s')"
  shows "if go then mid_inv f s' else slide_inv f s'"
proof -
  have w: "window_kept f (s\<lparr>ss_index := i, ss_round := r\<rparr>)" for i r
    using assms(1) by (simp add: mid_inv_def window_kept_def)
  show ?thesis
    using assms slide_inv_stop [OF w] shuffle_length
    by (auto simp: StepSlideShowIndex_def Let_def mid_inv_def window_kept_def split: if_splits)
qed

lemma advance_loop_inv: "mid_inv f s \<Longrightarrow> slide_inv f (advance_loop ops n s)"
proof (induction n arbitrary: s)
  case 0
  then show ?case by (simp add: slide_inv_stop mid_inv_def)
next
  case (Suc n)
  obtain go s1 where st: "StepSlideShowIndex ops s = (go, s1)" by fastforce
  obtain ok s2 where op: "OpenSlideShowCurrent ops s1 = (ok, s2)" by fastforce
  show ?case
    using mid_inv_step [OF Suc.prems st] mid_inv_open [OF _ op, of f] Suc.IH [of s2] mid_inv_reset
    by (cases go; cases ok) (auto simp: st op)
qed

lemma slide_inv_window: "slide_inv f s \<Longrightarrow> window_kept f s"
  by (simp add: slide_inv_def)

lemma slide_inv_mid: "slide_inv f s \<Longrightarrow> ss_active s \<Longrightarrow> mid_inv f s"
  by (simp add: slide_inv_def mid_inv_def)

lemma mid_inv_files: "mid_inv f s \<Longrightarrow> ss_active s \<and> ss_files s \<noteq> []"
  by (auto simp: mid_inv_def)

lemma advance_inv: "mid_inv f s \<Longrightarrow> slide_inv f (AdvanceSlideShow ops s)"
  using mid_inv_files [of f s] by (simp add: AdvanceSlideShow_def advance_loop_inv)

lemma advance_inv': "slide_inv f s \<Longrightarrow> slide_inv f (AdvanceSlideShow ops s)"
  by (cases "ss_active s") (simp_all add: advance_inv slide_inv_mid, simp add: AdvanceSlideShow_def)

lemma build_frame [simp]:
  "ss_active (BuildSlideShowFiles ops s) = ss_active s"
  "ss_frame (BuildSlideShowFiles ops s) = ss_frame s"
  "ss_saved (BuildSlideShowFiles ops s) = ss_saved s"
  "ss_fullscreen (BuildSlideShowFiles ops s) = ss_fullscreen s"
  "ss_timer (BuildSlideShowFiles ops s) = ss_timer s"
  "ss_opts (BuildSlideShowFiles ops s) = ss_opts s"
  by (auto simp: BuildSlideShowFiles_def Let_def)

lemma enter_window:
  assumes "window_kept f s" "\<not> ss_fullscreen s" "f_menu f"
  shows "window_kept f (EnterSlideShowFullscreen m (f_list f) s)"
  using assms by (simp add: window_kept_def EnterSlideShowFullscreen_def Let_def)

lemma enter_frame [simp]:
  "ss_active (EnterSlideShowFullscreen m v s) = ss_active s"
  "ss_files (EnterSlideShowFullscreen m v s) = ss_files s"
  "ss_index (EnterSlideShowFullscreen m v s) = ss_index s"
  by (simp_all add: EnterSlideShowFullscreen_def Let_def)

lemma start_inv:
  assumes "slide_inv f s" "f_menu f"
  shows "slide_inv f (StartSlideShow ops m (f_list f) opts s)"
proof -
  define s1 where "s1 = BuildSlideShowFiles ops ((StopSlideShow s)\<lparr>ss_opts := opts\<rparr>)"
  define s2 where "s2 = (if o_order (ss_opts s1) = ORDER_RANDOM then ShuffleSlideShowFiles ops s1 else s1)"
  define s3 where "s3 = s2\<lparr>ss_active := True, ss_index := 0, ss_round := 0,
      ss_zoom := ss_zoom s2 @ [o_zoom (ss_opts s2)]\<rparr>"
  define s4 where "s4 = (if o_start (ss_opts s3) = START_FULLSCREEN
      then EnterSlideShowFullscreen m (f_list f) s3 else s3)"
  have "window_kept f s" using assms(1) by (simp add: slide_inv_def)
  then have s1: "window_kept f s1" "\<not> ss_fullscreen s1" "\<not> ss_active s1" "ss_timer s1 = None"
    using window_kept_stop [of f s] by (simp_all add: s1_def window_kept_def)
  show ?thesis
  proof (cases "ss_files s1 = []")
    case True
    then show ?thesis using s1 by (simp add: StartSlideShow_def Let_def s1_def [symmetric] slide_inv_def)
  next
    case False
    have "length (ss_files s2) = length (ss_files s1)" by (simp add: s2_def)
    then have s3: "window_kept f s3" "\<not> ss_fullscreen s3" "ss_active s3" "ss_index s3 = 0" "ss_files s3 \<noteq> []"
      using s1 False by (auto simp: s3_def s2_def window_kept_def)
    then have s4: "mid_inv f s4"
      using enter_window [OF s3(1,2) assms(2)] by (auto simp: s4_def mid_inv_def)
    obtain ok s5 where op: "OpenSlideShowCurrent ops s4 = (ok, s5)" by fastforce
    have s5: "mid_inv f s5" using mid_inv_open [OF s4 op] by simp
    have "StartSlideShow ops m (f_list f) opts s =
        (if ok then ResetSlideShowTimer s5 else AdvanceSlideShow ops s5)"
      unfolding StartSlideShow_def Let_def s1_def [symmetric] s2_def [symmetric]
        s3_def [symmetric] s4_def [symmetric]
      using False op by (simp split: bool.split)
    then show ?thesis
      using mid_inv_reset [OF s5] advance_inv [OF s5, of ops] by simp
  qed
qed

lemma onResetTimer_inv:
  assumes "slide_inv f s"
  shows "slide_inv f (onResetTimer ops (s\<lparr>ss_doc := d\<rparr>))"
  using assms find_first_less [of _ "ss_files s"]
  by (fastforce simp: onResetTimer_def SyncSlideShowIndexToCurrent_def ResetSlideShowTimer_def
      slide_inv_def window_kept_def split: option.splits)

lemma slide_step_inv: "slide_step ops f s s' \<Longrightarrow> f_menu f \<Longrightarrow> slide_inv f s \<Longrightarrow> slide_inv f s'"
  by (induction rule: slide_step.induct)
    (auto intro: start_inv advance_inv' onResetTimer_inv slide_inv_stop slide_inv_window)

lemma slide_steps_inv: "(slide_step ops f)\<^sup>*\<^sup>* s s' \<Longrightarrow> f_menu f \<Longrightarrow> slide_inv f s \<Longrightarrow> slide_inv f s'"
  by (induction rule: rtranclp_induct) (auto intro: slide_step_inv)

text \<open>
  C27. Whatever shows were started, advanced, interrupted and stopped: between events the timer
  runs exactly while a show is active, with the interval of its options and a valid index, and
  without an active show the window has the style, placement, menu, bars and panel it started
  with.
\<close>

theorem slide_show_invariant:
  assumes "(slide_step ops f)\<^sup>*\<^sup>* s0 s" and "f_menu f"
    and "\<not> ss_active s0" "ss_timer s0 = None" "\<not> ss_fullscreen s0" "ss_frame s0 = f"
  shows "if ss_active s
    then ss_timer s = Some (o_interval (ss_opts s) * 1000) \<and>
      0 \<le> ss_index s \<and> ss_index s < int (length (ss_files s)) \<and> ss_frame (StopSlideShow s) = f
    else ss_timer s = None \<and> ss_frame s = f"
proof -
  have "slide_inv f s0" using assms(3-6) by (simp add: slide_inv_def window_kept_def)
  from slide_steps_inv [OF assms(1,2) this] show ?thesis
    using window_kept_stop [of f s] by (auto simp: slide_inv_def window_kept_def)
qed

section \<open>The order of the slides\<close>

text \<open>\<open>k\<close> ticks of the timer.\<close>

definition ticks :: "'d slide_ops \<Rightarrow> nat \<Rightarrow> 'd slide \<Rightarrow> 'd slide" where
  "ticks ops k s = (AdvanceSlideShow ops ^^ k) s"

lemma ticks_Suc: "ticks ops (Suc k) s = AdvanceSlideShow ops (ticks ops k s)"
  by (simp add: ticks_def)

text \<open>The position after \<open>k\<close> ticks.\<close>

definition at_tick :: "'d slide_ops \<Rightarrow> slide_options \<Rightarrow> string list \<Rightarrow> nat \<Rightarrow> 'd slide \<Rightarrow> bool" where
  "at_tick ops opts fs k s \<longleftrightarrow> ss_active s \<and> ss_opts s = opts \<and> ss_files s = fs \<and>
     ss_index s = int (k mod length fs) \<and> ss_round s = int (k div length fs)"

lemma mod_Suc_cases:
  assumes "0 < (n :: nat)"
  shows "Suc k mod n = (if Suc (k mod n) < n then Suc (k mod n) else 0) \<and>
    Suc k div n = (if Suc (k mod n) < n then k div n else Suc (k div n))"
proof -
  have "k mod n < n" using assms by simp
  then show ?thesis by (auto simp: mod_Suc div_Suc)
qed

lemma advance_next:
  assumes "at_tick ops opts fs k s" "fs \<noteq> []" "o_order opts \<noteq> ORDER_RANDOM"
    and "o_repeat opts = REPEAT_COUNT \<Longrightarrow> Suc k < length fs * nat (o_rounds opts)"
    and "\<And>c p d. p \<in> set fs \<Longrightarrow> fst (so_open ops c p d)"
  shows "at_tick ops opts fs (Suc k) (AdvanceSlideShow ops s) \<and>
    ss_doc (AdvanceSlideShow ops s) =
      snd (so_open ops (o_source opts = SOURCE_CUSTOM) (fs ! (Suc k mod length fs)) (ss_doc s))"
proof -
  let ?n = "length fs"
  have n: "0 < ?n" using assms(2) by simp
  note m = mod_Suc_cases [OF n, of k]
  obtain j where j: "?n = Suc j" using n by (cases ?n) auto
  have s: "ss_active s" "ss_opts s = opts" "ss_files s = fs" "ss_index s = int (k mod ?n)"
    "ss_round s = int (k div ?n)" using assms(1) by (simp_all add: at_tick_def)
  have last: "\<not> (o_repeat opts = REPEAT_COUNT \<and> int (Suc (k div ?n)) \<ge> o_rounds opts)"
    if "\<not> Suc (k mod ?n) < ?n"
  proof
    assume c: "o_repeat opts = REPEAT_COUNT \<and> int (Suc (k div ?n)) \<ge> o_rounds opts"
    have "Suc k = ?n * (Suc k div ?n)" using m that by (metis mult_div_mod_eq add.right_neutral)
    then have "Suc k = ?n * Suc (k div ?n)" using m that by simp
    then have "?n * Suc (k div ?n) < ?n * nat (o_rounds opts)" using assms(4) c by metis
    then have "Suc (k div ?n) < nat (o_rounds opts)" unfolding mult_less_cancel1 by blast
    then show False using c by linarith
  qed
  have lt: "int (k mod ?n) + 1 < int ?n \<longleftrightarrow> Suc (k mod ?n) < ?n" by linarith
  define s1 where "s1 = snd (StepSlideShowIndex ops s)"
  have "fst (StepSlideShowIndex ops s) \<and> ss_active s1 \<and> ss_opts s1 = opts \<and> ss_files s1 = fs \<and>
      ss_index s1 = int (Suc k mod ?n) \<and> ss_round s1 = int (Suc k div ?n) \<and> ss_doc s1 = ss_doc s"
  proof (cases "Suc (k mod ?n) < ?n")
    case True
    then show ?thesis using m s lt by (simp add: s1_def StepSlideShowIndex_def Let_def)
  next
    case False
    then show ?thesis using last m s lt assms(3) by (auto simp: s1_def StepSlideShowIndex_def Let_def)
  qed
  then have st: "StepSlideShowIndex ops s = (True, s1)"
    and s1: "ss_active s1" "ss_opts s1 = opts" "ss_files s1 = fs" "ss_index s1 = int (Suc k mod ?n)"
    "ss_round s1 = int (Suc k div ?n)" "ss_doc s1 = ss_doc s"
    by (auto simp: s1_def prod_eq_iff)
  let ?o = "so_open ops (o_source opts = SOURCE_CUSTOM) (fs ! (Suc k mod ?n)) (ss_doc s)"
  have "Suc k mod ?n < ?n" using n by simp
  then have "fst ?o" using assms(5) by simp
  then have "OpenSlideShowCurrent ops s1 = (True, s1\<lparr>ss_doc := snd ?o, ss_opening := False\<rparr>)"
    using s1 \<open>Suc k mod ?n < ?n\<close> by (auto simp: OpenSlideShowCurrent_def split: prod.split)
  then have "AdvanceSlideShow ops s = ResetSlideShowTimer (s1\<lparr>ss_doc := snd ?o, ss_opening := False\<rparr>)"
    using s(1,3) assms(2) j st by (simp add: AdvanceSlideShow_def)
  then show ?thesis using s1 by (simp add: at_tick_def ResetSlideShowTimer_def)
qed

lemma ticks_at:
  assumes "at_tick ops opts fs 0 s" "fs \<noteq> []" "o_order opts \<noteq> ORDER_RANDOM"
    and "o_repeat opts = REPEAT_COUNT \<Longrightarrow> k < length fs * nat (o_rounds opts)"
    and "\<And>c p d. p \<in> set fs \<Longrightarrow> fst (so_open ops c p d)"
  shows "at_tick ops opts fs k (ticks ops k s)"
  using assms(4)
proof (induction k)
  case 0
  then show ?case using assms(1) by (simp add: ticks_def)
next
  case (Suc k)
  have "at_tick ops opts fs k (ticks ops k s)"
    by (rule Suc.IH) (use Suc.prems in \<open>auto dest: Suc_lessD\<close>)
  then show ?case
    using advance_next [OF _ assms(2,3) Suc.prems assms(5)] by (simp add: ticks_Suc)
qed

lemma advance_last:
  assumes "at_tick ops opts fs k s" "fs \<noteq> []" "o_repeat opts = REPEAT_COUNT"
    and "Suc k = length fs * nat (o_rounds opts)"
  shows "\<not> ss_active (AdvanceSlideShow ops s) \<and> ss_timer (AdvanceSlideShow ops s) = None \<and>
    ss_doc (AdvanceSlideShow ops s) = ss_doc s"
proof -
  let ?n = "length fs"
  have n: "0 < ?n" using assms(2) by simp
  note m = mod_Suc_cases [OF n, of k]
  obtain j where j: "?n = Suc j" using n by (cases ?n) auto
  have s: "ss_active s" "ss_opts s = opts" "ss_files s = fs" "ss_index s = int (k mod ?n)"
    "ss_round s = int (k div ?n)" using assms(1) by (simp_all add: at_tick_def)
  have "Suc k mod ?n = 0" "Suc k div ?n = nat (o_rounds opts)" using assms(4) n by simp_all
  then have e: "\<not> Suc (k mod ?n) < ?n" "Suc (k div ?n) = nat (o_rounds opts)"
    using m by (auto split: if_splits)
  have lt: "\<not> int (k mod ?n) + 1 < int ?n" using e(1) by linarith
  have "int (Suc (k div ?n)) \<ge> o_rounds opts" using e(2) by linarith
  then obtain s1 where "StepSlideShowIndex ops s = (False, StopSlideShow s1)" "ss_doc s1 = ss_doc s"
    using e s assms(3) lt by (auto simp: StepSlideShowIndex_def Let_def)
  then show ?thesis using s j assms(2) by (simp add: AdvanceSlideShow_def)
qed

text \<open>
  C28. A show in a fixed order whose files can all be opened shows them one after the other:
  after \<open>k\<close> ticks of the timer it is at file \<open>k mod n\<close> in round \<open>k div n\<close>, tick \<open>k + 1\<close> opens
  file \<open>(k + 1) mod n\<close>, and a show with a number of rounds stops by itself, with the timer off,
  exactly after all rounds.
\<close>

theorem slides_in_order:
  assumes "at_tick ops opts fs 0 s" "fs \<noteq> []" "o_order opts \<noteq> ORDER_RANDOM" "1 \<le> o_rounds opts"
    and "\<And>c p d. p \<in> set fs \<Longrightarrow> fst (so_open ops c p d)"
    and "tot = length fs * nat (o_rounds opts)"
  shows "(o_repeat opts = REPEAT_COUNT \<longrightarrow> k < tot \<longrightarrow> at_tick ops opts fs k (ticks ops k s)) \<and>
    (o_repeat opts = REPEAT_COUNT \<longrightarrow> Suc k < tot \<longrightarrow> ss_doc (ticks ops (Suc k) s) =
      snd (so_open ops (o_source opts = SOURCE_CUSTOM) (fs ! (Suc k mod length fs)) (ss_doc (ticks ops k s)))) \<and>
    (o_repeat opts = REPEAT_COUNT \<longrightarrow>
      \<not> ss_active (ticks ops tot s) \<and> ss_timer (ticks ops tot s) = None) \<and>
    (o_repeat opts = REPEAT_FOREVER \<longrightarrow> at_tick ops opts fs k (ticks ops k s) \<and>
      ss_doc (ticks ops (Suc k) s) =
        snd (so_open ops (o_source opts = SOURCE_CUSTOM) (fs ! (Suc k mod length fs)) (ss_doc (ticks ops k s))))"
proof -
  note at = ticks_at [OF assms(1,2,3) _ assms(5)]
  have opened: "ss_doc (ticks ops (Suc k) s) =
      snd (so_open ops (o_source opts = SOURCE_CUSTOM) (fs ! (Suc k mod length fs)) (ss_doc (ticks ops k s)))"
    if "o_repeat opts = REPEAT_COUNT \<Longrightarrow> Suc k < tot"
  proof -
    have "at_tick ops opts fs k (ticks ops k s)" by (rule at) (use that assms(6) in \<open>auto dest: Suc_lessD\<close>)
    then show ?thesis
      using advance_next [OF _ assms(2,3) _ assms(5)] that assms(6) by (simp add: ticks_Suc)
  qed
  have stops: "\<not> ss_active (ticks ops tot s) \<and> ss_timer (ticks ops tot s) = None"
    if c: "o_repeat opts = REPEAT_COUNT"
  proof -
    have "0 < tot" using assms(2,4,6) by simp
    then obtain j where j: "tot = Suc j" by (auto simp: gr0_conv_Suc)
    have a: "at_tick ops opts fs j (ticks ops j s)" by (rule at) (use j assms(6) in simp)
    show ?thesis
      using advance_last [OF a assms(2) c] j assms(6) by (simp add: ticks_Suc)
  qed
  show ?thesis using at [of k] opened stops assms(6) by auto
qed

text \<open>A player on a document that just remembers what was opened.\<close>

definition log_ops :: "string list slide_ops" where
  "log_ops = \<lparr>so_open = (\<lambda>c p d. (True, d @ [p])), so_path = (\<lambda>d. []), so_dir = (\<lambda>d. []),
     so_names = (\<lambda>d. [''a'', ''b'', ''c'']), so_idx = (\<lambda>d. 1), so_rand = (\<lambda>d k. k)\<rparr>"

definition demo_frame :: frame where
  "demo_frame = \<lparr>f_style = 0x14CF0000, f_exstyle = 0, f_place = mk_rect 0 0 800 600, f_menu = True,
     f_toolbar = True, f_status = True, f_list = True\<rparr>"

definition demo_slide :: "string list slide" where
  "demo_slide = \<lparr>ss_doc = [], ss_active = False, ss_fullscreen = False, ss_opening = False,
     ss_timer = None, ss_opts = default_options, ss_files = [], ss_index = 0, ss_round = 0,
     ss_frame = demo_frame, ss_saved = demo_frame, ss_zoom = []\<rparr>"

definition demo_opts :: slide_options where
  "demo_opts = default_options\<lparr>o_repeat := REPEAT_COUNT, o_rounds := 2, o_start := START_FULLSCREEN\<rparr>"

definition demo_started :: "string list slide" where
  "demo_started = StartSlideShow log_ops (mk_rect 0 0 1920 1080) True demo_opts demo_slide"

theorem slides_in_order_witness:
  "ss_files demo_started = [''/b'', ''/c'', ''/a''] \<and>
   \<not> ss_active (ticks log_ops 6 demo_started) \<and>
   at_tick log_ops demo_opts [''/b'', ''/c'', ''/a''] 4 (ticks log_ops 4 demo_started)"
proof -
  have f: "ss_files demo_started = [''/b'', ''/c'', ''/a'']" by code_simp
  have a: "at_tick log_ops demo_opts [''/b'', ''/c'', ''/a''] 0 demo_started"
    unfolding at_tick_def by code_simp
  have o: "o_order demo_opts \<noteq> ORDER_RANDOM" "1 \<le> o_rounds demo_opts" "o_repeat demo_opts = REPEAT_COUNT"
    "o_rounds demo_opts = 2"
    by (simp_all add: demo_opts_def default_options_def)
  have op: "fst (so_open log_ops c p d)" for c p d by (simp add: log_ops_def)
  show ?thesis
    using slides_in_order [OF a _ o(1,2) op, of 6 4] o f by simp
qed

theorem slide_show_invariant_witness:
  "ss_fullscreen demo_started \<and> ss_timer demo_started = Some 5000 \<and>
   ss_frame (StopSlideShow demo_started) = demo_frame"
proof -
  have "slide_step log_ops demo_frame demo_slide demo_started"
    using slide_step.started [of log_ops demo_frame demo_slide "mk_rect 0 0 1920 1080" demo_opts]
    by (simp add: demo_started_def demo_frame_def)
  then have st: "(slide_step log_ops demo_frame)\<^sup>*\<^sup>* demo_slide demo_started" by (rule r_into_rtranclp)
  have a: "ss_active demo_started" "ss_fullscreen demo_started" "ss_timer demo_started = Some 5000"
    by code_simp+
  show ?thesis
    using slide_show_invariant [OF st] a by (simp add: demo_slide_def demo_frame_def)
qed

section \<open>When nothing can be opened\<close>

lemma step_files:
  assumes "StepSlideShowIndex ops s = (go, s1)"
  shows "if go then set (ss_files s1) = set (ss_files s) else \<not> ss_active s1 \<and> ss_timer s1 = None"
  using assms
  by (auto simp: StepSlideShowIndex_def Let_def split: if_splits)

lemma open_files:
  assumes "OpenSlideShowCurrent ops s = (ok, s1)"
  shows "ss_files s1 = ss_files s \<and> (ok \<longrightarrow> (\<exists>c d. \<exists>p \<in> set (ss_files s). fst (so_open ops c p d)))"
proof (cases "ss_index s < 0 \<or> ss_index s \<ge> int (length (ss_files s))")
  case True
  then show ?thesis using assms by (auto simp: OpenSlideShowCurrent_def)
next
  case False
  let ?o = "so_open ops (o_source (ss_opts s) = SOURCE_CUSTOM) (ss_files s ! nat (ss_index s)) (ss_doc s)"
  have "ss_files s ! nat (ss_index s) \<in> set (ss_files s)" using False by (intro nth_mem) linarith
  moreover have "ok = fst ?o" "ss_files s1 = ss_files s"
    using False assms by (auto simp: OpenSlideShowCurrent_def split: prod.splits)
  ultimately show ?thesis by blast
qed

lemma advance_loop_fails:
  assumes "\<And>c p d. p \<in> set fs \<Longrightarrow> \<not> fst (so_open ops c p d)"
    and "set (ss_files s) \<subseteq> set fs"
  shows "\<not> ss_active (advance_loop ops n s) \<and> ss_timer (advance_loop ops n s) = None"
  using assms(2)
proof (induction n arbitrary: s)
  case (Suc n)
  obtain go s1 where st: "StepSlideShowIndex ops s = (go, s1)" by fastforce
  obtain ok s2 where op: "OpenSlideShowCurrent ops s1 = (ok, s2)" by fastforce
  show ?case
  proof (cases go)
    case True
    then have "set (ss_files s1) \<subseteq> set fs" using step_files [OF st] Suc.prems by simp
    then have "\<not> ok" "set (ss_files s2) \<subseteq> set fs" using open_files [OF op] assms(1) by auto
    then show ?thesis using Suc.IH [of s2] True st op by simp
  next
    case False
    then show ?thesis using step_files [OF st] st by simp
  qed
qed simp

text \<open>
  C29. When none of the files can be opened any more, the next tick of the timer ends, with the
  show stopped and its timer off.
\<close>

theorem unreadable_show_stops:
  assumes "\<And>c p d. p \<in> set (ss_files s) \<Longrightarrow> \<not> fst (so_open ops c p d)" and "ss_files s \<noteq> []" "ss_active s"
  shows "\<not> ss_active (AdvanceSlideShow ops s) \<and> ss_timer (AdvanceSlideShow ops s) = None"
  using advance_loop_fails [OF assms(1)] assms(2,3) by (simp add: AdvanceSlideShow_def)

section \<open>Moving the selection\<close>

lemma split_sel_mset:
  "split_sel i sel xs = (b, r) \<Longrightarrow> mset b + mset r = mset xs"
  by (induction i sel xs arbitrary: b r rule: split_sel.induct) (auto split: if_splits prod.splits)

lemma split_sel_skip:
  assumes "\<And>j. j \<in> set sel \<Longrightarrow> i + length a \<le> j"
  shows "split_sel i sel (a @ xs) =
    (fst (split_sel (i + length a) sel xs), a @ snd (split_sel (i + length a) sel xs))"
  using assms
proof (induction a arbitrary: i)
  case (Cons x a)
  then have "\<not> (sel \<noteq> [] \<and> hd sel = i)" by (cases sel) force+
  then show ?case using Cons.IH [of "Suc i"] Cons.prems by auto
qed simp

lemma split_sel_take:
  "split_sel i ([i..<i + length b] @ sel) (b @ xs) =
    (b @ fst (split_sel (i + length b) sel xs), snd (split_sel (i + length b) sel xs))"
proof (induction b arbitrary: i)
  case (Cons x b)
  have "[i..<i + length (x # b)] = i # [Suc i..<Suc i + length b]" by (simp add: upt_rec)
  then show ?case using Cons.IH [of "Suc i"] by (simp del: upt_Suc)
qed simp

lemma split_sel_none: "split_sel i [] xs = ([], xs)"
  by (induction i "[] :: nat list" xs rule: split_sel.induct) simp_all

lemma split_sel_block:
  "split_sel 0 [length a..<length a + length b] (a @ b @ c) = (b, a @ c)"
proof -
  have "split_sel (length a) ([length a..<length a + length b] @ []) (b @ c) = (b, c)"
    unfolding split_sel_take by (simp add: split_sel_none)
  then show ?thesis
    using split_sel_skip [of "[length a..<length a + length b]" 0 a "b @ c"] by simp
qed

text \<open>
  Moving a selected block of the custom list down, and up, exchanges it with exactly the
  one item behind, or before, it, and the block stays selected.
\<close>

theorem move_block:
  assumes "b \<noteq> []"
  shows "move_selection True [length a..<length a + length b] (a @ b @ y # c) =
      Some (a @ y # b @ c, Suc (length a), length b) \<and>
    move_selection False [Suc (length a)..<Suc (length a) + length b] (a @ y # b @ c) =
      Some (a @ b @ y # c, length a, length b)"
proof
  let ?sel = "[length a..<length a + length b]"
  have sel: "sort ?sel = ?sel" "?sel \<noteq> []" "hd ?sel = length a" "last ?sel = length a + length b - 1"
    using assms by (simp_all add: sorted_sort_id)
  have split: "split_sel 0 ?sel (a @ b @ y # c) = (b, a @ y # c)" by (rule split_sel_block)
  have inner: "int (length a + length b - Suc 0) \<noteq> int (length a) + (int (length b) + int (length c))"
    using assms by (cases b) simp_all
  have "nat (clamp (int (length a) + 1) 0 (int (length (a @ y # c)))) = length (a @ [y])"
    by (simp add: clamp_def)
  then show "move_selection True ?sel (a @ b @ y # c) = Some (a @ y # b @ c, Suc (length a), length b)"
    using sel split insert_at_append_same [of "a @ [y]" b c] inner
    by (simp add: move_selection_def Let_def)
next
  let ?sel = "[Suc (length a)..<Suc (length a) + length b]"
  have sel: "sort ?sel = ?sel" "?sel \<noteq> []" "hd ?sel = Suc (length a)"
    using assms by (simp_all add: sorted_sort_id del: upt_Suc)
  have split: "split_sel 0 ?sel (a @ y # b @ c) = (b, a @ y # c)"
    using split_sel_block [of "a @ [y]" b c] by (simp del: upt_Suc)
  have "nat (clamp (int (Suc (length a)) - 1) 0 (int (length (a @ y # c)))) = length a"
    by (simp add: clamp_def)
  then show "move_selection False ?sel (a @ y # b @ c) = Some (a @ b @ y # c, length a, length b)"
    using sel split insert_at_append_same [of a b "y # c"]
    by (simp add: move_selection_def Let_def del: upt_Suc)
qed

lemma move_selection_mset:
  "move_selection down sel xs = Some (ys, p, n) \<Longrightarrow> mset ys = mset xs"
  using split_sel_mset [of 0 "sort sel" xs]
  by (auto simp: move_selection_def Let_def mset_insert_at split: if_splits prod.splits)

section \<open>The document as the player's partner\<close>

text \<open>
  \<open>OpenSlideShowCurrent\<close> passes a fresh local file system for the custom list and none for the
  current folder, no command, no scan, and the hint 1.
\<close>

definition doc_ops :: "('h, 'w, 'f, 'img) env \<Rightarrow> 'h \<Rightarrow> (('h, 'w, 'img) doc \<Rightarrow> nat \<Rightarrow> nat) \<Rightarrow>
    ('h, 'w, 'img) doc slide_ops" where
  "doc_ops E localfs rnd =
     \<lparr>so_open = (\<lambda>custom p d.
        case doc_open E (if custom then Some localfs else None) p (-1) False (Some 1) d of
          (r, d') \<Rightarrow> (r = IM_OK, d')),
      so_path = dpath, so_dir = ddir, so_names = (\<lambda>d. map (wstr_to_utf8 (w2u E)) (dirfiles d)),
      so_idx = diridx, so_rand = rnd\<rparr>"

lemma start_cases:
  "\<not> ss_active (StartSlideShow ops m v opts s) \<or>
   (\<exists>s4. StartSlideShow ops m v opts s =
      (case OpenSlideShowCurrent ops s4 of (True, s5) \<Rightarrow> ResetSlideShowTimer s5
       | (False, s5) \<Rightarrow> AdvanceSlideShow ops s5) \<and> ss_files s4 \<noteq> [])"
proof (cases "ss_files (BuildSlideShowFiles ops ((StopSlideShow s)\<lparr>ss_opts := opts\<rparr>)) = []")
  case True
  then show ?thesis by (simp add: StartSlideShow_def Let_def)
next
  case False
  show ?thesis
    unfolding StartSlideShow_def Let_def if_not_P [OF False]
    by (intro disjI2 exI, rule conjI, rule refl) (use False in simp)
qed

text \<open>What the player relies on: a successful open leaves something shown.\<close>

locale slide_player =
  fixes ops :: "'d slide_ops" and displayed :: "'d \<Rightarrow> bool"
  assumes open_shows: "so_open ops c p d = (True, d') \<Longrightarrow> displayed d'"
begin

lemma current_shows:
  "OpenSlideShowCurrent ops s = (True, s') \<Longrightarrow> displayed (ss_doc s')"
  by (auto simp: OpenSlideShowCurrent_def split: if_splits prod.splits dest!: open_shows)

lemma loop_shows:
  "ss_active (advance_loop ops n s) \<Longrightarrow> displayed (ss_doc (advance_loop ops n s))"
proof (induction n arbitrary: s)
  case (Suc n)
  obtain go s1 where st: "StepSlideShowIndex ops s = (go, s1)" by fastforce
  obtain ok s2 where op: "OpenSlideShowCurrent ops s1 = (ok, s2)" by fastforce
  show ?case
    using Suc st op step_files [OF st] current_shows
    by (cases go; cases ok) (auto simp: ResetSlideShowTimer_def)
qed simp

lemma tick_shows:
  assumes "ss_active s" "ss_files s \<noteq> []" "ss_active (AdvanceSlideShow ops s)"
  shows "displayed (ss_doc (AdvanceSlideShow ops s))"
  using assms loop_shows by (simp add: AdvanceSlideShow_def)

lemma start_shows:
  assumes "ss_active (StartSlideShow ops m v opts s)"
  shows "displayed (ss_doc (StartSlideShow ops m v opts s))"
proof -
  from start_cases [of ops m v opts s] assms obtain s4 where
    st: "StartSlideShow ops m v opts s =
      (case OpenSlideShowCurrent ops s4 of (True, s5) \<Rightarrow> ResetSlideShowTimer s5
       | (False, s5) \<Rightarrow> AdvanceSlideShow ops s5)" "ss_files s4 \<noteq> []" by blast
  obtain ok s5 where op: "OpenSlideShowCurrent ops s4 = (ok, s5)" by fastforce
  show ?thesis
  proof (cases ok)
    case True
    then show ?thesis using st op current_shows [of s4 s5] by (simp add: ResetSlideShowTimer_def)
  next
    case False
    then have a: "ss_active (AdvanceSlideShow ops s5)" using st(1) op assms by simp
    then have "ss_active s5" by (auto simp: AdvanceSlideShow_def split: if_splits)
    then show ?thesis using tick_shows [of s5] a st op False open_files [OF op] by simp
  qed
qed

end

text \<open>A codec that fails returns an error code.\<close>

definition codec_honest :: "('h, 'w, 'f, 'img) env \<Rightarrow> bool" where
  "codec_honest E \<longleftrightarrow> (\<forall>c \<in> set (codecs E). \<forall>f w. fst (decode c f w) \<noteq> Inl IM_OK)"

lemma try_codecs_honest:
  "try_codecs E ext cs res f w = (Inl r, f', w') \<Longrightarrow> res \<noteq> IM_OK \<Longrightarrow>
    \<forall>c \<in> set cs. \<forall>f w. fst (decode c f w) \<noteq> Inl IM_OK \<Longrightarrow> r \<noteq> IM_OK"
proof (induction E ext cs res f w rule: try_codecs.induct)
  case (2 E ext c cs res f w)
  obtain f1 w1 where rw: "rewind E f w = (f1, w1)" by fastforce
  obtain q f2 w2 where d: "decode c f1 w1 = (q, f2, w2)" using prod_cases3 by blast
  have "q \<noteq> Inl IM_OK" using 2(5) d by (metis fst_conv list.set_intros(1))
  then show ?case using 2 rw d by (auto split: if_splits sum.splits)
qed simp

lemma open_decode_honest:
  assumes "codec_honest E" and "open_decode E ext f w = (Inl r, w')"
  shows "r \<noteq> IM_OK"
proof -
  have h: "\<forall>c \<in> set (codecs E). \<forall>f w. fst (decode c f w) \<noteq> Inl IM_OK"
    using assms(1) by (simp add: codec_honest_def)
  define f0 where "f0 = (if isZDataExt ext then wrap_zdata E f else f)"
  obtain q f1 w1 where t1: "try_codecs E ext (codecs E) IM_NOT_SUPPORTED f0 w = (q, f1, w1)"
    using prod_cases3 by blast
  have q: "res \<noteq> IM_OK" if "q = Inl res" for res
    using try_codecs_honest [OF t1 [unfolded that] _ h] by simp
  obtain e f2 w2 where sn: "sniff E f1 w1 = (e, f2, w2)" using prod_cases3 by blast
  show ?thesis
  proof (cases q)
    case (Inl res)
    obtain q2 f3 w3 where t2: "try_codecs E e (codecs E) res f2 w2 = (q2, f3, w3)"
      using prod_cases3 by blast
    have "q2 \<noteq> Inl IM_OK" using try_codecs_honest [OF _ q [OF Inl] h] t2 by blast
    then show ?thesis
      using assms(2) t1 t2 sn q [OF Inl] Inl
      by (auto simp: open_decode_def Let_def f0_def [symmetric] split: if_splits)
  next
    case (Inr img)
    then show ?thesis using assms(2) t1 by (simp add: open_decode_def Let_def f0_def [symmetric])
  qed
qed

lemma step1_code:
  "open_step1 E h p hint d = Inl (r, d') \<Longrightarrow> r \<noteq> IM_OK"
  by (auto simp: open_step1_def open_fallback_def open_neighbour_def Let_def
      split: sum.splits prod.splits option.splits if_splits)

lemma doc_open_displays:
  assumes "codec_honest E" and "doc_open E fs p cmdid False hint d = (IM_OK, d')"
  shows "image d' \<noteq> None"
proof -
  obtain h where h: "(case fs of None \<Rightarrow> unifs d | Some h \<Rightarrow> Some h) = Some h"
    using assms(2) by (cases "case fs of None \<Rightarrow> unifs d | Some h \<Rightarrow> Some h") (auto simp: doc_open_rest)
  obtain o1 d1 where s1: "open_step1 E h p hint d = Inr (o1, d1)"
    using assms(2) h step1_code [of E h p hint d]
    by (cases "open_step1 E h p hint d") (auto simp: doc_open_rest)
  obtain uf sc rt old tw tf where o1: "o1 = (uf, sc, rt, old, tw, tf)" by (cases o1) auto
  have r: "open_rest E h p cmdid False (ddir d) (diridx d) o1 d1 = (IM_OK, d')"
    using assms(2) h s1 by (simp add: doc_open_rest)
  then show ?thesis
    by (auto simp: open_rest_def o1 Let_def open_rescan_def open_finish_def open_show_def
        dest: open_decode_honest [OF assms(1)] split: prod.splits sum.splits if_splits)
qed

interpretation doc_player: slide_player "doc_ops E localfs rnd"
    "\<lambda>d. codec_honest E \<longrightarrow> image d \<noteq> None" for E localfs rnd
  by unfold_locales (auto simp: doc_ops_def dest: doc_open_displays split: prod.splits)

text \<open>
  With the real document behind the player: whenever a show is active after it was started
  or after a tick of its timer, the document holds an image; a file that fails is skipped, never
  left on an empty screen.
\<close>

theorem show_displays_image:
  assumes "codec_honest E" and "ops = doc_ops E localfs rnd"
    and "s' = StartSlideShow ops m v opts s \<or>
      (s' = AdvanceSlideShow ops s \<and> ss_active s \<and> ss_files s \<noteq> [])"
    and "ss_active s'"
  shows "image (ss_doc s') \<noteq> None"
  using assms(1,3,4) doc_player.start_shows [of E localfs rnd m v opts s]
    doc_player.tick_shows [of s E localfs rnd]
  unfolding assms(2) by blast

definition ex_slide :: "(unit, unit, string) doc slide" where
  "ex_slide = \<lparr>ss_doc = ex_doc, ss_active = False, ss_fullscreen = False, ss_opening = False,
     ss_timer = None, ss_opts = default_options, ss_files = [], ss_index = 0, ss_round = 0,
     ss_frame = demo_frame, ss_saved = demo_frame, ss_zoom = []\<rparr>"

definition ex_started :: "(unit, unit, string) doc slide" where
  "ex_started = StartSlideShow (doc_ops ex_env () (\<lambda>d k. k)) (mk_rect 0 0 1920 1080) True
     default_options ex_slide"

lemma ex_honest: "codec_honest ex_env"
  by (simp add: codec_honest_def ex_env_def)

theorem show_displays_image_witness:
  "ss_active ex_started \<and> image (ss_doc ex_started) \<noteq> None"
proof
  show a: "ss_active ex_started" by code_simp
  show "image (ss_doc ex_started) \<noteq> None"
    by (rule show_displays_image [OF ex_honest refl _ a, of "()" "\<lambda>d k. k" "mk_rect 0 0 1920 1080" True
          default_options ex_slide]) (simp add: ex_started_def)
qed

text \<open>
  A custom show opens its files through the local file system without scanning their folder:
  the document then holds the new file system with the folder and the list of the old one, and
  the next navigation looks for a file of the old folder in the new file system.
\<close>

lemma custom_show_mixes_folders:
  assumes "openfile E localfs p ''rb'' (world d) = (Some f, w1)"
    and "open_decode E (getExt p) f w1 = (Inr img, w2)"
    and "so_open (doc_ops E localfs rnd) True p d = (ok, d')"
  shows "ok \<and> unifs d' = Some localfs \<and> ddir d' = ddir d \<and> dirfiles d' = dirfiles d"
proof -
  obtain r where o: "doc_open E (Some localfs) p (-1) False (Some 1) d = (r, d')" "ok = (r = IM_OK)"
    using assms(3) by (auto simp: doc_ops_def split: prod.splits)
  from open_no_scan [OF _ assms(1,2) o(1)] o(2) show ?thesis by (simp add: shown_def)
qed

section \<open>More witnesses\<close>

theorem move_block_witness:
  "move_selection True [1..<3] [''a'', ''b'', ''c'', ''d''] = Some ([''a'', ''d'', ''b'', ''c''], 2, 2)"
  using move_block [of "[''b'', ''c'']" "[''a'']" "''d''" "[]"] by (simp add: upt_rec numeral_2_eq_2)

theorem build_covers_folder_witness:
  "ss_files (BuildSlideShowFiles log_ops demo_slide) ! 0 = ''/b''"
proof -
  have "dir_path log_ops (ss_doc demo_slide) (so_names log_ops (ss_doc demo_slide) ! 1) = ''/b''"
    by (simp add: dir_path_def log_ops_def)
  then show ?thesis
    using build_covers_folder [of demo_slide log_ops 1] 
    by (simp add: demo_slide_def default_options_def log_ops_def)
qed

theorem unreadable_show_stops_witness:
  "ss_active demo_started \<and>
   \<not> ss_active (AdvanceSlideShow (log_ops\<lparr>so_open := \<lambda>c p d. (False, d)\<rparr>) demo_started)"
proof
  show a: "ss_active demo_started" by code_simp
  have f: "ss_files demo_started \<noteq> []" by code_simp
  show "\<not> ss_active (AdvanceSlideShow (log_ops\<lparr>so_open := \<lambda>c p d. (False, d)\<rparr>) demo_started)"
    using unreadable_show_stops [OF _ f a, of "log_ops\<lparr>so_open := \<lambda>c p d. (False, d)\<rparr>"] by simp
qed

end
