(* ===== verification/Main_View.thy ===== *)
theory Main_View
  imports Geometry
begin

text \<open>
  obZrv/MainView.cpp: the area between tool bar and status bar, with the file list, the splitter
  strip and the image view side by side, and the dragging of the splitter.  Client size and
  cursor are arguments; capture, cursor shape and painting are Windows calls.
\<close>

section \<open>State\<close>

record main_view =
  showFileList :: bool
  splitX :: int
  mv_dragging :: bool
  dragStartX :: int
  dragStartSplitX :: int
  splitHover :: bool
  trackingLeave :: bool

definition splitW :: "int \<Rightarrow> int" where "splitW d = dpi_scale d 6"
definition splitMin :: "int \<Rightarrow> int" where "splitMin d = dpi_scale d 80"
definition splitMax :: "int \<Rightarrow> int" where "splitMax d = dpi_scale d 600"

text \<open>The constructor, and what \<open>Create\<close> sets.\<close>

definition main_view_new :: main_view where
  "main_view_new = \<lparr>showFileList = True, splitX = 150, mv_dragging = False, dragStartX = 0,
     dragStartSplitX = 0, splitHover = False, trackingLeave = False\<rparr>"

definition mv_Create :: "int \<Rightarrow> main_view \<Rightarrow> main_view" where
  "mv_Create d v = v\<lparr>showFileList := True, splitX := dpi_scale d 150, mv_dragging := False\<rparr>"

section \<open>Layout\<close>

text \<open>Where the list and the image view are put, and the strip that is repainted.\<close>

record mv_layout =
  l_list :: "rect option"
  l_view :: "rect option"
  l_dirty :: "rect option"

definition UpdateLayout :: "int \<Rightarrow> bool \<Rightarrow> bool \<Rightarrow> sz \<Rightarrow> main_view \<Rightarrow> mv_layout" where
  "UpdateLayout d has_list has_view ws v =
     (let w = fst ws; h = snd ws;
          both = showFileList v \<and> has_list;
          contentX = (if both then splitX v + splitW d else 0);
          contentW = (if w - contentX < 0 then 0 else w - contentX) in
      \<lparr>l_list = (if both then Some (mk_rect 0 0 (splitX v) h) else None),
       l_view = (if has_view then Some (mk_rect contentX 0 (contentX + contentW) h) else None),
       l_dirty = (if showFileList v then Some (mk_rect (splitX v) 0 contentX h) else None)\<rparr>)"

definition ShowFileList :: "bool \<Rightarrow> main_view \<Rightarrow> main_view" where
  "ShowFileList s v = v\<lparr>showFileList := s\<rparr>"

text \<open>\<open>OnEraseBkgnd\<close>: the strip with its highlight, and the rest.\<close>

definition OnEraseBkgnd :: "int \<Rightarrow> sz \<Rightarrow> main_view \<Rightarrow> (rect \<times> bool) option \<times> rect" where
  "OnEraseBkgnd d ws v =
     (if showFileList v then
        (Some (mk_rect (splitX v) 0 (splitX v + splitW d) (snd ws), splitHover v),
         mk_rect (splitX v + splitW d) 0 (fst ws) (snd ws))
      else (None, mk_rect 0 0 (fst ws) (snd ws)))"

section \<open>Mouse\<close>

definition IsOnSplitter :: "int \<Rightarrow> int \<Rightarrow> main_view \<Rightarrow> bool" where
  "IsOnSplitter d x v \<longleftrightarrow> showFileList v \<and> x \<ge> splitX v \<and> x < splitX v + splitW d"

definition mv_LButtonDown :: "int \<Rightarrow> int \<Rightarrow> main_view \<Rightarrow> main_view" where
  "mv_LButtonDown d x v =
     (if \<not> IsOnSplitter d x v then v
      else v\<lparr>mv_dragging := True, dragStartX := x, dragStartSplitX := splitX v\<rparr>)"

definition new_split :: "int \<Rightarrow> int \<Rightarrow> int \<Rightarrow> main_view \<Rightarrow> int" where
  "new_split d w x v =
     (let n = dragStartSplitX v + (x - dragStartX v);
          m0 = (if showFileList v then w - splitW d - 50 else splitMax d);
          m = (if m0 > splitMax d then splitMax d else m0);
          n1 = (if n < splitMin d then splitMin d else n)
      in (if n1 > m then m else n1))"

definition mv_MouseMove :: "int \<Rightarrow> int \<Rightarrow> int \<Rightarrow> main_view \<Rightarrow> main_view" where
  "mv_MouseMove d w x v =
     (let onSplit = IsOnSplitter d x v;
          v1 = (if onSplit \<noteq> splitHover v then v\<lparr>splitHover := onSplit\<rparr> else v);
          v2 = (if \<not> trackingLeave v1 then v1\<lparr>trackingLeave := True\<rparr> else v1) in
      if \<not> mv_dragging v2 then v2
      else (let n = new_split d w x v2 in if n \<noteq> splitX v2 then v2\<lparr>splitX := n\<rparr> else v2))"

definition mv_MouseLeave :: "main_view \<Rightarrow> main_view" where
  "mv_MouseLeave v =
     (let v1 = v\<lparr>trackingLeave := False\<rparr> in if splitHover v1 then v1\<lparr>splitHover := False\<rparr> else v1)"

definition mv_LButtonUp :: "int \<Rightarrow> sz \<Rightarrow> pt \<Rightarrow> main_view \<Rightarrow> main_view" where
  "mv_LButtonUp d ws p v =
     (if mv_dragging v then
        let v1 = v\<lparr>mv_dragging := False\<rparr>;
            onSplit = IsOnSplitter d (fst p) v1;
            v2 = (if onSplit \<noteq> splitHover v1 then v1\<lparr>splitHover := onSplit\<rparr> else v1)
        in (if \<not> trackingLeave v2 \<and> pt_in_rect (mk_rect 0 0 (fst ws) (snd ws)) p
            then v2\<lparr>trackingLeave := True\<rparr> else v2)
      else v)"

definition OnSetCursor :: "int \<Rightarrow> bool \<Rightarrow> int \<Rightarrow> main_view \<Rightarrow> bool" where
  "OnSetCursor d over_self x v \<longleftrightarrow> over_self \<and> IsOnSplitter d x v"

section \<open>The splitter stays in its range\<close>

inductive mv_step :: "int \<Rightarrow> main_view \<Rightarrow> main_view \<Rightarrow> bool" for d :: int where
  shown: "mv_step d v (ShowFileList s v)"
| down: "mv_step d v (mv_LButtonDown d x v)"
| move: "splitMin d + splitW d + 50 \<le> w \<Longrightarrow> mv_step d v (mv_MouseMove d w x v)"
| leave: "mv_step d v (mv_MouseLeave v)"
| up: "mv_step d v (mv_LButtonUp d ws p v)"

lemma dpi_scale_mono: "0 < d \<Longrightarrow> 0 \<le> a \<Longrightarrow> a \<le> b \<Longrightarrow> dpi_scale d a \<le> dpi_scale d b"
  by (simp add: dpi_scale_def sdiv_div zdiv_mono1)

lemma split_range: "0 < d \<Longrightarrow> splitMin d \<le> dpi_scale d 150 \<and> dpi_scale d 150 \<le> splitMax d"
  by (simp add: splitMin_def splitMax_def dpi_scale_mono)

definition split_ok :: "int \<Rightarrow> main_view \<Rightarrow> bool" where
  "split_ok d v \<longleftrightarrow> splitMin d \<le> splitX v \<and> splitX v \<le> splitMax d"

lemma new_split_ok:
  assumes "0 < d" "splitMin d + splitW d + 50 \<le> w"
  shows "splitMin d \<le> new_split d w x v \<and> new_split d w x v \<le> splitMax d"
  using assms split_range [of d] by (auto simp: new_split_def Let_def)

lemma mv_step_ok: "mv_step d v v' \<Longrightarrow> 0 < d \<Longrightarrow> split_ok d v \<Longrightarrow> split_ok d v'"
proof (induction rule: mv_step.induct)
  case (move w v x)
  have "splitX (mv_MouseMove d w x v) = splitX v \<or>
      (\<exists>u. splitX (mv_MouseMove d w x v) = new_split d w x u)"
    by (auto simp: mv_MouseMove_def Let_def)
  then show ?case using new_split_ok [OF move(2,1), of x] move(3) unfolding split_ok_def by metis
qed (auto simp: split_ok_def ShowFileList_def mv_LButtonDown_def mv_MouseLeave_def mv_LButtonUp_def Let_def)

text \<open>
  However the splitter is dragged, in windows wide enough for it, the list keeps a width
  between its minimum and maximum, and list, strip and view cover the client area side by side
  without overlap.
\<close>

theorem layout_side_by_side:
  assumes "(mv_step d)\<^sup>*\<^sup>* (mv_Create d main_view_new) v" and "0 < d"
    and "splitX v + splitW d \<le> fst ws" and "showFileList v"
  shows "splitMin d \<le> splitX v \<and> splitX v \<le> splitMax d \<and>
    UpdateLayout d True True ws v =
      \<lparr>l_list = Some (mk_rect 0 0 (splitX v) (snd ws)),
       l_view = Some (mk_rect (splitX v + splitW d) 0 (fst ws) (snd ws)),
       l_dirty = Some (mk_rect (splitX v) 0 (splitX v + splitW d) (snd ws))\<rparr>"
proof -
  have "split_ok d (mv_Create d main_view_new)"
    using split_range [OF assms(2)] by (simp add: split_ok_def mv_Create_def)
  with assms(1) have "split_ok d v"
    by (induction rule: rtranclp_induct) (auto intro: mv_step_ok assms(2))
  then show ?thesis using assms(3,4) by (simp add: split_ok_def UpdateLayout_def Let_def)
qed

definition mv_dragged :: main_view where
  "mv_dragged = mv_MouseMove 96 800 420 (mv_LButtonDown 96 152 (mv_Create 96 main_view_new))"

theorem layout_side_by_side_witness:
  "splitX mv_dragged = 418 \<and>
   l_view (UpdateLayout 96 True True (800, 500) mv_dragged) = Some (mk_rect 424 0 800 500)"
proof -
  have s: "splitX mv_dragged = 418" "showFileList mv_dragged" "splitW 96 = 6" by code_simp+
  have "splitMin 96 + splitW 96 + 50 \<le> (800 :: int)" by code_simp
  then have "(mv_step 96)\<^sup>*\<^sup>* (mv_Create 96 main_view_new) mv_dragged"
    unfolding mv_dragged_def by (meson mv_step.down mv_step.move rtranclp.intros)
  from layout_side_by_side [OF this, of "(800, 500)"] s show ?thesis by simp
qed

text \<open>In a narrower window the upper limit wins over the lower one, and the list can vanish.\<close>

lemma narrow_split_negative:
  assumes "showFileList v" "mv_dragging v" "w < splitW d + 50" "w - splitW d - 50 \<le> splitMax d"
    "0 \<le> splitMin d"
  shows "splitX (mv_MouseMove d w x v) < 0"
proof -
  have "new_split d w x u = w - splitW d - 50" if "showFileList u" for u
    using assms(3-5) that by (auto simp: new_split_def Let_def)
  then show ?thesis using assms(1-3) by (auto simp: mv_MouseMove_def Let_def)
qed

text \<open>Releasing the button outside the strip clears the highlight.\<close>

lemma release_hover:
  "mv_dragging v \<Longrightarrow> splitHover (mv_LButtonUp d ws p v) = IsOnSplitter d (fst p) v"
  by (auto simp: mv_LButtonUp_def Let_def IsOnSplitter_def)

end
