(* ===== verification/Connect_Dlg.thy ===== *)
theory Connect_Dlg
  imports Doc
begin

text \<open>
  obZrv/ConnectDlg.cpp: the dialog that connects to a server and browses its directories.  The
  server is a parameter: connecting (\<open>RemoteFs::open\<close>) and listing a directory on a client \<open>'h\<close>
  in the world \<open>'w\<close>.  Controls are modelled by what they enable; texts for the address history
  are recorded (\<open>Settings\<close> stores them).
\<close>

section \<open>State\<close>

record ('h, 'w) conn_env =
  ce_connect :: "string \<Rightarrow> u16 \<Rightarrow> 'w \<Rightarrow> 'h option \<times> 'w"
  ce_readdir :: "'h \<Rightarrow> string \<Rightarrow> 'w \<Rightarrow> dir_entry list option \<times> 'w"
  ce_types :: "string list"
  ce_cmp :: "wstr \<Rightarrow> wstr \<Rightarrow> int"
  ce_u2w :: "string \<Rightarrow> wstr option"
  ce_w2u :: "wstr \<Rightarrow> string option"

datatype dlg_msg = AddressRequired | PortRange | CannotConnect | CannotOpenDir

record ('h, 'w) conn_dlg =
  c_host :: string
  c_port :: u16
  c_client :: "'h option"
  c_cwd :: string
  c_result :: string
  c_entries :: "(string \<times> bool) list"
  c_browser :: bool
  c_up :: bool
  c_ok :: bool
  c_closed :: bool
  c_msgs :: "dlg_msg list"
  c_saved :: "wstr list"
  c_world :: 'w

definition DirFromPath :: "string \<Rightarrow> string" where
  "DirFromPath path =
     (if path = [] then ''/''
      else case strrchr path (CHR ''/'') of None \<Rightarrow> ''/''
        | Some (a, b) \<Rightarrow> if a = [] then ''/'' else a)"

definition SetBrowserEnabled :: "bool \<Rightarrow> ('h, 'w) conn_dlg \<Rightarrow> ('h, 'w) conn_dlg" where
  "SetBrowserEnabled enabled s =
     (let s1 = s\<lparr>c_browser := enabled, c_up := enabled \<and> c_cwd s \<noteq> ''/'', c_ok := False\<rparr>
      in if \<not> enabled then s1\<lparr>c_entries := []\<rparr> else s1)"

section \<open>Browsing\<close>

text \<open>Which entries are listed: directories, and names with a supported extension.\<close>

definition browse_entries :: "('h, 'w) conn_env \<Rightarrow> dir_entry list \<Rightarrow> (string \<times> bool) list" where
  "browse_entries C ents =
     map (\<lambda>e. (de_name e, de_type e = DE_DIR))
       (filter (\<lambda>e. de_name e \<noteq> ''.'' \<and> de_name e \<noteq> ''..'' \<and>
          (de_type e = DE_DIR \<or>
           (getExt (de_name e) \<noteq> [] \<and> isSupportedExt (ce_types C) (getExt (de_name e))))) ents)"

definition entry_less :: "('h, 'w) conn_env \<Rightarrow> string \<times> bool \<Rightarrow> string \<times> bool \<Rightarrow> bool" where
  "entry_less C a b =
     (if snd a \<noteq> snd b then snd a
      else ce_cmp C (utf8_to_wstr (ce_u2w C) (fst a)) (utf8_to_wstr (ce_u2w C) (fst b)) < 0)"

text \<open>\<open>std::sort\<close>, here stable.\<close>

fun entry_insert :: "('h, 'w) conn_env \<Rightarrow> string \<times> bool \<Rightarrow> (string \<times> bool) list \<Rightarrow>
    (string \<times> bool) list" where
  "entry_insert C x [] = [x]"
| "entry_insert C x (y # ys) =
     (if entry_less C y x then y # entry_insert C x ys else x # y # ys)"

definition entry_sort :: "('h, 'w) conn_env \<Rightarrow> (string \<times> bool) list \<Rightarrow> (string \<times> bool) list" where
  "entry_sort C xs = foldr (entry_insert C) xs []"

definition dlg_Navigate :: "('h, 'w) conn_env \<Rightarrow> string \<Rightarrow> ('h, 'w) conn_dlg \<Rightarrow> ('h, 'w) conn_dlg" where
  "dlg_Navigate C dir s =
     (case c_client s of None \<Rightarrow> SetBrowserEnabled False s
      | Some h \<Rightarrow>
        (case ce_readdir C h dir (c_world s) of (iter, w) \<Rightarrow>
         let s1 = s\<lparr>c_world := w\<rparr> in
         (case iter of None \<Rightarrow> s1\<lparr>c_msgs := c_msgs s1 @ [CannotOpenDir]\<rparr>
          | Some ents \<Rightarrow>
            SetBrowserEnabled True
              (s1\<lparr>c_cwd := dir, c_entries := entry_sort C (browse_entries C ents)\<rparr>))))"

definition PopulateList :: "('h, 'w) conn_env \<Rightarrow> ('h, 'w) conn_dlg \<Rightarrow> wstr list" where
  "PopulateList C s =
     map (\<lambda>e. utf8_to_wstr (ce_u2w C) (if snd e then ''['' @ fst e @ '']'' else fst e)) (c_entries s)"

definition join_path :: "string \<Rightarrow> string \<Rightarrow> string" where
  "join_path cwd n = (if cwd = ''/'' then ''/'' @ n else cwd @ ''/'' @ n)"

definition TryOpenSelected :: "('h, 'w) conn_env \<Rightarrow> int \<Rightarrow> ('h, 'w) conn_dlg \<Rightarrow> ('h, 'w) conn_dlg" where
  "TryOpenSelected C sel s =
     (if sel < 0 \<or> sel \<ge> int (length (c_entries s)) then s
      else
      let e = c_entries s ! nat sel in
      if snd e then dlg_Navigate C (join_path (c_cwd s) (fst e)) s
      else s\<lparr>c_result := join_path (c_cwd s) (fst e), c_closed := True\<rparr>)"

text \<open>The up button; \<open>rfind\<close> is on a path that holds a slash.\<close>

definition onUp :: "('h, 'w) conn_env \<Rightarrow> ('h, 'w) conn_dlg \<Rightarrow> ('h, 'w) conn_dlg" where
  "onUp C s =
     (if c_cwd s = ''/'' then s
      else dlg_Navigate C (case strrchr (c_cwd s) (CHR ''/'') of
          None \<Rightarrow> c_cwd s
        | Some (a, b) \<Rightarrow> if a = [] then ''/'' else a) s)"

definition onSelChange :: "int \<Rightarrow> ('h, 'w) conn_dlg \<Rightarrow> ('h, 'w) conn_dlg" where
  "onSelChange sel s =
     s\<lparr>c_ok := sel \<ge> 0 \<and> sel < int (length (c_entries s)) \<and> \<not> snd (c_entries s ! nat sel)\<rparr>"

section \<open>Connecting\<close>

definition cisspace :: "char \<Rightarrow> bool" where
  "cisspace c \<longleftrightarrow> c = CHR '' '' \<or> (CHR 0x09 \<le> c \<and> c \<le> CHR 0x0D)"

definition cisdigit :: "char \<Rightarrow> bool" where
  "cisdigit c \<longleftrightarrow> CHR ''0'' \<le> c \<and> c \<le> CHR ''9''"

text \<open>\<open>std::stoi\<close>; \<open>None\<close> where it throws.\<close>

definition stoi :: "string \<Rightarrow> int option" where
  "stoi s =
     (let t = dropWhile cisspace s;
          neg = (t \<noteq> [] \<and> hd t = CHR ''-'');
          r = (if t \<noteq> [] \<and> (hd t = CHR ''-'' \<or> hd t = CHR ''+'') then tl t else t);
          ds = takeWhile cisdigit r;
          v = foldl (\<lambda>a c. a * 10 + (of_char c - 48)) 0 ds;
          n = (if neg then - v else v)
      in if ds = [] then None
         else if n < - (2 ^ 31) \<or> n \<ge> 2 ^ 31 then None else Some n)"

definition ConnectFromInput :: "('h, 'w) conn_env \<Rightarrow> wstr \<Rightarrow> ('h, 'w) conn_dlg \<Rightarrow> ('h, 'w) conn_dlg" where
  "ConnectFromInput C wbuf s =
     (let str = wstr_to_utf8 (ce_w2u C) (take 299 wbuf) in
      case strrchr str (CHR '':'') of
        None \<Rightarrow> s\<lparr>c_msgs := c_msgs s @ [AddressRequired]\<rparr>
      | Some (hst, prt) \<Rightarrow>
        if hst = [] then s\<lparr>c_msgs := c_msgs s @ [AddressRequired]\<rparr>
        else
        let p = (case stoi prt of None \<Rightarrow> 0 | Some n \<Rightarrow> n) in
        if p \<le> 0 \<or> p > 65535 then s\<lparr>c_msgs := c_msgs s @ [PortRange]\<rparr>
        else
        (case ce_connect C hst (word_of_int p) (c_world s) of (client, w) \<Rightarrow>
         let s1 = s\<lparr>c_world := w\<rparr> in
         (case client of None \<Rightarrow> s1\<lparr>c_msgs := c_msgs s1 @ [CannotConnect]\<rparr>
          | Some h \<Rightarrow>
            dlg_Navigate C ''/'' (SetBrowserEnabled False
              (s1\<lparr>c_host := hst, c_port := word_of_int p, c_client := Some h, c_result := [],
                 c_saved := c_saved s1 @ [utf8_to_wstr (ce_u2w C) str]\<rparr>)))))"

text \<open>
  \<open>DoModal\<close>: the state before the dialog opens (\<open>existing\<close> is the client with its host and
  port when the document is on a remote file system), and what is returned after it.
\<close>

definition dlg_start :: "('h \<times> string \<times> u16) option \<Rightarrow> string option \<Rightarrow> 'w \<Rightarrow> ('h, 'w) conn_dlg" where
  "dlg_start existing initialPath w =
     (let s = \<lparr>c_host = [], c_port = 0, c_client = None, c_cwd = ''/'', c_result = [],
                c_entries = [], c_browser = False, c_up = False, c_ok = False, c_closed = False,
                c_msgs = [], c_saved = [], c_world = w\<rparr> in
      case (existing, initialPath) of
        (Some (h, hst, prt), Some p) \<Rightarrow>
          if p \<noteq> [] then s\<lparr>c_client := Some h, c_host := hst, c_port := prt, c_cwd := DirFromPath p\<rparr>
          else s
      | _ \<Rightarrow> s)"

definition dlg_init :: "('h, 'w) conn_env \<Rightarrow> ('h, 'w) conn_dlg \<Rightarrow> ('h, 'w) conn_dlg" where
  "dlg_init C s = (if c_client s \<noteq> None then dlg_Navigate C (c_cwd s) s else SetBrowserEnabled False s)"

definition dlg_result :: "('h, 'w) conn_dlg \<Rightarrow> (string \<times> u16 \<times> string \<times> 'h) option" where
  "dlg_result s = (case c_client s of None \<Rightarrow> None
     | Some h \<Rightarrow> if c_result s = [] then None else Some (c_host s, c_port s, c_result s, h))"

text \<open>\<open>std::to_string\<close>, and the address shown when the dialog opens on a remote document.\<close>

fun to_string :: "nat \<Rightarrow> string" where
  "to_string n = (if n < 10 then [char_of (48 + n)] else to_string (n div 10) @ [char_of (48 + n mod 10)])"

declare to_string.simps [simp del]

definition address_text :: "('h, 'w) conn_env \<Rightarrow> ('h, 'w) conn_dlg \<Rightarrow> wstr" where
  "address_text C s = utf8_to_wstr (ce_u2w C) (c_host s @ '':'' @ to_string (unat (c_port s)))"

section \<open>Browsing lemmas\<close>

definition dirs_first :: "(string \<times> bool) list \<Rightarrow> bool" where
  "dirs_first es \<longleftrightarrow> sorted_wrt (\<lambda>a b. snd b \<longrightarrow> snd a) es"

lemma entry_insert_set [simp]: "set (entry_insert C x ys) = insert x (set ys)"
  by (induction ys) auto

lemma entry_sort_set [simp]: "set (entry_sort C xs) = set xs"
  by (induction xs) (simp_all add: entry_sort_def)

lemma entry_insert_dirs: "dirs_first ys \<Longrightarrow> dirs_first (entry_insert C x ys)"
  by (induction ys) (auto simp: dirs_first_def entry_less_def split: if_splits)

lemma entry_sort_dirs: "dirs_first (entry_sort C xs)"
  by (induction xs) (simp_all add: entry_sort_def entry_insert_dirs, simp add: dirs_first_def)

definition image_name :: "('h, 'w) conn_env \<Rightarrow> string \<Rightarrow> bool" where
  "image_name C n \<longleftrightarrow> getExt n \<noteq> [] \<and> isSupportedExt (ce_types C) (getExt n)"

text \<open>
  The list is what a reading of the directory shown gave on the client at hand, or empty; and the
  client is the one the document had, or was obtained from the host and port at hand.
\<close>

definition listing_ok :: "('h, 'w) conn_env \<Rightarrow> ('h, 'w) conn_dlg \<Rightarrow> bool" where
  "listing_ok C s \<longleftrightarrow> c_entries s = [] \<or> (\<exists>h ents w w'. c_client s = Some h \<and>
     ce_readdir C h (c_cwd s) w = (Some ents, w') \<and>
     c_entries s = entry_sort C (browse_entries C ents))"

definition client_ok :: "('h, 'w) conn_env \<Rightarrow> ('h \<times> string \<times> u16) option \<Rightarrow> ('h, 'w) conn_dlg \<Rightarrow> bool" where
  "client_ok C existing s \<longleftrightarrow> (\<forall>h. c_client s = Some h \<longrightarrow>
     existing = Some (h, c_host s, c_port s) \<or>
     (\<exists>w w'. ce_connect C (c_host s) (c_port s) w = (Some h, w')))"

lemma browse_entry:
  "(n, False) \<in> set (browse_entries C ents) \<Longrightarrow>
   \<exists>e\<in>set ents. de_type e \<noteq> DE_DIR \<and> de_name e = n \<and> image_name C n"
  by (auto simp: browse_entries_def image_name_def)

lemma listing_cleared: "listing_ok C (SetBrowserEnabled False s)"
  by (simp add: listing_ok_def SetBrowserEnabled_def Let_def)

lemma set_browser_fields [simp]:
  "c_cwd (SetBrowserEnabled b s) = c_cwd s" "c_client (SetBrowserEnabled b s) = c_client s"
  "c_result (SetBrowserEnabled b s) = c_result s" "c_closed (SetBrowserEnabled b s) = c_closed s"
  "c_entries (SetBrowserEnabled b s) = (if b then c_entries s else [])"
  "c_world (SetBrowserEnabled b s) = c_world s" "c_host (SetBrowserEnabled b s) = c_host s"
  "c_port (SetBrowserEnabled b s) = c_port s"
  by (simp_all add: SetBrowserEnabled_def Let_def)

lemma navigate_done:
  assumes "c_client s = Some h" "ce_readdir C h dir (c_world s) = (Some ents, w)"
  shows "c_cwd (dlg_Navigate C dir s) = dir \<and> c_client (dlg_Navigate C dir s) = Some h \<and>
    c_entries (dlg_Navigate C dir s) = entry_sort C (browse_entries C ents) \<and>
    c_world (dlg_Navigate C dir s) = w"
  using assms by (simp add: dlg_Navigate_def Let_def)

lemma navigate_fields [simp]:
  "c_result (dlg_Navigate C dir s) = c_result s" "c_closed (dlg_Navigate C dir s) = c_closed s"
  "c_client (dlg_Navigate C dir s) = c_client s" "c_host (dlg_Navigate C dir s) = c_host s"
  "c_port (dlg_Navigate C dir s) = c_port s"
  by (auto simp: dlg_Navigate_def Let_def split: option.splits prod.splits)

text \<open>The invariant of the open dialog.\<close>

definition dlg_inv :: "('h, 'w) conn_env \<Rightarrow> ('h \<times> string \<times> u16) option \<Rightarrow> ('h, 'w) conn_dlg \<Rightarrow> bool" where
  "dlg_inv C existing s \<longleftrightarrow> c_cwd s \<noteq> [] \<and> listing_ok C s \<and> client_ok C existing s \<and>
     (if c_closed s then \<exists>n. (n, False) \<in> set (c_entries s) \<and> c_result s = join_path (c_cwd s) n
      else c_result s = [])"

inductive dlg_step :: "('h, 'w) conn_env \<Rightarrow> ('h, 'w) conn_dlg \<Rightarrow> ('h, 'w) conn_dlg \<Rightarrow> bool"
  for C :: "('h, 'w) conn_env" where
  connect: "\<not> c_closed s \<Longrightarrow> dlg_step C s (ConnectFromInput C wbuf s)"
| up: "\<not> c_closed s \<Longrightarrow> dlg_step C s (onUp C s)"
| select: "\<not> c_closed s \<Longrightarrow> dlg_step C s (onSelChange sel s)"
| open_sel: "\<not> c_closed s \<Longrightarrow> dlg_step C s (TryOpenSelected C sel s)"

lemma navigate_listing:
  assumes "listing_ok C s"
  shows "listing_ok C (dlg_Navigate C dir s)"
proof (cases "c_client s")
  case None
  then show ?thesis by (simp add: dlg_Navigate_def listing_cleared)
next
  case (Some h)
  obtain iter w where rd: "ce_readdir C h dir (c_world s) = (iter, w)" by fastforce
  show ?thesis
  proof (cases iter)
    case None
    with assms Some rd show ?thesis by (simp add: dlg_Navigate_def Let_def listing_ok_def)
  next
    case ents: (Some ents)
    with navigate_done[OF Some] Some rd show ?thesis
      unfolding listing_ok_def by (metis navigate_fields(3))
  qed
qed

lemma navigate_client: "client_ok C existing (dlg_Navigate C dir s) = client_ok C existing s"
  by (simp add: client_ok_def)

lemma navigate_inv:
  assumes "dlg_inv C existing s" "dir \<noteq> []" "\<not> c_closed s"
  shows "dlg_inv C existing (dlg_Navigate C dir s)"
proof -
  have "c_cwd (dlg_Navigate C dir s) \<noteq> []"
    using assms(1,2) by (auto simp: dlg_inv_def dlg_Navigate_def Let_def split: option.splits prod.splits)
  then show ?thesis using assms navigate_listing[of C s dir]
    by (simp add: dlg_inv_def navigate_client)
qed

lemma dlg_step_inv: "dlg_step C s s' \<Longrightarrow> dlg_inv C existing s \<Longrightarrow> dlg_inv C existing s'"
proof (induction rule: dlg_step.induct)
  case (connect s wbuf)
  have m: "dlg_inv C existing (s\<lparr>c_msgs := ms\<rparr>)" "dlg_inv C existing (s\<lparr>c_world := w, c_msgs := ms\<rparr>)"
    for ms w
    using connect by (simp_all add: dlg_inv_def listing_ok_def client_ok_def)
  have n: "dlg_inv C existing (dlg_Navigate C ''/'' (SetBrowserEnabled False
      (s\<lparr>c_world := w', c_host := hst, c_port := p, c_client := Some h, c_result := [],
         c_saved := sv\<rparr>)))" (is "dlg_inv _ _ (dlg_Navigate C _ (SetBrowserEnabled False ?s))")
    if "ce_connect C hst p w = (Some h, w')" for hst p h w w' sv
  proof (rule navigate_inv)
    have "client_ok C existing ?s" using that by (auto simp: client_ok_def)
    then have "client_ok C existing (SetBrowserEnabled False ?s)" by (simp add: client_ok_def)
    then show "dlg_inv C existing (SetBrowserEnabled False ?s)"
      using connect listing_cleared[of C ?s] by (simp add: dlg_inv_def)
  qed (use connect in simp_all)
  show ?case
    using m n by (auto simp: ConnectFromInput_def Let_def split: option.split prod.split)
next
  case (up s)
  then show ?case
    using strrchr_Some [of "c_cwd s" "CHR ''/''"]
    by (auto simp: onUp_def intro!: navigate_inv split: option.splits) (auto simp: dlg_inv_def)
next
  case (open_sel s sel)
  show ?case
  proof (cases "sel < 0 \<or> sel \<ge> int (length (c_entries s))")
    case False
    obtain n b where e: "c_entries s ! nat sel = (n, b)" by (rule prod.exhaust)
    have mem: "(n, b) \<in> set (c_entries s)" unfolding e [symmetric] using False by (intro nth_mem) linarith
    have ne: "join_path (c_cwd s) n \<noteq> []" by (simp add: join_path_def)
    have t: "TryOpenSelected C sel s = (if b then dlg_Navigate C (join_path (c_cwd s) n) s
        else s\<lparr>c_result := join_path (c_cwd s) n, c_closed := True\<rparr>)"
      using False e by (simp add: TryOpenSelected_def)
    show ?thesis
    proof (cases b)
      case True
      then show ?thesis using navigate_inv [OF open_sel(2) ne open_sel(1)] t by simp
    next
      case False
      then show ?thesis using open_sel mem t
        by (auto simp: dlg_inv_def listing_ok_def client_ok_def)
    qed
  next
    case True
    then show ?thesis using open_sel by (simp add: TryOpenSelected_def)
  qed
qed (simp add: onSelChange_def dlg_inv_def listing_ok_def client_ok_def)

lemma dlg_steps_inv: "(dlg_step C)\<^sup>*\<^sup>* s s' \<Longrightarrow> dlg_inv C existing s \<Longrightarrow> dlg_inv C existing s'"
  by (induction rule: rtranclp_induct) (auto intro: dlg_step_inv)

lemma DirFromPath_not_empty: "DirFromPath p \<noteq> []"
  by (auto simp: DirFromPath_def split: option.splits)

lemma dlg_init_inv: "dlg_inv C existing (dlg_init C (dlg_start existing ip w))"
proof -
  let ?s = "dlg_start existing ip w"
  have "dlg_inv C existing ?s" "\<not> c_closed ?s" "c_cwd ?s \<noteq> []"
    by (auto simp: dlg_start_def dlg_inv_def Let_def DirFromPath_not_empty listing_ok_def
        client_ok_def split: option.splits)
  then show ?thesis
    by (auto simp: dlg_init_def intro: navigate_inv)
      (auto simp: dlg_inv_def listing_cleared client_ok_def)
qed

text \<open>
  C30. Whatever was connected to, browsed and selected: if the dialog returns a client with a
  path, the client is the one that connecting to the returned host and port gave, or the one
  the document had there; and the path is that of a file, no directory, with a supported
  extension, which a reading of the directory shown delivered on this very client.  The list
  shown is that reading, directories first.
\<close>

theorem dialog_returns_listed_image:
  assumes "(dlg_step C)\<^sup>*\<^sup>* (dlg_init C (dlg_start existing ip w)) s"
    and "dlg_result s = Some (hst, prt, path, h)"
  shows "c_client s = Some h \<and>
    (existing = Some (h, hst, prt) \<or> (\<exists>w w'. ce_connect C hst prt w = (Some h, w'))) \<and>
    dirs_first (c_entries s) \<and>
    (\<exists>ents e w w'. ce_readdir C h (c_cwd s) w = (Some ents, w') \<and>
       set (c_entries s) = set (browse_entries C ents) \<and>
       e \<in> set ents \<and> de_type e \<noteq> DE_DIR \<and> image_name C (de_name e) \<and>
       path = join_path (c_cwd s) (de_name e))"
proof -
  have i: "dlg_inv C existing s" using dlg_steps_inv [OF assms(1) dlg_init_inv] .
  have r: "c_client s = Some h" "c_result s = path" "path \<noteq> []" "c_host s = hst" "c_port s = prt"
    using assms(2) by (auto simp: dlg_result_def split: option.splits if_splits)
  obtain n where n: "(n, False) \<in> set (c_entries s)" "path = join_path (c_cwd s) n"
    using i r by (auto simp: dlg_inv_def split: if_splits)
  then obtain ents w1 w2 where e: "ce_readdir C h (c_cwd s) w1 = (Some ents, w2)"
    "c_entries s = entry_sort C (browse_entries C ents)"
    using i r(1) by (auto simp: dlg_inv_def listing_ok_def)
  moreover obtain d where "d \<in> set ents" "de_type d \<noteq> DE_DIR" "de_name d = n" "image_name C n"
    using browse_entry[of n C ents] n(1) e(2) by auto
  moreover have "existing = Some (h, hst, prt) \<or> (\<exists>w w'. ce_connect C hst prt w = (Some h, w'))"
    using i r by (auto simp: dlg_inv_def client_ok_def)
  ultimately show ?thesis using r(1) n(2) entry_sort_dirs[of C] by (auto simp: e(2))
qed

text \<open>
  Going into a listed directory and up again comes back to the same directory with its
  entries listed afresh, from the root as from any other directory.
\<close>

theorem enter_then_up:
  assumes "c_client s = Some h" "c_cwd s \<noteq> []" "sel < length (c_entries s)"
    and "c_entries s ! sel = (n, True)" "CHR ''/'' \<notin> set n" "n \<noteq> []"
    and "ce_readdir C h (join_path (c_cwd s) n) (c_world s) = (Some sub, w1)"
    and "ce_readdir C h (c_cwd s) w1 = (Some ents, w2)"
    and "s' = onUp C (TryOpenSelected C (int sel) s)"
  shows "c_cwd s' = c_cwd s \<and> c_entries s' = entry_sort C (browse_entries C ents)"
proof -
  let ?d = "join_path (c_cwd s) n" and ?s1 = "dlg_Navigate C (join_path (c_cwd s) n) s"
  have t: "TryOpenSelected C (int sel) s = ?s1" using assms(3,4) by (simp add: TryOpenSelected_def)
  note s1 = navigate_done [OF assms(1,7)]
  define a where "a = (if c_cwd s = ''/'' then [] else c_cwd s)"
  have "?d = a @ CHR ''/'' # n" by (simp add: join_path_def a_def)
  then have "strrchr ?d (CHR ''/'') = Some (a, n)" using assms(5) by (simp add: strrchr_Some)
  moreover have "?d \<noteq> ''/''"
    using assms(2,6) by (cases "c_cwd s") (auto simp: join_path_def)
  moreover have "(if a = [] then ''/'' else a) = c_cwd s" using assms(2) by (simp add: a_def)
  ultimately have "s' = dlg_Navigate C (c_cwd s) ?s1" using s1 assms(9) t by (simp add: onUp_def)
  then show ?thesis using navigate_done [of ?s1 h C "c_cwd s" ents w2] s1 assms(8) by simp
qed

section \<open>Addresses\<close>

lemma cdigit:
  assumes "d < 10"
  shows "cisdigit (char_of (48 + d))" and "of_char (char_of (48 + d) :: char) = int (48 + d)"
proof -
  have b: "48 + d < 256" using assms by simp
  have n: "of_char (char_of (48 + d) :: char) = 48 + d" using b by simp
  then show "of_char (char_of (48 + d) :: char) = int (48 + d)" by (metis of_nat_of_char)
  have "of_char (CHR ''0'') = (48 :: nat)" "of_char (CHR ''9'') = (57 :: nat)" by simp_all
  then show "cisdigit (char_of (48 + d))"
    using n assms unfolding cisdigit_def less_eq_char_def by simp
qed

lemma to_string_digits: "list_all cisdigit (to_string n) \<and> to_string n \<noteq> []"
proof (induction n rule: to_string.induct)
  case (1 n)
  then show ?case
    using cdigit(1) [of n] cdigit(1) [of "n mod 10"] by (subst (1 2) to_string.simps) auto
qed

lemma to_string_val: "foldl (\<lambda>a c. a * 10 + (of_char c - 48)) (0 :: int) (to_string n) = int n"
proof (induction n rule: to_string.induct)
  case (1 n)
  show ?case
  proof (cases "n < 10")
    case True
    then show ?thesis using cdigit(2) [of n] by (subst to_string.simps) simp
  next
    case False
    have "int (n div 10) * 10 + int (n mod 10) = int n" by presburger
    then show ?thesis using 1 False cdigit(2) [of "n mod 10"] by (subst to_string.simps) simp
  qed
qed

lemma digit_plain:
  assumes "cisdigit c"
  shows "\<not> cisspace c" "c \<noteq> CHR ''-''" "c \<noteq> CHR ''+''" "c \<noteq> CHR '':''"
  using assms by (auto simp: cisdigit_def cisspace_def less_eq_char_def)

lemma stoi_to_string:
  assumes "int n < 2 ^ 31"
  shows "stoi (to_string n) = Some (int n)"
proof -
  have d: "list_all cisdigit (to_string n)" "to_string n \<noteq> []" using to_string_digits by blast+
  obtain c r where c: "to_string n = c # r" "cisdigit c" using d by (cases "to_string n") auto
  have "takeWhile cisdigit (to_string n) = to_string n"
    using d(1) by (simp add: takeWhile_eq_all_conv list_all_iff)
  then have tk: "takeWhile cisdigit (c # r) = c # r" unfolding c(1) .
  have val: "foldl (\<lambda>a c. a * 10 + (of_char c - 48)) (0 :: int) (c # r) = int n"
    using to_string_val [of n] unfolding c(1) .
  show ?thesis
    unfolding c(1) stoi_def Let_def
    by (simp add: tk val digit_plain [OF c(2)] del: foldl_Cons takeWhile.simps) (use assms in simp)
qed

text \<open>
  The address the dialog shows for a remote document connects to the same host and port
  again, for every host name, with colons in it or not, as far as the text fits the box.
\<close>

theorem shown_address_connects:
  assumes "c_host s \<noteq> []" "c_port s \<noteq> 0" "length (address_text C s) \<le> 299"
    and "wstr_to_utf8 (ce_w2u C) (address_text C s) = c_host s @ '':'' @ to_string (unat (c_port s))"
    and "ce_connect C (c_host s) (c_port s) (c_world s) = (Some h, w)"
    and "s' = ConnectFromInput C (address_text C s) s"
  shows "c_host s' = c_host s \<and> c_port s' = c_port s \<and> c_client s' = Some h"
proof -
  let ?p = "to_string (unat (c_port s))"
  have "list_all cisdigit ?p" using to_string_digits by blast
  then have "CHR '':'' \<notin> set ?p" using digit_plain(4) by (auto simp: list_all_iff)
  then have sp: "strrchr (c_host s @ '':'' @ ?p) (CHR '':'') = Some (c_host s, ?p)"
    by (simp add: strrchr_Some)
  have u: "uint (c_port s) < 65536" using uint_bounded [of "c_port s"] by simp
  have "0 < uint (c_port s)" using assms(2) uint_0_iff [of "c_port s"] uint_ge_0 [of "c_port s"]
    by linarith
  moreover have "stoi ?p = Some (uint (c_port s))" using stoi_to_string [of "unat (c_port s)"] u by simp
  ultimately show ?thesis
    using assms sp u by (simp add: ConnectFromInput_def Let_def)
qed

section \<open>An example server\<close>

definition ex_server :: "(unit, unit) conn_env" where
  "ex_server = \<lparr>ce_connect = (\<lambda>h p w. (Some (), w)),
     ce_readdir = (\<lambda>h d w. (Some (if d = ''/''
        then [ex_entry ''a.png'', (ex_entry ''sub'')\<lparr>de_type := DE_DIR\<rparr>] else [ex_entry ''b.png'']), w)),
     ce_types = [''png''], ce_cmp = ex_cmp, ce_u2w = (\<lambda>s. Some (wlit s)),
     ce_w2u = (\<lambda>s. Some (map (\<lambda>c. char_of (unat c)) s))\<rparr>"

definition ex_dlg :: "(unit, unit) conn_dlg" where
  "ex_dlg = dlg_init ex_server (dlg_start (Some ((), ''host'', 7000)) (Some ''/x.png'') ())"

lemma ex_dlg_state: "c_entries ex_dlg = [(''sub'', True), (''a.png'', False)]" "c_cwd ex_dlg = ''/''"
  "c_client ex_dlg = Some ()" "c_closed ex_dlg = False" "c_host ex_dlg = ''host''" "c_port ex_dlg = 7000"
  by code_simp+

theorem dialog_returns_listed_image_witness:
  "dlg_result (TryOpenSelected ex_server 1 ex_dlg) = Some (''host'', 7000, ''/a.png'', ()) \<and>
   dirs_first (c_entries (TryOpenSelected ex_server 1 ex_dlg))"
proof
  show r: "dlg_result (TryOpenSelected ex_server 1 ex_dlg) = Some (''host'', 7000, ''/a.png'', ())"
    by code_simp
  have "(dlg_step ex_server)\<^sup>*\<^sup>* ex_dlg (TryOpenSelected ex_server 1 ex_dlg)"
    using dlg_step.open_sel [of ex_dlg ex_server 1] ex_dlg_state by auto
  from dialog_returns_listed_image [OF this [unfolded ex_dlg_def] r [unfolded ex_dlg_def]]
  show "dirs_first (c_entries (TryOpenSelected ex_server 1 ex_dlg))" by (simp add: ex_dlg_def)
qed

theorem enter_then_up_witness:
  "c_entries (onUp ex_server (TryOpenSelected ex_server (int 0) ex_dlg)) =
     entry_sort ex_server (browse_entries ex_server
       [ex_entry ''a.png'', (ex_entry ''sub'')\<lparr>de_type := DE_DIR\<rparr>])"
proof -
  have p: "c_cwd ex_dlg \<noteq> []" "0 < length (c_entries ex_dlg)" "c_entries ex_dlg ! 0 = (''sub'', True)"
    "CHR ''/'' \<notin> set ''sub''" "''sub'' \<noteq> []"
    by (simp_all add: ex_dlg_state)
  have r1: "ce_readdir ex_server () (join_path (c_cwd ex_dlg) ''sub'') (c_world ex_dlg) =
      (Some [ex_entry ''b.png''], c_world ex_dlg)"
    by (simp add: ex_server_def join_path_def ex_dlg_state)
  have r2: "ce_readdir ex_server () (c_cwd ex_dlg) (c_world ex_dlg) =
      (Some [ex_entry ''a.png'', (ex_entry ''sub'')\<lparr>de_type := DE_DIR\<rparr>], c_world ex_dlg)"
    by (simp add: ex_server_def ex_dlg_state)
  show ?thesis by (rule conjunct2 [OF enter_then_up [OF ex_dlg_state(3) p r1 r2 refl]])
qed

theorem shown_address_connects_witness:
  "c_host (ConnectFromInput ex_server (address_text ex_server ex_dlg) ex_dlg) = ''host'' \<and>
   c_port (ConnectFromInput ex_server (address_text ex_server ex_dlg) ex_dlg) = 7000"
proof -
  have c: "char_of (55 :: nat) = CHR ''7''" "char_of (48 :: nat) = CHR ''0''" by code_simp+
  have t0: "to_string 7000 = ''7000''" by (simp add: to_string.simps c)
  then have t: "to_string (unat (c_port ex_dlg)) = ''7000''" by (simp add: ex_dlg_state)
  then have a: "address_text ex_server ex_dlg = wlit ''host:7000''"
    by (simp add: address_text_def ex_dlg_state utf8_to_wstr_def ex_server_def)
  have "wstr_to_utf8 (ce_w2u ex_server) (wlit ''host:7000'') = ''host:7000''" by code_simp
  then have "length (address_text ex_server ex_dlg) \<le> 299"
    "wstr_to_utf8 (ce_w2u ex_server) (address_text ex_server ex_dlg) =
       c_host ex_dlg @ '':'' @ to_string (unat (c_port ex_dlg))"
    unfolding a t ex_dlg_state by (simp_all add: wlit_def t0)
  from shown_address_connects [OF _ _ this _ refl, of "()" "()"]
  show ?thesis by (simp add: ex_dlg_state ex_server_def)
qed

end
