(* ===== verification/Main_Wnd.thy ===== *)
theory Main_Wnd
  imports Slide_Show Main_View Connect_Dlg
begin

text \<open>
  obZrv/MainWnd.cpp and Toolbar::GetMenuIcon: the top-level window apart from the slide show
  (\<open>Slide_Show\<close>).  Menus are trees; commands map to the calls they make on the other parts; the
  window placement is text in the settings.
\<close>

section \<open>Command identifiers\<close>

definition ID_FILE_EXIT :: int where "ID_FILE_EXIT = 1001"
definition ID_VIEW_FILELIST :: int where "ID_VIEW_FILELIST = 1002"
definition ID_HELP_ABOUT :: int where "ID_HELP_ABOUT = 1003"
definition ID_FILE_OPEN :: int where "ID_FILE_OPEN = 1004"
definition ID_VIEW_ZOOMMODE :: int where "ID_VIEW_ZOOMMODE = 1009"
definition ID_ZOOMMODE_NOFIT :: int where "ID_ZOOMMODE_NOFIT = 1014"
definition ID_FILE_SAVE_AS :: int where "ID_FILE_SAVE_AS = 1015"
definition ID_VIEW_ZOOMTO :: int where "ID_VIEW_ZOOMTO = 1020"
definition ID_VIEW_ZOOMREM :: int where "ID_VIEW_ZOOMREM = 1021"
definition ID_VIEW_ZOOM :: int where "ID_VIEW_ZOOM = 1022"
definition ID_FILE_OPEN_REMOTE :: int where "ID_FILE_OPEN_REMOTE = 1023"
definition ID_FILE_DELETE :: int where "ID_FILE_DELETE = 1024"
definition ID_FILE_DELETE_PERM :: int where "ID_FILE_DELETE_PERM = 1025"
definition ID_FILE_REFRESH :: int where "ID_FILE_REFRESH = 1026"
definition ID_FILE_RECENT_EMPTY :: int where "ID_FILE_RECENT_EMPTY = 1027"
definition ID_VIEW_SLIDESHOW :: int where "ID_VIEW_SLIDESHOW = 1028"
definition ID_FILE_RECENT_FIRST :: int where "ID_FILE_RECENT_FIRST = 2000"
definition ID_FILE_RECENT_LAST :: int where "ID_FILE_RECENT_LAST = 2099"

lemmas id_defs = ID_FILE_EXIT_def ID_VIEW_FILELIST_def ID_HELP_ABOUT_def ID_FILE_OPEN_def
  ID_VIEW_ZOOMMODE_def ID_ZOOMMODE_NOFIT_def ID_FILE_SAVE_AS_def ID_VIEW_ZOOMTO_def
  ID_VIEW_ZOOMREM_def ID_VIEW_ZOOM_def ID_FILE_OPEN_REMOTE_def ID_FILE_DELETE_def
  ID_FILE_DELETE_PERM_def ID_FILE_REFRESH_def ID_FILE_RECENT_EMPTY_def ID_VIEW_SLIDESHOW_def
  ID_FILE_RECENT_FIRST_def ID_FILE_RECENT_LAST_def ID_FILE_PREV_def ID_FILE_NEXT_def
  ID_VIEW_ZOOMIN_def ID_VIEW_ZOOMOUT_def ID_ZOOMMODE_W2I_ZOOMOUT_def

section \<open>Menus\<close>

text \<open>An item is a command (also a separator, with identifier 0) or a popup, each with a bitmap.\<close>

datatype mitem = MCmd int "nat option" | MPop "nat option" "mitem list"

fun is_cmd :: "int \<Rightarrow> mitem \<Rightarrow> bool" where
  "is_cmd i (MCmd k b) = (k = i)"
| "is_cmd i (MPop b sub) = False"

text \<open>\<open>FindSubMenuWith\<close>: per item its direct children first, then the levels below.\<close>

fun find_submenu :: "int \<Rightarrow> mitem list \<Rightarrow> mitem list option" where
  "find_submenu i [] = None"
| "find_submenu i (MCmd k b # ms) = find_submenu i ms"
| "find_submenu i (MPop b sub # ms) =
     (if list_ex (is_cmd i) sub then Some sub
      else case find_submenu i sub of Some s \<Rightarrow> Some s | None \<Rightarrow> find_submenu i ms)"

fun clear_bitmaps :: "mitem list \<Rightarrow> mitem list" where
  "clear_bitmaps [] = []"
| "clear_bitmaps (MCmd k b # ms) = MCmd k None # clear_bitmaps ms"
| "clear_bitmaps (MPop b sub # ms) = MPop None (clear_bitmaps sub) # clear_bitmaps ms"

text \<open>\<open>GetMenuIcon\<close>: which commands have an image in the tool bar's list.\<close>

definition menu_image :: "int \<Rightarrow> bool" where
  "menu_image i \<longleftrightarrow> i \<in> set [ID_FILE_OPEN, ID_FILE_PREV, ID_FILE_NEXT, ID_VIEW_ZOOMIN,
     ID_VIEW_ZOOMTO, ID_VIEW_ZOOMOUT, ID_VIEW_ZOOMMODE, ID_VIEW_ZOOMREM, ID_VIEW_ZOOM,
     ID_VIEW_SLIDESHOW, ID_VIEW_FILELIST, ID_FILE_OPEN_REMOTE, ID_FILE_REFRESH, ID_FILE_SAVE_AS]"

text \<open>
  Bitmaps are numbered in the order they are created; \<open>mk n\<close> says whether creating number
  \<open>n\<close> succeeds.  The result is the menu, the next number, and the bitmaps now owned.
\<close>

definition get_icon :: "(nat \<Rightarrow> bool) \<Rightarrow> bool \<Rightarrow> nat \<Rightarrow> nat option \<times> nat" where
  "get_icon mk has_image n =
     (if has_image then (if mk n then Some n else None, Suc n) else (None, n))"

fun update_bitmaps :: "(nat \<Rightarrow> bool) \<Rightarrow> mitem list \<Rightarrow> nat \<Rightarrow> mitem list \<times> nat \<times> nat list" where
  "update_bitmaps mk [] n = ([], n, [])"
| "update_bitmaps mk (MPop b sub # ms) n =
     (case update_bitmaps mk sub n of (sub', n1, own1) \<Rightarrow>
      case update_bitmaps mk ms n1 of (ms', n2, own2) \<Rightarrow> (MPop b sub' # ms', n2, own1 @ own2))"
| "update_bitmaps mk (MCmd k b # ms) n =
     (case get_icon mk (menu_image k) n of (h, n1) \<Rightarrow>
      case update_bitmaps mk ms n1 of (ms', n2, own) \<Rightarrow>
        (MCmd k (if h = None then b else h) # ms', n2, (case h of None \<Rightarrow> own | Some x \<Rightarrow> x # own)))"

text \<open>
  \<open>SetSubMenuBitmap\<close> for the popup \<open>FindSubMenuWith\<close> returns, which directly contains a
  command: both look at the items in the same order.  \<open>SetMenuItemInfoW\<close>, here and above, takes
  effect on every item: that it may fail is not modelled.
\<close>

fun set_sub_bitmap :: "int \<Rightarrow> nat \<Rightarrow> mitem list \<Rightarrow> mitem list \<times> bool" where
  "set_sub_bitmap i h [] = ([], False)"
| "set_sub_bitmap i h (MCmd k b # ms) = (case set_sub_bitmap i h ms of (ms', r) \<Rightarrow> (MCmd k b # ms', r))"
| "set_sub_bitmap i h (MPop b sub # ms) =
     (if list_ex (is_cmd i) sub then (MPop (Some h) sub # ms, True)
      else case set_sub_bitmap i h sub of (sub', r) \<Rightarrow>
        if r then (MPop b sub' # ms, True)
        else case set_sub_bitmap i h ms of (ms', r') \<Rightarrow> (MPop b sub # ms', r'))"

record menu_state =
  m_items :: "mitem list"
  m_owned :: "nat list"
  m_next :: nat
  m_deleted :: "nat list"

definition ClearMenuBitmaps :: "menu_state \<Rightarrow> menu_state" where
  "ClearMenuBitmaps s = s\<lparr>m_items := clear_bitmaps (m_items s), m_deleted := m_deleted s @ m_owned s,
     m_owned := []\<rparr>"

text \<open>One popup's icon: set and owned, or deleted again.\<close>

definition sub_icon :: "(nat \<Rightarrow> bool) \<Rightarrow> int \<Rightarrow> menu_state \<Rightarrow> menu_state" where
  "sub_icon mk i s =
     (case get_icon mk True (m_next s) of (h, n) \<Rightarrow>
      (case h of None \<Rightarrow> s\<lparr>m_next := n\<rparr>
       | Some x \<Rightarrow>
         (case set_sub_bitmap i x (m_items s) of (ms, r) \<Rightarrow>
            if r then s\<lparr>m_next := n, m_items := ms, m_owned := m_owned s @ [x]\<rparr>
            else s\<lparr>m_next := n, m_deleted := m_deleted s @ [x]\<rparr>)))"

text \<open>The recent popup is found once by its placeholder; \<open>recent\<close> names a command in it now.\<close>

definition UpdateMenuIcons :: "(nat \<Rightarrow> bool) \<Rightarrow> int \<Rightarrow> menu_state \<Rightarrow> menu_state" where
  "UpdateMenuIcons mk recent s =
     (let s1 = ClearMenuBitmaps s in
      case update_bitmaps mk (m_items s1) (m_next s1) of (ms, n, own) \<Rightarrow>
        sub_icon mk recent
          (sub_icon mk ID_ZOOMMODE_W2I_ZOOMOUT
            (s1\<lparr>m_items := ms, m_next := n, m_owned := own\<rparr>)))"

section \<open>Hints\<close>

text \<open>
  \<open>LoadCommandHint\<close> on the string resource (which has no NUL), into a buffer of \<open>len\<close>
  characters.
\<close>

definition LoadCommandHint :: "wstr \<Rightarrow> nat \<Rightarrow> bool \<Rightarrow> wstr" where
  "LoadCommandHint res len shortText =
     (if len = 0 then []
      else
      let buf = take (len - 1) res; long = takeWhile (\<lambda>c. c \<noteq> 0x0A) buf;
          rest = tl (dropWhile (\<lambda>c. c \<noteq> 0x0A) buf) in
      if 0x0A \<notin> set buf then buf
      else if shortText \<and> rest \<noteq> [] then take (len - 1) rest else long)"

section \<open>Layout and buttons\<close>

definition main_OnSize :: "bool \<Rightarrow> int \<Rightarrow> int \<Rightarrow> sz \<Rightarrow> rect" where
  "main_OnSize fullscreen tbH sbH c =
     (if fullscreen then mk_rect 0 0 (fst c) (snd c)
      else
      let viewH = (if snd c - tbH - sbH < 0 then 0 else snd c - tbH - sbH)
      in mk_rect 0 tbH (fst c) (tbH + viewH))"

text \<open>The width of the status bar's hint part: \<open>StatusBar::UpdateParts\<close>.\<close>

definition status_split :: "int \<Rightarrow> int" where
  "status_split tot = tot - (if 200 > tot sdiv 2 then tot sdiv 2 else 200)"

record button_states =
  can_save :: bool
  can_prev :: bool
  can_next :: bool
  can_zoom_in :: bool
  can_zoom_out :: bool

definition UpdateButtonStates :: "ui_ctx \<Rightarrow> sz option \<Rightarrow> image_view \<Rightarrow> ('h, 'w, 'img) doc \<Rightarrow> button_states" where
  "UpdateButtonStates c im v d =
     (let idx = diridx d; cnt = int (length (dirfiles d)) in
      \<lparr>can_save = (dpath d \<noteq> []), can_prev = (idx > 0), can_next = (idx \<ge> 0 \<and> idx < cnt - 1),
       can_zoom_in = (fst (zoom c im 1 True v) = 0), can_zoom_out = (fst (zoom c im (-1) True v) = 0)\<rparr>)"

section \<open>Window placement\<close>

text \<open>
  \<open>%ld\<close> of \<open>swscanf\<close>: blanks, a sign, digits; and the format with five numbers.  What a
  number that does not fit in a \<open>long\<close> reads as is open in C: the parameter \<open>ovf\<close>.
\<close>

definition scan_int :: "(int \<Rightarrow> int) \<Rightarrow> wstr \<Rightarrow> (int \<times> wstr) option" where
  "scan_int ovf s =
     (let t = dropWhile wblank s;
          neg = (t \<noteq> [] \<and> hd t = 0x2D);
          r = (if t \<noteq> [] \<and> (hd t = 0x2D \<or> hd t = 0x2B) then tl t else t);
          v = (if neg then - digits_val r else digits_val r) in
      if takeWhile wdigit r = [] then None
      else Some (if - (2 ^ 31) \<le> v \<and> v < 2 ^ 31 then v else ovf v, dropWhile wdigit r))"

text \<open>The numbers read before the input stops matching.\<close>

fun scan_list :: "(int \<Rightarrow> int) \<Rightarrow> nat \<Rightarrow> wstr \<Rightarrow> int list" where
  "scan_list ovf 0 s = []"
| "scan_list ovf (Suc n) s =
     (case scan_int ovf s of None \<Rightarrow> []
      | Some (v, r) \<Rightarrow> v # (if r \<noteq> [] \<and> hd r = 0x2C then scan_list ovf n (tl r) else []))"

definition placement_text :: "rect \<Rightarrow> bool \<Rightarrow> wstr" where
  "placement_text r maximized =
     wdec (r_left r) @ [0x2C] @ wdec (r_top r) @ [0x2C] @ wdec (r_right r) @ [0x2C] @
     wdec (r_bottom r) @ [0x2C] @ wdec (if maximized then 1 else 0)"

text \<open>The work area: of the nearest monitor, of the system, or the whole screen.\<close>

definition work_rect :: "rect \<Rightarrow> rect option \<Rightarrow> sz \<Rightarrow> rect" where
  "work_rect sys mon screen =
     (let w = (case mon of None \<Rightarrow> sys | Some r \<Rightarrow> r) in
      if r_right w \<le> r_left w \<or> r_bottom w \<le> r_top w then mk_rect 0 0 (fst screen) (snd screen) else w)"

definition clamp_axis :: "int \<Rightarrow> int \<Rightarrow> int \<Rightarrow> int \<Rightarrow> int \<Rightarrow> int \<times> int" where
  "clamp_axis wlo whi least lo hi =
     (let width0 = hi - lo;
          width1 = (if width0 < least then least else width0);
          width = (if width1 > whi - wlo then whi - wlo else width1);
          o1 = (lo, lo + width);
          o2 = (if snd o1 > whi then (whi - width, whi) else o1)
      in if fst o2 < wlo then (wlo, wlo + width) else o2)"

definition ClampWindowRect :: "int \<Rightarrow> rect \<Rightarrow> rect \<Rightarrow> rect" where
  "ClampWindowRect d work rc =
     (let h = clamp_axis (r_left work) (r_right work) (dpi_scale d 320) (r_left rc) (r_right rc);
          v = clamp_axis (r_top work) (r_bottom work) (dpi_scale d 240) (r_top rc) (r_bottom rc)
      in mk_rect (fst h) (fst v) (snd h) (snd v))"

definition LoadWindowPlacement :: "(int \<Rightarrow> int) \<Rightarrow> int \<Rightarrow> rect \<Rightarrow> wstr \<Rightarrow> (rect \<times> bool) option" where
  "LoadWindowPlacement ovf d work placement =
     (if placement = [] then None
      else case scan_list ovf 5 placement of
        [l, t, r, b, m] \<Rightarrow>
          if r \<le> l \<or> b \<le> t then None else Some (ClampWindowRect d work (mk_rect l t r b), m \<noteq> 0)
      | _ \<Rightarrow> None)"

definition SaveWindowPlacement :: "'f ini_api \<Rightarrow> config \<Rightarrow> (rect \<times> bool) option \<Rightarrow> 'f \<Rightarrow> 'f" where
  "SaveWindowPlacement api c wp st =
     (case wp of None \<Rightarrow> st
      | Some (r, m) \<Rightarrow> setStr api c (wlit ''Window'') (wlit ''Placement'') (placement_text r m) st)"

section \<open>Opening files\<close>

definition main_OpenFile :: "('h, 'w, 'f, 'img) env \<Rightarrow> 'h \<Rightarrow> 'i ini_api \<Rightarrow> config \<Rightarrow> wstr \<Rightarrow>
    (('h, 'w, 'img) doc \<times> rf_entry list \<times> 'i) \<Rightarrow> ('h, 'w, 'img) doc \<times> rf_entry list \<times> 'i" where
  "main_OpenFile E localfs api c path s =
     (case s of (d, es, st) \<Rightarrow>
      let uniPath = to_unipath (w2u E) path in
      case doc_open E (Some localfs) uniPath (-1) True None d of (r, d') \<Rightarrow>
        (d', if r = IM_OK then AddLocal api c (u2w E) uniPath (es, st) else (es, st)))"

definition msg_connect :: string where "msg_connect = ''Could not connect to the remote server.''"

definition OpenRecentFile :: "('h, 'w, 'f, 'img) env \<Rightarrow> 'h \<Rightarrow> (string \<Rightarrow> u16 \<Rightarrow> 'h option) \<Rightarrow> 'i ini_api \<Rightarrow>
    config \<Rightarrow> int \<Rightarrow> (('h, 'w, 'img) doc \<times> rf_entry list \<times> 'i) \<Rightarrow>
    ('h, 'w, 'img) doc \<times> rf_entry list \<times> 'i" where
  "OpenRecentFile E localfs remote api c i s =
     (case s of (d, es, st) \<Rightarrow>
      let idx = i - ID_FILE_RECENT_FIRST in
      if idx < 0 \<or> idx \<ge> int (length es) then s
      else
      let e = es ! nat idx in
      case (if etype e = RF_LOCAL then doc_open E (Some localfs) (epath e) (-1) True None d
            else case remote (ehost e) (eport e) of
              None \<Rightarrow> (IM_FAIL, emit (Msg msg_connect) d)
            | Some h \<Rightarrow> doc_open E (Some h) (epath e) (-1) True None d) of
        (r, d') \<Rightarrow>
          (d', if r = IM_OK then
                 (if etype e = RF_LOCAL then AddLocal api c (u2w E) (epath e) (es, st)
                  else AddRemote api c (u2w E) (ehost e) (eport e) (epath e) (es, st))
               else (es, st)))"

text \<open>\<open>ID_FILE_OPEN_REMOTE\<close> with the answer of the connection dialog.\<close>

definition main_OpenRemote :: "('h, 'w, 'f, 'img) env \<Rightarrow> 'i ini_api \<Rightarrow> config \<Rightarrow>
    ('h \<times> string \<times> u16 \<times> string) option \<Rightarrow> (('h, 'w, 'img) doc \<times> rf_entry list \<times> 'i) \<Rightarrow>
    ('h, 'w, 'img) doc \<times> rf_entry list \<times> 'i" where
  "main_OpenRemote E api c ans s =
     (case s of (d, es, st) \<Rightarrow>
      case ans of None \<Rightarrow> s
      | Some (h, host, port, p) \<Rightarrow>
        if p = [] then s
        else case doc_open E (Some h) p (-1) True None d of (r, d') \<Rightarrow>
          (d', if r = IM_OK then AddRemote api c (u2w E) host port p (es, st) else (es, st)))"

text \<open>The recent popup: the placeholder, or one command per entry.\<close>

definition recent_menu :: "(string \<Rightarrow> wstr option) \<Rightarrow> rf_entry list \<Rightarrow> (int \<times> wstr option) list" where
  "recent_menu uw es =
     (if es = [] then [(ID_FILE_RECENT_EMPTY, Some (wlit ''(Empty)''))]
      else map (\<lambda>i. (ID_FILE_RECENT_FIRST + int i, DisplayText uw es (int i)))
             [0..<min (length es) MAX_ITEMS])"

definition save_filter :: "wstr \<Rightarrow> wstr" where
  "save_filter name =
     wlit ''Original File'' @ [0] @
     (case strrchr name 0x2E of
        Some (a, b) \<Rightarrow> if b \<noteq> [] then wlit ''*'' @ [0x2E] @ b else wlit ''*.*''
      | None \<Rightarrow> wlit ''*.*'') @ [0] @ wlit ''All Files'' @ [0] @ wlit ''*.*'' @ [0]"

definition suggested_name :: "('h, 'w, 'img) doc \<Rightarrow> wstr" where
  "suggested_name d = (if diridx d \<ge> 0 then take 259 (dirfiles d ! nat (diridx d)) else [])"

text \<open>
  \<open>SaveAs\<close>: \<open>ask\<close> is the file dialog with the suggested name (259 characters at most) and the
  filter.  \<open>None\<close>: nothing is done; otherwise what \<open>saveAsLocal\<close> does, with the flag that the
  failure is reported.
\<close>

definition main_SaveAs :: "('h, 'w, 'f, 'img) env \<Rightarrow> (wstr \<Rightarrow> wstr \<Rightarrow> wstr option) \<Rightarrow>
    ('h, 'w, 'img) doc \<Rightarrow> (bool \<times> local_file option \<times> ('h, 'w, 'img) doc) option option" where
  "main_SaveAs E ask d =
     (if dpath d = [] then None
      else case ask (suggested_name d) (save_filter (suggested_name d)) of None \<Rightarrow> None
        | Some p \<Rightarrow> Some (map_option (\<lambda>(r, l, d'). (r \<noteq> 0, l, d')) (saveAsLocal E p d)))"

section \<open>Commands\<close>

text \<open>
  What a command calls; a navigation that succeeds also posts \<open>WM_APP_SLIDESHOW_RESET_TIMER\<close>,
  and \<open>SetZoomMode\<close> also stores the mode in the settings.
\<close>

datatype cmd_call = OpenRecent int | OpenDialog | OpenRemote | DoSaveAs | StopShow | DestroyWindow
  | DoNavigate nav_cmd | DeleteFile bool | RefreshDir | DoZoom int | ZoomModeMenu | SlideShowDialog
  | ShowList bool | About | SetZoomMode int

definition switch_command :: "bool \<Rightarrow> bool \<Rightarrow> int \<Rightarrow> cmd_call list" where
  "switch_command slideshow list_visible i =
     (if i = ID_FILE_OPEN then [OpenDialog]
      else if i = ID_FILE_OPEN_REMOTE then [OpenRemote]
      else if i = ID_FILE_SAVE_AS then [DoSaveAs]
      else if i = ID_FILE_EXIT then (if slideshow then [StopShow] else [DestroyWindow])
      else if i = ID_FILE_PREV then [DoNavigate NAV_PREV]
      else if i = ID_FILE_NEXT then [DoNavigate NAV_NEXT]
      else if i = ID_FILE_DELETE then [DeleteFile False]
      else if i = ID_FILE_DELETE_PERM then [DeleteFile True]
      else if i = ID_FILE_REFRESH then [RefreshDir]
      else if i = ID_VIEW_ZOOMIN then [DoZoom 1]
      else if i = ID_VIEW_ZOOMOUT then [DoZoom (-1)]
      else if i = ID_VIEW_ZOOMMODE then [ZoomModeMenu]
      else if i = ID_VIEW_SLIDESHOW then [SlideShowDialog]
      else if i = ID_VIEW_FILELIST then [ShowList (\<not> list_visible)]
      else if i = ID_HELP_ABOUT then [About]
      else [])"

definition OnCommand :: "bool \<Rightarrow> bool \<Rightarrow> int \<Rightarrow> cmd_call list" where
  "OnCommand slideshow list_visible i =
     (if i \<ge> ID_FILE_RECENT_FIRST \<and> i \<le> ID_FILE_RECENT_LAST then [OpenRecent i]
      else switch_command slideshow list_visible i @
        (if i \<ge> ID_ZOOMMODE_W2I_ZOOMOUT \<and> i \<le> ID_ZOOMMODE_NOFIT then [SetZoomMode i] else []))"

section \<open>Lemmas\<close>

lemma find_submenu_found: "find_submenu i ms = Some s \<Longrightarrow> list_ex (is_cmd i) s"
  by (induction i ms rule: find_submenu.induct) (auto split: if_splits option.splits)

fun all_bitmaps :: "mitem list \<Rightarrow> nat list" where
  "all_bitmaps [] = []"
| "all_bitmaps (MCmd k b # ms) = (case b of None \<Rightarrow> [] | Some x \<Rightarrow> [x]) @ all_bitmaps ms"
| "all_bitmaps (MPop b sub # ms) =
     (case b of None \<Rightarrow> [] | Some x \<Rightarrow> [x]) @ all_bitmaps sub @ all_bitmaps ms"

lemma clear_no_bitmaps: "all_bitmaps (clear_bitmaps ms) = []"
  by (induction ms rule: clear_bitmaps.induct) auto

lemma update_bitmaps_owned:
  "update_bitmaps mk ms n = (ms', n', own) \<Longrightarrow> all_bitmaps ms = [] \<Longrightarrow>
    all_bitmaps ms' = own \<and> n \<le> n' \<and> own = filter mk [n..<n']"
proof (induction mk ms n arbitrary: ms' n' own rule: update_bitmaps.induct)
  case (2 mk b sub ms n)
  obtain sub' n1 own1 where a: "update_bitmaps mk sub n = (sub', n1, own1)" using prod_cases3 by blast
  obtain ms1 n2 own2 where c: "update_bitmaps mk ms n1 = (ms1, n2, own2)" using prod_cases3 by blast
  have z: "b = None" "all_bitmaps sub = []" "all_bitmaps ms = []"
    using 2(4) by (auto split: option.splits)
  note A = 2(1) [OF a z(2)] and B = 2(2) [OF a [symmetric] refl c z(3)]
  have eq: "ms' = MPop b sub' # ms1" "n' = n2" "own = own1 @ own2" using 2(3) a c by auto
  have "filter mk [n..<n1] @ filter mk [n1..<n2] = filter mk [n..<n2]"
    using A B upt_add_eq_append [of n n1 "n2 - n1"] by (simp flip: filter_append)
  then show ?case using A B z eq by simp
next
  case (3 mk k b ms n)
  obtain h n1 where g: "get_icon mk (menu_image k) n = (h, n1)" by fastforce
  obtain ms1 n2 own2 where c: "update_bitmaps mk ms n1 = (ms1, n2, own2)" using prod_cases3 by blast
  have z: "b = None" "all_bitmaps ms = []" using 3(3) by (auto split: option.splits)
  note B = 3(1) [OF g [symmetric] c z(2)]
  have eq: "ms' = MCmd k (if h = None then b else h) # ms1" "n' = n2"
    "own = (case h of None \<Rightarrow> own2 | Some x \<Rightarrow> x # own2)" using 3(2) g c by auto
  have "filter mk [n..<n2] = (case h of None \<Rightarrow> [] | Some x \<Rightarrow> [x]) @ filter mk [n1..<n2] \<and> n \<le> n1"
    using g B upt_rec [of n n2] by (auto simp: get_icon_def split: if_splits)
  then show ?case using B z eq by (cases h) auto
qed auto

lemma set_sub_bitmap_owned:
  "set_sub_bitmap i h ms = (ms', r) \<Longrightarrow>
    (if r then set (all_bitmaps ms') \<subseteq> insert h (set (all_bitmaps ms)) else ms' = ms)"
proof (induction i h ms arbitrary: ms' r rule: set_sub_bitmap.induct)
  case (2 i h k b ms)
  obtain ms1 r1 where c: "set_sub_bitmap i h ms = (ms1, r1)" by fastforce
  then have "ms' = MCmd k b # ms1" "r = r1" using 2(2) by simp_all
  then show ?case using 2(1) [OF c] by (cases r1) auto
next
  case (3 i h b sub ms)
  show ?case
  proof (cases "list_ex (is_cmd i) sub")
    case True
    then have "ms' = MPop (Some h) sub # ms" "r" using 3(3) by simp_all
    then show ?thesis by auto
  next
    case False
    obtain sub' r1 where a: "set_sub_bitmap i h sub = (sub', r1)" by fastforce
    obtain ms1 r2 where c: "set_sub_bitmap i h ms = (ms1, r2)" by fastforce
    note A = 3(1) [OF False a]
    show ?thesis
    proof (cases r1)
      case True
      then have "ms' = MPop b sub' # ms" "r" using 3(3) False a by simp_all
      then show ?thesis using A True by auto
    next
      case r1: False
      then have "ms' = MPop b sub # ms1" "r = r2" using 3(3) False a c by simp_all
      then show ?thesis using 3(2) [OF False a [symmetric] r1 c] by (cases r2) auto
    qed
  qed
qed simp

text \<open>The bitmaps shown are owned; the created ones are owned or deleted, never both.\<close>

definition bitmaps_ok :: "(nat \<Rightarrow> bool) \<Rightarrow> menu_state \<Rightarrow> bool" where
  "bitmaps_ok mk s \<longleftrightarrow> set (all_bitmaps (m_items s)) \<subseteq> set (m_owned s) \<and>
     set (m_owned s) \<inter> set (m_deleted s) = {} \<and>
     set (m_owned s) \<union> set (m_deleted s) = {n. n < m_next s \<and> mk n}"

lemma sub_icon_ok: "bitmaps_ok mk s \<Longrightarrow> bitmaps_ok mk (sub_icon mk i s)"
proof -
  assume ok: "bitmaps_ok mk s"
  obtain ms r where c: "set_sub_bitmap i (m_next s) (m_items s) = (ms, r)" by fastforce
  show ?thesis
  proof (cases "mk (m_next s)")
    case True
    then have "m_next s \<notin> set (m_owned s) \<union> set (m_deleted s)" "set (all_bitmaps (m_items s)) \<subseteq> set (m_owned s)"
      using ok by (auto simp: bitmaps_ok_def)
    moreover have "{n. n < Suc (m_next s) \<and> mk n} = insert (m_next s) {n. n < m_next s \<and> mk n}"
      using True by (auto simp: less_Suc_eq)
    ultimately show ?thesis
      using ok True c set_sub_bitmap_owned [OF c]
      by (cases r) (auto simp: sub_icon_def get_icon_def bitmaps_ok_def)
  next
    case False
    then have "{n. n < Suc (m_next s) \<and> mk n} = {n. n < m_next s \<and> mk n}" by (auto simp: less_Suc_eq)
    then show ?thesis using ok False by (simp add: sub_icon_def get_icon_def bitmaps_ok_def)
  qed
qed

lemma update_icons_ok:
  assumes "bitmaps_ok mk s"
  shows "bitmaps_ok mk (UpdateMenuIcons mk recent s)"
proof -
  define s1 where "s1 = ClearMenuBitmaps s"
  obtain ms n own where u: "update_bitmaps mk (m_items s1) (m_next s1) = (ms, n, own)"
    using prod_cases3 by blast
  have s1: "all_bitmaps (m_items s1) = []" "m_owned s1 = []" "m_next s1 = m_next s"
    "set (m_deleted s1) = {n. n < m_next s \<and> mk n}"
    using assms by (auto simp: s1_def ClearMenuBitmaps_def clear_no_bitmaps bitmaps_ok_def)
  have o: "all_bitmaps ms = own" "m_next s1 \<le> n" "own = filter mk [m_next s1..<n]"
    using update_bitmaps_owned [OF u s1(1)] by blast+
  then have own: "set own = {k. m_next s \<le> k \<and> k < n \<and> mk k}"
    by (simp only: s1(3) set_filter set_upt atLeastLessThan_iff mem_Collect_eq Collect_conj_eq) blast
  have "set own \<union> set (m_deleted s1) = {k. k < n \<and> mk k}"
    unfolding own s1(4) using o(2) s1(3) by (intro set_eqI) (simp, linarith)
  moreover have "set own \<inter> set (m_deleted s1) = {}"
    unfolding own s1(4) by fastforce
  ultimately have "bitmaps_ok mk (s1\<lparr>m_items := ms, m_next := n, m_owned := own\<rparr>)"
    using o(1) by (simp add: bitmaps_ok_def)
  then have "bitmaps_ok mk (sub_icon mk recent (sub_icon mk ID_ZOOMMODE_W2I_ZOOMOUT
      (s1\<lparr>m_items := ms, m_next := n, m_owned := own\<rparr>)))"
    by (intro sub_icon_ok)
  then show ?thesis by (simp add: UpdateMenuIcons_def s1_def [symmetric] u)
qed

text \<open>
  C31. However often the menu icons are rebuilt (at the start and on every change of DPI), no
  menu item shows a deleted bitmap and no bitmap is lost: every one that was created is either
  owned by the window or deleted, and the ones in the menus are owned.
\<close>

theorem menu_bitmaps_owned:
  assumes "all_bitmaps menu = []"
    and "s = ((UpdateMenuIcons mk recent) ^^ k) \<lparr>m_items = menu, m_owned = [], m_next = 0, m_deleted = []\<rparr>"
  shows "set (all_bitmaps (m_items s)) \<subseteq> set (m_owned s) \<and>
    set (m_owned s) \<inter> set (m_deleted s) = {} \<and>
    set (m_owned s) \<union> set (m_deleted s) = {n. n < m_next s \<and> mk n}"
proof -
  have "bitmaps_ok mk (((UpdateMenuIcons mk recent) ^^ k)
      \<lparr>m_items = menu, m_owned = [], m_next = 0, m_deleted = []\<rparr>)"
  proof (induction k)
    case 0
    then show ?case using assms(1) by (simp add: bitmaps_ok_def)
  qed (simp add: update_icons_ok)
  then show ?thesis using assms(2) by (simp add: bitmaps_ok_def)
qed

lemma menu_bitmaps_owned_witness:
  "(let s = ((UpdateMenuIcons (\<lambda>n. n \<noteq> 1) ID_FILE_RECENT_EMPTY) ^^ 2)
       \<lparr>m_items = [MPop None [MCmd ID_FILE_OPEN None, MPop None [MCmd ID_FILE_RECENT_EMPTY None]],
                 MPop None [MCmd ID_FILE_NEXT None]], m_owned = [], m_next = 0, m_deleted = []\<rparr> in
    set (all_bitmaps (m_items s)) \<subseteq> set (m_owned s) \<and>
    set (m_owned s) \<inter> set (m_deleted s) = {} \<and>
    set (m_owned s) \<union> set (m_deleted s) = {n. n < m_next s \<and> n \<noteq> 1})"
  unfolding Let_def by (rule menu_bitmaps_owned [OF _ refl]) simp

section \<open>The placement\<close>

lemma clamp_axis_inside:
  assumes "wlo < whi" "clamp_axis wlo whi least lo hi = (a, b)"
  shows "wlo \<le> a" "b \<le> whi" "least \<le> b - a \<or> (a = wlo \<and> b = whi)"
  using assms by (auto simp: clamp_axis_def Let_def split: if_splits)

lemma clamp_axis_id:
  assumes "wlo \<le> lo" "hi \<le> whi" "least \<le> hi - lo"
  shows "clamp_axis wlo whi least lo hi = (lo, hi)"
  using assms by (simp add: clamp_axis_def Let_def)

lemma takeWhile_dec:
  assumes "r = [] \<or> \<not> wdigit (hd r)"
  shows "takeWhile wdigit (dec_digits n @ r) = dec_digits n" "dropWhile wdigit (dec_digits n @ r) = r"
  using dec_digits_all [of n] assms
  by (simp_all add: list_all_iff takeWhile_append2 dropWhile_append2) (cases r, auto)+

lemma digits_val_app:
  assumes "r = [] \<or> \<not> wdigit (hd r)"
  shows "digits_val (dec_digits n @ r) = int n"
  by (simp only: digits_val_def takeWhile_dec [OF assms] dec_digits_val)

lemma scan_int_dec:
  assumes v: "- (2 ^ 31) \<le> v" "v < 2 ^ 31" and r: "r = [] \<or> \<not> wdigit (hd r)"
  shows "scan_int ovf (wdec v @ r) = Some (v, r)"
proof -
  show ?thesis
  proof (cases "v < 0")
    case True
    have "\<not> wblank 0x2D" by (simp add: wblank_def word_le_def)
    then show ?thesis
      using True v takeWhile_dec [OF r, of "nat (- v)"] digits_val_app [OF r, of "nat (- v)"]
        dec_digits_hd [of "nat (- v)"]
      by (auto simp: scan_int_def Let_def wdec_def)
  next
    case False
    obtain c t where d: "dec_digits (nat v) = c # t" "wdigit c" using dec_digits_hd by blast
    note n = digit_not [OF d(2)]
    have h: "dropWhile wblank (wdec v @ r) = dec_digits (nat v) @ r" using False d n by (simp add: wdec_def)
    have s: "hd (dec_digits (nat v)) \<noteq> 0x2D" "hd (dec_digits (nat v)) \<noteq> 0x2B"
      "dec_digits (nat v) \<noteq> []" using d n by simp_all
    show ?thesis
      using False v takeWhile_dec [OF r, of "nat v"] digits_val_app [OF r, of "nat v"]
      by (simp add: scan_int_def Let_def h s)
  qed
qed

lemma scan_list_step:
  assumes "- (2 ^ 31) \<le> v" "v < 2 ^ 31"
  shows "scan_list ovf (Suc n) (wdec v @ 0x2C # r) = v # scan_list ovf n r"
    and "scan_list ovf (Suc n) (wdec v) = [v]"
proof -
  have c: "\<not> wdigit 0x2C" by (simp add: wdigit_def word_le_def)
  show "scan_list ovf (Suc n) (wdec v @ 0x2C # r) = v # scan_list ovf n r"
    using scan_int_dec [OF assms, of "0x2C # r" ovf] c by simp
  show "scan_list ovf (Suc n) (wdec v) = [v]"
    using scan_int_dec [OF assms, of "[]" ovf] by simp
qed

lemma load_placement_text:
  assumes "l < rr" "t < b" "- (2 ^ 31) \<le> l" "rr < 2 ^ 31" "- (2 ^ 31) \<le> t" "b < 2 ^ 31"
  shows "LoadWindowPlacement ovf d work (placement_text (mk_rect l t rr b) m) =
    Some (ClampWindowRect d work (mk_rect l t rr b), m)"
proof -
  let ?p = "placement_text (mk_rect l t rr b) m"
  have five: "(5::nat) = Suc (Suc (Suc (Suc (Suc 0))))" by simp
  have z: "- (2 ^ 31) \<le> l" "l < 2 ^ 31" "- (2 ^ 31) \<le> t" "t < 2 ^ 31" "- (2 ^ 31) \<le> rr" "rr < 2 ^ 31"
    "- (2 ^ 31) \<le> b" "b < 2 ^ 31" using assms by linarith+
  have "scan_list ovf 5 ?p = [l, t, rr, b, if m then 1 else 0]"
    using z by (simp add: placement_text_def mk_rect_def five scan_list_step del: scan_list.simps(2))
  moreover have "?p \<noteq> []" by (simp add: placement_text_def)
  ultimately show ?thesis using assms(1,2) by (simp add: LoadWindowPlacement_def mk_rect_def)
qed

text \<open>
  Whatever text is stored under \<open>Window/Placement\<close>, the rectangle that is restored lies in
  the work area, and on each axis it has the minimum extent or fills the work area.
\<close>

theorem placement_on_screen:
  assumes "LoadWindowPlacement ovf d work placement = Some (r, m)"
    and "r_left work < r_right work" "r_top work < r_bottom work"
  shows "r_left work \<le> r_left r \<and> r_right r \<le> r_right work \<and>
    r_top work \<le> r_top r \<and> r_bottom r \<le> r_bottom work \<and>
    (dpi_scale d 320 \<le> r_right r - r_left r \<or> r_left r = r_left work \<and> r_right r = r_right work) \<and>
    (dpi_scale d 240 \<le> r_bottom r - r_top r \<or> r_top r = r_top work \<and> r_bottom r = r_bottom work)"
proof -
  from assms(1) obtain q where "r = ClampWindowRect d work q"
    unfolding LoadWindowPlacement_def by (fastforce split: if_splits list.splits)
  moreover obtain a b where h: "clamp_axis (r_left work) (r_right work) (dpi_scale d 320) (r_left q) (r_right q) = (a, b)"
    by fastforce
  moreover obtain a' b' where v: "clamp_axis (r_top work) (r_bottom work) (dpi_scale d 240) (r_top q) (r_bottom q) = (a', b')"
    by fastforce
  ultimately have r: "r_left r = a" "r_right r = b" "r_top r = a'" "r_bottom r = b'"
    by (simp_all add: ClampWindowRect_def mk_rect_def)
  show ?thesis
    unfolding r using clamp_axis_inside [OF assms(2) h] clamp_axis_inside [OF assms(3) v] by blast
qed

text \<open>
  C32. A window that was placed inside the work area, not smaller than the minimum, gets the same
  rectangle and the same maximised flag back from the text that was stored for it.
\<close>

theorem placement_roundtrip:
  assumes "r_left work \<le> l" "rr \<le> r_right work" "r_top work \<le> t" "b \<le> r_bottom work"
    and "dpi_scale d 320 \<le> rr - l" "dpi_scale d 240 \<le> b - t" "l < rr" "t < b"
    and "- (2 ^ 31) \<le> l" "rr < 2 ^ 31" "- (2 ^ 31) \<le> t" "b < 2 ^ 31"
  shows "LoadWindowPlacement ovf d work (placement_text (mk_rect l t rr b) m) = Some (mk_rect l t rr b, m)"
proof -
  have "ClampWindowRect d work (mk_rect l t rr b) = mk_rect l t rr b"
    using assms by (simp add: ClampWindowRect_def mk_rect_def clamp_axis_id)
  then show ?thesis using load_placement_text [of l rr t b] assms(7-12) by simp
qed

lemma placement_roundtrip_witness:
  "LoadWindowPlacement (\<lambda>v. v) 96 (mk_rect (-1920) 0 0 1040)
     (placement_text (mk_rect (-1900) 10 (-900) 700) True) = Some (mk_rect (-1900) 10 (-900) 700, True)"
  by (rule placement_roundtrip) (simp_all add: mk_rect_def dpi_scale_96)

lemma placement_on_screen_witness:
  "r_right (mk_rect 880 300 1920 1000) \<le> r_right (mk_rect 0 0 1920 1040)"
proof -
  have "LoadWindowPlacement (\<lambda>v. v) 96 (mk_rect 0 0 1920 1040) (placement_text (mk_rect 5000 300 6040 1000) False) =
      Some (mk_rect 880 300 1920 1000, False)"
    using load_placement_text [of 5000 6040 300 1000 "\<lambda>v. v" 96 "mk_rect 0 0 1920 1040" False]
    by (simp add: ClampWindowRect_def clamp_axis_def dpi_scale_96 mk_rect_def)
  from placement_on_screen [OF this] show ?thesis by (simp add: mk_rect_def)
qed

section \<open>Buttons and recent items\<close>

text \<open>
  The enabled buttons are those whose command does something: previous and next move to
  another file, zooming in and out succeeds.
\<close>

theorem buttons_match_commands:
  fixes d :: "('h, 'w, 'img) doc"
  assumes "-1 \<le> diridx d" "diridx d < int (length (dirfiles d))"
  shows "(can_prev (UpdateButtonStates c im v d) \<longleftrightarrow> fst (navigate E NAV_PREV d) \<noteq> Nothing) \<and>
    (can_next (UpdateButtonStates c im v d) \<longleftrightarrow> fst (navigate E NAV_NEXT d) \<noteq> Nothing) \<and>
    (can_zoom_in (UpdateButtonStates c im v d) \<longleftrightarrow> fst (zoom c im 1 False v) = 0) \<and>
    (can_zoom_out (UpdateButtonStates c im v d) \<longleftrightarrow> fst (zoom c im (-1) False v) = 0)"
proof (intro conjI)
  show "can_prev (UpdateButtonStates c im v d) \<longleftrightarrow> fst (navigate E NAV_PREV d) \<noteq> Nothing"
    using assms by (auto simp: UpdateButtonStates_def navigate_def nav_target_def Let_def split: prod.splits)
  show "can_next (UpdateButtonStates c im v d) \<longleftrightarrow> fst (navigate E NAV_NEXT d) \<noteq> Nothing"
    using assms by (auto simp: UpdateButtonStates_def navigate_def nav_target_def Let_def split: prod.splits)
  show "can_zoom_in (UpdateButtonStates c im v d) \<longleftrightarrow> fst (zoom c im 1 False v) = 0"
    by (simp add: UpdateButtonStates_def zoom_def Let_def split: option.splits prod.splits)
  show "can_zoom_out (UpdateButtonStates c im v d) \<longleftrightarrow> fst (zoom c im (-1) False v) = 0"
    by (simp add: UpdateButtonStates_def zoom_def Let_def split: option.splits prod.splits)
qed

lemma buttons_match_commands_witness:
  "can_next (UpdateButtonStates c None v (ex_doc\<lparr>diridx := 0\<rparr>)) \<longleftrightarrow>
     fst (navigate ex_env NAV_NEXT (ex_doc\<lparr>diridx := 0\<rparr>)) \<noteq> Nothing"
  using buttons_match_commands [of "ex_doc\<lparr>diridx := 0\<rparr>" c None v ex_env] ex_doc_state by simp

text \<open>
  Every item of the recent popup is in the range of identifiers that \<open>OnCommand\<close> sends to
  \<open>OpenRecentFile\<close>, which then takes the entry the item shows.
\<close>

lemma recent_items_open:
  assumes "es \<noteq> []" "j < length (recent_menu uw es)"
  shows "OnCommand ss lv (fst (recent_menu uw es ! j)) = [OpenRecent (fst (recent_menu uw es ! j))]"
    and "nat (fst (recent_menu uw es ! j) - ID_FILE_RECENT_FIRST) = j \<and> j < length es"
    and "snd (recent_menu uw es ! j) = DisplayText uw es (int j)"
  using assms by (simp_all add: recent_menu_def OnCommand_def id_defs MAX_ITEMS_def)

text \<open>The two ranges and the switch do not meet: a command makes at most one call.\<close>

lemma OnCommand_one: "length (OnCommand ss lv i) \<le> 1"
  by (simp add: OnCommand_def switch_command_def id_defs)

end
