(* ===== verification/Pixels.thy ===== *)
theory Pixels
  imports Bitmap
begin

text \<open>
  The pixels of obZrv/BasicBitmap: reading and writing one pixel of a row, the assembly and
  disassembly of the ten formats (the scale tables and macros of BasicBitmap.h), the row
  conversions \<open>Fetch\<close> and \<open>Store\<close> to and from \<open>A8R8G8B8\<close>, the raw and the converted accesses
  \<open>GetPixel\<close>/\<open>SetPixel\<close>, \<open>GetColor\<close>/\<open>SetColor\<close>, and the operations on a row of
  \<open>A8R8G8B8\<close> pixels (cards). A row is its bytes, as in Bitmap; the little-endian variants of
  the macros are the ones modelled. The locale \<open>raster\<close> is what the drawing code relies on of
  a row: a pixel that is written reads back cut to the pixel size and no other pixel moves.
\<close>

unbundle bit_operations_syntax

section \<open>Rows of pixels\<close>

text \<open>\<open>_pixel_fetch\<close> and \<open>_pixel_store\<close> for 8, 16, 24 and 32 bits: \<open>ps\<close> is the pixel size.\<close>

definition px_get :: "nat \<Rightarrow> bytes \<Rightarrow> nat \<Rightarrow> u32" where
  "px_get ps bs x = le_word (take ps (drop (ps * x) bs))"

definition px_put :: "nat \<Rightarrow> bytes \<Rightarrow> nat \<Rightarrow> u32 \<Rightarrow> bytes" where
  "px_put ps bs x c = take (ps * x) bs @ le_bytes ps c @ drop (ps * x + ps) bs"

definition px_width :: "nat \<Rightarrow> bytes \<Rightarrow> nat" where
  "px_width ps bs = length bs div ps"

definition px_wrap :: "nat \<Rightarrow> u32 \<Rightarrow> u32" where
  "px_wrap ps c = take_bit (8 * ps) c"

text \<open>The loops that write consecutive pixels: from \<open>x\<close> on, one value each.\<close>

fun put_list :: "('r \<Rightarrow> nat \<Rightarrow> 'p \<Rightarrow> 'r) \<Rightarrow> 'r \<Rightarrow> nat \<Rightarrow> 'p list \<Rightarrow> 'r" where
  "put_list put r x [] = r"
| "put_list put r x (c # cs) = put_list put (put r x c) (Suc x) cs"

text \<open>The loops that exchange pixels from both ends, as \<open>FlipHorizontal\<close> does.\<close>

fun swap_ends :: "('r \<Rightarrow> nat \<Rightarrow> 'p) \<Rightarrow> ('r \<Rightarrow> nat \<Rightarrow> 'p \<Rightarrow> 'r) \<Rightarrow> 'r \<Rightarrow> nat \<Rightarrow> nat \<Rightarrow> 'r" where
  "swap_ends get put r x1 0 = r"
| "swap_ends get put r x1 (Suc x2) =
     (if x1 < Suc x2
      then swap_ends get put (put (put r x1 (get r (Suc x2))) (Suc x2) (get r x1)) (Suc x1) x2
      else r)"

locale raster =
  fixes get :: "'r \<Rightarrow> nat \<Rightarrow> 'p"
    and put :: "'r \<Rightarrow> nat \<Rightarrow> 'p \<Rightarrow> 'r"
    and width :: "'r \<Rightarrow> nat"
    and wrap :: "'p \<Rightarrow> 'p"
  assumes width_put: "x < width r \<Longrightarrow> width (put r x c) = width r"
    and get_put: "x < width r \<Longrightarrow> y < width r \<Longrightarrow>
      get (put r x c) y = (if y = x then wrap c else get r y)"
    and wrap_get: "x < width r \<Longrightarrow> wrap (get r x) = get r x"
begin

lemma width_put_list: "x + length cs \<le> width r \<Longrightarrow> width (put_list put r x cs) = width r"
  by (induction cs arbitrary: r x) (simp_all add: width_put)

lemma get_put_list:
  "x + length cs \<le> width r \<Longrightarrow> y < width r \<Longrightarrow> get (put_list put r x cs) y =
     (if x \<le> y \<and> y < x + length cs then wrap (cs ! (y - x)) else get r y)"
  by (induction cs arbitrary: r x)
    (auto simp: width_put get_put nth_Cons' Suc_diff_Suc dest: le_antisym)

lemma get_swap_ends:
  "x2 < width r \<Longrightarrow> y < width r \<Longrightarrow> width (swap_ends get put r x1 x2) = width r \<and>
   get (swap_ends get put r x1 x2) y =
     (if x1 \<le> y \<and> y \<le> x2 then get r (x1 + x2 - y) else get r y)"
proof (induction x2 arbitrary: r x1)
  case 0
  then show ?case by auto
next
  case (Suc x2)
  show ?case
  proof (cases "x1 < Suc x2")
    case False
    then have "x1 \<le> y \<and> y \<le> Suc x2 \<Longrightarrow> x1 + Suc x2 - y = y" by arith
    with False show ?thesis by auto
  next
    case True
    define r' where "r' = put (put r x1 (get r (Suc x2))) (Suc x2) (get r x1)"
    have w: "width (put r x1 (get r (Suc x2))) = width r" "width r' = width r"
      using Suc.prems True by (simp_all add: r'_def width_put)
    have g: "get r' z = (if z = x1 then get r (Suc x2) else if z = Suc x2 then get r x1 else get r z)"
      if "z < width r" for z
      using that Suc.prems True by (simp add: r'_def get_put w wrap_get)
    have e: "swap_ends get put r x1 (Suc x2) = swap_ends get put r' (Suc x1) x2"
      using True by (simp add: r'_def)
    have "width (swap_ends get put r' (Suc x1) x2) = width r' \<and>
        get (swap_ends get put r' (Suc x1) x2) y =
        (if Suc x1 \<le> y \<and> y \<le> x2 then get r' (Suc x1 + x2 - y) else get r' y)"
      using Suc.prems w by (intro Suc.IH) simp_all
    moreover have "Suc x1 \<le> y \<Longrightarrow> y \<le> x2 \<Longrightarrow> get r' (Suc x1 + x2 - y) = get r (x1 + Suc x2 - y)"
      using Suc.prems True by (subst g) auto
    moreover have "get r' y = (if y = x1 then get r (Suc x2) else if y = Suc x2 then get r x1 else get r y)"
      using Suc.prems by (intro g)
    ultimately show ?thesis unfolding e using True w Suc.prems
      by (cases "y = x1"; cases "y = Suc x2") auto
  qed
qed

end

lemma px_width_less: "0 < ps \<Longrightarrow> x < px_width ps bs \<longleftrightarrow> ps * x + ps \<le> length bs"
  using less_eq_div_iff_mult_less_eq[of ps "Suc x" "length bs"]
  by (simp add: px_width_def Suc_le_eq mult.commute add.commute)

interpretation row_raster: raster "px_get ps" "px_put ps" "px_width ps" "px_wrap ps" for ps
proof
  fix x y bs c
  show "x < px_width ps bs \<Longrightarrow> px_width ps (px_put ps bs x c) = px_width ps bs"
    using px_width_less[of ps x bs] by (cases "ps = 0") (auto simp: px_width_def px_put_def)
  show "x < px_width ps bs \<Longrightarrow> px_wrap ps (px_get ps bs x) = px_get ps bs x"
    using px_width_less[of ps x bs] le_word_bound[of "take ps (drop (ps * x) bs)"]
    by (cases "ps = 0") (auto simp: px_get_def px_wrap_def px_width_def)
  assume "x < px_width ps bs" "y < px_width ps bs"
  then have b: "ps * x + ps \<le> length bs" "ps * y + ps \<le> length bs"
    by (cases "ps = 0"; simp add: px_width_less; simp add: px_width_def)+
  consider "y < x" | "y = x" | "x < y" by linarith
  then show "px_get ps (px_put ps bs x c) y = (if y = x then px_wrap ps c else px_get ps bs y)"
  proof cases
    case 1
    then have "ps * Suc y \<le> ps * x" by (intro mult_le_mono2) simp
    then show ?thesis using 1 b
      by (simp add: px_put_def px_get_def min_def take_drop)
  next
    case 2
    then show ?thesis using b by (simp add: px_put_def px_get_def px_wrap_def le_word_le_bytes)
  next
    case 3
    then have "ps * Suc x \<le> ps * y" by (intro mult_le_mono2) simp
    then show ?thesis using 3 b
      by (simp add: px_put_def px_get_def)
  qed
qed

section \<open>Assembly and disassembly\<close>

definition pixel_scale_5 :: "u32 list" where
  "pixel_scale_5 = [0, 8, 16, 24, 32, 41, 49, 57, 65, 74, 82, 90, 98, 106, 115, 123,
     131, 139, 148, 156, 164, 172, 180, 189, 197, 205, 213, 222, 230, 238, 246, 255]"

definition pixel_scale_6 :: "u32 list" where
  "pixel_scale_6 = [0, 4, 8, 12, 16, 20, 24, 28, 32, 36, 40, 44, 48, 52, 56, 60,
     64, 68, 72, 76, 80, 85, 89, 93, 97, 101, 105, 109, 113, 117, 121, 125,
     129, 133, 137, 141, 145, 149, 153, 157, 161, 165, 170, 174, 178, 182, 186, 190,
     194, 198, 202, 206, 210, 214, 218, 222, 226, 230, 234, 238, 242, 246, 250, 255]"

definition pixel_scale_1 :: "u32 list" where
  "pixel_scale_1 = [0, 255]"

definition pixel_norm :: "u32 \<Rightarrow> u32" where
  "pixel_norm c = drop_bit 7 c + c"

definition pixel_to_gray :: "u32 \<Rightarrow> u32 \<Rightarrow> u32 \<Rightarrow> u32" where
  "pixel_to_gray r g b = drop_bit 16 (19595 * r + 38469 * g + 7472 * b)"

definition pixel_asm_8888 :: "u32 \<Rightarrow> u32 \<Rightarrow> u32 \<Rightarrow> u32 \<Rightarrow> u32" where
  "pixel_asm_8888 a b c d = push_bit 24 a OR push_bit 16 b OR push_bit 8 c OR d"

definition pixel_asm_565 :: "u32 \<Rightarrow> u32 \<Rightarrow> u32 \<Rightarrow> u16" where
  "pixel_asm_565 a b c = push_bit 8 (ucast (a AND 0xf8)) OR push_bit 3 (ucast (b AND 0xfc)) OR
     drop_bit 3 (ucast (c AND 0xf8))"

text \<open>Disassembly. The results are in the order the macro assigns them.\<close>

definition pixel_disasm_8888 :: "u32 \<Rightarrow> u32 \<times> u32 \<times> u32 \<times> u32" where
  "pixel_disasm_8888 x = (drop_bit 24 x AND 0xff, drop_bit 16 x AND 0xff, drop_bit 8 x AND 0xff,
     x AND 0xff)"

definition scale_1 :: "u32 \<Rightarrow> u32" where
  "scale_1 x = pixel_scale_1 ! unat (drop_bit 15 x)"

definition scale_5 :: "u32 \<Rightarrow> nat \<Rightarrow> u32" where
  "scale_5 x k = pixel_scale_5 ! unat (drop_bit k x AND 0x1f)"

definition scale_6 :: "u32 \<Rightarrow> nat \<Rightarrow> u32" where
  "scale_6 x k = pixel_scale_6 ! unat (drop_bit k x AND 0x3f)"

definition scale_4w :: "u32 \<Rightarrow> nat \<Rightarrow> u32" where
  "scale_4w x k = pixel_scale_4 ! unat (drop_bit k x AND 0xf)"

definition pixel_disasm_1555 :: "u32 \<Rightarrow> u32 \<times> u32 \<times> u32 \<times> u32" where
  "pixel_disasm_1555 x = (scale_1 x, scale_5 x 10, scale_5 x 5, scale_5 x 0)"

definition pixel_disasm_X555 :: "u32 \<Rightarrow> u32 \<times> u32 \<times> u32" where
  "pixel_disasm_X555 x = (scale_5 x 10, scale_5 x 5, scale_5 x 0)"

definition pixel_disasm_565 :: "u32 \<Rightarrow> u32 \<times> u32 \<times> u32" where
  "pixel_disasm_565 x = (scale_5 x 11, scale_6 x 5, scale_5 x 0)"

definition pixel_disasm_4444 :: "u32 \<Rightarrow> u32 \<times> u32 \<times> u32 \<times> u32" where
  "pixel_disasm_4444 x = (scale_4w x 12, scale_4w x 8, scale_4w x 4, scale_4w x 0)"

definition swap_rb :: "u32 \<Rightarrow> u32" where
  "swap_rb c = (c AND 0xff00ff00) OR drop_bit 16 (c AND 0xff0000) OR push_bit 16 (c AND 0xff)"

section \<open>Row conversions\<close>

text \<open>What one turn of the loop of \<open>Fetch\<close> makes of a raw pixel, and \<open>Store\<close> of a card.\<close>

fun fetch_px :: "pixel_fmt \<Rightarrow> u32 \<Rightarrow> u32" where
  "fetch_px G8 cc = pixel_asm_8888 255 cc cc cc"
| "fetch_px A1R5G5B5 cc = (case pixel_disasm_1555 cc of (a, r, g, b) \<Rightarrow> pixel_asm_8888 a r g b)"
| "fetch_px A4R4G4B4 cc = (case pixel_disasm_4444 cc of (a, r, g, b) \<Rightarrow> pixel_asm_8888 a r g b)"
| "fetch_px R5G6B5 cc = (case pixel_disasm_565 cc of (r, g, b) \<Rightarrow> pixel_asm_8888 255 r g b)"
| "fetch_px X1R5G5B5 cc = (case pixel_disasm_X555 cc of (r, g, b) \<Rightarrow> pixel_asm_8888 255 r g b)"
| "fetch_px R8G8B8 cc = cc OR 0xff000000"
| "fetch_px A8R8G8B8 cc = cc"
| "fetch_px A8B8G8R8 cc = swap_rb cc"
| "fetch_px X8R8G8B8 cc = cc OR 0xff000000"
| "fetch_px UNKNOW cc = cc"

fun store_px :: "pixel_fmt \<Rightarrow> u32 \<Rightarrow> u32" where
  "store_px G8 c = (case pixel_disasm_8888 c of (a, r, g, b) \<Rightarrow> pixel_to_gray r g b)"
| "store_px A1R5G5B5 c = (case pixel_disasm_8888 c of (a, r, g, b) \<Rightarrow> ucast (pixel_asm_1555 a r g b))"
| "store_px A4R4G4B4 c = (case pixel_disasm_8888 c of (a, r, g, b) \<Rightarrow> ucast (pixel_asm_4444 a r g b))"
| "store_px R5G6B5 c = (case pixel_disasm_8888 c of (a, r, g, b) \<Rightarrow> ucast (pixel_asm_565 r g b))"
| "store_px X1R5G5B5 c = (case pixel_disasm_8888 c of (a, r, g, b) \<Rightarrow> ucast (pixel_asm_1555 0 r g b))"
| "store_px R8G8B8 c = c"
| "store_px A8R8G8B8 c = c"
| "store_px A8B8G8R8 c = swap_rb c"
| "store_px X8R8G8B8 c = c AND 0xffffff"
| "store_px UNKNOW c = c"

text \<open>The buffer of \<open>Fetch\<close> is the list it returns; \<open>UNKNOW\<close> writes nothing.\<close>

definition Fetch :: "pixel_fmt \<Rightarrow> bytes \<Rightarrow> nat \<Rightarrow> nat \<Rightarrow> u32 list" where
  "Fetch fmt bits x w = (if fmt = UNKNOW then []
     else map (\<lambda>i. fetch_px fmt (px_get (pixelsize fmt) bits (x + i))) [0..<w])"

definition Store :: "pixel_fmt \<Rightarrow> bytes \<Rightarrow> nat \<Rightarrow> u32 list \<Rightarrow> bytes" where
  "Store fmt bits x buffer = (if fmt = UNKNOW then bits
     else put_list (px_put (pixelsize fmt)) bits x (map (store_px fmt) buffer))"

section \<open>A raw pixel survives the conversion to a card and back\<close>

text \<open>The bits a format keeps of a raw pixel: all but the unused ones of the X formats.\<close>

fun raw_mask :: "pixel_fmt \<Rightarrow> u32" where
  "raw_mask X8R8G8B8 = 0xffffff" | "raw_mask X1R5G5B5 = 0x7fff" | "raw_mask f = mask (fmt_bpp f)"

abbreviation is_byte :: "u32 \<Rightarrow> bool" where
  "is_byte c \<equiv> c AND 0xff = c"

lemma is_byte_bit: "is_byte c \<Longrightarrow> bit c n \<Longrightarrow> n < 8"
proof -
  assume "is_byte c" "bit c n"
  then have "bit (c AND 0xff) n" by simp
  then show "n < 8" by (simp add: mask_eq bit_simps)
qed

lemma is_byte_and [simp]: "is_byte (c AND 0xff)"
  by (simp add: and.assoc)

lemma is_byte_nat: "is_byte c \<longleftrightarrow> unat c \<le> 255"
proof
  show "is_byte c \<Longrightarrow> unat c \<le> 255" using byte_le(1)[of c] by simp
  assume "unat c \<le> 255"
  then have "unat (c AND 0xff) = unat c"
    unfolding mask_eq by (simp only: unsigned_take_bit_eq flip: take_bit_eq_mask) (simp add: take_bit_eq_mod)
  then show "is_byte c" by (simp only: word_unat_eq_iff)
qed

lemma disasm_asm_8888:
  assumes "is_byte a" and "is_byte b" and "is_byte c" and "is_byte d"
  shows "pixel_disasm_8888 (pixel_asm_8888 a b c d) = (a, b, c, d)"
  unfolding pixel_disasm_8888_def pixel_asm_8888_def mask_eq prod.inject
  by (intro conjI; rule bit_word_eqI;
      auto simp: bit_simps dest: assms[THEN is_byte_bit])

lemma asm_disasm_8888:
  "(case pixel_disasm_8888 c of (a, r, g, b) \<Rightarrow> pixel_asm_8888 a r g b) = c"
  unfolding pixel_disasm_8888_def pixel_asm_8888_def mask_eq prod.case
proof (rule bit_word_eqI)
  fix n assume "n < LENGTH(32)"
  then show "bit (push_bit 24 (drop_bit 24 c AND mask 8) OR push_bit 16 (drop_bit 16 c AND mask 8) OR
      push_bit 8 (drop_bit 8 c AND mask 8) OR c AND mask 8) n = bit c n"
    by (cases "24 \<le> n"; cases "16 \<le> n"; cases "8 \<le> n") (auto simp: bit_simps)
qed

lemma disasm_bytes:
  "pixel_disasm_8888 c = (a, r, g, b) \<Longrightarrow> is_byte a \<and> is_byte r \<and> is_byte g \<and> is_byte b"
  by (auto simp: pixel_disasm_8888_def)

lemma swap_rb_swap: "swap_rb (swap_rb c) = c"
proof (rule bit_word_eqI)
  have m: "(0xff00ff00 :: u32) = push_bit 24 (mask 8) OR push_bit 8 (mask 8)"
    "(0xff0000 :: u32) = push_bit 16 (mask 8)" "(0xff :: u32) = mask 8"
    by (simp_all add: mask_eq_exp_minus_1)
  fix n assume "n < LENGTH(32)"
  then show "bit (swap_rb (swap_rb c)) n = bit c n" unfolding swap_rb_def m
    by (cases "24 \<le> n"; cases "16 \<le> n"; cases "8 \<le> n") (auto simp: bit_simps)
qed

text \<open>The scale tables keep the bits they scale in the top of the byte.\<close>

lemma scale_table_5: "v < 32 \<Longrightarrow> pixel_scale_5 ! v AND 0xf8 = push_bit 3 (word_of_nat v) \<and>
    is_byte (pixel_scale_5 ! v)"
proof -
  have "list_all (\<lambda>v. pixel_scale_5 ! v AND 0xf8 = push_bit 3 (word_of_nat v) \<and>
      is_byte (pixel_scale_5 ! v)) [0..<32]" by code_simp
  then show "v < 32 \<Longrightarrow> ?thesis" by (simp add: list_all_iff)
qed

lemma scale_table_6: "v < 64 \<Longrightarrow> pixel_scale_6 ! v AND 0xfc = push_bit 2 (word_of_nat v) \<and>
    is_byte (pixel_scale_6 ! v)"
proof -
  have "list_all (\<lambda>v. pixel_scale_6 ! v AND 0xfc = push_bit 2 (word_of_nat v) \<and>
      is_byte (pixel_scale_6 ! v)) [0..<64]" by code_simp
  then show "v < 64 \<Longrightarrow> ?thesis" by (simp add: list_all_iff)
qed

lemma scale_table_4: "v < 16 \<Longrightarrow> pixel_scale_4 ! v AND 0xf0 = push_bit 4 (word_of_nat v) \<and>
    is_byte (pixel_scale_4 ! v)"
proof -
  have "list_all (\<lambda>v. pixel_scale_4 ! v AND 0xf0 = push_bit 4 (word_of_nat v) \<and>
      is_byte (pixel_scale_4 ! v)) [0..<16]" by code_simp
  then show "v < 16 \<Longrightarrow> ?thesis" by (simp add: list_all_iff)
qed

lemma unat_and_mask: "unat (x AND mask n :: u32) < 2 ^ n"
  by (simp only: unsigned_take_bit_eq flip: take_bit_eq_mask) (simp add: take_bit_eq_mod)

lemma scale_word:
  "scale_5 x k AND 0xf8 = push_bit 3 (drop_bit k x AND mask 5)" "is_byte (scale_5 x k)"
  "scale_6 x k AND 0xfc = push_bit 2 (drop_bit k x AND mask 6)" "is_byte (scale_6 x k)"
  "scale_4w x k AND 0xf0 = push_bit 4 (drop_bit k x AND mask 4)" "is_byte (scale_4w x k)"
proof -
  have m: "(0x1f :: u32) = mask 5" "(0x3f :: u32) = mask 6" "(0xf :: u32) = mask 4"
    by (simp_all add: mask_eq_exp_minus_1)
  show "scale_5 x k AND 0xf8 = push_bit 3 (drop_bit k x AND mask 5)" "is_byte (scale_5 x k)"
    "scale_6 x k AND 0xfc = push_bit 2 (drop_bit k x AND mask 6)" "is_byte (scale_6 x k)"
    "scale_4w x k AND 0xf0 = push_bit 4 (drop_bit k x AND mask 4)" "is_byte (scale_4w x k)"
    unfolding scale_5_def scale_6_def scale_4w_def m
    using scale_table_5[of "unat (drop_bit k x AND mask 5)"]
      scale_table_6[of "unat (drop_bit k x AND mask 6)"]
      scale_table_4[of "unat (drop_bit k x AND mask 4)"]
      unat_and_mask[of "drop_bit k x" 5] unat_and_mask[of "drop_bit k x" 6]
      unat_and_mask[of "drop_bit k x" 4]
    by simp_all
qed

lemma wrap16_bit: "px_wrap 2 x = x \<Longrightarrow> bit x n \<Longrightarrow> n < 16"
  unfolding px_wrap_def by (metis bit_take_bit_iff mult_2_right numeral_Bit0 numeral_code(2))

lemma pack_565: "px_wrap 2 x = x \<Longrightarrow>
    ucast (pixel_asm_565 (scale_5 x 11) (scale_6 x 5) (scale_5 x 0)) = x"
  unfolding pixel_asm_565_def scale_word
proof (rule bit_word_eqI)
  fix n assume x: "px_wrap 2 x = x"
  show "bit (ucast (push_bit 8 (ucast (push_bit 3 (drop_bit 11 x AND mask 5))) OR
      push_bit 3 (ucast (push_bit 2 (drop_bit 5 x AND mask 6))) OR
      drop_bit 3 (ucast (push_bit 3 (drop_bit 0 x AND mask 5))) :: u16) :: u32) n = bit x n"
    by (cases "11 \<le> n"; cases "5 \<le> n") (auto simp: bit_simps dest: wrap16_bit[OF x])
qed

lemma pack_X555: "px_wrap 2 x = x \<Longrightarrow>
    ucast (pixel_asm_1555 0 (scale_5 x 10) (scale_5 x 5) (scale_5 x 0)) = x AND 0x7fff"
proof (rule bit_word_eqI)
  have m: "(0x7fff :: u32) = mask 15" by (simp add: mask_eq_exp_minus_1)
  fix n assume x: "px_wrap 2 x = x"
  show "bit (ucast (pixel_asm_1555 0 (scale_5 x 10) (scale_5 x 5) (scale_5 x 0)) :: u32) n =
      bit (x AND 0x7fff) n"
    unfolding pixel_asm_1555_def scale_word m
    by (cases "10 \<le> n"; cases "5 \<le> n") (auto simp: bit_simps dest: wrap16_bit[OF x])
qed

lemma scale_1_bits:
  assumes "px_wrap 2 x = x"
  shows "scale_1 x AND 0x80 = push_bit 7 (drop_bit 15 x)" "is_byte (scale_1 x)"
proof -
  have "drop_bit 15 x = of_bool (bit x 15)"
  proof (rule bit_word_eqI)
    fix n show "bit (drop_bit 15 x) n = bit (of_bool (bit x 15) :: u32) n"
      using wrap16_bit[OF assms, of "15 + n"] by (cases n) (auto simp: bit_simps)
  qed
  then show "scale_1 x AND 0x80 = push_bit 7 (drop_bit 15 x)" "is_byte (scale_1 x)"
    by (cases "bit x 15"; simp add: scale_1_def pixel_scale_1_def)+
qed

lemma pack_1555: "px_wrap 2 x = x \<Longrightarrow>
    ucast (pixel_asm_1555 (scale_1 x) (scale_5 x 10) (scale_5 x 5) (scale_5 x 0)) = x"
proof (rule bit_word_eqI)
  fix n assume x: "px_wrap 2 x = x"
  show "bit (ucast (pixel_asm_1555 (scale_1 x) (scale_5 x 10) (scale_5 x 5) (scale_5 x 0)) :: u32) n =
      bit x n"
    unfolding pixel_asm_1555_def scale_word scale_1_bits[OF x]
    by (cases "15 \<le> n"; cases "10 \<le> n"; cases "5 \<le> n") (auto simp: bit_simps dest: wrap16_bit[OF x])
qed

lemma pack_4444: "px_wrap 2 x = x \<Longrightarrow>
    ucast (pixel_asm_4444 (scale_4w x 12) (scale_4w x 8) (scale_4w x 4) (scale_4w x 0)) = x"
proof (rule bit_word_eqI)
  fix n assume x: "px_wrap 2 x = x"
  show "bit (ucast (pixel_asm_4444 (scale_4w x 12) (scale_4w x 8) (scale_4w x 4) (scale_4w x 0)) :: u32) n =
      bit x n"
    unfolding pixel_asm_4444_def scale_word
    by (cases "12 \<le> n"; cases "8 \<le> n"; cases "4 \<le> n") (auto simp: bit_simps dest: wrap16_bit[OF x])
qed

lemma gray_of_gray:
  assumes "is_byte c"
  shows "pixel_to_gray c c c = c"
proof -
  have "19595 * c + 38469 * c + 7472 * c = push_bit 16 c"
    by (simp add: push_bit_eq_mult flip: distrib_right)
  moreover have "drop_bit 16 (push_bit 16 c) = c"
    using is_byte_bit[OF assms] by (intro bit_word_eqI) (fastforce simp: bit_simps)
  ultimately show ?thesis by (simp add: pixel_to_gray_def)
qed

lemma store_fetch_px:
  assumes "f \<noteq> UNKNOW" and "px_wrap (pixelsize f) cc = cc"
  shows "px_wrap (pixelsize f) (store_px f (fetch_px f cc)) = cc AND raw_mask f"
proof -
  have and_mask: "px_wrap k cc = cc \<Longrightarrow> cc AND mask (8 * k) = cc" for k
    by (simp add: px_wrap_def take_bit_eq_mask)
  show ?thesis
  proof (cases f)
    case A8R8G8B8
    then show ?thesis by (simp add: pixelsize_def px_wrap_def take_bit_eq_mask)
  next
    case A8B8G8R8
    then show ?thesis by (simp add: pixelsize_def px_wrap_def take_bit_eq_mask swap_rb_swap)
  next
    case X8R8G8B8
    have "(cc OR 0xff000000) AND 0xffffff = cc AND 0xffffff" by (simp add: bit.conj_disj_distrib2)
    then show ?thesis using X8R8G8B8
      by (simp add: pixelsize_def px_wrap_def take_bit_length_eq[where 'a = 32, simplified])
  next
    case R8G8B8
    have "(cc OR 0xff000000) AND mask 24 = cc AND mask 24"
      by (simp add: bit.conj_disj_distrib2 mask_eq_exp_minus_1)
    then show ?thesis using R8G8B8 by (simp add: pixelsize_def px_wrap_def take_bit_eq_mask)
  next
    case R5G6B5
    then have "px_wrap 2 cc = cc" using assms(2) by (simp add: pixelsize_def)
    then show ?thesis using R5G6B5 and_mask[of 2]
      by (simp add: pixelsize_def pixel_disasm_565_def disasm_asm_8888 scale_word pack_565)
  next
    case A1R5G5B5
    then have "px_wrap 2 cc = cc" using assms(2) by (simp add: pixelsize_def)
    then show ?thesis using A1R5G5B5 and_mask[of 2]
      by (simp add: pixelsize_def pixel_disasm_1555_def disasm_asm_8888 scale_word scale_1_bits pack_1555)
  next
    case X1R5G5B5
    then have x: "px_wrap 2 cc = cc" using assms(2) by (simp add: pixelsize_def)
    then have "px_wrap 2 (cc AND 0x7fff) = cc AND 0x7fff"
      by (simp add: px_wrap_def)
    then show ?thesis using X1R5G5B5 x
      by (simp add: pixelsize_def pixel_disasm_X555_def disasm_asm_8888 scale_word pack_X555)
  next
    case A4R4G4B4
    then have "px_wrap 2 cc = cc" using assms(2) by (simp add: pixelsize_def)
    then show ?thesis using A4R4G4B4 and_mask[of 2]
      by (simp add: pixelsize_def pixel_disasm_4444_def disasm_asm_8888 scale_word pack_4444)
  next
    case G8
    then have x: "px_wrap 1 cc = cc" using assms(2) by (simp add: pixelsize_def)
    then have "is_byte cc" using and_mask[of 1] by (simp add: mask_eq)
    then show ?thesis using G8 x and_mask[of 1]
      by (simp add: pixelsize_def disasm_asm_8888 gray_of_gray)
  next
    case UNKNOW
    then show ?thesis using assms(1) by simp
  qed
qed

section \<open>Rows in and out\<close>

lemma length_Fetch [simp]: "f \<noteq> UNKNOW \<Longrightarrow> length (Fetch f bits x w) = w"
  by (simp add: Fetch_def)

lemma pixelsize_cases: "f \<noteq> UNKNOW \<Longrightarrow> pixelsize f \<in> {1, 2, 3, 4}" "f \<noteq> UNKNOW \<Longrightarrow> 0 < pixelsize f"
  by (cases f; simp add: pixelsize_def)+

lemma px_get_Store:
  assumes "f \<noteq> UNKNOW" and "x + length buf \<le> px_width (pixelsize f) bits"
    and "y < px_width (pixelsize f) bits"
  shows "px_get (pixelsize f) (Store f bits x buf) y =
    (if x \<le> y \<and> y < x + length buf then px_wrap (pixelsize f) (store_px f (buf ! (y - x)))
     else px_get (pixelsize f) bits y)"
  using row_raster.get_put_list[of x "map (store_px f) buf" "pixelsize f" bits y] assms
  by (auto simp: Store_def)

lemma px_width_Store:
  "x + length buf \<le> px_width (pixelsize f) bits \<Longrightarrow>
   px_width (pixelsize f) (Store f bits x buf) = px_width (pixelsize f) bits"
  using row_raster.width_put_list[of x "map (store_px f) buf" "pixelsize f" bits]
  by (simp add: Store_def)

lemma Fetch_eqI:
  "(\<And>i. i < w \<Longrightarrow> px_get (pixelsize f) r (x + i) = px_get (pixelsize f) r' (x' + i)) \<Longrightarrow>
   Fetch f r x w = Fetch f r' x' w"
  by (simp add: Fetch_def)

lemma nth_Fetch:
  "f \<noteq> UNKNOW \<Longrightarrow> i < w \<Longrightarrow> Fetch f bits x w ! i = fetch_px f (px_get (pixelsize f) bits (x + i))"
  by (simp add: Fetch_def)

text \<open>
  C22.  Writing a fetched row back into any row of the same format, at any place: every raw pixel
  of the source arrives with all the bits its format uses, and every other pixel stays.
\<close>

theorem fetch_store_row:
  assumes "f \<noteq> UNKNOW" and "sx + w \<le> px_width (pixelsize f) src"
    and "x + w \<le> px_width (pixelsize f) dst" and "y < px_width (pixelsize f) dst"
  shows "px_get (pixelsize f) (Store f dst x (Fetch f src sx w)) y =
    (if x \<le> y \<and> y < x + w then px_get (pixelsize f) src (sx + (y - x)) AND raw_mask f
     else px_get (pixelsize f) dst y)"
proof -
  have "store_px f (Fetch f src sx w ! (y - x)) =
      store_px f (fetch_px f (px_get (pixelsize f) src (sx + (y - x))))" if "x \<le> y" "y < x + w"
    using assms(1) that by (subst nth_Fetch) auto
  moreover have "px_wrap (pixelsize f) (px_get (pixelsize f) src (sx + (y - x))) =
      px_get (pixelsize f) src (sx + (y - x))" if "x \<le> y" "y < x + w"
    using assms(2) that by (intro row_raster.wrap_get) simp
  ultimately show ?thesis
    using px_get_Store[of f x "Fetch f src sx w" dst y] assms store_fetch_px[OF assms(1)] by auto
qed

theorem fetch_store_row_witness:
  "px_get 2 (Store X1R5G5B5 [1, 2, 3, 4, 5, 6] 1 (Fetch X1R5G5B5 [0x34, 0xd2, 7, 8] 0 1)) 1 = 0x5234"
proof -
  have "px_width (pixelsize X1R5G5B5) [0x34, 0xd2, 7, 8] = 2"
    "px_width (pixelsize X1R5G5B5) [1, 2, 3, 4, 5, 6] = 3" "pixelsize X1R5G5B5 = 2"
    "px_get 2 [0x34, 0xd2, 7, 8] 0 = 0xd234"
    by code_simp+
  then show ?thesis
    using fetch_store_row[of X1R5G5B5 0 1 "[0x34, 0xd2, 7, 8]" 1 "[1, 2, 3, 4, 5, 6]" 1] by simp
qed

section \<open>Single pixels of a bitmap\<close>

text \<open>
  Coordinates are \<open>int\<close>; the code compares them as \<open>unsigned\<close>, which also turns away the
  negative ones.
\<close>

definition in_bitmap :: "bitmap \<Rightarrow> int \<Rightarrow> int \<Rightarrow> bool" where
  "in_bitmap b x y \<longleftrightarrow> 0 \<le> x \<and> x < int (bm_w b) \<and> 0 \<le> y \<and> y < int (bm_h b)"

definition Line :: "bitmap \<Rightarrow> int \<Rightarrow> bytes" where
  "Line b y = bm_lines b ! nat y"

definition set_line :: "bitmap \<Rightarrow> int \<Rightarrow> bytes \<Rightarrow> bitmap" where
  "set_line b y r = b\<lparr>bm_lines := (bm_lines b)[nat y := r]\<rparr>"

definition GetPixel :: "bitmap \<Rightarrow> int \<Rightarrow> int \<Rightarrow> u32" where
  "GetPixel b x y = (if \<not> in_bitmap b x y then 0
     else px_get (pixelsize (bm_fmt b)) (Line b y) (nat x))"

definition SetPixel :: "bitmap \<Rightarrow> int \<Rightarrow> int \<Rightarrow> u32 \<Rightarrow> bitmap" where
  "SetPixel b x y color = (if \<not> in_bitmap b x y then b
     else set_line b y (px_put (pixelsize (bm_fmt b)) (Line b y) (nat x) color))"

text \<open>\<open>RGBA_TO_A8R8G8B8\<close>, with the macro's order of arguments.\<close>

definition RGBA_TO_A8R8G8B8 :: "u32 \<Rightarrow> u32 \<Rightarrow> u32 \<Rightarrow> u32 \<Rightarrow> u32" where
  "RGBA_TO_A8R8G8B8 r g b a = pixel_asm_8888 a r g b"

definition GetColor :: "bitmap \<Rightarrow> int \<Rightarrow> int \<Rightarrow> u32" where
  "GetColor b x y = (if \<not> in_bitmap b x y then 0
     else
       let ps = (case bm_fmt b of UNKNOW \<Rightarrow> 4 | f \<Rightarrow> pixelsize f);
           cc = px_get ps (Line b y) (nat x)
       in case bm_fmt b of
         G8 \<Rightarrow> RGBA_TO_A8R8G8B8 255 cc cc cc
       | X1R5G5B5 \<Rightarrow> (case pixel_disasm_X555 cc of (r, g, b) \<Rightarrow> RGBA_TO_A8R8G8B8 r g b 255)
       | A1R5G5B5 \<Rightarrow> (case pixel_disasm_1555 cc of (a, r, g, b) \<Rightarrow> RGBA_TO_A8R8G8B8 r g b a)
       | A4R4G4B4 \<Rightarrow> (case pixel_disasm_4444 cc of (a, r, g, b) \<Rightarrow> RGBA_TO_A8R8G8B8 r g b a)
       | R5G6B5 \<Rightarrow> (case pixel_disasm_565 cc of (r, g, b) \<Rightarrow> RGBA_TO_A8R8G8B8 r g b 255)
       | R8G8B8 \<Rightarrow> cc OR 0xff000000
       | X8R8G8B8 \<Rightarrow> cc OR 0xff000000
       | A8B8G8R8 \<Rightarrow> (cc AND 0xff00ff00) OR push_bit 16 (cc AND 0xff) OR drop_bit 16 (cc AND 0xff0000)
       | _ \<Rightarrow> cc)"

definition SetColor :: "bitmap \<Rightarrow> int \<Rightarrow> int \<Rightarrow> u32 \<Rightarrow> bitmap" where
  "SetColor bm x y RGBA = (if \<not> in_bitmap bm x y \<or> bm_fmt bm = UNKNOW then bm
     else
       let c = (case pixel_disasm_8888 RGBA of (a, r, g, b) \<Rightarrow>
         (case bm_fmt bm of
            G8 \<Rightarrow> pixel_to_gray r g b
          | X1R5G5B5 \<Rightarrow> ucast (pixel_asm_1555 0 r g b)
          | A1R5G5B5 \<Rightarrow> ucast (pixel_asm_1555 a r g b)
          | R5G6B5 \<Rightarrow> ucast (pixel_asm_565 r g b)
          | A4R4G4B4 \<Rightarrow> ucast (pixel_asm_4444 a r g b)
          | R8G8B8 \<Rightarrow> RGBA AND 0xffffff
          | X8R8G8B8 \<Rightarrow> RGBA AND 0xffffff
          | A8B8G8R8 \<Rightarrow>
              (RGBA AND 0xff00ff00) OR push_bit 16 (RGBA AND 0xff) OR drop_bit 16 (RGBA AND 0xff0000)
          | _ \<Rightarrow> RGBA))
       in set_line bm y (px_put (pixelsize (bm_fmt bm)) (Line bm y) (nat x) c))"

text \<open>
  The conversions of a single colour. A raw \<open>A1R5G5B5\<close> value of more than 16 bits would read
  beyond the table of two entries: \<open>None\<close>.
\<close>

definition Raw2ARGB :: "pixel_fmt \<Rightarrow> u32 \<Rightarrow> u32 option" where
  "Raw2ARGB f color = (case f of
     G8 \<Rightarrow> Some (pixel_asm_8888 255 color color color)
   | X1R5G5B5 \<Rightarrow> (case pixel_disasm_X555 color of (r, g, b) \<Rightarrow> Some (pixel_asm_8888 255 r g b))
   | A1R5G5B5 \<Rightarrow> if 2 \<le> drop_bit 15 color then None else
       (case pixel_disasm_1555 color of (a, r, g, b) \<Rightarrow> Some (pixel_asm_8888 a r g b))
   | A4R4G4B4 \<Rightarrow> (case pixel_disasm_4444 color of (a, r, g, b) \<Rightarrow> Some (pixel_asm_8888 a r g b))
   | R5G6B5 \<Rightarrow> (case pixel_disasm_565 color of (r, g, b) \<Rightarrow> Some (pixel_asm_8888 255 r g b))
   | R8G8B8 \<Rightarrow> Some (0xff000000 OR color)
   | X8R8G8B8 \<Rightarrow> Some (0xff000000 OR color)
   | A8B8G8R8 \<Rightarrow> Some ((color AND 0xff00ff00) OR push_bit 16 (color AND 0xff) OR
       drop_bit 16 (color AND 0xff0000))
   | _ \<Rightarrow> Some color)"

definition ARGB2Raw :: "pixel_fmt \<Rightarrow> u32 \<Rightarrow> u32" where
  "ARGB2Raw f argb = (case pixel_disasm_8888 argb of (a, r, g, b) \<Rightarrow>
     (case f of
        G8 \<Rightarrow> pixel_to_gray r g b
      | X1R5G5B5 \<Rightarrow> ucast (pixel_asm_1555 0 r g b)
      | A1R5G5B5 \<Rightarrow> ucast (pixel_asm_1555 a r g b)
      | R5G6B5 \<Rightarrow> ucast (pixel_asm_565 r g b)
      | A4R4G4B4 \<Rightarrow> ucast (pixel_asm_4444 a r g b)
      | R8G8B8 \<Rightarrow> argb AND 0xffffff
      | X8R8G8B8 \<Rightarrow> argb AND 0xffffff
      | A8B8G8R8 \<Rightarrow> pixel_asm_8888 a b g r
      | _ \<Rightarrow> argb))"

text \<open>
  \<open>SetPixels\<close>: the coordinates are the \<open>short\<close>s read as \<open>unsigned short\<close>, and a bitmap side of
  more than 32767 pixels counts as 32767.
\<close>

definition short_side :: "nat \<Rightarrow> u16" where
  "short_side n = (if n > 32767 then 32767 else word_of_nat n)"

definition SetPixels :: "(u16 \<times> u16) list \<Rightarrow> u32 \<Rightarrow> bitmap \<Rightarrow> bitmap" where
  "SetPixels xylist color b = fold (\<lambda>(x, y) b'.
     if x < short_side (bm_w b) \<and> y < short_side (bm_h b)
     then set_line b' (uint y) (px_put (pixelsize (bm_fmt b)) (Line b' (uint y)) (unat x) color)
     else b') xylist b"

text \<open>\<open>DrawLine\<close>: the \<open>SetPixel\<close> calls it makes, in order.\<close>

fun upto_step :: "nat \<Rightarrow> int \<Rightarrow> int \<Rightarrow> int list" where
  "upto_step 0 v inc = []"
| "upto_step (Suc n) v inc = v # upto_step n (v + inc) inc"

text \<open>
  The loop along the longer side: \<open>u\<close> runs over \<open>n\<close> values of it, \<open>v\<close> is the other coordinate,
  \<open>dl\<close> and \<open>ds\<close> are the longer and the shorter extent.
\<close>

fun line_steps :: "nat \<Rightarrow> int \<Rightarrow> int \<Rightarrow> int \<Rightarrow> int \<Rightarrow> int \<Rightarrow> int \<Rightarrow> (int \<times> int) list" where
  "line_steps 0 u v rem dl ds inc = []"
| "line_steps (Suc n) u v rem dl ds inc =
     (let rem = rem + ds in
      if rem \<ge> dl
      then (u, v) # (u, v + inc) # line_steps n (u + 1) (v + inc) (rem - dl) dl ds inc
      else (u, v) # line_steps n (u + 1) v rem dl ds inc)"

definition line_points :: "int \<Rightarrow> int \<Rightarrow> int \<Rightarrow> int \<Rightarrow> (int \<times> int) list" where
  "line_points x1 y1 x2 y2 =
     (if x1 = x2 \<and> y1 = y2 then [(x1, y1)]
      else if x1 = x2 then
        map (Pair x1) (upto_step (nat \<bar>y2 - y1\<bar>) y1 (if y1 \<le> y2 then 1 else - 1)) @ [(x2, y2)]
      else if y1 = y2 then
        map (\<lambda>x. (x, y1)) (upto_step (nat \<bar>x2 - x1\<bar>) x1 (if x1 \<le> x2 then 1 else - 1)) @ [(x2, y2)]
      else
        let dx = \<bar>x2 - x1\<bar>; dy = \<bar>y2 - y1\<bar> in
        if dx \<ge> dy then
          let (x1, y1, x2, y2) = (if x2 < x1 then (x2, y2, x1, y1) else (x1, y1, x2, y2)) in
          line_steps (nat (x2 - x1 + 1)) x1 y1 0 dx dy (if y2 \<ge> y1 then 1 else - 1) @ [(x2, y2)]
        else
          let (x1, y1, x2, y2) = (if y2 < y1 then (x2, y2, x1, y1) else (x1, y1, x2, y2)) in
          map (\<lambda>(y, x). (x, y))
            (line_steps (nat (y2 - y1 + 1)) y1 x1 0 dy dx (if x2 \<ge> x1 then 1 else - 1)) @ [(x2, y2)])"

definition DrawLine :: "int \<Rightarrow> int \<Rightarrow> int \<Rightarrow> int \<Rightarrow> u32 \<Rightarrow> bitmap \<Rightarrow> bitmap" where
  "DrawLine x1 y1 x2 y2 color b = fold (\<lambda>(x, y) b. SetPixel b x y color) (line_points x1 y1 x2 y2) b"

section \<open>A bitmap as a canvas\<close>

text \<open>What code that draws by single pixels relies on.\<close>

locale canvas =
  fixes getp :: "'b \<Rightarrow> int \<Rightarrow> int \<Rightarrow> u32"
    and setp :: "'b \<Rightarrow> int \<Rightarrow> int \<Rightarrow> u32 \<Rightarrow> 'b"
    and ok :: "'b \<Rightarrow> bool"
    and inside :: "'b \<Rightarrow> int \<Rightarrow> int \<Rightarrow> bool"
    and wrap :: "'b \<Rightarrow> u32 \<Rightarrow> u32"
  assumes ok_setp: "ok b \<Longrightarrow> ok (setp b x y c)"
    and inside_setp: "ok b \<Longrightarrow> inside (setp b x y c) = inside b"
    and wrap_setp: "ok b \<Longrightarrow> wrap (setp b x y c) = wrap b"
    and get_set: "ok b \<Longrightarrow> inside b u v \<Longrightarrow>
      getp (setp b x y c) u v = (if u = x \<and> v = y then wrap b c else getp b u v)"
begin

abbreviation "plot c \<equiv> fold (\<lambda>(x, y) b. setp b x y c)"

lemma plot_frame: "ok b \<Longrightarrow> ok (plot c ps b) \<and> inside (plot c ps b) = inside b \<and> wrap (plot c ps b) = wrap b"
  by (induction ps arbitrary: b) (auto simp: ok_setp inside_setp wrap_setp)

lemma get_plot: "ok b \<Longrightarrow> inside b u v \<Longrightarrow>
    getp (plot c ps b) u v = (if (u, v) \<in> set ps then wrap b c else getp b u v)"
proof (induction ps arbitrary: b)
  case (Cons p ps)
  obtain x y where [simp]: "p = (x, y)" by force
  show ?case using Cons.IH[of "setp b x y c"] Cons.prems
    by (auto simp: ok_setp inside_setp wrap_setp get_set)
qed simp

end

definition canvas_ok :: "bitmap \<Rightarrow> bool" where
  "canvas_ok b \<longleftrightarrow> bitmap_ok b \<and> bm_fmt b \<noteq> UNKNOW"

definition bm_wrap :: "bitmap \<Rightarrow> u32 \<Rightarrow> u32" where
  "bm_wrap b = px_wrap (pixelsize (bm_fmt b))"

lemma px_width_line:
  assumes "canvas_ok b" and "0 \<le> y" and "y < int (bm_h b)"
  shows "bm_w b \<le> px_width (pixelsize (bm_fmt b)) (Line b y)"
proof -
  have "length (Line b y) = pitch_of (bm_w b) (bm_fmt b)"
    using assms by (simp add: canvas_ok_def bitmap_ok_def Line_def nat_less_iff)
  then have "bm_w b * pixelsize (bm_fmt b) \<le> length (Line b y)" by (simp add: pitch_holds_row)
  moreover have "0 < pixelsize (bm_fmt b)" using assms(1) pixelsize_cases by (auto simp: canvas_ok_def)
  ultimately show ?thesis by (simp add: px_width_def less_eq_div_iff_mult_less_eq)
qed

lemma set_line_ok:
  "canvas_ok b \<Longrightarrow> length r = pitch_of (bm_w b) (bm_fmt b) \<Longrightarrow> canvas_ok (set_line b y r)"
  by (auto simp: canvas_ok_def bitmap_ok_def set_line_def dest!: set_update_subset_insert[THEN subsetD])

lemma set_line_fields [simp]:
  "bm_w (set_line b y r) = bm_w b" "bm_h (set_line b y r) = bm_h b"
  "bm_fmt (set_line b y r) = bm_fmt b"
  by (simp_all add: set_line_def)

lemma Line_set_line:
  "canvas_ok b \<Longrightarrow> 0 \<le> y \<Longrightarrow> y < int (bm_h b) \<Longrightarrow> 0 \<le> y' \<Longrightarrow> 
   Line (set_line b y r) y' = (if y' = y then r else Line b y')"
  by (auto simp: Line_def set_line_def canvas_ok_def bitmap_ok_def nth_list_update nat_less_iff)

lemma length_px_put: "ps * x + ps \<le> length bs \<Longrightarrow> length (px_put ps bs x c) = length bs"
  by (simp add: px_put_def)

lemma SetPixel_row:
  assumes "canvas_ok b" and "in_bitmap b x y"
  defines "ps \<equiv> pixelsize (bm_fmt b)"
  shows "nat x < px_width ps (Line b y)"
    and "length (px_put ps (Line b y) (nat x) c) = pitch_of (bm_w b) (bm_fmt b)"
proof -
  have xy: "0 \<le> x" "x < int (bm_w b)" "0 \<le> y" "y < int (bm_h b)"
    using assms(2) by (simp_all add: in_bitmap_def)
  then show x: "nat x < px_width ps (Line b y)"
    using px_width_line[OF assms(1) xy(3,4)] by (simp add: ps_def)
  have "0 < ps" using assms(1) pixelsize_cases by (auto simp: canvas_ok_def ps_def)
  with x have "length (px_put ps (Line b y) (nat x) c) = length (Line b y)"
    by (intro length_px_put) (simp add: px_width_less)
  then show "length (px_put ps (Line b y) (nat x) c) = pitch_of (bm_w b) (bm_fmt b)"
    using assms(1) xy by (simp add: canvas_ok_def bitmap_ok_def Line_def nat_less_iff)
qed

lemma SetPixel_frame:
  "bm_w (SetPixel b x y c) = bm_w b" "bm_h (SetPixel b x y c) = bm_h b"
  "bm_fmt (SetPixel b x y c) = bm_fmt b"
  by (simp_all add: SetPixel_def)

lemma SetPixel_ok: "canvas_ok b \<Longrightarrow> canvas_ok (SetPixel b x y c)"
  using SetPixel_row(2)[of b x y c] by (auto simp: SetPixel_def intro: set_line_ok)

lemma GetPixel_SetPixel:
  assumes "canvas_ok b" and "in_bitmap b u v"
  shows "GetPixel (SetPixel b x y c) u v = (if u = x \<and> v = y then bm_wrap b c else GetPixel b u v)"
proof (cases "in_bitmap b x y")
  case False
  then show ?thesis using assms(2) by (auto simp: SetPixel_def)
next
  case True
  define ps where "ps = pixelsize (bm_fmt b)"
  let ?r = "px_put ps (Line b y) (nat x) c"
  have xy: "0 \<le> x" "0 \<le> y" "y < int (bm_h b)" "0 \<le> u" "u < int (bm_w b)" "0 \<le> v"
    using True assms(2) by (simp_all add: in_bitmap_def)
  have g: "GetPixel (SetPixel b x y c) u v = px_get ps (if v = y then ?r else Line b v) (nat u)"
    using True assms(2) xy Line_set_line[OF assms(1) xy(2,3,6)]
    by (simp add: GetPixel_def SetPixel_def in_bitmap_def ps_def)
  have "px_get ps ?r (nat u) = (if nat u = nat x then px_wrap ps c else px_get ps (Line b y) (nat u))"
    using SetPixel_row(1)[OF assms(1) True] px_width_line[OF assms(1) xy(2,3)] xy
    by (intro row_raster.get_put) (simp_all add: ps_def)
  then show ?thesis using assms(2) xy unfolding g
    by (auto simp: GetPixel_def bm_wrap_def ps_def eq_nat_nat_iff)
qed

interpretation bitmap_canvas: canvas GetPixel SetPixel canvas_ok in_bitmap bm_wrap
proof
  fix b :: bitmap and x y u v :: int and c :: u32
  assume b: "canvas_ok b"
  show "canvas_ok (SetPixel b x y c)" by (rule SetPixel_ok[OF b])
  show "in_bitmap (SetPixel b x y c) = in_bitmap b"
    by (intro ext) (simp add: in_bitmap_def SetPixel_frame)
  show "bm_wrap (SetPixel b x y c) = bm_wrap b"
    by (intro ext) (simp add: bm_wrap_def SetPixel_frame)
  show "in_bitmap b u v \<Longrightarrow>
      GetPixel (SetPixel b x y c) u v = (if u = x \<and> v = y then bm_wrap b c else GetPixel b u v)"
    by (rule GetPixel_SetPixel[OF b])
qed

text \<open>Lines: exactly the listed points that lie on the bitmap change.\<close>

lemma DrawLine_pixels:
  "canvas_ok b \<Longrightarrow> in_bitmap b u v \<Longrightarrow> GetPixel (DrawLine x1 y1 x2 y2 color b) u v =
    (if (u, v) \<in> set (line_points x1 y1 x2 y2) then bm_wrap b color else GetPixel b u v)"
  unfolding DrawLine_def by (rule bitmap_canvas.get_plot)

text \<open>
  A diagonal is drawn one pixel too far: the last turn of the loop advances the other
  coordinate past the end and sets that pixel too.
\<close>

lemma diagonal_overshoots: "(2, 3) \<in> set (line_points 0 0 2 2)"
  by (simp add: line_points_def eval_nat_numeral)

text \<open>An 8-bit grey pixel read as a colour has the grey value as its alpha and full red.\<close>

lemma GetColor_gray:
  assumes "bm_fmt b = G8" and "in_bitmap b x y"
  shows "GetColor b x y = pixel_asm_8888 (GetPixel b x y) 255 (GetPixel b x y) (GetPixel b x y)"
  using assms by (simp add: GetColor_def GetPixel_def RGBA_TO_A8R8G8B8_def Let_def)

section \<open>Cards\<close>

text \<open>Rows of \<open>A8R8G8B8\<close> pixels as lists; \<open>CardReverse\<close> exchanges from both ends.\<close>

interpretation list_raster: raster "(!)" "list_update" length id
  by unfold_locales auto

definition CardReverse :: "u32 list \<Rightarrow> u32 list" where
  "CardReverse cards = (if cards = [] then [] else swap_ends (!) list_update cards 0 (length cards - 1))"

definition CardMultiply :: "u32 \<Rightarrow> u32 list \<Rightarrow> u32 list" where
  "CardMultiply color cards = (case pixel_disasm_8888 color of (a1, r1, g1, b1) \<Rightarrow>
     if color = 0xffffffff then cards
     else if color = 0 then map (\<lambda>_. 0) cards
     else if color AND 0xffffff = 0xffffff then
       if a1 = 0 then map (\<lambda>c. c AND 0x00ffffff) cards
       else
         let a1 = pixel_norm a1 in
         map (\<lambda>c. (c AND 0x00ffffff) OR
           push_bit 24 (drop_bit 8 ((drop_bit 24 c AND 0xff) * a1) AND 0xff)) cards
     else
       let a1 = pixel_norm a1; r1 = pixel_norm r1; g1 = pixel_norm g1; b1 = pixel_norm b1 in
       map (\<lambda>c. case pixel_disasm_8888 c of (a2, r2, g2, b2) \<Rightarrow>
         RGBA_TO_A8R8G8B8 (drop_bit 8 (r1 * r2)) (drop_bit 8 (g1 * g2)) (drop_bit 8 (b1 * b2))
           (drop_bit 8 (a1 * a2))) cards)"

definition CardSetAlpha :: "u32 \<Rightarrow> u32 list \<Rightarrow> u32 list" where
  "CardSetAlpha alpha cards = map (\<lambda>c. (c AND 0x00ffffff) OR push_bit 24 (alpha AND 0xff)) cards"

text \<open>\<open>_pixel_save_card\<close> cuts every channel to a byte.\<close>

definition pixel_save_card :: "u32 \<Rightarrow> u32 \<Rightarrow> u32 \<Rightarrow> u32 \<Rightarrow> u32" where
  "pixel_save_card r g b a = pixel_asm_8888 (a AND 0xff) (r AND 0xff) (g AND 0xff) (b AND 0xff)"

definition CardPremultiply :: "bool \<Rightarrow> u32 list \<Rightarrow> u32 list" where
  "CardPremultiply reverse cards = map (\<lambda>c. case pixel_disasm_8888 c of (a, r, g, b) \<Rightarrow>
     if \<not> reverse then
       pixel_save_card (fast_div_255 (r * a)) (fast_div_255 (g * a)) (fast_div_255 (b * a)) a
     else if a > 0 then
       pixel_save_card (r * 255 div a) (g * 255 div a) (b * 255 div a) a
     else pixel_save_card 0 0 0 a) cards"

text \<open>
  \<open>RowFetch\<close> and \<open>RowStore\<close> cut the row to the bitmap; a negative \<open>x\<close> skips that many cards.
  \<open>w\<close> is not negative.
\<close>

definition row_span :: "bitmap \<Rightarrow> int \<Rightarrow> int \<Rightarrow> (int \<times> int \<times> nat) option" where
  "row_span b x w =
     (let (x', w', off) = (if x < 0 then (0, w + x, nat (- x)) else (x, w, 0)) in
      if x < 0 \<and> w' < 0 then None
      else if x' + w' \<ge> int (bm_w b) then
        let w'' = int (bm_w b) - x' in if w'' < 0 then None else Some (x', w'', off)
      else Some (x', w', off))"

definition RowFetch :: "bitmap \<Rightarrow> int \<Rightarrow> int \<Rightarrow> u32 list \<Rightarrow> int \<Rightarrow> u32 list" where
  "RowFetch b x y cards w = (if 0 \<le> y \<and> y < int (bm_h b) then
     (case row_span b x w of None \<Rightarrow> cards
      | Some (x', w', off) \<Rightarrow>
          take off cards @ Fetch (bm_fmt b) (Line b y) (nat x') (nat w') @ drop (off + nat w') cards)
     else cards)"

definition RowStore :: "bitmap \<Rightarrow> int \<Rightarrow> int \<Rightarrow> u32 list \<Rightarrow> int \<Rightarrow> bitmap" where
  "RowStore b x y cards w = (if 0 \<le> y \<and> y < int (bm_h b) then
     (case row_span b x w of None \<Rightarrow> b
      | Some (x', w', off) \<Rightarrow>
          set_line b y (Store (bm_fmt b) (Line b y) (nat x') (take (nat w') (drop off cards))))
     else b)"

section \<open>Mirroring\<close>

definition FlipHorizontal :: "bitmap \<Rightarrow> bitmap" where
  "FlipHorizontal b = (let ps = pixelsize (bm_fmt b) in
     b\<lparr>bm_lines := map (\<lambda>r. if bm_w b = 0 then r
       else swap_ends (px_get ps) (px_put ps) r 0 (bm_w b - 1)) (bm_lines b)\<rparr>)"

definition FlipVertical :: "bitmap \<Rightarrow> bitmap" where
  "FlipVertical b = b\<lparr>bm_lines := (if bm_h b = 0 then bm_lines b
     else swap_ends (!) list_update (bm_lines b) 0 (bm_h b - 1))\<rparr>"

lemma swap_ends_rev: "xs \<noteq> [] \<Longrightarrow> swap_ends (!) list_update xs 0 (length xs - 1) = rev xs"
proof (rule nth_equalityI)
  assume xs: "xs \<noteq> []"
  have s: "length (swap_ends (!) list_update xs 0 (length xs - 1)) = length xs \<and>
      swap_ends (!) list_update xs 0 (length xs - 1) ! y =
      (if 0 \<le> y \<and> y \<le> length xs - 1 then xs ! (0 + (length xs - 1) - y) else xs ! y)"
    if "y < length xs" for y
    using that xs by (intro list_raster.get_swap_ends) auto
  then show "length (swap_ends (!) list_update xs 0 (length xs - 1)) = length (rev xs)"
    using xs by (metis length_greater_0_conv length_rev)
  fix i assume "i < length (swap_ends (!) list_update xs 0 (length xs - 1))"
  then have "i < length xs" using s xs by (metis length_greater_0_conv)
  with s[of i] show "swap_ends (!) list_update xs 0 (length xs - 1) ! i = rev xs ! i"
    by (auto simp: rev_nth)
qed

lemma CardReverse_rev: "CardReverse cards = rev cards"
  using swap_ends_rev[of cards] by (simp add: CardReverse_def)

lemma FlipVertical_rev: "bitmap_ok b \<Longrightarrow> FlipVertical b = b\<lparr>bm_lines := rev (bm_lines b)\<rparr>"
  using swap_ends_rev[of "bm_lines b"] by (cases "bm_lines b = []") (auto simp: FlipVertical_def bitmap_ok_def)

lemma FlipVertical_lines:
  assumes "canvas_ok b" and "in_bitmap b u v"
  shows "GetPixel (FlipVertical b) u v = GetPixel b u (int (bm_h b) - 1 - v)"
proof -
  have "nat (int (bm_h b) - 1 - v) = length (bm_lines b) - Suc (nat v)" "nat v < length (bm_lines b)"
    using assms by (auto simp: canvas_ok_def bitmap_ok_def in_bitmap_def)
  then show ?thesis using assms
    by (auto simp: FlipVertical_rev canvas_ok_def GetPixel_def in_bitmap_def Line_def rev_nth)
qed

lemma FlipHorizontal_line:
  assumes "canvas_ok b" and "in_bitmap b u v"
  shows "GetPixel (FlipHorizontal b) u v = GetPixel b (int (bm_w b) - 1 - u) v"
proof -
  define ps where "ps = pixelsize (bm_fmt b)"
  have uv: "0 \<le> u" "u < int (bm_w b)" "0 \<le> v" "v < int (bm_h b)"
    using assms(2) by (simp_all add: in_bitmap_def)
  have w: "bm_w b \<le> px_width ps (Line b v)" using px_width_line[OF assms(1) uv(3,4)] by (simp add: ps_def)
  have v: "nat v < length (bm_lines b)"
    using assms(1) uv by (simp add: canvas_ok_def bitmap_ok_def)
  have "px_get ps (swap_ends (px_get ps) (px_put ps) (Line b v) 0 (bm_w b - 1)) (nat u) =
      px_get ps (Line b v) (0 + (bm_w b - 1) - nat u)"
    using row_raster.get_swap_ends[of "bm_w b - 1" ps "Line b v" "nat u" 0] uv w by auto
  moreover have "nat (int (bm_w b) - 1 - u) = bm_w b - 1 - nat u" using uv by auto
  ultimately show ?thesis using assms(2) uv v
    by (simp add: GetPixel_def FlipHorizontal_def in_bitmap_def Line_def Let_def ps_def)
qed

section \<open>Tinting\<close>

text \<open>One card as the general loop of \<open>CardMultiply\<close> multiplies it.\<close>

definition tint_px :: "u32 \<Rightarrow> u32 \<Rightarrow> u32" where
  "tint_px color c = (case pixel_disasm_8888 color of (a1, r1, g1, b1) \<Rightarrow>
     (case pixel_disasm_8888 c of (a2, r2, g2, b2) \<Rightarrow>
        RGBA_TO_A8R8G8B8 (drop_bit 8 (pixel_norm r1 * r2)) (drop_bit 8 (pixel_norm g1 * g2))
          (drop_bit 8 (pixel_norm b1 * b2)) (drop_bit 8 (pixel_norm a1 * a2))))"

lemma pixel_norm_ends: "pixel_norm 255 = 256" "pixel_norm 0 = 0"
  by (simp_all add: pixel_norm_def)

lemma pixel_norm_nat: "is_byte c \<Longrightarrow> unat (pixel_norm c) = unat c + unat c div 128 \<and> unat (pixel_norm c) \<le> 256"
proof -
  assume "is_byte c"
  then have c: "unat c \<le> 255" by (simp add: is_byte_nat)
  have d: "unat (drop_bit 7 c) = unat c div 128"
    by (simp only: unat_drop_bit_eq) (simp add: drop_bit_eq_div)
  then have "unat (pixel_norm c) = unat c div 128 + unat c"
    unfolding pixel_norm_def using c by (subst unat_add_small) auto
  then show ?thesis using c by auto
qed

lemma mult_256_byte: "is_byte c \<Longrightarrow> drop_bit 8 (256 * c) = c"
proof -
  assume c: "is_byte c"
  have "256 * c = push_bit 8 c" by (simp add: push_bit_eq_mult)
  moreover have "drop_bit 8 (push_bit 8 c) = c"
    by (rule bit_word_eqI) (auto simp: bit_simps dest: is_byte_bit[OF c])
  ultimately show ?thesis by simp
qed

lemma tint_byte:
  assumes "is_byte a" and "is_byte b"
  shows "is_byte (drop_bit 8 (pixel_norm a * b))"
    and "unat (drop_bit 8 (pixel_norm a * b)) = (unat a + unat a div 128) * unat b div 256"
proof -
  have n: "unat (pixel_norm a) = unat a + unat a div 128" "unat (pixel_norm a) \<le> 256"
    using pixel_norm_nat[OF assms(1)] by simp_all
  have b: "unat b \<le> 255" using assms(2) by (simp add: is_byte_nat)
  then have p: "unat (pixel_norm a) * unat b \<le> 256 * 255" using n by (intro mult_mono) auto
  then have "unat (pixel_norm a * b) = unat (pixel_norm a) * unat b"
    by (intro unat_mult_small) simp
  then have e: "unat (drop_bit 8 (pixel_norm a * b)) = unat (pixel_norm a) * unat b div 256"
    by (simp only: unat_drop_bit_eq) (simp add: drop_bit_eq_div)
  then show "unat (drop_bit 8 (pixel_norm a * b)) = (unat a + unat a div 128) * unat b div 256"
    by (simp add: n)
  have "unat (pixel_norm a) * unat b div 256 \<le> 255" using div_le_mono[OF p, of 256] by simp
  then show "is_byte (drop_bit 8 (pixel_norm a * b))" by (simp add: is_byte_nat e)
qed

lemma card_with_alpha:
  "(c AND 0x00ffffff) OR push_bit 24 a =
   pixel_asm_8888 a (drop_bit 16 c AND 0xff) (drop_bit 8 c AND 0xff) (c AND 0xff)"
  unfolding pixel_asm_8888_def mask_eq
proof (rule bit_word_eqI)
  have m: "(0x00ffffff :: u32) = mask 24" by (simp add: mask_eq_exp_minus_1)
  fix n assume "n < LENGTH(32)"
  show "bit ((c AND 0x00ffffff) OR push_bit 24 a) n = bit (push_bit 24 a OR
      push_bit 16 (drop_bit 16 c AND mask 8) OR push_bit 8 (drop_bit 8 c AND mask 8) OR (c AND mask 8)) n"
    unfolding m by (cases "16 \<le> n"; cases "8 \<le> n") (auto simp: bit_simps)
qed

lemma disasm_white:
  fixes color :: u32
  assumes "color AND 0xffffff = 0xffffff"
  shows "drop_bit 16 color AND 0xff = 255" "drop_bit 8 color AND 0xff = 255" "color AND 0xff = 255"
proof -
  have "bit color n" if "n < 24" for n
  proof -
    have "(0xffffff :: u32) = mask 24" by (simp add: mask_eq_exp_minus_1)
    then have "bit (color AND mask 24) n = bit (mask 24 :: u32) n" using assms by simp
    then show ?thesis using that by (simp add: bit_simps)
  qed
  then have "drop_bit 16 color AND mask 8 = mask 8" "drop_bit 8 color AND mask 8 = mask 8"
    "color AND mask 8 = mask 8"
    by (auto intro!: bit_word_eqI simp: bit_simps)
  then show "drop_bit 16 color AND 0xff = 255" "drop_bit 8 color AND 0xff = 255" "color AND 0xff = 255"
    by (simp_all add: mask_eq_exp_minus_1)
qed

text \<open>
  Tinting a row: the shortcuts for white, for the clear colour and for a white of partial or
  zero alpha give what the general loop gives, for every colour and every row.
\<close>

theorem card_multiply_uniform: "CardMultiply color cards = map (tint_px color) cards"
proof -
  consider "color = 0xffffffff" | "color = 0"
    | "color \<noteq> 0xffffffff" "color \<noteq> 0" "color AND 0xffffff = 0xffffff"
    | "color AND 0xffffff \<noteq> 0xffffff" "color \<noteq> 0" by fastforce
  then show ?thesis
  proof cases
    case 1
    have "tint_px 0xffffffff c = c" for c
      using asm_disasm_8888[of c]
      by (simp add: tint_px_def pixel_disasm_8888_def RGBA_TO_A8R8G8B8_def pixel_norm_ends mult_256_byte)
    then have "map (tint_px color) cards = cards" using 1 by (simp add: map_idI)
    then show ?thesis using 1 by (simp add: CardMultiply_def split: prod.splits)
  next
    case 2
    have "tint_px 0 c = 0" for c
      by (simp add: tint_px_def pixel_disasm_8888_def RGBA_TO_A8R8G8B8_def pixel_norm_ends pixel_asm_8888_def)
    then show ?thesis using 2 by (simp add: CardMultiply_def pixel_disasm_8888_def)
  next
    case 3
    let ?a = "drop_bit 24 color AND 0xff"
    have w: "drop_bit 16 color AND 0xff = 255" "drop_bit 8 color AND 0xff = 255" "color AND 0xff = 255"
      using disasm_white[OF 3(3)] .
    have t: "tint_px color c = (c AND 0x00ffffff) OR push_bit 24 (drop_bit 8 (pixel_norm ?a * (drop_bit 24 c AND 0xff)))" for c
      by (simp only: tint_px_def pixel_disasm_8888_def prod.case w pixel_norm_ends RGBA_TO_A8R8G8B8_def
          card_with_alpha mult_256_byte is_byte_and)
    have b: "drop_bit 8 (pixel_norm ?a * (drop_bit 24 c AND 0xff)) AND 0xff =
        drop_bit 8 (pixel_norm ?a * (drop_bit 24 c AND 0xff))" for c
      by (intro tint_byte) simp_all
    have z: "tint_px color c = c AND 0x00ffffff" if "?a = 0" for c
      unfolding t that by (simp add: pixel_norm_ends)
    show ?thesis
    proof (cases "?a = 0")
      case True
      then show ?thesis using 3 z[OF True] by (simp add: CardMultiply_def pixel_disasm_8888_def)
    next
      case False
      then have "CardMultiply color cards = map (\<lambda>c. (c AND 0x00ffffff) OR
          push_bit 24 (drop_bit 8 ((drop_bit 24 c AND 0xff) * pixel_norm ?a) AND 0xff)) cards"
        using 3 by (simp only: CardMultiply_def pixel_disasm_8888_def Let_def prod.case if_False if_True simp_thms)
      then show ?thesis by (simp only: t[symmetric] b mult.commute[of _ "pixel_norm ?a"])
    qed
  next
    case 4
    then show ?thesis
      by (auto simp: CardMultiply_def tint_px_def Let_def split: prod.splits)
  qed
qed

end
