(* ===== verification/Blit.thy ===== *)
theory Blit
  imports Pixels
begin

text \<open>
  Moving rectangles between bitmaps (BasicBitmap.cpp): the common part of a source and a
  destination rectangle (\<open>ClipRect\<close>), \<open>Fill\<close>, the copy of rows with and without a
  transparent colour and mirrored either way (\<open>BlitNormal\<close>, \<open>BlitMask\<close>, \<open>Blit\<close>), the
  conversion between formats (\<open>Convert\<close>) and \<open>Chop\<close>. Source and destination are different
  bitmaps. Coordinates are \<open>int\<close>, without the wrap-around of a sum beyond 31 bits. The
  replaceable row functions of \<open>Blit\<close> are null, as nothing in the program sets them.
\<close>

unbundle bit_operations_syntax

section \<open>Clipping\<close>

definition PIXEL_FLAG_MASK :: u32 where "PIXEL_FLAG_MASK = 1"
definition PIXEL_FLAG_HFLIP :: u32 where "PIXEL_FLAG_HFLIP = 2"
definition PIXEL_FLAG_VFLIP :: u32 where "PIXEL_FLAG_VFLIP = 4"
definition PIXEL_FLAG_NOCLIP :: u32 where "PIXEL_FLAG_NOCLIP = 8"

definition has_flag :: "u32 \<Rightarrow> u32 \<Rightarrow> bool" where
  "has_flag mode f \<longleftrightarrow> mode AND f \<noteq> 0"

text \<open>Left, top, right, bottom; the right and the bottom side are outside.\<close>

type_synonym ltrb = "int \<times> int \<times> int \<times> int"

text \<open>
  The four checks, which the code writes once per axis: a position \<open>dx\<close> in the destination and
  the source interval from \<open>sl\<close> to \<open>sr\<close>.
\<close>

definition clip_dst_low :: "bool \<Rightarrow> int \<Rightarrow> int \<times> int \<times> int \<Rightarrow> int \<times> int \<times> int" where
  "clip_dst_low flip dcl = (\<lambda>(dx, sl, sr).
     if dx < dcl then
       let d = dcl - dx in (dcl, if \<not> flip then sl + d else sl, if \<not> flip then sr else sr - d)
     else (dx, sl, sr))"

definition clip_dst_high :: "bool \<Rightarrow> int \<Rightarrow> int \<times> int \<times> int \<Rightarrow> int \<times> int \<times> int" where
  "clip_dst_high flip dcr = (\<lambda>(dx, sl, sr).
     let w = sr - sl in
     if dx + w > dcr then
       let d = dx + w - dcr in (dx, if \<not> flip then sl else sl + d, if \<not> flip then sr - d else sr)
     else (dx, sl, sr))"

definition clip_src_low :: "bool \<Rightarrow> int \<Rightarrow> int \<times> int \<times> int \<Rightarrow> int \<times> int \<times> int" where
  "clip_src_low flip scl = (\<lambda>(dx, sl, sr).
     if sl < scl then let d = scl - sl in (if \<not> flip then dx + d else dx, scl, sr)
     else (dx, sl, sr))"

definition clip_src_high :: "bool \<Rightarrow> int \<Rightarrow> int \<times> int \<times> int \<Rightarrow> int \<times> int \<times> int" where
  "clip_src_high flip scr = (\<lambda>(dx, sl, sr).
     if sr > scr then let d = sr - scr in (if flip then dx + d else dx, sl, scr)
     else (dx, sl, sr))"

definition axis_empty :: "int \<times> int \<times> int \<Rightarrow> bool" where
  "axis_empty = (\<lambda>(dx, sl, sr). sl \<ge> sr)"

definition ClipRect :: "ltrb \<Rightarrow> ltrb \<Rightarrow> int \<Rightarrow> int \<Rightarrow> ltrb \<Rightarrow> u32 \<Rightarrow> int + (int \<times> int \<times> ltrb)" where
  "ClipRect clipdst clipsrc x y rectsrc mode =
     (let (dcl, dct, dcr, dcb) = clipdst; (scl, sct, scr, scb) = clipsrc;
          (sl, st, sr, sb) = rectsrc;
          hflip = has_flag mode PIXEL_FLAG_HFLIP; vflip = has_flag mode PIXEL_FLAG_VFLIP in
      if dcr \<le> dcl \<or> dcb \<le> dct \<or> scr \<le> scl \<or> scb \<le> sct then Inl (- 1)
      else if sr \<le> scl \<or> sb \<le> sct \<or> sl \<ge> scr \<or> st \<ge> scb then Inl (- 2)
      else
        let h = clip_dst_low hflip dcl (x, sl, sr); v = clip_dst_low vflip dct (y, st, sb) in
        if snd (snd h) - fst (snd h) < 0 \<or> snd (snd v) - fst (snd v) < 0 then Inl (- 3)
        else
          let h = clip_dst_high hflip dcr h; v = clip_dst_high vflip dcb v in
          if axis_empty h \<or> axis_empty v then Inl (- 4)
          else
            let h = clip_src_low hflip scl h; v = clip_src_low vflip sct v in
            if axis_empty h \<or> axis_empty v then Inl (- 5)
            else
              let h = clip_src_high hflip scr h; v = clip_src_high vflip scb v in
              if axis_empty h \<or> axis_empty v then Inl (- 6)
              else Inr (fst h, fst v, fst (snd h), fst (snd v), snd (snd h), snd (snd v)))"

text \<open>
  What a rectangle says on one axis: the source column \<open>u\<close> goes to the destination column \<open>t\<close>.
\<close>

fun goes_to :: "bool \<Rightarrow> int \<times> int \<times> int \<Rightarrow> int \<Rightarrow> int \<Rightarrow> bool" where
  "goes_to flip (dx, sl, sr) u t \<longleftrightarrow>
     sl \<le> u \<and> u < sr \<and> t = (if flip then dx + (sr - 1 - u) else dx + (u - sl))"

lemma clip_steps:
  "goes_to flip (clip_dst_low flip dcl a) u t \<longleftrightarrow> goes_to flip a u t \<and> dcl \<le> t"
  "goes_to flip (clip_dst_high flip dcr a) u t \<longleftrightarrow> goes_to flip a u t \<and> t < dcr"
  "goes_to flip (clip_src_low flip scl a) u t \<longleftrightarrow> goes_to flip a u t \<and> scl \<le> u"
  "goes_to flip (clip_src_high flip scr a) u t \<longleftrightarrow> goes_to flip a u t \<and> u < scr"
  by (cases a; cases flip; simp add: clip_dst_low_def clip_dst_high_def clip_src_low_def clip_src_high_def
      Let_def; presburger)+

lemma axis_empty_iff: "axis_empty a \<longleftrightarrow> (\<forall>u t. \<not> goes_to flip a u t)"
proof (cases a)
  case (fields dx sl sr)
  have "\<exists>t. goes_to flip a sl t" if "sl < sr" using that by (auto simp: fields)
  moreover have "sl < sr" if "goes_to flip a u t" for u t using that by (auto simp: fields)
  moreover have "axis_empty a \<longleftrightarrow> \<not> sl < sr" by (auto simp: axis_empty_def fields)
  ultimately show ?thesis by blast
qed

text \<open>The common part: pairs that both rectangles and both clips admit.\<close>

definition admitted :: "bool \<Rightarrow> int \<Rightarrow> int \<Rightarrow> int \<Rightarrow> int \<Rightarrow> int \<times> int \<times> int \<Rightarrow> int \<Rightarrow> int \<Rightarrow> bool" where
  "admitted flip dl dr l r a u t \<longleftrightarrow> goes_to flip a u t \<and> dl \<le> t \<and> t < dr \<and> l \<le> u \<and> u < r"

definition clip_axis :: "bool \<Rightarrow> int \<Rightarrow> int \<Rightarrow> int \<Rightarrow> int \<Rightarrow> int \<times> int \<times> int \<Rightarrow> int \<times> int \<times> int" where
  "clip_axis flip dl dr l r a =
     clip_src_high flip r (clip_src_low flip l (clip_dst_high flip dr (clip_dst_low flip dl a)))"

lemma clip_axis_admitted: "goes_to flip (clip_axis flip dl dr l r a) u t \<longleftrightarrow> admitted flip dl dr l r a u t"
  by (auto simp: clip_axis_def clip_steps admitted_def)

lemma ClipRect_Inr:
  assumes "ClipRect (dcl, dct, dcr, dcb) (scl, sct, scr, scb) x y (sl, st, sr, sb) mode =
    Inr (x', y', sl', st', sr', sb')"
  shows "(x', sl', sr') = clip_axis (has_flag mode PIXEL_FLAG_HFLIP) dcl dcr scl scr (x, sl, sr)"
    and "(y', st', sb') = clip_axis (has_flag mode PIXEL_FLAG_VFLIP) dct dcb sct scb (y, st, sb)"
    and "sl' < sr'" and "st' < sb'"
  using assms
  by (simp_all add: ClipRect_def Let_def clip_axis_def axis_empty_def split: if_splits prod.splits)

lemma axis_empty_step:
  "axis_empty a \<Longrightarrow> \<not> admitted flip dl dr l r a u t"
  "axis_empty (clip_dst_low flip dl a) \<Longrightarrow> \<not> admitted flip dl dr l r a u t"
  "axis_empty (clip_dst_high flip dr (clip_dst_low flip dl a)) \<Longrightarrow> \<not> admitted flip dl dr l r a u t"
  "axis_empty (clip_src_low flip l (clip_dst_high flip dr (clip_dst_low flip dl a))) \<Longrightarrow>
   \<not> admitted flip dl dr l r a u t"
  "axis_empty (clip_src_high flip r (clip_src_low flip l (clip_dst_high flip dr (clip_dst_low flip dl a)))) \<Longrightarrow>
   \<not> admitted flip dl dr l r a u t"
  by (auto simp: axis_empty_iff[of _ flip] clip_steps admitted_def)

lemma ClipRect_Inl:
  assumes "ClipRect (dcl, dct, dcr, dcb) (scl, sct, scr, scb) x y (sl, st, sr, sb) mode = Inl e"
  shows "\<not> (admitted (has_flag mode PIXEL_FLAG_HFLIP) dcl dcr scl scr (x, sl, sr) u t \<and>
      admitted (has_flag mode PIXEL_FLAG_VFLIP) dct dcb sct scb (y, st, sb) v s)"
proof -
  let ?hf = "has_flag mode PIXEL_FLAG_HFLIP" and ?vf = "has_flag mode PIXEL_FLAG_VFLIP"
  let ?h1 = "clip_dst_low ?hf dcl (x, sl, sr)" and ?v1 = "clip_dst_low ?vf dct (y, st, sb)"
  let ?h2 = "clip_dst_high ?hf dcr ?h1" and ?v2 = "clip_dst_high ?vf dcb ?v1"
  let ?h3 = "clip_src_low ?hf scl ?h2" and ?v3 = "clip_src_low ?vf sct ?v2"
  let ?h4 = "clip_src_high ?hf scr ?h3" and ?v4 = "clip_src_high ?vf scb ?v3"
  have neg: "snd (snd a) - fst (snd a) < 0 \<Longrightarrow> axis_empty a" for a :: "int \<times> int \<times> int"
    by (cases a) (simp add: axis_empty_def)
  consider "dcr \<le> dcl \<or> dcb \<le> dct \<or> scr \<le> scl \<or> scb \<le> sct"
    | "sr \<le> scl \<or> sb \<le> sct \<or> sl \<ge> scr \<or> st \<ge> scb"
    | "axis_empty ?h1 \<or> axis_empty ?v1" | "axis_empty ?h2 \<or> axis_empty ?v2"
    | "axis_empty ?h3 \<or> axis_empty ?v3" | "axis_empty ?h4 \<or> axis_empty ?v4"
    using assms neg[of ?h1] neg[of ?v1] by (auto simp: ClipRect_def Let_def simp del: goes_to.simps split: if_splits)
  then show ?thesis
    by cases (auto simp: admitted_def dest: axis_empty_step(2,3,4,5))
qed

text \<open>
  Clipping is exact: it succeeds iff some source pixel that lies in the source clip goes to a
  destination pixel in the destination clip, and then the clipped rectangle moves precisely
  those pixels, to the same places, mirrored or not on either axis.
\<close>

theorem clip_rect_exact:
  assumes "clipped = ClipRect (dcl, dct, dcr, dcb) (scl, sct, scr, scb) x y (sl, st, sr, sb) mode"
    and "hf = has_flag mode PIXEL_FLAG_HFLIP" and "vf = has_flag mode PIXEL_FLAG_VFLIP"
  shows "(case clipped of
      Inl e \<Rightarrow> \<forall>u v t s. \<not> (admitted hf dcl dcr scl scr (x, sl, sr) u t \<and>
        admitted vf dct dcb sct scb (y, st, sb) v s)
    | Inr (x', y', sl', st', sr', sb') \<Rightarrow> sl' < sr' \<and> st' < sb' \<and>
        (\<forall>u t. goes_to hf (x', sl', sr') u t \<longleftrightarrow> admitted hf dcl dcr scl scr (x, sl, sr) u t) \<and>
        (\<forall>v s. goes_to vf (y', st', sb') v s \<longleftrightarrow> admitted vf dct dcb sct scb (y, st, sb) v s))"
proof (cases clipped)
  case (Inl e)
  then show ?thesis using ClipRect_Inl[of dcl dct dcr dcb scl sct scr scb x y sl st sr sb mode e]
    by (simp add: assms)
next
  case (Inr r)
  obtain x' y' sl' st' sr' sb' where r: "r = (x', y', sl', st', sr', sb')" by (metis prod.exhaust)
  note c = ClipRect_Inr[OF trans[OF assms(1)[symmetric] trans[OF Inr arg_cong[OF r, of Inr]]]]
  show ?thesis unfolding Inr r sum.case prod.case
    using c(3,4) by (simp only: c(1,2) clip_axis_admitted assms(2,3)) simp
qed

theorem clip_rect_exact_witness:
  "ClipRect (0, 0, 10, 10) (0, 0, 5, 5) (-2) 7 (1, 1, 9, 5) 0 = Inr (0, 7, 3, 1, 5, 4) \<and>
   goes_to False (0, 3, 5) 4 1"
proof -
  have r: "Inr (0, 7, 3, 1, 5, 4) = ClipRect (0, 0, 10, 10) (0, 0, 5, 5) (-2) 7 (1, 1, 9, 5) 0"
    by code_simp
  have f: "False = has_flag 0 PIXEL_FLAG_HFLIP" "False = has_flag 0 PIXEL_FLAG_VFLIP" by code_simp+
  have "admitted False 0 10 0 5 (-2, 1, 9) 4 1" by code_simp
  with clip_rect_exact[OF r f] r show ?thesis by simp
qed

section \<open>Operations row by row\<close>

text \<open>The loops over \<open>h\<close> rows from \<open>y\<close> on: row \<open>y + j\<close> becomes \<open>f j\<close> of itself.\<close>

definition each_row :: "(nat \<Rightarrow> bytes \<Rightarrow> bytes) \<Rightarrow> int \<Rightarrow> nat \<Rightarrow> bitmap \<Rightarrow> bitmap" where
  "each_row f y h b = fold (\<lambda>j b. set_line b (y + int j) (f j (Line b (y + int j)))) [0..<h] b"

text \<open>
  \<open>Fill\<close> with coordinates that are not bounded: the sums \<open>x + w\<close> and \<open>y + h\<close> of the code are \<open>int\<close>s of
  32 bits and wrap for corners far outside, which is not modelled.  A row outside the bitmap, which
  the clipping excludes, would be no change here.
\<close>

definition Fill :: "int \<Rightarrow> int \<Rightarrow> int \<Rightarrow> int \<Rightarrow> u32 \<Rightarrow> bitmap \<Rightarrow> bitmap" where
  "Fill x y w h color b =
     (let (w, x) = (if x < 0 then (w + x, 0) else (w, x));
          (h, y) = (if y < 0 then (h + y, 0) else (h, y)) in
      if w < 0 \<or> h < 0 then b
      else
        let w = (if x + w \<ge> int (bm_w b) then int (bm_w b) - x else w);
            h = (if y + h \<ge> int (bm_h b) then int (bm_h b) - y else h)
        in each_row (\<lambda>j r. put_list (px_put (pixelsize (bm_fmt b))) r (nat x) (replicate (nat w) color))
             y (nat h) b)"

definition Clear :: "u32 \<Rightarrow> bitmap \<Rightarrow> bitmap" where
  "Clear color b = Fill 0 0 (int (bm_w b)) (int (bm_h b)) color b"

text \<open>
  One row of \<open>BlitNormal\<close>: a memory copy, but pixel by pixel for three bytes or when mirrored.
\<close>

definition blit_pixels :: "nat \<Rightarrow> bool \<Rightarrow> nat \<Rightarrow> nat \<Rightarrow> bytes \<Rightarrow> u32 list" where
  "blit_pixels ps hflip sx w s =
     map (\<lambda>i. px_get ps s (if hflip then sx + w - 1 - i else sx + i)) [0..<w]"

definition blit_row :: "nat \<Rightarrow> bool \<Rightarrow> nat \<Rightarrow> bytes \<Rightarrow> nat \<Rightarrow> nat \<Rightarrow> bytes \<Rightarrow> bytes" where
  "blit_row ps hflip dx s sx w d =
     (if ps \<noteq> 3 \<and> \<not> hflip then
        take (ps * dx) d @ take (w * ps) (drop (ps * sx) s) @ drop (ps * dx + w * ps) d
      else put_list (px_put ps) d dx (blit_pixels ps hflip sx w s))"

definition blit_src_row :: "bool \<Rightarrow> int \<Rightarrow> int \<Rightarrow> nat \<Rightarrow> int" where
  "blit_src_row vflip sy h j = (if vflip then sy + (h - 1) - int j else sy + int j)"

definition BlitNormal :: "bitmap \<Rightarrow> int \<Rightarrow> int \<Rightarrow> bitmap \<Rightarrow> int \<Rightarrow> int \<Rightarrow> int \<Rightarrow> int \<Rightarrow> u32 \<Rightarrow> bitmap" where
  "BlitNormal dst x y src sx sy w h flip =
     each_row (\<lambda>j. blit_row (pixelsize (bm_fmt dst)) (has_flag flip PIXEL_FLAG_HFLIP) (nat x)
         (Line src (blit_src_row (has_flag flip PIXEL_FLAG_VFLIP) sy h j)) (nat sx) (nat w))
       y (nat h) dst"

text \<open>\<open>BlitMask\<close> leaves the pixels of the mask colour out; 24 bits compare with the whole mask.\<close>

fun put_masked :: "('r \<Rightarrow> nat \<Rightarrow> 'p \<Rightarrow> 'r) \<Rightarrow> 'p \<Rightarrow> 'r \<Rightarrow> nat \<Rightarrow> 'p list \<Rightarrow> 'r" where
  "put_masked put m r x [] = r"
| "put_masked put m r x (c # cs) = put_masked put m (if c \<noteq> m then put r x c else r) (Suc x) cs"

definition cmask :: "nat \<Rightarrow> u32 \<Rightarrow> u32" where
  "cmask ps m = (if ps = 1 then m AND 0xff else if ps = 2 then m AND 0xffff else m)"

definition BlitMask :: "bitmap \<Rightarrow> int \<Rightarrow> int \<Rightarrow> bitmap \<Rightarrow> int \<Rightarrow> int \<Rightarrow> int \<Rightarrow> int \<Rightarrow> u32 \<Rightarrow> u32 \<Rightarrow> bitmap" where
  "BlitMask dst x y src sx sy w h m flip =
     (let ps = pixelsize (bm_fmt dst); hflip = has_flag flip PIXEL_FLAG_HFLIP;
          vflip = has_flag flip PIXEL_FLAG_VFLIP in
      each_row (\<lambda>j r. put_masked (px_put ps) (cmask ps m) r (nat x)
          (blit_pixels ps hflip (nat sx) (nat w) (Line src (blit_src_row vflip sy h j))))
        y (nat h) dst)"

text \<open>The clipping both \<open>Blit\<close> and \<open>Convert\<close> start with: \<open>x, y, sx, sy, w, h\<close>, or nothing to do.\<close>

definition blit_clip :: "bitmap \<Rightarrow> bitmap \<Rightarrow> int \<Rightarrow> int \<Rightarrow> int \<Rightarrow> int \<Rightarrow> int \<Rightarrow> int \<Rightarrow> u32 \<Rightarrow>
    (int \<times> int \<times> int \<times> int \<times> int \<times> int) option" where
  "blit_clip dst src x y sx sy w h mode =
     (if \<not> has_flag mode PIXEL_FLAG_NOCLIP then
        case ClipRect (0, 0, int (bm_w dst), int (bm_h dst)) (0, 0, int (bm_w src), int (bm_h src))
          x y (sx, sy, sx + w, sy + h) mode of
          Inl _ \<Rightarrow> None
        | Inr (x, y, sl, st, sr, sb) \<Rightarrow> Some (x, y, sl, st, sr - sl, sb - st)
      else Some (x, y, sx, sy, w, h))"

text \<open>\<open>Blit\<close>; \<open>m\<close> is the mask colour of the source.\<close>

definition Blit :: "bitmap \<Rightarrow> int \<Rightarrow> int \<Rightarrow> bitmap \<Rightarrow> u32 \<Rightarrow> int \<Rightarrow> int \<Rightarrow> int \<Rightarrow> int \<Rightarrow> u32 \<Rightarrow> int \<times> bitmap" where
  "Blit dst x y src m sx sy w h mode =
     (if fmt_bpp (bm_fmt dst) \<noteq> fmt_bpp (bm_fmt src) then (- 1, dst)
      else case blit_clip dst src x y sx sy w h mode of
        None \<Rightarrow> (0, dst)
      | Some (x, y, sx, sy, w, h) \<Rightarrow>
          let opacity = \<not> has_flag mode PIXEL_FLAG_MASK;
              flip = mode AND (PIXEL_FLAG_HFLIP OR PIXEL_FLAG_VFLIP)
          in (0, if opacity then BlitNormal dst x y src sx sy w h flip
                 else BlitMask dst x y src sx sy w h m flip))"

text \<open>
  \<open>Convert\<close>. The second case takes the source row from column \<open>x\<close>, the destination's, where
  the other two take it from \<open>sx\<close>.
\<close>

definition convert_row :: "pixel_fmt \<Rightarrow> pixel_fmt \<Rightarrow> bool \<Rightarrow> nat \<Rightarrow> bytes \<Rightarrow> nat \<Rightarrow> nat \<Rightarrow> bytes \<Rightarrow> bytes" where
  "convert_row dfmt sfmt hflip x s sx w d =
     (if dfmt = A8R8G8B8 then
        let c = Fetch sfmt s sx w in
        put_list (px_put 4) d x (if hflip then CardReverse c else c)
      else if sfmt = A8R8G8B8 \<and> \<not> hflip then
        Store dfmt d x (map (\<lambda>i. px_get 4 s (x + i)) [0..<w])
      else
        let c = Fetch sfmt s sx w in
        Store dfmt d x (if hflip then CardReverse c else c))"

definition Convert :: "bitmap \<Rightarrow> int \<Rightarrow> int \<Rightarrow> bitmap \<Rightarrow> u32 \<Rightarrow> int \<Rightarrow> int \<Rightarrow> int \<Rightarrow> int \<Rightarrow> u32 \<Rightarrow> int \<times> bitmap" where
  "Convert dst x y src m sx sy w h mode =
     (if bm_fmt dst = bm_fmt src then Blit dst x y src m sx sy w h mode
      else case blit_clip dst src x y sx sy w h mode of
        None \<Rightarrow> (0, dst)
      | Some (x, y, sx, sy, w, h) \<Rightarrow>
          (0, each_row (\<lambda>j. convert_row (bm_fmt dst) (bm_fmt src) (has_flag mode PIXEL_FLAG_HFLIP)
                (nat x) (Line src (blit_src_row (has_flag mode PIXEL_FLAG_VFLIP) sy h j)) (nat sx) (nat w))
              y (nat h) dst))"

definition Chop :: "bitmap \<Rightarrow> u32 \<Rightarrow> int \<Rightarrow> int \<Rightarrow> nat \<Rightarrow> nat \<Rightarrow> pixel_fmt \<Rightarrow> bitmap option" where
  "Chop b m x y w h f = (case new_bitmap w h f of None \<Rightarrow> None
     | Some bmp \<Rightarrow> Some (snd (Convert bmp 0 0 b m x y (int w) (int h) 0)))"

section \<open>What the row operations do\<close>

lemma set_line_nth:
  "length (bm_lines b) = bm_h b \<Longrightarrow> 0 \<le> y \<Longrightarrow> y < int (bm_h b) \<Longrightarrow> 0 \<le> v \<Longrightarrow>
   Line (set_line b y r) v = (if v = y then r else Line b v)"
  by (auto simp: Line_def set_line_def nth_list_update nat_less_iff)

lemma each_row_Suc:
  "each_row f y (Suc h) b =
   (let b' = each_row f y h b in set_line b' (y + int h) (f h (Line b' (y + int h))))"
  by (simp add: each_row_def Let_def)

lemma each_row_frame:
  "bm_w (each_row f y h b) = bm_w b" "bm_h (each_row f y h b) = bm_h b"
  "bm_fmt (each_row f y h b) = bm_fmt b" "length (bm_lines (each_row f y h b)) = length (bm_lines b)"
  by (induction h) (simp_all add: each_row_Suc Let_def set_line_def, simp_all add: each_row_def)

lemma Line_each_row:
  assumes "length (bm_lines b) = bm_h b" and "0 \<le> y" and "y + int h \<le> int (bm_h b)" and "0 \<le> v"
  shows "Line (each_row f y h b) v = (if y \<le> v \<and> v < y + int h then f (nat (v - y)) (Line b v) else Line b v)"
  using assms(3)
proof (induction h)
  case 0
  then show ?case by (auto simp: each_row_def)
next
  case (Suc h)
  let ?b = "each_row f y h b"
  have "Line (each_row f y (Suc h) b) v =
      (if v = y + int h then f h (Line ?b (y + int h)) else Line ?b v)"
    unfolding each_row_Suc Let_def using assms Suc.prems
    by (intro set_line_nth) (simp_all add: each_row_frame)
  with Suc show ?case by auto
qed

lemma GetPixel_each_row:
  assumes "canvas_ok b" and "0 \<le> y" and "y + int h \<le> int (bm_h b)" and "in_bitmap b u v"
  shows "GetPixel (each_row f y h b) u v =
    (if y \<le> v \<and> v < y + int h
     then px_get (pixelsize (bm_fmt b)) (f (nat (v - y)) (Line b v)) (nat u) else GetPixel b u v)"
  using assms Line_each_row[of b y h v f]
  by (simp add: GetPixel_def in_bitmap_def each_row_frame canvas_ok_def bitmap_ok_def)

context raster
begin

lemma put_masked_frame:
  "x + length cs \<le> width r \<Longrightarrow> width (put_masked put m r x cs) = width r"
  by (induction cs arbitrary: r x) (simp_all add: width_put)

lemma get_put_masked:
  "x + length cs \<le> width r \<Longrightarrow> y < width r \<Longrightarrow> get (put_masked put m r x cs) y =
     (if x \<le> y \<and> y < x + length cs \<and> cs ! (y - x) \<noteq> m then wrap (cs ! (y - x)) else get r y)"
proof (induction cs arbitrary: r x)
  case (Cons c cs)
  let ?r = "if c \<noteq> m then put r x c else r"
  have w: "width ?r = width r" using Cons.prems by (simp add: width_put)
  have "get (put_masked put m ?r (Suc x) cs) y =
      (if Suc x \<le> y \<and> y < Suc x + length cs \<and> cs ! (y - Suc x) \<noteq> m
       then wrap (cs ! (y - Suc x)) else get ?r y)"
    using Cons.prems w by (intro Cons.IH) auto
  moreover have "get ?r y = (if c \<noteq> m \<and> y = x then wrap c else get r y)"
    using Cons.prems by (simp add: get_put)
  moreover have "(c # cs) ! (y - x) = (if y = x then c else cs ! (y - Suc x))" if "x \<le> y"
    using that by (simp add: nth_Cons')
  ultimately show ?case by (cases "y = x") auto
qed auto

end

lemma length_blit_pixels [simp]: "length (blit_pixels ps hflip sx w s) = w"
  by (simp add: blit_pixels_def)

lemma nth_blit_pixels: "i < w \<Longrightarrow>
    blit_pixels ps hflip sx w s ! i = px_get ps s (if hflip then sx + w - 1 - i else sx + i)"
  by (simp add: blit_pixels_def)

lemma memcpy_row:
  assumes "0 < ps" and "ps \<le> 4" and "dx + w \<le> px_width ps d" and "sx + w \<le> px_width ps s"
  shows "take (ps * dx) d @ take (w * ps) (drop (ps * sx) s) @ drop (ps * dx + w * ps) d =
    put_list (px_put ps) d dx (blit_pixels ps False sx w s)"
  using assms(3,4)
proof (induction w arbitrary: d dx sx)
  case 0
  then show ?case by (simp add: blit_pixels_def)
next
  case (Suc w)
  let ?d = "px_put ps d dx (px_get ps s sx)"
  have l: "ps * (dx + Suc w) \<le> length d" "ps * (sx + Suc w) \<le> length s"
    using Suc.prems assms(1) by (simp_all add: px_width_def less_eq_div_iff_mult_less_eq mult.commute)
  then have "le_bytes ps (px_get ps s sx) = take ps (drop (ps * sx) s)"
    using le_bytes_le_word[where 'a = 32, of "take ps (drop (ps * sx) s)"] assms(2)
    by (simp add: px_get_def algebra_simps)
  then have d: "?d = take (ps * dx) d @ take ps (drop (ps * sx) s) @ drop (ps * dx + ps) d"
    by (simp add: px_put_def)
  have "blit_pixels ps False sx (Suc w) s = px_get ps s sx # blit_pixels ps False (Suc sx) w s"
    by (simp add: blit_pixels_def upt_conv_Cons map_Suc_upt[symmetric] del: upt_Suc)
  moreover have "take (ps * Suc dx) ?d @ take (w * ps) (drop (ps * Suc sx) s) @ drop (ps * Suc dx + w * ps) ?d =
      put_list (px_put ps) ?d (Suc dx) (blit_pixels ps False (Suc sx) w s)"
    using Suc.prems row_raster.width_put[of dx ps d] by (intro Suc.IH) auto
  moreover have "take (Suc w * ps) (drop (ps * sx) s) =
      take ps (drop (ps * sx) s) @ take (w * ps) (drop (ps * Suc sx) s)"
    using take_add[of ps "w * ps" "drop (ps * sx) s"] by (simp add: add.commute)
  moreover have "take (ps * Suc dx) ?d = take (ps * dx) d @ take ps (drop (ps * sx) s)"
    "drop (ps * Suc dx + w * ps) ?d = drop (ps * dx + Suc w * ps) d"
  proof -
    define A B where "A = take (ps * dx) d" and "B = take ps (drop (ps * sx) s)"
    have ab: "length A = ps * dx" "length B = ps"
      using l by (simp_all add: A_def B_def algebra_simps)
    show "take (ps * Suc dx) ?d = take (ps * dx) d @ take ps (drop (ps * sx) s)"
      "drop (ps * Suc dx + w * ps) ?d = drop (ps * dx + Suc w * ps) d"
      unfolding d A_def[symmetric] B_def[symmetric] by (simp_all add: ab algebra_simps)
  qed
  ultimately show ?case by simp
qed

section \<open>Rectangles move whole\<close>

text \<open>The source column (or row) whose pixel belongs at \<open>t\<close>.\<close>

definition src_col :: "bool \<Rightarrow> int \<Rightarrow> int \<Rightarrow> int \<Rightarrow> int \<Rightarrow> int" where
  "src_col flip x sx w t = (if flip then sx + w - 1 - (t - x) else sx + (t - x))"

lemma goes_to_src_col:
  "goes_to flip (x, sx, sx + w) u t \<longleftrightarrow> u = src_col flip x sx w t \<and> sx \<le> u \<and> u < sx + w"
  by (auto simp: src_col_def)

lemma goes_to_ends:
  assumes "sl < sr" and "\<And>u t. goes_to flip (x, sl, sr) u t \<Longrightarrow> 0 \<le> t \<and> t < n \<and> 0 \<le> u \<and> u < k"
  shows "0 \<le> x \<and> x + (sr - sl) \<le> n \<and> 0 \<le> sl \<and> sr \<le> k"
proof -
  have lo: "goes_to flip (x, sl, sr) sl (if flip then x + (sr - 1 - sl) else x)"
    and hi: "goes_to flip (x, sl, sr) (sr - 1) (if flip then x else x + (sr - 1 - sl))"
    using assms(1) by auto
  show ?thesis using assms(2)[OF lo] assms(2)[OF hi] by (cases flip) auto
qed

lemma blit_clip_Some:
  assumes "blit_clip dst src x y sx sy w h mode = Some (x', y', sx', sy', w', h')"
    and "\<not> has_flag mode PIXEL_FLAG_NOCLIP"
  shows "0 < w'" "0 < h'"
    "goes_to (has_flag mode PIXEL_FLAG_HFLIP) (x', sx', sx' + w') u t \<longleftrightarrow>
      goes_to (has_flag mode PIXEL_FLAG_HFLIP) (x, sx, sx + w) u t \<and>
      0 \<le> t \<and> t < int (bm_w dst) \<and> 0 \<le> u \<and> u < int (bm_w src)"
    "goes_to (has_flag mode PIXEL_FLAG_VFLIP) (y', sy', sy' + h') v s \<longleftrightarrow>
      goes_to (has_flag mode PIXEL_FLAG_VFLIP) (y, sy, sy + h) v s \<and>
      0 \<le> s \<and> s < int (bm_h dst) \<and> 0 \<le> v \<and> v < int (bm_h src)"
proof -
  have e: "ClipRect (0, 0, int (bm_w dst), int (bm_h dst)) (0, 0, int (bm_w src), int (bm_h src))
      x y (sx, sy, sx + w, sy + h) mode = Inr (x', y', sx', sy', sx' + w', sy' + h')"
    using assms by (auto simp: blit_clip_def split: sum.splits prod.splits)
  note c = ClipRect_Inr[OF e]
  show "0 < w'" "0 < h'" using c(3,4) by simp_all
  show "goes_to (has_flag mode PIXEL_FLAG_HFLIP) (x', sx', sx' + w') u t \<longleftrightarrow>
      goes_to (has_flag mode PIXEL_FLAG_HFLIP) (x, sx, sx + w) u t \<and>
      0 \<le> t \<and> t < int (bm_w dst) \<and> 0 \<le> u \<and> u < int (bm_w src)"
    "goes_to (has_flag mode PIXEL_FLAG_VFLIP) (y', sy', sy' + h') v s \<longleftrightarrow>
      goes_to (has_flag mode PIXEL_FLAG_VFLIP) (y, sy, sy + h) v s \<and>
      0 \<le> s \<and> s < int (bm_h dst) \<and> 0 \<le> v \<and> v < int (bm_h src)"
    unfolding c(1) c(2) clip_axis_admitted by (simp_all only: admitted_def)
qed

lemma blit_clip_None:
  assumes "blit_clip dst src x y sx sy w h mode = None" and "in_bitmap dst t s" and "in_bitmap src u v"
  shows "\<not> (goes_to (has_flag mode PIXEL_FLAG_HFLIP) (x, sx, sx + w) u t \<and>
    goes_to (has_flag mode PIXEL_FLAG_VFLIP) (y, sy, sy + h) v s)"
proof -
  obtain e where "ClipRect (0, 0, int (bm_w dst), int (bm_h dst)) (0, 0, int (bm_w src), int (bm_h src))
      x y (sx, sy, sx + w, sy + h) mode = Inl e"
    using assms(1) by (auto simp: blit_clip_def split: sum.splits prod.splits if_splits)
  from ClipRect_Inl[OF this, of u t v s] show ?thesis
    using assms(2,3) by (auto simp: admitted_def in_bitmap_def simp del: goes_to.simps)
qed

text \<open>
  What \<open>Blit\<close> and \<open>Convert\<close> share: a row function \<open>R\<close> that makes of each pixel it covers \<open>g\<close> of
  the source pixel and the old one.
\<close>

definition row_moves :: "nat \<Rightarrow> nat \<Rightarrow> bool \<Rightarrow> (u32 \<Rightarrow> u32 \<Rightarrow> u32) \<Rightarrow>
    (nat \<Rightarrow> bytes \<Rightarrow> nat \<Rightarrow> nat \<Rightarrow> bytes \<Rightarrow> bytes) \<Rightarrow> bool" where
  "row_moves pd ps flip g R \<longleftrightarrow> (\<forall>dx s sx w d k.
     dx + w \<le> px_width pd d \<longrightarrow> sx + w \<le> px_width ps s \<longrightarrow> k < px_width pd d \<longrightarrow>
     px_get pd (R dx s sx w d) k =
       (if dx \<le> k \<and> k < dx + w
        then g (px_get ps s (if flip then sx + w - 1 - (k - dx) else sx + (k - dx))) (px_get pd d k)
        else px_get pd d k))"

lemma rows_moved:
  fixes dst src x y sx sy w h mode
  defines "hf \<equiv> has_flag mode PIXEL_FLAG_HFLIP" and "vf \<equiv> has_flag mode PIXEL_FLAG_VFLIP"
  assumes R: "row_moves (pixelsize (bm_fmt dst)) (pixelsize (bm_fmt src)) hf g R"
    and ok: "canvas_ok dst" "canvas_ok src" and noclip: "\<not> has_flag mode PIXEL_FLAG_NOCLIP"
    and t: "in_bitmap dst t s"
    and clip: "blit_clip dst src x y sx sy w h mode = Some (x', y', sx', sy', w', h')"
    and u: "u = src_col hf x sx w t" and v: "v = src_col vf y sy h s"
  shows "GetPixel (each_row (\<lambda>j. R (nat x') (Line src (blit_src_row vf sy' h' j)) (nat sx') (nat w'))
      y' (nat h') dst) t s =
    (if sx \<le> u \<and> u < sx + w \<and> sy \<le> v \<and> v < sy + h \<and> in_bitmap src u v
     then g (GetPixel src u v) (GetPixel dst t s) else GetPixel dst t s)" (is "?l = (if ?c then _ else _)")
proof -
  note c = blit_clip_Some[OF clip noclip, folded hf_def vf_def]
  have bx: "0 \<le> x' \<and> x' + (sx' + w' - sx') \<le> int (bm_w dst) \<and> 0 \<le> sx' \<and> sx' + w' \<le> int (bm_w src)"
    using c(1) c(3) by (intro goes_to_ends[of _ _ hf]) auto
  have bys: "0 \<le> y' \<and> y' + (sy' + h' - sy') \<le> int (bm_h dst) \<and> 0 \<le> sy' \<and> sy' + h' \<le> int (bm_h src)"
    using c(2) c(4) by (intro goes_to_ends[of _ _ vf]) auto
  have ts: "0 \<le> t" "t < int (bm_w dst)" "0 \<le> s" "s < int (bm_h dst)" using t by (simp_all add: in_bitmap_def)
  let ?u = "src_col hf x' sx' w' t" and ?v = "src_col vf y' sy' h' s"
  have cu: "x' \<le> t \<and> t < x' + w' \<longleftrightarrow> sx' \<le> ?u \<and> ?u < sx' + w'"
    and cv: "y' \<le> s \<and> s < y' + h' \<longleftrightarrow> sy' \<le> ?v \<and> ?v < sy' + h'"
    by (auto simp: src_col_def)
  have eu: "?u = u \<and> sx \<le> u \<and> u < sx + w \<and> 0 \<le> u \<and> u < int (bm_w src)" if "sx' \<le> ?u" "?u < sx' + w'"
    using that c(3)[of ?u t] by (simp only: goes_to_src_col u simp_thms) auto
  have ev: "?v = v \<and> sy \<le> v \<and> v < sy + h \<and> 0 \<le> v \<and> v < int (bm_h src)" if "sy' \<le> ?v" "?v < sy' + h'"
    using that c(4)[of ?v s] by (simp only: goes_to_src_col v simp_thms) auto
  have eu': "sx' \<le> ?u \<and> ?u < sx' + w' \<and> ?u = u" if "sx \<le> u" "u < sx + w" "0 \<le> u" "u < int (bm_w src)"
    using that c(3)[of u t] ts by (simp only: goes_to_src_col u simp_thms) auto
  have ev': "sy' \<le> ?v \<and> ?v < sy' + h' \<and> ?v = v" if "sy \<le> v" "v < sy + h" "0 \<le> v" "v < int (bm_h src)"
    using that c(4)[of v s] ts by (simp only: goes_to_src_col v simp_thms) auto
  have cond: "?c \<longleftrightarrow> (x' \<le> t \<and> t < x' + w') \<and> y' \<le> s \<and> s < y' + h'"
    unfolding cu cv in_bitmap_def using eu ev eu' ev' by blast
  let ?d = "Line dst s" and ?s = "Line src v"
  let ?R = "R (nat x') (Line src (blit_src_row vf sy' h' (nat (s - y')))) (nat sx') (nat w') ?d"
  have l: "?l = (if y' \<le> s \<and> s < y' + int (nat h')
      then px_get (pixelsize (bm_fmt dst)) ?R (nat t) else GetPixel dst t s)"
    using bys c(2) by (intro GetPixel_each_row[OF ok(1) _ _ t]) auto
  show ?thesis
  proof (cases "y' \<le> s \<and> s < y' + h'")
    case False
    then show ?thesis using l cond by auto
  next
    case True
    then have v': "?v = v" "0 \<le> v" "v < int (bm_h src)" using cv ev by blast+
    then have row: "blit_src_row vf sy' h' (nat (s - y')) = v"
      using True by (auto simp: blit_src_row_def src_col_def)
    have w: "nat x' + nat w' \<le> px_width (pixelsize (bm_fmt dst)) ?d"
      "nat sx' + nat w' \<le> px_width (pixelsize (bm_fmt src)) ?s"
      "nat t < px_width (pixelsize (bm_fmt dst)) ?d"
      using px_width_line[OF ok(1) ts(3,4)] px_width_line[OF ok(2) v'(2,3)] bx c(1) ts by linarith+
    have idx: "(if hf then nat sx' + nat w' - 1 - (nat t - nat x') else nat sx' + (nat t - nat x')) = nat u \<and>
        in_bitmap src u v" if "x' \<le> t" "t < x' + w'"
    proof -
      have "?u = u" "0 \<le> u" "u < int (bm_w src)" using that cu eu by blast+
      then show ?thesis using that bx v' by (auto simp: src_col_def in_bitmap_def)
    qed
    have "px_get (pixelsize (bm_fmt dst)) ?R (nat t) =
        (if nat x' \<le> nat t \<and> nat t < nat x' + nat w'
         then g (px_get (pixelsize (bm_fmt src)) ?s
           (if hf then nat sx' + nat w' - 1 - (nat t - nat x') else nat sx' + (nat t - nat x')))
           (px_get (pixelsize (bm_fmt dst)) ?d (nat t))
         else px_get (pixelsize (bm_fmt dst)) ?d (nat t))"
      unfolding row using R w unfolding row_moves_def by blast
    moreover have "nat x' \<le> nat t \<and> nat t < nat x' + nat w' \<longleftrightarrow> x' \<le> t \<and> t < x' + w'"
      using bx ts c(1) by auto
    moreover have "px_get (pixelsize (bm_fmt dst)) ?d (nat t) = GetPixel dst t s"
      using t by (simp add: GetPixel_def)
    ultimately show ?thesis unfolding l using True cond idx c(2) by (auto simp: GetPixel_def)
  qed
qed

lemma blit_pixels_nth:
  assumes "dx \<le> k" and "k < dx + w"
  shows "blit_pixels ps hflip sx w s ! (k - dx) =
    px_get ps s (if hflip then sx + w - 1 - (k - dx) else sx + (k - dx))"
  using assms by (intro nth_blit_pixels) auto

lemma blit_pixels_wrap:
  assumes "sx + w \<le> px_width ps s" and "dx \<le> k" and "k < dx + w"
  shows "px_wrap ps (blit_pixels ps hflip sx w s ! (k - dx)) = blit_pixels ps hflip sx w s ! (k - dx)"
  unfolding blit_pixels_nth[OF assms(2,3)] using assms by (intro row_raster.wrap_get) auto

lemma blit_row_moves:
  assumes "0 < ps" and "ps \<le> 4"
  shows "row_moves ps ps flip (\<lambda>p q. p) (\<lambda>dx s sx w. blit_row ps flip dx s sx w)"
  unfolding row_moves_def
proof (intro allI impI)
  fix dx s sx w d k
  assume b: "dx + w \<le> px_width ps d" "sx + w \<le> px_width ps s" "k < px_width ps d"
  have "blit_row ps flip dx s sx w d = put_list (px_put ps) d dx (blit_pixels ps flip sx w s)"
    using memcpy_row[OF assms b(1,2)] by (simp add: blit_row_def)
  then have "px_get ps (blit_row ps flip dx s sx w d) k =
      (if dx \<le> k \<and> k < dx + w then px_wrap ps (blit_pixels ps flip sx w s ! (k - dx)) else px_get ps d k)"
    using row_raster.get_put_list[of dx "blit_pixels ps flip sx w s" ps d k] b by simp
  then show "px_get ps (blit_row ps flip dx s sx w d) k = (if dx \<le> k \<and> k < dx + w
      then px_get ps s (if flip then sx + w - 1 - (k - dx) else sx + (k - dx)) else px_get ps d k)"
    using blit_pixels_wrap[OF b(2), of dx k flip] blit_pixels_nth[of dx k w ps flip sx s] by auto
qed

lemma mask_row_moves:
  "row_moves ps ps flip (\<lambda>p q. if p \<noteq> c then p else q)
     (\<lambda>dx s sx w d. put_masked (px_put ps) c d dx (blit_pixels ps flip sx w s))"
  unfolding row_moves_def
proof (intro allI impI)
  fix dx s sx w d k
  assume b: "dx + w \<le> px_width ps d" "sx + w \<le> px_width ps s" "k < px_width ps d"
  let ?p = "px_get ps s (if flip then sx + w - 1 - (k - dx) else sx + (k - dx))"
  show "px_get ps (put_masked (px_put ps) c d dx (blit_pixels ps flip sx w s)) k =
      (if dx \<le> k \<and> k < dx + w then if ?p \<noteq> c then ?p else px_get ps d k else px_get ps d k)"
    using row_raster.get_put_masked[of dx "blit_pixels ps flip sx w s" ps d k c] b
      blit_pixels_wrap[OF b(2), of dx k flip] blit_pixels_nth[of dx k w ps flip sx s] by auto
qed

lemma flip_flags:
  "has_flag (mode AND (PIXEL_FLAG_HFLIP OR PIXEL_FLAG_VFLIP)) PIXEL_FLAG_HFLIP = has_flag mode PIXEL_FLAG_HFLIP"
  "has_flag (mode AND (PIXEL_FLAG_HFLIP OR PIXEL_FLAG_VFLIP)) PIXEL_FLAG_VFLIP = has_flag mode PIXEL_FLAG_VFLIP"
  by (simp_all add: has_flag_def PIXEL_FLAG_HFLIP_def PIXEL_FLAG_VFLIP_def and.assoc)

lemma same_bpp_size: "fmt_bpp f = fmt_bpp g \<Longrightarrow> pixelsize f = pixelsize g"
  by (simp add: pixelsize_def)

lemma blit_moves:
  assumes "canvas_ok dst" and "canvas_ok src" and "fmt_bpp (bm_fmt dst) = fmt_bpp (bm_fmt src)"
    and "\<not> has_flag mode PIXEL_FLAG_NOCLIP" and "in_bitmap dst t s"
    and "u = src_col (has_flag mode PIXEL_FLAG_HFLIP) x sx w t"
    and "v = src_col (has_flag mode PIXEL_FLAG_VFLIP) y sy h s"
    and "Blit dst x y src m sx sy w h mode = (r, dst')"
  shows "r = 0 \<and> GetPixel dst' t s =
    (if sx \<le> u \<and> u < sx + w \<and> sy \<le> v \<and> v < sy + h \<and> in_bitmap src u v \<and>
        (has_flag mode PIXEL_FLAG_MASK \<longrightarrow> GetPixel src u v \<noteq> cmask (pixelsize (bm_fmt src)) m)
     then GetPixel src u v else GetPixel dst t s)"
proof (cases "blit_clip dst src x y sx sy w h mode")
  case None
  then have "r = 0" "dst' = dst" using assms(3,8) by (simp_all add: Blit_def)
  moreover have "\<not> (sx \<le> u \<and> u < sx + w \<and> sy \<le> v \<and> v < sy + h \<and> in_bitmap src u v)"
    using blit_clip_None[OF None assms(5), of u v] goes_to_src_col assms(6,7) by blast
  ultimately show ?thesis by auto
next
  case (Some c)
  obtain x' y' sx' sy' w' h' where c: "c = (x', y', sx', sy', w', h')" by (metis prod.exhaust)
  let ?ps = "pixelsize (bm_fmt dst)"
  have ps: "?ps = pixelsize (bm_fmt src)" "0 < ?ps" "?ps \<le> 4"
    using same_bpp_size[OF assms(3)] pixelsize_cases[of "bm_fmt dst"] assms(1)
    by (auto simp: canvas_ok_def)
  note M = rows_moved[OF _ assms(1,2,4,5) Some[unfolded c] assms(6,7)]
  show ?thesis
  proof (cases "has_flag mode PIXEL_FLAG_MASK")
    case True
    then have "r = 0" "dst' = BlitMask dst x' y' src sx' sy' w' h' m
        (mode AND (PIXEL_FLAG_HFLIP OR PIXEL_FLAG_VFLIP))"
      using assms(3,8) Some c by (auto simp: Blit_def)
    moreover have "row_moves ?ps (pixelsize (bm_fmt src)) (has_flag mode PIXEL_FLAG_HFLIP)
        (\<lambda>p q. if p \<noteq> cmask ?ps m then p else q)
        (\<lambda>dx s sx w d. put_masked (px_put ?ps) (cmask ?ps m) d dx
           (blit_pixels ?ps (has_flag mode PIXEL_FLAG_HFLIP) sx w s))"
      unfolding ps(1)[symmetric] by (rule mask_row_moves)
    from M[OF this] have "GetPixel (BlitMask dst x' y' src sx' sy' w' h' m
        (mode AND (PIXEL_FLAG_HFLIP OR PIXEL_FLAG_VFLIP))) t s =
      (if sx \<le> u \<and> u < sx + w \<and> sy \<le> v \<and> v < sy + h \<and> in_bitmap src u v
       then if GetPixel src u v \<noteq> cmask ?ps m then GetPixel src u v else GetPixel dst t s
       else GetPixel dst t s)"
      by (simp only: BlitMask_def Let_def flip_flags)
    ultimately show ?thesis using True ps(1) by auto
  next
    case False
    then have "r = 0" "dst' = BlitNormal dst x' y' src sx' sy' w' h'
        (mode AND (PIXEL_FLAG_HFLIP OR PIXEL_FLAG_VFLIP))"
      using assms(3,8) Some c by (auto simp: Blit_def)
    moreover have "row_moves ?ps (pixelsize (bm_fmt src)) (has_flag mode PIXEL_FLAG_HFLIP) (\<lambda>p q. p)
        (\<lambda>dx s sx w. blit_row ?ps (has_flag mode PIXEL_FLAG_HFLIP) dx s sx w)"
      unfolding ps(1)[symmetric] by (rule blit_row_moves[OF ps(2,3)])
    from M[OF this] have "GetPixel (BlitNormal dst x' y' src sx' sy' w' h'
        (mode AND (PIXEL_FLAG_HFLIP OR PIXEL_FLAG_VFLIP))) t s =
      (if sx \<le> u \<and> u < sx + w \<and> sy \<le> v \<and> v < sy + h \<and> in_bitmap src u v
       then GetPixel src u v else GetPixel dst t s)"
      by (simp only: BlitNormal_def Let_def flip_flags)
    ultimately show ?thesis using False by auto
  qed
qed

text \<open>
  C21.  A blit between bitmaps of the same depth, in any of its modes: a destination pixel takes
  the value of the source pixel that the rectangle places there, mirrored on the axes asked
  for, when that pixel is in the rectangle and on the source (and is not of the transparent
  colour, in a masked blit); every other destination pixel stays.
\<close>

theorem blit_moves_pixels:
  assumes "canvas_ok dst" and "canvas_ok src" and "fmt_bpp (bm_fmt dst) = fmt_bpp (bm_fmt src)"
    and "\<not> has_flag mode PIXEL_FLAG_NOCLIP" and "in_bitmap dst t s"
    and "u = src_col (has_flag mode PIXEL_FLAG_HFLIP) x sx w t"
    and "v = src_col (has_flag mode PIXEL_FLAG_VFLIP) y sy h s"
    and "Blit dst x y src m sx sy w h mode = (r, dst')"
  shows "r = 0 \<and> GetPixel dst' t s =
    (if sx \<le> u \<and> u < sx + w \<and> sy \<le> v \<and> v < sy + h \<and> in_bitmap src u v \<and>
        (has_flag mode PIXEL_FLAG_MASK \<longrightarrow> GetPixel src u v \<noteq> cmask (pixelsize (bm_fmt src)) m)
     then GetPixel src u v else GetPixel dst t s)"
  by (rule blit_moves[OF assms])

definition ex_gray :: "nat \<Rightarrow> bytes list \<Rightarrow> bitmap" where
  "ex_gray w rows = \<lparr>bm_w = w, bm_h = length rows, bm_fmt = G8, bm_lines = rows\<rparr>"

theorem blit_moves_pixels_witness:
  "GetPixel (snd (Blit (ex_gray 4 [[1, 2, 3, 4]]) 1 0 (ex_gray 4 [[7, 9, 5, 6]]) 9 0 0 3 1 3)) 3 0 = 7"
proof -
  let ?d = "ex_gray 4 [[1, 2, 3, 4]]" and ?s = "ex_gray 4 [[7, 9, 5, 6]]"
  have h: "canvas_ok ?d" "canvas_ok ?s" "fmt_bpp (bm_fmt ?d) = fmt_bpp (bm_fmt ?s)"
    "\<not> has_flag 3 PIXEL_FLAG_NOCLIP" "in_bitmap ?d 3 0"
    by code_simp+
  have u: "0 = src_col (has_flag 3 PIXEL_FLAG_HFLIP) 1 0 3 3"
    "0 = src_col (has_flag 3 PIXEL_FLAG_VFLIP) 0 0 1 0" by code_simp+
  have g: "GetPixel ?s 0 0 = 7" "in_bitmap ?s 0 0" "GetPixel ?s 0 0 \<noteq> cmask (pixelsize (bm_fmt ?s)) 9"
    by code_simp+
  obtain r d where b: "Blit ?d 1 0 ?s 9 0 0 3 1 3 = (r, d)" by force
  show ?thesis using blit_moves_pixels[OF h u b] g b by simp
qed

section \<open>Converting rectangles\<close>

text \<open>The row function of \<open>Convert\<close> outside the case that reads from the wrong column.\<close>

lemma Fetch_row_nth:
  assumes "f \<noteq> UNKNOW" and "dx \<le> k" and "k < dx + w"
  shows "(if flip then CardReverse (Fetch f s sx w) else Fetch f s sx w) ! (k - dx) =
    fetch_px f (px_get (pixelsize f) s (if flip then sx + w - 1 - (k - dx) else sx + (k - dx)))"
proof (cases flip)
  case True
  have "rev (Fetch f s sx w) ! (k - dx) = Fetch f s sx w ! (w - Suc (k - dx))"
    using assms by (subst rev_nth) auto
  also have "\<dots> = fetch_px f (px_get (pixelsize f) s (sx + (w - Suc (k - dx))))"
    using assms by (intro nth_Fetch) auto
  also have "sx + (w - Suc (k - dx)) = sx + w - 1 - (k - dx)" using assms(2,3) by auto
  finally show ?thesis using True by (simp only: CardReverse_rev if_True)
next
  case False
  then show ?thesis using assms by (simp add: nth_Fetch)
qed

lemma length_fetch_row:
  "f \<noteq> UNKNOW \<Longrightarrow> length (if flip then CardReverse (Fetch f s sx w) else Fetch f s sx w) = w"
  by (simp add: CardReverse_rev)

lemma convert_row_moves:
  assumes "df \<noteq> UNKNOW" and "sf \<noteq> UNKNOW" and "df \<noteq> A8R8G8B8 \<Longrightarrow> sf = A8R8G8B8 \<Longrightarrow> flip"
  shows "row_moves (pixelsize df) (pixelsize sf) flip
    (\<lambda>p q. px_wrap (pixelsize df) (store_px df (fetch_px sf p)))
    (\<lambda>dx s sx w. convert_row df sf flip dx s sx w)"
  unfolding row_moves_def
proof (intro allI impI)
  fix dx s sx w d k
  assume b: "dx + w \<le> px_width (pixelsize df) d" "sx + w \<le> px_width (pixelsize sf) s"
    "k < px_width (pixelsize df) d"
  let ?c = "if flip then CardReverse (Fetch sf s sx w) else Fetch sf s sx w"
  have "map (store_px A8R8G8B8) xs = xs" for xs by (simp add: map_idI)
  then have "convert_row df sf flip dx s sx w d = Store df d dx ?c"
    using assms(3) by (auto simp: convert_row_def Let_def Store_def pixelsize_def)
  then have "px_get (pixelsize df) (convert_row df sf flip dx s sx w d) k =
      (if dx \<le> k \<and> k < dx + w then px_wrap (pixelsize df) (store_px df (?c ! (k - dx)))
       else px_get (pixelsize df) d k)"
    using px_get_Store[OF assms(1), of dx ?c d k] b length_fetch_row[OF assms(2)] by simp
  then show "px_get (pixelsize df) (convert_row df sf flip dx s sx w d) k =
      (if dx \<le> k \<and> k < dx + w
       then px_wrap (pixelsize df) (store_px df (fetch_px sf
         (px_get (pixelsize sf) s (if flip then sx + w - 1 - (k - dx) else sx + (k - dx)))))
       else px_get (pixelsize df) d k)"
    using Fetch_row_nth[OF assms(2), of dx k w flip s sx] by presburger
qed

text \<open>
  Converting a rectangle between formats, except from \<open>A8R8G8B8\<close> unmirrored into another
  one: every destination pixel the rectangle covers takes the converted source pixel that
  belongs there, cut to the destination's size, and every other pixel stays.
\<close>

theorem convert_moves_pixels:
  assumes "canvas_ok dst" and "canvas_ok src" and "bm_fmt dst \<noteq> bm_fmt src"
    and "\<not> has_flag mode PIXEL_FLAG_NOCLIP" and "in_bitmap dst t s"
    and "u = src_col (has_flag mode PIXEL_FLAG_HFLIP) x sx w t"
    and "v = src_col (has_flag mode PIXEL_FLAG_VFLIP) y sy h s"
    and "bm_fmt src \<noteq> A8R8G8B8 \<or> has_flag mode PIXEL_FLAG_HFLIP"
    and "Convert dst x y src m sx sy w h mode = (r, dst')"
  shows "r = 0 \<and> GetPixel dst' t s =
    (if sx \<le> u \<and> u < sx + w \<and> sy \<le> v \<and> v < sy + h \<and> in_bitmap src u v
     then bm_wrap dst (store_px (bm_fmt dst) (fetch_px (bm_fmt src) (GetPixel src u v)))
     else GetPixel dst t s)"
proof (cases "blit_clip dst src x y sx sy w h mode")
  case None
  then have "r = 0" "dst' = dst" using assms(3,9) by (simp_all add: Convert_def)
  moreover have "\<not> (sx \<le> u \<and> u < sx + w \<and> sy \<le> v \<and> v < sy + h \<and> in_bitmap src u v)"
    using blit_clip_None[OF None assms(5), of u v] goes_to_src_col assms(6,7) by blast
  ultimately show ?thesis by auto
next
  case (Some c)
  obtain x' y' sx' sy' w' h' where c: "c = (x', y', sx', sy', w', h')" by (metis prod.exhaust)
  let ?hf = "has_flag mode PIXEL_FLAG_HFLIP"
  have "row_moves (pixelsize (bm_fmt dst)) (pixelsize (bm_fmt src)) ?hf
      (\<lambda>p q. px_wrap (pixelsize (bm_fmt dst)) (store_px (bm_fmt dst) (fetch_px (bm_fmt src) p)))
      (\<lambda>dx s sx w. convert_row (bm_fmt dst) (bm_fmt src) ?hf dx s sx w)"
    using assms(1,2,8) by (intro convert_row_moves) (auto simp: canvas_ok_def)
  from rows_moved[OF this assms(1,2,4,5) Some[unfolded c] assms(6,7)] show ?thesis
    using assms(3,9) Some c by (auto simp: Convert_def bm_wrap_def)
qed

theorem convert_moves_pixels_witness:
  "GetPixel (snd (Convert (ex_gray 2 [[1, 2, 0, 0]]) 0 0
     \<lparr>bm_w = 1, bm_h = 1, bm_fmt = R5G6B5, bm_lines = [[0xff, 0xff, 0, 0]]\<rparr> 0 0 0 1 1 0)) 0 0 = 255"
proof -
  let ?d = "ex_gray 2 [[1, 2, 0, 0]]"
    and ?s = "\<lparr>bm_w = 1, bm_h = 1, bm_fmt = R5G6B5, bm_lines = [[0xff, 0xff, 0, 0]]\<rparr>"
  have h: "canvas_ok ?d" "canvas_ok ?s" "bm_fmt ?d \<noteq> bm_fmt ?s"
    "\<not> has_flag 0 PIXEL_FLAG_NOCLIP" "in_bitmap ?d 0 0" by code_simp+
  have u: "0 = src_col (has_flag 0 PIXEL_FLAG_HFLIP) 0 0 1 0"
    "0 = src_col (has_flag 0 PIXEL_FLAG_VFLIP) 0 0 1 0"
    "bm_fmt ?s \<noteq> A8R8G8B8 \<or> has_flag 0 PIXEL_FLAG_HFLIP" by code_simp+
  have g: "GetPixel ?s 0 0 = 0xffff" "in_bitmap ?s 0 0"
    "bm_wrap ?d (store_px (bm_fmt ?d) (fetch_px (bm_fmt ?s) 0xffff)) = 255"
    by code_simp+
  obtain r d where b: "Convert ?d 0 0 ?s 0 0 0 1 1 0 = (r, d)" by force
  show ?thesis using convert_moves_pixels[OF h u b] g b by simp
qed

text \<open>
  In the excluded case the row is taken from the destination's column: a part of an \<open>A8R8G8B8\<close>
  picture cut out as grey shows the picture's left edge, whatever part was asked for.
\<close>

lemma chop_takes_left_edge:
  "Chop \<lparr>bm_w = 2, bm_h = 1, bm_fmt = A8R8G8B8, bm_lines = [[0, 0, 0, 255, 255, 255, 255, 255]]\<rparr> 0 1 0 1 1 G8 =
   Some \<lparr>bm_w = 1, bm_h = 1, bm_fmt = G8, bm_lines = [[0, 0, 0, 0]]\<rparr>"
  by code_simp

section \<open>Filling\<close>

lemma fill_rows:
  assumes "canvas_ok b" and "in_bitmap b u v" and "0 \<le> x" and "0 \<le> y"
    and "x + int w \<le> int (bm_w b) \<or> w = 0" and "y + int h \<le> int (bm_h b) \<or> h = 0"
  shows "GetPixel (each_row (\<lambda>j r. put_list (px_put (pixelsize (bm_fmt b))) r (nat x) (replicate w c)) y h b) u v =
    (if x \<le> u \<and> u < x + int w \<and> y \<le> v \<and> v < y + int h then bm_wrap b c else GetPixel b u v)"
proof (cases "w = 0 \<or> h = 0")
  case True
  have e: "each_row (\<lambda>j r. r) y n b = b" if "y + int n \<le> int (bm_h b)" for n
    using that
  proof (induction n)
    case (Suc n)
    then show ?case
      using assms(4) by (simp add: each_row_Suc set_line_def Line_def)
  qed (simp add: each_row_def)
  from True show ?thesis
  proof
    assume "w = 0" then show ?thesis using e[of h] assms(6) by (auto simp: each_row_def)
  next
    assume "h = 0" then show ?thesis by (auto simp: each_row_def)
  qed
next
  case False
  let ?ps = "pixelsize (bm_fmt b)"
  have b: "0 \<le> u" "u < int (bm_w b)" "0 \<le> v" "v < int (bm_h b)" using assms(2) by (simp_all add: in_bitmap_def)
  have "px_get ?ps (put_list (px_put ?ps) (Line b v) (nat x) (replicate w c)) (nat u) =
      (if nat x \<le> nat u \<and> nat u < nat x + w then px_wrap ?ps (replicate w c ! (nat u - nat x))
       else px_get ?ps (Line b v) (nat u))"
    using row_raster.get_put_list[of "nat x" "replicate w c" ?ps "Line b v" "nat u"]
      px_width_line[OF assms(1) b(3,4)] b assms(3,5) False by auto
  moreover have "replicate w c ! (nat u - nat x) = c" if "nat x \<le> nat u" "nat u < nat x + w"
    using that by (subst nth_replicate) auto
  moreover have "nat x \<le> nat u \<and> nat u < nat x + w \<longleftrightarrow> x \<le> u \<and> u < x + int w"
    using b assms(3) by auto
  ultimately show ?thesis
    using GetPixel_each_row[OF assms(1,4) _ assms(2)] assms(2,6) False
    by (auto simp: bm_wrap_def GetPixel_def)
qed

lemma fill_pixels:
  assumes "canvas_ok b" and "in_bitmap b u v"
  shows "GetPixel (Fill x y w h c b) u v =
    (if x \<le> u \<and> u < x + w \<and> y \<le> v \<and> v < y + h then bm_wrap b c else GetPixel b u v)"
proof -
  define w1 x1 h1 y1 where "w1 = (if x < 0 then w + x else w)" and "x1 = (if x < 0 then 0 else x)"
    and "h1 = (if y < 0 then h + y else h)" and "y1 = (if y < 0 then 0 else y)"
  define w2 h2 where "w2 = (if x1 + w1 \<ge> int (bm_w b) then int (bm_w b) - x1 else w1)"
    and "h2 = (if y1 + h1 \<ge> int (bm_h b) then int (bm_h b) - y1 else h1)"
  note defs = w1_def x1_def h1_def y1_def w2_def h2_def
  have uv: "0 \<le> u" "u < int (bm_w b)" "0 \<le> v" "v < int (bm_h b)" using assms(2) by (simp_all add: in_bitmap_def)
  have f: "Fill x y w h c b = (if w1 < 0 \<or> h1 < 0 then b
      else each_row (\<lambda>j r. put_list (px_put (pixelsize (bm_fmt b))) r (nat x1) (replicate (nat w2) c))
        y1 (nat h2) b)"
    by (simp add: Fill_def defs Let_def split: prod.splits)
  show ?thesis
  proof (cases "w1 < 0 \<or> h1 < 0")
    case True
    then show ?thesis using uv unfolding f by (auto simp: defs split: if_splits)
  next
    case False
    have "GetPixel (Fill x y w h c b) u v = (if x1 \<le> u \<and> u < x1 + int (nat w2) \<and> y1 \<le> v \<and> v < y1 + int (nat h2)
        then bm_wrap b c else GetPixel b u v)"
      using False unfolding f
      by (simp only: if_False) (intro fill_rows assms, auto simp: defs)
    moreover have "x1 \<le> u \<and> u < x1 + int (nat w2) \<longleftrightarrow> x \<le> u \<and> u < x + w"
      "y1 \<le> v \<and> v < y1 + int (nat h2) \<longleftrightarrow> y \<le> v \<and> v < y + h"
      using False uv by (auto simp: defs split: if_splits)
    ultimately show ?thesis by (simp only: conj_assoc[symmetric])
  qed
qed

end
