(* ===== verification/Span.thy ===== *)
theory Span
  imports Blit
begin

text \<open>
  Drawing a row of cards over a row of a bitmap (BasicBitmap.cpp): the blending equations, the
  table behind the fast one (\<open>PixelInitLut\<close>), the span procedures the macro
  \<open>PIXEL_SPAN_DRAW_PROC_N\<close> makes for every format and operator, their choice (\<open>GetDriver\<close>;
  nothing in the program installs another one) and \<open>Blend\<close>.
\<close>

unbundle bit_operations_syntax

section \<open>Blending equations\<close>

type_synonym rgba = "u32 \<times> u32 \<times> u32 \<times> u32"

text \<open>\<open>pixel_clip_256\<close>: a table over \<open>-256 .. 511\<close>.\<close>

definition clip_256 :: "int \<Rightarrow> u32" where
  "clip_256 x = (if x < 0 then 0 else if x > 255 then 255 else word_of_int x)"

text \<open>\<open>PixelInitLut\<close>: entry \<open>i\<close> of the 2048 pairs \<open>(SA, FA)\<close>.\<close>

definition blend_lut :: "nat \<Rightarrow> u32 \<times> u32" where
  "blend_lut i =
     (let da = pixel_scale_5 ! (i div 64); sa = pixel_scale_6 ! (i mod 64);
          FA = da + ((255 - da) * sa) div 255;
          SA = (if FA \<noteq> 0 then (sa * 255) div FA else 0)
      in (SA AND 0xff, FA AND 0xff))"

definition lerp8 :: "u32 \<Rightarrow> u32 \<Rightarrow> u32 \<Rightarrow> u32" where
  "lerp8 s d SA = signed_drop_bit 8 ((s - d) * SA) + d"

definition blend_static :: "rgba \<Rightarrow> rgba \<Rightarrow> rgba" where
  "blend_static = (\<lambda>(sr, sg, sb, sa) (dr, dg, db, da).
     let SA = pixel_norm sa in (lerp8 sr dr SA, lerp8 sg dg SA, lerp8 sb db SA, 255))"

definition blend_normal_fast :: "rgba \<Rightarrow> rgba \<Rightarrow> rgba" where
  "blend_normal_fast = (\<lambda>(sr, sg, sb, sa) (dr, dg, db, da).
     let lutpos = push_bit 4 (da AND 0xf8) OR drop_bit 1 (sa AND 0xfc);
         (SA, FA) = blend_lut (unat lutpos div 2);
         SA = pixel_norm SA
     in (lerp8 sr dr SA, lerp8 sg dg SA, lerp8 sb db SA, FA))"

definition blend_additive :: "rgba \<Rightarrow> rgba \<Rightarrow> rgba" where
  "blend_additive = (\<lambda>(sr, sg, sb, sa) (dr, dg, db, da).
     let XA = pixel_norm sa;
         ch = (\<lambda>s d. clip_256 (sint (signed_drop_bit 8 (s * XA) + d)))
     in (ch sr dr, ch sg dg, ch sb db, clip_256 (sint (sa + da))))"

definition blend_srcover :: "rgba \<Rightarrow> rgba \<Rightarrow> rgba" where
  "blend_srcover = (\<lambda>(sr, sg, sb, sa) (dr, dg, db, da).
     let SA = 255 - sa; ch = (\<lambda>s d. fast_div_255 (d * SA) + s)
     in (ch sr dr, ch sg dg, ch sb db, ch sa da))"

section \<open>Span procedures\<close>

text \<open>\<open>RGBA_FROM_PIXEL\<close> and \<open>RGBA_TO_PIXEL\<close> per format.\<close>

fun rgba_from :: "pixel_fmt \<Rightarrow> u32 \<Rightarrow> rgba" where
  "rgba_from A8R8G8B8 c = (case pixel_disasm_8888 c of (a, r, g, b) \<Rightarrow> (r, g, b, a))"
| "rgba_from A8B8G8R8 c = (case pixel_disasm_8888 c of (a, b, g, r) \<Rightarrow> (r, g, b, a))"
| "rgba_from X8R8G8B8 c = (case pixel_disasm_8888 c of (_, r, g, b) \<Rightarrow> (r, g, b, 255))"
| "rgba_from R8G8B8 c = (case pixel_disasm_8888 c of (_, r, g, b) \<Rightarrow> (r, g, b, 255))"
| "rgba_from R5G6B5 c = (case pixel_disasm_565 c of (r, g, b) \<Rightarrow> (r, g, b, 255))"
| "rgba_from X1R5G5B5 c = (case pixel_disasm_X555 c of (r, g, b) \<Rightarrow> (r, g, b, 255))"
| "rgba_from A1R5G5B5 c = (case pixel_disasm_1555 c of (a, r, g, b) \<Rightarrow> (r, g, b, a))"
| "rgba_from A4R4G4B4 c = (case pixel_disasm_4444 c of (a, r, g, b) \<Rightarrow> (r, g, b, a))"
| "rgba_from G8 c = (c, c, c, 255)"
| "rgba_from UNKNOW c = (0, 0, 0, 0)"

fun rgba_to :: "pixel_fmt \<Rightarrow> rgba \<Rightarrow> u32" where
  "rgba_to A8R8G8B8 (r, g, b, a) = pixel_asm_8888 a r g b"
| "rgba_to A8B8G8R8 (r, g, b, a) = pixel_asm_8888 a b g r"
| "rgba_to X8R8G8B8 (r, g, b, a) = pixel_asm_8888 0 r g b"
| "rgba_to R8G8B8 (r, g, b, a) = push_bit 16 r OR push_bit 8 g OR b"
| "rgba_to R5G6B5 (r, g, b, a) = ucast (pixel_asm_565 r g b)"
| "rgba_to X1R5G5B5 (r, g, b, a) = ucast (pixel_asm_1555 0 r g b)"
| "rgba_to A1R5G5B5 (r, g, b, a) = ucast (pixel_asm_1555 a r g b)"
| "rgba_to A4R4G4B4 (r, g, b, a) = ucast (pixel_asm_4444 a r g b)"
| "rgba_to G8 (r, g, b, a) = pixel_to_gray r g b"
| "rgba_to UNKNOW _ = 0"

text \<open>The formats with an alpha channel use the table, the others the static equation.\<close>

definition fmt_blend :: "pixel_fmt \<Rightarrow> rgba \<Rightarrow> rgba \<Rightarrow> rgba" where
  "fmt_blend f = (if f \<in> {A8R8G8B8, A8B8G8R8, A1R5G5B5, A4R4G4B4} then blend_normal_fast
     else blend_static)"

datatype span_op = Op_Normal | Op_SrcOver | Op_Additive

definition card_rgba :: "u32 \<Rightarrow> rgba" where
  "card_rgba c = (case pixel_disasm_8888 c of (a, r, g, b) \<Rightarrow> (r, g, b, a))"

text \<open>One turn of the loop: the card and the raw pixel it meets give the raw pixel stored.\<close>

definition span_px :: "pixel_fmt \<Rightarrow> span_op \<Rightarrow> u32 \<Rightarrow> u32 \<Rightarrow> u32" where
  "span_px f m c p =
     (case card_rgba c of (r1, g1, b1, a1) \<Rightarrow>
        if m \<noteq> Op_Additive \<and> a1 = 255 then rgba_to f (r1, g1, b1, 255)
        else if a1 > 0 then
          rgba_to f ((case m of Op_Normal \<Rightarrow> fmt_blend f | Op_SrcOver \<Rightarrow> blend_srcover
              | Op_Additive \<Rightarrow> blend_additive) (r1, g1, b1, a1) (rgba_from f p))
        else p)"

fun span_draw :: "pixel_fmt \<Rightarrow> span_op \<Rightarrow> bytes \<Rightarrow> nat \<Rightarrow> u32 list \<Rightarrow> bytes" where
  "span_draw f m bits off [] = bits"
| "span_draw f m bits off (c # cards) =
     span_draw f m
       (if drop_bit 24 c AND 0xff > 0
        then px_put (pixelsize f) bits off (span_px f m c (px_get (pixelsize f) bits off)) else bits)
       (Suc off) cards"

definition GetDriver :: "pixel_fmt \<Rightarrow> span_op \<Rightarrow> (bytes \<Rightarrow> nat \<Rightarrow> u32 list \<Rightarrow> bytes) option" where
  "GetDriver f m = (if f = UNKNOW then None else Some (span_draw f m))"

definition PIXEL_FLAG_SRCOVER :: u32 where "PIXEL_FLAG_SRCOVER = 16"
definition PIXEL_FLAG_ADDITIVE :: u32 where "PIXEL_FLAG_ADDITIVE = 32"
definition PIXEL_FLAG_SRCCOPY :: u32 where "PIXEL_FLAG_SRCCOPY = 64"

definition mode_op :: "u32 \<Rightarrow> span_op" where
  "mode_op mode = (if has_flag mode PIXEL_FLAG_SRCOVER then Op_SrcOver
     else if has_flag mode PIXEL_FLAG_ADDITIVE then Op_Additive else Op_Normal)"

definition Blend :: "bitmap \<Rightarrow> int \<Rightarrow> int \<Rightarrow> bitmap \<Rightarrow> u32 \<Rightarrow> int \<Rightarrow> int \<Rightarrow> int \<Rightarrow> int \<Rightarrow> u32 \<Rightarrow> u32 \<Rightarrow> int \<times> bitmap" where
  "Blend dst x y src m sx sy w h mode color =
     (case blit_clip dst src x y sx sy w h mode of
        None \<Rightarrow> (0, dst)
      | Some (x, y, sx, sy, w, h) \<Rightarrow>
          let hflip = has_flag mode PIXEL_FLAG_HFLIP; vflip = has_flag mode PIXEL_FLAG_VFLIP in
          if has_flag mode PIXEL_FLAG_SRCCOPY \<or> GetDriver (bm_fmt dst) (mode_op mode) = None
          then Convert dst x y src m sx sy w h mode
          else
            let draw = the (GetDriver (bm_fmt dst) (mode_op mode)) in
            (0, each_row (\<lambda>j d.
                let s = Line src (blit_src_row vflip sy h j) in
                if bm_fmt src = A8R8G8B8 \<and> \<not> hflip \<and> color = 0xffffffff
                then draw d (nat x) (map (\<lambda>i. px_get 4 s (nat sx + i)) [0..<nat w])
                else
                  let card1 = Fetch (bm_fmt src) s (nat sx) (nat w);
                      card2 = (if hflip then CardReverse card1 else card1);
                      card3 = (if color \<noteq> 0xffffffff then CardMultiply color card2 else card2)
                  in draw d (nat x) card3)
              y (nat h) dst))"

section \<open>What blending keeps\<close>

lemma scaled_between:
  fixes e k :: int
  assumes "0 \<le> k" and "k \<le> 256"
  shows "min e 0 * 256 \<le> e * k" and "e * k \<le> max e 0 * 256"
proof -
  have "e * k \<le> max e 0 * k" using assms by (intro mult_right_mono) simp_all
  moreover have "max e 0 * k \<le> max e 0 * 256" using assms by (intro mult_left_mono) simp_all
  moreover have "min e 0 * k \<le> e * k" using assms by (intro mult_right_mono) simp_all
  moreover have "min e 0 * 256 \<le> min e 0 * k" using assms by (intro mult_left_mono_neg) simp_all
  ultimately show "min e 0 * 256 \<le> e * k" and "e * k \<le> max e 0 * 256" by linarith+
qed

lemma lerp8_value:
  assumes "is_byte s" and "is_byte d" and "unat SA \<le> 256"
  shows "uint (lerp8 s d SA) = (uint s - uint d) * uint SA div 256 + uint d"
    and "min (uint s) (uint d) \<le> uint (lerp8 s d SA)" and "uint (lerp8 s d SA) \<le> max (uint s) (uint d)"
proof -
  have b: "uint s \<le> 255" "uint d \<le> 255" "uint SA \<le> 256" "0 \<le> uint s" "0 \<le> uint d" "0 \<le> uint SA"
    using assms(1,2)[unfolded is_byte_nat] assms(3) uint_nat[of s] uint_nat[of d] uint_nat[of SA]
    by linarith+
  define p where "p = (uint s - uint d) * uint SA"
  have p: "min (uint s - uint d) 0 * 256 \<le> p" "p \<le> max (uint s - uint d) 0 * 256"
    unfolding p_def using scaled_between[OF b(6,3)] by blast+
  define q where "q = p div 256"
  have q: "min (uint s) (uint d) \<le> q + uint d" "q + uint d \<le> max (uint s) (uint d)"
  proof -
    have "min (uint s - uint d) 0 \<le> q" "q \<le> max (uint s - uint d) 0"
      using zdiv_mono1[OF p(1), of 256] zdiv_mono1[OF p(2), of 256] unfolding q_def by simp_all
    then show "min (uint s) (uint d) \<le> q + uint d" "q + uint d \<le> max (uint s) (uint d)" by linarith+
  qed
  have "(s - d) * SA = word_of_int p" by (simp add: p_def)
  moreover have "sint (word_of_int p :: u32) = p"
  proof -
    have "- 255 \<le> min (uint s - uint d) 0" "max (uint s - uint d) 0 \<le> 255" using b by linarith+
    then have "- 255 * 256 \<le> min (uint s - uint d) 0 * 256" "max (uint s - uint d) 0 * 256 \<le> 255 * 256"
      by (intro mult_right_mono; simp)+
    then have "- 255 * 256 \<le> p" "p \<le> 255 * 256" using order_trans[OF _ p(1)] order_trans[OF p(2)] by blast+
    then have "- (2 ^ 31) \<le> p" "p < 2 ^ 31" by simp_all
    then show ?thesis by (simp add: sint_sbintrunc' signed_take_bit_int_eq_self)
  qed
  ultimately have "sint (signed_drop_bit 8 ((s - d) * SA)) = q"
    by (simp add: sint_signed_drop_bit_eq drop_bit_eq_div q_def)
  then have "lerp8 s d SA = word_of_int (q + uint d)"
  proof -
    have "word_of_int (sint w) = w" for w :: u32 by simp
    then show ?thesis
      using \<open>sint (signed_drop_bit 8 ((s - d) * SA)) = q\<close> unfolding lerp8_def
      by (metis of_int_add word_of_int_uint)
  qed
  moreover have "0 \<le> q + uint d" "q + uint d \<le> 255" using q b by linarith+
  then have "uint (word_of_int (q + uint d) :: u32) = q + uint d"
    by (simp only: uint_word_of_int) simp
  ultimately have u: "uint (lerp8 s d SA) = q + uint d" by (simp only:)
  then show "uint (lerp8 s d SA) = (uint s - uint d) * uint SA div 256 + uint d"
    by (simp add: q_def p_def)
  show "min (uint s) (uint d) \<le> uint (lerp8 s d SA)" "uint (lerp8 s d SA) \<le> max (uint s) (uint d)"
    using q u by simp_all
qed

lemma span_draw_clear:
  "(\<And>c. c \<in> set cards \<Longrightarrow> drop_bit 24 c AND 0xff = 0) \<Longrightarrow> span_draw f m bits off cards = bits"
  by (induction f m bits off cards rule: span_draw.induct) simp_all

text \<open>A copying blend between bitmaps of one format is a blit: clipping twice clips once.\<close>

lemma blend_copy_pixels:
  assumes ok: "canvas_ok dst" "canvas_ok src" and fmt: "bm_fmt dst = bm_fmt src"
    and mode: "\<not> has_flag mode PIXEL_FLAG_NOCLIP" "\<not> has_flag mode PIXEL_FLAG_MASK"
      "has_flag mode PIXEL_FLAG_SRCCOPY"
    and t: "in_bitmap dst t s"
    and u: "u = src_col (has_flag mode PIXEL_FLAG_HFLIP) x sx w t"
    and v: "v = src_col (has_flag mode PIXEL_FLAG_VFLIP) y sy h s"
    and b: "Blend dst x y src m sx sy w h mode color = (r, dst')"
  shows "r = 0 \<and> GetPixel dst' t s =
    (if sx \<le> u \<and> u < sx + w \<and> sy \<le> v \<and> v < sy + h \<and> in_bitmap src u v
     then GetPixel src u v else GetPixel dst t s)"
proof (cases "blit_clip dst src x y sx sy w h mode")
  case None
  then have "r = 0" "dst' = dst" using b by (simp_all add: Blend_def)
  moreover have "\<not> (sx \<le> u \<and> u < sx + w \<and> sy \<le> v \<and> v < sy + h \<and> in_bitmap src u v)"
    using blit_clip_None[OF None t, of u v] goes_to_src_col u v by blast
  ultimately show ?thesis by auto
next
  case (Some c)
  obtain x' y' sx' sy' w' h' where c: "c = (x', y', sx', sy', w', h')" by (metis prod.exhaust)
  let ?hf = "has_flag mode PIXEL_FLAG_HFLIP" and ?vf = "has_flag mode PIXEL_FLAG_VFLIP"
  let ?u = "src_col ?hf x' sx' w' t" and ?v = "src_col ?vf y' sy' h' s"
  note C = blit_clip_Some[OF Some[unfolded c] mode(1)]
  have "Blit dst x' y' src m sx' sy' w' h' mode = (r, dst')"
    using b Some c mode(3) fmt by (simp add: Blend_def Convert_def Let_def)
  from blit_moves[OF ok _ mode(1) t refl refl this]
  have r: "r = 0" "GetPixel dst' t s =
      (if sx' \<le> ?u \<and> ?u < sx' + w' \<and> sy' \<le> ?v \<and> ?v < sy' + h' \<and> in_bitmap src ?u ?v
       then GetPixel src ?u ?v else GetPixel dst t s)" using fmt mode(2) by simp_all
  have ts: "0 \<le> t" "t < int (bm_w dst)" "0 \<le> s" "s < int (bm_h dst)" using t by (simp_all add: in_bitmap_def)
  have eu: "sx' \<le> ?u \<and> ?u < sx' + w' \<longleftrightarrow> sx \<le> u \<and> u < sx + w \<and> 0 \<le> u \<and> u < int (bm_w src)"
    "sx' \<le> ?u \<Longrightarrow> ?u < sx' + w' \<Longrightarrow> ?u = u"
    using C(3)[of ?u t] C(3)[of u t] ts unfolding goes_to_src_col u[symmetric] by metis+
  have ev: "sy' \<le> ?v \<and> ?v < sy' + h' \<longleftrightarrow> sy \<le> v \<and> v < sy + h \<and> 0 \<le> v \<and> v < int (bm_h src)"
    "sy' \<le> ?v \<Longrightarrow> ?v < sy' + h' \<Longrightarrow> ?v = v"
    using C(4)[of ?v s] C(4)[of v s] ts unfolding goes_to_src_col v[symmetric] by metis+
  show ?thesis unfolding r(2) using r(1) eu ev by (auto simp: in_bitmap_def)
qed

end
