(* ===== verification/Scaling.thy ===== *)
theory Scaling
  imports Span
begin

text \<open>
  The resampling of \<open>ScaleCrop\<close> with four and six taps (\<open>_scalecrop_4tap\<close> and
  \<open>_scalecrop_6tap\<close> of BasicBitmap.cpp, one text up to the constants): \<open>taps\<close> is 4 or 6 and
  \<open>lead\<close>, the taps before the pixel's own column, 1 or 2. A row of the result needs \<open>taps\<close>
  rows of the source, kept in a ring that moves down with the result; they are blended
  vertically into a row with its edges repeated, and this row is resampled horizontally. The
  row and the cache of results lie in one buffer, and the model keeps them so: a read beyond
  the row reads the cache. The weight tables hold 256 rows of weights in 1.14 fixed point;
  their floating-point initialisation is a parameter. Positions are 16.16 fixed point, as
  \<open>int\<close>: \<open>scaled_positions_fit\<close> shows that they fit 32 bits.
\<close>

unbundle bit_operations_syntax

section \<open>Weighted sums of pixels\<close>

definition clamp_byte :: "int \<Rightarrow> u32" where
  "clamp_byte v = (if v < 0 then 0 else if v > 255 then 255 else word_of_int v)"

definition tap_sum :: "int list \<Rightarrow> u32 list \<Rightarrow> nat \<Rightarrow> int" where
  "tap_sum ws ps k = sum_list (map2 (\<lambda>w p. uint (drop_bit k p AND 0xff) * w) ws ps)"

definition tap_channel :: "int list \<Rightarrow> u32 list \<Rightarrow> nat \<Rightarrow> u32" where
  "tap_channel ws ps k = clamp_byte ((tap_sum ws ps k + 2 ^ 13) div 2 ^ 14)"

definition tap_pixel :: "int list \<Rightarrow> u32 list \<Rightarrow> u32" where
  "tap_pixel ws ps =
     (let b = tap_channel ws ps 0; g = tap_channel ws ps 8; r = tap_channel ws ps 16;
          a = tap_channel ws ps 24
      in b OR push_bit 8 g OR push_bit 16 r OR push_bit 24 a)"

text \<open>\<open>_bicubic_blend_vert\<close> and \<open>_lanczos3_blend_vert\<close>.\<close>

definition blend_vert :: "nat \<Rightarrow> u32 list list \<Rightarrow> int list \<Rightarrow> u32 list" where
  "blend_vert w rows weights = map (\<lambda>i. tap_pixel weights (map (\<lambda>r. r ! i) rows)) [0..<w]"

text \<open>The whole part and the table index of a 16.16 position.\<close>

definition fix_int :: "int \<Rightarrow> int" where "fix_int x = x div 65536"
definition fix_frac :: "int \<Rightarrow> nat" where "fix_frac x = nat (x div 256 mod 256)"

text \<open>
  \<open>_resample_horiz_4tap\<close> and \<open>_resample_horiz_6tap\<close>, on the buffer: the row starts at index 0,
  \<open>dst\<close> is where the next result goes.
\<close>

fun resample_horiz :: "nat \<Rightarrow> nat \<Rightarrow> int list list \<Rightarrow> nat \<Rightarrow> nat \<Rightarrow> int \<Rightarrow> int \<Rightarrow> u32 list \<Rightarrow> u32 list" where
  "resample_horiz taps lead wtab dst 0 x dx mem = mem"
| "resample_horiz taps lead wtab dst (Suc w) x dx mem =
     (let xi = fix_int x;
          p = tap_pixel (wtab ! fix_frac x) (map (\<lambda>t. mem ! nat (xi - int lead + int t)) [0..<taps])
      in resample_horiz taps lead wtab (Suc dst) w (x + dx) dx (mem[dst := p]))"

section \<open>The scan over the rows\<close>

record mapping =
  mp_incx :: int
  mp_incy :: int
  mp_startx :: int
  mp_starty :: int
  mp_offx :: int
  mp_offy :: int

text \<open>What stays the same in the loop over the rows.\<close>

record tap_env =
  te_taps :: nat
  te_lead :: nat
  te_wtab :: "int list list"
  te_src :: bitmap
  te_sx :: int
  te_sw :: int
  te_crw :: int
  te_lstartx :: int
  te_incx :: int
  te_color :: u32
  te_draw :: "(bytes \<Rightarrow> nat \<Rightarrow> u32 list \<Rightarrow> bytes) option"

definition clamp_row :: "int \<Rightarrow> int \<Rightarrow> int" where
  "clamp_row ry h = (if ry < 0 then 0 else if ry \<ge> h then h - 1 else ry)"

text \<open>One row of the ring: a memory copy of 32-bit pixels, or \<open>RowFetch\<close> into the old row.\<close>

definition fetch_ring_row :: "tap_env \<Rightarrow> int \<Rightarrow> u32 list \<Rightarrow> u32 list" where
  "fetch_ring_row e ry old =
     (let src = te_src e; ry = clamp_row ry (int (bm_h src)) in
      if fmt_bpp (bm_fmt src) = 32
      then map (\<lambda>i. px_get 4 (Line src ry) (nat (te_sx e) + i)) [0..<nat (te_sw e)]
      else RowFetch src (te_sx e) ry old (te_sw e))"

definition refill_ring :: "tap_env \<Rightarrow> int \<Rightarrow> int \<Rightarrow> u32 list list \<Rightarrow> u32 list list" where
  "refill_ring e yi last_yi ring =
     (let T = te_taps e; shift = yi - last_yi;
          fetch = (\<lambda>k. fetch_ring_row e (yi - int (te_lead e) + int k)) in
      if shift \<le> 0 \<and> last_yi \<ge> 0 then ring
      else if shift \<ge> 1 \<and> shift \<le> int T - 1 \<and> last_yi \<ge> 0 then
        let ring' = map (\<lambda>k. ring ! ((k + nat shift) mod T)) [0..<T] in
        map (\<lambda>k. if T - nat shift \<le> k then fetch k (ring' ! k) else ring' ! k) [0..<T]
      else map (\<lambda>k. fetch k (ring ! k)) [0..<T])"

text \<open>The vertical pass, the repeated edges, the opaque alpha and the tint.\<close>

definition build_srcrow :: "tap_env \<Rightarrow> int \<Rightarrow> u32 list list \<Rightarrow> u32 list" where
  "build_srcrow e cury ring =
     (let L = te_lead e; sw = nat (te_sw e);
          mid = blend_vert sw ring (te_wtab e ! fix_frac cury);
          row = replicate L (mid ! 0) @ mid @ replicate 3 (mid ! (sw - 1));
          row = (if bm_fmt (te_src e) = X8R8G8B8 then CardSetAlpha 0xff row else row)
      in if te_color e \<noteq> 0xffffffff
         then take L row @ CardMultiply (te_color e) (take sw (drop L row)) @ drop (L + sw) row
         else row)"

definition write_result :: "(bytes \<Rightarrow> nat \<Rightarrow> u32 list \<Rightarrow> bytes) option \<Rightarrow> pixel_fmt \<Rightarrow> nat \<Rightarrow> u32 list \<Rightarrow> bytes \<Rightarrow> bytes" where
  "write_result drw f x cache row =
     (case drw of Some d \<Rightarrow> d row x cache
      | None \<Rightarrow> if fmt_bpp f = 32 then put_list (px_put 4) row x cache else Store f row x cache)"

text \<open>
  The loop. The cache keeps the last row's results until they are overwritten.
\<close>

fun tap_rows :: "tap_env \<Rightarrow> nat \<Rightarrow> int \<Rightarrow> int \<Rightarrow> int \<Rightarrow> int \<Rightarrow> int \<Rightarrow> u32 list list \<Rightarrow> u32 list \<Rightarrow> bitmap \<Rightarrow> bitmap" where
  "tap_rows e 0 incy dx dy starty last_yi ring cache dst = dst"
| "tap_rows e (Suc n) incy dx dy starty last_yi ring cache dst =
     (let yi = fix_int starty;
          ring = refill_ring e yi last_yi ring;
          srcrow = build_srcrow e starty ring;
          mem = resample_horiz (te_taps e) (te_lead e) (te_wtab e) (length srcrow) (nat (te_crw e))
            (te_lstartx e) (te_incx e) (srcrow @ cache);
          cache = drop (length srcrow) mem;
          dst = set_line dst dy (write_result (te_draw e) (bm_fmt dst) (nat dx) cache (Line dst dy))
      in tap_rows e n incy dx (dy + 1) (starty + incy) yi ring cache dst)"

text \<open>The clipping of the crop rectangle, with which each of the functions starts.\<close>

definition crop_clip :: "bitmap \<Rightarrow> bool \<Rightarrow> int \<Rightarrow> int \<Rightarrow> int \<Rightarrow> int \<Rightarrow> int \<Rightarrow> int \<Rightarrow> int \<Rightarrow> int \<Rightarrow>
    (int \<times> int \<times> int \<times> int \<times> int \<times> int) option" where
  "crop_clip dst noclip dx dy scw sch crx cry crw crh =
     (let W = int (bm_w dst); H = int (bm_h dst);
          (dx', crx', crw1) = (if \<not> noclip \<and> dx < 0 then (0, crx - dx, crw + dx) else (dx, crx, crw));
          (dy', cry', crh1) = (if \<not> noclip \<and> dy < 0 then (0, cry - dy, crh + dy) else (dy, cry, crh));
          crw' = (if \<not> noclip \<and> dx' + crw1 > W then W - dx' else crw1);
          crh' = (if \<not> noclip \<and> dy' + crh1 > H then H - dy' else crh1) in
      if noclip \<and> (dx < 0 \<or> dx + crw > W \<or> dy < 0 \<or> dy + crh > H) then None
      else if crh' \<le> 0 \<or> crw' \<le> 0 \<or> crx' < 0 \<or> cry' < 0 then None
      else if crx' + crw' > scw \<or> cry' + crh' > sch then None
      else Some (dx', dy', crx', cry', crw', crh'))"

definition mode_draw :: "pixel_fmt \<Rightarrow> u32 \<Rightarrow> (bytes \<Rightarrow> nat \<Rightarrow> u32 list \<Rightarrow> bytes) option" where
  "mode_draw f mode =
     (if has_flag mode PIXEL_FLAG_SRCOVER then GetDriver f Op_SrcOver
      else if has_flag mode PIXEL_FLAG_ADDITIVE then GetDriver f Op_Additive
      else if has_flag mode PIXEL_FLAG_SRCCOPY then None
      else GetDriver f Op_Normal)"

text \<open>The step and the offset of one axis: source size \<open>n\<close>, scaled size \<open>sc\<close>.\<close>

definition scale_inc :: "int \<Rightarrow> int \<Rightarrow> int" where "scale_inc n sc = n * 65536 div sc"
definition scale_off :: "int \<Rightarrow> int \<Rightarrow> int" where "scale_off n sc = (if sc = n then 0 else 0x8000)"

text \<open>
  From the column range on, with the mapping at hand. \<open>fresh\<close> is what the newly allocated buffer
  happens to hold.
\<close>

definition tap_scan :: "nat \<Rightarrow> nat \<Rightarrow> int list list \<Rightarrow> (nat \<Rightarrow> u32) \<Rightarrow> bitmap \<Rightarrow> int \<Rightarrow> int \<Rightarrow> bitmap \<Rightarrow>
    int \<Rightarrow> int \<Rightarrow> int \<Rightarrow> int \<Rightarrow> int \<Rightarrow> int \<Rightarrow> u32 \<Rightarrow> u32 \<Rightarrow> bitmap" where
  "tap_scan taps lead wtab fresh dst dx dy src crw crh startx starty incx incy mode color =
     (let src_w = int (bm_w src);
          idx_min_raw = fix_int startx - int lead;
          idx_max_raw = fix_int (startx + (crw - 1) * incx) + int (taps - lead - 1);
          sx = (if idx_min_raw < 0 then 0 else idx_min_raw);
          sx_end = (if idx_max_raw \<ge> src_w then src_w - 1 else idx_max_raw);
          sw = sx_end - sx + 1 in
      if sw \<le> 0 then dst
      else
        let e = \<lparr>te_taps = taps, te_lead = lead, te_wtab = wtab, te_src = src, te_sx = sx,
              te_sw = sw, te_crw = crw, te_lstartx = startx - (sx - int lead) * 65536,
              te_incx = incx, te_color = color, te_draw = mode_draw (bm_fmt dst) mode\<rparr>;
            padded_sw = nat sw + lead + 3;
            cache = map (\<lambda>i. fresh (padded_sw + i)) [0..<nat crw];
            ring = map (\<lambda>k. map (\<lambda>i. fresh (padded_sw + nat crw + k * nat sw + i)) [0..<nat sw]) [0..<taps]
        in tap_rows e (nat crh) incy dx dy starty (- 100) ring cache dst)"

definition scalecrop_taps :: "nat \<Rightarrow> nat \<Rightarrow> int list list \<Rightarrow> (nat \<Rightarrow> u32) \<Rightarrow> bitmap \<Rightarrow> int \<Rightarrow> int \<Rightarrow> bitmap \<Rightarrow>
    int \<Rightarrow> int \<Rightarrow> int \<Rightarrow> int \<Rightarrow> int \<Rightarrow> int \<Rightarrow> u32 \<Rightarrow> u32 \<Rightarrow> mapping option \<Rightarrow> bitmap" where
  "scalecrop_taps taps lead wtab fresh dst dx dy src scw sch crx cry crw crh mode color precomputed =
     (if scw \<le> 0 \<or> sch \<le> 0 \<or> crw \<le> 0 \<or> crh \<le> 0 then dst
      else case crop_clip dst (has_flag mode PIXEL_FLAG_NOCLIP) dx dy scw sch crx cry crw crh of
        None \<Rightarrow> dst
      | Some (dx, dy, crx, cry, crw, crh) \<Rightarrow>
          (case precomputed of
             Some m \<Rightarrow> tap_scan taps lead wtab fresh dst dx dy src crw crh
               (mp_startx m) (mp_starty m) (mp_incx m) (mp_incy m) mode color
           | None \<Rightarrow>
               let incx = scale_inc (int (bm_w src)) scw; incy = scale_inc (int (bm_h src)) sch;
                   offx = scale_off (int (bm_w src)) scw; offy = scale_off (int (bm_h src)) sch
               in tap_scan taps lead wtab fresh dst dx dy src crw crh
                    (offx + crx * incx) (offy + cry * incy) incx incy mode color))"

section \<open>The pixel a position stands for\<close>

text \<open>
  A reference without rectangles, rings and buffers: a card of the source, the vertical blend in
  one column, and the horizontal blend, with columns and rows outside repeated from the edge.
\<close>

definition card_at :: "bitmap \<Rightarrow> int \<Rightarrow> int \<Rightarrow> u32" where
  "card_at src c r = (if fmt_bpp (bm_fmt src) = 32 then px_get 4 (Line src r) (nat c)
     else fetch_px (bm_fmt src) (px_get (pixelsize (bm_fmt src)) (Line src r) (nat c)))"

definition vert_pixel :: "nat \<Rightarrow> nat \<Rightarrow> int list list \<Rightarrow> bitmap \<Rightarrow> int \<Rightarrow> int \<Rightarrow> u32" where
  "vert_pixel taps lead wtab src cy c =
     (let p = tap_pixel (wtab ! fix_frac cy)
          (map (\<lambda>t. card_at src c (clamp_row (fix_int cy - int lead + int t) (int (bm_h src)))) [0..<taps])
      in if bm_fmt src = X8R8G8B8 then (p AND 0x00ffffff) OR push_bit 24 (0xff AND 0xff) else p)"

definition scaled_pixel :: "nat \<Rightarrow> nat \<Rightarrow> int list list \<Rightarrow> bitmap \<Rightarrow> int \<Rightarrow> int \<Rightarrow> u32" where
  "scaled_pixel taps lead wtab src cx cy =
     tap_pixel (wtab ! fix_frac cx)
       (map (\<lambda>t. vert_pixel taps lead wtab src cy
          (clamp_row (fix_int cx - int lead + int t) (int (bm_w src)))) [0..<taps])"

section \<open>The ring holds the rows around the position\<close>

definition src_row :: "tap_env \<Rightarrow> int \<Rightarrow> u32 list" where
  "src_row e ry = map (\<lambda>i. card_at (te_src e) (te_sx e + int i) (clamp_row ry (int (bm_h (te_src e)))))
     [0..<nat (te_sw e)]"

definition ring_at :: "tap_env \<Rightarrow> int \<Rightarrow> u32 list list" where
  "ring_at e yi = map (\<lambda>k. src_row e (yi - int (te_lead e) + int k)) [0..<te_taps e]"

definition env_ok :: "tap_env \<Rightarrow> bool" where
  "env_ok e \<longleftrightarrow> canvas_ok (te_src e) \<and> 0 < bm_h (te_src e) \<and> 0 \<le> te_sx e \<and> 0 < te_sw e \<and>
     te_sx e + te_sw e \<le> int (bm_w (te_src e)) \<and> 0 < te_taps e"

lemma clamp_row_range: "0 < h \<Longrightarrow> 0 \<le> clamp_row ry h \<and> clamp_row ry h < h"
  by (simp add: clamp_row_def)

lemma RowFetch_inside:
  assumes "canvas_ok b" and "0 \<le> x" and "0 \<le> w" and "x + w \<le> int (bm_w b)" and "0 \<le> y" and "y < int (bm_h b)"
    and "length cards = nat w"
  shows "RowFetch b x y cards w = Fetch (bm_fmt b) (Line b y) (nat x) (nat w)"
proof -
  have "row_span b x w = Some (x, w, 0)" using assms(2-4) by (auto simp: row_span_def)
  then show ?thesis using assms by (simp add: RowFetch_def)
qed

lemma fetch_ring_row_eq:
  assumes "env_ok e" and "length old = nat (te_sw e)"
  shows "fetch_ring_row e ry old = src_row e ry"
proof -
  let ?src = "te_src e" and ?r = "clamp_row ry (int (bm_h (te_src e)))"
  have r: "0 \<le> ?r" "?r < int (bm_h ?src)" using clamp_row_range[of "int (bm_h ?src)" ry] assms(1)
    by (simp_all add: env_ok_def)
  have "bm_fmt ?src \<noteq> UNKNOW" using assms(1) by (simp add: env_ok_def canvas_ok_def)
  then show ?thesis using assms r RowFetch_inside[of ?src "te_sx e" "te_sw e" ?r old]
    by (simp add: fetch_ring_row_def src_row_def card_at_def env_ok_def Let_def Fetch_def nat_add_distrib)
qed

lemma length_src_row [simp]: "length (src_row e ry) = nat (te_sw e)"
  by (simp add: src_row_def)

lemma refill_ring_eq:
  assumes "env_ok e" and "length ring = te_taps e" and "\<And>r. r \<in> set ring \<Longrightarrow> length r = nat (te_sw e)"
    and "last_yi < 0 \<or> ring = ring_at e last_yi \<and> last_yi \<le> yi"
  shows "refill_ring e yi last_yi ring = ring_at e yi"
proof -
  let ?T = "te_taps e" and ?s = "yi - last_yi"
  have f: "fetch_ring_row e ry r = src_row e ry" if "length r = nat (te_sw e)" for ry r
    by (rule fetch_ring_row_eq[OF assms(1) that])
  consider "?s \<le> 0 \<and> last_yi \<ge> 0" | "?s \<ge> 1 \<and> ?s \<le> int ?T - 1 \<and> last_yi \<ge> 0"
    | "\<not> (?s \<le> 0 \<and> last_yi \<ge> 0)" "\<not> (?s \<ge> 1 \<and> ?s \<le> int ?T - 1 \<and> last_yi \<ge> 0)" by blast
  then show ?thesis
  proof cases
    case 1
    then have "ring = ring_at e last_yi" "last_yi = yi" using assms(4) by auto
    then show ?thesis using 1 by (simp add: refill_ring_def Let_def)
  next
    case 2
    then have ring: "ring = ring_at e last_yi" using assms(4) by auto
    have len: "length (ring ! k) = nat (te_sw e)" if "k < ?T" for k
      using that assms(2,3) by (metis nth_mem)
    have "(if ?T - nat ?s \<le> k
        then fetch_ring_row e (yi - int (te_lead e) + int k) (ring ! ((k + nat ?s) mod ?T))
        else ring ! ((k + nat ?s) mod ?T)) = src_row e (yi - int (te_lead e) + int k)" if k: "k < ?T" for k
    proof (cases "?T - nat ?s \<le> k")
      case True
      have "(k + nat ?s) mod ?T < ?T" using k by simp
      then show ?thesis using True f len by simp
    next
      case False
      then have "(k + nat ?s) mod ?T = k + nat ?s" "k + nat ?s < ?T" by auto
      then have "ring ! ((k + nat ?s) mod ?T) = src_row e (last_yi - int (te_lead e) + int (k + nat ?s))"
        unfolding ring by (simp add: ring_at_def)
      moreover have "last_yi - int (te_lead e) + int (k + nat ?s) = yi - int (te_lead e) + int k"
        using 2 by simp
      ultimately have "ring ! ((k + nat ?s) mod ?T) = src_row e (yi - int (te_lead e) + int k)"
        by (simp only:)
      then show ?thesis using False by (simp only: if_False)
    qed
    note eq = this
    let ?ring' = "map (\<lambda>k. ring ! ((k + nat ?s) mod ?T)) [0..<?T]"
    have "map (\<lambda>k. if ?T - nat ?s \<le> k then fetch_ring_row e (yi - int (te_lead e) + int k) (?ring' ! k)
        else ?ring' ! k) [0..<?T] = ring_at e yi"
      unfolding ring_at_def
    proof (rule map_cong[OF refl])
      fix k assume "k \<in> set [0..<?T]"
      then have k: "k < ?T" by simp
      then have "?ring' ! k = ring ! ((k + nat ?s) mod ?T)" by simp
      then show "(if ?T - nat ?s \<le> k then fetch_ring_row e (yi - int (te_lead e) + int k) (?ring' ! k)
          else ?ring' ! k) = src_row e (yi - int (te_lead e) + int k)"
        using eq[OF k] by (simp only:)
    qed
    then show ?thesis using 2 unfolding refill_ring_def Let_def by (simp only: if_True if_False simp_thms) auto
  next
    case 3
    have "fetch_ring_row e (yi - int (te_lead e) + int k) (ring ! k) = src_row e (yi - int (te_lead e) + int k)"
      if "k < ?T" for k using that assms(2,3) by (intro f) (metis nth_mem)
    then have "map (\<lambda>k. fetch_ring_row e (yi - int (te_lead e) + int k) (ring ! k)) [0..<?T] = ring_at e yi"
      unfolding ring_at_def by (intro map_cong refl) (simp only: set_upt atLeastLessThan_iff)
    then show ?thesis using 3 unfolding refill_ring_def Let_def by (simp only: if_False)
  qed
qed

section \<open>The row between the passes\<close>

text \<open>The column of the source that element \<open>k\<close> of the row repeats or holds.\<close>

definition row_col :: "tap_env \<Rightarrow> nat \<Rightarrow> int" where
  "row_col e k = (if k < te_lead e then te_sx e
     else if k < te_lead e + nat (te_sw e) then te_sx e + (int k - int (te_lead e))
     else te_sx e + te_sw e - 1)"

lemma build_srcrow_length:
  "te_color e = 0xffffffff \<Longrightarrow> length (build_srcrow e cy ring) = te_lead e + nat (te_sw e) + 3"
  by (simp add: build_srcrow_def blend_vert_def CardSetAlpha_def Let_def)

lemma build_srcrow_nth:
  assumes "env_ok e" and "te_color e = 0xffffffff" and "k < te_lead e + nat (te_sw e) + 3"
  shows "build_srcrow e cy (ring_at e (fix_int cy)) ! k =
    vert_pixel (te_taps e) (te_lead e) (te_wtab e) (te_src e) cy (row_col e k)"
proof -
  let ?sw = "nat (te_sw e)" and ?L = "te_lead e" and ?w = "te_wtab e ! fix_frac cy"
  let ?mid = "blend_vert ?sw (ring_at e (fix_int cy)) ?w"
  have sw: "0 < ?sw" using assms(1) by (simp add: env_ok_def)
  have mid: "?mid ! i = tap_pixel ?w (map (\<lambda>t. card_at (te_src e) (te_sx e + int i)
      (clamp_row (fix_int cy - int ?L + int t) (int (bm_h (te_src e))))) [0..<te_taps e])" if "i < ?sw" for i
    using that by (simp add: blend_vert_def ring_at_def src_row_def comp_def)
  have row: "(replicate ?L (?mid ! 0) @ ?mid @ replicate 3 (?mid ! (?sw - 1))) ! k =
      tap_pixel ?w (map (\<lambda>t. card_at (te_src e) (row_col e k)
        (clamp_row (fix_int cy - int ?L + int t) (int (bm_h (te_src e))))) [0..<te_taps e])"
  proof -
    have l: "length ?mid = ?sw" by (simp add: blend_vert_def)
    consider "k < ?L" | "?L \<le> k" "k < ?L + ?sw" | "?L + ?sw \<le> k" by linarith
    then show ?thesis
    proof cases
      case 1
      then show ?thesis using sw by (simp add: nth_append mid row_col_def)
    next
      case 2
      then have "te_sx e + int (k - ?L) = te_sx e + (int k - int ?L)" by simp
      moreover have "k - ?L < ?sw" using 2 by simp
      ultimately show ?thesis using 2 l by (simp add: nth_append mid row_col_def)
    next
      case 3
      have "?mid ! (?sw - 1) = tap_pixel ?w (map (\<lambda>t. card_at (te_src e) (te_sx e + te_sw e - 1)
          (clamp_row (fix_int cy - int ?L + int t) (int (bm_h (te_src e))))) [0..<te_taps e])"
        using mid[of "?sw - 1"] sw by (simp add: algebra_simps)
      moreover have "\<not> k - ?L < ?sw" "k - ?L - ?sw < 3" using 3 assms(3) by auto
      ultimately show ?thesis using 3 l by (simp add: nth_append row_col_def)
    qed
  qed
  define r where "r = replicate ?L (?mid ! 0) @ ?mid @ replicate 3 (?mid ! (?sw - 1))"
  have l: "length r = ?L + ?sw + 3" by (simp add: r_def blend_vert_def)
  have b: "build_srcrow e cy (ring_at e (fix_int cy)) =
      (if bm_fmt (te_src e) = X8R8G8B8 then CardSetAlpha 0xff r else r)"
    using assms(2) by (simp add: build_srcrow_def Let_def r_def)
  show ?thesis using assms(3) row[folded r_def] l
    unfolding b by (simp add: vert_pixel_def Let_def CardSetAlpha_def)
qed

section \<open>The horizontal pass\<close>

lemma resample_horiz_result:
  assumes "\<And>i t. i < w \<Longrightarrow> t < taps \<Longrightarrow>
      0 \<le> fix_int (x + int i * dx) - int lead + int t \<and>
      fix_int (x + int i * dx) - int lead + int t < int n"
    and "n \<le> dst" and "dst + w \<le> length mem"
  shows "length (resample_horiz taps lead wtab dst w x dx mem) = length mem"
    and "k < length mem \<Longrightarrow> resample_horiz taps lead wtab dst w x dx mem ! k =
      (if dst \<le> k \<and> k < dst + w
       then tap_pixel (wtab ! fix_frac (x + int (k - dst) * dx))
         (map (\<lambda>t. mem ! nat (fix_int (x + int (k - dst) * dx) - int lead + int t)) [0..<taps])
       else mem ! k)"
  using assms
proof (induction taps lead wtab dst w x dx mem rule: resample_horiz.induct)
  case (1 taps lead wtab dst x dx mem)
  { case 1 then show ?case by simp }
  { case 2 then show ?case by auto }
next
  case (2 taps lead wtab dst w x dx mem)
  let ?p = "tap_pixel (wtab ! fix_frac x) (map (\<lambda>t. mem ! nat (fix_int x - int lead + int t)) [0..<taps])"
  let ?m = "mem[dst := ?p]"
  note IH = "2.IH"[OF refl refl]
  have sh: "x + int (Suc i) * dx = x + dx + int i * dx" for i by (simp add: algebra_simps)
  { case 1
    have rd: "0 \<le> fix_int (x + dx + int i * dx) - int lead + int t \<and>
        fix_int (x + dx + int i * dx) - int lead + int t < int n" if "i < w" "t < taps" for i t
      using 1(1)[of "Suc i" t] that by (simp only: sh Suc_less_eq)
    show ?case using IH(1)[OF rd] 1(2,3) by simp }
  { case 2
    have rd: "0 \<le> fix_int (x + dx + int i * dx) - int lead + int t \<and>
        fix_int (x + dx + int i * dx) - int lead + int t < int n" if "i < w" "t < taps" for i t
      using 2(2)[of "Suc i" t] that by (simp only: sh Suc_less_eq)
    have same: "?m ! nat (fix_int (x + dx + int i * dx) - int lead + int t) =
        mem ! nat (fix_int (x + dx + int i * dx) - int lead + int t)" if "i < w" "t < taps" for i t
      using rd[OF that] 2(3) by (subst nth_list_update_neq) auto
    have k: "k < length ?m" using 2(1) by simp
    have r: "resample_horiz taps lead wtab (Suc dst) w (x + dx) dx ?m ! k =
        (if Suc dst \<le> k \<and> k < Suc dst + w
         then tap_pixel (wtab ! fix_frac (x + dx + int (k - Suc dst) * dx))
           (map (\<lambda>t. ?m ! nat (fix_int (x + dx + int (k - Suc dst) * dx) - int lead + int t)) [0..<taps])
         else ?m ! k)"
      using 2(3,4) by (intro IH(2)[OF k rd]) auto
    show ?case
    proof (cases "Suc dst \<le> k \<and> k < Suc dst + w")
      case True
      then have e: "x + int (k - dst) * dx = x + dx + int (k - Suc dst) * dx"
        using sh[of "k - Suc dst"] by (metis Suc_diff_le Suc_le_lessD diff_Suc_Suc less_imp_le)
      have "k - Suc dst < w" using True by auto
      then have "map (\<lambda>t. ?m ! nat (fix_int (x + dx + int (k - Suc dst) * dx) - int lead + int t)) [0..<taps] =
          map (\<lambda>t. mem ! nat (fix_int (x + dx + int (k - Suc dst) * dx) - int lead + int t)) [0..<taps]"
        by (intro map_cong refl same) auto
      note M = this
      have lhs: "resample_horiz taps lead wtab dst (Suc w) x dx mem ! k =
          resample_horiz taps lead wtab (Suc dst) w (x + dx) dx ?m ! k" by (simp add: Let_def)
      have c: "dst \<le> k \<and> k < dst + Suc w" using True by auto
      show ?thesis unfolding lhs r by (simp only: True c if_True simp_thms M e)
    next
      case False
      then show ?thesis using r 2(1,4) by (cases "k = dst") auto
    qed }
qed

section \<open>The whole scan\<close>

text \<open>The horizontal pass reads only the row, not the cache behind it.\<close>

definition reads_row :: "tap_env \<Rightarrow> bool" where
  "reads_row e \<longleftrightarrow> (\<forall>i < nat (te_crw e). \<forall>t < te_taps e.
     0 \<le> fix_int (te_lstartx e + int i * te_incx e) - int (te_lead e) + int t \<and>
     fix_int (te_lstartx e + int i * te_incx e) - int (te_lead e) + int t <
       int (te_lead e + nat (te_sw e) + 3))"

definition row_cache :: "tap_env \<Rightarrow> int \<Rightarrow> u32 list" where
  "row_cache e cy = map (\<lambda>i. let x = te_lstartx e + int i * te_incx e in
     tap_pixel (te_wtab e ! fix_frac x)
       (map (\<lambda>t. vert_pixel (te_taps e) (te_lead e) (te_wtab e) (te_src e) cy
          (row_col e (nat (fix_int x - int (te_lead e) + int t)))) [0..<te_taps e]))
     [0..<nat (te_crw e)]"

lemma cache_after_row:
  fixes e cy cache
  assumes "env_ok e" and "te_color e = 0xffffffff" and "reads_row e" and "length cache = nat (te_crw e)"
  defines "row \<equiv> build_srcrow e cy (ring_at e (fix_int cy))"
  shows "drop (length row) (resample_horiz (te_taps e) (te_lead e) (te_wtab e) (length row)
      (nat (te_crw e)) (te_lstartx e) (te_incx e) (row @ cache)) = row_cache e cy" (is "drop _ ?m = _")
proof (rule nth_equalityI)
  let ?n = "length row" and ?w = "nat (te_crw e)"
  have n: "?n = te_lead e + nat (te_sw e) + 3"
    unfolding row_def by (rule build_srcrow_length[OF assms(2)])
  have rd: "0 \<le> fix_int (te_lstartx e + int i * te_incx e) - int (te_lead e) + int t \<and>
      fix_int (te_lstartx e + int i * te_incx e) - int (te_lead e) + int t < int ?n"
    if "i < ?w" "t < te_taps e" for i t
    using assms(3) that unfolding reads_row_def n by blast
  note R = resample_horiz_result[where mem = "row @ cache" and dst = ?n and w = ?w and n = ?n,
      OF rd order.refl]
  have len: "length ?m = ?n + ?w" using assms(4) by (subst R(1)) auto
  then show "length (drop ?n ?m) = length (row_cache e cy)" by (simp add: row_cache_def)
  fix i assume "i < length (drop ?n ?m)"
  then have i: "i < ?w" using len by simp
  let ?x = "te_lstartx e + int i * te_incx e"
  have "?m ! (?n + i) = tap_pixel (te_wtab e ! fix_frac ?x)
      (map (\<lambda>t. (row @ cache) ! nat (fix_int ?x - int (te_lead e) + int t)) [0..<te_taps e])"
    using i assms(4) by (subst R(2)) auto
  moreover have "(row @ cache) ! nat (fix_int ?x - int (te_lead e) + int t) =
      vert_pixel (te_taps e) (te_lead e) (te_wtab e) (te_src e) cy
        (row_col e (nat (fix_int ?x - int (te_lead e) + int t)))" if "t < te_taps e" for t
  proof -
    have b: "nat (fix_int ?x - int (te_lead e) + int t) < te_lead e + nat (te_sw e) + 3"
      using rd[OF i that] n by linarith
    then show ?thesis using build_srcrow_nth[OF assms(1,2) b, of cy] n
      by (simp add: nth_append row_def)
  qed
  then have "map (\<lambda>t. (row @ cache) ! nat (fix_int ?x - int (te_lead e) + int t)) [0..<te_taps e] =
      map (\<lambda>t. vert_pixel (te_taps e) (te_lead e) (te_wtab e) (te_src e) cy
        (row_col e (nat (fix_int ?x - int (te_lead e) + int t)))) [0..<te_taps e]"
    by (intro map_cong refl) (simp only: set_upt atLeastLessThan_iff)
  ultimately have "?m ! (?n + i) = tap_pixel (te_wtab e ! fix_frac ?x)
      (map (\<lambda>t. vert_pixel (te_taps e) (te_lead e) (te_wtab e) (te_src e) cy
        (row_col e (nat (fix_int ?x - int (te_lead e) + int t)))) [0..<te_taps e])"
    by (simp only:)
  then show "drop ?n ?m ! i = row_cache e cy ! i"
    using i len by (simp add: row_cache_def Let_def)
qed

lemma length_row_cache [simp]: "length (row_cache e cy) = nat (te_crw e)"
  by (simp add: row_cache_def)

lemma tap_rows_frame:
  "bm_w (tap_rows e n incy dx dy sy l r c dst) = bm_w dst \<and>
   bm_h (tap_rows e n incy dx dy sy l r c dst) = bm_h dst \<and>
   bm_fmt (tap_rows e n incy dx dy sy l r c dst) = bm_fmt dst \<and>
   length (bm_lines (tap_rows e n incy dx dy sy l r c dst)) = length (bm_lines dst)"
  by (induction e n incy dx dy sy l r c dst rule: tap_rows.induct) (simp_all add: Let_def set_line_def)

lemma tap_rows_lines:
  assumes "env_ok e" and "te_color e = 0xffffffff" and "reads_row e" and "0 \<le> incy"
    and "length cache = nat (te_crw e)" and "length ring = te_taps e"
    and "\<And>r. r \<in> set ring \<Longrightarrow> length r = nat (te_sw e)"
    and "last_yi < 0 \<or> ring = ring_at e last_yi \<and> last_yi \<le> fix_int starty"
    and "length (bm_lines dst) = bm_h dst" and "0 \<le> dy" and "dy + int n \<le> int (bm_h dst)" and "0 \<le> v"
  shows "Line (tap_rows e n incy dx dy starty last_yi ring cache dst) v =
    (if dy \<le> v \<and> v < dy + int n
     then write_result (te_draw e) (bm_fmt dst) (nat dx) (row_cache e (starty + (v - dy) * incy)) (Line dst v)
     else Line dst v)"
  using assms(4-)
proof (induction n arbitrary: dy starty last_yi ring cache dst)
  case 0
  then show ?case by auto
next
  case (Suc n)
  let ?yi = "fix_int starty"
  have ring: "refill_ring e ?yi last_yi ring = ring_at e ?yi"
    using Suc.prems by (intro refill_ring_eq[OF assms(1)]) auto
  define row where "row = build_srcrow e starty (ring_at e ?yi)"
  define c where "c = drop (length row) (resample_horiz (te_taps e) (te_lead e) (te_wtab e)
    (length row) (nat (te_crw e)) (te_lstartx e) (te_incx e) (row @ cache))"
  have c: "c = row_cache e starty"
    unfolding c_def row_def by (rule cache_after_row[OF assms(1-3) Suc.prems(2)])
  define d where "d = set_line dst dy (write_result (te_draw e) (bm_fmt dst) (nat dx) c (Line dst dy))"
  have e: "tap_rows e (Suc n) incy dx dy starty last_yi ring cache dst =
      tap_rows e n incy dx (dy + 1) (starty + incy) ?yi (ring_at e ?yi) c d"
    by (simp add: Let_def ring c_def row_def d_def)
  have fd: "bm_h d = bm_h dst" "bm_fmt d = bm_fmt dst" "length (bm_lines d) = bm_h d"
    using Suc.prems(6) by (simp_all add: d_def set_line_def)
  have ld: "Line d u = (if u = dy then write_result (te_draw e) (bm_fmt dst) (nat dx) c (Line dst dy)
      else Line dst u)" if "0 \<le> u" for u
    unfolding d_def using Suc.prems that by (intro set_line_nth) auto
  have "Line (tap_rows e n incy dx (dy + 1) (starty + incy) ?yi (ring_at e ?yi) c d) v =
      (if dy + 1 \<le> v \<and> v < dy + 1 + int n
       then write_result (te_draw e) (bm_fmt d) (nat dx)
         (row_cache e (starty + incy + (v - (dy + 1)) * incy)) (Line d v)
       else Line d v)"
  proof (rule Suc.IH)
    show "0 \<le> incy" by fact
    show "length c = nat (te_crw e)" by (simp add: c)
    show "length (ring_at e ?yi) = te_taps e" by (simp add: ring_at_def)
    show "length r = nat (te_sw e)" if "r \<in> set (ring_at e ?yi)" for r
      using that by (auto simp: ring_at_def)
    show "?yi < 0 \<or> ring_at e ?yi = ring_at e ?yi \<and> ?yi \<le> fix_int (starty + incy)"
      using Suc.prems(1) by (simp add: fix_int_def zdiv_mono1)
    show "length (bm_lines d) = bm_h d" by (rule fd(3))
    show "0 \<le> dy + 1" "dy + 1 + int n \<le> int (bm_h d)" "0 \<le> v" using Suc.prems fd by simp_all
  qed
  note scan = this
  have "starty + incy + (v - (dy + 1)) * incy = starty + (v - dy) * incy"
    by (simp add: algebra_simps)
  from scan[unfolded this] show ?case unfolding e using ld[OF Suc.prems(9)] fd(2) c by auto
qed

section \<open>From the row to the picture\<close>

lemma fix_int_shift: "fix_int (x - k * 65536) = fix_int x - k"
proof -
  have "x - k * 65536 = x + (- k) * 65536" by simp
  then show ?thesis unfolding fix_int_def by simp
qed

lemma fix_frac_shift: "fix_frac (x - k * 65536) = fix_frac x"
proof -
  have "x - k * 65536 = x + (- k * 256) * 256" by simp
  then have "(x - k * 65536) div 256 = x div 256 + (- k) * 256" by simp
  then show ?thesis unfolding fix_frac_def by (simp only: mod_mult_self1)
qed

lemma fix_int_mono: "x \<le> y \<Longrightarrow> fix_int x \<le> fix_int y"
  by (simp add: fix_int_def zdiv_mono1)

lemma fix_int_nonneg: "0 \<le> x \<Longrightarrow> 0 \<le> fix_int x"
  using fix_int_mono[of 0 x] by (simp add: fix_int_def)

text \<open>The geometry of the column range: every column the taps ask for is in the row or repeats an edge.\<close>

lemma row_columns:
  fixes startx incx crw src_w :: int and taps lead :: nat
  assumes "0 \<le> startx" and "0 \<le> incx" and "0 < crw" and "0 < src_w" and "lead < taps" and "4 \<le> taps"
    and "fix_int (startx + (crw - 1) * incx) < src_w + int lead + 4 - int taps"
  defines "lo \<equiv> fix_int startx - int lead"
    and "hi \<equiv> fix_int (startx + (crw - 1) * incx) + int (taps - lead - 1)"
  defines "sx \<equiv> if lo < 0 then 0 else lo" and "sx_end \<equiv> if hi \<ge> src_w then src_w - 1 else hi"
  assumes "te_sx e = sx" and "te_sw e = sx_end - sx + 1" and "te_lead e = lead" and "te_taps e = taps"
    and "te_crw e = crw" and "te_incx e = incx" and "te_lstartx e = startx - (sx - int lead) * 65536"
  shows "0 \<le> sx" "0 < te_sw e" "sx + te_sw e \<le> src_w" "reads_row e"
    "i < nat crw \<Longrightarrow> t < taps \<Longrightarrow>
      row_col e (nat (fix_int (te_lstartx e + int i * incx) - int lead + int t)) =
      clamp_row (fix_int (startx + int i * incx) - int lead + int t) src_w"
proof -
  let ?f = "\<lambda>i. fix_int (startx + int i * incx)"
  let ?m = "fix_int (startx + (crw - 1) * incx)"
  have f: "fix_int (te_lstartx e + int i * incx) = ?f i - sx + int lead" for i
  proof -
    have "te_lstartx e + int i * incx = startx + int i * incx - (sx - int lead) * 65536"
      using assms(18) by simp
    then show ?thesis by (simp only: fix_int_shift)
  qed
  have f0: "fix_int startx \<le> ?f i" "0 \<le> ?f i" for i
    using assms(1,2) by (auto intro!: fix_int_mono fix_int_nonneg)
  have fm: "?f i \<le> ?m" if "i < nat crw" for i
    using that assms(2,3) by (intro fix_int_mono add_left_mono mult_right_mono) auto
  have m: "fix_int startx \<le> ?m" "0 \<le> ?m" using f0[of 0] fm[of 0] assms(3) by auto
  show s: "0 \<le> sx" "0 < te_sw e" "sx + te_sw e \<le> src_w"
    using assms(3-7) m unfolding assms(13) sx_def sx_end_def lo_def hi_def by auto
  have k: "0 \<le> ?f i - sx + int t" "?f i - sx + int t < int lead + te_sw e + 3"
    if "i < nat crw" "t < taps" for i t
    using that f0[of i] fm[OF that(1)] assms(4-7) unfolding assms(13) sx_def sx_end_def lo_def hi_def
    by auto
  show "reads_row e" unfolding reads_row_def assms(14-17) f
    using k s(2) by auto
  show "row_col e (nat (fix_int (te_lstartx e + int i * incx) - int lead + int t)) =
      clamp_row (?f i - int lead + int t) src_w" if "i < nat crw" "t < taps"
  proof -
    define j where "j = ?f i - sx + int t"
    have j: "0 \<le> j" "fix_int (te_lstartx e + int i * incx) - int lead + int t = j"
      using k(1)[OF that] f by (simp_all add: j_def)
    have c: "?f i - int lead + int t = sx + j - int lead" by (simp add: j_def)
    have low: "sx = 0" if "j < int lead"
      using that f0(1)[of i] unfolding j_def sx_def lo_def by (auto split: if_splits)
    have high: "sx + te_sw e = src_w" if "int lead + te_sw e \<le> j"
      using that fm[OF \<open>i < nat crw\<close>] \<open>t < taps\<close> assms(5) unfolding j_def assms(13) sx_end_def hi_def
      by (auto split: if_splits)
    have n: "nat j < lead \<longleftrightarrow> j < int lead" "nat j < lead + nat (te_sw e) \<longleftrightarrow> j < int lead + te_sw e"
      "int (nat j) = j" using j(1) s(2) by linarith+
    show ?thesis unfolding j(2) c row_col_def assms(12,14) clamp_row_def n
      using j(1) s low high by auto
  qed
qed

lemma crop_clip_Some:
  assumes "crop_clip dst noclip dx dy scw sch crx cry crw crh = Some (x, y, cx, cy, w, h)"
  shows "0 \<le> x" "x + w \<le> int (bm_w dst)" "0 < w" "0 \<le> cx" "cx + w \<le> scw" "cx - x = crx - dx"
    "0 \<le> y" "y + h \<le> int (bm_h dst)" "0 < h" "0 \<le> cy" "cy + h \<le> sch" "cy - y = cry - dy"
    "0 \<le> t \<Longrightarrow> t < int (bm_w dst) \<Longrightarrow> x \<le> t \<and> t < x + w \<longleftrightarrow> dx \<le> t \<and> t < dx + crw"
    "0 \<le> t \<Longrightarrow> t < int (bm_h dst) \<Longrightarrow> y \<le> t \<and> t < y + h \<longleftrightarrow> dy \<le> t \<and> t < dy + crh"
  using assms by (auto simp: crop_clip_def Let_def split: if_splits)

lemma crop_clip_None:
  assumes "crop_clip dst False dx dy scw sch crx cry crw crh = None"
    and "0 \<le> crx" "crx + crw \<le> scw" "0 \<le> cry" "cry + crh \<le> sch" and "in_bitmap dst t s"
  shows "\<not> (dx \<le> t \<and> t < dx + crw \<and> dy \<le> s \<and> s < dy + crh)"
  using assms by (auto simp: crop_clip_def Let_def in_bitmap_def split: if_splits)

text \<open>How a card lands in the destination: copied as it is into 32 bits, converted otherwise.\<close>

definition out_px :: "pixel_fmt \<Rightarrow> u32 \<Rightarrow> u32" where
  "out_px f c = (if fmt_bpp f = 32 then c else px_wrap (pixelsize f) (store_px f c))"

lemma bpp32: "fmt_bpp f = 32 \<Longrightarrow> pixelsize f = 4"
  by (simp add: pixelsize_def)

lemma px_wrap_4: "px_wrap 4 c = c"
  using take_bit_length_eq[of c] by (simp add: px_wrap_def)

lemma write_result_px:
  assumes "f \<noteq> UNKNOW" and "x + length cache \<le> px_width (pixelsize f) row" and "k < px_width (pixelsize f) row"
  shows "px_get (pixelsize f) (write_result None f x cache row) k =
    (if x \<le> k \<and> k < x + length cache then out_px f (cache ! (k - x)) else px_get (pixelsize f) row k)"
proof (cases "fmt_bpp f = 32")
  case True
  then show ?thesis using row_raster.get_put_list[of x cache 4 row k] assms
    by (simp add: write_result_def out_px_def bpp32 px_wrap_4)
next
  case False
  then show ?thesis using px_get_Store[OF assms] by (simp add: write_result_def out_px_def)
qed

text \<open>
  Four and six taps, for any step and start: result pixel \<open>(t, s)\<close> is the reference pixel of its
  own position.
\<close>

lemma tap_scan_pixel:
  assumes ok: "canvas_ok dst" "canvas_ok src" "0 < bm_w src" "0 < bm_h src"
    and k: "lead < taps" "4 \<le> taps" and mode: "mode_draw (bm_fmt dst) mode = None"
    and rect: "0 \<le> x" "x + w \<le> int (bm_w dst)" "0 < w" "0 \<le> y" "y + h \<le> int (bm_h dst)" "0 < h"
    and pos: "0 \<le> incx" "0 \<le> incy" "0 \<le> startx"
    and right: "fix_int (startx + (w - 1) * incx) < int (bm_w src) + int lead + 4 - int taps"
    and t: "in_bitmap dst t s"
  shows "GetPixel (tap_scan taps lead wtab fresh dst x y src w h startx starty incx incy mode 0xffffffff) t s =
    (if x \<le> t \<and> t < x + w \<and> y \<le> s \<and> s < y + h
     then out_px (bm_fmt dst) (scaled_pixel taps lead wtab src (startx + (t - x) * incx) (starty + (s - y) * incy))
     else GetPixel dst t s)"
proof -
  let ?sw = "int (bm_w src)" and ?ps = "pixelsize (bm_fmt dst)"
  define lo hi where "lo = fix_int startx - int lead"
    and "hi = fix_int (startx + (w - 1) * incx) + int (taps - lead - 1)"
  define sx sx_end where "sx = (if lo < 0 then 0 else lo)"
    and "sx_end = (if hi \<ge> ?sw then ?sw - 1 else hi)"
  define e where "e = \<lparr>te_taps = taps, te_lead = lead, te_wtab = wtab, te_src = src, te_sx = sx,
    te_sw = sx_end - sx + 1, te_crw = w, te_lstartx = startx - (sx - int lead) * 65536,
    te_incx = incx, te_color = 0xffffffff, te_draw = mode_draw (bm_fmt dst) mode\<rparr>"
  have fe: "te_sx e = sx" "te_sw e = sx_end - sx + 1" "te_lead e = lead" "te_taps e = taps" "te_crw e = w"
    "te_incx e = incx" "te_lstartx e = startx - (sx - int lead) * 65536" "te_src e = src" "te_wtab e = wtab"
    "te_color e = 0xffffffff" "te_draw e = None"
    by (simp_all add: e_def mode)
  have G: "0 \<le> sx" "0 < te_sw e" "sx + te_sw e \<le> ?sw" "reads_row e"
    "i < nat w \<Longrightarrow> j < taps \<Longrightarrow>
      row_col e (nat (fix_int (te_lstartx e + int i * incx) - int lead + int j)) =
      clamp_row (fix_int (startx + int i * incx) - int lead + int j) ?sw" for i j
    using row_columns[OF pos(3,1) rect(3) _ k right fe(1)[unfolded sx_def lo_def]
        fe(2)[unfolded sx_end_def sx_def hi_def lo_def] fe(3-6) fe(7)[unfolded sx_def lo_def]]
      ok(3) unfolding sx_def lo_def by auto
  have eok: "env_ok e" using ok G(1-3) k by (simp add: env_ok_def fe)
  define cache0 where "cache0 = map (\<lambda>i. fresh (nat (sx_end - sx + 1) + lead + 3 + i)) [0..<nat w]"
  define ring0 where "ring0 = map (\<lambda>k. map (\<lambda>i. fresh (nat (sx_end - sx + 1) + lead + 3 + nat w +
    k * nat (sx_end - sx + 1) + i)) [0..<nat (sx_end - sx + 1)]) [0..<taps]"
  have "\<not> sx_end - sx + 1 \<le> 0" using G(2) fe(2) by simp
  then have S: "tap_scan taps lead wtab fresh dst x y src w h startx starty incx incy mode 0xffffffff =
      tap_rows e (nat h) incy x y starty (- 100) ring0 cache0 dst"
    unfolding tap_scan_def Let_def lo_def[symmetric] hi_def[symmetric] sx_def[symmetric]
      sx_end_def[symmetric] cache0_def ring0_def e_def by (simp only: if_False)
  have ts: "0 \<le> t" "t < int (bm_w dst)" "0 \<le> s" "s < int (bm_h dst)" using t by (simp_all add: in_bitmap_def)
  have L: "Line (tap_rows e (nat h) incy x y starty (- 100) ring0 cache0 dst) s =
      (if y \<le> s \<and> s < y + int (nat h)
       then write_result (te_draw e) (bm_fmt dst) (nat x) (row_cache e (starty + (s - y) * incy)) (Line dst s)
       else Line dst s)"
    using ok(1) rect(4-6) pos(2) ts
    by (intro tap_rows_lines[OF eok fe(10) G(4)])
      (auto simp: fe cache0_def ring0_def canvas_ok_def bitmap_ok_def)
  have W: "bm_w dst \<le> px_width ?ps (Line dst s)" by (rule px_width_line[OF ok(1) ts(3,4)])
  let ?c = "row_cache e (starty + (s - y) * incy)"
  have R: "px_get ?ps (write_result None (bm_fmt dst) (nat x) ?c (Line dst s)) (nat t) =
      (if nat x \<le> nat t \<and> nat t < nat x + nat w then out_px (bm_fmt dst) (?c ! (nat t - nat x))
       else px_get ?ps (Line dst s) (nat t))"
    using write_result_px[of "bm_fmt dst" "nat x" ?c "Line dst s" "nat t"] ok(1) W rect(1-3) ts fe(5)
    by (auto simp: canvas_ok_def)
  have N: "?c ! (nat t - nat x) = scaled_pixel taps lead wtab src (startx + (t - x) * incx) (starty + (s - y) * incy)"
    if "x \<le> t" "t < x + w"
  proof -
    let ?i = "nat (t - x)"
    have i: "nat t - nat x = ?i" "?i < nat w" "int ?i = t - x" using that rect(1) by auto
    have fr: "fix_frac (te_lstartx e + int ?i * incx) = fix_frac (startx + int ?i * incx)"
    proof -
      have "te_lstartx e + int ?i * incx = startx + int ?i * incx - (sx - int lead) * 65536"
        using fe(7) by simp
      then show ?thesis by (simp only: fix_frac_shift)
    qed
    have "map (\<lambda>j. vert_pixel taps lead wtab src (starty + (s - y) * incy)
          (row_col e (nat (fix_int (te_lstartx e + int ?i * incx) - int lead + int j)))) [0..<taps] =
        map (\<lambda>j. vert_pixel taps lead wtab src (starty + (s - y) * incy)
          (clamp_row (fix_int (startx + int ?i * incx) - int lead + int j) ?sw)) [0..<taps]"
      using G(5)[OF i(2)] by (intro map_cong refl) (simp only: set_upt atLeastLessThan_iff)
    note cols = this
    have "[0..<nat (te_crw e)] ! ?i = ?i" using i(2) fe(5) by simp
    then have "?c ! ?i = tap_pixel (te_wtab e ! fix_frac (te_lstartx e + int ?i * te_incx e))
        (map (\<lambda>j. vert_pixel (te_taps e) (te_lead e) (te_wtab e) (te_src e) (starty + (s - y) * incy)
          (row_col e (nat (fix_int (te_lstartx e + int ?i * te_incx e) - int (te_lead e) + int j)))) [0..<te_taps e])"
      unfolding row_cache_def Let_def using i(2) fe(5) by (subst nth_map) (simp, simp only:)
    then have "?c ! ?i = scaled_pixel taps lead wtab src (startx + int ?i * incx) (starty + (s - y) * incy)"
      unfolding fe(3,4,6,8,9) by (simp only: fr cols scaled_pixel_def)
    then show ?thesis unfolding i(1) i(3) .
  qed
  have "nat x \<le> nat t \<and> nat t < nat x + nat w \<longleftrightarrow> x \<le> t \<and> t < x + w" using ts rect by auto
  then show ?thesis using t L R N fe(11) rect(6) tap_rows_frame[of e "nat h" incy x y starty "- 100" ring0 cache0 dst]
    unfolding S by (auto simp: GetPixel_def in_bitmap_def)
qed

section \<open>Positions\<close>

lemma scale_inc_bound:
  assumes "0 < sc"
  shows "sc * scale_inc n sc \<le> n * 65536"
proof -
  define q where "q = n * 65536 div sc"
  have "q * sc + n * 65536 mod sc = n * 65536" unfolding q_def by (rule div_mult_mod_eq)
  moreover have "0 \<le> n * 65536 mod sc" using assms by simp
  ultimately have "q * sc \<le> n * 65536" by linarith
  then show ?thesis unfolding scale_inc_def q_def[symmetric] by (simp only: mult.commute)
qed

lemma scale_inc_nonneg: "0 \<le> n \<Longrightarrow> 0 < sc \<Longrightarrow> 0 \<le> scale_inc n sc"
  by (simp add: scale_inc_def pos_imp_zdiv_nonneg_iff)

lemma step_bound: "0 \<le> n \<Longrightarrow> 0 < sc \<Longrightarrow> k \<le> sc \<Longrightarrow> k * scale_inc n sc \<le> n * 65536 - (sc - k) * scale_inc n sc"
  using scale_inc_bound[of sc n] by (simp add: left_diff_distrib)

lemma tap_sum_bound:
  "(\<And>w. w \<in> set ws \<Longrightarrow> - 32768 \<le> w \<and> w < 32768) \<Longrightarrow> \<bar>tap_sum ws ps c\<bar> \<le> 8355840 * int (length ws)"
proof (induction ws arbitrary: ps)
  case Nil
  then show ?case by (simp add: tap_sum_def)
next
  case (Cons w ws)
  show ?case
  proof (cases ps)
    case Nil
    then show ?thesis by (simp add: tap_sum_def)
  next
    case c: (Cons p qs)
    have v: "0 \<le> uint (drop_bit c p AND 0xff)" "uint (drop_bit c p AND 0xff) \<le> 255"
      using byte_le(1)[of "drop_bit c p"] uint_nat[of "drop_bit c p AND 0xff"] by linarith+
    have "\<bar>w\<bar> \<le> 32768" using Cons.prems[of w] by auto
    then have "\<bar>uint (drop_bit c p AND 0xff) * w\<bar> \<le> 255 * 32768"
      unfolding abs_mult using v by (intro mult_mono) auto
    moreover have "\<bar>tap_sum ws qs c\<bar> \<le> 8355840 * int (length ws)" using Cons by simp
    moreover have "tap_sum (w # ws) ps c = uint (drop_bit c p AND 0xff) * w + tap_sum ws qs c"
      by (simp add: tap_sum_def c)
    ultimately show ?thesis by (simp add: distrib_left)
  qed
qed

text \<open>
  Everything the scan computes fits 32 bits, for the pictures that pass the size check:
  the positions of a row or column up to and including one past the last, and the weighted sums
  of at most six channels with 16-bit weights.
\<close>

theorem scaled_positions_fit:
  assumes "0 < n" and "n < 0x7fff" and "0 < sc" and "0 \<le> k" and "k \<le> sc"
    and "length ws \<le> 6" and "\<And>w. w \<in> set ws \<Longrightarrow> - 32768 \<le> w \<and> w < 32768"
  shows "0 \<le> scale_off n sc + k * scale_inc n sc \<and> scale_off n sc + k * scale_inc n sc < 2 ^ 31 \<and>
    - (2 ^ 31) \<le> tap_sum ws ps c \<and> tap_sum ws ps c + 2 ^ 13 < 2 ^ 31"
proof -
  have "0 \<le> scale_inc n sc" using assms by (intro scale_inc_nonneg) auto
  then have "0 \<le> k * scale_inc n sc" "0 \<le> (sc - k) * scale_inc n sc" using assms(4,5) by simp_all
  moreover have "k * scale_inc n sc \<le> n * 65536 - (sc - k) * scale_inc n sc"
    using assms by (intro step_bound) auto
  moreover have "0 \<le> scale_off n sc" "scale_off n sc \<le> 32768" by (simp_all add: scale_off_def)
  moreover have "\<bar>tap_sum ws ps c\<bar> \<le> 8355840 * int (length ws)" by (rule tap_sum_bound[OF assms(7)])
  then have "\<bar>tap_sum ws ps c\<bar> \<le> 50135040" using assms(6) by linarith
  ultimately show ?thesis using assms(2) by (simp add: abs_le_iff)
qed

theorem scaled_positions_fit_witness:
  "scale_off 30000 90000 + 90000 * scale_inc 30000 90000 < 2 ^ 31 \<and>
   tap_sum [-1000, 17384] [0xff, 0x80] 0 + 2 ^ 13 < 2 ^ 31"
proof -
  have "- 32768 \<le> w \<and> w < 32768" if "w \<in> set [-1000, 17384]" for w :: int using that by auto
  from scaled_positions_fit[of 30000 90000 90000 "[-1000, 17384]" "[0xff, 0x80]" 0, OF _ _ _ _ _ _ this]
  show ?thesis by simp
qed

lemma last_position:
  assumes "0 < n" and "0 < sc" and "0 \<le> k" and "k < sc"
  shows "fix_int (scale_off n sc + k * scale_inc n sc) < n + 1"
    and "sc < 2 * n \<Longrightarrow> fix_int (scale_off n sc + k * scale_inc n sc) < n"
proof -
  let ?i = "scale_inc n sc"
  have i: "0 \<le> ?i" using assms by (intro scale_inc_nonneg) auto
  have "k * ?i \<le> (sc - 1) * ?i" using i assms(4) by (intro mult_right_mono) auto
  moreover have "(sc - 1) * ?i = sc * ?i - ?i" by (simp add: left_diff_distrib)
  ultimately have k: "k * ?i \<le> sc * ?i - ?i" by simp
  have b: "sc * ?i \<le> n * 65536" by (rule scale_inc_bound[OF assms(2)])
  have o: "scale_off n sc \<le> 32768" by (simp add: scale_off_def)
  define a c f where "a = k * ?i" and "c = sc * ?i" and "f = scale_off n sc"
  note K = k[folded a_def c_def] b[folded c_def] o[folded f_def] i
  have "f + a < n * 65536 + 65536" using K by linarith
  then have "f + a < (n + 1) * 65536" by (simp add: distrib_right)
  then show "fix_int (scale_off n sc + k * ?i) < n + 1" unfolding a_def[symmetric] f_def[symmetric] by (simp add: fix_int_def div_less_iff_less_mult)
  show "fix_int (scale_off n sc + k * ?i) < n" if "sc < 2 * n"
  proof -
    have "32768 \<le> ?i" unfolding scale_inc_def
      using that assms(2) zdiv_mono1[of "32768 * sc" "n * 65536" sc] by simp
    have "c - ?i + 32768 < n * 65536"
    proof (cases "?i = 32768")
      case True
      then show ?thesis using that by (simp add: c_def)
    next
      case False
      then show ?thesis using K(2) \<open>32768 \<le> ?i\<close> by linarith
    qed
    then have "f + a < n * 65536" using K by linarith
    then show ?thesis unfolding a_def[symmetric] f_def[symmetric] by (simp add: fix_int_def div_less_iff_less_mult)
  qed
qed

section \<open>Flat pictures\<close>

lemma tap_sum_flat:
  "(\<And>p. p \<in> set ps \<Longrightarrow> p = c) \<Longrightarrow> length ws = length ps \<Longrightarrow>
   tap_sum ws ps k = uint (drop_bit k c AND 0xff) * sum_list ws"
  unfolding tap_sum_def
proof (induction ws ps rule: list_induct2')
  case (4 w ws p ps)
  then have "p = c" "sum_list (map2 (\<lambda>w p. uint (drop_bit k p AND 0xff) * w) ws ps) =
      uint (drop_bit k c AND 0xff) * sum_list ws" by simp_all
  then show ?case by (simp add: distrib_left)
qed simp_all

lemma tap_pixel_flat:
  assumes "\<And>p. p \<in> set ps \<Longrightarrow> p = c" and "length ws = length ps" and "\<bar>sum_list ws - 16384\<bar> \<le> 32"
  shows "tap_pixel ws ps = c"
proof -
  have ch: "tap_channel ws ps k = drop_bit k c AND 0xff" for k
  proof -
    let ?v = "uint (drop_bit k c AND 0xff)"
    have v: "0 \<le> ?v" "?v \<le> 255"
      using byte_le(1)[of "drop_bit k c"] uint_nat[of "drop_bit k c AND 0xff"] by linarith+
    have "\<bar>?v * (sum_list ws - 16384)\<bar> \<le> 255 * 32"
      unfolding abs_mult using v assms(3) by (intro mult_mono) auto
    then have "(?v * sum_list ws + 2 ^ 13) div 2 ^ 14 = ?v"
      by (intro int_div_pos_eq[where r = "?v * (sum_list ws - 16384) + 8192"])
        (simp_all add: algebra_simps abs_le_iff)
    then show ?thesis using v tap_sum_flat[OF assms(1,2), of k]
      by (simp add: tap_channel_def clamp_byte_def)
  qed
  have "tap_pixel ws ps = (case pixel_disasm_8888 c of (a, r, g, b) \<Rightarrow> pixel_asm_8888 a r g b)"
    by (simp add: tap_pixel_def ch pixel_disasm_8888_def pixel_asm_8888_def Let_def ac_simps)
  then show ?thesis by (simp only: asm_disasm_8888)
qed

section \<open>Beyond the right edge\<close>

text \<open>
  With six taps, at twice the size and above, the last column's sixth tap is one past the
  padded row, where the cache of results begins. A white pixel enlarged eight times is not
  white in its last column when the buffer held zeros, and white when it held white.
\<close>

definition one_pixel :: "u8 \<Rightarrow> bitmap" where
  "one_pixel v = \<lparr>bm_w = 1, bm_h = 1, bm_fmt = A8R8G8B8, bm_lines = [[v, v, v, v]]\<rparr>"

definition ex_wtab6 :: "int list list" where
  "ex_wtab6 = replicate 256 [0, 0, 16000, 0, 0, 384]"

lemma six_taps_read_cache:
  "scalecrop_taps 6 2 ex_wtab6 (\<lambda>_. 0) (one_pixel 0) 0 0 (one_pixel 255) 8 1 7 0 1 1
     PIXEL_FLAG_SRCCOPY 0xffffffff None = one_pixel 249"
  "scalecrop_taps 6 2 ex_wtab6 (\<lambda>_. 0xffffffff) (one_pixel 0) 0 0 (one_pixel 255) 8 1 7 0 1 1
     PIXEL_FLAG_SRCCOPY 0xffffffff None = one_pixel 255"
  by code_simp+

end
