(* ===== verification/Scale_Crop.thy ===== *)
theory Scale_Crop
  imports Scaling
begin

text \<open>
  \<open>ScaleCrop\<close> and \<open>ScaleCropAda\<close> of BasicBitmap.cpp, with which the codecs make the part of a
  picture the window shows: the choice among copying, six or four taps and interpolation
  between two rows and columns, and the box filter that first averages blocks of a much larger
  picture. The comparisons and divisions of \<open>float\<close>s that decide about the box filter and its
  block size are a parameter; they depend on the picture and the scaled size alone.
\<close>

unbundle bit_operations_syntax

section \<open>Interpolation between rows and columns\<close>

definition interp_px :: "u32 \<Rightarrow> u32 \<Rightarrow> u32 \<Rightarrow> u32 \<Rightarrow> u32" where
  "interp_px f1 f2 p1 p2 =
     (let c1 = p1 AND 0xff00ff; c2 = p2 AND 0xff00ff;
          c3 = drop_bit 8 p1 AND 0xff00ff; c4 = drop_bit 8 p2 AND 0xff00ff;
          c1 = drop_bit 8 (c1 * f1 + c2 * f2);
          c3 = (c3 * f1 + c4 * f2) AND 0xff00ff00
      in c3 OR (c1 AND 0xff00ff))"

definition half_byte :: "nat \<Rightarrow> u32 \<Rightarrow> u32 \<Rightarrow> u32" where
  "half_byte k p1 p2 = push_bit k (drop_bit 1 ((drop_bit k p1 AND 0xff) + (drop_bit k p2 AND 0xff)))"

definition half_px :: "u32 \<Rightarrow> u32 \<Rightarrow> u32" where
  "half_px p1 p2 = half_byte 0 p1 p2 OR half_byte 8 p1 p2 OR half_byte 16 p1 p2 OR half_byte 24 p1 p2"

text \<open>\<open>same\<close>: both rows are at one address.\<close>

definition InterpolateRow :: "nat \<Rightarrow> bool \<Rightarrow> u32 list \<Rightarrow> u32 list \<Rightarrow> int \<Rightarrow> u32 list" where
  "InterpolateRow w same row1 row2 fraction =
     (let f2 = fraction div 256 mod 256; f1 = 256 - f2 in
      if f2 = 0 \<or> same then take w row1
      else if f1 = 0x80 then map2 half_px (take w row1) (take w row2)
      else map2 (interp_px (word_of_int f1) (word_of_int f2)) (take w row1) (take w row2))"

definition InterpolateRowNearest :: "nat \<Rightarrow> bool \<Rightarrow> u32 list \<Rightarrow> u32 list \<Rightarrow> int \<Rightarrow> u32 list" where
  "InterpolateRowNearest w same row1 row2 fraction = take w row1"

fun interp_cols :: "nat \<Rightarrow> u32 list \<Rightarrow> int \<Rightarrow> int \<Rightarrow> u32 list" where
  "interp_cols 0 src x dx = []"
| "interp_cols (Suc w) src x dx =
     (let xi = fix_int x; c1 = src ! nat xi; c2 = src ! nat (xi + 1);
          fx = word_of_nat (fix_frac x); fz = 256 - fx
      in interp_px fz fx c1 c2 # interp_cols w src (x + dx) dx)"

definition InterpolateCol :: "nat \<Rightarrow> u32 list \<Rightarrow> int \<Rightarrow> int \<Rightarrow> u32 list" where
  "InterpolateCol w src x dx =
     (if dx = 0x10000 \<and> x mod 65536 = 0 then take w (drop (nat (fix_int x)) src)
      else interp_cols w src x dx)"

fun nearest_cols :: "nat \<Rightarrow> u32 list \<Rightarrow> int \<Rightarrow> int \<Rightarrow> u32 list" where
  "nearest_cols 0 src x dx = []"
| "nearest_cols (Suc w) src x dx = src ! nat (fix_int x) # nearest_cols w src (x + dx) dx"

definition InterpolateColNearest :: "nat \<Rightarrow> u32 list \<Rightarrow> int \<Rightarrow> int \<Rightarrow> u32 list" where
  "InterpolateColNearest w src x dx =
     (if dx = 0x10000 then take w (drop (nat (fix_int x)) src) else nearest_cols w src x dx)"

section \<open>The scan with two rows\<close>

definition PIXEL_FLAG_LINEAR :: u32 where "PIXEL_FLAG_LINEAR = 128"
definition PIXEL_FLAG_BILINEAR :: u32 where "PIXEL_FLAG_BILINEAR = 256"

record scan_env =
  se_src :: bitmap
  se_scw :: int
  se_sx :: int
  se_sw :: int
  se_crw :: int
  se_lstartx :: int
  se_incx :: int
  se_mode :: u32
  se_color :: u32
  se_draw :: "(bytes \<Rightarrow> nat \<Rightarrow> u32 list \<Rightarrow> bytes) option"

text \<open>
  The cards of a source row in the column range: read in place at 32 bits, through a scan line
  that \<open>RowFetch\<close> fills completely otherwise.
\<close>

definition scan_row :: "scan_env \<Rightarrow> int \<Rightarrow> u32 list" where
  "scan_row e y =
     (if fmt_bpp (bm_fmt (se_src e)) = 32
      then map (\<lambda>i. px_get 4 (Line (se_src e) y) (nat (se_sx e) + i)) [0..<nat (se_sw e)]
      else RowFetch (se_src e) (se_sx e) y (replicate (nat (se_sw e)) 0) (se_sw e))"

definition interprow :: "u32 \<Rightarrow> nat \<Rightarrow> bool \<Rightarrow> u32 list \<Rightarrow> u32 list \<Rightarrow> int \<Rightarrow> u32 list" where
  "interprow mode = (if has_flag mode PIXEL_FLAG_LINEAR \<or> has_flag mode PIXEL_FLAG_BILINEAR
     then InterpolateRow else InterpolateRowNearest)"

definition interpcol :: "u32 \<Rightarrow> nat \<Rightarrow> u32 list \<Rightarrow> int \<Rightarrow> int \<Rightarrow> u32 list" where
  "interpcol mode = (if has_flag mode PIXEL_FLAG_BILINEAR then InterpolateCol else InterpolateColNearest)"

definition scan_srcrow :: "scan_env \<Rightarrow> int \<Rightarrow> u32 list" where
  "scan_srcrow e starty =
     (let src = se_src e; sw = nat (se_sw e); my = int (bm_h src) - 1;
          clamp = (\<lambda>y. if y < 0 then 0 else if y > my then my else y);
          vflip = has_flag (se_mode e) PIXEL_FLAG_VFLIP;
          y1 = (if \<not> vflip then fix_int starty else fix_int (starty + 0xffff));
          y2 = (if \<not> vflip then y1 + 1 else y1 - 1);
          y1 = clamp y1; y2 = clamp y2;
          fraction = (if \<not> vflip then starty mod 65536 else 0x10000 - starty mod 65536);
          same = (fmt_bpp (bm_fmt src) = 32 \<and> y1 = y2);
          row = interprow (se_mode e) sw same (scan_row e y1) (scan_row e y2) fraction;
          row = (if has_flag (se_mode e) PIXEL_FLAG_HFLIP then CardReverse row else row);
          row = (if bm_fmt src = X8R8G8B8 then CardSetAlpha 0xff row else row);
          edge = row ! (sw - 1);
          row = (if se_color e \<noteq> 0xffffffff then CardMultiply (se_color e) row else row)
      in row @ [edge, edge])"

definition scan_write :: "scan_env \<Rightarrow> pixel_fmt \<Rightarrow> nat \<Rightarrow> u32 list \<Rightarrow> bytes \<Rightarrow> bytes" where
  "scan_write e dfmt dx srcrow row =
     (let crw = nat (se_crw e); whole = (se_scw e = int (bm_w (se_src e)));
          cols = interpcol (se_mode e) crw srcrow (se_lstartx e) (se_incx e) in
      case se_draw e of
        None \<Rightarrow>
          if whole then Store dfmt row dx (take crw srcrow)
          else if fmt_bpp dfmt = 32 then put_list (px_put 4) row dx cols
          else Store dfmt row dx cols
      | Some d \<Rightarrow> d row dx (if whole then take crw srcrow else cols))"

fun scan_rows :: "scan_env \<Rightarrow> nat \<Rightarrow> int \<Rightarrow> int \<Rightarrow> int \<Rightarrow> int \<Rightarrow> bitmap \<Rightarrow> bitmap" where
  "scan_rows e 0 incy dx dy starty dst = dst"
| "scan_rows e (Suc n) incy dx dy starty dst =
     (let dst = set_line dst dy
        (scan_write e (bm_fmt dst) (nat dx) (scan_srcrow e starty) (Line dst dy))
      in scan_rows e n incy dx (dy + 1)
           (if has_flag (se_mode e) PIXEL_FLAG_VFLIP then starty - incy else starty + incy) dst)"

definition interp_scan :: "bitmap \<Rightarrow> int \<Rightarrow> int \<Rightarrow> bitmap \<Rightarrow> int \<Rightarrow> int \<Rightarrow> int \<Rightarrow> int \<Rightarrow> int \<Rightarrow> int \<Rightarrow> int \<Rightarrow> u32 \<Rightarrow> u32 \<Rightarrow> bitmap" where
  "interp_scan dst dx dy src scw crw crh startx starty incx incy mode color =
     (let src_w = int (bm_w src);
          clamp = (\<lambda>i. if i < 0 then 0 else if i > src_w - 1 then src_w - 1 else i);
          idx_min = clamp (fix_int startx);
          idx_max = clamp (fix_int (startx + (crw - 1) * incx));
          sw = idx_max - idx_min + 2;
          sx = (if \<not> has_flag mode PIXEL_FLAG_HFLIP then idx_min else src_w - idx_min - sw);
          (sw, sx) = (if sx < 0 then (sw + sx, 0) else (sw, sx));
          sw = (if sx + sw > src_w then src_w - sx else sw) in
      if sw \<le> 0 then dst
      else
        let e = \<lparr>se_src = src, se_scw = scw, se_sx = sx, se_sw = sw, se_crw = crw,
              se_lstartx = startx - idx_min * 65536, se_incx = incx, se_mode = mode,
              se_color = color, se_draw = mode_draw (bm_fmt dst) mode\<rparr>
        in scan_rows e (nat crh) incy dx dy starty dst)"

section \<open>The box filter\<close>

text \<open>A column accumulator: blue, green, red, alpha.\<close>

type_synonym box_acc = "u32 \<times> u32 \<times> u32 \<times> u32"

definition card_sum :: "(nat \<Rightarrow> u32) \<Rightarrow> nat \<Rightarrow> nat \<Rightarrow> nat \<Rightarrow> u32" where
  "card_sum srow x0 x1 k = sum_list (map (\<lambda>x. drop_bit k (srow x) AND 0xff) [x0..<x1])"

text \<open>One source row into the accumulators; \<open>srow\<close> gives the card of a source column.\<close>

definition box_accum_row :: "(nat \<Rightarrow> u32) \<Rightarrow> nat \<Rightarrow> nat \<Rightarrow> nat \<Rightarrow> nat \<Rightarrow> box_acc list \<Rightarrow> box_acc list" where
  "box_accum_row srow ix_min nx sx_start sx_end acc =
     map (\<lambda>i. let x_base = (ix_min + i) * nx;
              x0 = max x_base sx_start; x1 = min (x_base + nx) sx_end in
            case acc ! i of (b, g, r, a) \<Rightarrow>
              (b + card_sum srow x0 x1 0, g + card_sum srow x0 x1 8,
               r + card_sum srow x0 x1 16, a + card_sum srow x0 x1 24))
       [0..<length acc]"

definition box_scale :: "u32 \<Rightarrow> u32 \<Rightarrow> u32" where
  "box_scale recip v = ucast (drop_bit 22 (ucast v * ucast recip :: u64))"

definition box_output :: "u32 \<Rightarrow> box_acc \<Rightarrow> u32" where
  "box_output recip = (\<lambda>(b, g, r, a).
     push_bit 24 (box_scale recip a) OR push_bit 16 (box_scale recip r) OR
     push_bit 8 (box_scale recip g) OR box_scale recip b)"

record box_state =
  bx_acc :: "box_acc list"
  bx_row :: nat
  bx_out :: nat
  bx_bitmap :: bitmap

definition box_step :: "bitmap \<Rightarrow> nat \<Rightarrow> nat \<Rightarrow> nat \<Rightarrow> nat \<Rightarrow> nat \<Rightarrow> nat \<Rightarrow> u32 \<Rightarrow> nat \<Rightarrow> box_state \<Rightarrow> box_state" where
  "box_step src ix_min nx ny sx_start sx_end sub_h recip y st =
     (let srow = (\<lambda>x. if fmt_bpp (bm_fmt src) = 32 then px_get 4 (Line src (int y)) x
            else Fetch (bm_fmt src) (Line src (int y)) sx_start (sx_end - sx_start) ! (x - sx_start));
          acc = box_accum_row srow ix_min nx sx_start sx_end (bx_acc st);
          rib = bx_row st + 1 in
      if rib = ny \<and> bx_out st < sub_h
      then \<lparr>bx_acc = map (\<lambda>_. (0, 0, 0, 0)) acc, bx_row = 0, bx_out = bx_out st + 1,
            bx_bitmap = set_line (bx_bitmap st) (int (bx_out st))
              (put_list (px_put 4) (Line (bx_bitmap st) (int (bx_out st))) 0 (map (box_output recip) acc))\<rparr>
      else st\<lparr>bx_acc := acc, bx_row := rib\<rparr>)"

definition box_filter :: "bitmap \<Rightarrow> nat \<Rightarrow> nat \<Rightarrow> nat \<Rightarrow> nat \<Rightarrow> nat \<Rightarrow> nat \<Rightarrow> bitmap \<Rightarrow> bitmap" where
  "box_filter src nx ny ix_min iy_min ix_max iy_max fresh_bm =
     (let sub_w = ix_max - ix_min + 1; sub_h = iy_max - iy_min + 1;
          sy_start = iy_min * ny; sy_end = min ((iy_max + 1) * ny) (bm_h src);
          sx_start = ix_min * nx; sx_end = min ((ix_max + 1) * nx) (bm_w src);
          total = word_of_nat (nx * ny); recip = (if total > 0 then 2 ^ 22 div total else 0)
      in bx_bitmap (fold (box_step src ix_min nx ny sx_start sx_end sub_h recip) [sy_start..<sy_end]
           \<lparr>bx_acc = replicate sub_w (0, 0, 0, 0), bx_row = 0, bx_out = 0, bx_bitmap = fresh_bm\<rparr>))"

text \<open>
  The block size of one axis as the \<open>float\<close>s give it, from the source and the scaled size: none
  when the scale is not below the threshold.
\<close>

type_synonym box_rule = "int \<Rightarrow> int \<Rightarrow> int option"

definition box_size :: "box_rule \<Rightarrow> int \<Rightarrow> int \<Rightarrow> int" where
  "box_size pf n sc = (case pf n sc of None \<Rightarrow> 1 | Some k \<Rightarrow> if k < 1 then 1 else k)"

definition inter_size :: "int \<Rightarrow> int \<Rightarrow> int" where
  "inter_size n k = (if n div k < 1 then 1 else n div k)"

text \<open>The range of averaged columns (or rows) the crop needs, with its margin.\<close>

definition sub_range :: "int \<Rightarrow> int \<Rightarrow> int \<Rightarrow> int \<Rightarrow> int \<times> int" where
  "sub_range isz sc c n =
     (let inc = scale_inc isz sc; off = scale_off isz sc; margin = 3;
          lo = fix_int (off + c * inc) - margin;
          hi = fix_int (off + (c + n - 1) * inc) + 1 + margin
      in (if lo < 0 then 0 else lo, if hi \<ge> isz then isz - 1 else hi))"

text \<open>\<open>None\<close>: no box filter. \<open>fresh_bm\<close> allocates the bitmap of the averaged part.\<close>

definition prefilter :: "box_rule option \<Rightarrow> bitmap \<Rightarrow> int \<Rightarrow> int \<Rightarrow> int \<Rightarrow> int \<Rightarrow> int \<Rightarrow> int \<Rightarrow> (bitmap \<times> mapping) option" where
  "prefilter rule src scw sch crx cry crw crh =
     (case rule of None \<Rightarrow> None
      | Some pf \<Rightarrow>
          let src_w = int (bm_w src); src_h = int (bm_h src) in
          if \<not> (0 < src_w \<and> 0 < src_h \<and> (pf src_w scw \<noteq> None \<or> pf src_h sch \<noteq> None)) then None
          else
            let nx = box_size pf src_w scw; ny = box_size pf src_h sch;
                inter_w = inter_size src_w nx; inter_h = inter_size src_h ny;
                incx = scale_inc inter_w scw; incy = scale_inc inter_h sch;
                offx = scale_off inter_w scw; offy = scale_off inter_h sch;
                (ix_min, ix_max) = sub_range inter_w scw crx crw;
                (iy_min, iy_max) = sub_range inter_h sch cry crh;
                sub_w = ix_max - ix_min + 1; sub_h = iy_max - iy_min + 1 in
            if sub_w > 0 \<and> sub_h > 0 then
              let fmt = (if fmt_bpp (bm_fmt src) = 32 then bm_fmt src else A8R8G8B8) in
              (case new_bitmap (nat sub_w) (nat sub_h) fmt of None \<Rightarrow> None
               | Some bm \<Rightarrow> Some
                   (box_filter src (nat nx) (nat ny) (nat ix_min) (nat iy_min) (nat ix_max) (nat iy_max) bm,
                    \<lparr>mp_incx = incx, mp_incy = incy,
                     mp_startx = offx + crx * incx - ix_min * 65536,
                     mp_starty = offy + cry * incy - iy_min * 65536,
                     mp_offx = offx, mp_offy = offy\<rparr>))
            else None)"

section \<open>ScaleCrop\<close>

definition PIXEL_FLAG_BICUBIC :: u32 where "PIXEL_FLAG_BICUBIC = 512"
definition PIXEL_FLAG_MITCHELL :: u32 where "PIXEL_FLAG_MITCHELL = 1024"
definition PIXEL_FLAG_LANCZOS2 :: u32 where "PIXEL_FLAG_LANCZOS2 = 2048"
definition PIXEL_FLAG_LANCZOS3 :: u32 where "PIXEL_FLAG_LANCZOS3 = 4096"
definition PIXEL_FLAG_SHARPCUBIC :: u32 where "PIXEL_FLAG_SHARPCUBIC = 8192"

datatype kernel = Bicubic | Mitchell | Lanczos2 | Lanczos3 | Sharpcubic

definition mode_kernel :: "u32 \<Rightarrow> kernel option" where
  "mode_kernel mode =
     (if has_flag mode PIXEL_FLAG_BICUBIC then Some Bicubic
      else if has_flag mode PIXEL_FLAG_MITCHELL then Some Mitchell
      else if has_flag mode PIXEL_FLAG_LANCZOS2 then Some Lanczos2
      else if has_flag mode PIXEL_FLAG_LANCZOS3 then Some Lanczos3
      else if has_flag mode PIXEL_FLAG_SHARPCUBIC then Some Sharpcubic
      else None)"

definition too_large :: "bitmap \<Rightarrow> bitmap \<Rightarrow> bool" where
  "too_large dst src \<longleftrightarrow>
     (int (bm_w dst) OR int (bm_h dst) OR int (bm_w src) OR int (bm_h src)) \<ge> 0x7fff"

text \<open>
  \<open>wt\<close> is the weight table of each kernel, \<open>fresh\<close> the content of a newly allocated buffer, \<open>m\<close>
  the source's mask colour.
\<close>

definition ScaleCrop :: "(kernel \<Rightarrow> int list list) \<Rightarrow> (nat \<Rightarrow> u32) \<Rightarrow> bitmap \<Rightarrow> int \<Rightarrow> int \<Rightarrow> bitmap \<Rightarrow> u32 \<Rightarrow>
    int \<Rightarrow> int \<Rightarrow> int \<Rightarrow> int \<Rightarrow> int \<Rightarrow> int \<Rightarrow> u32 \<Rightarrow> u32 \<Rightarrow> box_rule option \<Rightarrow> bitmap" where
  "ScaleCrop wt fresh dst dx dy src m scw sch crx cry crw crh mode color rule =
     (if too_large dst src then dst
      else if scw \<le> 0 \<or> sch \<le> 0 \<or> crw \<le> 0 \<or> crh \<le> 0 then dst
      else if scw = int (bm_w src) \<and> sch = int (bm_h src) then
        snd (Blend dst dx dy src m crx cry crw crh mode color)
      else case crop_clip dst (has_flag mode PIXEL_FLAG_NOCLIP) dx dy scw sch crx cry crw crh of
        None \<Rightarrow> dst
      | Some (dx, dy, crx, cry, crw, crh) \<Rightarrow>
          let pre = prefilter rule src scw sch crx cry crw crh;
              src = (case pre of Some (bm, _) \<Rightarrow> bm | None \<Rightarrow> src);
              mp = map_option snd pre in
          case mode_kernel mode of
            Some k \<Rightarrow>
              let (taps, lead) = (if k = Lanczos3 then (6, 2) else (4, 1)) in
              scalecrop_taps taps lead (wt k) fresh dst dx dy src scw sch crx cry crw crh mode color mp
          | None \<Rightarrow>
              let src_w = int (bm_w src); src_h = int (bm_h src);
                  offy = (case mp of Some m \<Rightarrow> mp_offy m | None \<Rightarrow> scale_off src_h sch);
                  incx = (case mp of Some m \<Rightarrow> mp_incx m | None \<Rightarrow> scale_inc src_w scw);
                  incy = (case mp of Some m \<Rightarrow> mp_incy m | None \<Rightarrow> scale_inc src_h sch);
                  startx = (case mp of Some m \<Rightarrow> mp_startx m
                    | None \<Rightarrow> scale_off src_w scw + crx * incx);
                  starty = (case mp of Some m \<Rightarrow> mp_starty m
                    | None \<Rightarrow> if has_flag mode PIXEL_FLAG_VFLIP
                        then (src_h - 1) * 65536 - offy - cry * incy else offy + cry * incy)
              in interp_scan dst dx dy src scw crw crh startx starty incx incy mode color)"

definition ScaleCropAda :: "(kernel \<Rightarrow> int list list) \<Rightarrow> (nat \<Rightarrow> u32) \<Rightarrow> box_rule \<Rightarrow> bitmap \<Rightarrow> int \<Rightarrow> int \<Rightarrow> bitmap \<Rightarrow> u32 \<Rightarrow>
    int \<Rightarrow> int \<Rightarrow> int \<Rightarrow> int \<Rightarrow> int \<Rightarrow> int \<Rightarrow> bitmap" where
  "ScaleCropAda wt fresh pf dst dx dy src m scw sch crx cry crw crh =
     (let src_w = int (bm_w src); src_h = int (bm_h src) in
      if src_w \<ge> 20 \<and> src_h \<ge> 20 \<and> src_w \<ge> scw * 3 \<and> src_h \<ge> sch * 3
      then ScaleCrop wt fresh dst dx dy src m scw sch crx cry crw crh
             (PIXEL_FLAG_BILINEAR OR PIXEL_FLAG_SRCCOPY) 0xffffffff (Some pf)
      else ScaleCrop wt fresh dst dx dy src m scw sch crx cry crw crh
             (PIXEL_FLAG_LANCZOS3 OR PIXEL_FLAG_SRCCOPY) 0xffffffff None)"

section \<open>Interpolation by channels\<close>

definition interp_ch :: "u32 \<Rightarrow> u32 \<Rightarrow> u32 \<Rightarrow> u32 \<Rightarrow> u32" where
  "interp_ch f1 f2 a b = drop_bit 8 (a * f1 + b * f2)"

lemma weights_sum:
  assumes "is_byte a" and "is_byte b" and "unat f1 + unat f2 = 256"
  shows "unat (a * f1 + b * f2) = unat a * unat f1 + unat b * unat f2"
    and "unat a * unat f1 + unat b * unat f2 \<le> 65280"
proof -
  have ab: "unat a \<le> 255" "unat b \<le> 255" using assms(1,2)[unfolded is_byte_nat] .
  have "unat a * unat f1 + unat b * unat f2 \<le> 255 * unat f1 + 255 * unat f2"
    using ab by (intro add_mono mult_right_mono) auto
  also have "\<dots> = 65280" using assms(3) by (simp flip: distrib_left)
  finally show b: "unat a * unat f1 + unat b * unat f2 \<le> 65280" .
  then have "unat (a * f1) = unat a * unat f1" "unat (b * f2) = unat b * unat f2"
    by (auto intro!: unat_mult_small[THEN trans])
  then show "unat (a * f1 + b * f2) = unat a * unat f1 + unat b * unat f2"
    using b by (subst unat_add_small) auto
qed

lemma small_bits: "unat (x :: u32) < 2 ^ k \<Longrightarrow> bit x n \<Longrightarrow> n < k"
proof -
  assume "unat x < 2 ^ k" "bit x n"
  then have "take_bit k x = x"
    by (simp only: word_unat_eq_iff unsigned_take_bit_eq) (simp add: take_bit_nat_eq_self)
  then show "n < k" using \<open>bit x n\<close> by (metis bit_take_bit_iff)
qed

lemma lanes_split: "(p AND 0xff00ff :: u32) = push_bit 16 (drop_bit 16 p AND 0xff) + (p AND 0xff)"
proof -
  have "push_bit 16 (drop_bit 16 p AND 0xff) AND (p AND 0xff) = 0"
    unfolding mask_eq by (rule bit_word_eqI) (auto simp: bit_simps)
  then have "push_bit 16 (drop_bit 16 p AND 0xff) + (p AND 0xff) =
      push_bit 16 (drop_bit 16 p AND 0xff) OR (p AND 0xff)" by (rule disjunctive_add_eq_or)
  moreover have "(p AND 0xff00ff :: u32) = push_bit 16 (drop_bit 16 p AND 0xff) OR (p AND 0xff)"
  proof -
    have m: "(0xff00ff :: u32) = push_bit 16 (mask 8) OR mask 8" by (simp add: mask_eq_exp_minus_1)
    show ?thesis unfolding m unfolding mask_eq by (rule bit_word_eqI) (auto simp: bit_simps)
  qed
  ultimately show ?thesis by simp
qed

lemma lanes_pack:
  assumes "unat R < 2 ^ 16" and "unat B < 2 ^ 16"
  shows "drop_bit 8 (push_bit 16 R + B) AND 0xff00ff = (push_bit 16 (drop_bit 8 R) OR drop_bit 8 B :: u32)"
    and "(push_bit 16 R + B) AND 0xff00ff00 = (push_bit 24 (drop_bit 8 R) OR push_bit 8 (drop_bit 8 B) :: u32)"
proof -
  note b = small_bits[OF assms(1)] small_bits[OF assms(2)]
  have "push_bit 16 R AND B = 0" by (rule bit_word_eqI) (auto simp: bit_simps dest: b)
  then have o: "push_bit 16 R + B = push_bit 16 R OR B" by (rule disjunctive_add_eq_or)
  have m: "(0xff00ff :: u32) = push_bit 16 (mask 8) OR mask 8"
    "(0xff00ff00 :: u32) = push_bit 24 (mask 8) OR push_bit 8 (mask 8)"
    by (simp_all add: mask_eq_exp_minus_1)
  show "drop_bit 8 (push_bit 16 R + B) AND 0xff00ff = push_bit 16 (drop_bit 8 R) OR drop_bit 8 B"
    unfolding o m by (rule bit_word_eqI) (auto simp: bit_simps not_less dest: b)
  show "(push_bit 16 R + B) AND 0xff00ff00 = push_bit 24 (drop_bit 8 R) OR push_bit 8 (drop_bit 8 B)"
    unfolding o m by (rule bit_word_eqI) (auto simp: bit_simps not_less dest: b)
qed

lemma lanes_mix:
  "(p AND 0xff00ff) * f1 + (q AND 0xff00ff) * f2 =
   (push_bit 16 ((drop_bit 16 p AND 0xff) * f1 + (drop_bit 16 q AND 0xff) * f2) +
    ((p AND 0xff) * f1 + (q AND 0xff) * f2) :: u32)"
  unfolding lanes_split by (simp add: push_bit_eq_mult algebra_simps)

definition byte_of :: "nat \<Rightarrow> u32 \<Rightarrow> u32" where
  "byte_of k p = drop_bit k p AND 0xff"

lemma interp_px_channels:
  assumes "unat f1 + unat f2 = 256"
  shows "interp_px f1 f2 p q = pixel_asm_8888 (interp_ch f1 f2 (byte_of 24 p) (byte_of 24 q))
    (interp_ch f1 f2 (byte_of 16 p) (byte_of 16 q)) (interp_ch f1 f2 (byte_of 8 p) (byte_of 8 q))
    (interp_ch f1 f2 (byte_of 0 p) (byte_of 0 q))"
proof -
  let ?m = "\<lambda>k. byte_of k p * f1 + byte_of k q * f2"
  have s: "unat (?m k) < 2 ^ 16" for k
    using weights_sum[OF is_byte_and is_byte_and assms, of "drop_bit k p" "drop_bit k q"]
    by (simp add: byte_of_def)
  have lo: "(p AND 0xff00ff) * f1 + (q AND 0xff00ff) * f2 = push_bit 16 (?m 16) + ?m 0"
    unfolding lanes_mix by (simp add: byte_of_def)
  have hi: "(drop_bit 8 p AND 0xff00ff) * f1 + (drop_bit 8 q AND 0xff00ff) * f2 = push_bit 16 (?m 24) + ?m 8"
    unfolding lanes_mix by (simp add: byte_of_def)
  show ?thesis unfolding interp_px_def Let_def lo hi lanes_pack[OF s s]
    by (simp add: pixel_asm_8888_def interp_ch_def ac_simps)
qed

lemma asm_bytes: "pixel_asm_8888 (byte_of 24 p) (byte_of 16 p) (byte_of 8 p) (byte_of 0 p) = p"
  using asm_disasm_8888[of p] by (simp add: pixel_disasm_8888_def byte_of_def)

lemma byte_of_is_byte [simp]: "is_byte (byte_of k p)"
  by (simp add: byte_of_def)

lemma interp_ch_ends:
  "is_byte a \<Longrightarrow> interp_ch 256 0 a b = a"
  "is_byte a \<Longrightarrow> f1 + f2 = 256 \<Longrightarrow> interp_ch f1 f2 a a = a"
proof -
  assume a: "is_byte a"
  then show "interp_ch 256 0 a b = a" 
    by (simp only: interp_ch_def mult_zero_right add_0_right mult.commute[of a] mult_256_byte)
  assume "f1 + f2 = 256"
  then have "a * f1 + a * f2 = 256 * a" by (metis distrib_left mult.commute)
  then show "interp_ch f1 f2 a a = a" using a by (simp add: interp_ch_def mult_256_byte)
qed

lemma interp_px_first: "interp_px 256 0 p q = p"
  by (subst interp_px_channels) (simp_all add: interp_ch_ends asm_bytes)

lemma interp_px_same: "unat f1 + unat f2 = 256 \<Longrightarrow> interp_px f1 f2 p p = p"
proof -
  assume f: "unat f1 + unat f2 = 256"
  then have "f1 + f2 = 256" by (simp only: word_unat_eq_iff) (subst unat_add_small, simp_all)
  then show ?thesis by (subst interp_px_channels[OF f]) (simp add: interp_ch_ends(2) asm_bytes)
qed

lemma interp_px_half: "interp_px 128 128 p q = half_px p q"
proof -
  have "interp_ch 128 128 (byte_of k p) (byte_of k q) = drop_bit 1 (byte_of k p + byte_of k q)" for k
  proof -
    have w: "unat (byte_of k p) \<le> 255" "unat (byte_of k q) \<le> 255"
      using byte_of_is_byte[of k p] byte_of_is_byte[of k q] unfolding is_byte_nat .
    have "unat (byte_of k p * 128 + byte_of k q * 128) = (unat (byte_of k p) + unat (byte_of k q)) * 128"
      using weights_sum(1)[of "byte_of k p" "byte_of k q" 128 128] by simp
    moreover have "unat (byte_of k p + byte_of k q) = unat (byte_of k p) + unat (byte_of k q)"
      using w by (intro unat_add_small) simp
    ultimately show ?thesis unfolding interp_ch_def
      by (simp only: word_unat_eq_iff unat_drop_bit_eq) (simp add: drop_bit_eq_div)
  qed
  note h = this
  have "unat (128 :: u32) + unat (128 :: u32) = 256" by simp
  note c = interp_px_channels[OF this, of p q, unfolded h pixel_asm_8888_def]
  have z: "push_bit 0 x = x" for x :: u32 by simp
  show ?thesis unfolding c half_px_def half_byte_def byte_of_def[symmetric] z by (simp only: ac_simps)
qed

section \<open>Rows and columns without the shortcuts\<close>

definition frac_word :: "int \<Rightarrow> u32" where
  "frac_word x = word_of_nat (fix_frac x)"

lemma fix_frac_less: "fix_frac x < 256"
  by (simp add: fix_frac_def nat_less_iff)

lemma frac_word_nat: "unat (frac_word x) = fix_frac x"
  using fix_frac_less[of x] by (simp add: frac_word_def unat_of_nat)

lemma frac_weights: "unat (256 - frac_word x) + unat (frac_word x) = 256"
proof -
  have "frac_word x \<le> 256" using fix_frac_less[of x] by (simp add: word_le_nat_alt frac_word_nat)
  then have "unat (256 - frac_word x) = 256 - fix_frac x" by (simp add: unat_sub frac_word_nat)
  then show ?thesis using fix_frac_less[of x] by (simp add: frac_word_nat)
qed

definition lerp_px :: "int \<Rightarrow> u32 \<Rightarrow> u32 \<Rightarrow> u32" where
  "lerp_px x p q = interp_px (256 - frac_word x) (frac_word x) p q"

lemma lerp_px_same: "lerp_px x p p = p"
  unfolding lerp_px_def by (rule interp_px_same[OF frac_weights])

lemma lerp_px_whole: "x mod 65536 = 0 \<Longrightarrow> lerp_px x p q = p"
proof -
  assume "x mod 65536 = 0"
  then have "x = x div 65536 * 256 * 256" using div_mult_mod_eq[of x 65536] by linarith
  then have "x div 256 = x div 65536 * 256" by linarith
  then have "x div 256 mod 256 = 0" by simp
  then have "frac_word x = 0" by (simp add: frac_word_def fix_frac_def)
  then show ?thesis by (simp add: lerp_px_def interp_px_first)
qed

lemma InterpolateRow_eq:
  assumes "same \<Longrightarrow> row1 = row2" and "length row1 = w" and "length row2 = w"
  shows "InterpolateRow w same row1 row2 fr = map2 (lerp_px fr) row1 row2"
proof -
  have eq: "map2 (lerp_px fr) xs xs = xs" for xs
    by (induction xs) (simp_all add: lerp_px_same)
  have first: "map2 (\<lambda>p q. p) xs ys = take (length ys) xs" for xs ys :: "u32 list"
    by (induction xs ys rule: list_induct2') simp_all
  let ?f = "fr div 256 mod 256"
  have f: "0 \<le> ?f" "?f < 256" by simp_all
  have w: "frac_word fr = word_of_int ?f" using f by (simp add: frac_word_def fix_frac_def)
  then have w': "256 - frac_word fr = word_of_int (256 - ?f)" by simp
  consider "same" | "\<not> same" "?f = 0" | "\<not> same" "?f = 128" | "\<not> same" "?f \<noteq> 0" "?f \<noteq> 128" by blast
  then show ?thesis
  proof cases
    case 1
    then show ?thesis using assms eq[of row2] by (simp add: InterpolateRow_def Let_def)
  next
    case 2
    then have "lerp_px fr = (\<lambda>p q. p)" using w w' by (intro ext) (simp add: lerp_px_def interp_px_first)
    then show ?thesis using 2 assms first[of row1 row2] by (simp add: InterpolateRow_def Let_def)
  next
    case 3
    then have "lerp_px fr = half_px" using w w' by (intro ext) (simp add: lerp_px_def interp_px_half)
    then show ?thesis using 3 assms by (simp add: InterpolateRow_def Let_def)
  next
    case 4
    then have "interp_px (word_of_int (256 - ?f)) (word_of_int ?f) = lerp_px fr"
      unfolding lerp_px_def w'[symmetric] w[symmetric] by (intro ext) simp
    then show ?thesis using 4 assms by (simp add: InterpolateRow_def Let_def del: of_int_diff)
  qed
qed

text \<open>
  Blending two rows: the shortcuts for a whole row, for one row twice and for the middle
  compute the pixels of the general case.
\<close>

theorem interpolate_row_uniform:
  assumes "same \<Longrightarrow> row1 = row2" and "length row1 = w" and "length row2 = w"
  shows "InterpolateRow w same row1 row2 fr = map2 (lerp_px fr) row1 row2"
  by (rule InterpolateRow_eq[OF assms])

theorem interpolate_row_uniform_witness:
  "InterpolateRow 1 False [0xff0000ff] [0xff00ff00] 0x8000 = map2 (lerp_px 0x8000) [0xff0000ff] [0xff00ff00]"
  using interpolate_row_uniform[of False "[0xff0000ff]" "[0xff00ff00]" 1 "0x8000"] by simp

lemma length_interp_cols [simp]: "length (interp_cols w src x dx) = w"
  by (induction w src x dx rule: interp_cols.induct) (simp_all add: Let_def)

lemma interp_cols_nth: "i < w \<Longrightarrow> interp_cols w src x dx ! i =
    lerp_px (x + int i * dx) (src ! nat (fix_int (x + int i * dx))) (src ! nat (fix_int (x + int i * dx) + 1))"
proof (induction w arbitrary: x i)
  case (Suc w)
  show ?case
  proof (cases i)
    case 0
    then show ?thesis by (simp add: Let_def lerp_px_def frac_word_def)
  next
    case i: (Suc j)
    have s: "x + dx + int j * dx = x + int i * dx" by (simp add: i algebra_simps)
    have "interp_cols (Suc w) src x dx ! i = interp_cols w src (x + dx) dx ! j"
      by (simp add: i Let_def)
    then show ?thesis using Suc.IH[of j "x + dx"] Suc.prems i unfolding s by simp
  qed
qed simp

lemma InterpolateCol_nth:
  assumes "i < w" and "0 \<le> fix_int x" and "fix_int (x + int i * dx) < int (length src)"
  shows "InterpolateCol w src x dx ! i =
    lerp_px (x + int i * dx) (src ! nat (fix_int (x + int i * dx))) (src ! nat (fix_int (x + int i * dx) + 1))"
proof (cases "dx = 0x10000 \<and> x mod 65536 = 0")
  case True
  define y where "y = x + int i * dx"
  have s: "y = x - (- int i) * 65536" using True by (simp add: y_def)
  have f: "fix_int y = fix_int x + int i"
    unfolding s fix_int_shift by simp
  have "y mod 65536 = 0" using True by (simp add: y_def)
  then have l: "lerp_px y p q = p" for p q by (rule lerp_px_whole)
  have n: "nat (fix_int x + int i) = nat (fix_int x) + i" using assms(2) by simp
  have "nat (fix_int x) + i < length src" using assms(3) assms(2) unfolding y_def[symmetric] f by linarith
  then show ?thesis using True assms(1) unfolding y_def[symmetric] l f n InterpolateCol_def by simp
next
  case False
  then have "InterpolateCol w src x dx = interp_cols w src x dx" by (simp only: InterpolateCol_def if_False)
  then show ?thesis using interp_cols_nth[OF assms(1)] by simp
qed

lemma length_InterpolateCol:
  assumes "\<And>i. i < w \<Longrightarrow> fix_int (x + int i * dx) < int (length src)" and "0 \<le> fix_int x"
  shows "length (InterpolateCol w src x dx) = w"
proof (cases "dx = 0x10000 \<and> x mod 65536 = 0 \<and> w \<noteq> 0")
  case True
  have "x + int (w - 1) * dx = x - (- int (w - 1)) * 65536" using True by simp
  then have "fix_int (x + int (w - 1) * dx) = fix_int x + int (w - 1)" by (simp only: fix_int_shift)
  then have "fix_int x + int (w - 1) < int (length src)" using assms(1)[of "w - 1"] True by simp
  then have "w \<le> length src - nat (fix_int x)" using assms(2) by linarith
  then show ?thesis using True by (simp add: InterpolateCol_def)
next
  case False
  then show ?thesis by (auto simp: InterpolateCol_def)
qed

end
