(* ===== verification/Shapes.thy ===== *)
theory Shapes
  imports Scale_Crop
begin

text \<open>
  What may be drawn on a bitmap stays within it: every drawing operation of BasicBitmap.cpp
  keeps the size, the format and the length of every row, for any coordinates. A pixel written
  outside a row would make the row longer in the model, where the code would overwrite memory.
\<close>

definition same_shape :: "bitmap \<Rightarrow> bitmap \<Rightarrow> bool" where
  "same_shape b b' \<longleftrightarrow> canvas_ok b' \<and> bm_w b' = bm_w b \<and> bm_h b' = bm_h b \<and> bm_fmt b' = bm_fmt b"

text \<open>A row operation that stays within the \<open>w\<close> pixels from \<open>x\<close> on.\<close>

definition keeps_row :: "nat \<Rightarrow> nat \<Rightarrow> nat \<Rightarrow> (bytes \<Rightarrow> bytes) \<Rightarrow> bool" where
  "keeps_row ps x w f \<longleftrightarrow> (\<forall>d. ps * (x + w) \<le> length d \<longrightarrow> length (f d) = length d)"

named_theorems keeps_row_intros

lemma same_shape_refl: "canvas_ok b \<Longrightarrow> same_shape b b"
  by (simp add: same_shape_def)

lemma same_shape_trans: "same_shape a b \<Longrightarrow> same_shape b c \<Longrightarrow> same_shape a c"
  by (simp add: same_shape_def)

lemma length_put_row: "ps * (x + length cs) \<le> length bs \<Longrightarrow> length (put_list (px_put ps) bs x cs) = length bs"
  by (induction cs arbitrary: x bs) (simp_all add: length_px_put algebra_simps)

lemma keeps_put_list [keeps_row_intros]:
  "length cs \<le> w \<Longrightarrow> keeps_row ps x w (\<lambda>d. put_list (px_put ps) d x cs)"
proof -
  assume "length cs \<le> w"
  then have "ps * (x + length cs) \<le> ps * (x + w)" by simp
  then show ?thesis unfolding keeps_row_def by (meson length_put_row le_trans)
qed

lemma keeps_Store [keeps_row_intros]:
  "length cs \<le> w \<Longrightarrow> keeps_row (pixelsize f) x w (\<lambda>d. Store f d x cs)"
  using keeps_put_list[of "map (store_px f) cs"] by (cases "f = UNKNOW") (simp_all add: Store_def keeps_row_def)

lemma length_put_masked: "ps * (x + length cs) \<le> length bs \<Longrightarrow>
   length (put_masked (px_put ps) m bs x cs) = length bs"
  by (induction cs arbitrary: x bs) (simp_all add: length_px_put algebra_simps)

lemma keeps_put_masked [keeps_row_intros]:
  "length cs \<le> w \<Longrightarrow> keeps_row ps x w (\<lambda>d. put_masked (px_put ps) m d x cs)"
proof -
  assume "length cs \<le> w"
  then have "ps * (x + length cs) \<le> ps * (x + w)" by simp
  then show ?thesis unfolding keeps_row_def by (meson length_put_masked le_trans)
qed

lemma length_span_draw: "pixelsize f * (x + length cs) \<le> length bs \<Longrightarrow>
   length (span_draw f m bs x cs) = length bs"
  by (induction f m bs x cs rule: span_draw.induct) (simp_all add: length_px_put algebra_simps)

lemma keeps_span_draw [keeps_row_intros]:
  "length cs \<le> w \<Longrightarrow> keeps_row (pixelsize f) x w (\<lambda>d. span_draw f m d x cs)"
proof -
  assume "length cs \<le> w"
  then have "pixelsize f * (x + length cs) \<le> pixelsize f * (x + w)" by simp
  then show ?thesis unfolding keeps_row_def by (meson length_span_draw le_trans)
qed

lemma keeps_blit_row [keeps_row_intros]:
  "ps * (sx + w) \<le> length s \<Longrightarrow> keeps_row ps x w (blit_row ps hflip x s sx w)"
  using keeps_put_list[of "blit_pixels ps hflip sx w s" w ps x]
  by (auto simp: keeps_row_def blit_row_def algebra_simps)

lemma length_CardReverse [simp]: "length (CardReverse cards) = length cards"
  by (simp add: CardReverse_rev)

lemma keeps_convert_row [keeps_row_intros]:
  "df \<noteq> UNKNOW \<Longrightarrow> sf \<noteq> UNKNOW \<Longrightarrow> keeps_row (pixelsize df) x w (convert_row df sf hflip x s sx w)"
  unfolding convert_row_def Let_def
  by (cases "df = A8R8G8B8"; cases "sf = A8R8G8B8 \<and> \<not> hflip"; cases hflip)
    (auto simp: bpp32[of A8R8G8B8] intro!: keeps_put_list keeps_Store)

lemma length_CardMultiply [simp]: "length (CardMultiply color cards) = length cards"
  by (simp add: CardMultiply_def Let_def split: prod.split)

section \<open>Operations on rows\<close>

lemma shape_step:
  assumes "same_shape b b'" and "0 \<le> y" and "y < int (bm_h b)" and "0 \<le> x" and "x + w \<le> int (bm_w b)" and "0 \<le> w"
    and "keeps_row (pixelsize (bm_fmt b)) (nat x) (nat w) f"
  shows "same_shape b (set_line b' y (f (Line b' y)))"
proof -
  have b': "canvas_ok b'" "bm_w b' = bm_w b" "bm_h b' = bm_h b" "bm_fmt b' = bm_fmt b"
    using assms(1) by (simp_all add: same_shape_def)
  then have l: "length (Line b' y) = pitch_of (bm_w b') (bm_fmt b')"
    using assms(2,3) by (simp add: canvas_ok_def bitmap_ok_def Line_def nat_less_iff)
  have "nat x + nat w \<le> bm_w b" using assms(4-6) by simp
  then have "pixelsize (bm_fmt b) * (nat x + nat w) \<le> pixelsize (bm_fmt b) * bm_w b" by (rule mult_le_mono2)
  also have "\<dots> \<le> length (Line b' y)" using l b' pitch_holds_row[of "bm_w b" "bm_fmt b"] by (simp add: mult.commute)
  finally have "length (f (Line b' y)) = length (Line b' y)" using assms(7) by (simp add: keeps_row_def)
  then show ?thesis using set_line_ok[OF b'(1), of "f (Line b' y)" y] l b' by (simp add: same_shape_def)
qed

lemma each_row_shape:
  assumes "canvas_ok b" and "0 \<le> y" and "0 \<le> x" and "x + w \<le> int (bm_w b)" and "0 \<le> w"
    and "y + int h \<le> int (bm_h b)"
    and "\<And>j. j < h \<Longrightarrow> keeps_row (pixelsize (bm_fmt b)) (nat x) (nat w) (f j)"
  shows "same_shape b (each_row f y h b)"
  using assms(6,7)
proof (induction h)
  case 0
  then show ?case using assms(1) by (simp add: each_row_def same_shape_refl)
next
  case (Suc h)
  then show ?case unfolding each_row_Suc Let_def
    using assms(2-5) by (intro shape_step[of _ _ _ x w]) auto
qed

text \<open>What the clipping leaves is on both bitmaps.\<close>

lemma blit_clip_inside:
  assumes "blit_clip dst src x y sx sy w h mode = Some (x', y', sx', sy', w', h')"
    and "\<not> has_flag mode PIXEL_FLAG_NOCLIP"
  shows "0 \<le> x' \<and> x' + w' \<le> int (bm_w dst) \<and> 0 \<le> sx' \<and> sx' + w' \<le> int (bm_w src) \<and> 0 < w'"
    and "0 \<le> y' \<and> y' + h' \<le> int (bm_h dst) \<and> 0 \<le> sy' \<and> sy' + h' \<le> int (bm_h src) \<and> 0 < h'"
proof -
  note C = blit_clip_Some[OF assms]
  have "0 \<le> x' \<and> x' + (sx' + w' - sx') \<le> int (bm_w dst) \<and> 0 \<le> sx' \<and> sx' + w' \<le> int (bm_w src)"
    by (rule goes_to_ends[where flip = "has_flag mode PIXEL_FLAG_HFLIP"]) (use C(1,3) in \<open>simp, blast\<close>)
  then show "0 \<le> x' \<and> x' + w' \<le> int (bm_w dst) \<and> 0 \<le> sx' \<and> sx' + w' \<le> int (bm_w src) \<and> 0 < w'"
    using C(1) by simp
  have "0 \<le> y' \<and> y' + (sy' + h' - sy') \<le> int (bm_h dst) \<and> 0 \<le> sy' \<and> sy' + h' \<le> int (bm_h src)"
    by (rule goes_to_ends[where flip = "has_flag mode PIXEL_FLAG_VFLIP"]) (use C(2,4) in \<open>simp, blast\<close>)
  then show "0 \<le> y' \<and> y' + h' \<le> int (bm_h dst) \<and> 0 \<le> sy' \<and> sy' + h' \<le> int (bm_h src) \<and> 0 < h'"
    using C(2) by simp
qed

lemma Fill_shape: "canvas_ok b \<Longrightarrow> same_shape b (Fill x y w h c b)"
proof -
  assume b: "canvas_ok b"
  have r: "same_shape b (each_row (\<lambda>j r. put_list (px_put (pixelsize (bm_fmt b))) r (nat x) (replicate (nat w) c)) y (nat h) b)"
    if "0 \<le> x" "0 \<le> y" "x + w \<le> int (bm_w b)" "y + h \<le> int (bm_h b)" for x y w h
  proof (cases "0 < w \<and> 0 < h")
    case True
    then show ?thesis using that b by (intro each_row_shape[of _ _ x w] keeps_put_list) auto
  next
    case False
    have "put_list (px_put (pixelsize (bm_fmt b))) r (nat x) (replicate (nat w) c) = r" if "w \<le> 0" for r
      using that by simp
    moreover have "each_row (\<lambda>j r. r) y n b = b" for n
      by (induction n) (simp_all add: each_row_Suc set_line_def Line_def, simp add: each_row_def)
    moreover have "each_row f y 0 b = b" for f by (simp add: each_row_def)
    ultimately have "each_row (\<lambda>j r. put_list (px_put (pixelsize (bm_fmt b))) r (nat x) (replicate (nat w) c)) y (nat h) b = b"
      using False by (cases "w \<le> 0") (simp_all)
    then show ?thesis using b by (simp add: same_shape_refl)
  qed
  obtain w1 x1 where x1: "(if x < 0 then (w + x, 0) else (w, x)) = (w1, x1)" "0 \<le> x1" by (cases "x < 0") auto
  obtain h1 y1 where y1: "(if y < 0 then (h + y, 0) else (h, y)) = (h1, y1)" "0 \<le> y1" by (cases "y < 0") auto
  show ?thesis unfolding Fill_def Let_def x1(1) y1(1) split_conv
    using r[OF x1(2) y1(2)] b by (simp add: same_shape_refl)
qed

lemma row_long:
  assumes "canvas_ok src" and "0 \<le> y" and "y < int (bm_h src)" and "0 \<le> x" and "0 < w" and "x + w \<le> int (bm_w src)"
  shows "pixelsize (bm_fmt src) * (nat x + nat w) \<le> length (Line src y)"
proof -
  have "nat x + nat w \<le> bm_w src" using assms by simp
  then have "pixelsize (bm_fmt src) * (nat x + nat w) \<le> pixelsize (bm_fmt src) * bm_w src" by (rule mult_le_mono2)
  moreover have "length (Line src y) = pitch_of (bm_w src) (bm_fmt src)"
    using assms(1-3) by (simp add: canvas_ok_def bitmap_ok_def Line_def nat_less_iff)
  moreover have "pixelsize (bm_fmt src) * bm_w src \<le> pitch_of (bm_w src) (bm_fmt src)"
    using pitch_holds_row[of "bm_w src" "bm_fmt src"] by (simp only: mult.commute)
  ultimately show ?thesis by linarith
qed

lemma Blit_shape:
  assumes "canvas_ok dst" and "canvas_ok src" and "\<not> has_flag mode PIXEL_FLAG_NOCLIP"
  shows "same_shape dst (snd (Blit dst x y src m sx sy w h mode))"
proof (cases "fmt_bpp (bm_fmt dst) = fmt_bpp (bm_fmt src)")
  case False
  then show ?thesis using assms(1) by (simp add: Blit_def same_shape_refl)
next
  case bpp: True
  show ?thesis
  proof (cases "blit_clip dst src x y sx sy w h mode")
    case None
    then show ?thesis using assms(1) bpp by (simp add: Blit_def same_shape_refl)
  next
    case (Some c)
    obtain x' y' sx' sy' w' h' where c: "c = (x', y', sx', sy', w', h')" by (metis prod.exhaust)
    note I = blit_clip_inside[OF Some[unfolded c] assms(3)]
    have s: "0 \<le> blit_src_row v sy' h' j" "blit_src_row v sy' h' j < int (bm_h src)" if "j < nat h'" for v j
      using that I(2) by (auto simp: blit_src_row_def)
    have "same_shape dst (BlitNormal dst x' y' src sx' sy' w' h' flip)" for flip
      unfolding BlitNormal_def same_bpp_size[OF bpp] using I assms(1,2) s
      by (intro each_row_shape[of _ _ x' w'] ) (auto simp: same_bpp_size[OF bpp] intro!: keeps_blit_row row_long)
    moreover have "same_shape dst (BlitMask dst x' y' src sx' sy' w' h' m flip)" for flip
      unfolding BlitMask_def Let_def using I assms(1)
      by (intro each_row_shape[of _ _ x' w'] keeps_put_masked) auto
    ultimately show ?thesis using Some c bpp by (simp add: Blit_def Let_def)
  qed
qed

lemma Convert_shape:
  assumes "canvas_ok dst" and "canvas_ok src" and "\<not> has_flag mode PIXEL_FLAG_NOCLIP"
  shows "same_shape dst (snd (Convert dst x y src m sx sy w h mode))"
proof (cases "blit_clip dst src x y sx sy w h mode")
  case None
  then show ?thesis using assms Blit_shape by (simp add: Convert_def same_shape_refl)
next
  case (Some c)
  obtain x' y' sx' sy' w' h' where c: "c = (x', y', sx', sy', w', h')" by (metis prod.exhaust)
  note I = blit_clip_inside[OF Some[unfolded c] assms(3)]
  have "same_shape dst (each_row (\<lambda>j. convert_row (bm_fmt dst) (bm_fmt src) f (nat x') (Line src (g j)) (nat sx') (nat w'))
      y' (nat h') dst)" for f g
    using I assms(1,2) by (intro each_row_shape[of _ _ x' w'] keeps_convert_row) (auto simp: canvas_ok_def)
  then show ?thesis using Some c Blit_shape[OF assms] by (simp add: Convert_def)
qed

lemma Blend_shape:
  assumes "canvas_ok dst" and "canvas_ok src" and "\<not> has_flag mode PIXEL_FLAG_NOCLIP"
  shows "same_shape dst (snd (Blend dst x y src m sx sy w h mode color))"
proof (cases "blit_clip dst src x y sx sy w h mode")
  case None
  then show ?thesis using assms(1) by (simp add: Blend_def same_shape_refl)
next
  case (Some c)
  obtain x' y' sx' sy' w' h' where c: "c = (x', y', sx', sy', w', h')" by (metis prod.exhaust)
  note I = blit_clip_inside[OF Some[unfolded c] assms(3)]
  have f: "bm_fmt dst \<noteq> UNKNOW" "bm_fmt src \<noteq> UNKNOW" using assms by (simp_all add: canvas_ok_def)
  show ?thesis
  proof (cases "has_flag mode PIXEL_FLAG_SRCCOPY")
    case True
    then show ?thesis using Some c Convert_shape[OF assms] by (simp add: Blend_def Let_def)
  next
    case False
    have "same_shape dst (each_row (\<lambda>j d. let s = Line src (g j) in
        if q then span_draw (bm_fmt dst) op d (nat x') (map (\<lambda>i. px_get 4 s (nat sx' + i)) [0..<nat w'])
        else let card1 = Fetch (bm_fmt src) s (nat sx') (nat w');
          card2 = (if hf then CardReverse card1 else card1);
          card3 = (if color \<noteq> 0xffffffff then CardMultiply color card2 else card2)
        in span_draw (bm_fmt dst) op d (nat x') card3) y' (nat h') dst)" for g q hf op
    proof (rule each_row_shape[of _ _ x' w'])
      show "keeps_row (pixelsize (bm_fmt dst)) (nat x') (nat w') (\<lambda>d. let s = Line src (g j) in
        if q then span_draw (bm_fmt dst) op d (nat x') (map (\<lambda>i. px_get 4 s (nat sx' + i)) [0..<nat w'])
        else let card1 = Fetch (bm_fmt src) s (nat sx') (nat w');
          card2 = (if hf then CardReverse card1 else card1);
          card3 = (if color \<noteq> 0xffffffff then CardMultiply color card2 else card2)
        in span_draw (bm_fmt dst) op d (nat x') card3)" for j
        using f(2) by (cases q) (auto simp: Let_def intro!: keeps_span_draw)
    qed (use I assms(1) in auto)
    then show ?thesis using Some c False f unfolding Blend_def by (simp add: GetDriver_def Let_def)
  qed
qed

section \<open>The scaler\<close>

definition draw_ok :: "pixel_fmt \<Rightarrow> (bytes \<Rightarrow> nat \<Rightarrow> u32 list \<Rightarrow> bytes) option \<Rightarrow> bool" where
  "draw_ok f d \<longleftrightarrow> d = None \<or> (\<exists>op. d = Some (span_draw f op))"

lemma mode_draw_ok: "f \<noteq> UNKNOW \<Longrightarrow> draw_ok f (mode_draw f mode)"
  by (auto simp: mode_draw_def GetDriver_def draw_ok_def)

lemma keeps_write_result [keeps_row_intros]:
  "draw_ok f drw \<Longrightarrow> length cards \<le> w \<Longrightarrow> keeps_row (pixelsize f) x w (write_result drw f x cards)"
  using keeps_put_list[of cards w "pixelsize f" x] keeps_Store[of cards w f x] keeps_span_draw[of cards w f x]
  by (auto simp: keeps_row_def write_result_def draw_ok_def bpp32 split: option.split)

lemma length_resample_horiz [simp]: "length (resample_horiz taps lead wtab d w x dx mem) = length mem"
  by (induction taps lead wtab d w x dx mem rule: resample_horiz.induct) (simp_all add: Let_def)

lemma tap_rows_shape:
  assumes "draw_ok (bm_fmt b) (te_draw e)" and "0 \<le> x" and "x + te_crw e \<le> int (bm_w b)" and "0 \<le> te_crw e"
    and "same_shape b dst" and "length cache = nat (te_crw e)" and "0 \<le> y" and "y + int n \<le> int (bm_h b)"
  shows "same_shape b (tap_rows e n incy x y sy l ring cache dst)"
  using assms(5-)
proof (induction n arbitrary: y sy l ring cache dst)
  case 0
  then show ?case by simp
next
  case (Suc n)
  have f: "bm_fmt dst = bm_fmt b" using Suc.prems(1) by (simp add: same_shape_def)
  have len: "length (drop (length r) (resample_horiz (te_taps e) (te_lead e) (te_wtab e) (length r) (nat (te_crw e))
      (te_lstartx e) (te_incx e) (r @ cache))) = nat (te_crw e)" for r
    using Suc.prems(2) by simp
  show ?case unfolding tap_rows.simps Let_def f
    using Suc.prems assms(1-4) len
    by (intro Suc.IH shape_step[of _ _ _ x "te_crw e"] keeps_write_result) simp_all
qed

lemma tap_scan_shape:
  assumes "canvas_ok dst" and "0 \<le> x" and "x + w \<le> int (bm_w dst)" and "0 < w"
    and "0 \<le> y" and "y + h \<le> int (bm_h dst)" and "0 < h"
  shows "same_shape dst (tap_scan taps lead wtab fresh dst x y src w h startx starty incx incy mode color)"
proof -
  have "bm_fmt dst \<noteq> UNKNOW" using assms(1) by (simp add: canvas_ok_def)
  then show ?thesis unfolding tap_scan_def Let_def
    using assms by (auto intro!: tap_rows_shape same_shape_refl mode_draw_ok)
qed

lemma length_nearest_cols [simp]: "length (nearest_cols w src x dx) = w"
  by (induction w src x dx rule: nearest_cols.induct) simp_all

lemma length_interpcol: "length (interpcol mode w src x dx) \<le> w"
  by (simp add: interpcol_def InterpolateCol_def InterpolateColNearest_def)

lemma keeps_scan_write [keeps_row_intros]:
  assumes "draw_ok f (se_draw e)"
  shows "keeps_row (pixelsize f) x (nat (se_crw e)) (scan_write e f x srcrow)"
proof -
  let ?c = "interpcol (se_mode e) (nat (se_crw e)) srcrow (se_lstartx e) (se_incx e)" and ?t = "take (nat (se_crw e)) srcrow"
  note l = length_interpcol[of "se_mode e" "nat (se_crw e)" srcrow "se_lstartx e" "se_incx e"]
  have t: "length ?t \<le> nat (se_crw e)" by simp
  have "keeps_row (pixelsize f) x (nat (se_crw e)) (write_result (se_draw e) f x ?c)"
    "keeps_row (pixelsize f) x (nat (se_crw e)) (write_result (se_draw e) f x ?t)"
    "keeps_row (pixelsize f) x (nat (se_crw e)) (\<lambda>d. Store f d x ?t)"
    by (rule keeps_write_result[OF assms l], rule keeps_write_result[OF assms t], rule keeps_Store[OF t])
  then show ?thesis using assms
    by (auto simp: keeps_row_def scan_write_def write_result_def draw_ok_def Let_def split: option.splits)
qed

lemma scan_rows_shape:
  assumes "draw_ok (bm_fmt b) (se_draw e)" and "0 \<le> x" and "x + se_crw e \<le> int (bm_w b)" and "0 \<le> se_crw e"
    and "same_shape b dst" and "0 \<le> y" and "y + int n \<le> int (bm_h b)"
  shows "same_shape b (scan_rows e n incy x y sy dst)"
  using assms(5-)
proof (induction n arbitrary: y sy dst)
  case 0
  then show ?case by simp
next
  case (Suc n)
  have f: "bm_fmt dst = bm_fmt b" using Suc.prems(1) by (simp add: same_shape_def)
  show ?case unfolding scan_rows.simps Let_def f
    using Suc.prems assms(1-4)
    by (intro Suc.IH shape_step[of _ _ _ x "se_crw e"] keeps_scan_write) simp_all
qed

lemma interp_scan_shape:
  assumes "canvas_ok dst" and "0 \<le> x" and "x + w \<le> int (bm_w dst)" and "0 < w"
    and "0 \<le> y" and "y + h \<le> int (bm_h dst)" and "0 < h"
  shows "same_shape dst (interp_scan dst x y src scw w h startx starty incx incy mode color)"
proof -
  have f: "bm_fmt dst \<noteq> UNKNOW" using assms(1) by (simp add: canvas_ok_def)
  have "same_shape dst (scan_rows \<lparr>se_src = src, se_scw = scw, se_sx = a, se_sw = b, se_crw = w,
      se_lstartx = c, se_incx = incx, se_mode = mode, se_color = color, se_draw = mode_draw (bm_fmt dst) mode\<rparr>
      (nat h) incy x y starty dst)" for a b c
    using assms f by (intro scan_rows_shape) (simp_all add: mode_draw_ok same_shape_refl)
  then show ?thesis unfolding interp_scan_def Let_def
    using assms(1) by (simp add: same_shape_refl split: prod.split)
qed

lemma scalecrop_taps_shape:
  assumes "canvas_ok dst"
  shows "same_shape dst (scalecrop_taps taps lead wtab fresh dst dx dy src scw sch crx cry crw crh mode color pm)"
proof (cases "crop_clip dst (has_flag mode PIXEL_FLAG_NOCLIP) dx dy scw sch crx cry crw crh")
  case None
  then show ?thesis using assms by (simp add: scalecrop_taps_def same_shape_refl)
next
  case (Some c)
  obtain x y cx cy w h where c: "c = (x, y, cx, cy, w, h)" by (metis prod.exhaust)
  note C = crop_clip_Some(1-12)[OF Some[unfolded c]]
  show ?thesis using assms C Some c
    by (auto simp: scalecrop_taps_def Let_def intro!: tap_scan_shape same_shape_refl split: option.split)
qed

lemma ScaleCrop_shape:
  assumes "canvas_ok dst" and "canvas_ok src" and "\<not> has_flag mode PIXEL_FLAG_NOCLIP"
  shows "same_shape dst (ScaleCrop wt fresh dst dx dy src m scw sch crx cry crw crh mode color rule)"
proof (cases "crop_clip dst (has_flag mode PIXEL_FLAG_NOCLIP) dx dy scw sch crx cry crw crh")
  case None
  then show ?thesis using assms Blend_shape[OF assms] by (simp add: ScaleCrop_def same_shape_refl)
next
  case (Some c)
  obtain x y cx cy w h where c: "c = (x, y, cx, cy, w, h)" by (metis prod.exhaust)
  note C = crop_clip_Some(1-12)[OF Some[unfolded c]]
  show ?thesis using assms C Blend_shape[OF assms] unfolding ScaleCrop_def Some c option.case split_conv
    by (auto simp: Let_def intro!: interp_scan_shape scalecrop_taps_shape same_shape_refl split: option.split)
qed

lemma NOCLIP_not_in_ada:
  "\<not> has_flag (PIXEL_FLAG_BILINEAR OR PIXEL_FLAG_SRCCOPY) PIXEL_FLAG_NOCLIP"
  "\<not> has_flag (PIXEL_FLAG_LANCZOS3 OR PIXEL_FLAG_SRCCOPY) PIXEL_FLAG_NOCLIP"
  by code_simp+

lemma ScaleCropAda_shape:
  "canvas_ok dst \<Longrightarrow> canvas_ok src \<Longrightarrow>
   same_shape dst (ScaleCropAda wt fresh pf dst dx dy src m scw sch crx cry crw crh)"
  unfolding ScaleCropAda_def Let_def using ScaleCrop_shape NOCLIP_not_in_ada by simp

section \<open>Single pixels and mirroring\<close>

lemma SetPixel_shape: "same_shape b b' \<Longrightarrow> same_shape b (SetPixel b' x y c)"
  using SetPixel_ok[of b' x y c] SetPixel_frame[of b' x y c] by (auto simp: same_shape_def)

lemma DrawLine_shape: "canvas_ok b \<Longrightarrow> same_shape b (DrawLine x1 y1 x2 y2 c b)"
proof -
  have "same_shape b b' \<Longrightarrow> same_shape b (fold (\<lambda>(x, y) b. SetPixel b x y c) ps b')" for ps b'
    by (induction ps arbitrary: b') (auto simp: SetPixel_shape)
  then show "canvas_ok b \<Longrightarrow> same_shape b (DrawLine x1 y1 x2 y2 c b)"
    by (simp add: DrawLine_def same_shape_refl)
qed

lemma keeps_px_put: "keeps_row ps x 1 (\<lambda>d. px_put ps d x c)"
  by (auto simp: keeps_row_def length_px_put algebra_simps)

lemma SetColor_shape: "canvas_ok b \<Longrightarrow> same_shape b (SetColor b x y c)"
proof -
  assume b: "canvas_ok b"
  have "same_shape b (set_line b y (px_put (pixelsize (bm_fmt b)) (Line b y) (nat x) k))" if "in_bitmap b x y" for k
    using that b keeps_px_put
    by (intro shape_step[of _ _ _ x 1 "\<lambda>d. px_put (pixelsize (bm_fmt b)) d (nat x) k"])
      (auto simp: in_bitmap_def same_shape_refl)
  then show ?thesis using b by (simp add: SetColor_def same_shape_refl Let_def)
qed

lemma FlipHorizontal_shape: "canvas_ok b \<Longrightarrow> same_shape b (FlipHorizontal b)"
proof -
  assume b: "canvas_ok b"
  let ?ps = "pixelsize (bm_fmt b)"
  have len: "length (swap_ends (px_get ps) (px_put ps) r x1 x2) = length r" if "ps * (x2 + 1) \<le> length r" for ps r x1 x2
    using that
  proof (induction x2 arbitrary: r x1)
    case (Suc x2)
    show ?case
    proof (cases "x1 < Suc x2")
      case True
      then have "ps * x1 + ps \<le> ps * Suc x2" by (metis Suc_leI add.commute mult_Suc_right mult_le_mono2)
      moreover have "ps * Suc x2 + ps \<le> length r" using Suc.prems by (simp add: algebra_simps)
      ultimately have "ps * x1 + ps \<le> length r" "ps * Suc x2 + ps \<le> length r" by linarith+
      then show ?thesis using True Suc by (simp add: length_px_put)
    qed simp
  qed simp
  have "length (if bm_w b = 0 then r else swap_ends (px_get ?ps) (px_put ?ps) r 0 (bm_w b - 1)) =
      pitch_of (bm_w b) (bm_fmt b)" if "r \<in> set (bm_lines b)" for r
  proof -
    have l: "length r = pitch_of (bm_w b) (bm_fmt b)" using b that by (simp add: canvas_ok_def bitmap_ok_def)
    then have "?ps * bm_w b \<le> length r" using pitch_holds_row[of "bm_w b" "bm_fmt b"] by (simp only: mult.commute)
    then show ?thesis using l len[of ?ps "bm_w b - 1" r 0] by (cases "bm_w b") simp_all
  qed
  then show ?thesis using b
    by (auto simp: FlipHorizontal_def Let_def same_shape_def canvas_ok_def bitmap_ok_def)
qed

lemma FlipVertical_shape: "canvas_ok b \<Longrightarrow> same_shape b (FlipVertical b)"
  by (auto simp: FlipVertical_rev canvas_ok_def same_shape_def bitmap_ok_def)

text \<open>
  Bitmaps are well formed, and stay so under everything that draws on them: any operation, with
  any clipped rectangle, blending mode, scale or crop, leaves a bitmap of the same size and format
  whose rows have their length, so that no write leaves its row.  Coordinates are not bounded, and
  a row outside the bitmap is no change: writes above and below are not what is shown here.
\<close>

theorem drawing_keeps_shape:
  assumes "canvas_ok b" and "canvas_ok src" and "\<not> has_flag mode PIXEL_FLAG_NOCLIP"
    and "b' \<in> {SetPixel b x y c, SetColor b x y c, DrawLine x y w h c b, Fill x y w h c b,
      FlipHorizontal b, FlipVertical b, snd (Blit b x y src m sx sy w h mode),
      snd (Convert b x y src m sx sy w h mode), snd (Blend b x y src m sx sy w h mode c),
      ScaleCrop wt fresh b x y src m scw sch sx sy w h mode c rule,
      ScaleCropAda wt fresh pf b x y src m scw sch sx sy w h}"
  shows "canvas_ok b' \<and> bm_w b' = bm_w b \<and> bm_h b' = bm_h b \<and> bm_fmt b' = bm_fmt b"
proof -
  have "same_shape b b'" using assms(4)
    by (auto simp: assms(1-3) SetPixel_shape same_shape_refl SetColor_shape DrawLine_shape Fill_shape
        FlipHorizontal_shape FlipVertical_shape Blit_shape Convert_shape Blend_shape ScaleCrop_shape
        ScaleCropAda_shape)
  then show ?thesis by (simp add: same_shape_def)
qed

theorem drawing_keeps_shape_witness:
  "canvas_ok (snd (Blend (one_pixel 7) (- 3) 0 (one_pixel 9) 0 0 0 5 5 0 0x80ffffff))"
proof -
  have h: "canvas_ok (one_pixel 7)" "canvas_ok (one_pixel 9)" "\<not> has_flag 0 PIXEL_FLAG_NOCLIP" by code_simp+
  from drawing_keeps_shape[OF h, of "snd (Blend (one_pixel 7) (- 3) 0 (one_pixel 9) 0 0 0 5 5 0 0x80ffffff)"
      "- 3" 0 "0x80ffffff" 5 5 0 0 0 "\<lambda>_. []" "\<lambda>_. 0" 1 1 None "\<lambda>_ _. None"]
  show ?thesis by simp
qed

end
