(* ===== verification/Scale_Show.thy ===== *)
theory Scale_Show
  imports Shapes
begin

text \<open>
  What \<open>ScaleCropAda\<close> shows: each result pixel is a function of the picture, the scaled size and
  the pixel's position in the scaled picture, and of nothing else. The crop rectangle, the
  buffers, the ring of rows and the allocated part of an averaged picture leave no trace, so
  that a window that scrolls and paints strips shows one picture.
\<close>

unbundle bit_operations_syntax

section \<open>Interpolation as a function of the position\<close>

text \<open>
  The reference for the interpolating scan, over any function from columns and rows to cards.
\<close>

definition opaque_px :: "pixel_fmt \<Rightarrow> u32 \<Rightarrow> u32" where
  "opaque_px f p = (if f = X8R8G8B8 then (p AND 0x00ffffff) OR push_bit 24 (0xff AND 0xff) else p)"

definition between_rows :: "(int \<Rightarrow> int \<Rightarrow> u32) \<Rightarrow> int \<Rightarrow> pixel_fmt \<Rightarrow> int \<Rightarrow> int \<Rightarrow> u32" where
  "between_rows f h fmt cy c =
     opaque_px fmt (lerp_px cy (f c (clamp_row (fix_int cy) h)) (f c (clamp_row (fix_int cy + 1) h)))"

definition bilinear_pixel :: "(int \<Rightarrow> int \<Rightarrow> u32) \<Rightarrow> int \<Rightarrow> int \<Rightarrow> pixel_fmt \<Rightarrow> int \<Rightarrow> int \<Rightarrow> u32" where
  "bilinear_pixel f w h fmt cx cy =
     lerp_px cx (between_rows f h fmt cy (clamp_row (fix_int cx) w))
       (between_rows f h fmt cy (clamp_row (fix_int cx + 1) w))"

definition scan_ok :: "scan_env \<Rightarrow> bool" where
  "scan_ok e \<longleftrightarrow> canvas_ok (se_src e) \<and> 0 < bm_h (se_src e) \<and> 0 \<le> se_sx e \<and> 0 < se_sw e \<and>
     se_sx e + se_sw e \<le> int (bm_w (se_src e)) \<and> has_flag (se_mode e) PIXEL_FLAG_BILINEAR \<and>
     \<not> has_flag (se_mode e) PIXEL_FLAG_HFLIP \<and> \<not> has_flag (se_mode e) PIXEL_FLAG_VFLIP \<and>
     se_color e = 0xffffffff \<and> se_draw e = None"

lemma scan_row_eq:
  assumes "scan_ok e" and "0 \<le> y" and "y < int (bm_h (se_src e))"
  shows "scan_row e y = map (\<lambda>i. card_at (se_src e) (se_sx e + int i) y) [0..<nat (se_sw e)]"
proof -
  have "bm_fmt (se_src e) \<noteq> UNKNOW" using assms(1) by (simp add: scan_ok_def canvas_ok_def)
  then show ?thesis using assms RowFetch_inside[of "se_src e" "se_sx e" "se_sw e" y "replicate (nat (se_sw e)) 0"]
    by (simp add: scan_row_def scan_ok_def card_at_def Fetch_def nat_add_distrib)
qed

lemma lerp_px_mod: "lerp_px (x mod 65536) = lerp_px x"
proof -
  have "x mod 65536 div 256 = x div 256 mod 256"
    using zmod_zmult2_eq[of 256 x 256] by simp
  then have "fix_frac (x mod 65536) = fix_frac x" by (simp add: fix_frac_def)
  then show ?thesis by (simp add: lerp_px_def frac_word_def fun_eq_iff)
qed

lemma lerp_px_shift: "lerp_px (x - k * 65536) = lerp_px x"
  by (simp add: lerp_px_def frac_word_def fix_frac_shift fun_eq_iff)

lemma scan_srcrow_eq:
  assumes "scan_ok e"
  shows "scan_srcrow e cy =
    map (\<lambda>k. between_rows (card_at (se_src e)) (int (bm_h (se_src e))) (bm_fmt (se_src e)) cy
        (se_sx e + int k)) ([0..<nat (se_sw e)] @ [nat (se_sw e) - 1, nat (se_sw e) - 1])"
proof -
  let ?src = "se_src e" and ?h = "int (bm_h (se_src e))" and ?n = "nat (se_sw e)"
  let ?y1 = "clamp_row (fix_int cy) ?h" and ?y2 = "clamp_row (fix_int cy + 1) ?h"
  have h: "0 < ?h" using assms by (simp add: scan_ok_def)
  have c: "(if y < 0 then 0 else if y > ?h - 1 then ?h - 1 else y) = clamp_row y ?h" for y
    by (simp add: clamp_row_def)
  have y: "0 \<le> ?y1" "?y1 < ?h" "0 \<le> ?y2" "?y2 < ?h" using clamp_row_range[OF h] by simp_all
  note rows = scan_row_eq[OF assms y(1,2)] scan_row_eq[OF assms y(3,4)]
  have R: "interprow (se_mode e) ?n (fmt_bpp (bm_fmt ?src) = 32 \<and> ?y1 = ?y2) (scan_row e ?y1) (scan_row e ?y2)
      (cy mod 65536) = map2 (lerp_px cy) (scan_row e ?y1) (scan_row e ?y2)"
    using assms InterpolateRow_eq[of "fmt_bpp (bm_fmt ?src) = 32 \<and> ?y1 = ?y2" "scan_row e ?y1" "scan_row e ?y2"
        ?n "cy mod 65536"]
    by (simp add: interprow_def scan_ok_def rows lerp_px_mod)
  define row where "row = map (\<lambda>k. between_rows (card_at ?src) ?h (bm_fmt ?src) cy (se_sx e + int k)) [0..<?n]"
  have M: "(if bm_fmt ?src = X8R8G8B8 then CardSetAlpha 0xff (map2 (lerp_px cy) (scan_row e ?y1) (scan_row e ?y2))
      else map2 (lerp_px cy) (scan_row e ?y1) (scan_row e ?y2)) = row"
    unfolding rows row_def
    by (simp add: map2_map_map CardSetAlpha_def between_rows_def opaque_px_def)
  have n: "0 < ?n" using assms by (simp add: scan_ok_def)
  have flags: "\<not> has_flag (se_mode e) PIXEL_FLAG_HFLIP" "\<not> has_flag (se_mode e) PIXEL_FLAG_VFLIP"
    "se_color e = 0xffffffff" using assms by (simp_all add: scan_ok_def)
  have "scan_srcrow e cy = row @ [row ! (?n - 1), row ! (?n - 1)]"
    using flags unfolding scan_srcrow_def Let_def
    by (simp only: c R M if_True if_False not_False_eq_True simp_thms)
  moreover have "row ! (?n - 1) = between_rows (card_at ?src) ?h (bm_fmt ?src) cy (se_sx e + int (?n - 1))"
    using n by (simp add: row_def)
  ultimately show ?thesis by (simp add: row_def)
qed

text \<open>
  The columns: every position of the crop reads two elements of the row that hold, or repeat,
  the columns around it.
\<close>

definition scan_cols :: "scan_env \<Rightarrow> int \<Rightarrow> u32 list" where
  "scan_cols e cy = InterpolateCol (nat (se_crw e)) (scan_srcrow e cy) (se_lstartx e) (se_incx e)"

definition cols_ok :: "scan_env \<Rightarrow> int \<Rightarrow> bool" where
  "cols_ok e startx \<longleftrightarrow> 0 \<le> startx \<and> 0 \<le> se_incx e \<and> se_lstartx e = startx - se_sx e * 65536 \<and>
     se_sx e * 65536 \<le> startx \<and>
     (\<forall>i < nat (se_crw e). fix_int (startx + int i * se_incx e) \<le> se_sx e + se_sw e) \<and>
     (\<forall>i < nat (se_crw e). se_sx e + se_sw e = int (bm_w (se_src e)) \<or>
        fix_int (startx + int i * se_incx e) + 1 < se_sx e + se_sw e)"

lemma scan_write_eq:
  assumes "scan_ok e" and "se_scw e \<noteq> int (bm_w (se_src e))"
  shows "scan_write e f x (scan_srcrow e cy) row = write_result None f x (scan_cols e cy) row"
  using assms by (simp add: scan_write_def scan_ok_def write_result_def scan_cols_def interpcol_def Let_def)

lemma scan_srcrow_nth:
  assumes "scan_ok e" and "0 \<le> j" and "j < se_sw e + 2"
    and "se_sx e + se_sw e = int (bm_w (se_src e)) \<or> j < se_sw e"
  shows "scan_srcrow e cy ! nat j = between_rows (card_at (se_src e)) (int (bm_h (se_src e)))
    (bm_fmt (se_src e)) cy (clamp_row (se_sx e + j) (int (bm_w (se_src e))))"
proof -
  let ?n = "nat (se_sw e)" and ?b = "between_rows (card_at (se_src e)) (int (bm_h (se_src e))) (bm_fmt (se_src e)) cy"
  have s: "0 \<le> se_sx e" "0 < se_sw e" "se_sx e + se_sw e \<le> int (bm_w (se_src e))"
    using assms(1) by (simp_all add: scan_ok_def)
  have "scan_srcrow e cy ! nat j = ?b (se_sx e + int (([0..<?n] @ [?n - 1, ?n - 1]) ! nat j))"
    unfolding scan_srcrow_eq[OF assms(1)] using assms(2,3) by (subst nth_map) auto
  moreover have "se_sx e + int (([0..<?n] @ [?n - 1, ?n - 1]) ! nat j) =
      clamp_row (se_sx e + j) (int (bm_w (se_src e)))"
  proof (cases "j < se_sw e")
    case True
    then show ?thesis using assms(2) s by (simp add: nth_append clamp_row_def)
  next
    case False
    then have "nat j - ?n = 0 \<or> nat j - ?n = 1" using assms(2,3) by linarith
    then have "([0..<?n] @ [?n - 1, ?n - 1]) ! nat j = ?n - 1"
      using False by (auto simp: nth_append)
    then show ?thesis using False assms(4) s by (simp add: clamp_row_def)
  qed
  ultimately show ?thesis by (simp only:)
qed

lemma scan_cols_positions:
  assumes "scan_ok e" and "cols_ok e startx" and "i < nat (se_crw e)"
  shows "fix_int (se_lstartx e + int i * se_incx e) = fix_int (startx + int i * se_incx e) - se_sx e"
    and "0 \<le> fix_int (se_lstartx e + int i * se_incx e)"
    and "fix_int (se_lstartx e + int i * se_incx e) + 1 < se_sw e + 2"
    and "se_sx e + se_sw e = int (bm_w (se_src e)) \<or> fix_int (se_lstartx e + int i * se_incx e) + 1 < se_sw e"
proof -
  have l: "se_lstartx e + int i * se_incx e = startx + int i * se_incx e - se_sx e * 65536"
    and p: "0 \<le> se_lstartx e" "0 \<le> int i * se_incx e"
    using assms(2) by (auto simp: cols_ok_def)
  show f: "fix_int (se_lstartx e + int i * se_incx e) = fix_int (startx + int i * se_incx e) - se_sx e"
    unfolding l by (rule fix_int_shift)
  show "0 \<le> fix_int (se_lstartx e + int i * se_incx e)" using p by (intro fix_int_nonneg) simp
  show "fix_int (se_lstartx e + int i * se_incx e) + 1 < se_sw e + 2"
    using assms(2,3) unfolding f cols_ok_def by force
  show "se_sx e + se_sw e = int (bm_w (se_src e)) \<or> fix_int (se_lstartx e + int i * se_incx e) + 1 < se_sw e"
    using assms(2,3) unfolding f cols_ok_def by force
qed

lemma scan_cols_nth:
  assumes "scan_ok e" and "cols_ok e startx" and "i < nat (se_crw e)"
  shows "scan_cols e cy ! i = bilinear_pixel (card_at (se_src e)) (int (bm_w (se_src e)))
    (int (bm_h (se_src e))) (bm_fmt (se_src e)) (startx + int i * se_incx e) cy"
proof -
  let ?x = "startx + int i * se_incx e" and ?l = "se_lstartx e + int i * se_incx e"
  note P = scan_cols_positions[OF assms]
  have n: "length (scan_srcrow e cy) = nat (se_sw e) + 2" by (simp add: scan_srcrow_eq[OF assms(1)])
  have l0: "0 \<le> fix_int (se_lstartx e)" using assms(2) by (intro fix_int_nonneg) (simp add: cols_ok_def)
  have lx: "?l = ?x - se_sx e * 65536" using assms(2) by (simp add: cols_ok_def)
  have r: "scan_srcrow e cy ! nat (fix_int ?l + d) = between_rows (card_at (se_src e)) (int (bm_h (se_src e)))
      (bm_fmt (se_src e)) cy (clamp_row (fix_int ?x + d) (int (bm_w (se_src e))))" if "d = 0 \<or> d = 1" for d
  proof -
    have q: "se_sx e + (fix_int ?l + d) = fix_int ?x + d" using P(1) by simp
    show ?thesis unfolding q[symmetric] using P(2-4) that by (intro scan_srcrow_nth[OF assms(1)]) auto
  qed
  have "fix_int ?l < int (length (scan_srcrow e cy))" using P(3) n by simp
  from InterpolateCol_nth[OF assms(3) l0 this] r[of 0] r[of 1] show ?thesis
    unfolding scan_cols_def bilinear_pixel_def lx lerp_px_shift by (simp add: lx)
qed

lemma length_scan_cols:
  assumes "scan_ok e" and "cols_ok e startx"
  shows "length (scan_cols e cy) = nat (se_crw e)"
  unfolding scan_cols_def
proof (rule length_InterpolateCol)
  have n: "length (scan_srcrow e cy) = nat (se_sw e) + 2" by (simp add: scan_srcrow_eq[OF assms(1)])
  show "fix_int (se_lstartx e + int i * se_incx e) < int (length (scan_srcrow e cy))" if "i < nat (se_crw e)" for i
    using scan_cols_positions(3)[OF assms that] n by simp
  show "0 \<le> fix_int (se_lstartx e)" using assms(2) by (intro fix_int_nonneg) (simp add: cols_ok_def)
qed

section \<open>The rows of the scan\<close>

lemma scan_rows_frame:
  "bm_w (scan_rows e n incy dx dy sy dst) = bm_w dst \<and> bm_h (scan_rows e n incy dx dy sy dst) = bm_h dst \<and>
   bm_fmt (scan_rows e n incy dx dy sy dst) = bm_fmt dst \<and>
   length (bm_lines (scan_rows e n incy dx dy sy dst)) = length (bm_lines dst)"
  by (induction e n incy dx dy sy dst rule: scan_rows.induct) (simp_all add: Let_def set_line_def)

lemma scan_rows_lines:
  assumes "scan_ok e" and "se_scw e \<noteq> int (bm_w (se_src e))"
    and "length (bm_lines dst) = bm_h dst" and "0 \<le> dy" and "dy + int n \<le> int (bm_h dst)" and "0 \<le> v"
  shows "Line (scan_rows e n incy dx dy starty dst) v =
    (if dy \<le> v \<and> v < dy + int n
     then write_result None (bm_fmt dst) (nat dx) (scan_cols e (starty + (v - dy) * incy)) (Line dst v)
     else Line dst v)"
  using assms(3-)
proof (induction n arbitrary: dy starty dst)
  case 0
  then show ?case by auto
next
  case (Suc n)
  define d where "d = set_line dst dy
    (write_result None (bm_fmt dst) (nat dx) (scan_cols e starty) (Line dst dy))"
  have "\<not> has_flag (se_mode e) PIXEL_FLAG_VFLIP" using assms(1) by (simp add: scan_ok_def)
  then have e: "scan_rows e (Suc n) incy dx dy starty dst = scan_rows e n incy dx (dy + 1) (starty + incy) d"
    by (simp add: Let_def d_def scan_write_eq[OF assms(1,2)])
  have fd: "bm_h d = bm_h dst" "bm_fmt d = bm_fmt dst" "length (bm_lines d) = bm_h d"
    using Suc.prems by (simp_all add: d_def set_line_def)
  have ld: "Line d u = (if u = dy then write_result None (bm_fmt dst) (nat dx) (scan_cols e starty) (Line dst dy)
      else Line dst u)" if "0 \<le> u" for u
    unfolding d_def using Suc.prems that by (intro set_line_nth) auto
  have s: "starty + incy + (v - (dy + 1)) * incy = starty + (v - dy) * incy" by (simp add: algebra_simps)
  have "Line (scan_rows e n incy dx (dy + 1) (starty + incy) d) v =
      (if dy + 1 \<le> v \<and> v < dy + 1 + int n
       then write_result None (bm_fmt d) (nat dx) (scan_cols e (starty + incy + (v - (dy + 1)) * incy)) (Line d v)
       else Line d v)"
    using Suc.prems fd by (intro Suc.IH) simp_all
  from this[unfolded s] show ?case unfolding e using ld[OF Suc.prems(4)] fd(2) by auto
qed

lemma scan_columns:
  fixes startx incx crw src_w :: int
  assumes "0 \<le> startx" and "0 \<le> incx" and "0 < crw" and "0 < src_w"
    and "fix_int (startx + (crw - 1) * incx) \<le> src_w"
  defines "lo \<equiv> (if fix_int startx < 0 then 0 else if fix_int startx > src_w - 1 then src_w - 1 else fix_int startx)"
    and "hi \<equiv> (if fix_int (startx + (crw - 1) * incx) < 0 then 0
      else if fix_int (startx + (crw - 1) * incx) > src_w - 1 then src_w - 1
      else fix_int (startx + (crw - 1) * incx))"
  defines "n \<equiv> (if lo + (hi - lo + 2) > src_w then src_w - lo else hi - lo + 2)"
  shows "0 \<le> lo" "0 < n" "lo + n \<le> src_w" "lo * 65536 \<le> startx"
    "i < nat crw \<Longrightarrow> fix_int (startx + int i * incx) \<le> lo + n"
    "i < nat crw \<Longrightarrow> lo + n = src_w \<or> fix_int (startx + int i * incx) + 1 < lo + n"
proof -
  let ?m = "fix_int (startx + (crw - 1) * incx)"
  have f0: "0 \<le> fix_int startx" using assms(1) by (rule fix_int_nonneg)
  have "0 \<le> (crw - 1) * incx" using assms(2,3) by simp
  then have m: "fix_int startx \<le> ?m" by (intro fix_int_mono) simp
  have fi: "fix_int (startx + int i * incx) \<le> ?m" if "i < nat crw" for i
    using that assms(2,3) by (intro fix_int_mono add_left_mono mult_right_mono) auto
  show "0 \<le> lo" using assms(4) by (simp add: lo_def)
  show "0 < n" "lo + n \<le> src_w" using assms(4) f0 m by (auto simp: lo_def hi_def n_def)
  have "fix_int startx * 65536 \<le> startx" using div_mult_mod_eq[of startx 65536] pos_mod_sign[of 65536 startx]
    by (simp only: fix_int_def)
  moreover have "lo \<le> fix_int startx" using f0 by (auto simp: lo_def)
  ultimately show "lo * 65536 \<le> startx" by linarith
  show "fix_int (startx + int i * incx) \<le> lo + n" if "i < nat crw"
    using fi[OF that] f0 m assms(5) by (auto simp: lo_def hi_def n_def)
  show "lo + n = src_w \<or> fix_int (startx + int i * incx) + 1 < lo + n" if "i < nat crw"
    using fi[OF that] f0 m assms(5) by (auto simp: lo_def hi_def n_def)
qed

lemma interp_scan_pixel:
  assumes ok: "canvas_ok dst" "canvas_ok src" "0 < bm_w src" "0 < bm_h src"
    and mode: "has_flag mode PIXEL_FLAG_BILINEAR" "\<not> has_flag mode PIXEL_FLAG_HFLIP"
      "\<not> has_flag mode PIXEL_FLAG_VFLIP" "mode_draw (bm_fmt dst) mode = None"
    and rect: "0 \<le> x" "x + w \<le> int (bm_w dst)" "0 < w" "0 \<le> y" "y + h \<le> int (bm_h dst)" "0 < h"
    and pos: "0 \<le> incx" "0 \<le> startx" "fix_int (startx + (w - 1) * incx) \<le> int (bm_w src)"
    and scw: "scw \<noteq> int (bm_w src)" and t: "in_bitmap dst t s"
  shows "GetPixel (interp_scan dst x y src scw w h startx starty incx incy mode 0xffffffff) t s =
    (if x \<le> t \<and> t < x + w \<and> y \<le> s \<and> s < y + h
     then out_px (bm_fmt dst) (bilinear_pixel (card_at src) (int (bm_w src)) (int (bm_h src)) (bm_fmt src)
       (startx + (t - x) * incx) (starty + (s - y) * incy))
     else GetPixel dst t s)"
proof -
  let ?W = "int (bm_w src)" and ?ps = "pixelsize (bm_fmt dst)"
  define lo hi where "lo = (if fix_int startx < 0 then 0 else if fix_int startx > ?W - 1 then ?W - 1 else fix_int startx)"
    and "hi = (if fix_int (startx + (w - 1) * incx) < 0 then 0
      else if fix_int (startx + (w - 1) * incx) > ?W - 1 then ?W - 1 else fix_int (startx + (w - 1) * incx))"
  define n where "n = (if lo + (hi - lo + 2) > ?W then ?W - lo else hi - lo + 2)"
  define e where "e = \<lparr>se_src = src, se_scw = scw, se_sx = lo, se_sw = n, se_crw = w,
    se_lstartx = startx - lo * 65536, se_incx = incx, se_mode = mode, se_color = 0xffffffff,
    se_draw = mode_draw (bm_fmt dst) mode\<rparr>"
  have fe: "se_src e = src" "se_scw e = scw" "se_sx e = lo" "se_sw e = n" "se_crw e = w"
    "se_lstartx e = startx - lo * 65536" "se_incx e = incx" "se_mode e = mode" "se_color e = 0xffffffff"
    "se_draw e = None" by (simp_all add: e_def mode)
  note C = scan_columns[OF pos(2,1) rect(3) _ pos(3), folded lo_def hi_def, folded n_def]
  have W: "0 < ?W" using ok(3) by simp
  have eok: "scan_ok e" using ok mode C(1-3)[OF W] by (simp add: scan_ok_def fe)
  have cok: "cols_ok e startx" using pos C(4-6)[OF W] by (auto simp: cols_ok_def fe)
  have S: "interp_scan dst x y src scw w h startx starty incx incy mode 0xffffffff =
      scan_rows e (nat h) incy x y starty dst"
  proof -
    have "\<not> lo < 0" "\<not> n \<le> 0" using C(1,2)[OF W] by simp_all
    then show ?thesis using mode(2)
      unfolding interp_scan_def Let_def lo_def[symmetric] hi_def[symmetric]
      by (simp only: if_False if_True not_False_eq_True n_def[symmetric] e_def[symmetric] split_conv)
  qed
  have ts: "0 \<le> t" "t < int (bm_w dst)" "0 \<le> s" "s < int (bm_h dst)" using t by (simp_all add: in_bitmap_def)
  let ?c = "scan_cols e (starty + (s - y) * incy)"
  have L: "Line (scan_rows e (nat h) incy x y starty dst) s = (if y \<le> s \<and> s < y + int (nat h)
      then write_result None (bm_fmt dst) (nat x) ?c (Line dst s) else Line dst s)"
    using ok(1) rect(4-6) ts scw by (intro scan_rows_lines[OF eok]) (auto simp: fe canvas_ok_def bitmap_ok_def)
  have len: "length ?c = nat w" using length_scan_cols[OF eok cok] fe(5) by simp
  have R: "px_get ?ps (write_result None (bm_fmt dst) (nat x) ?c (Line dst s)) (nat t) =
      (if nat x \<le> nat t \<and> nat t < nat x + nat w then out_px (bm_fmt dst) (?c ! (nat t - nat x))
       else px_get ?ps (Line dst s) (nat t))"
    using write_result_px[of "bm_fmt dst" "nat x" ?c "Line dst s" "nat t"] ok(1)
      px_width_line[OF ok(1) ts(3,4)] rect(1-3) ts len by (auto simp: canvas_ok_def)
  have N: "?c ! (nat t - nat x) = bilinear_pixel (card_at src) ?W (int (bm_h src)) (bm_fmt src)
      (startx + (t - x) * incx) (starty + (s - y) * incy)" if "x \<le> t" "t < x + w"
  proof -
    have i: "nat t - nat x = nat (t - x)" "nat (t - x) < nat w" "int (nat (t - x)) = t - x"
      using that rect(1) by auto
    show ?thesis using scan_cols_nth[OF eok cok, of "nat (t - x)"] i by (simp add: fe)
  qed
  have "nat x \<le> nat t \<and> nat t < nat x + nat w \<longleftrightarrow> x \<le> t \<and> t < x + w" using ts rect by auto
  then show ?thesis using t L R N rect(6) scan_rows_frame[of e "nat h" incy x y starty dst]
    unfolding S by (auto simp: GetPixel_def in_bitmap_def)
qed

section \<open>The box filter averages blocks of the whole picture\<close>

text \<open>
  Block \<open>(I, J)\<close> of the grid that starts at the picture's origin, whatever part is filtered.
\<close>

definition block_sum :: "(int \<Rightarrow> int \<Rightarrow> u32) \<Rightarrow> nat \<Rightarrow> nat \<Rightarrow> nat \<Rightarrow> nat \<Rightarrow> nat \<Rightarrow> u32" where
  "block_sum f x0 x1 y0 y1 k = sum_list (map (\<lambda>y. card_sum (\<lambda>x. f (int x) (int y)) x0 x1 k) [y0..<y1])"

definition block_sums :: "(int \<Rightarrow> int \<Rightarrow> u32) \<Rightarrow> nat \<Rightarrow> nat \<Rightarrow> nat \<Rightarrow> nat \<Rightarrow> box_acc" where
  "block_sums f nx I y0 y1 =
     (let S = block_sum f (I * nx) (I * nx + nx) y0 y1 in (S 0, S 8, S 16, S 24))"

definition box_recip :: "nat \<Rightarrow> nat \<Rightarrow> u32" where
  "box_recip nx ny = (let total = word_of_nat (nx * ny) in if total > 0 then 2 ^ 22 div total else 0)"

definition box_pixel :: "(int \<Rightarrow> int \<Rightarrow> u32) \<Rightarrow> nat \<Rightarrow> nat \<Rightarrow> int \<Rightarrow> int \<Rightarrow> u32" where
  "box_pixel f nx ny I J =
     box_output (box_recip nx ny) (block_sums f nx (nat I) (nat J * ny) (nat J * ny + ny))"

lemma block_sum_Suc: "y0 \<le> y1 \<Longrightarrow>
  block_sum f x0 x1 y0 (Suc y1) k = block_sum f x0 x1 y0 y1 k + card_sum (\<lambda>x. f (int x) (int y1)) x0 x1 k"
  by (simp add: block_sum_def)

lemma card_sum_cong: "(\<And>x. x0 \<le> x \<Longrightarrow> x < x1 \<Longrightarrow> g x = h x) \<Longrightarrow> card_sum g x0 x1 k = card_sum h x0 x1 k"
  unfolding card_sum_def by (intro arg_cong[where f = sum_list] map_cong refl) auto

lemma box_accum_row_eq:
  assumes "\<And>x. ix * nx \<le> x \<Longrightarrow> x < x_end \<Longrightarrow> srow x = f (int x) (int y)"
    and "(ix + n) * nx \<le> x_end" and "y0 \<le> y"
  shows "box_accum_row srow ix nx (ix * nx) x_end (map (\<lambda>i. block_sums f nx (ix + i) y0 y) [0..<n]) =
    map (\<lambda>i. block_sums f nx (ix + i) y0 (Suc y)) [0..<n]"
proof -
  have "block_sums f nx (ix + i) y0 (Suc y) = (case block_sums f nx (ix + i) y0 y of (b, g, r, a) \<Rightarrow>
      (b + card_sum srow x0 x1 0, g + card_sum srow x0 x1 8, r + card_sum srow x0 x1 16, a + card_sum srow x0 x1 24))"
    if "i < n" "x0 = max ((ix + i) * nx) (ix * nx)" "x1 = min ((ix + i) * nx + nx) x_end" for i x0 x1
  proof -
    have "Suc (ix + i) * nx \<le> (ix + n) * nx" using that(1) by (intro mult_le_mono1) simp
    then have "(ix + i) * nx + nx \<le> x_end" using assms(2) by simp
    then have x: "x0 = (ix + i) * nx" "x1 = (ix + i) * nx + nx" using that(2,3) by simp_all
    have g: "ix * nx \<le> (ix + i) * nx" by (simp add: distrib_right)
    have "card_sum srow x0 x1 k = card_sum (\<lambda>x. f (int x) (int y)) x0 x1 k" for k
    proof (rule card_sum_cong)
      fix x assume "x0 \<le> x" "x < x1"
      then show "srow x = f (int x) (int y)" using g that(3) unfolding x(1) by (intro assms(1)) linarith+
    qed
    then show ?thesis by (simp add: block_sums_def Let_def block_sum_Suc[OF assms(3)] x)
  qed
  then show ?thesis unfolding box_accum_row_def Let_def by (intro map_cong) simp_all
qed

text \<open>The state after \<open>m\<close> rows: finished blocks are in the bitmap, the rest is accumulated.\<close>

definition box_line :: "bitmap \<Rightarrow> nat \<Rightarrow> nat \<Rightarrow> nat \<Rightarrow> nat \<Rightarrow> nat \<Rightarrow> bytes \<Rightarrow> bytes" where
  "box_line src nx ny ix n J row =
     put_list (px_put 4) row 0 (map (\<lambda>i. box_pixel (card_at src) nx ny (int (ix + i)) (int J)) [0..<n])"

definition box_at :: "bitmap \<Rightarrow> nat \<Rightarrow> nat \<Rightarrow> nat \<Rightarrow> nat \<Rightarrow> nat \<Rightarrow> bitmap \<Rightarrow> nat \<Rightarrow> box_state \<Rightarrow> bool" where
  "box_at src nx ny ix iy n bm0 m st \<longleftrightarrow>
     bx_row st = m mod ny \<and> bx_out st = m div ny \<and>
     bx_acc st = map (\<lambda>i. block_sums (card_at src) nx (ix + i) (iy * ny + m div ny * ny) (iy * ny + m)) [0..<n] \<and>
     bx_bitmap st = bm0\<lparr>bm_lines := map (\<lambda>j. if j < m div ny
       then box_line src nx ny ix n (iy + j) (bm_lines bm0 ! j) else bm_lines bm0 ! j) [0..<bm_h bm0]\<rparr>"

lemma block_sums_empty: "block_sums f nx I y y = (0, 0, 0, 0)"
  by (simp add: block_sums_def block_sum_def)

lemma box_row_cards:
  assumes "canvas_ok src" and "y < bm_h src" and "x0 \<le> x" and "x < x1"
  shows "(if fmt_bpp (bm_fmt src) = 32 then px_get 4 (Line src (int y)) x
      else Fetch (bm_fmt src) (Line src (int y)) x0 (x1 - x0) ! (x - x0)) = card_at src (int x) (int y)"
  using assms nth_Fetch[of "bm_fmt src" "x - x0" "x1 - x0"] by (simp add: card_at_def canvas_ok_def)

lemma map_prefix_step: "q < n \<Longrightarrow> (map (\<lambda>j. if j < q then f j else g j) [0..<n])[q := f q] =
    map (\<lambda>j. if j < Suc q then f j else g j) [0..<n]"
  by (rule nth_equalityI) (auto simp: nth_list_update less_Suc_eq)

lemma box_step_at:
  assumes "canvas_ok src" and "0 < ny" and "(ix + n) * nx \<le> x_end" and "iy * ny + m < bm_h src"
    and "m < h * ny" and "h = bm_h bm0" and "box_at src nx ny ix iy n bm0 m st"
  shows "box_at src nx ny ix iy n bm0 (Suc m)
    (box_step src ix nx ny (ix * nx) x_end h (box_recip nx ny) (iy * ny + m) st)"
proof -
  let ?q = "m div ny" and ?y0 = "iy * ny + m div ny * ny"
  have qm: "?y0 \<le> iy * ny + m" using div_mult_mod_eq[of m ny] by simp
  have S: "bx_row st = m mod ny" "bx_out st = ?q"
    "bx_acc st = map (\<lambda>i. block_sums (card_at src) nx (ix + i) ?y0 (iy * ny + m)) [0..<n]"
    "bx_bitmap st = bm0\<lparr>bm_lines := map (\<lambda>j. if j < ?q
       then box_line src nx ny ix n (iy + j) (bm_lines bm0 ! j) else bm_lines bm0 ! j) [0..<bm_h bm0]\<rparr>"
    using assms(7) by (simp_all add: box_at_def)
  define srow where "srow = (\<lambda>x. if fmt_bpp (bm_fmt src) = 32 then px_get 4 (Line src (int (iy * ny + m))) x
            else Fetch (bm_fmt src) (Line src (int (iy * ny + m))) (ix * nx) (x_end - ix * nx) ! (x - ix * nx))"
  have A: "box_accum_row srow ix nx (ix * nx) x_end (bx_acc st) =
      map (\<lambda>i. block_sums (card_at src) nx (ix + i) ?y0 (Suc (iy * ny + m))) [0..<n]"
    unfolding S(3) srow_def using qm by (intro box_accum_row_eq box_row_cards assms(1,3,4)) auto
  have q: "?q < h" using assms(2,5) by (simp add: less_mult_imp_div_less)
  show ?thesis
  proof (cases "Suc (m mod ny) = ny")
    case True
    have d: "Suc m mod ny = 0" "Suc m div ny = Suc ?q" using True by (simp_all add: mod_Suc div_Suc)
    have e: "iy * ny + Suc m = ?y0 + ny" using True div_mult_mod_eq[of m ny] by linarith
    have L: "Line (bx_bitmap st) (int ?q) = bm_lines bm0 ! ?q"
      using q assms(6) by (simp add: S(4) Line_def)
    have J: "nat (int (iy + ?q)) * ny = ?y0" by (simp only: nat_int distrib_right)
    have O: "map (box_output (box_recip nx ny))
        (map (\<lambda>i. block_sums (card_at src) nx (ix + i) ?y0 (Suc (iy * ny + m))) [0..<n]) =
        map (\<lambda>i. box_pixel (card_at src) nx ny (int (ix + i)) (int (iy + ?q))) [0..<n]"
    proof -
      have "Suc (iy * ny + m) = ?y0 + ny" using e by simp
      then show ?thesis unfolding box_pixel_def J[unfolded nat_int] nat_int map_map o_def by (simp only:)
    qed
    have "set_line (bx_bitmap st) (int ?q) (box_line src nx ny ix n (iy + ?q) (bm_lines bm0 ! ?q)) =
      bm0\<lparr>bm_lines := map (\<lambda>j. if j < Suc ?q
       then box_line src nx ny ix n (iy + j) (bm_lines bm0 ! j) else bm_lines bm0 ! j) [0..<bm_h bm0]\<rparr>"
      using q assms(6) map_prefix_step[of ?q "bm_h bm0" "\<lambda>j. box_line src nx ny ix n (iy + j) (bm_lines bm0 ! j)"]
      by (simp add: S(4) set_line_def)
    note img = this
    have "bx_row st + 1 = ny \<and> bx_out st < h" using True q by (simp add: S(1,2))
    then have "box_step src ix nx ny (ix * nx) x_end h (box_recip nx ny) (iy * ny + m) st =
        \<lparr>bx_acc = replicate n (0, 0, 0, 0), bx_row = 0, bx_out = Suc ?q, bx_bitmap =
          set_line (bx_bitmap st) (int ?q) (box_line src nx ny ix n (iy + ?q) (bm_lines bm0 ! ?q))\<rparr>"
      unfolding box_step_def Let_def srow_def[symmetric] A O S(2) L box_line_def[symmetric]
      by (simp only: if_True) (simp add: map_replicate_const o_def)
    moreover have "map (\<lambda>i. block_sums (card_at src) nx (ix + i) (iy * ny + Suc ?q * ny) (iy * ny + Suc m)) [0..<n] =
        replicate n (0, 0, 0, 0)"
    proof -
      have "iy * ny + Suc ?q * ny = iy * ny + Suc m" using e by simp
      then show ?thesis by (simp only: block_sums_empty map_replicate_const) simp
    qed
    ultimately show ?thesis by (simp add: box_at_def d img)
  next
    case False
    then have d: "Suc m mod ny = Suc (m mod ny)" "Suc m div ny = ?q" by (simp_all add: mod_Suc div_Suc)
    then show ?thesis using False
      by (simp add: box_step_def Let_def srow_def[symmetric] A S(1,2,4) box_at_def)
  qed
qed

lemma box_steps_at:
  assumes "canvas_ok src" and "0 < ny" and "(ix + n) * nx \<le> x_end" and "(iy + bm_h bm0) * ny \<le> bm_h src"
    and "m \<le> bm_h bm0 * ny" and "canvas_ok bm0"
  shows "box_at src nx ny ix iy n bm0 m
    (fold (box_step src ix nx ny (ix * nx) x_end (bm_h bm0) (box_recip nx ny)) [iy * ny..<iy * ny + m]
      \<lparr>bx_acc = replicate n (0, 0, 0, 0), bx_row = 0, bx_out = 0, bx_bitmap = bm0\<rparr>)"
  using assms(5)
proof (induction m)
  case 0
  have "length (bm_lines bm0) = bm_h bm0" using assms(6) by (simp add: canvas_ok_def bitmap_ok_def)
  then have "map ((!) (bm_lines bm0)) [0..<bm_h bm0] = bm_lines bm0" using map_nth[of "bm_lines bm0"] by simp
  then show ?case by (simp add: box_at_def block_sums_empty map_replicate_const)
next
  case (Suc m)
  have "iy * ny + m < bm_h src" using Suc.prems assms(4) by (simp add: distrib_right)
  from box_step_at[OF assms(1-3) this _ refl] Suc show ?case by simp
qed

lemma box_filter_pixel:
  assumes "canvas_ok src" and "0 < nx" and "0 < ny" and "ix_min \<le> ix_max" and "iy_min \<le> iy_max"
    and "(ix_max + 1) * nx \<le> bm_w src" and "(iy_max + 1) * ny \<le> bm_h src"
    and "canvas_ok bm" and "fmt_bpp (bm_fmt bm) = 32"
    and "bm_w bm = ix_max - ix_min + 1" and "bm_h bm = iy_max - iy_min + 1"
  defines "out \<equiv> box_filter src nx ny ix_min iy_min ix_max iy_max bm"
  shows "canvas_ok out" "bm_w out = bm_w bm" "bm_h out = bm_h bm" "bm_fmt out = bm_fmt bm"
    "i < bm_w bm \<Longrightarrow> j < bm_h bm \<Longrightarrow>
      card_at out (int i) (int j) = box_pixel (card_at src) nx ny (int (ix_min + i)) (int (iy_min + j))"
proof -
  let ?n = "bm_w bm" and ?h = "bm_h bm"
  have e: "ix_min + ?n = ix_max + 1" "iy_min + ?h = iy_max + 1" using assms(4,5,10,11) by simp_all
  have ends: "min ((iy_max + 1) * ny) (bm_h src) = iy_min * ny + ?h * ny"
    "min ((ix_max + 1) * nx) (bm_w src) = (ix_max + 1) * nx"
    using assms(6,7) unfolding e(2)[symmetric] by (simp_all only: distrib_right min.absorb1)
  have "(iy_min + ?h) * ny \<le> bm_h src" using assms(7) e(2) by simp
  from box_steps_at[OF assms(1,3) _ this le_refl assms(8), of ix_min ?n nx "(ix_max + 1) * nx"]
  have "bx_bitmap (fold (box_step src ix_min nx ny (ix_min * nx) ((ix_max + 1) * nx) ?h (box_recip nx ny))
      [iy_min * ny..<iy_min * ny + ?h * ny]
      \<lparr>bx_acc = replicate ?n (0, 0, 0, 0), bx_row = 0, bx_out = 0, bx_bitmap = bm\<rparr>) =
    bm\<lparr>bm_lines := map (\<lambda>j. if j < ?h
       then box_line src nx ny ix_min ?n (iy_min + j) (bm_lines bm ! j) else bm_lines bm ! j) [0..<?h]\<rparr>"
    using e(1) assms(3) by (simp add: box_at_def)
  then have out: "out = bm\<lparr>bm_lines :=
      map (\<lambda>j. box_line src nx ny ix_min ?n (iy_min + j) (bm_lines bm ! j)) [0..<?h]\<rparr>"
    unfolding out_def box_filter_def Let_def ends box_recip_def assms(10,11) by (simp cong: map_cong)
  show f: "bm_w out = ?n" "bm_h out = ?h" "bm_fmt out = bm_fmt bm" by (simp_all add: out)
  have row: "length (bm_lines bm ! j) = pitch_of ?n (bm_fmt bm)" "4 * ?n \<le> length (bm_lines bm ! j)" if "j < ?h" for j
    using assms(8,9) that pitch_holds_row[of ?n "bm_fmt bm"]
    by (auto simp: canvas_ok_def bitmap_ok_def bpp32)
  show "canvas_ok out" using assms(8) row
    by (auto simp: canvas_ok_def bitmap_ok_def out box_line_def length_put_row)
  assume ij: "i < ?n" "j < ?h"
  have "px_get 4 (box_line src nx ny ix_min ?n (iy_min + j) (bm_lines bm ! j)) i =
      box_pixel (card_at src) nx ny (int (ix_min + i)) (int (iy_min + j))"
    unfolding box_line_def using row[OF ij(2)] ij(1)
    by (subst row_raster.get_put_list) (auto simp: px_width_def px_wrap_4)
  then show "card_at out (int i) (int j) = box_pixel (card_at src) nx ny (int (ix_min + i)) (int (iy_min + j))"
    using ij assms(9) by (simp add: card_at_def out Line_def)
qed

section \<open>A part of the averaged picture shows what the whole would\<close>

lemma clamp_part:
  assumes "0 \<le> lo" and "0 < n" and "lo + n \<le> total_n" and "lo \<le> c" and "c < lo + n \<or> lo + n = total_n"
  shows "lo + clamp_row (c - lo) n = clamp_row c total_n" "0 \<le> clamp_row (c - lo) n" "clamp_row (c - lo) n < n"
  using assms by (auto simp: clamp_row_def)

definition part_holds :: "int \<Rightarrow> int \<Rightarrow> int \<Rightarrow> int \<Rightarrow> bool" where
  "part_holds lo n total_n c \<longleftrightarrow> 0 \<le> lo \<and> 0 < n \<and> lo + n \<le> total_n \<and> lo \<le> fix_int c \<and>
     (fix_int c + 1 < lo + n \<or> lo + n = total_n)"

lemma bilinear_part:
  assumes g: "\<And>i j. 0 \<le> i \<Longrightarrow> i < w \<Longrightarrow> 0 \<le> j \<Longrightarrow> j < h \<Longrightarrow> g i j = f (ix + i) (iy + j)"
    and x: "part_holds ix w W cx" and y: "part_holds iy h H cy"
  shows "bilinear_pixel g w h fmt (cx - ix * 65536) (cy - iy * 65536) = bilinear_pixel f W H fmt cx cy"
proof -
  have cx: "ix + clamp_row (fix_int (cx - ix * 65536) + d) w = clamp_row (fix_int cx + d) W"
    "0 \<le> clamp_row (fix_int (cx - ix * 65536) + d) w" "clamp_row (fix_int (cx - ix * 65536) + d) w < w"
    if "0 \<le> d" "d \<le> 1" for d
    using clamp_part[of ix w W "fix_int cx + d"] x that
    by (auto simp: part_holds_def fix_int_shift diff_add_eq)
  have cy: "iy + clamp_row (fix_int (cy - iy * 65536) + d) h = clamp_row (fix_int cy + d) H"
    "0 \<le> clamp_row (fix_int (cy - iy * 65536) + d) h" "clamp_row (fix_int (cy - iy * 65536) + d) h < h"
    if "0 \<le> d" "d \<le> 1" for d
    using clamp_part[of iy h H "fix_int cy + d"] y that
    by (auto simp: part_holds_def fix_int_shift diff_add_eq)
  have e: "g (clamp_row (fix_int (cx - ix * 65536) + d) w) (clamp_row (fix_int (cy - iy * 65536) + k) h) =
      f (clamp_row (fix_int cx + d) W) (clamp_row (fix_int cy + k) H)"
    if "0 \<le> d" "d \<le> 1" "0 \<le> k" "k \<le> 1" for d k
    using g[OF cx(2,3)[OF that(1,2)] cy(2,3)[OF that(3,4)]] cx(1)[OF that(1,2)] cy(1)[OF that(3,4)] by simp
  show ?thesis unfolding bilinear_pixel_def between_rows_def lerp_px_shift
    using e[of 0 0] e[of 0 1] e[of 1 0] e[of 1 1] by simp
qed

lemma sub_range_part:
  assumes "0 < isz" and "0 < sc" and "0 \<le> c" and "c + n \<le> sc" and "sub_range isz sc c n = (lo, hi)"
    and "0 \<le> k" and "k < n"
  shows "part_holds lo (hi - lo + 1) isz (scale_off isz sc + (c + k) * scale_inc isz sc)"
proof -
  let ?p = "\<lambda>k. fix_int (scale_off isz sc + k * scale_inc isz sc)"
  have i: "0 \<le> scale_inc isz sc" using assms(1,2) by (intro scale_inc_nonneg) auto
  have m: "?p j \<le> ?p l" if "j \<le> l" for j l
    using that i by (intro fix_int_mono add_left_mono mult_right_mono)
  have "0 \<le> ?p c" using i assms(3) by (intro fix_int_nonneg) (simp add: scale_off_def)
  moreover have "?p c \<le> ?p (c + k)" "?p (c + k) \<le> ?p (c + n - 1)" using assms(6,7) by (auto intro!: m)
  moreover have "?p (c + n - 1) < isz + 1" using assms by (intro last_position(1)) auto
  moreover have "lo = (if ?p c - 3 < 0 then 0 else ?p c - 3)"
    "hi = (if ?p (c + n - 1) + 1 + 3 \<ge> isz then isz - 1 else ?p (c + n - 1) + 1 + 3)"
    using assms(5) by (simp_all add: sub_range_def Let_def)
  ultimately show ?thesis using assms(1) by (auto simp: part_holds_def)
qed

definition box_rule_ok :: "box_rule \<Rightarrow> bool" where
  "box_rule_ok pf \<longleftrightarrow> (\<forall>n sc k. 0 < n \<longrightarrow> 0 < sc \<longrightarrow> pf n sc = Some k \<longrightarrow> k \<le> n)"

lemma box_size_range:
  "box_rule_ok pf \<Longrightarrow> 0 < n \<Longrightarrow> 0 < sc \<Longrightarrow> 0 < box_size pf n sc \<and> box_size pf n sc \<le> n"
  by (auto simp: box_size_def box_rule_ok_def split: option.splits)

lemma inter_size_range:
  assumes "0 < k" and "k \<le> n"
  shows "0 < inter_size n k" and "inter_size n k * k \<le> n"
proof -
  have "1 \<le> n div k" using assms zdiv_mono1[of k n k] by simp
  moreover have "n div k * k \<le> n" using div_mult_mod_eq[of n k] pos_mod_sign[OF assms(1), of n] by linarith
  ultimately show "0 < inter_size n k" "inter_size n k * k \<le> n" by (simp_all add: inter_size_def)
qed

text \<open>The averaged picture, whole, and what it looks like at a position of the scaled picture.\<close>

definition average_fmt :: "bitmap \<Rightarrow> pixel_fmt" where
  "average_fmt src = (if fmt_bpp (bm_fmt src) = 32 then bm_fmt src else A8R8G8B8)"

definition averaged_pixel :: "box_rule \<Rightarrow> bitmap \<Rightarrow> int \<Rightarrow> int \<Rightarrow> int \<Rightarrow> int \<Rightarrow> u32" where
  "averaged_pixel pf src scw sch X Y =
     (let nx = box_size pf (int (bm_w src)) scw; ny = box_size pf (int (bm_h src)) sch;
          iw = inter_size (int (bm_w src)) nx; ih = inter_size (int (bm_h src)) ny
      in bilinear_pixel (box_pixel (card_at src) (nat nx) (nat ny)) iw ih (average_fmt src)
           (scale_off iw scw + X * scale_inc iw scw) (scale_off ih sch + Y * scale_inc ih sch))"

text \<open>The width of the averaged part that a crop allocates.\<close>

definition part_width :: "box_rule \<Rightarrow> int \<Rightarrow> int \<Rightarrow> int \<Rightarrow> int \<Rightarrow> int" where
  "part_width pf n sc c k =
     (case sub_range (inter_size n (box_size pf n sc)) sc c k of (lo, hi) \<Rightarrow> hi - lo + 1)"

lemma sub_range_bounds:
  assumes "sub_range isz sc c n = (lo, hi)" and "part_holds lo (hi - lo + 1) isz p"
  shows "0 \<le> lo" "lo \<le> hi" "hi < isz"
  using assms(2) by (simp_all add: part_holds_def)

lemma new_bitmap_ok:
  "new_bitmap w h f = Some b \<Longrightarrow> canvas_ok b \<and> bm_w b = w \<and> bm_h b = h \<and> bm_fmt b = f"
  by (auto simp: new_bitmap_def canvas_ok_def bitmap_ok_def split: if_splits)

lemma part_end: "0 < k \<Longrightarrow> 0 \<le> hi \<Longrightarrow> hi < inter_size n k \<Longrightarrow> inter_size n k * k \<le> n \<Longrightarrow>
  (nat hi + 1) * nat k \<le> nat n"
proof -
  assume a: "0 < k" "0 \<le> hi" "hi < inter_size n k" "inter_size n k * k \<le> n"
  have "(hi + 1) * k \<le> inter_size n k * k" using a(1,3) by (intro mult_right_mono) auto
  then have "(hi + 1) * k \<le> n" using a(4) by linarith
  moreover have "(nat hi + 1) * nat k = nat ((hi + 1) * k)" using a(1,2) by (simp add: nat_mult_distrib nat_add_distrib)
  ultimately show ?thesis by (simp add: nat_mono)
qed

lemma prefilter_part:
  assumes src: "canvas_ok src" "0 < bm_w src" "0 < bm_h src" and pf: "box_rule_ok pf"
    "pf (int (bm_w src)) scw \<noteq> None \<or> pf (int (bm_h src)) sch \<noteq> None"
    and crop: "0 < scw" "0 < sch" "0 \<le> crx" "0 < crw" "crx + crw \<le> scw" "0 \<le> cry" "0 < crh" "cry + crh \<le> sch"
  defines "nx \<equiv> box_size pf (int (bm_w src)) scw" and "ny \<equiv> box_size pf (int (bm_h src)) sch"
  defines "iw \<equiv> inter_size (int (bm_w src)) nx" and "ih \<equiv> inter_size (int (bm_h src)) ny"
  obtains bm ix iy mp where "prefilter (Some pf) src scw sch crx cry crw crh = Some (bm, mp)"
    "canvas_ok bm" "0 < bm_w bm" "0 < bm_h bm" "bm_fmt bm = average_fmt src"
    "int (bm_w bm) = part_width pf (int (bm_w src)) scw crx crw"
    "mp_incx mp = scale_inc iw scw" "mp_incy mp = scale_inc ih sch"
    "mp_startx mp = scale_off iw scw + crx * scale_inc iw scw - ix * 65536"
    "mp_starty mp = scale_off ih sch + cry * scale_inc ih sch - iy * 65536"
    "\<And>i j. 0 \<le> i \<Longrightarrow> i < int (bm_w bm) \<Longrightarrow> 0 \<le> j \<Longrightarrow> j < int (bm_h bm) \<Longrightarrow>
      card_at bm i j = box_pixel (card_at src) (nat nx) (nat ny) (ix + i) (iy + j)"
    "\<And>k. 0 \<le> k \<Longrightarrow> k < crw \<Longrightarrow>
      part_holds ix (int (bm_w bm)) iw (scale_off iw scw + (crx + k) * scale_inc iw scw)"
    "\<And>k. 0 \<le> k \<Longrightarrow> k < crh \<Longrightarrow>
      part_holds iy (int (bm_h bm)) ih (scale_off ih sch + (cry + k) * scale_inc ih sch)"
proof -
  obtain ix ix' where rx: "sub_range iw scw crx crw = (ix, ix')" by fastforce
  obtain iy iy' where ry: "sub_range ih sch cry crh = (iy, iy')" by fastforce
  have n: "0 < nx" "nx \<le> int (bm_w src)" "0 < ny" "ny \<le> int (bm_h src)"
    using box_size_range[OF pf(1)] src(2,3) crop(1,2) by (simp_all add: nx_def ny_def)
  have I: "0 < iw" "iw * nx \<le> int (bm_w src)" "0 < ih" "ih * ny \<le> int (bm_h src)"
    using inter_size_range[OF n(1,2)] inter_size_range[OF n(3,4)] by (simp_all add: iw_def ih_def)
  have px: "part_holds ix (ix' - ix + 1) iw (scale_off iw scw + (crx + k) * scale_inc iw scw)" if "0 \<le> k" "k < crw" for k
    using sub_range_part[OF I(1) crop(1,3,5) rx that] .
  have py: "part_holds iy (iy' - iy + 1) ih (scale_off ih sch + (cry + k) * scale_inc ih sch)" if "0 \<le> k" "k < crh" for k
    using sub_range_part[OF I(3) crop(2,6,8) ry that] .
  have bx: "0 \<le> ix" "ix \<le> ix'" "ix' < iw" using sub_range_bounds[OF rx px[of 0]] crop(4) by simp_all
  have by': "0 \<le> iy" "iy \<le> iy'" "iy' < ih" using sub_range_bounds[OF ry py[of 0]] crop(7) by simp_all
  have "average_fmt src \<noteq> UNKNOW" "fmt_bpp (average_fmt src) = 32"
    using src(1) by (auto simp: average_fmt_def canvas_ok_def)
  then obtain bm0 where bm0: "new_bitmap (nat (ix' - ix + 1)) (nat (iy' - iy + 1)) (average_fmt src) = Some bm0"
    by (simp add: new_bitmap_def)
  note N = new_bitmap_ok[OF bm0]
  define bm where "bm = box_filter src (nat nx) (nat ny) (nat ix) (nat iy) (nat ix') (nat iy') bm0"
  have ends: "(nat ix' + 1) * nat nx \<le> bm_w src" "(nat iy' + 1) * nat ny \<le> bm_h src"
    using part_end[OF n(1) _ bx(3)[unfolded iw_def] I(2)[unfolded iw_def]]
      part_end[OF n(3) _ by'(3)[unfolded ih_def] I(4)[unfolded ih_def]] bx by' by simp_all
  have w: "bm_w bm0 = nat ix' - nat ix + 1" "bm_h bm0 = nat iy' - nat iy + 1"
    using N bx by' by (simp_all add: nat_add_distrib nat_diff_distrib)
  have F: "canvas_ok bm" "bm_w bm = bm_w bm0" "bm_h bm = bm_h bm0" "bm_fmt bm = bm_fmt bm0"
    "i < bm_w bm0 \<Longrightarrow> j < bm_h bm0 \<Longrightarrow>
      card_at bm (int i) (int j) = box_pixel (card_at src) (nat nx) (nat ny) (int (nat ix + i)) (int (nat iy + j))" for i j
    unfolding bm_def using box_filter_pixel[OF src(1) _ _ _ _ ends conjunct1[OF N] _ w] n bx by' N
      \<open>fmt_bpp (average_fmt src) = 32\<close> by auto
  define mp where "mp = \<lparr>mp_incx = scale_inc iw scw, mp_incy = scale_inc ih sch,
    mp_startx = scale_off iw scw + crx * scale_inc iw scw - ix * 65536,
    mp_starty = scale_off ih sch + cry * scale_inc ih sch - iy * 65536,
    mp_offx = scale_off iw scw, mp_offy = scale_off ih sch\<rparr>"
  have W: "int (bm_w bm) = ix' - ix + 1" "int (bm_h bm) = iy' - iy + 1" using F(2,3) N bx by' by simp_all
  show thesis
  proof (rule that[of bm mp ix iy])
    have c: "0 < int (bm_w src) \<and> 0 < int (bm_h src) \<and>
        (pf (int (bm_w src)) scw \<noteq> None \<or> pf (int (bm_h src)) sch \<noteq> None)" using src pf by simp
    have p: "0 < ix' - ix + 1 \<and> 0 < iy' - iy + 1" using bx by' by simp
    show "prefilter (Some pf) src scw sch crx cry crw crh = Some (bm, mp)"
      unfolding prefilter_def option.case Let_def nx_def[symmetric] ny_def[symmetric]
        iw_def[symmetric] ih_def[symmetric] rx ry split_conv average_fmt_def[symmetric] bm0
        bm_def[symmetric] mp_def[symmetric]
      using c p by (simp only: simp_thms if_True if_False)
    show "canvas_ok bm" by (rule F(1))
    show "0 < bm_w bm" "0 < bm_h bm" using W bx by' by linarith+
    show "bm_fmt bm = average_fmt src" using F(4) N by simp
    show "int (bm_w bm) = part_width pf (int (bm_w src)) scw crx crw"
      using W(1) rx by (simp add: part_width_def iw_def nx_def)
    show "card_at bm i j = box_pixel (card_at src) (nat nx) (nat ny) (ix + i) (iy + j)"
      if "0 \<le> i" "i < int (bm_w bm)" "0 \<le> j" "j < int (bm_h bm)" for i j
      using F(5)[of "nat i" "nat j"] that F(2,3) bx by' by (simp add: nat_less_iff)
  qed (use px py W in \<open>simp_all add: mp_def\<close>)
qed

section \<open>What ScaleCropAda shows\<close>

definition shrinks_much :: "bitmap \<Rightarrow> int \<Rightarrow> int \<Rightarrow> bool" where
  "shrinks_much src scw sch \<longleftrightarrow>
     (let w = int (bm_w src); h = int (bm_h src) in w \<ge> 20 \<and> h \<ge> 20 \<and> w \<ge> scw * 3 \<and> h \<ge> sch * 3)"

text \<open>
  Pixel \<open>(X, Y)\<close> of the whole scaled picture: no crop, destination or buffer occurs in it.
\<close>

definition shown_pixel :: "(kernel \<Rightarrow> int list list) \<Rightarrow> box_rule \<Rightarrow> bitmap \<Rightarrow> int \<Rightarrow> int \<Rightarrow> int \<Rightarrow> int \<Rightarrow> u32" where
  "shown_pixel wt pf src scw sch X Y =
     (let w = int (bm_w src); h = int (bm_h src);
          cx = scale_off w scw + X * scale_inc w scw; cy = scale_off h sch + Y * scale_inc h sch in
      if shrinks_much src scw sch then
        out_px (bm_fmt src)
          (if pf w scw = None \<and> pf h sch = None then bilinear_pixel (card_at src) w h (bm_fmt src) cx cy
           else averaged_pixel pf src scw sch X Y)
      else if scw = w \<and> sch = h then GetPixel src X Y
      else out_px (bm_fmt src) (scaled_pixel 6 2 (wt Lanczos3) src cx cy))"

lemma ada_modes:
  "mode_kernel (PIXEL_FLAG_LANCZOS3 OR PIXEL_FLAG_SRCCOPY) = Some Lanczos3"
  "mode_kernel (PIXEL_FLAG_BILINEAR OR PIXEL_FLAG_SRCCOPY) = None"
  "has_flag (PIXEL_FLAG_BILINEAR OR PIXEL_FLAG_SRCCOPY) PIXEL_FLAG_BILINEAR"
  "\<not> has_flag (PIXEL_FLAG_BILINEAR OR PIXEL_FLAG_SRCCOPY) PIXEL_FLAG_HFLIP"
  "\<not> has_flag (PIXEL_FLAG_BILINEAR OR PIXEL_FLAG_SRCCOPY) PIXEL_FLAG_VFLIP"
  "\<not> has_flag (PIXEL_FLAG_BILINEAR OR PIXEL_FLAG_SRCCOPY) PIXEL_FLAG_NOCLIP"
  "\<not> has_flag (PIXEL_FLAG_LANCZOS3 OR PIXEL_FLAG_SRCCOPY) PIXEL_FLAG_NOCLIP"
  "\<not> has_flag (PIXEL_FLAG_LANCZOS3 OR PIXEL_FLAG_SRCCOPY) PIXEL_FLAG_HFLIP"
  "\<not> has_flag (PIXEL_FLAG_LANCZOS3 OR PIXEL_FLAG_SRCCOPY) PIXEL_FLAG_VFLIP"
  "\<not> has_flag (PIXEL_FLAG_LANCZOS3 OR PIXEL_FLAG_SRCCOPY) PIXEL_FLAG_MASK"
  "has_flag (PIXEL_FLAG_LANCZOS3 OR PIXEL_FLAG_SRCCOPY) PIXEL_FLAG_SRCCOPY"
  by code_simp+

lemma ada_draw:
  "mode_draw f (PIXEL_FLAG_LANCZOS3 OR PIXEL_FLAG_SRCCOPY) = None"
  "mode_draw f (PIXEL_FLAG_BILINEAR OR PIXEL_FLAG_SRCCOPY) = None"
proof -
  have "has_flag (PIXEL_FLAG_LANCZOS3 OR PIXEL_FLAG_SRCCOPY) PIXEL_FLAG_SRCCOPY"
    "\<not> has_flag (PIXEL_FLAG_LANCZOS3 OR PIXEL_FLAG_SRCCOPY) PIXEL_FLAG_SRCOVER"
    "\<not> has_flag (PIXEL_FLAG_LANCZOS3 OR PIXEL_FLAG_SRCCOPY) PIXEL_FLAG_ADDITIVE"
    "has_flag (PIXEL_FLAG_BILINEAR OR PIXEL_FLAG_SRCCOPY) PIXEL_FLAG_SRCCOPY"
    "\<not> has_flag (PIXEL_FLAG_BILINEAR OR PIXEL_FLAG_SRCCOPY) PIXEL_FLAG_SRCOVER"
    "\<not> has_flag (PIXEL_FLAG_BILINEAR OR PIXEL_FLAG_SRCCOPY) PIXEL_FLAG_ADDITIVE" by code_simp+
  then show "mode_draw f (PIXEL_FLAG_LANCZOS3 OR PIXEL_FLAG_SRCCOPY) = None"
    "mode_draw f (PIXEL_FLAG_BILINEAR OR PIXEL_FLAG_SRCCOPY) = None" by (simp_all add: mode_draw_def)
qed

lemma crop_clip_inside:
  "0 \<le> dx \<Longrightarrow> dx + crw \<le> int (bm_w dst) \<Longrightarrow> 0 \<le> dy \<Longrightarrow> dy + crh \<le> int (bm_h dst) \<Longrightarrow> 0 < crw \<Longrightarrow> 0 < crh \<Longrightarrow>
   0 \<le> crx \<Longrightarrow> crx + crw \<le> scw \<Longrightarrow> 0 \<le> cry \<Longrightarrow> cry + crh \<le> sch \<Longrightarrow>
   crop_clip dst noclip dx dy scw sch crx cry crw crh = Some (dx, dy, crx, cry, crw, crh)"
  by (simp add: crop_clip_def Let_def)

lemma ada_branches:
  "ScaleCropAda wt fresh pf dst dx dy src m scw sch crx cry crw crh =
     (if shrinks_much src scw sch
      then ScaleCrop wt fresh dst dx dy src m scw sch crx cry crw crh
             (PIXEL_FLAG_BILINEAR OR PIXEL_FLAG_SRCCOPY) 0xffffffff (Some pf)
      else ScaleCrop wt fresh dst dx dy src m scw sch crx cry crw crh
             (PIXEL_FLAG_LANCZOS3 OR PIXEL_FLAG_SRCCOPY) 0xffffffff None)"
  by (simp only: ScaleCropAda_def shrinks_much_def Let_def)

lemma part_positions:
  assumes "part_holds ix n isz p" and "fix_int p < isz + 1"
  shows "0 \<le> p - ix * 65536" and "fix_int (p - ix * 65536) \<le> n"
proof -
  have "fix_int p * 65536 \<le> p"
    using div_mult_mod_eq[of p 65536] pos_mod_sign[of 65536 p] by (simp only: fix_int_def)
  moreover have "ix * 65536 \<le> fix_int p * 65536" using assms(1) by (intro mult_right_mono) (simp_all add: part_holds_def)
  ultimately show "0 \<le> p - ix * 65536" by linarith
  show "fix_int (p - ix * 65536) \<le> n" using assms unfolding fix_int_shift by (auto simp: part_holds_def)
qed

lemma ScaleCropAda_pixel:
  assumes ok: "canvas_ok dst" "canvas_ok src" "0 < bm_w src" "0 < bm_h src" "bm_fmt dst = bm_fmt src"
      "\<not> too_large dst src"
    and rect: "0 \<le> dx" "dx + crw \<le> int (bm_w dst)" "0 < crw" "0 \<le> dy" "dy + crh \<le> int (bm_h dst)" "0 < crh"
    and crop: "0 \<le> crx" "crx + crw \<le> scw" "0 \<le> cry" "cry + crh \<le> sch"
    and pf: "box_rule_ok pf" "shrinks_much src scw sch \<Longrightarrow> part_width pf (int (bm_w src)) scw crx crw \<noteq> scw"
    and right: "shrinks_much src scw sch \<or>
      fix_int (scale_off (int (bm_w src)) scw + (crx + crw - 1) * scale_inc (int (bm_w src)) scw) < int (bm_w src)"
    and t: "in_bitmap dst t s"
  shows "GetPixel (ScaleCropAda wt fresh pf dst dx dy src m scw sch crx cry crw crh) t s =
    (if dx \<le> t \<and> t < dx + crw \<and> dy \<le> s \<and> s < dy + crh
     then shown_pixel wt pf src scw sch (crx + (t - dx)) (cry + (s - dy)) else GetPixel dst t s)"
proof -
  let ?W = "int (bm_w src)" and ?H = "int (bm_h src)"
  have sc: "0 < scw" "0 < sch" using rect crop by simp_all
  have g: "\<not> (scw \<le> 0 \<or> sch \<le> 0 \<or> crw \<le> 0 \<or> crh \<le> 0)" using sc rect by simp
  note clip = crop_clip_inside[OF rect(1,2,4,5,3,6) crop]
  have i: "0 \<le> scale_inc ?W scw" "0 \<le> scale_inc ?H sch" using sc by (simp_all add: scale_inc_nonneg)
  have o: "0 \<le> scale_off n k" for n k by (simp add: scale_off_def)
  have pos: "off + cr * inc + k * inc = off + (cr + k) * inc" for off cr k inc :: int by (simp add: distrib_right)
  have last: "scale_off ?W scw + crx * scale_inc ?W scw + (crw - 1) * scale_inc ?W scw =
      scale_off ?W scw + (crx + crw - 1) * scale_inc ?W scw" by (simp add: algebra_simps)
  show ?thesis
  proof (cases "shrinks_much src scw sch")
    case False
    let ?mode = "PIXEL_FLAG_LANCZOS3 OR PIXEL_FLAG_SRCCOPY"
    have S: "ScaleCropAda wt fresh pf dst dx dy src m scw sch crx cry crw crh =
        ScaleCrop wt fresh dst dx dy src m scw sch crx cry crw crh ?mode 0xffffffff None"
      using False by (simp only: ada_branches if_False)
    show ?thesis
    proof (cases "scw = ?W \<and> sch = ?H")
      case True
      obtain r dst' where b: "Blend dst dx dy src m crx cry crw crh ?mode 0xffffffff = (r, dst')" by fastforce
      have "ScaleCrop wt fresh dst dx dy src m scw sch crx cry crw crh ?mode 0xffffffff None = dst'"
        using g ok(6) True b by (simp add: ScaleCrop_def)
      then show ?thesis
        using blend_copy_pixels[OF ok(1,2,5) ada_modes(7,10,11) t refl refl b] False True crop
        unfolding S by (auto simp: shown_pixel_def src_col_def ada_modes in_bitmap_def)
    next
      case ne: False
      have T: "ScaleCrop wt fresh dst dx dy src m scw sch crx cry crw crh ?mode 0xffffffff None =
          tap_scan 6 2 (wt Lanczos3) fresh dst dx dy src crw crh (scale_off ?W scw + crx * scale_inc ?W scw)
            (scale_off ?H sch + cry * scale_inc ?H sch) (scale_inc ?W scw) (scale_inc ?H sch) ?mode 0xffffffff"
        unfolding ScaleCrop_def if_not_P[OF ok(6)] if_not_P[OF g] if_not_P[OF ne] clip scalecrop_taps_def
        using g clip by (simp add: prefilter_def ada_modes Let_def)
      have "fix_int (scale_off ?W scw + crx * scale_inc ?W scw + (crw - 1) * scale_inc ?W scw) < ?W + int 2 + 4 - int 6"
        using right False unfolding last by simp
      from tap_scan_pixel[where wtab = "wt Lanczos3" and fresh = fresh
          and starty = "scale_off ?H sch + cry * scale_inc ?H sch", OF ok(1-4) _ _ ada_draw(1) rect i _ this t]
      have R: "GetPixel (tap_scan 6 2 (wt Lanczos3) fresh dst dx dy src crw crh (scale_off ?W scw + crx * scale_inc ?W scw)
            (scale_off ?H sch + cry * scale_inc ?H sch) (scale_inc ?W scw) (scale_inc ?H sch) ?mode 0xffffffff) t s =
          (if dx \<le> t \<and> t < dx + crw \<and> dy \<le> s \<and> s < dy + crh
           then out_px (bm_fmt dst) (scaled_pixel 6 2 (wt Lanczos3) src
             (scale_off ?W scw + (crx + (t - dx)) * scale_inc ?W scw) (scale_off ?H sch + (cry + (s - dy)) * scale_inc ?H sch))
           else GetPixel dst t s)"
        unfolding pos using crop i o by simp
      have "shown_pixel wt pf src scw sch X Y = out_px (bm_fmt src) (scaled_pixel 6 2 (wt Lanczos3) src
          (scale_off ?W scw + X * scale_inc ?W scw) (scale_off ?H sch + Y * scale_inc ?H sch))" for X Y
        unfolding shown_pixel_def Let_def if_not_P[OF False] if_not_P[OF ne] by (rule refl)
      then show ?thesis unfolding S T R by (simp only: ok(5))
    qed
  next
    case True
    let ?mode = "PIXEL_FLAG_BILINEAR OR PIXEL_FLAG_SRCCOPY"
    have S: "ScaleCropAda wt fresh pf dst dx dy src m scw sch crx cry crw crh =
        ScaleCrop wt fresh dst dx dy src m scw sch crx cry crw crh ?mode 0xffffffff (Some pf)"
      using True by (simp only: ada_branches if_True)
    have ne: "scw < ?W" using True sc by (auto simp: shrinks_much_def Let_def)
    show ?thesis
    proof (cases "pf ?W scw = None \<and> pf ?H sch = None")
      case none: True
      then have "prefilter (Some pf) src scw sch crx cry crw crh = None" by (simp add: prefilter_def)
      then have T: "ScaleCrop wt fresh dst dx dy src m scw sch crx cry crw crh ?mode 0xffffffff (Some pf) =
          interp_scan dst dx dy src scw crw crh (scale_off ?W scw + crx * scale_inc ?W scw)
            (scale_off ?H sch + cry * scale_inc ?H sch) (scale_inc ?W scw) (scale_inc ?H sch) ?mode 0xffffffff"
        using g ok(6) ne clip by (simp add: ScaleCrop_def ada_modes Let_def)
      have "fix_int (scale_off ?W scw + crx * scale_inc ?W scw + (crw - 1) * scale_inc ?W scw) \<le> ?W"
        using last_position(1)[of ?W scw "crx + crw - 1"] ok(3) sc rect crop unfolding last by simp
      from interp_scan_pixel[where starty = "scale_off ?H sch + cry * scale_inc ?H sch" and incy = "scale_inc ?H sch"
            and scw = scw, OF ok(1-4) ada_modes(3-5) ada_draw(2) rect i(1) _ this _ t]
      have R: "GetPixel (interp_scan dst dx dy src scw crw crh (scale_off ?W scw + crx * scale_inc ?W scw)
            (scale_off ?H sch + cry * scale_inc ?H sch) (scale_inc ?W scw) (scale_inc ?H sch) ?mode 0xffffffff) t s =
          (if dx \<le> t \<and> t < dx + crw \<and> dy \<le> s \<and> s < dy + crh
           then out_px (bm_fmt dst) (bilinear_pixel (card_at src) ?W ?H (bm_fmt src)
             (scale_off ?W scw + (crx + (t - dx)) * scale_inc ?W scw) (scale_off ?H sch + (cry + (s - dy)) * scale_inc ?H sch))
           else GetPixel dst t s)"
        unfolding pos using ne crop i o by simp
      have "shown_pixel wt pf src scw sch X Y = out_px (bm_fmt src) (bilinear_pixel (card_at src) ?W ?H (bm_fmt src)
          (scale_off ?W scw + X * scale_inc ?W scw) (scale_off ?H sch + Y * scale_inc ?H sch))" for X Y
        unfolding shown_pixel_def Let_def if_P[OF True] if_P[OF none] by (rule refl)
      then show ?thesis unfolding S T R by (simp only: ok(5))
    next
      case some: False
      then have "pf ?W scw \<noteq> None \<or> pf ?H sch \<noteq> None" by simp
      from prefilter_part[OF ok(2-4) pf(1) this sc crop(1) rect(3) crop(2,3) rect(6) crop(4)]
      obtain bm ix iy mp where P: "prefilter (Some pf) src scw sch crx cry crw crh = Some (bm, mp)"
        "canvas_ok bm" "0 < bm_w bm" "0 < bm_h bm" "bm_fmt bm = average_fmt src"
        "int (bm_w bm) = part_width pf ?W scw crx crw"
        and M: "mp_incx mp = scale_inc (inter_size ?W (box_size pf ?W scw)) scw"
          "mp_incy mp = scale_inc (inter_size ?H (box_size pf ?H sch)) sch"
          "mp_startx mp = scale_off (inter_size ?W (box_size pf ?W scw)) scw + crx * mp_incx mp - ix * 65536"
          "mp_starty mp = scale_off (inter_size ?H (box_size pf ?H sch)) sch + cry * mp_incy mp - iy * 65536"
        and C: "\<And>i j. 0 \<le> i \<Longrightarrow> i < int (bm_w bm) \<Longrightarrow> 0 \<le> j \<Longrightarrow> j < int (bm_h bm) \<Longrightarrow>
          card_at bm i j = box_pixel (card_at src) (nat (box_size pf ?W scw)) (nat (box_size pf ?H sch)) (ix + i) (iy + j)"
        and X: "\<And>k. 0 \<le> k \<Longrightarrow> k < crw \<Longrightarrow> part_holds ix (int (bm_w bm)) (inter_size ?W (box_size pf ?W scw))
          (scale_off (inter_size ?W (box_size pf ?W scw)) scw + (crx + k) * mp_incx mp)"
        and Y: "\<And>k. 0 \<le> k \<Longrightarrow> k < crh \<Longrightarrow> part_holds iy (int (bm_h bm)) (inter_size ?H (box_size pf ?H sch))
          (scale_off (inter_size ?H (box_size pf ?H sch)) sch + (cry + k) * mp_incy mp)"
        by (metis (no_types, lifting))
      let ?iw = "inter_size ?W (box_size pf ?W scw)" and ?ih = "inter_size ?H (box_size pf ?H sch)"
      have T: "ScaleCrop wt fresh dst dx dy src m scw sch crx cry crw crh ?mode 0xffffffff (Some pf) =
          interp_scan dst dx dy bm scw crw crh (mp_startx mp) (mp_starty mp) (mp_incx mp) (mp_incy mp) ?mode 0xffffffff"
        using g ok(6) ne clip P(1) by (simp add: ScaleCrop_def ada_modes Let_def)
      have I: "0 < ?iw" "0 < ?ih"
        using box_size_range[OF pf(1)] ok(3,4) sc by (simp_all add: inter_size_range(1))
      have inc: "0 \<le> mp_incx mp" "0 \<le> mp_incy mp" unfolding M(1,2) using I sc by (simp_all add: scale_inc_nonneg)
      have sh: "mp_startx mp + k * mp_incx mp = scale_off ?iw scw + (crx + k) * mp_incx mp - ix * 65536"
        "mp_starty mp + k * mp_incy mp = scale_off ?ih sch + (cry + k) * mp_incy mp - iy * 65536" for k
        unfolding M(3,4) by (simp_all add: distrib_right)
      have "fix_int (scale_off ?iw scw + (crx + k) * mp_incx mp) < ?iw + 1" if "0 \<le> k" "k < crw" for k
        unfolding M(1) using I sc that crop by (intro last_position(1)) auto
      note E = part_positions[OF X this]
      have p0: "0 \<le> mp_startx mp" using E(1)[of 0] sh(1)[of 0] rect(3) by simp
      have p1: "fix_int (mp_startx mp + (crw - 1) * mp_incx mp) \<le> int (bm_w bm)"
        unfolding sh using E(2)[of "crw - 1"] rect(3) by simp
      have w: "scw \<noteq> int (bm_w bm)" using pf(2)[OF True] P(6) by simp
      have B: "bilinear_pixel (card_at bm) (int (bm_w bm)) (int (bm_h bm)) (bm_fmt bm)
          (mp_startx mp + (t - dx) * mp_incx mp) (mp_starty mp + (s - dy) * mp_incy mp) =
          averaged_pixel pf src scw sch (crx + (t - dx)) (cry + (s - dy))"
        if "dx \<le> t" "t < dx + crw" "dy \<le> s" "s < dy + crh"
        unfolding sh averaged_pixel_def Let_def P(5) M(1,2)[symmetric]
        using that by (intro bilinear_part C X Y) auto
      have "shown_pixel wt pf src scw sch X Y = out_px (bm_fmt src) (averaged_pixel pf src scw sch X Y)" for X Y
        unfolding shown_pixel_def Let_def if_P[OF True] if_not_P[OF some] by (rule refl)
      then show ?thesis unfolding S T interp_scan_pixel[OF ok(1) P(2-4) ada_modes(3-5) ada_draw(2) rect inc(1) p0 p1 w t]
        using B by (simp only: ok(5)) auto
    qed
  qed
qed

text \<open>
  \<open>getBBitmap\<close> of both codecs: a new bitmap of the crop's size, filled from the decoded one.
\<close>

definition getBBitmap :: "(kernel \<Rightarrow> int list list) \<Rightarrow> (nat \<Rightarrow> u32) \<Rightarrow> box_rule \<Rightarrow> bitmap \<Rightarrow> u32 \<Rightarrow>
    int \<times> int \<Rightarrow> int \<times> int \<times> int \<times> int \<Rightarrow> bitmap option" where
  "getBBitmap wt fresh pf fbitmap m scaleSize cropRect =
     (case cropRect of (l, t, r, b) \<Rightarrow>
        map_option (\<lambda>out. ScaleCropAda wt fresh pf out 0 0 fbitmap m (fst scaleSize) (snd scaleSize)
             l t (r - l) (b - t))
          (new_bitmap (nat (r - l)) (nat (b - t)) (bm_fmt fbitmap)))"

text \<open>
  The block size \<open>n * 0.6 / sc + 0.5\<close>, cut to an integer, below the threshold 0.6 that
  \<open>ScaleCropAda\<close> passes: with exact arithmetic the rule meets the only requirement on it.
\<close>

lemma exact_box_rule:
  "box_rule_ok (\<lambda>n sc. if 10 * sc < 6 * n then Some ((12 * n + 10 * sc) div (20 * sc)) else None)"
proof -
  have "(12 * n + 10 * sc) div (20 * sc) \<le> n" if "0 < n" "0 < sc" for n sc :: int
  proof -
    have "12 * n + 10 * sc < (n + 1) * (20 * sc)"
    proof -
      have "n \<le> n * sc" "0 < n * sc" using that by simp_all
      then have "12 * n + 10 * sc < 20 * (n * sc) + 20 * sc" using that by linarith
      then show ?thesis by (simp add: algebra_simps)
    qed
    moreover have p: "0 < 20 * sc" using that by simp
    define a b where "a = 12 * n + 10 * sc" and "b = 20 * sc"
    have "a div b * b \<le> a" using div_mult_mod_eq[of a b] pos_mod_sign[of b a] p unfolding b_def by linarith
    ultimately have "a div b * b < (n + 1) * b" by (simp add: a_def b_def)
    then have "a div b < n + 1" using p unfolding b_def[symmetric] by (simp only: mult_less_cancel_right_pos)
    then show ?thesis by (simp add: a_def b_def)
  qed
  then show ?thesis by (auto simp: box_rule_ok_def)
qed

lemma getBBitmap_pixel:
  assumes "canvas_ok fbitmap" and "0 < bm_w fbitmap" and "0 < bm_h fbitmap"
    and "0 \<le> l" and "l < r" and "r \<le> scw" and "0 \<le> t" and "t < b" and "b \<le> sch" and "box_rule_ok pf"
    and "if shrinks_much fbitmap scw sch then part_width pf (int (bm_w fbitmap)) scw l (r - l) \<noteq> scw
      else fix_int (scale_off (int (bm_w fbitmap)) scw + (r - 1) * scale_inc (int (bm_w fbitmap)) scw) < int (bm_w fbitmap)"
    and "(r - l) OR (b - t) OR int (bm_w fbitmap) OR int (bm_h fbitmap) < 0x7fff"
    and "0 \<le> x" and "x < r - l" and "0 \<le> y" and "y < b - t"
  shows "\<exists>out. getBBitmap wt fresh pf fbitmap m (scw, sch) (l, t, r, b) = Some out \<and>
    GetPixel out x y = shown_pixel wt pf fbitmap scw sch (l + x) (t + y)"
proof -
  have "bm_fmt fbitmap \<noteq> UNKNOW" using assms(1) by (simp add: canvas_ok_def)
  then obtain out where out: "new_bitmap (nat (r - l)) (nat (b - t)) (bm_fmt fbitmap) = Some out"
    by (simp add: new_bitmap_def)
  note N = new_bitmap_ok[OF out]
  have wh: "int (bm_w out) = r - l" "int (bm_h out) = b - t" using N assms(5,8) by simp_all
  have "\<not> too_large out fbitmap" using assms(12) by (simp add: too_large_def wh or.assoc)
  moreover have "shrinks_much fbitmap scw sch \<or> fix_int (scale_off (int (bm_w fbitmap)) scw +
      (l + (r - l) - 1) * scale_inc (int (bm_w fbitmap)) scw) < int (bm_w fbitmap)"
    using assms(11) by (auto split: if_splits)
  moreover have "in_bitmap out x y" using assms(13-16) by (simp add: in_bitmap_def wh)
  ultimately have "GetPixel (ScaleCropAda wt fresh pf out 0 0 fbitmap m scw sch l t (r - l) (b - t)) x y =
      (if 0 \<le> x \<and> x < 0 + (r - l) \<and> 0 \<le> y \<and> y < 0 + (b - t)
       then shown_pixel wt pf fbitmap scw sch (l + (x - 0)) (t + (y - 0)) else GetPixel out x y)"
    using assms N wh by (intro ScaleCropAda_pixel) auto
  then show ?thesis using out assms(13-16) by (simp add: getBBitmap_def)
qed

text \<open>
  C8.  Scrolling and repainting are stable: every pixel of a crop that a codec returns is the
  pixel of the one scaled picture at that place (copied, Lanczos or box filtered), whichever
  rectangle inside the scaled picture was asked for and whatever the fresh memory held, under
  these conditions.  The widths and heights of crop and picture, joined with bitwise or, are below
  0x7fff: otherwise \<open>ScaleCrop\<close> returns at once and the crop keeps its fresh content (so for a
  picture of 16384 x 16383, \<open>size_guard_joins_bits\<close>).  The rule for the block size of the box
  filter, which the code computes with floats, never gives a block larger than the picture
  (\<open>box_rule_ok\<close>).  When the picture is box filtered (at least 20 x 20 and three times the scaled
  size), the averaged part that the crop needs is not as wide as the scaled picture; when it is
  not, the position of the crop's last column lies on the picture (always so below twice the
  size).
\<close>

theorem crop_shows_scaled_picture:
  assumes "canvas_ok fbitmap" and "0 < bm_w fbitmap" and "0 < bm_h fbitmap"
    and "0 \<le> l" and "l < r" and "r \<le> scw" and "0 \<le> t" and "t < b" and "b \<le> sch" and "box_rule_ok pf"
    and "if shrinks_much fbitmap scw sch then part_width pf (int (bm_w fbitmap)) scw l (r - l) \<noteq> scw
      else fix_int (scale_off (int (bm_w fbitmap)) scw + (r - 1) * scale_inc (int (bm_w fbitmap)) scw) < int (bm_w fbitmap)"
    and "(r - l) OR (b - t) OR int (bm_w fbitmap) OR int (bm_h fbitmap) < 0x7fff"
    and "0 \<le> x" and "x < r - l" and "0 \<le> y" and "y < b - t"
  shows "\<exists>out. getBBitmap wt fresh pf fbitmap m (scw, sch) (l, t, r, b) = Some out \<and>
    GetPixel out x y = shown_pixel wt pf fbitmap scw sch (l + x) (t + y)"
  by (rule getBBitmap_pixel[OF assms])

definition ex_picture :: "nat \<Rightarrow> bitmap" where
  "ex_picture n = \<lparr>bm_w = n, bm_h = n, bm_fmt = A8R8G8B8,
     bm_lines = map (\<lambda>j. map (\<lambda>i. word_of_nat (i * j)) [0..<4 * n]) [0..<n]\<rparr>"

definition ex_rule :: box_rule where
  "ex_rule n sc = (if 2 * sc < n then Some 2 else None)"

theorem crop_shows_scaled_picture_witness:
  "\<exists>out. getBBitmap (\<lambda>_. ex_wtab6) (\<lambda>_. 0) ex_rule (ex_picture 20) 0 (5, 5) (1, 1, 3, 4) = Some out \<and>
     GetPixel out 1 2 = shown_pixel (\<lambda>_. ex_wtab6) ex_rule (ex_picture 20) 5 5 2 3"
proof -
  have p: "canvas_ok (ex_picture 20)" "bm_w (ex_picture 20) = 20" "bm_h (ex_picture 20) = 20"
    "shrinks_much (ex_picture 20) 5 5"
    by (auto simp: ex_picture_def canvas_ok_def bitmap_ok_def pitch_of_def shrinks_much_def
        pixel_round_def pixelsize_def)
  have q: "part_width ex_rule 20 5 1 2 \<noteq> 5" "(2 :: int) OR 3 OR 20 OR 20 < 0x7fff" by code_simp+
  have "box_rule_ok ex_rule" by (auto simp: box_rule_ok_def ex_rule_def split: if_splits)
  from crop_shows_scaled_picture[of "ex_picture 20" 1 3 5 1 4 5 ex_rule 1 2 "\<lambda>_. ex_wtab6" "\<lambda>_. 0" 0, OF p(1) _ _ _ _ _ _ _ _ this]
  show ?thesis using p(2-4) q by simp
qed

section \<open>A picture of one colour stays so\<close>

lemma scaled_pixel_flat:
  assumes "\<And>i j. 0 \<le> i \<Longrightarrow> i < int (bm_w src) \<Longrightarrow> 0 \<le> j \<Longrightarrow> j < int (bm_h src) \<Longrightarrow> card_at src i j = c"
    and "0 < bm_w src" and "0 < bm_h src" and "bm_fmt src \<noteq> X8R8G8B8"
    and "\<And>ws. ws \<in> set wtab \<Longrightarrow> length ws = taps \<and> \<bar>sum_list ws - 16384\<bar> \<le> 32" and "length wtab = 256"
  shows "scaled_pixel taps lead wtab src cx cy = c"
proof -
  have w: "wtab ! fix_frac p \<in> set wtab" for p using fix_frac_less[of p] assms(6) by simp
  have flat: "tap_pixel (wtab ! fix_frac p) (map f [0..<taps]) = c" if "\<And>k. f k = c" for p f
    using assms(5)[OF w[of p]] that by (intro tap_pixel_flat) auto
  have "vert_pixel taps lead wtab src cy (clamp_row k (int (bm_w src))) = c" for k
  proof -
    have "card_at src (clamp_row k (int (bm_w src))) (clamp_row j (int (bm_h src))) = c" for j
      using assms(2,3) clamp_row_range[of "int (bm_w src)" k] clamp_row_range[of "int (bm_h src)" j]
      by (intro assms(1)) auto
    then show ?thesis using assms(4) by (simp add: vert_pixel_def flat)
  qed
  then show ?thesis by (simp add: scaled_pixel_def flat)
qed

text \<open>The guard on the sizes joins their bits, and so refuses pictures within its bound.\<close>

lemma size_guard_joins_bits:
  "too_large \<lparr>bm_w = 1, bm_h = 1, bm_fmt = A8R8G8B8, bm_lines = []\<rparr>
     \<lparr>bm_w = 16384, bm_h = 16383, bm_fmt = A8R8G8B8, bm_lines = []\<rparr>"
  by (simp add: too_large_def)

text \<open>The reciprocal of the block size is cut off, and a white block of nine averages to less.\<close>

lemma white_block_darkens: "box_scale (box_recip 3 3) (9 * 255) = 254"
  by code_simp

end
