(* ===== verification/Stretch.thy ===== *)
theory Stretch
  imports Blit
begin

text \<open>
  Stretching without a filter (BasicBitmap.cpp): \<open>ClipScale\<close>, which cuts a source and a
  destination rectangle of different sizes to their bitmaps, and \<open>BresenhamStretch\<close>, which walks
  the source with an error term.  The products with a \<open>float\<close> ratio are the parameter \<open>mulf\<close>:
  \<open>mulf d n m\<close> is \<open>(int)(d * ((float)n / m))\<close>.  Source and destination are different bitmaps.
\<close>

unbundle bit_operations_syntax

section \<open>Clipping with a scale\<close>

text \<open>One axis: the destination from \<open>dl\<close> to \<open>dr\<close> and the source from \<open>sl\<close> to \<open>sr\<close>.\<close>

type_synonym span4 = "int \<times> int \<times> int \<times> int"

definition span_empty :: "span4 \<Rightarrow> bool" where
  "span_empty = (\<lambda>(dl, dr, sl, sr). dl \<ge> dr \<or> sl \<ge> sr)"

definition cs_dst_low :: "(int \<Rightarrow> int) \<Rightarrow> bool \<Rightarrow> int \<Rightarrow> span4 \<Rightarrow> span4" where
  "cs_dst_low f flip dcl = (\<lambda>(dl, dr, sl, sr).
     if dl < dcl then let d = dcl - dl in
       (dcl, dr, if \<not> flip then sl + f d else sl, if \<not> flip then sr else sr - f d)
     else (dl, dr, sl, sr))"

definition cs_dst_high :: "(int \<Rightarrow> int) \<Rightarrow> bool \<Rightarrow> int \<Rightarrow> span4 \<Rightarrow> span4" where
  "cs_dst_high f flip dcr = (\<lambda>(dl, dr, sl, sr).
     if dr > dcr then let d = dr - dcr in
       (dl, dcr, if \<not> flip then sl else sl + f d, if \<not> flip then sr - f d else sr)
     else (dl, dr, sl, sr))"

definition cs_src_low :: "(int \<Rightarrow> int) \<Rightarrow> bool \<Rightarrow> int \<Rightarrow> span4 \<Rightarrow> span4" where
  "cs_src_low f flip scl = (\<lambda>(dl, dr, sl, sr).
     if sl < scl then let d = scl - sl in
       (if \<not> flip then dl + f d else dl, if \<not> flip then dr else dr - f d, scl, sr)
     else (dl, dr, sl, sr))"

definition cs_src_high :: "(int \<Rightarrow> int) \<Rightarrow> bool \<Rightarrow> int \<Rightarrow> span4 \<Rightarrow> span4" where
  "cs_src_high f flip scr = (\<lambda>(dl, dr, sl, sr).
     if sr > scr then let d = sr - scr in
       (if \<not> flip then dl else dl + f d, if \<not> flip then dr - f d else dr, sl, scr)
     else (dl, dr, sl, sr))"

definition ClipScale :: "(int \<Rightarrow> int \<Rightarrow> int \<Rightarrow> int) \<Rightarrow> ltrb \<Rightarrow> ltrb \<Rightarrow> ltrb \<Rightarrow> ltrb \<Rightarrow> u32 \<Rightarrow> int + (ltrb \<times> ltrb)" where
  "ClipScale mulf clipdst clipsrc bound_dst bound_src mode =
     (let (dcl, dct, dcr, dcb) = clipdst; (scl, sct, scr, scb) = clipsrc;
          (dl, dt, dr, db) = bound_dst; (sl, st, sr, sb) = bound_src;
          dw = dr - dl; dh = db - dt; sw = sr - sl; sh = sb - st;
          hflip = has_flag mode PIXEL_FLAG_HFLIP; vflip = has_flag mode PIXEL_FLAG_VFLIP in
      if dw \<le> 0 \<or> dh \<le> 0 \<or> sw \<le> 0 \<or> sh \<le> 0 then Inl (- 1)
      else if dl \<ge> dcl \<and> dt \<ge> dct \<and> dr \<le> dcr \<and> db \<le> dcb \<and> sl \<ge> scl \<and> st \<ge> sct \<and> sr \<le> scr \<and> sb \<le> scb
      then Inr (bound_dst, bound_src)
      else
        let fx = (\<lambda>d. mulf d dw sw); fy = (\<lambda>d. mulf d dh sh);
            ix = (\<lambda>d. mulf d sw dw); iy = (\<lambda>d. mulf d sh dh);
            h = cs_dst_low ix hflip dcl (dl, dr, sl, sr); v = cs_dst_low iy vflip dct (dt, db, st, sb) in
        if span_empty h \<or> span_empty v then Inl (- 2)
        else
          let h = cs_dst_high ix hflip dcr h; v = cs_dst_high iy vflip dcb v in
          if span_empty h \<or> span_empty v then Inl (- 3)
          else
            let h = cs_src_low fx hflip scl h; v = cs_src_low fy vflip sct v in
            if span_empty h \<or> span_empty v then Inl (- 4)
            else
              let h = cs_src_high fx hflip scr h; v = cs_src_high fy vflip scb v in
              if span_empty h \<or> span_empty v then Inl (- 5)
              else Inr ((fst h, fst v, fst (snd h), fst (snd v)),
                        (fst (snd (snd h)), fst (snd (snd v)), snd (snd (snd h)), snd (snd (snd v)))))"

text \<open>What one axis has to end with.\<close>

definition span_within :: "int \<Rightarrow> int \<Rightarrow> int \<Rightarrow> int \<Rightarrow> span4 \<Rightarrow> bool" where
  "span_within dcl dcr scl scr = (\<lambda>(dl, dr, sl, sr).
     dcl \<le> dl \<and> dl < dr \<and> dr \<le> dcr \<and> scl \<le> sl \<and> sl < sr \<and> sr \<le> scr)"

lemma cs_axis_within:
  assumes "\<And>d. 0 \<le> d \<Longrightarrow> 0 \<le> f d" and "\<And>d. 0 \<le> d \<Longrightarrow> 0 \<le> g d"
    and "\<not> span_empty (cs_src_high g flip scr (cs_src_low g flip scl (cs_dst_high f flip dcr (cs_dst_low f flip dcl a))))"
  shows "span_within dcl dcr scl scr
    (cs_src_high g flip scr (cs_src_low g flip scl (cs_dst_high f flip dcr (cs_dst_low f flip dcl a))))"
proof -
  obtain dl dr sl sr where a: "a = (dl, dr, sl, sr)" by (metis prod.exhaust)
  define x where "x = cs_dst_high f flip dcr (cs_dst_low f flip dcl a)"
  obtain xl xr yl yr where x': "x = (xl, xr, yl, yr)" by (metis prod.exhaust)
  have x: "dcl \<le> xl" "xr \<le> dcr"
    using x' unfolding x_def a by (auto simp: cs_dst_low_def cs_dst_high_def Let_def split: if_splits)
  then show ?thesis
    using assms(1,2)[of "scl - yl"] assms(2)[of "yr - scr"] assms(3)
    unfolding x_def[symmetric] x'
    by (auto simp: cs_src_low_def cs_src_high_def span_within_def span_empty_def Let_def split: if_splits)
qed

lemma ClipScale_within:
  assumes "ClipScale mulf (dcl, dct, dcr, dcb) (scl, sct, scr, scb) bd bs mode = Inr ((dl, dt, dr, db), (sl, st, sr, sb))"
    and "\<And>d n m. 0 \<le> d \<Longrightarrow> 0 < n \<Longrightarrow> 0 < m \<Longrightarrow> 0 \<le> mulf d n m"
  shows "span_within dcl dcr scl scr (dl, dr, sl, sr) \<and> span_within dct dcb sct scb (dt, db, st, sb)"
proof -
  obtain dl0 dt0 dr0 db0 where bd: "bd = (dl0, dt0, dr0, db0)" by (metis prod.exhaust)
  obtain sl0 st0 sr0 sb0 where bs: "bs = (sl0, st0, sr0, sb0)" by (metis prod.exhaust)
  define hf vf where "hf = has_flag mode PIXEL_FLAG_HFLIP" and "vf = has_flag mode PIXEL_FLAG_VFLIP"
  define ix iy fx fy where "ix = (\<lambda>d. mulf d (sr0 - sl0) (dr0 - dl0))" and "iy = (\<lambda>d. mulf d (sb0 - st0) (db0 - dt0))"
    and "fx = (\<lambda>d. mulf d (dr0 - dl0) (sr0 - sl0))" and "fy = (\<lambda>d. mulf d (db0 - dt0) (sb0 - st0))"
  define h v where "h = cs_src_high fx hf scr (cs_src_low fx hf scl (cs_dst_high ix hf dcr (cs_dst_low ix hf dcl (dl0, dr0, sl0, sr0))))"
    and "v = cs_src_high fy vf scb (cs_src_low fy vf sct (cs_dst_high iy vf dcb (cs_dst_low iy vf dct (dt0, db0, st0, sb0))))"
  have pos: "0 < dr0 - dl0" "0 < db0 - dt0" "0 < sr0 - sl0" "0 < sb0 - st0"
    using assms(1) by (auto simp: ClipScale_def bd bs Let_def split: if_splits)
  consider (inside) "(dl, dt, dr, db) = bd" "(sl, st, sr, sb) = bs"
      "dl0 \<ge> dcl" "dt0 \<ge> dct" "dr0 \<le> dcr" "db0 \<le> dcb" "sl0 \<ge> scl" "st0 \<ge> sct" "sr0 \<le> scr" "sb0 \<le> scb"
    | (cut) "h = (dl, dr, sl, sr)" "v = (dt, db, st, sb)" "\<not> span_empty h" "\<not> span_empty v"
    using assms(1) unfolding ClipScale_def bd bs Let_def prod.case hf_def[symmetric] vf_def[symmetric]
      ix_def[symmetric] iy_def[symmetric] fx_def[symmetric] fy_def[symmetric] h_def[symmetric] v_def[symmetric]
    by (auto simp: prod_eq_iff split: if_splits)
  then show ?thesis
  proof cases
    case inside
    then show ?thesis using pos by (auto simp: span_within_def bd bs)
  next
    case cut
    have "span_within dcl dcr scl scr h" "span_within dct dcb sct scb v"
      using cs_axis_within[of ix fx hf scr scl dcr dcl] cs_axis_within[of iy fy vf scb sct dcb dct]
        assms(2) pos cut(3,4) unfolding h_def v_def ix_def iy_def fx_def fy_def by auto
    then show ?thesis using cut by simp
  qed
qed

section \<open>Stretching with an error term\<close>

text \<open>
  \<open>while (err >= 0) pos += inc, err -= d2\<close>.  The callers have \<open>d2 > 0\<close>; without it the loop
  would not end, and the model leaves it at once.
\<close>

function bres_advance :: "int \<Rightarrow> int \<Rightarrow> int \<Rightarrow> int \<Rightarrow> int \<times> int" where
  "bres_advance inc d2 pos err =
     (if 0 \<le> err \<and> 0 < d2 then bres_advance inc d2 (pos + inc) (err - d2) else (pos, err))"
  by pat_completeness auto
termination by (relation "measure (\<lambda>(inc, d2, pos, err). nat (err + 1))") auto

declare bres_advance.simps [simp del]

text \<open>The source positions of \<open>n\<close> pixels (or rows), with the error term carried along.\<close>

fun bres_positions :: "nat \<Rightarrow> int \<Rightarrow> int \<Rightarrow> int \<Rightarrow> int \<Rightarrow> int \<Rightarrow> int list" where
  "bres_positions 0 pos err inc s2 d2 = []"
| "bres_positions (Suc n) pos err inc s2 d2 =
     pos # (case bres_advance inc d2 pos err of (pos', err') \<Rightarrow> bres_positions n pos' (err' + s2) inc s2 d2)"

text \<open>
  One row.  All four pixel sizes are the same loop: the pixel is copied, or, in the masked mode,
  copied unless it is the mask colour, which one- and two-byte pixels compare cut to their size.
\<close>

definition bres_row :: "nat \<Rightarrow> bool \<Rightarrow> bool \<Rightarrow> u32 \<Rightarrow> int \<Rightarrow> int \<Rightarrow> bytes \<Rightarrow> nat \<Rightarrow> int \<Rightarrow> bytes \<Rightarrow> bytes" where
  "bres_row ps hflip masked m sx sw s dx dw d =
     (let pos = (if hflip then sx + (sw - 1) else sx); inc = (if hflip then - 1 else 1);
          px = map (\<lambda>p. px_get ps s (nat p)) (bres_positions (nat dw) pos (2 * sw - 2 * dw) inc (2 * sw) (2 * dw))
      in if \<not> masked then put_list (px_put ps) d dx px else put_masked (px_put ps) (cmask ps m) d dx px)"

definition stretch_clip :: "(int \<Rightarrow> int \<Rightarrow> int \<Rightarrow> int) \<Rightarrow> bitmap \<Rightarrow> bitmap \<Rightarrow> ltrb \<Rightarrow> ltrb \<Rightarrow> u32 \<Rightarrow> (ltrb \<times> ltrb) option" where
  "stretch_clip mulf dst src bd bs mode =
     (if \<not> has_flag mode PIXEL_FLAG_NOCLIP
      then (case ClipScale mulf (0, 0, int (bm_w dst), int (bm_h dst)) (0, 0, int (bm_w src), int (bm_h src)) bd bs mode of
          Inl _ \<Rightarrow> None | Inr r \<Rightarrow> Some r)
      else
        let (dl, dt, dr, db) = bd; (sl, st, sr, sb) = bs in
        if dl < 0 \<or> dr > int (bm_w dst) \<or> dt < 0 \<or> db > int (bm_h dst) \<or>
           sl < 0 \<or> sr > int (bm_w src) \<or> st < 0 \<or> sb > int (bm_h src)
        then None else Some (bd, bs))"

definition bres_rows :: "bitmap \<Rightarrow> bitmap \<Rightarrow> u32 \<Rightarrow> ltrb \<Rightarrow> ltrb \<Rightarrow> u32 \<Rightarrow> bitmap" where
  "bres_rows dst src m bd bs mode =
     (let (dl, dt, dr, db) = bd; (sl, st, sr, sb) = bs;
          dw = dr - dl; dh = db - dt; sw = sr - sl; sh = sb - st in
      if sh \<le> 0 \<or> sw \<le> 0 \<or> dh \<le> 0 \<or> dw \<le> 0 then dst
      else
        let vflip = has_flag mode PIXEL_FLAG_VFLIP;
            ys = bres_positions (nat dh) (if vflip then st + sh - 1 else st) (2 * sh - 2 * dh)
                   (if vflip then - 1 else 1) (2 * sh) (2 * dh)
        in each_row (\<lambda>j. bres_row (pixelsize (bm_fmt dst)) (has_flag mode PIXEL_FLAG_HFLIP)
               (has_flag mode PIXEL_FLAG_MASK) m sl sw (Line src (ys ! j)) (nat dl) dw)
             dt (nat dh) dst)"

definition BresenhamStretch :: "(int \<Rightarrow> int \<Rightarrow> int \<Rightarrow> int) \<Rightarrow> bitmap \<Rightarrow> int \<Rightarrow> int \<Rightarrow> int \<Rightarrow> int \<Rightarrow> bitmap \<Rightarrow> u32 \<Rightarrow>
    int \<Rightarrow> int \<Rightarrow> int \<Rightarrow> int \<Rightarrow> u32 \<Rightarrow> bitmap" where
  "BresenhamStretch mulf dst dx dy dw dh src m sx sy sw sh mode =
     (if fmt_bpp (bm_fmt src) \<noteq> fmt_bpp (bm_fmt dst) then dst
      else if dw = sw \<and> dh = sh
      then snd (Blit dst dx dy src m sx sy sw sh (mode AND NOT PIXEL_FLAG_NOCLIP))
      else (case stretch_clip mulf dst src (dx, dy, dx + dw, dy + dh) (sx, sy, sx + sw, sy + sh) mode of
          None \<Rightarrow> dst
        | Some (bd, bs) \<Rightarrow> bres_rows dst src m bd bs mode))"

section \<open>The error term is a division\<close>

lemma bres_advance_eq:
  "0 < d2 \<Longrightarrow> bres_advance inc d2 pos err =
     (if err < 0 then (pos, err) else (pos + inc * (err div d2 + 1), err mod d2 - d2))"
proof (induction inc d2 pos err rule: bres_advance.induct)
  case (1 inc d2 pos err)
  show ?case
  proof (cases "err < 0")
    case True
    then show ?thesis by (simp add: bres_advance.simps)
  next
    case False
    have "(err - d2) div d2 = err div d2 - 1" "(err - d2) mod d2 = err mod d2"
      using 1(2) div_add_self2[of d2 "err - d2"] by simp_all
    moreover have "err div d2 = 0 \<and> err mod d2 = err" if "err < d2" using False that by simp
    ultimately show ?thesis using 1 False by (subst bres_advance.simps) (auto simp: algebra_simps)
  qed
qed

text \<open>After \<open>i\<close> pixels the position has moved \<open>i * s div d\<close> and the error term is as below.\<close>

lemma bres_step:
  fixes s d i k :: int
  assumes "0 < d" and "0 \<le> s" and "k = i * s div d"
  shows "bres_advance inc (2 * d) (p + inc * k) (2 * s * (i + 1) - 2 * d * (1 + k)) =
    (p + inc * ((i + 1) * s div d), 2 * s * (i + 1) - 2 * d * (1 + (i + 1) * s div d))"
proof -
  define e where "e = (i + 1) * s - d * (1 + k)"
  have r: "i * s = d * k + i * s mod d" using assms(3) by (simp add: algebra_simps)
  have e: "e = s + i * s mod d - d" using r by (simp add: e_def algebra_simps)
  have m: "0 \<le> i * s mod d" "i * s mod d < d" using assms(1) by simp_all
  have E: "2 * s * (i + 1) - 2 * d * (1 + k) = 2 * e" by (simp add: e_def algebra_simps)
  have S: "(i + 1) * s = (e + d) + d * k" using e r by (simp add: algebra_simps)
  have q: "(i + 1) * s div d = k + (e div d + 1)"
    unfolding S using assms(1) by (simp add: div_add_self2)
  show ?thesis
  proof (cases "e < 0")
    case True
    then have "(e + d) div d = 0" using e m assms by simp
    then have "e div d = - 1" using div_add_self2[of d e] assms(1) by simp
    then show ?thesis using True q E assms(1) by (simp add: bres_advance_eq)
  next
    case False
    have "2 * e div (2 * d) = e div d" "2 * e mod (2 * d) = 2 * (e mod d)"
      by (simp_all add: mod_mult_mult1)
    moreover have "2 * (e mod d) - 2 * d = 2 * e - 2 * d * (e div d + 1)"
      unfolding minus_mult_div_eq_mod[symmetric] by (simp add: algebra_simps)
    ultimately show ?thesis using False q E assms(1) by (simp add: bres_advance_eq algebra_simps)
  qed
qed

lemma bres_positions_nth:
  assumes "0 < d" and "0 \<le> s"
  shows "k < n \<Longrightarrow> bres_positions n (p + inc * (int i * s div d)) (2 * s * (int i + 1) - 2 * d * (1 + int i * s div d))
      inc (2 * s) (2 * d) ! k = p + inc * (int (i + k) * s div d)"
proof (induction n arbitrary: i k)
  case (Suc n)
  show ?case
  proof (cases k)
    case (Suc j)
    have "bres_positions n (p + inc * (int (Suc i) * s div d))
        (2 * s * (int (Suc i) + 1) - 2 * d * (1 + int (Suc i) * s div d)) inc (2 * s) (2 * d) ! j =
        p + inc * (int (Suc i + j) * s div d)"
      using Suc.IH[of j "Suc i"] Suc.prems Suc by simp
    then show ?thesis using Suc bres_step[OF assms refl, of inc p "int i"] by (simp add: algebra_simps)
  qed simp
qed simp

lemma length_bres_positions [simp]: "length (bres_positions n p e inc s2 d2) = n"
  by (induction n arbitrary: p e) (auto split: prod.split)

lemma bres_positions_start:
  assumes "0 < d" and "0 \<le> s" and "k < n"
  shows "bres_positions n p (2 * s - 2 * d) inc (2 * s) (2 * d) ! k = p + inc * (int k * s div d)"
  using bres_positions_nth[OF assms, of p inc 0] by simp

section \<open>What a stretched bitmap holds\<close>

text \<open>The source coordinate a destination coordinate is taken from: nearest, from below.\<close>

definition near :: "bool \<Rightarrow> int \<Rightarrow> int \<Rightarrow> int \<Rightarrow> int \<Rightarrow> int \<Rightarrow> int" where
  "near flip dl dr sl sr t =
     (let k = (t - dl) * (sr - sl) div (dr - dl) in if flip then sr - 1 - k else sl + k)"

lemma near_within:
  assumes "dl \<le> t" and "t < dr" and "sl < sr"
  shows "sl \<le> near flip dl dr sl sr t \<and> near flip dl dr sl sr t < sr"
proof -
  let ?q = "(t - dl) * (sr - sl) div (dr - dl)"
  have "?q < sr - sl"
  proof (rule ccontr)
    assume "\<not> ?q < sr - sl"
    then have "(sr - sl) * (dr - dl) \<le> ?q * (dr - dl)" using assms by (intro mult_right_mono) simp_all
    also have "\<dots> \<le> (t - dl) * (sr - sl)"
      using div_mult_mod_eq[of "(t - dl) * (sr - sl)" "dr - dl"] pos_mod_sign[of "dr - dl" "(t - dl) * (sr - sl)"] assms
      by linarith
    also have "\<dots> < (dr - dl) * (sr - sl)" using assms by (intro mult_strict_right_mono) simp_all
    finally show False by (simp add: mult.commute)
  qed
  moreover have "0 \<le> (t - dl) * (sr - sl) div (dr - dl)" using assms by (simp add: pos_imp_zdiv_nonneg_iff)
  ultimately show ?thesis by (auto simp: near_def Let_def)
qed

lemma bres_positions_near:
  assumes "sl < sr" and "dl \<le> t" and "t < dr"
  shows "bres_positions (nat (dr - dl)) (if flip then sl + (sr - sl) - 1 else sl) (2 * (sr - sl) - 2 * (dr - dl))
      (if flip then - 1 else 1) (2 * (sr - sl)) (2 * (dr - dl)) ! nat (t - dl) = near flip dl dr sl sr t"
  using bres_positions_start[of "dr - dl" "sr - sl" "nat (t - dl)" "nat (dr - dl)"] assms
  by (simp add: near_def Let_def)

lemma bres_row_pixel:
  assumes s: "sl < sr" and d: "dl < dr" "0 \<le> dl" "dr \<le> int (px_width ps d)"
    and src: "0 \<le> sl" "sr \<le> int (px_width ps s)" and t: "0 \<le> t" "t < int (px_width ps d)"
  shows "px_get ps (bres_row ps flip masked m sl (sr - sl) s (nat dl) (dr - dl) d) (nat t) =
    (let p = px_get ps s (nat (near flip dl dr sl sr t)) in
     if dl \<le> t \<and> t < dr \<and> (masked \<longrightarrow> p \<noteq> cmask ps m) then p else px_get ps d (nat t))"
proof -
  define px where "px = map (\<lambda>p. px_get ps s (nat p)) (bres_positions (nat (dr - dl))
    (if flip then sl + (sr - sl) - 1 else sl) (2 * (sr - sl) - 2 * (dr - dl))
    (if flip then - 1 else 1) (2 * (sr - sl)) (2 * (dr - dl)))"
  have row: "bres_row ps flip masked m sl (sr - sl) s (nat dl) (dr - dl) d =
      (if \<not> masked then put_list (px_put ps) d (nat dl) px else put_masked (px_put ps) (cmask ps m) d (nat dl) px)"
    by (simp add: bres_row_def px_def Let_def)
  have len: "length px = nat (dr - dl)" by (simp add: px_def)
  have px: "px ! (nat t - nat dl) = px_get ps s (nat (near flip dl dr sl sr t))" if "dl \<le> t" "t < dr"
  proof -
    have "nat t - nat dl = nat (t - dl)" "nat (t - dl) < nat (dr - dl)" using that d(2) by simp_all
    then show ?thesis by (simp only: px_def nth_map length_bres_positions bres_positions_near[OF s that])
  qed
  have wrap: "px_wrap ps (px ! (nat t - nat dl)) = px ! (nat t - nat dl)" if "dl \<le> t" "t < dr"
    unfolding px[OF that] using near_within[OF that s, of flip] src by (intro row_raster.wrap_get) linarith
  have fit: "nat dl + length px \<le> px_width ps d" "nat t < px_width ps d" using d t len by linarith+
  have range: "nat dl \<le> nat t \<and> nat t < nat dl + length px \<longleftrightarrow> dl \<le> t \<and> t < dr" using d t len by linarith
  show ?thesis
    unfolding row Let_def
    using row_raster.get_put_list[OF fit] row_raster.get_put_masked[OF fit, of "cmask ps m"] px wrap range
    by (cases "dl \<le> t \<and> t < dr") auto
qed

definition mulf_ok :: "(int \<Rightarrow> int \<Rightarrow> int \<Rightarrow> int) \<Rightarrow> bool" where
  "mulf_ok mulf \<longleftrightarrow> (\<forall>d n m. 0 \<le> d \<longrightarrow> 0 < n \<longrightarrow> 0 < m \<longrightarrow> 0 \<le> mulf d n m)"

lemma stretch_clip_within:
  assumes "stretch_clip mulf dst src bd bs mode = Some ((dl, dt, dr, db), (sl, st, sr, sb))" and "mulf_ok mulf"
  shows "0 \<le> dl \<and> dr \<le> int (bm_w dst) \<and> 0 \<le> dt \<and> db \<le> int (bm_h dst) \<and>
    0 \<le> sl \<and> sr \<le> int (bm_w src) \<and> 0 \<le> st \<and> sb \<le> int (bm_h src)"
proof (cases "has_flag mode PIXEL_FLAG_NOCLIP")
  case True
  then show ?thesis using assms(1) by (auto simp: stretch_clip_def Let_def split: if_splits prod.splits)
next
  case False
  then have "ClipScale mulf (0, 0, int (bm_w dst), int (bm_h dst)) (0, 0, int (bm_w src), int (bm_h src)) bd bs mode =
      Inr ((dl, dt, dr, db), (sl, st, sr, sb))"
    using assms(1) by (auto simp: stretch_clip_def split: sum.splits)
  from ClipScale_within[OF this] show ?thesis
    using assms(2) by (auto simp: mulf_ok_def span_within_def)
qed

text \<open>
  C37. Stretching takes every pixel from its nearest source pixel: after the rectangles are cut to
  their bitmaps, destination column \<open>t\<close> shows source column \<open>(t - dl) * sw div dw\<close>, rows alike,
  counted from the other end where the mode mirrors that axis - the source pixel is always on the
  source bitmap - except that a masked stretch leaves out the transparent colour; all other
  pixels stay.
\<close>

theorem bresenham_is_nearest:
  assumes "canvas_ok dst" and "canvas_ok src" and "fmt_bpp (bm_fmt src) = fmt_bpp (bm_fmt dst)"
    and "\<not> (dw = sw \<and> dh = sh)" and "mulf_ok mulf"
    and "stretch_clip mulf dst src (dx, dy, dx + dw, dy + dh) (sx, sy, sx + sw, sy + sh) mode =
      Some ((dl, dt, dr, db), (sl, st, sr, sb))"
    and "sl < sr" and "st < sb" and "in_bitmap dst t s"
    and "u = near (has_flag mode PIXEL_FLAG_HFLIP) dl dr sl sr t"
    and "v = near (has_flag mode PIXEL_FLAG_VFLIP) dt db st sb s"
  shows "(dl \<le> t \<and> t < dr \<and> dt \<le> s \<and> s < db \<longrightarrow> in_bitmap src u v) \<and>
    GetPixel (BresenhamStretch mulf dst dx dy dw dh src m sx sy sw sh mode) t s =
     (if dl \<le> t \<and> t < dr \<and> dt \<le> s \<and> s < db \<and>
         (has_flag mode PIXEL_FLAG_MASK \<longrightarrow> GetPixel src u v \<noteq> cmask (pixelsize (bm_fmt dst)) m)
      then GetPixel src u v else GetPixel dst t s)"
proof -
  note w = stretch_clip_within[OF assms(6,5)]
  have ts: "0 \<le> t" "t < int (bm_w dst)" "0 \<le> s" "s < int (bm_h dst)" using assms(9) by (simp_all add: in_bitmap_def)
  have ps: "pixelsize (bm_fmt src) = pixelsize (bm_fmt dst)" by (rule same_bpp_size[OF assms(3)])
  have uv: "in_bitmap src u v" if "dl \<le> t" "t < dr" "dt \<le> s" "s < db"
    using near_within[OF that(1,2) assms(7)] near_within[OF that(3,4) assms(8)] w
    unfolding assms(10,11) in_bitmap_def by (meson order.strict_trans2 order.trans)
  have e: "BresenhamStretch mulf dst dx dy dw dh src m sx sy sw sh mode =
      bres_rows dst src m (dl, dt, dr, db) (sl, st, sr, sb) mode"
    using assms(3,4,6) by (auto simp: BresenhamStretch_def)
  show ?thesis
  proof (cases "dl < dr \<and> dt < db")
    case False
    then show ?thesis using uv by (auto simp: e bres_rows_def)
  next
    case True
    define R where "R = (\<lambda>j. bres_row (pixelsize (bm_fmt dst)) (has_flag mode PIXEL_FLAG_HFLIP)
      (has_flag mode PIXEL_FLAG_MASK) m sl (sr - sl)
      (Line src (bres_positions (nat (db - dt)) (if has_flag mode PIXEL_FLAG_VFLIP then st + (sb - st) - 1 else st)
         (2 * (sb - st) - 2 * (db - dt)) (if has_flag mode PIXEL_FLAG_VFLIP then - 1 else 1)
         (2 * (sb - st)) (2 * (db - dt)) ! j)) (nat dl) (dr - dl))"
    have b: "bres_rows dst src m (dl, dt, dr, db) (sl, st, sr, sb) mode = each_row R dt (nat (db - dt)) dst"
      using True assms(7,8) by (simp add: bres_rows_def R_def Let_def)
    have g: "GetPixel (each_row R dt (nat (db - dt)) dst) t s =
        (if dt \<le> s \<and> s < dt + int (nat (db - dt))
         then px_get (pixelsize (bm_fmt dst)) (R (nat (s - dt)) (Line dst s)) (nat t) else GetPixel dst t s)"
      by (rule GetPixel_each_row[OF assms(1) _ _ assms(9)]) (use True w in auto)
    show ?thesis
    proof (cases "dt \<le> s \<and> s < db")
      case False
      then show ?thesis using g uv by (auto simp: e b)
    next
      case in_rows: True
      have v: "bres_positions (nat (db - dt)) (if has_flag mode PIXEL_FLAG_VFLIP then st + (sb - st) - 1 else st)
         (2 * (sb - st) - 2 * (db - dt)) (if has_flag mode PIXEL_FLAG_VFLIP then - 1 else 1)
         (2 * (sb - st)) (2 * (db - dt)) ! nat (s - dt) = v"
        using bres_positions_near[OF assms(8), of dt s db] in_rows by (simp only: assms(11))
      have vb: "0 \<le> v" "v < int (bm_h src)"
        using near_within[of dt s db st sb "has_flag mode PIXEL_FLAG_VFLIP"] in_rows assms(8,11) w by auto
      have "px_get (pixelsize (bm_fmt dst)) (R (nat (s - dt)) (Line dst s)) (nat t) =
        (let p = px_get (pixelsize (bm_fmt dst)) (Line src v) (nat u) in
         if dl \<le> t \<and> t < dr \<and> (has_flag mode PIXEL_FLAG_MASK \<longrightarrow> p \<noteq> cmask (pixelsize (bm_fmt dst)) m)
         then p else px_get (pixelsize (bm_fmt dst)) (Line dst s) (nat t))"
        unfolding R_def v assms(10)
        using px_width_line[OF assms(1) ts(3,4)] px_width_line[OF assms(2) vb] w True ts ps assms(7)
        by (intro bres_row_pixel) auto
      moreover have "px_get (pixelsize (bm_fmt dst)) (Line dst s) (nat t) = GetPixel dst t s"
        using assms(9) by (simp add: GetPixel_def)
      moreover have "px_get (pixelsize (bm_fmt dst)) (Line src v) (nat u) = GetPixel src u v" if "dl \<le> t" "t < dr"
        using uv[OF that] in_rows by (simp add: GetPixel_def ps)
      ultimately show ?thesis using g in_rows True uv by (auto simp: e b Let_def)
    qed
  qed
qed

theorem bresenham_is_nearest_witness:
  "GetPixel (BresenhamStretch (\<lambda>d n m. d * n div m) (ex_gray 4 [[1, 2, 3, 4]]) 0 0 4 1 (ex_gray 2 [[7, 9, 0, 0]]) 0 0 0 2 1 2) 1 0 = 9"
proof -
  let ?m = "\<lambda>d n m :: int. d * n div m" and ?d = "ex_gray 4 [[1, 2, 3, 4]]" and ?s = "ex_gray 2 [[7, 9, 0, 0]]"
  have ok: "canvas_ok ?d" "canvas_ok ?s" "fmt_bpp (bm_fmt ?s) = fmt_bpp (bm_fmt ?d)" "in_bitmap ?d 1 0"
    by code_simp+
  have m: "mulf_ok ?m" by (simp add: mulf_ok_def pos_imp_zdiv_nonneg_iff)
  have c: "stretch_clip ?m ?d ?s (0, 0, 0 + 4, 0 + 1) (0, 0, 0 + 2, 0 + 1) 2 = Some ((0, 0, 4, 1), (0, 0, 2, 1))"
    by code_simp
  have u: "1 = near (has_flag 2 PIXEL_FLAG_HFLIP) 0 4 0 2 1" "0 = near (has_flag 2 PIXEL_FLAG_VFLIP) 0 1 0 1 0"
    "has_flag 2 PIXEL_FLAG_MASK = False" "GetPixel ?s 1 0 = 9"
    by code_simp+
  have n: "\<not> ((4 :: int) = 2 \<and> (1 :: int) = 1)" by simp
  show ?thesis
    using bresenham_is_nearest[OF ok(1-3) n m c _ _ ok(4) u(1,2), of 0] u(3,4) by simp
qed

end
