(* ===== verification/Bitmap_Ops.thy ===== *)
theory Bitmap_Ops
  imports Scale_Crop
begin

text \<open>
  The smaller operations of BasicBitmap.cpp on whole bitmaps: premultiplying and its inverse,
  shuffling channels, setting alpha, blocks of grey values, rows read and written through a
  palette with \<open>BestfitColor\<close>, glyphs, halving with \<open>DownSampleBy2\<close>, the channel copies
  \<open>SplitChannel\<close> and \<open>MergeChannel\<close>, whose inner loop does not end, and \<open>QuickText\<close>.
\<close>

unbundle bit_operations_syntax

section \<open>One pixel after the other\<close>

text \<open>The loops that replace every pixel of a row by a function of itself.\<close>

definition map_row :: "nat \<Rightarrow> (u32 \<Rightarrow> u32) \<Rightarrow> nat \<Rightarrow> bytes \<Rightarrow> bytes" where
  "map_row ps f w r = put_list (px_put ps) r 0 (map (\<lambda>i. f (px_get ps r i)) [0..<w])"

definition pixelwise :: "(u32 \<Rightarrow> u32) \<Rightarrow> bitmap \<Rightarrow> bitmap" where
  "pixelwise f b = each_row (\<lambda>_. map_row (pixelsize (bm_fmt b)) f (bm_w b)) 0 (bm_h b) b"

definition premul_card :: "bool \<Rightarrow> u32 \<Rightarrow> u32" where
  "premul_card reverse c = (case pixel_disasm_8888 c of (a, r, g, b) \<Rightarrow>
     if \<not> reverse then
       pixel_save_card (fast_div_255 (r * a)) (fast_div_255 (g * a)) (fast_div_255 (b * a)) a
     else if a > 0 then pixel_save_card (r * 255 div a) (g * 255 div a) (b * 255 div a) a
     else pixel_save_card 0 0 0 a)"

definition premul_4444 :: "bool \<Rightarrow> u32 \<Rightarrow> u32" where
  "premul_4444 reverse c = (case pixel_disasm_4444 c of (a, r, g, b) \<Rightarrow>
     ucast (if \<not> reverse then pixel_asm_4444 a (fast_div_255 (r * a)) (fast_div_255 (g * a)) (fast_div_255 (b * a))
       else if a > 0 then pixel_asm_4444 a (r * 255 div a) (g * 255 div a) (b * 255 div a)
       else pixel_asm_4444 a 0 0 0))"

definition Premultiply :: "bool \<Rightarrow> bitmap \<Rightarrow> bitmap" where
  "Premultiply reverse b =
     (case bm_fmt b of
        X8R8G8B8 \<Rightarrow> pixelwise (\<lambda>c. c OR 0xff000000) b
      | A8R8G8B8 \<Rightarrow> pixelwise (premul_card reverse) b
      | A1R5G5B5 \<Rightarrow> if reverse then b else pixelwise (\<lambda>c. if c AND 0x8000 = 0 then 0 else c) b
      | A4R4G4B4 \<Rightarrow> pixelwise (premul_4444 reverse) b
      | _ \<Rightarrow> b)"

text \<open>\<open>Shuffle\<close>: \<open>None\<close> for an index outside of the bytes read of a pixel.\<close>

definition quad_byte :: "u32 \<Rightarrow> nat \<Rightarrow> u32" where
  "quad_byte c k = drop_bit (8 * k) c AND 0xff"

definition shuffle_px :: "nat \<Rightarrow> nat \<Rightarrow> nat \<Rightarrow> nat \<Rightarrow> u32 \<Rightarrow> u32" where
  "shuffle_px b0 b1 b2 b3 c = pixel_asm_8888 (quad_byte c b3) (quad_byte c b2) (quad_byte c b1) (quad_byte c b0)"

definition Shuffle :: "nat \<Rightarrow> nat \<Rightarrow> nat \<Rightarrow> nat \<Rightarrow> bitmap \<Rightarrow> bitmap option" where
  "Shuffle b0 b1 b2 b3 b =
     (if fmt_bpp (bm_fmt b) = 32
      then if b0 < 4 \<and> b1 < 4 \<and> b2 < 4 \<and> b3 < 4 then Some (pixelwise (shuffle_px b0 b1 b2 b3) b) else None
      else if fmt_bpp (bm_fmt b) = 24
      then if b0 < 3 \<and> b1 < 3 \<and> b2 < 3 then Some (pixelwise (\<lambda>c. shuffle_px b0 b1 b2 3 (c AND 0xffffff)) b) else None
      else Some b)"

definition SetAlphaForAllPixel :: "u32 \<Rightarrow> bitmap \<Rightarrow> bitmap" where
  "SetAlphaForAllPixel alpha b =
     (if fmt_bpp (bm_fmt b) \<noteq> 32 then b
      else each_row (\<lambda>_ r. put_list (px_put 4) r 0
             (CardSetAlpha alpha (map (px_get 4 r) [0..<bm_w b]))) 0 (bm_h b) b)"

lemma get_map_row:
  assumes "w \<le> px_width ps r" and "i < w"
  shows "px_get ps (map_row ps f w r) i = px_wrap ps (f (px_get ps r i))"
  using assms row_raster.get_put_list[of 0 "map (\<lambda>i. f (px_get ps r i)) [0..<w]" ps r i]
  by (simp add: map_row_def)

lemma pixelwise_frame [simp]:
  "bm_w (pixelwise f b) = bm_w b" "bm_h (pixelwise f b) = bm_h b" "bm_fmt (pixelwise f b) = bm_fmt b"
  by (simp_all add: pixelwise_def each_row_frame)

lemma GetPixel_pixelwise:
  assumes "canvas_ok b" and "in_bitmap b x y"
  shows "GetPixel (pixelwise f b) x y = bm_wrap b (f (GetPixel b x y))"
proof -
  have xy: "0 \<le> x" "nat x < bm_w b" "0 \<le> y" "y < int (bm_h b)" using assms(2) by (auto simp: in_bitmap_def)
  have "GetPixel (pixelwise f b) x y =
      px_get (pixelsize (bm_fmt b)) (map_row (pixelsize (bm_fmt b)) f (bm_w b) (Line b y)) (nat x)"
    unfolding pixelwise_def
    using GetPixel_each_row[OF assms(1) _ _ assms(2), of 0 "bm_h b" "\<lambda>_. map_row (pixelsize (bm_fmt b)) f (bm_w b)"]
      xy by simp
  also have "\<dots> = bm_wrap b (f (GetPixel b x y))"
    using get_map_row[OF px_width_line[OF assms(1) xy(3,4)] xy(2)] assms(2)
    by (simp add: bm_wrap_def GetPixel_def)
  finally show ?thesis .
qed

lemma length_put_px:
  "0 < ps \<Longrightarrow> x + length cs \<le> px_width ps r \<Longrightarrow> length (put_list (px_put ps) r x cs) = length r"
proof (induction cs arbitrary: x r)
  case (Cons c cs)
  then have "ps * x + ps \<le> length r" using px_width_less[of ps x r] by simp
  then have l: "length (px_put ps r x c) = length r" by (rule length_px_put)
  then have "px_width ps (px_put ps r x c) = px_width ps r" by (simp add: px_width_def)
  then show ?case using Cons l by simp
qed simp

lemma Line_length: "canvas_ok b \<Longrightarrow> 0 \<le> y \<Longrightarrow> y < int (bm_h b) \<Longrightarrow> length (Line b y) = pitch_of (bm_w b) (bm_fmt b)"
  by (simp add: canvas_ok_def bitmap_ok_def Line_def nat_less_iff)

lemma each_row_ok:
  assumes "canvas_ok b" and "0 \<le> y" and "y + int h \<le> int (bm_h b)"
    and "\<And>j r. length r = pitch_of (bm_w b) (bm_fmt b) \<Longrightarrow> length (f j r) = length r"
  shows "canvas_ok (each_row f y h b)"
  using assms(3)
proof (induction h)
  case 0
  then show ?case using assms(1) by (simp add: each_row_def)
next
  case (Suc h)
  let ?b = "each_row f y h b"
  have ok: "canvas_ok ?b" using Suc by simp
  then have "length (Line ?b (y + int h)) = pitch_of (bm_w b) (bm_fmt b)"
    using Suc.prems assms(2) by (simp add: canvas_ok_def bitmap_ok_def Line_def nat_less_iff each_row_frame)
  then show ?case unfolding each_row_Suc Let_def
    by (intro set_line_ok[OF ok]) (simp add: each_row_frame assms(4))
qed

lemma pixelwise_ok: "canvas_ok b \<Longrightarrow> canvas_ok (pixelwise f b)"
proof -
  assume b: "canvas_ok b"
  then have ps: "0 < pixelsize (bm_fmt b)" using pixelsize_cases by (simp add: canvas_ok_def)
  have "length (map_row (pixelsize (bm_fmt b)) f (bm_w b) r) = length r"
    if "length r = pitch_of (bm_w b) (bm_fmt b)" for r
    unfolding map_row_def
    using that ps pitch_holds_row[of "bm_w b" "bm_fmt b"]
    by (intro length_put_px) (simp_all add: px_width_def less_eq_div_iff_mult_less_eq)
  then show ?thesis unfolding pixelwise_def by (intro each_row_ok[OF b]) simp_all
qed

text \<open>What premultiplying gives: each channel times alpha over 255, rounded down.\<close>

lemma unat_byte_prod: "is_byte a \<Longrightarrow> is_byte b \<Longrightarrow> unat (a * b) = unat a * unat b \<and> unat a * unat b \<le> 65025"
proof -
  assume "is_byte a" "is_byte b"
  then have l: "unat a \<le> 255" "unat b \<le> 255" by (simp_all add: is_byte_nat)
  then have "unat a * unat b \<le> 255 * 255" by (intro mult_le_mono)
  then show ?thesis by (simp add: unat_mult_small)
qed

lemma premul_channel:
  assumes "is_byte c" and "is_byte a"
  shows "unat (fast_div_255 (c * a) AND 0xff) = unat c * unat a div 255"
proof -
  have p: "unat (c * a) = unat c * unat a" "unat c * unat a \<le> 65025" using unat_byte_prod[OF assms] by auto
  have e: "unat (fast_div_255 (c * a)) = unat c * unat a div 255"
    using fast_div_255_exact[of "c * a"] p by simp
  have "unat c * unat a div 255 \<le> 255" using p(2) by simp
  then have "is_byte (fast_div_255 (c * a))" by (simp add: is_byte_nat e)
  then show ?thesis using e by simp
qed

lemma unpremul_channel:
  assumes "is_byte c" and "is_byte a" and "0 < unat a"
  shows "unat ((c * 255 div a) AND 0xff) = (unat c * 255 div unat a) mod 256"
proof -
  have p: "unat (c * 255) = unat c * 255" using unat_byte_prod[of c 255] assms by simp
  have "unat ((c * 255 div a) AND 0xff) = unat (c * 255 div a) AND 255" by (simp add: unsigned_and_eq)
  also have "\<dots> = take_bit 8 (unat (c * 255 div a))" by (simp add: take_bit_eq_mask mask_eq_exp_minus_1)
  also have "unat (c * 255 div a) = unat c * 255 div unat a" by (simp add: unat_div p)
  finally show ?thesis by (simp add: take_bit_eq_mod)
qed

lemma quad_byte_of: "quad_byte c k = byte_of (8 * k) c"
  by (simp add: quad_byte_def byte_of_def)

lemma byte_of_asm:
  assumes "is_byte a" "is_byte r" "is_byte g" "is_byte b"
  shows "byte_of 24 (pixel_asm_8888 a r g b) = a" "byte_of 16 (pixel_asm_8888 a r g b) = r"
    "byte_of 8 (pixel_asm_8888 a r g b) = g" "byte_of 0 (pixel_asm_8888 a r g b) = b"
  using disasm_asm_8888[OF assms] by (simp_all add: pixel_disasm_8888_def byte_of_def)

lemma premul_card_bytes:
  shows "byte_of 24 (premul_card rv c) = byte_of 24 c"
    and "k \<in> {0, 8, 16} \<Longrightarrow> unat (byte_of k (premul_card False c)) = unat (byte_of k c) * unat (byte_of 24 c) div 255"
    and "k \<in> {0, 8, 16} \<Longrightarrow> unat (byte_of k (premul_card True c)) =
      (if byte_of 24 c = 0 then 0 else unat (byte_of k c) * 255 div unat (byte_of 24 c) mod 256)"
proof -
  have d: "pixel_disasm_8888 c = (byte_of 24 c, byte_of 16 c, byte_of 8 c, byte_of 0 c)"
    by (simp add: pixel_disasm_8888_def byte_of_def)
  show "byte_of 24 (premul_card rv c) = byte_of 24 c"
    by (simp add: premul_card_def d pixel_save_card_def byte_of_asm)
  show "unat (byte_of k (premul_card False c)) = unat (byte_of k c) * unat (byte_of 24 c) div 255"
    if "k \<in> {0, 8, 16}"
    using that by (auto simp: premul_card_def d pixel_save_card_def byte_of_asm premul_channel)
  show "unat (byte_of k (premul_card True c)) =
      (if byte_of 24 c = 0 then 0 else unat (byte_of k c) * 255 div unat (byte_of 24 c) mod 256)"
    if "k \<in> {0, 8, 16}"
  proof (cases "byte_of 24 c = 0")
    case True
    then show ?thesis using that by (auto simp: premul_card_def d pixel_save_card_def byte_of_asm)
  next
    case False
    then have "0 < unat (byte_of 24 c)" "byte_of 24 c > 0" by (simp_all add: unat_gt_0 word_greater_zero_iff)
    then show ?thesis using that False
      by (auto simp: premul_card_def d pixel_save_card_def byte_of_asm unpremul_channel)
  qed
qed

lemma unpremul_premul_nat:
  fixes c a :: nat
  assumes "0 < a" and "c \<le> 255"
  shows "c * a div 255 * 255 div a \<le> c" and "c \<le> c * a div 255 * 255 div a + (253 + a) div a"
proof -
  let ?q = "c * a div 255"
  have q: "?q * 255 \<le> c * a" "c * a \<le> ?q * 255 + 254"
    using div_mult_mod_eq[of "c * a" 255] mod_less_divisor[of 255 "c * a"] by linarith+
  then show "?q * 255 div a \<le> c" using assms(1) div_le_mono[OF q(1), of a] by simp
  let ?z = "?q * 255 div a"
  let ?y = "(253 + a) div a"
  have z: "?q * 255 < (?z + 1) * a"
    unfolding distrib_right using div_mult_mod_eq[of "?q * 255" a] mod_less_divisor[OF assms(1), of "?q * 255"]
    by linarith
  have y: "254 \<le> ?y * a"
    using div_mult_mod_eq[of "253 + a" a] mod_less_divisor[OF assms(1), of "253 + a"] by linarith
  have "c * a < (?z + 1 + ?y) * a" using q(2) z y by (simp add: algebra_simps)
  then have "c < ?z + 1 + ?y" by (simp only: mult_less_cancel2)
  then show "c \<le> ?z + ?y" by simp
qed

text \<open>
  Premultiplying a bitmap and undoing it keeps alpha, never makes a channel brighter and loses
  at most 254 / alpha, rounded up, of it - no channel wraps; a clear pixel loses its colour.
\<close>

theorem premultiply_undone:
  assumes "canvas_ok b" and "bm_fmt b = A8R8G8B8" and "in_bitmap b x y" and "k \<in> {0, 8, 16}"
    and "p = GetPixel b x y" and "p' = GetPixel (Premultiply True (Premultiply False b)) x y"
    and "al = unat (byte_of 24 p)"
  shows "unat (byte_of 24 p') = al \<and>
    (if al = 0 then byte_of k p' = 0
     else unat (byte_of k p') \<le> unat (byte_of k p) \<and> unat (byte_of k p) \<le> unat (byte_of k p') + (253 + al) div al)"
proof -
  have w: "bm_wrap (pixelwise f b) c = c" "bm_wrap b c = c" for f c
    using assms(2) take_bit_length_eq[where 'a = 32, simplified]
    by (simp_all add: bm_wrap_def px_wrap_def pixelsize_def)
  have ok: "canvas_ok (pixelwise (premul_card False) b)"
    by (rule pixelwise_ok[OF assms(1)])
  have p': "p' = premul_card True (premul_card False p)"
    using GetPixel_pixelwise[OF ok, of x y "premul_card True"] GetPixel_pixelwise[OF assms(1,3), of "premul_card False"]
      assms(2,3,5,6) w by (simp add: Premultiply_def in_bitmap_def)
  have al: "byte_of 24 (premul_card False p) = byte_of 24 p" "byte_of 24 p' = byte_of 24 p"
    unfolding p' by (simp_all only: premul_card_bytes(1))
  have z: "al = 0 \<longleftrightarrow> byte_of 24 p = 0" by (simp add: assms(7) unat_eq_0)
  have c: "unat (byte_of k p) \<le> 255" using byte_of_is_byte[of k p] by (simp only: is_byte_nat)
  have v: "unat (byte_of k p') = (if al = 0 then 0 else unat (byte_of k p) * al div 255 * 255 div al mod 256)"
    unfolding p' premul_card_bytes(3)[OF assms(4)] premul_card_bytes(2)[OF assms(4)] al(1) z
    by (simp add: assms(7))
  show ?thesis
  proof (cases "al = 0")
    case True
    then show ?thesis using v al(2) assms(7) by (simp add: unat_eq_0)
  next
    case False
    note u = unpremul_premul_nat[of al "unat (byte_of k p)"]
    have "unat (byte_of k p) * al div 255 * 255 div al < 256" using u(1) False c by simp
    then have "unat (byte_of k p') = unat (byte_of k p) * al div 255 * 255 div al" using v False by simp
    then show ?thesis using u False c al(2) assms(7) by simp
  qed
qed
theorem premultiply_undone_witness:
  "unat (byte_of 16 (GetPixel (Premultiply True (Premultiply False
     \<lparr>bm_w = 1, bm_h = 1, bm_fmt = A8R8G8B8, bm_lines = [[10, 20, 200, 100]]\<rparr>)) 0 0)) \<in> {197..200}"
proof -
  let ?b = "\<lparr>bm_w = 1, bm_h = 1, bm_fmt = A8R8G8B8, bm_lines = [[10, 20, 200, 100]]\<rparr>"
  have f: "canvas_ok ?b" "bm_fmt ?b = A8R8G8B8" "in_bitmap ?b 0 0" "(16 :: nat) \<in> {0, 8, 16}"
    "unat (byte_of 16 (GetPixel ?b 0 0)) = 200" "unat (byte_of 24 (GetPixel ?b 0 0)) = 100"
    by code_simp+
  show ?thesis using premultiply_undone[OF f(1-4) refl refl refl] f(5,6) by simp
qed

text \<open>Not so for pixels that were never premultiplied: a channel above alpha wraps.\<close>

lemma unpremul_wraps: "byte_of 16 (premul_card True 0x80FF0000) = 0xfc"
  by code_simp

section \<open>Blocks of grey values\<close>

text \<open>\<open>None\<close> is the error code; the values come row after row, zero where the bitmap ends.\<close>

definition block_inside :: "bitmap \<Rightarrow> int \<Rightarrow> int \<Rightarrow> int \<Rightarrow> int \<Rightarrow> bool" where
  "block_inside b x y w h \<longleftrightarrow> 0 \<le> x \<and> 0 \<le> y \<and> x + w \<le> int (bm_w b) \<and> y + h \<le> int (bm_h b)"

definition GetBlock :: "bitmap \<Rightarrow> int \<Rightarrow> int \<Rightarrow> int \<Rightarrow> int \<Rightarrow> u32 list option" where
  "GetBlock b x y w h =
     (if fmt_bpp (bm_fmt b) \<noteq> 8 then None
      else if block_inside b x y w h
      then Some (concat (map (\<lambda>j. map (\<lambda>i. px_get 1 (Line b (y + int j)) (nat x + i)) [0..<nat w]) [0..<nat h]))
      else Some (concat (map (\<lambda>j.
        if 0 \<le> y + int j \<and> y + int j < int (bm_h b)
        then map (\<lambda>i. if 0 \<le> x + int i \<and> x + int i < int (bm_w b)
               then px_get 1 (Line b (y + int j)) (nat (x + int i)) else 0) [0..<nat w]
        else replicate (nat w) 0) [0..<nat h])))"

definition block_row :: "bitmap \<Rightarrow> int \<Rightarrow> int \<Rightarrow> u32 list \<Rightarrow> bytes \<Rightarrow> bytes" where
  "block_row b x w cs r = fold (\<lambda>i r. if 0 \<le> x + int i \<and> x + int i < int (bm_w b)
     then px_put 1 r (nat (x + int i)) (cs ! i) else r) [0..<nat w] r"

definition SetBlock :: "bitmap \<Rightarrow> int \<Rightarrow> int \<Rightarrow> u32 list \<Rightarrow> int \<Rightarrow> int \<Rightarrow> bitmap option" where
  "SetBlock b x y block w h =
     (if fmt_bpp (bm_fmt b) \<noteq> 8 then None
      else if block_inside b x y w h
      then Some (each_row (\<lambda>j r. put_list (px_put 1) r (nat x) (take (nat w) (drop (j * nat w) block))) y (nat h) b)
      else Some (fold (\<lambda>j b'. if 0 \<le> y + int j \<and> y + int j < int (bm_h b)
             then set_line b' (y + int j) (block_row b x w (drop (j * nat w) block) (Line b' (y + int j))) else b')
           [0..<nat h] b))"

lemma GetBlock_uniform:
  assumes "fmt_bpp (bm_fmt b) = 8"
  shows "GetBlock b x y w h = Some (concat (map (\<lambda>j. map (\<lambda>i. GetPixel b (x + int i) (y + int j)) [0..<nat w]) [0..<nat h]))"
proof -
  have ps: "pixelsize (bm_fmt b) = 1" using assms by (simp add: pixelsize_def)
  have "concat (map (\<lambda>j. map (\<lambda>i. px_get 1 (Line b (y + int j)) (nat x + i)) [0..<nat w]) [0..<nat h]) =
      concat (map (\<lambda>j. map (\<lambda>i. GetPixel b (x + int i) (y + int j)) [0..<nat w]) [0..<nat h])"
    if "block_inside b x y w h"
    using that
    by (intro arg_cong[where f = concat] map_cong refl)
      (auto simp: GetPixel_def in_bitmap_def block_inside_def ps nat_add_distrib)
  moreover have "(if 0 \<le> y + int j \<and> y + int j < int (bm_h b)
        then map (\<lambda>i. if 0 \<le> x + int i \<and> x + int i < int (bm_w b)
               then px_get 1 (Line b (y + int j)) (nat (x + int i)) else 0) [0..<nat w]
        else replicate (nat w) 0) = map (\<lambda>i. GetPixel b (x + int i) (y + int j)) [0..<nat w]" for j
    by (auto simp: GetPixel_def in_bitmap_def ps map_replicate_const)
  ultimately show ?thesis using assms
    by (cases "block_inside b x y w h") (simp_all add: GetBlock_def cong: map_cong)
qed

lemma block_row_get:
  assumes "bm_w b \<le> px_width 1 r"
  shows "bm_w b \<le> px_width 1 (block_row b x w cs r) \<and> length (block_row b x w cs r) = length r \<and>
    (k < bm_w b \<longrightarrow> px_get 1 (block_row b x w cs r) k =
      (if x \<le> int k \<and> int k < x + w then px_wrap 1 (cs ! nat (int k - x)) else px_get 1 r k))"
proof -
  have "bm_w b \<le> px_width 1 r' \<and> length r' = length r \<and>
      (k < bm_w b \<longrightarrow> px_get 1 r' k =
        (if x \<le> int k \<and> int k < x + int n then px_wrap 1 (cs ! nat (int k - x)) else px_get 1 r k))"
    if "r' = fold (\<lambda>i r. if 0 \<le> x + int i \<and> x + int i < int (bm_w b)
      then px_put 1 r (nat (x + int i)) (cs ! i) else r) [0..<n] r" for r' n
    using that
  proof (induction n arbitrary: r')
    case (Suc n)
    define q where "q = fold (\<lambda>i r. if 0 \<le> x + int i \<and> x + int i < int (bm_w b)
      then px_put 1 r (nat (x + int i)) (cs ! i) else r) [0..<n] r"
    note IH = Suc.IH[OF q_def]
    have r': "r' = (if 0 \<le> x + int n \<and> x + int n < int (bm_w b) then px_put 1 q (nat (x + int n)) (cs ! n) else q)"
      using Suc.prems by (simp add: q_def)
    show ?case
    proof (cases "0 \<le> x + int n \<and> x + int n < int (bm_w b)")
      case False
      then show ?thesis using IH r' by auto
    next
      case True
      then have i: "nat (x + int n) < px_width 1 q" using IH by linarith
      then have l: "length (px_put 1 q (nat (x + int n)) (cs ! n)) = length q"
        by (intro length_px_put) (simp add: px_width_def)
      have g: "px_get 1 r' k = (if k = nat (x + int n) then px_wrap 1 (cs ! n) else px_get 1 q k)" if "k < bm_w b"
        using row_raster.get_put[OF i, of k "cs ! n"] that IH True r' by simp
      show ?thesis
      proof (intro conjI impI)
        show "bm_w b \<le> px_width 1 r'" "length r' = length r" using IH l True r' by (simp_all add: px_width_def)
        assume k: "k < bm_w b"
        show "px_get 1 r' k = (if x \<le> int k \<and> int k < x + int (Suc n) then px_wrap 1 (cs ! nat (int k - x)) else px_get 1 r k)"
          using g[OF k] IH k True by (cases "k = nat (x + int n)") auto
      qed
    qed
  qed (use assms in auto)
  from this[OF refl, of "nat w"] show ?thesis by (auto simp: block_row_def)
qed

lemma block_rows_frame:
  assumes "canvas_ok b" and "fmt_bpp (bm_fmt b) = 8"
    and "b' = fold (\<lambda>j b'. if 0 \<le> y + int j \<and> y + int j < int (bm_h b)
       then set_line b' (y + int j) (block_row b x w (drop (j * nat w) block) (Line b' (y + int j))) else b') [0..<n] b"
  shows "canvas_ok b' \<and> bm_w b' = bm_w b \<and> bm_h b' = bm_h b \<and> bm_fmt b' = bm_fmt b \<and>
    (\<forall>v. 0 \<le> v \<and> v < int (bm_h b) \<longrightarrow> Line b' v =
      (if y \<le> v \<and> v < y + int n then block_row b x w (drop (nat (v - y) * nat w) block) (Line b v) else Line b v))"
  using assms(3)
proof (induction n arbitrary: b')
  case 0
  then show ?case using assms(1) by auto
next
  case (Suc n)
  define q where "q = fold (\<lambda>j b'. if 0 \<le> y + int j \<and> y + int j < int (bm_h b)
       then set_line b' (y + int j) (block_row b x w (drop (j * nat w) block) (Line b' (y + int j))) else b') [0..<n] b"
  note IH = Suc.IH[OF q_def]
  have ps: "pixelsize (bm_fmt b) = 1" using assms(2) by (simp add: pixelsize_def)
  have b': "b' = (if 0 \<le> y + int n \<and> y + int n < int (bm_h b)
      then set_line q (y + int n) (block_row b x w (drop (n * nat w) block) (Line q (y + int n))) else q)"
    using Suc.prems by (simp add: q_def)
  show ?case
  proof (cases "0 \<le> y + int n \<and> y + int n < int (bm_h b)")
    case False
    then show ?thesis using IH b' by auto
  next
    case True
    have l: "length (Line q (y + int n)) = pitch_of (bm_w b) (bm_fmt b)"
      using Line_length[of q "y + int n"] IH True by simp
    have w: "bm_w b \<le> px_width 1 (Line q (y + int n))"
      using px_width_line[of q "y + int n"] IH True ps by simp
    have ok: "canvas_ok b'" using IH True b' l block_row_get[OF w] by (simp add: set_line_ok)
    have "Line b' v = (if v = y + int n then block_row b x w (drop (n * nat w) block) (Line q (y + int n)) else Line q v)"
      if "0 \<le> v" for v
      using Line_set_line[of q "y + int n" v] IH True that b' by simp
    then show ?thesis using ok IH True b' by auto
  qed
qed

text \<open>
  A block of grey values put into a bitmap comes back: the values read at the same place are
  the values written, cut to a byte, where the block lies on the bitmap and zero where it does not;
  outside of the block no pixel changes.
\<close>

theorem block_roundtrip:
  assumes "canvas_ok b" and "fmt_bpp (bm_fmt b) = 8" and "length block = nat w * nat h" and "SetBlock b x y block w h = Some b'"
  shows "(\<forall>u v. in_bitmap b u v \<longrightarrow> GetPixel b' u v =
      (if x \<le> u \<and> u < x + w \<and> y \<le> v \<and> v < y + h then px_wrap 1 (block ! (nat (v - y) * nat w + nat (u - x))) else GetPixel b u v)) \<and>
    GetBlock b' x y w h = Some (concat (map (\<lambda>j. map (\<lambda>i.
      if in_bitmap b (x + int i) (y + int j) then px_wrap 1 (block ! (j * nat w + i)) else 0) [0..<nat w]) [0..<nat h]))"
proof -
  have ps: "pixelsize (bm_fmt b) = 1" using assms(2) by (simp add: pixelsize_def)
  have lines: "bm_w b' = bm_w b \<and> bm_h b' = bm_h b \<and> bm_fmt b' = bm_fmt b \<and>
    (\<forall>u v. in_bitmap b u v \<longrightarrow> GetPixel b' u v =
      (if x \<le> u \<and> u < x + w \<and> y \<le> v \<and> v < y + h then px_wrap 1 (drop (nat (v - y) * nat w) block ! nat (u - x)) else GetPixel b u v))"
  proof (cases "block_inside b x y w h")
    case True
    define R where "R = (\<lambda>j r. put_list (px_put 1) r (nat x) (take (nat w) (drop (j * nat w) block)))"
    have b': "b' = each_row R y (nat h) b" using assms(2,4) True by (simp add: SetBlock_def R_def)
    have "GetPixel b' u v = (if x \<le> u \<and> u < x + w \<and> y \<le> v \<and> v < y + h
        then px_wrap 1 (drop (nat (v - y) * nat w) block ! nat (u - x)) else GetPixel b u v)" if i: "in_bitmap b u v" for u v
    proof (cases "y \<le> v \<and> v < y + h")
      case False
      have "GetPixel b' u v = (if y \<le> v \<and> v < y + int (nat h)
          then px_get (pixelsize (bm_fmt b)) (R (nat (v - y)) (Line b v)) (nat u) else GetPixel b u v)"
        if "0 \<le> h" unfolding b' using True that by (intro GetPixel_each_row[OF assms(1) _ _ i]) (auto simp: block_inside_def)
      then show ?thesis using False by (cases "0 \<le> h") (auto simp: b' each_row_def)
    next
      case rows: True
      let ?cs = "take (nat w) (drop (nat (v - y) * nat w) block)"
      have g: "GetPixel b' u v = px_get 1 (R (nat (v - y)) (Line b v)) (nat u)"
        unfolding b' using GetPixel_each_row[OF assms(1) _ _ i, of y "nat h" R] True rows ps
        by (auto simp: block_inside_def)
      have lw: "bm_w b \<le> px_width 1 (Line b v)" using px_width_line[OF assms(1)] i ps by (auto simp: in_bitmap_def)
      have "Suc (nat (v - y)) * nat w \<le> nat h * nat w" using rows by (intro mult_le_mono1) auto
      then have "nat (v - y) * nat w + nat w \<le> length block" by (simp add: assms(3) ac_simps)
      then have lc: "length ?cs = nat w" unfolding length_take length_drop by linarith
      have fit: "nat x + length ?cs \<le> px_width 1 (Line b v)" if "0 \<le> w" using that True lw lc by (auto simp: block_inside_def)
      have u: "0 \<le> u" "nat u < px_width 1 (Line b v)" using i lw by (auto simp: in_bitmap_def)
      show ?thesis
      proof (cases "0 \<le> w")
        case True
        have x: "0 \<le> x" using \<open>block_inside b x y w h\<close> by (simp add: block_inside_def)
        have r: "nat x \<le> nat u \<and> nat u < nat x + length ?cs \<longleftrightarrow> x \<le> u \<and> u < x + w"
          using x u(1) True unfolding lc by linarith
        have "GetPixel b' u v = (if x \<le> u \<and> u < x + w then px_wrap 1 (?cs ! (nat u - nat x))
            else px_get 1 (Line b v) (nat u))"
          unfolding g R_def row_raster.get_put_list[OF fit[OF True] u(2)] r ..
        moreover have "?cs ! (nat u - nat x) = drop (nat (v - y) * nat w) block ! nat (u - x)" if "x \<le> u" "u < x + w"
        proof -
          have "nat u - nat x = nat (u - x)" "nat (u - x) < nat w" using that x by linarith+
          then show ?thesis by simp
        qed
        moreover have "px_get 1 (Line b v) (nat u) = GetPixel b u v" using i by (simp add: GetPixel_def ps)
        ultimately show ?thesis using rows by (cases "x \<le> u \<and> u < x + w") (auto simp del: nth_take)
      next
        case False
        moreover have "px_get 1 (Line b v) (nat u) = GetPixel b u v" using i by (simp add: GetPixel_def ps)
        ultimately show ?thesis using g by (auto simp: R_def)
      qed
    qed
    then show ?thesis by (simp add: b' each_row_frame)
  next
    case False
    have b': "b' = fold (\<lambda>j b'. if 0 \<le> y + int j \<and> y + int j < int (bm_h b)
       then set_line b' (y + int j) (block_row b x w (drop (j * nat w) block) (Line b' (y + int j))) else b') [0..<nat h] b"
      using assms(2,4) False by (simp add: SetBlock_def)
    note F = block_rows_frame[OF assms(1,2) b']
    have "GetPixel b' u v = (if x \<le> u \<and> u < x + w \<and> y \<le> v \<and> v < y + h
        then px_wrap 1 (drop (nat (v - y) * nat w) block ! nat (u - x)) else GetPixel b u v)" if i: "in_bitmap b u v" for u v
    proof -
      have lw: "bm_w b \<le> px_width 1 (Line b v)" using px_width_line[OF assms(1)] i ps by (auto simp: in_bitmap_def)
      have "Line b' v = (if y \<le> v \<and> v < y + int (nat h)
          then block_row b x w (drop (nat (v - y) * nat w) block) (Line b v) else Line b v)"
        using F i by (auto simp: in_bitmap_def)
      then show ?thesis
        using block_row_get[OF lw, of x w "drop (nat (v - y) * nat w) block" "nat u"] F i
        by (auto simp: GetPixel_def ps in_bitmap_def)
    qed
    then show ?thesis using F by simp
  qed
  have drop: "drop (j * nat w) block ! i = block ! (j * nat w + i)" if "j < nat h" for i j
  proof -
    have "j * nat w \<le> nat h * nat w" using that by (intro mult_le_mono1) simp
    then show ?thesis using assms(3) by (intro nth_drop) (simp add: mult.commute)
  qed
  have px: "GetPixel b' u v = (if x \<le> u \<and> u < x + w \<and> y \<le> v \<and> v < y + h
      then px_wrap 1 (block ! (nat (v - y) * nat w + nat (u - x))) else GetPixel b u v)" if "in_bitmap b u v" for u v
    using lines that drop[of "nat (v - y)" "nat (u - x)"] by auto
  moreover have "GetBlock b' x y w h = Some (concat (map (\<lambda>j. map (\<lambda>i.
      if in_bitmap b (x + int i) (y + int j) then px_wrap 1 (block ! (j * nat w + i)) else 0) [0..<nat w]) [0..<nat h]))"
    unfolding GetBlock_uniform[of b', unfolded lines[THEN conjunct2, THEN conjunct2, THEN conjunct1], OF assms(2)]
  proof (intro arg_cong[where f = "\<lambda>xs. Some (concat xs)"] map_cong refl)
    fix j i assume "j \<in> set [0..<nat h]" "i \<in> set [0..<nat w]"
    then show "GetPixel b' (x + int i) (y + int j) =
        (if in_bitmap b (x + int i) (y + int j) then px_wrap 1 (block ! (j * nat w + i)) else 0)"
      using px[of "x + int i" "y + int j"] lines by (auto simp: GetPixel_def in_bitmap_def)
  qed
  ultimately show ?thesis by blast
qed

theorem block_roundtrip_witness:
  "\<exists>b'. SetBlock (ex_gray 2 [[1, 2, 0, 0], [3, 4, 0, 0]]) 1 0 [7, 8, 9, 10] 2 2 = Some b' \<and>
     GetBlock b' 1 0 2 2 = Some [7, 0, 9, 0] \<and> GetPixel b' 0 1 = 3"
proof -
  let ?b = "ex_gray 2 [[1, 2, 0, 0], [3, 4, 0, 0]]"
  have f: "canvas_ok ?b" "fmt_bpp (bm_fmt ?b) = 8" "length [7 :: u32, 8, 9, 10] = nat 2 * nat 2"
    by code_simp+
  obtain b' where b': "SetBlock ?b 1 0 [7, 8, 9, 10] 2 2 = Some b'"
    using f(2) by (cases "SetBlock ?b 1 0 [7, 8, 9, 10] 2 2") (auto simp: SetBlock_def split: if_splits)
  have i: "in_bitmap ?b 0 1" "GetPixel ?b 0 1 = 3" "px_wrap 1 7 = 7" "px_wrap 1 9 = 9" by code_simp+
  have g: "concat (map (\<lambda>j. map (\<lambda>i. if in_bitmap ?b (1 + int i) (0 + int j)
      then px_wrap 1 ([7, 8, 9, 10] ! (j * nat 2 + i)) else 0) [0..<nat 2]) [0..<nat 2]) = [7, 0, 9, 0 :: u32]"
    by code_simp
  show ?thesis using block_roundtrip[OF f b'] b' i g by (intro exI[of _ b']) simp
qed

section \<open>Palettes\<close>

text \<open>
  \<open>BestfitColor\<close>: the squares of the differences, weighted by the squares of 30, 59 and 11 - the
  table \<open>diff_lookup\<close> - added up green first and given up as soon as the sum is not lower.
\<close>

type_synonym rgb = "nat \<times> nat \<times> nat"

definition diff_lookup :: "nat \<Rightarrow> nat \<Rightarrow> nat \<Rightarrow> nat" where
  "diff_lookup weight c c' = nat ((int c - int c') ^ 2) * weight * weight"

fun bestfit_loop :: "rgb list \<Rightarrow> nat \<Rightarrow> rgb \<Rightarrow> nat \<Rightarrow> nat \<Rightarrow> nat" where
  "bestfit_loop [] i rgb lowest bestfit = bestfit"
| "bestfit_loop ((r', g', b') # pal) i (r, g, b) lowest bestfit =
     (let coldiff = diff_lookup 59 g' g in
      if coldiff \<ge> lowest then bestfit_loop pal (Suc i) (r, g, b) lowest bestfit
      else let coldiff = coldiff + diff_lookup 30 r' r in
      if coldiff \<ge> lowest then bestfit_loop pal (Suc i) (r, g, b) lowest bestfit
      else let coldiff = coldiff + diff_lookup 11 b' b in
      if coldiff \<ge> lowest then bestfit_loop pal (Suc i) (r, g, b) lowest bestfit
      else if coldiff = 0 then i
      else bestfit_loop pal (Suc i) (r, g, b) coldiff i)"

definition bestfit_start :: nat where
  "bestfit_start = 0x7FFFFFFF"

definition BestfitColor :: "rgb list \<Rightarrow> int \<Rightarrow> int \<Rightarrow> int \<Rightarrow> nat" where
  "BestfitColor pal r g b =
     bestfit_loop pal 0 (nat (r AND 255), nat (g AND 255), nat (b AND 255)) bestfit_start 0"

definition col_dist :: "rgb \<Rightarrow> rgb \<Rightarrow> nat" where
  "col_dist p q = (case p of (r', g', b') \<Rightarrow> case q of (r, g, b) \<Rightarrow>
     diff_lookup 59 g' g + diff_lookup 30 r' r + diff_lookup 11 b' b)"

text \<open>The loop finds the first entry of least distance, if there is one below \<open>lowest\<close>.\<close>

lemma bestfit_loop_first:
  "(\<forall>k<length pal. lowest \<le> col_dist (pal ! k) q) \<and> bestfit_loop pal i q lowest bf = bf \<or>
   (\<exists>k<length pal. bestfit_loop pal i q lowest bf = i + k \<and> col_dist (pal ! k) q < lowest \<and>
      (\<forall>j<length pal. col_dist (pal ! k) q \<le> col_dist (pal ! j) q) \<and>
      (\<forall>j<k. col_dist (pal ! k) q < col_dist (pal ! j) q))"
proof (induction pal arbitrary: i lowest bf)
  case (Cons p pal)
  obtain r' g' b' r g b where pq: "p = (r', g', b')" "q = (r, g, b)" by (metis prod.exhaust)
  have step: "bestfit_loop (p # pal) i q lowest bf =
      (if lowest \<le> col_dist p q then bestfit_loop pal (Suc i) q lowest bf
       else if col_dist p q = 0 then i else bestfit_loop pal (Suc i) q (col_dist p q) i)"
    by (auto simp: pq col_dist_def Let_def)
  consider "lowest \<le> col_dist p q" | "col_dist p q < lowest" "col_dist p q = 0"
    | "col_dist p q < lowest" "0 < col_dist p q" by linarith
  then show ?case
  proof cases
    case 1
    then have e: "bestfit_loop (p # pal) i q lowest bf = bestfit_loop pal (Suc i) q lowest bf" by (simp add: step)
    from Cons.IH[of lowest "Suc i" bf] show ?thesis
    proof (elim disjE conjE exE)
      assume "\<forall>k<length pal. lowest \<le> col_dist (pal ! k) q" "bestfit_loop pal (Suc i) q lowest bf = bf"
      then show ?thesis using 1 e by (intro disjI1) (simp add: nth_Cons' All_less_Suc2)
    next
      fix k assume k: "k < length pal" "bestfit_loop pal (Suc i) q lowest bf = Suc i + k"
        "col_dist (pal ! k) q < lowest" "\<forall>j<length pal. col_dist (pal ! k) q \<le> col_dist (pal ! j) q"
        "\<forall>j<k. col_dist (pal ! k) q < col_dist (pal ! j) q"
      then show ?thesis using 1 e
        by (intro disjI2 exI[of _ "Suc k"]) (auto simp: nth_Cons' less_Suc_eq_0_disj)
    qed
  next
    case 2
    then show ?thesis by (intro disjI2 exI[of _ 0]) (simp add: step)
  next
    case 3
    then have e: "bestfit_loop (p # pal) i q lowest bf = bestfit_loop pal (Suc i) q (col_dist p q) i" by (simp add: step)
    from Cons.IH[of "col_dist p q" "Suc i" i] show ?thesis
    proof (elim disjE conjE exE)
      assume "\<forall>k<length pal. col_dist p q \<le> col_dist (pal ! k) q" "bestfit_loop pal (Suc i) q (col_dist p q) i = i"
      then show ?thesis using 3 e
        by (intro disjI2 exI[of _ 0]) (auto simp: nth_Cons')
    next
      fix k assume k: "k < length pal" "bestfit_loop pal (Suc i) q (col_dist p q) i = Suc i + k"
        "col_dist (pal ! k) q < col_dist p q" "\<forall>j<length pal. col_dist (pal ! k) q \<le> col_dist (pal ! j) q"
        "\<forall>j<k. col_dist (pal ! k) q < col_dist (pal ! j) q"
      then show ?thesis using 3 e
        by (intro disjI2 exI[of _ "Suc k"]) (auto simp: nth_Cons' less_Suc_eq_0_disj)
    qed
  qed
qed simp

lemma diff_lookup_bound: "c \<le> 255 \<Longrightarrow> c' \<le> 255 \<Longrightarrow> diff_lookup w c c' \<le> 65025 * w * w"
proof -
  assume "c \<le> 255" "c' \<le> 255"
  then have "\<bar>int c - int c'\<bar> \<le> 255" by linarith
  then have "(int c - int c')\<^sup>2 \<le> 255\<^sup>2" using abs_le_square_iff[of "int c - int c'" 255] by simp
  then have "nat ((int c - int c')\<^sup>2) \<le> 65025" by simp
  then show ?thesis unfolding diff_lookup_def by (intro mult_le_mono1)
qed

lemma col_dist_bound:
  "r \<le> 255 \<Longrightarrow> g \<le> 255 \<Longrightarrow> b \<le> 255 \<Longrightarrow> r' \<le> 255 \<Longrightarrow> g' \<le> 255 \<Longrightarrow> b' \<le> 255 \<Longrightarrow>
   col_dist (r', g', b') (r, g, b) < bestfit_start"
  using diff_lookup_bound[of g' g 59] diff_lookup_bound[of r' r 30] diff_lookup_bound[of b' b 11]
  by (simp add: col_dist_def bestfit_start_def)

definition rgb_ok :: "rgb \<Rightarrow> bool" where
  "rgb_ok = (\<lambda>(r, g, b). r \<le> 255 \<and> g \<le> 255 \<and> b \<le> 255)"

lemma bestfit_near:
  assumes "pal \<noteq> []" and "list_all rgb_ok pal" and "0 \<le> r" "r \<le> 255" "0 \<le> g" "g \<le> 255" "0 \<le> b" "b \<le> 255"
    and "k = BestfitColor pal r g b" and "q = (nat r, nat g, nat b)"
  shows "k < length pal \<and> (\<forall>j<length pal. col_dist (pal ! k) q \<le> col_dist (pal ! j) q) \<and>
    (\<forall>j<k. col_dist (pal ! k) q < col_dist (pal ! j) q) \<and>
    (\<forall>j<length pal. col_dist (pal ! j) q < bestfit_start) \<and> bestfit_start < 2 ^ 31"
proof -
  have and255: "x AND 255 = x" if "0 \<le> x" "x \<le> 255" for x :: int
    using that take_bit_eq_mask[of 8 x] by (simp add: take_bit_eq_mod mask_eq_exp_minus_1)
  have k: "k = bestfit_loop pal 0 q bestfit_start 0"
    using assms by (simp add: BestfitColor_def and255)
  have below: "col_dist (pal ! j) q < bestfit_start" if j: "j < length pal" for j
  proof -
    obtain r' g' b' where p: "pal ! j = (r', g', b')" "r' \<le> 255" "g' \<le> 255" "b' \<le> 255"
      using assms(2) j by (cases "pal ! j") (auto simp: list_all_length rgb_ok_def)
    show ?thesis unfolding p(1) assms(10) using p assms(3-8) by (intro col_dist_bound) auto
  qed
  then have "\<not> (\<forall>k<length pal. bestfit_start \<le> col_dist (pal ! k) q)" using assms(1) by (auto simp: not_le)
  moreover have "bestfit_start < 2 ^ 31" by (simp add: bestfit_start_def)
  ultimately show ?thesis using bestfit_loop_first[of pal bestfit_start q 0 0] k below by auto
qed

text \<open>
  C40. The palette search is exact although it gives up early: the index it returns is in the
  palette, no entry is nearer to the colour, and no earlier one is as near.  The weighted sum of
  every entry is below the bound the search starts with, which a signed number of 32 bits holds:
  no sum wraps, and an entry is always found.
\<close>

theorem bestfit_is_nearest:
  assumes "pal \<noteq> []" and "list_all rgb_ok pal" and "0 \<le> r" "r \<le> 255" "0 \<le> g" "g \<le> 255" "0 \<le> b" "b \<le> 255"
    and "k = BestfitColor pal r g b" and "q = (nat r, nat g, nat b)"
  shows "k < length pal \<and> (\<forall>j<length pal. col_dist (pal ! k) q \<le> col_dist (pal ! j) q) \<and>
    (\<forall>j<k. col_dist (pal ! k) q < col_dist (pal ! j) q) \<and>
    (\<forall>j<length pal. col_dist (pal ! j) q < bestfit_start) \<and> bestfit_start < 2 ^ 31"
  by (rule bestfit_near[OF assms])

theorem bestfit_is_nearest_witness:
  "BestfitColor [(0, 0, 0), (250, 10, 0), (255, 0, 0)] 255 0 0 < 3 \<and>
   col_dist ([(0, 0, 0), (250, 10, 0), (255, 0, 0)] ! BestfitColor [(0, 0, 0), (250, 10, 0), (255, 0, 0)] 255 0 0)
     (255, 0, 0) = 0"
proof -
  have "list_all rgb_ok [(0, 0, 0), (250, 10, 0), (255, 0, 0)]" by (simp add: rgb_ok_def)
  note B = bestfit_is_nearest[OF _ this _ _ _ _ _ _ refl refl, of 255 0 0]
  have "col_dist ([(0, 0, 0), (250, 10, 0), (255, 0, 0)] ! 2) (nat 255, nat 0, nat 0) = 0"
    by (simp add: col_dist_def diff_lookup_def)
  then show ?thesis using B by (simp add: All_less_Suc2 numeral_3_eq_3 numeral_2_eq_2) 
qed

text \<open>
  \<open>RowFetchWithPalette\<close> and \<open>RowStoreWithPalette\<close>, cut to the bitmap like \<open>RowFetch\<close>; an index
  outside of a palette that is too short is outside of the array: \<open>None\<close>.
\<close>

definition RowFetchWithPalette :: "bitmap \<Rightarrow> int \<Rightarrow> int \<Rightarrow> u32 list \<Rightarrow> int \<Rightarrow> rgb list \<Rightarrow> u32 list option" where
  "RowFetchWithPalette b x y cards w pal =
     (if fmt_bpp (bm_fmt b) \<noteq> 8 \<or> \<not> (0 \<le> y \<and> y < int (bm_h b)) then Some cards
      else case row_span b x w of None \<Rightarrow> Some cards
      | Some (x', w', off) \<Rightarrow>
          let ix = map (\<lambda>i. unat (px_get 1 (Line b y) (nat x' + i))) [0..<nat w'] in
          if list_all (\<lambda>k. k < length pal) ix
          then Some (take off cards @
                 map (\<lambda>k. case pal ! k of (r, g, b) \<Rightarrow>
                   pixel_asm_8888 255 (word_of_nat r) (word_of_nat g) (word_of_nat b)) ix @
                 drop (off + nat w') cards)
          else None)"

definition store_index :: "rgb list \<Rightarrow> u32 \<Rightarrow> u32" where
  "store_index pal c = (case pixel_disasm_8888 c of (a, r, g, b) \<Rightarrow>
     word_of_nat (BestfitColor pal (uint r) (uint g) (uint b)))"

definition RowStoreWithPalette :: "bitmap \<Rightarrow> int \<Rightarrow> int \<Rightarrow> u32 list \<Rightarrow> int \<Rightarrow> rgb list \<Rightarrow> bitmap" where
  "RowStoreWithPalette b x y cards w pal =
     (if fmt_bpp (bm_fmt b) \<noteq> 8 \<or> \<not> (0 \<le> y \<and> y < int (bm_h b)) then b
      else case row_span b x w of None \<Rightarrow> b
      | Some (x', w', off) \<Rightarrow>
          set_line b y (put_list (px_put 1) (Line b y) (nat x')
            (map (store_index pal) (take (nat w') (drop off cards)))))"

text \<open>What is read through a palette and stored through it is of the same colour as before.\<close>

lemma unat_index_byte:
  "list_all rgb_ok pal \<Longrightarrow> k < length pal \<Longrightarrow> pal ! k = (r, g, b) \<Longrightarrow>
   pixel_disasm_8888 (pixel_asm_8888 255 (word_of_nat r) (word_of_nat g) (word_of_nat b)) =
     (255, word_of_nat r, word_of_nat g, word_of_nat b) \<and>
   uint (word_of_nat r :: u32) = int r \<and> uint (word_of_nat g :: u32) = int g \<and> uint (word_of_nat b :: u32) = int b \<and>
   r \<le> 255 \<and> g \<le> 255 \<and> b \<le> 255"
proof -
  assume p: "list_all rgb_ok pal" "k < length pal" "pal ! k = (r, g, b)"
  then have l: "r \<le> 255" "g \<le> 255" "b \<le> 255" by (auto simp: list_all_length rgb_ok_def)
  have u: "unat (word_of_nat n :: u32) = n" if "n \<le> 255" for n
    using that by (simp add: unat_of_nat take_bit_nat_eq_self)
  then have "is_byte (word_of_nat n)" if "n \<le> 255" for n using that by (simp only: is_byte_nat)
  moreover have "uint (word_of_nat n :: u32) = int n" if "n \<le> 255" for n
    using u[OF that] by (simp add: uint_nat)
  ultimately show ?thesis using l by (simp add: disasm_asm_8888)
qed

lemma palette_reread:
  assumes "list_all rgb_ok pal" and "length pal \<le> 256" and "k < length pal" and "pal ! k = (r, g, b)"
    and "c = pixel_asm_8888 255 (word_of_nat r) (word_of_nat g) (word_of_nat b)"
  shows "\<exists>j<length pal. store_index pal c = word_of_nat j \<and> pal ! j = pal ! k"
proof -
  note d = unat_index_byte[OF assms(1,3,4)]
  define j where "j = BestfitColor pal (int r) (int g) (int b)"
  have j: "j < length pal" "\<forall>i<length pal. col_dist (pal ! j) (r, g, b) \<le> col_dist (pal ! i) (r, g, b)"
    using bestfit_near[OF _ assms(1) _ _ _ _ _ _ j_def refl] assms(3) d by (cases pal; force)+
  have "col_dist (pal ! k) (r, g, b) = 0" by (simp add: assms(4) col_dist_def diff_lookup_def)
  then have z: "col_dist (pal ! j) (r, g, b) = 0" using j(2) assms(3) by fastforce
  obtain r' g' b' where p: "pal ! j = (r', g', b')" by (metis prod.exhaust)
  have "diff_lookup 59 g' g = 0" "diff_lookup 30 r' r = 0" "diff_lookup 11 b' b = 0"
    using z by (simp_all add: p col_dist_def)
  then have "pal ! j = pal ! k" using assms(4) by (simp add: p diff_lookup_def)
  moreover have "store_index pal c = word_of_nat j"
    using d by (simp add: store_index_def assms(5) j_def)
  ultimately show ?thesis using j(1) by blast
qed

section \<open>Glyphs\<close>

text \<open>
  \<open>DrawGlyph\<close>: one bit per pixel, the highest first, in one or two bytes per row; the points go
  to \<open>SetPixels\<close> as \<open>short\<close>s.  Any other width draws nothing.
\<close>

definition glyph_byte :: "int \<Rightarrow> int \<Rightarrow> u8 \<Rightarrow> (u16 \<times> u16) list" where
  "glyph_byte x y data = map (\<lambda>i. (word_of_int (x + int i), word_of_int y))
     (filter (\<lambda>i. bit data (7 - i)) [0..<8])"

definition glyph_points :: "int \<Rightarrow> int \<Rightarrow> bytes \<Rightarrow> nat \<Rightarrow> nat \<Rightarrow> (u16 \<times> u16) list" where
  "glyph_points x y glyph w h =
     (if w = 8 then concat (map (\<lambda>j. glyph_byte x (y + int j) (glyph ! j)) [0..<h])
      else if w = 16 then concat (map (\<lambda>j. glyph_byte x (y + int j) (glyph ! (2 * j)) @
             glyph_byte (x + 8) (y + int j) (glyph ! (2 * j + 1))) [0..<h])
      else [])"

definition DrawGlyph :: "int \<Rightarrow> int \<Rightarrow> bytes \<Rightarrow> nat \<Rightarrow> nat \<Rightarrow> u32 \<Rightarrow> bitmap \<Rightarrow> bitmap" where
  "DrawGlyph x y glyph w h color b =
     (if h > 16 \<or> w > 16 then b
      else let xy = glyph_points x y glyph w h in if xy = [] then b else SetPixels xy color b)"

lemma glyph_points_few: "h \<le> 16 \<Longrightarrow> length (glyph_points x y glyph w h) \<le> 16 * 16"
proof -
  have b: "length (glyph_byte x y d) \<le> 8" for x y d
    using length_filter_le[of "\<lambda>i. bit d (7 - i)" "[0..<8]"] by (simp add: glyph_byte_def)
  have c: "(\<And>j. length (f j) \<le> n) \<Longrightarrow> length (concat (map f [0..<h])) \<le> h * n" for f :: "nat \<Rightarrow> (u16 \<times> u16) list" and n h
    by (induction h) (simp_all add: add_le_mono add.commute)
  assume "h \<le> 16"
  moreover have "length (concat (map (\<lambda>j. glyph_byte x (y + int j) (glyph ! j)) [0..<h])) \<le> h * 8"
    by (intro c b)
  moreover have "length (concat (map (\<lambda>j. glyph_byte x (y + int j) (glyph ! (2 * j)) @
      glyph_byte (x + 8) (y + int j) (glyph ! (2 * j + 1))) [0..<h])) \<le> h * 16"
    using b by (intro c) (simp add: add_mono[of _ 8 _ 8, simplified])
  ultimately show ?thesis unfolding glyph_points_def by (auto simp del: length_concat)
qed

section \<open>Halving\<close>

text \<open>\<open>DownSampleBy2\<close>: four pixels to one, by format.\<close>

definition half32 :: "u32 \<Rightarrow> u32 \<Rightarrow> u32 \<Rightarrow> u32 \<Rightarrow> u32" where
  "half32 p q r s =
     (let rb = (p AND 0xff00ff) + (q AND 0xff00ff) + (r AND 0xff00ff) + (s AND 0xff00ff);
          ag = (drop_bit 8 p AND 0xff00ff) + (drop_bit 8 q AND 0xff00ff) +
               (drop_bit 8 r AND 0xff00ff) + (drop_bit 8 s AND 0xff00ff);
          rb = drop_bit 2 rb AND 0xff00ff;
          ag = drop_bit 2 ag AND 0xff00ff
      in rb OR push_bit 8 ag)"

definition half24 :: "u32 \<Rightarrow> u32 \<Rightarrow> u32 \<Rightarrow> u32 \<Rightarrow> u32" where
  "half24 p q r s =
     (let rb = (p AND 0xff00ff) + (q AND 0xff00ff) + (r AND 0xff00ff) + (s AND 0xff00ff);
          ag = (drop_bit 8 p AND 0xff) + (drop_bit 8 q AND 0xff) + (drop_bit 8 r AND 0xff) + (drop_bit 8 s AND 0xff);
          rb = drop_bit 2 rb AND 0xff00ff;
          ag = drop_bit 2 ag AND 0xff
      in rb OR push_bit 8 ag)"

definition half8 :: "u32 \<Rightarrow> u32 \<Rightarrow> u32 \<Rightarrow> u32 \<Rightarrow> u32" where
  "half8 p q r s = drop_bit 2 (p + q + r + s) AND 0xff"

definition half_rgba :: "pixel_fmt \<Rightarrow> u32 \<Rightarrow> u32 \<Rightarrow> u32 \<Rightarrow> u32 \<Rightarrow> u32" where
  "half_rgba f p q r s =
     (case rgba_from f p of (c1, c2, c3, c4) \<Rightarrow> case rgba_from f q of (r1, g1, b1, a1) \<Rightarrow>
      case rgba_from f r of (r2, g2, b2, a2) \<Rightarrow> case rgba_from f s of (r3, g3, b3, a3) \<Rightarrow>
        rgba_to f (drop_bit 2 (c1 + r1 + r2 + r3), drop_bit 2 (c2 + g1 + g2 + g3),
                   drop_bit 2 (c3 + b1 + b2 + b3), drop_bit 2 (c4 + a1 + a2 + a3)))"

definition half_4444 :: "u32 \<Rightarrow> u32 \<Rightarrow> u32 \<Rightarrow> u32 \<Rightarrow> u32" where
  "half_4444 p q r s =
     (let c1 = (p AND 0x0f0f) + (q AND 0x0f0f) + (r AND 0x0f0f) + (s AND 0x0f0f);
          c2 = (drop_bit 4 p AND 0x0f0f) + (drop_bit 4 q AND 0x0f0f) + (drop_bit 4 r AND 0x0f0f) + (drop_bit 4 s AND 0x0f0f);
          c3 = drop_bit 2 c1 AND 0x0f0f;
          c4 = drop_bit 2 c2 AND 0x0f0f
      in push_bit 4 c4 OR c3)"

text \<open>\<open>X1R5G5B5\<close> goes through the macros of \<open>A1R5G5B5\<close>; no loop for an unknown format.\<close>

definition half_px_of :: "pixel_fmt \<Rightarrow> (u32 \<Rightarrow> u32 \<Rightarrow> u32 \<Rightarrow> u32 \<Rightarrow> u32) option" where
  "half_px_of f = (case f of
     A8R8G8B8 \<Rightarrow> Some half32 | A8B8G8R8 \<Rightarrow> Some half32 | X8R8G8B8 \<Rightarrow> Some half32
   | R8G8B8 \<Rightarrow> Some half24 | G8 \<Rightarrow> Some half8
   | R5G6B5 \<Rightarrow> Some (half_rgba R5G6B5) | A1R5G5B5 \<Rightarrow> Some (half_rgba A1R5G5B5)
   | X1R5G5B5 \<Rightarrow> Some (half_rgba A1R5G5B5) | A4R4G4B4 \<Rightarrow> Some half_4444 | UNKNOW \<Rightarrow> None)"

text \<open>C's division by two: towards zero.\<close>

definition half_int :: "int \<Rightarrow> int" where
  "half_int n = (if n < 0 then - (- n div 2) else n div 2)"

lemma half_int_twice: "0 < half_int n \<Longrightarrow> 2 * half_int n \<le> n"
  by (auto simp: half_int_def split: if_splits)

definition DownSampleBy2 :: "bitmap \<Rightarrow> int \<Rightarrow> int \<Rightarrow> bitmap \<Rightarrow> int \<Rightarrow> int \<Rightarrow> int \<Rightarrow> int \<Rightarrow> int \<times> bitmap" where
  "DownSampleBy2 b x y src sx sy sw sh =
     (if sx < 0 \<or> sy < 0 \<or> sx + sw > int (bm_w src) \<or> sy + sh > int (bm_h src) then (- 1, b)
      else if x < 0 \<or> y < 0 \<or> x + half_int sw > int (bm_w b) \<or> y + half_int sh > int (bm_h b) then (- 2, b)
      else if fmt_bpp (bm_fmt b) \<noteq> fmt_bpp (bm_fmt src) then (- 3, b)
      else case half_px_of (bm_fmt b) of None \<Rightarrow> (0, b)
      | Some f \<Rightarrow>
          let w = nat (half_int sw); h = nat (half_int sh); ps = pixelsize (bm_fmt b) in
          (0, each_row (\<lambda>j r. put_list (px_put ps) r (nat x)
                (map (\<lambda>i. f (px_get ps (Line src (sy + 2 * int j)) (nat sx + 2 * i))
                            (px_get ps (Line src (sy + 2 * int j)) (nat sx + 2 * i + 1))
                            (px_get ps (Line src (sy + 2 * int j + 1)) (nat sx + 2 * i))
                            (px_get ps (Line src (sy + 2 * int j + 1)) (nat sx + 2 * i + 1))) [0..<w]))
               y h b))"

text \<open>
  Four bytes in each half of a word add up without meeting: the lanes of \<open>half32\<close> are averages,
  rounded down.
\<close>

lemma lane_sum:
  assumes "is_byte p" "is_byte q" "is_byte r" "is_byte s"
  shows "unat (p + q + r + s) = unat p + unat q + unat r + unat s \<and> unat p + unat q + unat r + unat s \<le> 1020"
proof -
  have l: "unat p \<le> 255" "unat q \<le> 255" "unat r \<le> 255" "unat s \<le> 255" using assms by (simp_all add: is_byte_nat)
  then have a: "unat (p + q) = unat p + unat q" by (intro unat_add_small) simp
  have b: "unat (p + q + r) = unat p + unat q + unat r" using l a by (subst unat_add_small) simp_all
  show ?thesis using l b by (subst unat_add_small) simp_all
qed

lemma lane_avg:
  assumes "is_byte p" "is_byte q" "is_byte r" "is_byte s"
  shows "unat (drop_bit 2 (p + q + r + s)) = (unat p + unat q + unat r + unat s) div 4"
    and "is_byte (drop_bit 2 (p + q + r + s))"
proof -
  note l = lane_sum[OF assms]
  show u: "unat (drop_bit 2 (p + q + r + s)) = (unat p + unat q + unat r + unat s) div 4"
    by (simp only: unat_drop_bit_eq l) (simp add: drop_bit_eq_div)
  show "is_byte (drop_bit 2 (p + q + r + s))" using l unfolding is_byte_nat u by linarith
qed

lemma lanes_avg:
  assumes "unat (lo :: u32) < 2 ^ 10" and "unat (hi :: u32) < 2 ^ 10"
  shows "drop_bit 2 (push_bit 16 hi + lo) AND 0xff00ff = push_bit 16 (drop_bit 2 hi AND 0xff) OR (drop_bit 2 lo AND 0xff)"
proof -
  note b = small_bits[OF assms(1)] small_bits[OF assms(2)]
  have "push_bit 16 hi AND lo = 0" by (rule bit_word_eqI) (auto simp: bit_simps dest: b)
  then have o: "push_bit 16 hi + lo = push_bit 16 hi OR lo" by (rule disjunctive_add_eq_or)
  have m: "(0xff00ff :: u32) = push_bit 16 (mask 8) OR mask 8" "(0xff :: u32) = mask 8"
    by (simp_all add: mask_eq_exp_minus_1)
  have e: "16 \<le> n \<Longrightarrow> Suc (Suc (n - 16)) = n - 14" for n by simp
  show ?thesis unfolding o unfolding m by (rule bit_word_eqI) (auto simp: bit_simps not_less e dest: b)
qed

definition avg4 :: "nat \<Rightarrow> u32 \<Rightarrow> u32 \<Rightarrow> u32 \<Rightarrow> u32 \<Rightarrow> u32" where
  "avg4 k p q r s = drop_bit 2 (byte_of k p + byte_of k q + byte_of k r + byte_of k s)"

lemma avg4_byte: "is_byte (avg4 k p q r s)"
  "unat (avg4 k p q r s) = (unat (byte_of k p) + unat (byte_of k q) + unat (byte_of k r) + unat (byte_of k s)) div 4"
  unfolding avg4_def by (rule lane_avg; rule byte_of_is_byte)+

lemma lane_small: "unat (byte_of k p + byte_of k q + byte_of k r + byte_of k s) < 2 ^ 10"
  using lane_sum[OF byte_of_is_byte byte_of_is_byte byte_of_is_byte byte_of_is_byte, of k p k q k r k s] by simp

lemma rb_avg:
  "drop_bit 2 ((p AND 0xff00ff) + (q AND 0xff00ff) + (r AND 0xff00ff) + (s AND 0xff00ff)) AND 0xff00ff =
     push_bit 16 (avg4 16 p q r s) OR avg4 0 p q r s"
proof -
  let ?S = "\<lambda>k. byte_of k p + byte_of k q + byte_of k r + byte_of k s"
  have S: "(p AND 0xff00ff) + (q AND 0xff00ff) + (r AND 0xff00ff) + (s AND 0xff00ff) = push_bit 16 (?S 16) + ?S 0"
    unfolding lanes_split by (simp add: byte_of_def push_bit_eq_mult algebra_simps)
  show ?thesis
    by (simp only: S lanes_avg[OF lane_small lane_small] avg4_byte(1)[unfolded avg4_def] avg4_def)
qed

lemma byte_of_drop8: "byte_of 16 (drop_bit 8 p) = byte_of 24 p" "byte_of 0 (drop_bit 8 p) = byte_of 8 p"
  by (simp_all add: byte_of_def)

lemma half32_asm: "half32 p q r s = pixel_asm_8888 (avg4 24 p q r s) (avg4 16 p q r s) (avg4 8 p q r s) (avg4 0 p q r s)"
proof -
  have "avg4 16 (drop_bit 8 p) (drop_bit 8 q) (drop_bit 8 r) (drop_bit 8 s) = avg4 24 p q r s"
    "avg4 0 (drop_bit 8 p) (drop_bit 8 q) (drop_bit 8 r) (drop_bit 8 s) = avg4 8 p q r s"
    by (simp_all only: avg4_def byte_of_drop8)
  then show ?thesis
    unfolding half32_def Let_def rb_avg by (simp add: pixel_asm_8888_def push_bit_or ac_simps)
qed

lemma half24_asm: "half24 p q r s = pixel_asm_8888 0 (avg4 16 p q r s) (avg4 8 p q r s) (avg4 0 p q r s)"
proof -
  have "drop_bit 2 ((drop_bit 8 p AND 0xff) + (drop_bit 8 q AND 0xff) + (drop_bit 8 r AND 0xff) + (drop_bit 8 s AND 0xff)) AND 0xff =
      avg4 8 p q r s"
    using avg4_byte(1)[of 8 p q r s] by (simp add: avg4_def byte_of_def)
  then show ?thesis
    unfolding half24_def Let_def rb_avg by (simp add: pixel_asm_8888_def ac_simps)
qed

lemma half8_avg:
  assumes "is_byte p" "is_byte q" "is_byte r" "is_byte s"
  shows "half8 p q r s = avg4 0 p q r s"
  using lane_avg(2)[OF assms] assms by (simp add: half8_def avg4_def byte_of_def)

lemma half_px_bytes:
  assumes "fmt_bpp f \<in> {8, 24, 32}" and "half_px_of f = Some g" and "k \<in> {0, 8, 16, 24}" and "k < fmt_bpp f"
    and "\<And>p. p \<in> {p1, p2, p3, p4} \<Longrightarrow> px_wrap (pixelsize f) p = p"
  shows "byte_of k (px_wrap (pixelsize f) (g p1 p2 p3 p4)) = avg4 k p1 p2 p3 p4"
proof -
  note b = avg4_byte(1)[of _ p1 p2 p3 p4]
  have w4: "px_wrap 4 c = c" for c using take_bit_length_eq[where 'a = 32, simplified] by (simp add: px_wrap_def)
  have m: "px_wrap 3 c = c AND 0xffffff" "px_wrap 1 c = c AND 0xff" for c
    by (simp_all add: px_wrap_def take_bit_eq_mask mask_eq_exp_minus_1)
  have t: "byte_of k (c AND 0xffffff) = byte_of k c" if "k \<in> {0, 8, 16}" for c
  proof -
    have "byte_of k (c AND mask 24) = byte_of k c"
      unfolding byte_of_def mask_eq by (rule bit_word_eqI) (use that in \<open>auto simp: bit_simps\<close>)
    then show ?thesis by (simp add: mask_eq_exp_minus_1)
  qed
  consider "f \<in> {A8R8G8B8, A8B8G8R8, X8R8G8B8}" | "f = R8G8B8" | "f = G8"
    using assms(1) by (cases f) auto
  then show ?thesis
  proof cases
    case 1
    then have "g = half32" "pixelsize f = 4" using assms(2) by (auto simp: half_px_of_def pixelsize_def)
    then show ?thesis using assms(3) by (auto simp: half32_asm w4 byte_of_asm b)
  next
    case 2
    then have "g = half24" "pixelsize f = 3" "k \<in> {0, 8, 16}"
      using assms(2-4) by (auto simp: half_px_of_def pixelsize_def)
    then show ?thesis by (auto simp: half24_asm m t byte_of_asm b)
  next
    case 3
    then have g: "g = half8" "pixelsize f = 1" "k = 0" using assms(2-4) by (auto simp: half_px_of_def pixelsize_def)
    have "is_byte p1" "is_byte p2" "is_byte p3" "is_byte p4"
      using assms(5)[of p1] assms(5)[of p2] assms(5)[of p3] assms(5)[of p4] unfolding g m by simp_all
    then show ?thesis using b[of 0] unfolding g m(2) by (simp add: half8_avg byte_of_def)
  qed
qed

text \<open>
  Halving averages: with 8, 24 or 32 bits, every byte of a pixel of the halved rectangle is the
  sum of that byte of the four source pixels over four, rounded down - the lanes that are added in
  one word do not run into each other - and no other pixel changes.
\<close>

theorem downsample_averages:
  assumes "canvas_ok b" and "canvas_ok src" and "fmt_bpp (bm_fmt b) \<in> {8, 24, 32}"
    and "DownSampleBy2 b x y src sx sy sw sh = (0, d)" and "in_bitmap b t v"
    and "k \<in> {0, 8, 16, 24}" and "k < fmt_bpp (bm_fmt b)"
    and "q = (\<lambda>i j. unat (byte_of k (GetPixel src (sx + 2 * (t - x) + i) (sy + 2 * (v - y) + j))))"
  shows "unat (byte_of k (GetPixel d t v)) =
    (if x \<le> t \<and> t < x + half_int sw \<and> y \<le> v \<and> v < y + half_int sh
     then (q 0 0 + q 1 0 + q 0 1 + q 1 1) div 4 else unat (byte_of k (GetPixel b t v)))"
proof -
  define ps where "ps = pixelsize (bm_fmt b)"
  obtain g where g: "half_px_of (bm_fmt b) = Some g" using assms(3) by (cases "bm_fmt b") (auto simp: half_px_of_def)
  define sp where "sp = (\<lambda>i j. px_get ps (Line src (sy + int j)) (nat sx + i))"
  define cs where "cs = (\<lambda>j. map (\<lambda>i. g (sp (2 * i) (2 * j)) (sp (2 * i + 1) (2 * j)) (sp (2 * i) (2 * j + 1)) (sp (2 * i + 1) (2 * j + 1)))
    [0..<nat (half_int sw)])"
  have c: "0 \<le> sx" "0 \<le> sy" "sx + sw \<le> int (bm_w src)" "sy + sh \<le> int (bm_h src)"
      "0 \<le> x" "0 \<le> y" "x + half_int sw \<le> int (bm_w b)" "y + half_int sh \<le> int (bm_h b)" "fmt_bpp (bm_fmt b) = fmt_bpp (bm_fmt src)"
    and d: "d = each_row (\<lambda>j r. put_list (px_put ps) r (nat x) (cs j)) y (nat (half_int sh)) b"
    using assms(4) g by (auto simp: DownSampleBy2_def Let_def cs_def sp_def ps_def ac_simps split: if_splits)
  have pss: "pixelsize (bm_fmt src) = ps" using same_bpp_size[OF c(9)] by (simp add: ps_def)
  have tv: "0 \<le> t" "t < int (bm_w b)" "0 \<le> v" "v < int (bm_h b)" using assms(5) by (simp_all add: in_bitmap_def)
  have lw: "bm_w b \<le> px_width ps (Line b v)" using px_width_line[OF assms(1) tv(3,4)] by (simp add: ps_def)
  show ?thesis
  proof (cases "y \<le> v \<and> v < y + half_int sh")
    case False
    have "GetPixel d t v = GetPixel b t v"
    proof (cases "0 \<le> half_int sh")
      case True
      then show ?thesis unfolding d using False c
        by (subst GetPixel_each_row[OF assms(1) _ _ assms(5)]) auto
    next
      case neg: False
      then show ?thesis by (simp add: d each_row_def)
    qed
    then show ?thesis using False by auto
  next
    case rows: True
    let ?j = "nat (v - y)"
    have gp: "GetPixel d t v = px_get ps (put_list (px_put ps) (Line b v) (nat x) (cs ?j)) (nat t)"
      unfolding d using rows c by (subst GetPixel_each_row[OF assms(1) _ _ assms(5)]) (auto simp: ps_def)
    show ?thesis
    proof (cases "x \<le> t \<and> t < x + half_int sw")
      case False
      have "px_get ps (put_list (px_put ps) (Line b v) (nat x) (cs ?j)) (nat t) = px_get ps (Line b v) (nat t)"
      proof (cases "0 \<le> half_int sw")
        case True
        have "nat x + length (cs ?j) \<le> px_width ps (Line b v)" "nat t < px_width ps (Line b v)"
          using True c lw tv by (simp_all add: cs_def)
        note r = row_raster.get_put_list[OF this(1,2)]
        show ?thesis unfolding r by (rule if_not_P) (use False True c tv in \<open>simp add: cs_def, linarith\<close>)
      next
        case neg: False
        then show ?thesis by (simp add: cs_def)
      qed
      then show ?thesis using gp False assms(5) by (auto simp: GetPixel_def ps_def)
    next
      case cols: True
      define i where "i = nat (t - x)"
      have i: "nat t = nat x + i" using cols c(5) by (simp add: i_def nat_add_distrib[symmetric])
      have i2: "i < length (cs ?j)" using cols by (simp add: i_def cs_def)
      have fit: "nat x + length (cs ?j) \<le> px_width ps (Line b v)" "nat t < px_width ps (Line b v)"
        using cols c(5,7) lw tv(1,2) by (simp_all add: cs_def; linarith)+
      have p: "GetPixel d t v = px_wrap ps (cs ?j ! i)"
        unfolding gp row_raster.get_put_list[OF fit] using i i2 by simp
      have nx: "nat (sx + int n) = nat sx + n" for n using c(1) by simp
      have in_src: "in_bitmap src (sx + int (2 * i + a)) (sy + int (2 * ?j + e))" if "a \<le> 1" "e \<le> 1" for a e
        using that cols rows c half_int_twice[of sw] half_int_twice[of sh] by (auto simp: in_bitmap_def i_def)
      have sp: "sp (2 * i + a) (2 * ?j + e) = GetPixel src (sx + int (2 * i + a)) (sy + int (2 * ?j + e))" if "a \<le> 1" "e \<le> 1" for a e
        unfolding sp_def GetPixel_def pss nx using in_src[OF that] by (simp only: simp_thms if_False)
      have wrap: "px_wrap ps (sp (2 * i + a) (2 * ?j + e)) = sp (2 * i + a) (2 * ?j + e)" if "a \<le> 1" "e \<le> 1" for a e
      proof -
        have "nat (sx + int (2 * i + a)) < px_width ps (Line src (sy + int (2 * ?j + e)))"
          using px_width_line[OF assms(2), of "sy + int (2 * ?j + e)"] in_src[OF that] pss by (auto simp: in_bitmap_def)
        then show ?thesis unfolding sp_def nx by (rule row_raster.wrap_get)
      qed
      have q: "q (int a) (int e) = unat (byte_of k (sp (2 * i + a) (2 * ?j + e)))" if "a \<le> 1" "e \<le> 1" for a e
        unfolding assms(8) sp[OF that] using cols rows by (simp add: i_def algebra_simps)
      have "byte_of k (GetPixel d t v) = avg4 k (sp (2 * i) (2 * ?j)) (sp (2 * i + 1) (2 * ?j)) (sp (2 * i) (2 * ?j + 1)) (sp (2 * i + 1) (2 * ?j + 1))"
        using half_px_bytes[OF assms(3) g assms(6,7), of "sp (2 * i) (2 * ?j)" "sp (2 * i + 1) (2 * ?j)" "sp (2 * i) (2 * ?j + 1)" "sp (2 * i + 1) (2 * ?j + 1)"]
          wrap[of 0 0] wrap[of 1 0] wrap[of 0 1] wrap[of 1 1] i2
        unfolding p by (auto simp: cs_def ps_def)
      then show ?thesis using q[of 0 0] q[of 1 0] q[of 0 1] q[of 1 1] rows cols by (simp add: avg4_byte(2))
    qed
  qed
qed

theorem downsample_averages_witness:
  "GetPixel (snd (DownSampleBy2 (ex_gray 1 [[1, 0, 0, 0]]) 0 0 (ex_gray 2 [[200, 100, 0, 0], [50, 51, 0, 0]]) 0 0 2 2)) 0 0 = 100"
proof -
  let ?b = "ex_gray 1 [[1, 0, 0, 0]]" and ?s = "ex_gray 2 [[200, 100, 0, 0], [50, 51, 0, 0]]"
  obtain d where d: "DownSampleBy2 ?b 0 0 ?s 0 0 2 2 = (0, d)" "fst (DownSampleBy2 ?b 0 0 ?s 0 0 2 2) = 0"
    by (cases "DownSampleBy2 ?b 0 0 ?s 0 0 2 2") (auto simp: DownSampleBy2_def ex_gray_def half_px_of_def Let_def half_int_def)
  have f: "canvas_ok ?b" "canvas_ok ?s" "fmt_bpp (bm_fmt ?b) \<in> {8, 24, 32}" "in_bitmap ?b 0 0"
    "(0 :: nat) \<in> {0, 8, 16, 24}" "0 < fmt_bpp (bm_fmt ?b)"
    "unat (byte_of 0 (GetPixel ?s 0 0)) = 200" "unat (byte_of 0 (GetPixel ?s 1 0)) = 100"
    "unat (byte_of 0 (GetPixel ?s 0 1)) = 50" "unat (byte_of 0 (GetPixel ?s 1 1)) = 51"
    by code_simp+
  have "unat (byte_of 0 (GetPixel d 0 0)) = 100"
    using downsample_averages[OF f(1-3) d(1) f(4-6) refl] f(7-) by (simp add: half_int_def)
  moreover have "px_get 1 r k = byte_of 0 (px_get 1 r k)" for r k
  proof -
    have "is_byte (ucast a :: u32)" for a :: u8
      unfolding is_byte_nat using unsigned_less[of a, where 'a = nat]
      by (simp add: unsigned_ucast_eq take_bit_nat_eq_self)
    then show ?thesis by (cases "drop k r") (simp_all add: px_get_def byte_of_def)
  qed
  moreover have "bm_fmt d = G8" using d(1) by (auto simp: DownSampleBy2_def ex_gray_def half_px_of_def Let_def half_int_def each_row_frame split: if_splits)
  moreover have "byte_of 0 0 = 0" by code_simp
  ultimately have "byte_of 0 (GetPixel d 0 0) = GetPixel d 0 0 \<and> unat (byte_of 0 (GetPixel d 0 0)) = 100"
    by (simp add: GetPixel_def pixelsize_def)
  then have "unat (GetPixel d 0 0) = 100" by metis
  then show ?thesis using d(1) by (simp add: word_unat_eq_iff)
qed

section \<open>Channels\<close>

text \<open>
  \<open>for (x = w; x > 0; x++)\<close>: the copy of one channel goes on until \<open>x\<close> would pass the largest
  \<open>int\<close>, \<open>2 ^ 31 - w\<close> times.  \<open>get\<close> and \<open>put\<close> are the accesses at the \<open>k\<close>-th position; \<open>None\<close> is
  an access outside of the memory.
\<close>

fun channel_loop :: "(nat \<Rightarrow> u8 option) \<Rightarrow> (bytes \<Rightarrow> nat \<Rightarrow> u8 \<Rightarrow> bytes option) \<Rightarrow> nat \<Rightarrow> nat \<Rightarrow> bytes \<Rightarrow> bytes option" where
  "channel_loop get put k 0 dst = Some dst"
| "channel_loop get put k (Suc n) dst =
     (case get k of None \<Rightarrow> None
      | Some c \<Rightarrow> (case put dst k c of None \<Rightarrow> None | Some dst' \<Rightarrow> channel_loop get put (Suc k) n dst'))"

definition bytes_put :: "nat \<Rightarrow> nat \<Rightarrow> bytes \<Rightarrow> nat \<Rightarrow> u8 \<Rightarrow> bytes option" where
  "bytes_put start step dst k c =
     (if start + step * k < length dst then Some (dst[start + step * k := c]) else None)"

definition bytes_get :: "nat \<Rightarrow> nat \<Rightarrow> bytes \<Rightarrow> nat \<Rightarrow> u8 option" where
  "bytes_get start step src k = (if start + step * k < length src then Some (src ! (start + step * k)) else None)"

definition channel_rounds :: "nat \<Rightarrow> nat" where
  "channel_rounds w = (if w = 0 then 0 else 2 ^ 31 - w)"

text \<open>The bitmap a channel goes to has 8 bits and is not smaller; a null pointer is \<open>None\<close>.\<close>

definition channel_bad :: "bitmap \<Rightarrow> bitmap option \<Rightarrow> bool" where
  "channel_bad b c = (case c of None \<Rightarrow> False
     | Some r \<Rightarrow> fmt_bpp (bm_fmt r) \<noteq> 8 \<or> bm_w r < bm_w b \<or> bm_h r < bm_h b)"

definition row_cards :: "bitmap \<Rightarrow> nat \<Rightarrow> bytes" where
  "row_cards b j = concat (map (le_bytes 4) (Fetch (bm_fmt b) (Line b (int j)) 0 (bm_w b)))"

text \<open>
  Row \<open>j\<close> of \<open>SplitChannel\<close> for one channel: what is written is all the memory of the channel's
  bitmap from its row \<open>j\<close> on.  The result keeps the bitmap's memory as one list of bytes.
\<close>

definition split_row :: "bitmap \<Rightarrow> nat \<Rightarrow> nat \<Rightarrow> nat \<Rightarrow> bytes \<Rightarrow> bytes option" where
  "split_row b i pitch j bits =
     channel_loop (bytes_get i 4 (row_cards b j)) (bytes_put (pitch * j) 1) 0 (channel_rounds (bm_w b)) bits"

fun channel_rows :: "(nat \<Rightarrow> bytes \<Rightarrow> bytes option) \<Rightarrow> nat list \<Rightarrow> bytes \<Rightarrow> bytes option" where
  "channel_rows f [] bits = Some bits"
| "channel_rows f (j # js) bits = (case f j bits of None \<Rightarrow> None | Some bits' \<Rightarrow> channel_rows f js bits')"

definition split_one :: "bitmap \<Rightarrow> nat \<Rightarrow> bitmap \<Rightarrow> bytes option" where
  "split_one b i r = channel_rows (split_row b i (pitch_of (bm_w r) (bm_fmt r))) [0..<bm_h b] (concat (bm_lines r))"

definition SplitChannel :: "bitmap \<Rightarrow> bitmap option \<Rightarrow> bitmap option \<Rightarrow> bitmap option \<Rightarrow> bitmap option \<Rightarrow>
    (int \<times> bytes option list) option" where
  "SplitChannel b R G B A =
     (if channel_bad b R \<or> channel_bad b G \<or> channel_bad b B \<or> channel_bad b A then Some (- 1, [])
      else
        let parts = map (\<lambda>(i, c). map_option (split_one b i) c) (zip [0..<4] [B, G, R, A]) in
        if Some None \<in> set parts then None else Some (0, map (\<lambda>p. case p of None \<Rightarrow> None | Some x \<Rightarrow> x) parts))"

text \<open>\<open>MergeChannel\<close> copies into its buffer of cards only: no row of the bitmap is written.\<close>

definition merge_row :: "bitmap \<Rightarrow> nat \<Rightarrow> bitmap \<Rightarrow> nat \<Rightarrow> bytes \<Rightarrow> bytes option" where
  "merge_row b i r j cards =
     channel_loop (bytes_get (pitch_of (bm_w r) (bm_fmt r) * j) 1 (concat (bm_lines r))) (bytes_put i 4) 0
       (channel_rounds (bm_w b)) cards"

fun merge_parts :: "bitmap \<Rightarrow> nat \<Rightarrow> (nat \<times> bitmap option) list \<Rightarrow> bytes \<Rightarrow> bytes option" where
  "merge_parts b j [] cards = Some cards"
| "merge_parts b j ((i, c) # cs) cards = (case c of None \<Rightarrow> merge_parts b j cs cards
     | Some r \<Rightarrow> (case merge_row b i r j cards of None \<Rightarrow> None | Some cards' \<Rightarrow> merge_parts b j cs cards'))"

definition MergeChannel :: "bitmap \<Rightarrow> bitmap option \<Rightarrow> bitmap option \<Rightarrow> bitmap option \<Rightarrow> bitmap option \<Rightarrow>
    (int \<times> bitmap) option" where
  "MergeChannel b R G B A =
     (if channel_bad b R \<or> channel_bad b G \<or> channel_bad b B \<or> channel_bad b A then Some (- 1, b)
      else if list_all (\<lambda>j. merge_parts b j (zip [0..<4] [B, G, R, A]) (row_cards b j) \<noteq> None) [0..<bm_h b]
      then Some (0, b) else None)"

text \<open>The copy leaves the memory, whatever channels are asked for.\<close>

lemma channel_loop_leaves:
  assumes "\<And>k. m \<le> k \<Longrightarrow> get k = None"
  shows "m < k + n \<Longrightarrow> k \<le> m \<Longrightarrow> channel_loop get put k n dst = None"
proof (induction n arbitrary: k dst)
  case 0
  then show ?case by simp
next
  case (Suc n)
  show ?case
  proof (cases "k = m")
    case True
    then show ?thesis using assms by simp
  next
    case False
    then show ?thesis using Suc by (auto split: option.split)
  qed
qed

lemma split_never_ends:
  assumes "0 < bm_w b" and "4 * bm_w b < 2 ^ 31 - bm_w b" and "0 < bm_h b" and "\<not> channel_bad b (Some r)"
  shows "SplitChannel b (Some r) None None None = None"
proof -
  have "length (row_cards b j) \<le> 4 * bm_w b" for j
    by (cases "bm_fmt b = UNKNOW") (simp_all add: row_cards_def Fetch_def length_concat o_def sum_list_triv)
  note l = this
  have g: "bytes_get 2 4 (row_cards b j) k = None" if "bm_w b \<le> k" for j k
    using that l[of j] by (auto simp: bytes_get_def)
  have "split_row b 2 p 0 bits = None" for p bits
    unfolding split_row_def using assms(1,2) g by (intro channel_loop_leaves[where m = "bm_w b"]) (auto simp: channel_rounds_def)
  then have "split_one b 2 r = None" using assms(3) by (simp add: split_one_def upt_conv_Cons)
  moreover have "[0..<4] = [0, 1, 2, 3 :: nat]" by code_simp
  ultimately show ?thesis using assms(4) by (simp add: SplitChannel_def channel_bad_def)
qed

lemma merge_keeps_bitmap: "MergeChannel b R G B A = Some (e, b') \<Longrightarrow> b' = b"
  by (simp add: MergeChannel_def split: if_splits)

section \<open>Quick text\<close>

text \<open>
  The eight-by-eight font of \<open>QuickText\<close>, two words per character from the blank on, as the array
  has it.  Its 64 characters end with the underscore: a glyph behind it is outside of the array.
\<close>

definition quick_font :: "u32 list" where
  "quick_font =
   [0, 0, 813201456, 3145776, 7105644, 0, 1828613228, 7105790, 2025880624, 3209228, 416073216,
    13002288, 1983409208, 7785692, 12607584, 0, 1616916504, 1585248, 404238432, 6303768,
    4282148352, 26172, 4231016448, 12336, 0, 1613770752, 4227858432, 0, 0, 3158016, 806882310,
    8437856, 3738093180, 8185590, 808480816, 16527408, 940362872, 16567392, 940362872, 7916556,
    3429645340, 1969406, 217628924, 7916556, 4173357112, 7916748, 403492092, 3158064, 2026687608,
    7916748, 2093796472, 7346188, 3158016, 3158016, 3158016, 1613770752, 3227529240, 1585248,
    16515072, 64512, 202911840, 6303768, 403491960, 3145776, 3739141756, 7913694, 3435952176,
    13421820, 2087085820, 16541286, 3233834556, 3958464, 1717988600, 16280678, 2020107006,
    16671336, 2020107006, 15753320, 3233834556, 4089550, 4241280204, 13421772, 808464504, 7876656,
    202116126, 7916748, 2020370150, 15099500, 1616929008, 16672354, 4278120134, 13027030,
    3740722886, 13027022, 3334892600, 3697862, 2087085820, 15753312, 3435973752, 1865948,
    2087085820, 15099500, 1893780600, 7916572, 808498428, 7876656, 3435973836, 16567500,
    3435973836, 3176652, 3603351238, 13037310, 946652870, 13003832, 2026687692, 7876656, 411879166,
    16672306, 1616928888, 7888992, 405823680, 132620, 404232312, 7870488, 3328981008, 0, 0,
    4278190080]"

definition font_glyph :: "nat \<Rightarrow> bytes option" where
  "font_glyph i =
     (if 2 * i + 1 < length quick_font
      then Some (concat (map (\<lambda>v. [ucast v, ucast (drop_bit 8 v), ucast (drop_bit 16 v), ucast (drop_bit 24 v)])
             [quick_font ! (2 * i), quick_font ! (2 * i + 1)]))
      else None)"

text \<open>A \<open>char\<close> has a sign; letters are made capitals, and braces brackets.\<close>

definition quick_char :: "u8 \<Rightarrow> int" where
  "quick_char t =
     (let c = sint t; c = (if c \<ge> 97 \<and> c \<le> 122 then c - 32 else c) in
      if c = 123 then 91 else if c = 125 then 93 else c)"

text \<open>\<open>None\<close>: the font is read outside.  A character that is not drawn ends the text.\<close>

fun quick_text :: "int \<Rightarrow> u32 \<Rightarrow> int \<Rightarrow> int \<Rightarrow> bytes \<Rightarrow> bitmap \<Rightarrow> bitmap option" where
  "quick_text savex color x y [] b = Some b"
| "quick_text savex color x y (t # ts) b =
     (let c = quick_char t in
      if t = 0 then Some b
      else if c = 13 then quick_text savex color savex y ts b
      else if c = 10 then quick_text savex color savex (y + 8) ts b
      else if c < 32 \<or> c > 127 then Some b
      else case font_glyph (nat (c - 32)) of None \<Rightarrow> None
        | Some g \<Rightarrow> quick_text savex color (x + 8) y ts (DrawGlyph x y g 8 8 color b))"

definition QuickText :: "int \<Rightarrow> int \<Rightarrow> bytes \<Rightarrow> u32 \<Rightarrow> bitmap \<Rightarrow> bitmap option" where
  "QuickText x y ts color b = quick_text x color x y ts b"

lemma font_glyph_inside: "i < 64 \<longleftrightarrow> font_glyph i \<noteq> None"
proof -
  have "length quick_font = 128" by code_simp
  then show ?thesis by (auto simp: font_glyph_def)
qed

text \<open>Exactly the characters of the font are safe; four that pass the test for 32 to 127 are not.\<close>

lemma quick_text_draws:
  assumes "\<forall>t\<in>set ts. quick_char t < 96"
  shows "QuickText x y ts color b \<noteq> None"
proof -
  have "quick_text savex color x y ts b \<noteq> None" for savex
    using assms
  proof (induction ts arbitrary: x y b)
    case (Cons t ts)
    then have "quick_char t < 96" by simp
    then have "nat (quick_char t - 32) < 64" by linarith
    then obtain g where "font_glyph (nat (quick_char t - 32)) = Some g" using font_glyph_inside by blast
    then show ?case using Cons by (simp add: Let_def)
  qed simp
  then show ?thesis by (simp add: QuickText_def)
qed

lemma quick_text_outside: "t \<in> {0x60, 0x7c, 0x7e, 0x7f} \<Longrightarrow> QuickText x y (t # ts) color b = None"
proof -
  assume t: "t \<in> {0x60, 0x7c, 0x7e, 0x7f}"
  have c: "quick_char 0x60 = 96" "quick_char 0x7c = 124" "quick_char 0x7e = 126" "quick_char 0x7f = 127"
    by code_simp+
  have "font_glyph i = None" if "64 \<le> i" for i using font_glyph_inside[of i] that by auto
  then show ?thesis using t by (auto simp: QuickText_def c)
qed

end
