(* ===== verification/Resample.thy ===== *)
theory Resample
  imports Bitmap_Ops Stretch
begin

text \<open>
  Scaling in BasicBitmap.cpp that the viewer itself does not call: \<open>Scale\<close>, which interpolates two
  rows and then columns, and \<open>Resample\<close> with its averaging filter - shrinking by weighted sums,
  growing by interpolation, first the rows and then the columns, with the bound that the buffer
  between the two puts on the sizes.  Sizes are below 0x7fff, so the
  fixed-point numbers of 16 bits are not negative and given as \<open>nat\<close>; the accumulators keep their
  32 bits.  The bicubic filter works on \<open>float\<close>s: its samples are a parameter.  The bilinear sampler
  at the end starts from positions that are in fixed point already.
\<close>

unbundle bit_operations_syntax

section \<open>Shrinking\<close>

text \<open>
  Both loops are the same: an element is a pixel of four bytes (\<open>ShrinkX\<close>) or a whole row
  (\<open>ShrinkY\<close>), and each byte of it has its accumulator.  \<open>counter\<close> is what is still missing of the
  space of one result, 0x10000 per source element.
\<close>

definition part :: "u8 \<Rightarrow> nat \<Rightarrow> u32" where
  "part c k = word_of_nat (unat c * k div 65536)"

fun shrink_loop :: "nat \<Rightarrow> u32 \<Rightarrow> nat \<Rightarrow> u32 list \<Rightarrow> bytes list \<Rightarrow> bytes list" where
  "shrink_loop space recip counter acc [] = []"
| "shrink_loop space recip counter acc (s # ss) =
     (if counter > 0x10000
      then shrink_loop space recip (counter - 0x10000) (map2 (\<lambda>a c. a + ucast c) acc s) ss
      else let frac = 0x10000 - counter in
        map2 (\<lambda>a c. ucast (drop_bit 16 ((a + part c counter) * recip))) acc s #
        shrink_loop space recip (space - frac) (map (\<lambda>c. part c frac) s) ss)"

definition shrink_space :: "nat \<Rightarrow> nat \<Rightarrow> nat" where
  "shrink_space s d = 0x10000 * s div d"

definition shrink :: "nat \<Rightarrow> nat \<Rightarrow> bytes list \<Rightarrow> bytes list" where
  "shrink width d items =
     (let space = shrink_space (length items) d in
      shrink_loop space (word_of_nat (2 ^ 32 div space)) space (replicate width 0) items)"

text \<open>The number of results is exact, none missing and none written behind the row.\<close>

lemma shrink_loop_count:
  assumes "0x10000 \<le> S"
  shows "0 < k \<Longrightarrow> length (shrink_loop S r k acc items) =
    (if k \<le> 0x10000 * length items then (0x10000 * length items - k) div S + 1 else 0)"
proof (induction items arbitrary: k acc)
  case (Cons s ss)
  show ?case
  proof (cases "k > 0x10000")
    case True
    then show ?thesis using Cons.IH[of "k - 0x10000" "map2 (\<lambda>a c. a + ucast c) acc s"]
      by (auto simp: algebra_simps)
  next
    case False
    let ?k = "S - (0x10000 - k)" and ?n = "0x10000 * length ss"
    have k': "?k = S + k - 0x10000" "0 < ?k" using False Cons.prems assms by auto
    have IH: "length (shrink_loop S r ?k a ss) = (if ?k \<le> ?n then (?n - ?k) div S + 1 else 0)" for a
      using Cons.IH[OF k'(2)] .
    have e: "(0x10000 * length (s # ss) - k) div S + 1 = (if ?k \<le> ?n then (?n - ?k) div S + 1 else 0) + 1"
    proof (cases "?k \<le> ?n")
      case True
      have "0x10000 * length (s # ss) - k = ?n - ?k + S" using True k' False assms by simp
      moreover have "(?n - ?k + S) div S = (?n - ?k) div S + 1" using assms by (intro div_add_self2) simp
      ultimately show ?thesis using True by (simp only: if_True)
    next
      case out: False
      then have "0x10000 * length (s # ss) - k < S" using k' False by simp
      then show ?thesis using out by simp
    qed
    have l: "length (shrink_loop S r k acc (s # ss)) =
        length (shrink_loop S r ?k (map (\<lambda>c. part c (0x10000 - k)) s) ss) + 1"
      using False by (simp add: Let_def)
    have "k \<le> 0x10000 * length (s # ss)" using False by simp
    then show ?thesis unfolding l IH using e by (simp only: if_True)
  qed
qed auto

lemma space_bounds:
  assumes "0 < d" and "d < s" and "s < 0x7fff"
  shows "0x10000 < shrink_space s d" and "shrink_space s d * d \<le> 0x10000 * s"
    and "0x10000 * s < (d + 1) * shrink_space s d" and "shrink_space s d < 2 ^ 31"
proof -
  let ?S = "shrink_space s d"
  have m: "0x10000 * s = ?S * d + 0x10000 * s mod d" "0x10000 * s mod d < d"
    using assms(1) by (simp_all add: shrink_space_def)
  show le: "?S * d \<le> 0x10000 * s" using m(1) by linarith
  have "(0x10000 + 1) * d \<le> 0x10000 * s" using assms by simp
  then have "(0x10000 + 1) * d < ?S * d + d" using m by linarith
  then have "(0x10000 + 1) * d < (?S + 1) * d" by (simp only: distrib_right mult_1)
  then have "0x10000 + 1 < ?S + 1" by (simp only: mult_less_cancel2)
  then show gt: "0x10000 < ?S" by simp
  have "0x10000 * s < ?S * d + ?S" using m gt assms by linarith
  then show "0x10000 * s < (d + 1) * ?S" by (simp add: algebra_simps)
  have "?S * 1 \<le> ?S * d" using assms(1) by (intro mult_le_mono2) simp
  moreover have "0x10000 * s < 2 ^ 31" using assms(3) by simp
  ultimately show "?S < 2 ^ 31" using le unfolding mult_1_right by linarith
qed

lemma shrink_count:
  assumes "0 < d" and "d < length items" and "length items < 0x7fff"
  shows "length (shrink w d items) = d"
proof -
  let ?S = "shrink_space (length items) d" and ?n = "0x10000 * length items"
  note b = space_bounds[OF assms]
  have le: "?S \<le> ?n" using b(2) assms(1) by (metis dual_order.trans mult.right_neutral mult_le_mono2 Suc_leI One_nat_def)
  have q: "?n div ?S = d"
    using b(1-3) by (intro div_nat_eqI) (simp_all add: algebra_simps)
  have "(?n - ?S) div ?S + 1 = ?n div ?S" using le b(1) by (simp add: le_div_geq)
  then show ?thesis using shrink_loop_count[of ?S ?S] b(1) le q by (simp add: shrink_def Let_def)
qed

text \<open>No accumulator and no product wraps: a result is not above the largest source byte.\<close>

lemma shrink_step_full:
  assumes "unat a * 65536 \<le> M * (S - k)" and "unat (c :: u8) \<le> M" and "0x10000 < k" and "k \<le> S" and "M \<le> 255" and "S < 2 ^ 31"
  shows "unat (a + ucast c :: u32) * 65536 \<le> M * (S - (k - 0x10000))"
proof -
  have c: "unat (ucast c :: u32) = unat c"
  proof -
    have "unat c < 2 ^ 32" by (rule order.strict_trans[OF unsigned_less]) simp
    then show ?thesis by (simp add: unsigned_ucast_eq take_bit_nat_eq_self)
  qed
  have e: "M * (S - (k - 0x10000)) = M * (S - k) + M * 65536"
    using assms(3,4) by (simp flip: distrib_left)
  have s: "(unat a + unat c) * 65536 \<le> M * (S - (k - 0x10000))" using assms(1,2) e by simp
  have "M * (S - (k - 0x10000)) \<le> 255 * 2 ^ 31" using assms(5,6) by (intro mult_le_mono) auto
  then have "unat (a + ucast c) = unat a + unat c" using s c by (subst unat_add_small) simp_all
  then show ?thesis using s by simp
qed

lemma part_bound: "unat c \<le> M \<Longrightarrow> M \<le> 255 \<Longrightarrow> k \<le> 65536 \<Longrightarrow> unat (part c k) * 65536 \<le> M * k \<and> unat (part c k) \<le> 255"
proof -
  assume a: "unat c \<le> M" "M \<le> 255" "k \<le> 65536"
  have p: "unat c * k \<le> M * k" using a by simp
  have "unat c * k \<le> 255 * 65536" using a by (intro mult_le_mono) simp_all
  then have d: "unat c * k div 65536 \<le> 255" by simp
  then have "unat (part c k) = unat c * k div 65536" by (simp add: part_def unat_of_nat take_bit_nat_eq_self)
  then show ?thesis using d order_trans[OF div_times_less_eq_dividend p] by (simp only: simp_thms)
qed

lemma shrink_step_out:
  assumes "unat a * 65536 \<le> M * (S - k)" and "unat c \<le> M" and "k \<le> 0x10000" and "0x10000 < S" and "M \<le> 255" and "S < 2 ^ 31"
  shows "unat (ucast (drop_bit 16 ((a + part c k) * word_of_nat (2 ^ 32 div S))) :: u8) \<le> M"
proof -
  note p = part_bound[OF assms(2,5,3)]
  have e: "M * S = M * (S - k) + M * k" using assms(3,4) by (simp flip: distrib_left)
  have s: "(unat a + unat (part c k)) * 65536 \<le> M * S" using assms(1) p e by simp
  have "M * S \<le> 255 * 2 ^ 31" using assms(5,6) by (intro mult_le_mono) auto
  then have v: "unat (a + part c k) = unat a + unat (part c k)" using s by (subst unat_add_small) simp_all
  let ?v = "unat (a + part c k)" and ?r = "2 ^ 32 div S :: nat"
  have r: "unat (word_of_nat ?r :: u32) = ?r" 
  proof -
    have "?r \<le> 2 ^ 32 div 0x10000" using assms(4) by (intro div_le_mono2) auto
    then show ?thesis by (simp add: unat_of_nat take_bit_nat_eq_self)
  qed
  have "?v * 65536 * ?r \<le> M * S * ?r" using s v by (intro mult_le_mono1) simp
  also have "M * S * ?r \<le> M * 2 ^ 32"
    using div_times_less_eq_dividend[of "2 ^ 32" S] by (simp add: mult.assoc mult.commute)
  finally have le: "?v * ?r \<le> M * 65536" by simp
  have "unat ((a + part c k) * word_of_nat ?r) = ?v * unat (word_of_nat ?r :: u32)"
    by (rule unat_mult_small) (unfold r, use le assms(5) in simp)
  then have "unat ((a + part c k) * word_of_nat ?r) = ?v * ?r" by (simp only: r)
  then have "unat (drop_bit 16 ((a + part c k) * word_of_nat ?r)) = ?v * ?r div 65536"
    by (simp only: unat_drop_bit_eq) (simp add: drop_bit_eq_div)
  moreover have "?v * ?r div 65536 \<le> M" using le by (metis div_le_mono nonzero_mult_div_cancel_right zero_neq_numeral)
  ultimately show ?thesis using assms(5)
    by (simp add: unsigned_ucast_eq take_bit_nat_eq_self)
qed

definition bounded :: "(nat \<Rightarrow> nat) \<Rightarrow> nat \<Rightarrow> bytes \<Rightarrow> bool" where
  "bounded M w s \<longleftrightarrow> length s = w \<and> (\<forall>c<w. unat (s ! c) \<le> M c)"

lemma shrink_loop_bounded:
  assumes S: "0x10000 < S" "S < 2 ^ 31" and M: "\<And>c. M c \<le> 255"
  shows "list_all (bounded M w) items \<Longrightarrow> length acc = w \<Longrightarrow> \<forall>c<w. unat (acc ! c) * 65536 \<le> M c * (S - k) \<Longrightarrow>
    0 < k \<Longrightarrow> k \<le> S \<Longrightarrow> list_all (bounded M w) (shrink_loop S (word_of_nat (2 ^ 32 div S)) k acc items)"
proof (induction items arbitrary: k acc)
  case (Cons s ss)
  have s: "length s = w" "\<And>c. c < w \<Longrightarrow> unat (s ! c) \<le> M c" using Cons.prems(1) by (simp_all add: bounded_def)
  show ?case
  proof (cases "k > 0x10000")
    case True
    have "\<forall>c<w. unat (map2 (\<lambda>a c. a + ucast c) acc s ! c) * 65536 \<le> M c * (S - (k - 0x10000))"
    proof (intro allI impI)
      fix c assume c: "c < w"
      have "unat (acc ! c + ucast (s ! c) :: u32) * 65536 \<le> M c * (S - (k - 0x10000))"
        using Cons.prems(3) c s(2)[OF c] True Cons.prems(5) M S(2) by (intro shrink_step_full) auto
      then show "unat (map2 (\<lambda>a c. a + ucast c) acc s ! c) * 65536 \<le> M c * (S - (k - 0x10000))"
        using c s(1) Cons.prems(2) by simp
    qed
    then show ?thesis using Cons.IH[of "map2 (\<lambda>a c. a + ucast c) acc s" "k - 0x10000"] Cons.prems True s(1) by simp
  next
    case False
    let ?r = "word_of_nat (2 ^ 32 div S) :: u32"
    have "bounded M w (map2 (\<lambda>a c. ucast (drop_bit 16 ((a + part c k) * ?r))) acc s)"
      unfolding bounded_def
    proof (intro conjI allI impI)
      show "length (map2 (\<lambda>a c. ucast (drop_bit 16 ((a + part c k) * ?r)) :: u8) acc s) = w" using s(1) Cons.prems(2) by simp
      fix c assume c: "c < w"
      have "unat (ucast (drop_bit 16 ((acc ! c + part (s ! c) k) * ?r)) :: u8) \<le> M c"
        using Cons.prems(3) c s(2)[OF c] False M S by (intro shrink_step_out) auto
      then show "unat (map2 (\<lambda>a c. ucast (drop_bit 16 ((a + part c k) * ?r)) :: u8) acc s ! c) \<le> M c"
        using c s(1) Cons.prems(2) by simp
    qed
    moreover have "\<forall>c<w. unat (map (\<lambda>c. part c (0x10000 - k)) s ! c) * 65536 \<le> M c * (S - (S - (0x10000 - k)))"
      using part_bound[OF s(2) M] s(1) S(1) by simp
    ultimately show ?thesis
      using Cons.IH[of "map (\<lambda>c. part c (0x10000 - k)) s" "S - (0x10000 - k)"] Cons.prems False s(1) S(1)
      by (simp add: Let_def)
  qed
qed simp

lemma shrink_bounded:
  assumes "0 < d" and "d < length items" and "length items < 0x7fff" and "list_all (bounded M w) items" and "\<And>c. M c \<le> 255"
  shows "list_all (bounded M w) (shrink w d items)"
proof -
  note b = space_bounds[OF assms(1-3)]
  show ?thesis unfolding shrink_def Let_def
    by (rule shrink_loop_bounded[OF b(1,4) assms(5,4)]) (use b(1) in auto)
qed

section \<open>Growing\<close>

text \<open>
  \<open>ExpandX\<close> and \<open>ExpandY\<close>: each result lies between two neighbours.  The second is read in any
  case; behind the last element it is the memory that follows, \<open>beyond\<close>.
\<close>

definition mix_bytes :: "nat \<Rightarrow> nat \<Rightarrow> u8 \<Rightarrow> u8 \<Rightarrow> u8" where
  "mix_bytes m0 m1 a b = word_of_nat ((unat a * m0 + unat b * m1) div 65536)"

definition expand :: "bytes \<Rightarrow> nat \<Rightarrow> bytes list \<Rightarrow> bytes list" where
  "expand beyond d items =
     map (\<lambda>x. let p = x * (length items - 1); i = p div d; m1 = 0x10000 * (p mod d) div d; m0 = 0x10000 - m1 in
            map2 (mix_bytes m0 m1) ((items @ [beyond]) ! i) ((items @ [beyond]) ! (i + 1)))
       [0..<d]"

lemma mix_bytes_between:
  assumes "m0 + m1 = 65536"
  shows "min (unat a) (unat b) \<le> unat (mix_bytes m0 m1 a b) \<and> unat (mix_bytes m0 m1 a b) \<le> max (unat a) (unat b)"
proof -
  let ?lo = "min (unat a) (unat b)" and ?hi = "max (unat a) (unat b)"
  have "?lo * m0 + ?lo * m1 \<le> unat a * m0 + unat b * m1" by (intro add_mono mult_le_mono1) simp_all
  then have lo: "?lo * 65536 \<le> unat a * m0 + unat b * m1" by (simp flip: distrib_left add: assms)
  have "unat a * m0 + unat b * m1 \<le> ?hi * m0 + ?hi * m1" by (intro add_mono mult_le_mono1) simp_all
  then have hi: "unat a * m0 + unat b * m1 \<le> ?hi * 65536" by (simp flip: distrib_left add: assms)
  have q: "?lo \<le> (unat a * m0 + unat b * m1) div 65536" "(unat a * m0 + unat b * m1) div 65536 \<le> ?hi"
    using div_le_mono[OF lo, of 65536] div_le_mono[OF hi, of 65536] by simp_all
  have "?hi < 256" using unsigned_less[of a, where 'a = nat] unsigned_less[of b, where 'a = nat] by simp
  then have "(unat a * m0 + unat b * m1) div 65536 < 256" using q(2) by linarith
  then have "unat (mix_bytes m0 m1 a b) = (unat a * m0 + unat b * m1) div 65536"
    unfolding mix_bytes_def by (simp add: unat_of_nat take_bit_nat_eq_self)
  then show ?thesis using q by simp
qed

lemma expand_position:
  assumes "0 < (d :: nat)" and "2 \<le> n" and "x < d"
  shows "x * (n - 1) div d + 1 < n"
proof -
  have "x * (n - 1) < (n - 1) * d" using assms by (simp add: mult.commute)
  then have "x * (n - 1) div d < n - 1" using assms(1) by (simp add: div_less_iff_less_mult)
  then show ?thesis by simp
qed

lemma expand_weights: "0 < (d :: nat) \<Longrightarrow> 0x10000 * (p mod d) div d \<le> 0x10000"
proof -
  assume d: "0 < d"
  have "0x10000 * (p mod d) \<le> 0x10000 * d" using d by (intro mult_le_mono2) simp
  then show ?thesis using d div_le_mono[of "0x10000 * (p mod d)" "0x10000 * d" d] by simp
qed

text \<open>The element behind the last is read only if there is a single one, and then with no weight.\<close>

lemma expand_single:
  assumes "length beyond = length s" and "0 < d"
  shows "expand beyond d [s] = replicate d s"
proof -
  have "mix_bytes 65536 0 a b = a" for a b by (simp add: mix_bytes_def)
  then have "map2 (mix_bytes 65536 0) s beyond = s" by (intro nth_equalityI) (simp_all add: assms(1))
  then show ?thesis by (simp add: expand_def Let_def map_replicate_const)
qed

lemma bounded_mix:
  assumes "bounded M w a" and "bounded M w b" and "m \<le> 0x10000"
  shows "bounded M w (map2 (mix_bytes (0x10000 - m) m) a b)"
  unfolding bounded_def
proof (intro conjI allI impI)
  show "length (map2 (mix_bytes (0x10000 - m) m) a b) = w" using assms(1,2) by (simp add: bounded_def)
  fix c assume c: "c < w"
  have "unat (mix_bytes (0x10000 - m) m (a ! c) (b ! c)) \<le> max (unat (a ! c)) (unat (b ! c))"
    using mix_bytes_between[of "0x10000 - m" m] assms(3) by simp
  also have "\<dots> \<le> M c" using assms(1,2) c by (simp add: bounded_def)
  finally show "unat (map2 (mix_bytes (0x10000 - m) m) a b ! c) \<le> M c"
    using assms(1,2) c by (simp add: bounded_def)
qed

lemma expand_bounded:
  assumes "0 < d" and "items \<noteq> []" and "list_all (bounded M w) items" and "length beyond = w"
  shows "length (expand beyond d items) = d \<and> list_all (bounded M w) (expand beyond d items)"
proof (cases "length items = 1")
  case True
  then obtain s where s: "items = [s]" by (cases items) auto
  then have "length beyond = length s" using assms(3,4) by (simp add: bounded_def)
  from expand_single[OF this assms(1)] show ?thesis using assms(3) s by (simp add: list_all_iff)
next
  case False
  then have n: "2 \<le> length items" using assms(2) by (cases items) (auto simp: Suc_le_eq)
  have i: "bounded M w ((items @ [beyond]) ! i)" if "i < length items" for i
    using that assms(3) by (simp add: nth_append list_all_length)
  have "bounded M w (expand beyond d items ! x)" if "x < d" for x
  proof -
    have p: "x * (length items - 1) div d + 1 < length items" by (rule expand_position[OF assms(1) n that])
    show ?thesis using that bounded_mix[OF i[OF add_lessD1[OF p]] i[OF p] expand_weights[OF assms(1)]]
      by (simp add: expand_def Let_def)
  qed
  then show ?thesis by (simp add: list_all_length expand_def)
qed

section \<open>Both directions\<close>

definition pixel_chunks :: "nat \<Rightarrow> bytes \<Rightarrow> bytes list" where
  "pixel_chunks w row = map (\<lambda>i. take 4 (drop (4 * i) row)) [0..<w]"

text \<open>
  The bytes \<open>ResampleSmooth\<close> asks for: the picture between the two passes and the accumulators
  behind it, both counted in a \<open>long\<close>.  On Windows that has 32 bits, and the size guard of the
  caller does not keep the count below \<open>2 ^ 31\<close>.
\<close>

definition smooth_space :: "nat \<Rightarrow> nat \<Rightarrow> nat \<Rightarrow> nat \<Rightarrow> nat" where
  "smooth_space dw sw dh sh = sw * dh * 4 + max (max sw sh) (max dw dh) * 32"

text \<open>
  \<open>ResampleSmooth\<close> on the rows of a picture, first the rows and then the columns.  \<open>junk\<close> fills the
  memory behind the source.  \<open>None\<close> is where the count of the buffer overflows: what the code
  does then, with a buffer that may be far too small, has no meaning.
\<close>

definition ResampleSmooth :: "u8 \<Rightarrow> nat \<Rightarrow> nat \<Rightarrow> nat \<Rightarrow> nat \<Rightarrow> bytes list \<Rightarrow> bytes list option" where
  "ResampleSmooth junk dw sw dh sh src =
     (if sw = dw \<and> sh = dh then Some src
      else if smooth_space dw sw dh sh \<ge> 2 ^ 31 then None
      else if dw = sw
      then Some (if dh < sh then shrink (4 * sw) dh src else expand (replicate (4 * sw) junk) dh src)
      else
        let temp = (if dh < sh then shrink (4 * sw) dh src
                    else if dh > sh then expand (replicate (4 * sw) junk) dh src else src)
        in Some (map (\<lambda>row. concat ((if dw < sw then shrink 4 dw else expand (replicate 4 junk) dw) (pixel_chunks sw row))) temp))"

text \<open>
  A picture of 32766 by 10 pixels passes the size guard and so does one of 10 by 32766, but the
  space for the picture between the two and the accumulators comes out as 524240 bytes instead of
  four gigabytes.
\<close>

lemma smooth_space_wraps:
  "\<not> (32766 OR 10 :: nat) \<ge> 0x7fff \<and> ResampleSmooth junk 10 32766 32766 10 src = None \<and>
   unat (word_of_nat (smooth_space 10 32766 32766 10) :: u32) = 524240"
  by (simp add: ResampleSmooth_def smooth_space_def)

lemma pixel_chunks_bounded:
  assumes "bounded (\<lambda>k. M (k mod 4)) (4 * w) row"
  shows "list_all (bounded (\<lambda>k. M (k mod 4)) 4) (pixel_chunks w row)"
  unfolding pixel_chunks_def list_all_length
proof (intro allI impI)
  fix i assume i: "i < length (map (\<lambda>i. take 4 (drop (4 * i) row)) [0..<w])"
  have "unat (row ! (4 * i + c)) \<le> M c" if "c < 4" for c
  proof -
    have "4 * i + c < 4 * w" using i that by simp
    then have "unat (row ! (4 * i + c)) \<le> M ((4 * i + c) mod 4)" using assms unfolding bounded_def by blast
    then show ?thesis using that by simp
  qed
  then show "bounded (\<lambda>k. M (k mod 4)) 4 (map (\<lambda>i. take 4 (drop (4 * i) row)) [0..<w] ! i)"
    using assms i by (simp add: bounded_def)
qed

lemma concat_bounded:
  "list_all (bounded (\<lambda>k. M (k mod 4)) 4) ps \<Longrightarrow> bounded (\<lambda>k. M (k mod 4)) (4 * length ps) (concat ps)"
proof (induction ps)
  case (Cons p ps)
  have p: "length p = 4" "\<And>k. k < 4 \<Longrightarrow> unat (p ! k) \<le> M (k mod 4)" using Cons.prems by (simp_all add: bounded_def)
  have ps: "length (concat ps) = 4 * length ps" "\<And>k. k < 4 * length ps \<Longrightarrow> unat (concat ps ! k) \<le> M (k mod 4)"
    using Cons by (simp_all add: bounded_def)
  have "unat (concat (p # ps) ! k) \<le> M (k mod 4)" if k: "k < 4 * length (p # ps)" for k
  proof (cases "k < 4")
    case True
    then show ?thesis using p by (simp add: nth_append)
  next
    case False
    then have "unat (concat ps ! (k - 4)) \<le> M ((k - 4) mod 4)" using k by (intro ps(2)) simp
    moreover have "(k - 4) mod 4 = k mod 4" using False by (simp add: le_mod_geq)
    ultimately show ?thesis using False p(1) by (simp add: nth_append)
  qed
  then show ?case using p(1) ps(1) by (simp add: bounded_def)
qed (simp add: bounded_def)

text \<open>One direction, as both are used: the exact number of elements, none brighter than before.\<close>

lemma resize_bounded:
  assumes "0 < d" and "0 < length items" and "length items < 0x7fff" and "d \<noteq> length items"
    and "list_all (bounded M w) items" and "\<And>c. M c \<le> 255"
  shows "length ((if d < length items then shrink w d else expand (replicate w junk) d) items) = d \<and>
    list_all (bounded M w) ((if d < length items then shrink w d else expand (replicate w junk) d) items)"
proof (cases "d < length items")
  case True
  then show ?thesis using shrink_count[OF assms(1) True assms(3)] shrink_bounded[OF assms(1) True assms(3,5,6)] by simp
next
  case False
  then show ?thesis using expand_bounded[OF assms(1) _ assms(5)] assms(2) by simp
qed

text \<open>
  C39. Resampling with the averaging filter gives exactly the asked number of rows, each of the
  asked number of pixels, and no channel of a result is brighter than the brightest source pixel
  in that channel: neither the 32-bit accumulators nor the products of the fixed-point steps
  wrap for sizes below 0x7fff, and what lies in memory behind the source, which growing a single
  row or column reads, has no influence on that.  This holds as long as the bytes of the buffer
  between the two passes, \<open>sw * dh * 4\<close> and 32 times the largest of the four sizes, are fewer than
  \<open>2 ^ 31\<close>, so that a \<open>long\<close> of 32 bits counts them: the size guard of the callers does not ensure that.
\<close>

theorem resample_smooth_within:
  assumes "0 < dw" and "0 < dh" and "0 < sw" and "sw < 0x7fff" and "0 < length src" and "length src < 0x7fff"
    and "list_all (bounded (\<lambda>k. M (k mod 4)) (4 * sw)) src" and "\<And>c. M c \<le> 255"
    and "smooth_space dw sw dh (length src) < 2 ^ 31"
  shows "\<exists>out. ResampleSmooth junk dw sw dh (length src) src = Some out \<and> length out = dh \<and>
    list_all (bounded (\<lambda>k. M (k mod 4)) (4 * dw)) out"
proof -
  let ?B = "bounded (\<lambda>k. M (k mod 4))"
  have y: "length ((if dh < length src then shrink (4 * sw) dh else expand (replicate (4 * sw) junk) dh) src) = dh \<and>
      list_all (?B (4 * sw)) ((if dh < length src then shrink (4 * sw) dh else expand (replicate (4 * sw) junk) dh) src)"
    if "dh \<noteq> length src"
    by (rule resize_bounded[OF assms(2,5,6) that assms(7)]) (rule assms(8))
  have x: "?B (4 * dw) (concat ((if dw < sw then shrink 4 dw else expand (replicate 4 junk) dw) (pixel_chunks sw row)))"
    if "dw \<noteq> sw" "?B (4 * sw) row" for row
  proof -
    have n: "length (pixel_chunks sw row) = sw" by (simp add: pixel_chunks_def)
    show ?thesis
      using resize_bounded[of dw "pixel_chunks sw row" "\<lambda>k. M (k mod 4)" 4 junk] concat_bounded
        pixel_chunks_bounded[OF that(2)] assms(1,3,4,8) that(1)
      by (metis n)
  qed
  show ?thesis
  proof (cases "dw = sw")
    case True
    then show ?thesis using y assms(7,9) by (cases "dh = length src") (auto simp: ResampleSmooth_def split: if_splits)
  next
    case False
    define temp where "temp = (if dh < length src then shrink (4 * sw) dh src
      else if dh > length src then expand (replicate (4 * sw) junk) dh src else src)"
    have "length temp = dh \<and> list_all (?B (4 * sw)) temp"
      using y assms(7) by (cases "dh = length src") (auto simp: temp_def split: if_splits)
    moreover have "ResampleSmooth junk dw sw dh (length src) src =
        Some (map (\<lambda>row. concat ((if dw < sw then shrink 4 dw else expand (replicate 4 junk) dw) (pixel_chunks sw row))) temp)"
      using False assms(9) by (simp add: ResampleSmooth_def temp_def Let_def)
    ultimately show ?thesis using x[OF False]
      by (simp only: option.inject ex_simps simp_thms length_map list_all_iff set_map ball_simps) blast
  qed
qed

text \<open>Three rows of three grey pixels become two rows of four, none brighter than 200.\<close>

theorem resample_smooth_within_witness:
  "\<exists>out. ResampleSmooth 9 4 3 2 3 (replicate 3 (replicate 12 200)) = Some out \<and> length out = 2 \<and>
   list_all (bounded (\<lambda>_. 200) 16) out"
  using resample_smooth_within[of 4 2 3 "replicate 3 (replicate 12 200)" "\<lambda>_. 200" 9]
  by (simp add: bounded_def list_all_iff smooth_space_def)

text \<open>
  The reciprocal is cut off, as in the box filter: an opaque or white picture loses a step.
\<close>

lemma opaque_shrinks_to_254: "shrink 1 2 [[255], [255], [255]] = [[254], [254]]"
  by (simp add: shrink_def shrink_space_def part_def Let_def)

section \<open>Scale\<close>

text \<open>
  One destination row of \<open>Scale\<close>: \<open>offx\<close> and \<open>incx\<close> walk over the source row, which repeats its
  last pixel twice.  \<open>scan_srcrow\<close> is the row interpolation \<open>ScaleCrop\<close> has, too.
\<close>

definition scale_write :: "(bytes \<Rightarrow> nat \<Rightarrow> u32 list \<Rightarrow> bytes) option \<Rightarrow> u32 \<Rightarrow> pixel_fmt \<Rightarrow> nat \<Rightarrow> int \<Rightarrow> int \<Rightarrow>
    u32 list \<Rightarrow> bytes \<Rightarrow> bytes" where
  "scale_write draw mode dfmt dx dw sw srcrow row =
     (let cols = interpcol mode (nat dw) srcrow (scale_off sw dw) (scale_inc sw dw) in
      case draw of
        None \<Rightarrow>
          if dw = sw then Store dfmt row dx (take (nat dw) srcrow)
          else if fmt_bpp dfmt = 32 then put_list (px_put 4) row dx cols
          else Store dfmt row dx cols
      | Some d \<Rightarrow> d row dx (if dw = sw then take (nat dw) srcrow else cols))"

definition scale_env :: "bitmap \<Rightarrow> int \<Rightarrow> int \<Rightarrow> u32 \<Rightarrow> u32 \<Rightarrow> scan_env" where
  "scale_env src sx sw mode color = \<lparr>se_src = src, se_scw = sw, se_sx = sx, se_sw = sw, se_crw = sw,
     se_lstartx = 0, se_incx = 0x10000, se_mode = mode, se_color = color, se_draw = None\<rparr>"

text \<open>\<open>starty\<close> after \<open>j\<close> steps is written out.\<close>

definition scale_scan :: "bitmap \<Rightarrow> bitmap \<Rightarrow> ltrb \<Rightarrow> ltrb \<Rightarrow> u32 \<Rightarrow> u32 \<Rightarrow> bitmap" where
  "scale_scan dst src bd bs mode color =
     (let (dl, dt, dr, db) = bd; (sx, sy, sr, sb) = bs;
          dw = dr - dl; dh = db - dt; sw = sr - sx; sh = sb - sy in
      if sh \<le> 0 \<or> sw \<le> 0 \<or> dh \<le> 0 \<or> dw \<le> 0 then dst
      else
        let offy = scale_off sh dh; incy = scale_inc sh dh; vflip = has_flag mode PIXEL_FLAG_VFLIP;
            starty = (if vflip then (sy + sh - 1) * 65536 - offy else sy * 65536 + offy)
        in each_row (\<lambda>j. scale_write (mode_draw (bm_fmt dst) mode) mode (bm_fmt dst) (nat dl) dw sw
               (scan_srcrow (scale_env src sx sw mode color)
                 (if vflip then starty - int j * incy else starty + int j * incy)))
             dt (nat dh) dst)"

definition Scale :: "(int \<Rightarrow> int \<Rightarrow> int \<Rightarrow> int) \<Rightarrow> bitmap \<Rightarrow> int \<Rightarrow> int \<Rightarrow> int \<Rightarrow> int \<Rightarrow> bitmap \<Rightarrow> u32 \<Rightarrow>
    int \<Rightarrow> int \<Rightarrow> int \<Rightarrow> int \<Rightarrow> u32 \<Rightarrow> u32 \<Rightarrow> bitmap" where
  "Scale mulf dst dx dy dw dh src m sx sy sw sh mode color =
     (if too_large dst src then dst
      else if dw = sw \<and> dh = sh then snd (Blend dst dx dy src m sx sy sw sh mode color)
      else (case stretch_clip mulf dst src (dx, dy, dx + dw, dy + dh) (sx, sy, sx + sw, sy + sh) mode of
          None \<Rightarrow> dst
        | Some (bd, bs) \<Rightarrow> scale_scan dst src bd bs mode color))"

definition Scale_rect :: "(int \<Rightarrow> int \<Rightarrow> int \<Rightarrow> int) \<Rightarrow> bitmap \<Rightarrow> ltrb option \<Rightarrow> bitmap \<Rightarrow> u32 \<Rightarrow> ltrb option \<Rightarrow>
    u32 \<Rightarrow> u32 \<Rightarrow> bitmap" where
  "Scale_rect mulf dst rect src m bound mode color =
     (let (dl, dt, dr, db) = (case rect of None \<Rightarrow> (0, 0, int (bm_w dst), int (bm_h dst)) | Some r \<Rightarrow> r);
          (sl, st, sr, sb) = (case bound of None \<Rightarrow> (0, 0, int (bm_w src), int (bm_h src)) | Some r \<Rightarrow> r)
      in Scale mulf dst dl dt (dr - dl) (db - dt) src m sl st (sr - sl) (sb - st) mode color)"

section \<open>Resample\<close>

datatype ResampleFilter = NONE | LINEAR | BILINEAR | AVERAGE | BICUBIC

definition picture_rows :: "bitmap \<Rightarrow> int \<Rightarrow> int \<Rightarrow> int \<Rightarrow> int \<Rightarrow> bytes list" where
  "picture_rows b x y w h = map (\<lambda>j. take (nat (4 * w)) (drop (nat (4 * x)) (Line b (y + int j)))) [0..<nat h]"

definition put_rows :: "bytes list \<Rightarrow> int \<Rightarrow> int \<Rightarrow> bitmap \<Rightarrow> bitmap" where
  "put_rows rows x y = each_row (\<lambda>j r. take (nat (4 * x)) r @ rows ! j @ drop (nat (4 * x) + length (rows ! j)) r)
     y (length rows)"

text \<open>
  Pictures of other formats go through an \<open>A8R8G8B8\<close> bitmap - but one of 32 bits is taken, and
  stored, as if it was one.  \<open>src\<close> and \<open>dst\<close> are two bitmaps.  The result is the returned number and
  the destination, or \<open>None\<close> as above.
\<close>

definition ResampleAvg :: "u8 \<Rightarrow> bitmap \<Rightarrow> int \<Rightarrow> int \<Rightarrow> int \<Rightarrow> int \<Rightarrow> bitmap \<Rightarrow> u32 \<Rightarrow> int \<Rightarrow> int \<Rightarrow> int \<Rightarrow> int \<Rightarrow>
    (int \<times> bitmap) option" where
  "ResampleAvg junk dst dx dy dw dh src m sx sy sw sh =
     (let sfmt = bm_fmt src; dfmt = bm_fmt dst;
          smooth = ResampleSmooth junk (nat dw) (nat sw) (nat dh) (nat sh);
          card_bitmap = (\<lambda>w h. new_bitmap (nat w) (nat h) A8R8G8B8) in
      if fmt_bpp sfmt = 32 \<and> fmt_bpp dfmt = 32 \<and> sfmt = dfmt
      then map_option (\<lambda>rows. (0, put_rows rows dx dy dst)) (smooth (picture_rows src sx sy sw sh))
      else if fmt_bpp sfmt = 32
      then (case card_bitmap dw dh of None \<Rightarrow> Some (- 1, dst)
        | Some bmp \<Rightarrow> map_option (\<lambda>rows.
            let bmp = put_rows rows 0 0 bmp;
                bmp = (if sfmt = X8R8G8B8 then SetAlphaForAllPixel 255 bmp else bmp)
            in (0, snd (Convert dst dx dy bmp 0 0 0 (int (bm_w bmp)) (int (bm_h bmp)) 0)))
            (smooth (picture_rows src sx sy sw sh)))
      else if fmt_bpp dfmt = 32
      then (case card_bitmap sw sh of None \<Rightarrow> Some (- 3, dst)
        | Some bmp \<Rightarrow>
            let bmp = snd (Convert bmp 0 0 src m 0 0 sw sh 0)
            in map_option (\<lambda>rows. (0, put_rows rows dx dy dst)) (smooth (picture_rows bmp 0 0 sw sh)))
      else (case (card_bitmap sw sh, card_bitmap dw dh) of
          (Some bs, Some bd) \<Rightarrow>
            let bs = snd (Convert bs 0 0 src m 0 0 sw sh 0)
            in map_option (\<lambda>rows. (0, snd (Convert dst dx dy (put_rows rows 0 0 bd) 0 0 0 dw dh 0)))
                 (smooth (picture_rows bs 0 0 sw sh))
        | _ \<Rightarrow> Some (- 5, dst)))"

text \<open>
  \<open>bicubic x y\<close> is the sample \<open>SampleBicubic\<close> takes for the destination pixel \<open>x\<close>, \<open>y\<close> counted
  from the rectangle's corner.
\<close>

definition bicubic_scan :: "(nat \<Rightarrow> nat \<Rightarrow> u32) \<Rightarrow> int \<Rightarrow> int \<Rightarrow> int \<Rightarrow> int \<Rightarrow> bitmap \<Rightarrow> bitmap" where
  "bicubic_scan bicubic dx dy dw dh dst =
     fold (\<lambda>j b. fold (\<lambda>i b. SetColor b (dx + int i) (dy + int j) (bicubic i j)) [0..<nat dw] b) [0..<nat dh] dst"

text \<open>
  \<open>Resample\<close> with the number it returns, \<open>None\<close> where the averaging filter has no meaning; the
  number of \<open>ResampleAvg\<close> is dropped.
\<close>

definition Resample :: "(int \<Rightarrow> int \<Rightarrow> int \<Rightarrow> int) \<Rightarrow> (bitmap \<Rightarrow> ltrb \<Rightarrow> ltrb \<Rightarrow> nat \<Rightarrow> nat \<Rightarrow> u32) \<Rightarrow> u8 \<Rightarrow>
    bitmap \<Rightarrow> int \<Rightarrow> int \<Rightarrow> int \<Rightarrow> int \<Rightarrow> bitmap \<Rightarrow> u32 \<Rightarrow> int \<Rightarrow> int \<Rightarrow> int \<Rightarrow> int \<Rightarrow> ResampleFilter \<Rightarrow>
    (int \<times> bitmap) option" where
  "Resample mulf bicubic junk dst dx dy dw dh src m sx sy sw sh flt =
     (if too_large dst src then Some (- 1, dst)
      else if dw = sw \<and> dh = sh then Some (0, snd (Convert dst dx dy src m sx sy sw sh 0))
      else (case ClipScale mulf (0, 0, int (bm_w dst), int (bm_h dst)) (0, 0, int (bm_w src), int (bm_h src))
            (dx, dy, dx + dw, dy + dh) (sx, sy, sx + sw, sy + sh) 0 of
          Inl _ \<Rightarrow> Some (0, dst)
        | Inr ((dx, dy, dr, db), (sx, sy, sr, sb)) \<Rightarrow>
            let dw = dr - dx; dh = db - dy; sw = sr - sx; sh = sb - sy;
                mode = PIXEL_FLAG_SRCCOPY OR PIXEL_FLAG_NOCLIP;
                scaled = (\<lambda>mode. Some (0, Scale mulf dst dx dy dw dh src m sx sy sw sh mode 0xffffffff)) in
            if dx < 0 \<or> dx + dw > int (bm_w dst) \<or> dy < 0 \<or> dy + dh > int (bm_h dst) \<or>
               sx < 0 \<or> sx + sw > int (bm_w src) \<or> sy < 0 \<or> sy + sh > int (bm_h src) \<or> dh \<le> 0 \<or> dw \<le> 0
            then Some (0, dst)
            else if sw = dw \<and> sh = dh then Some (0, snd (Convert dst dx dy src m sx sy sw sh 0))
            else (case flt of
                NONE \<Rightarrow> scaled mode
              | LINEAR \<Rightarrow> scaled (mode OR PIXEL_FLAG_LINEAR)
              | BILINEAR \<Rightarrow> scaled (mode OR PIXEL_FLAG_BILINEAR)
              | AVERAGE \<Rightarrow> map_option (\<lambda>(_, b). (0, b)) (ResampleAvg junk dst dx dy dw dh src m sx sy sw sh)
              | BICUBIC \<Rightarrow> Some (0, bicubic_scan (bicubic src (dx, dy, dr, db) (sx, sy, sr, sb)) dx dy dw dh dst))))"

text \<open>The new bitmap, \<open>Some None\<close> for the null pointer.\<close>

definition Resample_new :: "(int \<Rightarrow> int \<Rightarrow> int \<Rightarrow> int) \<Rightarrow> (bitmap \<Rightarrow> ltrb \<Rightarrow> ltrb \<Rightarrow> nat \<Rightarrow> nat \<Rightarrow> u32) \<Rightarrow> u8 \<Rightarrow>
    bitmap \<Rightarrow> u32 \<Rightarrow> int \<Rightarrow> int \<Rightarrow> ResampleFilter \<Rightarrow> bitmap option option" where
  "Resample_new mulf bicubic junk b m w h flt =
     (if w \<le> 0 \<or> h \<le> 0 then Some None
      else case new_bitmap (nat w) (nat h) (bm_fmt b) of None \<Rightarrow> Some None
      | Some bmp \<Rightarrow> map_option (\<lambda>(_, bmp). Some bmp) (Resample mulf bicubic junk bmp 0 0 w h b m
          0 0 (int (bm_w b)) (int (bm_h b)) flt))"

section \<open>What the scans read and where they write\<close>

text \<open>
  The row that is interpolated has two more elements than the source rectangle is wide, and the
  positions reach at most the first of them, with their neighbour the second.
\<close>

lemma scale_column_within:
  assumes "0 < sw" and "0 < dw" and "0 \<le> k" and "k < dw"
  shows "0 \<le> fix_int (scale_off sw dw + k * scale_inc sw dw) \<and>
    fix_int (scale_off sw dw + k * scale_inc sw dw) + 1 < sw + 2"
proof -
  have "0 \<le> scale_inc sw dw" using assms by (intro scale_inc_nonneg) simp_all
  then have "0 \<le> scale_off sw dw + k * scale_inc sw dw" using assms(3) by (simp add: scale_off_def)
  then show ?thesis using last_position[OF assms] fix_int_nonneg by simp
qed

lemma scale_env_sel [simp]:
  "se_src (scale_env src sx sw mode color) = src" "se_sx (scale_env src sx sw mode color) = sx"
  "se_sw (scale_env src sx sw mode color) = sw" "se_mode (scale_env src sx sw mode color) = mode"
  "se_color (scale_env src sx sw mode color) = color"
  by (simp_all add: scale_env_def)

lemma scan_row_nth:
  assumes "canvas_ok src" and "0 \<le> sx" and "sx + sw \<le> int (bm_w src)" and "0 \<le> y" and "y < int (bm_h src)" and "i < nat sw"
  shows "scan_row (scale_env src sx sw mode color) y ! i = card_at src (sx + int i) y"
proof -
  have "0 \<le> sw" using assms(6) by simp
  moreover have "bm_fmt src \<noteq> UNKNOW" using assms(1) by (simp add: canvas_ok_def)
  ultimately show ?thesis
    using assms RowFetch_inside[of src sx sw y "replicate (nat sw) 0"]
    by (simp add: scan_row_def card_at_def Fetch_def nat_add_distrib)
qed

lemma length_scan_row:
  assumes "canvas_ok src" and "0 \<le> sx" and "0 \<le> sw" and "sx + sw \<le> int (bm_w src)" and "0 \<le> y" and "y < int (bm_h src)"
  shows "length (scan_row (scale_env src sx sw mode color) y) = nat sw"
proof -
  have "bm_fmt src \<noteq> UNKNOW" using assms(1) by (simp add: canvas_ok_def)
  then show ?thesis using assms RowFetch_inside[of src sx sw y "replicate (nat sw) 0"]
    by (simp add: scan_row_def Fetch_def)
qed

text \<open>The row the nearest mode makes of a position: the clamped row itself, its last pixel repeated.\<close>

definition opaque_card :: "bitmap \<Rightarrow> u32 \<Rightarrow> u32" where
  "opaque_card src c = (if bm_fmt src = X8R8G8B8 then (c AND 0x00ffffff) OR push_bit 24 (0xff AND 0xff) else c)"

definition unmirrored :: "u32 \<Rightarrow> bool" where
  "unmirrored mode \<longleftrightarrow> \<not> has_flag mode PIXEL_FLAG_HFLIP \<and> \<not> has_flag mode PIXEL_FLAG_VFLIP"

definition unfiltered :: "u32 \<Rightarrow> bool" where
  "unfiltered mode \<longleftrightarrow> \<not> has_flag mode PIXEL_FLAG_LINEAR \<and> \<not> has_flag mode PIXEL_FLAG_BILINEAR"

lemma scan_srcrow_nearest:
  assumes "canvas_ok src" and "0 \<le> sx" and "0 < sw" and "sx + sw \<le> int (bm_w src)" and "0 < bm_h src"
    and "unmirrored mode" and "unfiltered mode"
  shows "length (scan_srcrow (scale_env src sx sw mode 0xffffffff) sy) = nat sw + 2"
    and "i < nat sw + 2 \<Longrightarrow> scan_srcrow (scale_env src sx sw mode 0xffffffff) sy ! i =
    opaque_card src (card_at src (sx + min (int i) (sw - 1)) (clamp_row (fix_int sy) (int (bm_h src))))"
proof -
  let ?e = "scale_env src sx sw mode 0xffffffff" and ?y = "clamp_row (fix_int sy) (int (bm_h src))"
  have y: "0 \<le> ?y" "?y < int (bm_h src)" using clamp_row_range assms(5) by simp_all
  have c: "(if fix_int sy < 0 then 0 else if fix_int sy > int (bm_h src) - 1 then int (bm_h src) - 1 else fix_int sy) = ?y"
    by (simp add: clamp_row_def)
  define R where "R = take (nat sw) (scan_row ?e ?y)"
  define R' where "R' = (if bm_fmt src = X8R8G8B8 then CardSetAlpha 0xff R else R)"
  have lenR: "length R' = nat sw"
    using length_scan_row[OF assms(1,2) _ assms(4) y] assms(3) by (simp add: R_def R'_def CardSetAlpha_def)
  have R: "R' ! k = opaque_card src (card_at src (sx + int k) ?y)" if "k < nat sw" for k
    using that scan_row_nth[OF assms(1,2,4) y that] length_scan_row[OF assms(1,2) _ assms(4) y] assms(3)
    by (simp add: R_def R'_def CardSetAlpha_def opaque_card_def)
  have row: "scan_srcrow ?e sy = R' @ [R' ! (nat sw - 1), R' ! (nat sw - 1)]"
    using assms(6,7) by (simp only: scan_srcrow_def Let_def scale_env_sel unmirrored_def unfiltered_def
      interprow_def InterpolateRowNearest_def c R_def R'_def simp_thms if_True if_False)
  show "length (scan_srcrow ?e sy) = nat sw + 2" using lenR by (simp add: row)
  show "scan_srcrow ?e sy ! i = opaque_card src (card_at src (sx + min (int i) (sw - 1)) ?y)" if i: "i < nat sw + 2"
  proof (cases "i < nat sw")
    case True
    then have "min (int i) (sw - 1) = int i" by simp
    then show ?thesis using True R[OF True] lenR by (simp add: row nth_append)
  next
    case False
    then have "min (int i) (sw - 1) = int (nat sw - 1)" "(R' @ [R' ! (nat sw - 1), R' ! (nat sw - 1)]) ! i = R' ! (nat sw - 1)"
      using assms(3) i lenR by (auto simp: nth_append nth_Cons' min_def)
    then show ?thesis using R[of "nat sw - 1"] assms(3) by (simp only: row)
  qed
qed

lemma nearest_cols_nth: "i < w \<Longrightarrow> nearest_cols w src x dx ! i = src ! nat (fix_int (x + int i * dx))"
proof (induction w arbitrary: x i)
  case (Suc w)
  then show ?case by (cases i) (simp_all add: algebra_simps)
qed simp

lemma nearest_cols_length [simp]: "length (nearest_cols w src x dx) = w"
  by (induction w arbitrary: x) simp_all

lemma InterpolateColNearest_nth:
  assumes "\<And>i. i < w \<Longrightarrow> fix_int (x + int i * dx) < int (length src)" and "0 \<le> fix_int x"
  shows "length (InterpolateColNearest w src x dx) = w \<and>
    (\<forall>i<w. InterpolateColNearest w src x dx ! i = src ! nat (fix_int (x + int i * dx)))"
proof (cases "dx = 0x10000")
  case False
  then show ?thesis by (simp add: InterpolateColNearest_def nearest_cols_nth)
next
  case True
  have f: "fix_int (x + int i * dx) = fix_int x + int i" for i
    using fix_int_shift[of x "- int i"] True by simp
  have "nat (fix_int x) + i < length src" if "i < w" for i using assms(1)[OF that] assms(2) unfolding f by linarith
  then have "nat (fix_int x) + w \<le> length src \<or> w = 0"
    by (cases w) (auto simp: Suc_le_eq)
  then show ?thesis using True assms(2) by (auto simp: InterpolateColNearest_def f[unfolded True] nat_add_distrib)
qed

text \<open>A card as a scaled row stores it: converted if the width is the source's.\<close>

definition scale_px :: "pixel_fmt \<Rightarrow> bool \<Rightarrow> u32 \<Rightarrow> u32" where
  "scale_px f same c = (if same then px_wrap (pixelsize f) (store_px f c) else out_px f c)"

lemma scale_write_px:
  assumes "f \<noteq> UNKNOW" and "0 < sw" and "0 < dw" and "length srcrow = nat sw + 2" and "unfiltered mode"
    and "dx + nat dw \<le> px_width (pixelsize f) row" and "k < px_width (pixelsize f) row"
  shows "px_get (pixelsize f) (scale_write None mode f dx dw sw srcrow row) k =
    (if dx \<le> k \<and> k < dx + nat dw
     then scale_px f (dw = sw) (srcrow ! nat (fix_int (scale_off sw dw + int (k - dx) * scale_inc sw dw)))
     else px_get (pixelsize f) row k)"
proof (cases "dw = sw")
  case True
  have "fix_int (scale_off sw dw + n * scale_inc sw dw) = n" for n
    using True assms(3) by (simp add: scale_off_def scale_inc_def fix_int_def)
  moreover have "nat (int k - int dx) = k - dx" by linarith
  ultimately show ?thesis using True px_get_Store[OF assms(1), of dx "take (nat dw) srcrow" row k] assms
    by (auto simp: scale_write_def scale_px_def)
next
  case False
  define cols where "cols = InterpolateColNearest (nat dw) srcrow (scale_off sw dw) (scale_inc sw dw)"
  have pos: "fix_int (scale_off sw dw + int i * scale_inc sw dw) < int (length srcrow)" if "i < nat dw" for i
    using scale_column_within[OF assms(2,3), of "int i"] that assms(2,4) by (simp add: zless_nat_eq_int_zless)
  have "0 \<le> fix_int (scale_off sw dw)" using scale_column_within[OF assms(2,3), of 0] assms(3) by simp
  then have c: "length cols = nat dw \<and> (\<forall>i<nat dw. cols ! i =
      srcrow ! nat (fix_int (scale_off sw dw + int i * scale_inc sw dw)))"
    unfolding cols_def by (intro InterpolateColNearest_nth pos)
  have w: "scale_write None mode f dx dw sw srcrow row = write_result None f dx cols row"
    using False assms(5) by (simp add: scale_write_def write_result_def interpcol_def unfiltered_def cols_def)
  have n: "cols ! (k - dx) = srcrow ! nat (fix_int (scale_off sw dw + int (k - dx) * scale_inc sw dw))"
    if "dx \<le> k" "k < dx + nat dw"
  proof -
    have "k - dx < nat dw" using that by linarith
    then show ?thesis by (rule c[THEN conjunct2, rule_format])
  qed
  have len: "length cols = nat dw" using c by (rule conjunct1)
  have sp: "scale_px f (dw = sw) p = out_px f p" for p using False by (simp only: scale_px_def if_False)
  note px = write_result_px[OF assms(1), of dx cols row k, unfolded len, OF assms(6,7)]
  show ?thesis
  proof (cases "dx \<le> k \<and> k < dx + nat dw")
    case True
    then show ?thesis using px n unfolding w sp by metis
  next
    case False
    then show ?thesis using px unfolding w by (simp only: if_False)
  qed
qed

text \<open>
  C38. Scaling without a filter shows the source: if the widths and heights of both bitmaps joined
  bit by bit are below 0x7fff (\<open>Scale\<close> does nothing otherwise), the mode copies, mirrors nothing, asks
  for no filter and for no clipping, the colour is 0xffffffff (no tint) and the rectangles are
  not empty, inside their bitmaps and of different sizes, then every pixel of the destination
  rectangle comes from the source pixel at its position in 16-bit fixed point - half a pixel in
  from the edge on an axis that changes its size.  What is stored for that pixel is \<open>scale_px\<close> of its
  card: the card is its raw word in a source of 32 bits per pixel (with the alpha 255 for
  X8R8G8B8) and its A8R8G8B8 value in any other; a destination of 32 bits per pixel stores the card
  as it is when the widths differ, without a conversion to its order of channels, and in every
  other case the card is converted as an A8R8G8B8 value to the destination's format.  The column
  read is always in the source rectangle, the row in the source bitmap, and every other pixel stays.
\<close>

theorem scale_shows_source:
  assumes "canvas_ok dst" and "canvas_ok src" and "\<not> too_large dst src" and "\<not> (dw = sw \<and> dh = sh)"
    and "0 \<le> dx" and "dx + dw \<le> int (bm_w dst)" and "0 \<le> dy" and "dy + dh \<le> int (bm_h dst)" and "0 < dw" and "0 < dh"
    and "0 \<le> sx" and "sx + sw \<le> int (bm_w src)" and "0 \<le> sy" and "sy + sh \<le> int (bm_h src)" and "0 < sw" and "0 < sh"
    and "has_flag mode PIXEL_FLAG_NOCLIP" and "unmirrored mode" and "unfiltered mode"
    and "mode_draw (bm_fmt dst) mode = None" and "in_bitmap dst t s"
    and "u = sx + min (fix_int (scale_off sw dw + (t - dx) * scale_inc sw dw)) (sw - 1)"
    and "v = clamp_row (fix_int (sy * 65536 + scale_off sh dh + (s - dy) * scale_inc sh dh)) (int (bm_h src))"
  shows "(dx \<le> t \<and> t < dx + dw \<longrightarrow> sx \<le> u \<and> u < sx + sw) \<and> in_bitmap src sx v \<and>
    GetPixel (Scale mulf dst dx dy dw dh src m sx sy sw sh mode 0xffffffff) t s =
     (if dx \<le> t \<and> t < dx + dw \<and> dy \<le> s \<and> s < dy + dh
      then scale_px (bm_fmt dst) (dw = sw) (opaque_card src (card_at src u v)) else GetPixel dst t s)"
proof -
  have ts: "0 \<le> t" "t < int (bm_w dst)" "0 \<le> s" "s < int (bm_h dst)" using assms(21) by (simp_all add: in_bitmap_def)
  have h: "0 < bm_h src" using assms(13,14,16) by linarith
  have v: "in_bitmap src sx v"
    using clamp_row_range[of "int (bm_h src)"] h assms(11,12,15) by (simp add: in_bitmap_def assms(23))
  have u: "sx \<le> u \<and> u < sx + sw" if "dx \<le> t" "t < dx + dw"
    using scale_column_within[OF assms(15,9), of "t - dx"] that assms(15) by (auto simp: assms(22))
  have fmt: "bm_fmt dst \<noteq> UNKNOW" using assms(1) by (simp add: canvas_ok_def)
  define srow where "srow = (\<lambda>j. scan_srcrow (scale_env src sx sw mode 0xffffffff)
    (sy * 65536 + scale_off sh dh + int j * scale_inc sh dh))"
  define R where "R = (\<lambda>j. scale_write None mode (bm_fmt dst) (nat dx) dw sw (srow j))"
  have e: "Scale mulf dst dx dy dw dh src m sx sy sw sh mode 0xffffffff = each_row R dy (nat dh) dst"
    using assms(3-20) by (auto simp: Scale_def stretch_clip_def scale_scan_def Let_def unmirrored_def R_def srow_def)
  have "GetPixel (each_row R dy (nat dh) dst) t s =
      (if dy \<le> s \<and> s < dy + int (nat dh) then px_get (pixelsize (bm_fmt dst)) (R (nat (s - dy)) (Line dst s)) (nat t)
       else GetPixel dst t s)"
    by (rule GetPixel_each_row[OF assms(1,7) _ assms(21)]) (use assms(8,10) in simp)
  moreover have "px_get (pixelsize (bm_fmt dst)) (R (nat (s - dy)) (Line dst s)) (nat t) =
      (if dx \<le> t \<and> t < dx + dw
       then scale_px (bm_fmt dst) (dw = sw) (opaque_card src (card_at src u v)) else GetPixel dst t s)"
    if "dy \<le> s" "s < dy + dh"
  proof -
    have l: "length (srow j) = nat sw + 2" for j
      unfolding srow_def by (rule scan_srcrow_nearest(1)[OF assms(2,11,15,12) h assms(18,19)])
    have pw: "nat dx + nat dw \<le> px_width (pixelsize (bm_fmt dst)) (Line dst s)" "nat t < px_width (pixelsize (bm_fmt dst)) (Line dst s)"
      using px_width_line[OF assms(1) ts(3,4)] assms(5,6,9) ts by linarith+
    have n: "(nat dx \<le> nat t \<and> nat t < nat dx + nat dw) = (dx \<le> t \<and> t < dx + dw)" using assms(5,9) ts by linarith
    have k: "int (nat t - nat dx) = t - dx" if "dx \<le> t" using that assms(5) by simp
    have g: "px_get (pixelsize (bm_fmt dst)) (Line dst s) (nat t) = GetPixel dst t s" using assms(21) by (simp add: GetPixel_def)
    have r: "srow (nat (s - dy)) ! nat (fix_int (scale_off sw dw + (t - dx) * scale_inc sw dw)) =
        opaque_card src (card_at src u v)" if "dx \<le> t" "t < dx + dw"
    proof -
      define q where "q = fix_int (scale_off sw dw + (t - dx) * scale_inc sw dw)"
      have "0 \<le> q" "q + 1 < sw + 2"
        using scale_column_within[OF assms(15,9), of "t - dx"] that by (simp_all add: q_def)
      then have q: "nat q < nat sw + 2" "int (nat q) = q" by linarith+
      have s: "int (nat (s - dy)) = s - dy" using \<open>dy \<le> s\<close> by simp
      show ?thesis unfolding srow_def s assms(22,23) q_def[symmetric]
        using scan_srcrow_nearest(2)[OF assms(2,11,15,12) h assms(18,19) q(1)] by (simp only: q(2))
    qed
    show ?thesis unfolding R_def scale_write_px[OF fmt assms(15,9) l assms(19) pw] n g
      using k r by (simp only: cong: if_cong)
  qed
  ultimately show ?thesis using v u assms(10) by (auto simp: e)
qed

text \<open>Two pixels over five columns: 7, 7, 7, 9, 9.\<close>

theorem scale_shows_source_witness:
  "GetPixel (Scale (\<lambda>d n m. d * n div m) (ex_gray 5 [[1, 2, 3, 4, 5, 0, 0, 0]]) 0 0 5 1 (ex_gray 2 [[7, 9, 0, 0]]) 0 0 0 2 1
     (PIXEL_FLAG_SRCCOPY OR PIXEL_FLAG_NOCLIP) 0xffffffff) 3 0 = 9"
proof -
  let ?m = "\<lambda>d n m :: int. d * n div m" and ?d = "ex_gray 5 [[1, 2, 3, 4, 5, 0, 0, 0]]" and ?s = "ex_gray 2 [[7, 9, 0, 0]]"
    and ?f = "PIXEL_FLAG_SRCCOPY OR PIXEL_FLAG_NOCLIP"
  have ok: "canvas_ok ?d" "canvas_ok ?s" "in_bitmap ?d 3 0" "has_flag ?f PIXEL_FLAG_NOCLIP" "unmirrored ?f" "unfiltered ?f"
    by code_simp+
  have l: "\<not> too_large ?d ?s" "mode_draw (bm_fmt ?d) ?f = None" by code_simp+
  have wh: "int (bm_w ?d) = 5" "int (bm_h ?d) = 1" "int (bm_w ?s) = 2" "int (bm_h ?s) = 1" by (simp_all add: ex_gray_def)
  have e: "fix_int (scale_off 2 5 + (3 - 0) * scale_inc 2 5) = 1" "clamp_row (fix_int (0 * 65536 + scale_off 1 1 + (0 - 0) * scale_inc 1 1)) 1 = 0"
    by (simp_all add: scale_off_def scale_inc_def fix_int_def clamp_row_def)
  have c: "scale_px (bm_fmt ?d) (5 = (2 :: int)) (opaque_card ?s (card_at ?s 1 0)) = 9" by code_simp
  show ?thesis
    using scale_shows_source[of ?d ?s 5 2 1 1 0 0 0 0 ?f 3 0 1 0 ?m 0, OF ok(1,2) l(1)] ok(3-6) l(2) wh e c by simp
qed

section \<open>Where the averaging filter departs from the others\<close>

text \<open>A source of fewer than 32 bits is converted from its corner on, whatever rectangle was asked for.\<close>

lemma average_ignores_corner:
  "fmt_bpp (bm_fmt src) \<noteq> 32 \<Longrightarrow>
    ResampleAvg junk dst dx dy dw dh src m sx sy sw sh = ResampleAvg junk dst dx dy dw dh src m 0 0 sw sh"
  by (simp add: ResampleAvg_def Let_def)

section \<open>The bilinear sampler\<close>

text \<open>
  \<open>_pixel_biline_interp\<close>, two channels at a time in one word, and \<open>SampleBilinear\<close> at a position
  \<open>fx\<close>, \<open>fy\<close> that is already in fixed point: the \<open>float\<close>s of its caller times 0x10000.
\<close>

definition biline_sum :: "u32 \<Rightarrow> u32 \<Rightarrow> u32 \<Rightarrow> u32 \<Rightarrow> u32 \<Rightarrow> u32 \<Rightarrow> u32 \<Rightarrow> u32" where
  "biline_sum m lt rt lb rb distx disty =
     (let distxy = distx * disty; distxiy = push_bit 8 distx - distxy; distixy = push_bit 8 disty - distxy;
          distixiy = 256 * 256 - push_bit 8 disty - push_bit 8 distx + distxy
      in (lt AND m) * distixiy + (rt AND m) * distxiy + (lb AND m) * distixy + (rb AND m) * distxy)"

definition biline_interp :: "u32 \<Rightarrow> u32 \<Rightarrow> u32 \<Rightarrow> u32 \<Rightarrow> u32 \<Rightarrow> u32 \<Rightarrow> u32" where
  "biline_interp lt rt lb rb distx disty =
     (let r = biline_sum 0xff lt rt lb rb distx disty OR (biline_sum 0xff00 lt rt lb rb distx disty AND 0xff000000);
          lt = drop_bit 16 lt; rt = drop_bit 16 rt; lb = drop_bit 16 lb; rb = drop_bit 16 rb;
          r = drop_bit 16 r
      in r OR (biline_sum 0xff lt rt lb rb distx disty AND 0x00ff0000) OR
           (biline_sum 0xff00 lt rt lb rb distx disty AND 0xff000000))"

definition SampleBilinear :: "bitmap \<Rightarrow> int \<Rightarrow> int \<Rightarrow> bool \<Rightarrow> u32" where
  "SampleBilinear b fx fy repeat =
     (let x1 = fix_int fx; y1 = fix_int fy; x2 = x1 + 1; y2 = y1 + 1;
          dx = word_of_nat (fix_frac fx); dy = word_of_nat (fix_frac fy);
          w = int (bm_w b); h = int (bm_h b);
          edge = (\<lambda>p n. let p = (if p < 0 then 0 else p) in if p \<ge> n then n - 1 else p) in
      if repeat \<and> (w \<le> 0 \<or> h \<le> 0) then 0
      else
        let (x1, y1, x2, y2) = (if repeat then (edge x1 w, edge y1 h, edge x2 w, edge y2 h) else (x1, y1, x2, y2))
        in biline_interp (GetColor b x1 y1) (GetColor b x2 y1) (GetColor b x1 y2) (GetColor b x2 y2) dx dy)"

text \<open>The four weights add up to one, so that equal corners give their colour anywhere between them.\<close>

lemma biline_sum_same: "biline_sum m p p p p dx dy = push_bit 16 (p AND m)"
proof -
  have "biline_sum m p p p p dx dy = (p AND m) * 65536"
    by (simp add: biline_sum_def Let_def push_bit_eq_mult algebra_simps)
  then show ?thesis by (simp add: push_bit_eq_mult)
qed

lemma biline_masks:
  "(0xff :: u32) = mask 8" "(0xff00 :: u32) = push_bit 8 (mask 8)" "(0xff0000 :: u32) = push_bit 16 (mask 8)"
  "(0xff000000 :: u32) = push_bit 24 (mask 8)"
  by (simp_all add: mask_eq_exp_minus_1)

lemma biline_mask_bits:
  assumes "n < 32"
  shows "bit (0xff :: u32) n \<longleftrightarrow> n < 8" and "bit (0xff00 :: u32) n \<longleftrightarrow> 8 \<le> n \<and> n < 16"
    and "bit (0xff0000 :: u32) n \<longleftrightarrow> 16 \<le> n \<and> n < 24" and "bit (0xff000000 :: u32) n \<longleftrightarrow> 24 \<le> n"
  unfolding biline_masks using assms by (auto simp only: bit_mask_iff bit_push_bit_iff possible_bit_word) auto

lemma biline_halves:
  "drop_bit 16 (push_bit 16 (p AND 0xff)) = (p AND 0xff :: u32)"
  "drop_bit 16 (push_bit 16 (p AND 0xff00) AND 0xff000000) = (p AND 0xff00 :: u32)"
  "push_bit 16 (drop_bit 16 p AND 0xff) AND 0xff0000 = (p AND 0xff0000 :: u32)"
  "push_bit 16 (drop_bit 16 p AND 0xff00) AND 0xff000000 = (p AND 0xff000000 :: u32)"
  by (rule bit_word_eqI, case_tac "16 + n < 32", simp_all only: bit_drop_bit_eq bit_push_bit_iff bit_and_iff
      biline_mask_bits comp_def possible_bit_word len_of_numeral_defs, auto)+

lemma biline_same: "biline_interp p p p p dx dy = p"
proof -
  have "biline_interp p p p p dx dy = (p AND 0xff) OR (p AND 0xff00) OR (p AND 0xff0000) OR (p AND 0xff000000)"
    by (simp only: biline_interp_def Let_def biline_sum_same drop_bit_or biline_halves or.assoc)
  also have "\<dots> = p"
  proof (rule bit_word_eqI)
    fix n assume "n < LENGTH(32)"
    then have "n < 32" by simp
    then show "bit ((p AND 0xff) OR (p AND 0xff00) OR (p AND 0xff0000) OR (p AND 0xff000000)) n = bit p n"
      by (simp only: bit_or_iff bit_and_iff biline_mask_bits) linarith
  qed
  finally show ?thesis .
qed

text \<open>Inside a uniform picture, and with repeated edges outside of it, too, the sampler gives its colour.\<close>

lemma sample_uniform:
  assumes "0 < bm_w b" and "0 < bm_h b" and "\<And>x y. in_bitmap b x y \<Longrightarrow> GetColor b x y = p"
  shows "SampleBilinear b fx fy True = p"
  using assms by (simp add: SampleBilinear_def Let_def in_bitmap_def biline_same)

end
