(* ===== verification/Bmp_File.thy ===== *)
theory Bmp_File
  imports Blit
begin

text \<open>
  The image files obZrv/BasicBitmap reads and writes itself: \<open>SaveBmp\<close> and \<open>LoadBmpFromMemory\<close>,
  \<open>SavePPM\<close>, \<open>LoadTgaFromMemory\<close> with its run-length decoder, and \<open>LoadFile\<close>, which chooses among them.  A buffer is its bytes; the
  readers do not know its length, so a read or write outside of what was allocated is the result
  \<open>Fault\<close> of the model, as is a size the allocation cannot have.
\<close>

unbundle bit_operations_syntax

section \<open>Reading a buffer\<close>

datatype 'a load = Fault | Null | Loaded 'a

text \<open>
  \<open>basic_decode_8u\<close>, \<open>_16u\<close> and \<open>_32u\<close> at a position, and the bytes from there on; \<open>None\<close> when
  they lie outside.
\<close>

definition slice :: "bytes \<Rightarrow> nat \<Rightarrow> nat \<Rightarrow> bytes option" where
  "slice buf p n = (if p + n \<le> length buf then Some (take n (drop p buf)) else None)"

definition rd8 :: "bytes \<Rightarrow> nat \<Rightarrow> u8 option" where
  "rd8 buf p = map_option le_word (slice buf p 1)"

definition rd16 :: "bytes \<Rightarrow> nat \<Rightarrow> u16 option" where
  "rd16 buf p = map_option le_word (slice buf p 2)"

definition rd32 :: "bytes \<Rightarrow> nat \<Rightarrow> u32 option" where
  "rd32 buf p = map_option le_word (slice buf p 4)"

text \<open>\<open>LoadContent\<close>: what each \<open>fread\<close> gives and whether the end was met; \<open>None\<close>: it goes on.\<close>

fun load_loop :: "nat \<Rightarrow> bool \<Rightarrow> (nat \<times> bool) list \<Rightarrow> nat option" where
  "load_loop remain eof [] = (if eof \<or> remain = 0 then Some remain else None)"
| "load_loop remain eof ((n, e) # rs) =
     (if eof \<or> remain = 0 then Some remain else load_loop (remain - n) e rs)"

section \<open>BMP files\<close>

definition Bpp2Fmt :: "nat \<Rightarrow> pixel_fmt" where
  "Bpp2Fmt bpp = (if bpp = 8 then G8 else if bpp = 15 then A1R5G5B5 else if bpp = 16 then R5G6B5
     else if bpp = 24 then R8G8B8 else A8R8G8B8)"

record color =
  c_b :: u8
  c_g :: u8
  c_r :: u8
  c_a :: u8

text \<open>
  The size of a bitmap that can be allocated: both sides fit in an \<open>int\<close> that is not negative,
  and so do the length of a row and of all rows.
\<close>

definition size_ok :: "nat \<Rightarrow> nat \<Rightarrow> pixel_fmt \<Rightarrow> bool" where
  "size_ok w h f \<longleftrightarrow> w < 2 ^ 31 \<and> h < 2 ^ 31 \<and> w * pixelsize f + 3 < 2 ^ 31 \<and> pitch_of w f * h < 2 ^ 31"

fun read_palette :: "nat \<Rightarrow> bytes \<Rightarrow> nat \<Rightarrow> nat \<Rightarrow> color list option" where
  "read_palette 0 buf p offset = Some []"
| "read_palette (Suc i) buf p offset =
     (if p \<ge> offset then Some []
      else case (rd8 buf p, rd8 buf (p + 1), rd8 buf (p + 2)) of
        (Some b, Some g, Some r) \<Rightarrow>
          map_option (Cons \<lparr>c_b = b, c_g = g, c_r = r, c_a = 255\<rparr>) (read_palette i buf (p + 4) offset)
      | _ \<Rightarrow> None)"

record bmp_header =
  h_offset :: u32
  h_width :: u32
  h_height :: u32
  h_bits :: u16

text \<open>Both headers; the fields that are read but not used are only required to be there.\<close>

definition bmp_header_at :: "bytes \<Rightarrow> bmp_header load" where
  "bmp_header_at buf =
     (case (slice buf 0 14, rd8 buf 0, rd8 buf 1) of
        (Some fh, Some b0, Some b1) \<Rightarrow>
          if b0 \<noteq> 0x42 \<or> b1 \<noteq> 0x4d then Null
          else (case (slice buf 14 40, rd32 buf 10, rd32 buf 18, rd32 buf 22, rd16 buf 28) of
              (Some ih, Some off, Some w, Some h, Some bits) \<Rightarrow>
                Loaded \<lparr>h_offset = off, h_width = w, h_height = h, h_bits = bits\<rparr>
            | _ \<Rightarrow> Fault)
      | _ \<Rightarrow> Fault)"

text \<open>The rows in file order, the lowest first; each is copied with its padding.\<close>

definition bmp_rows :: "bytes \<Rightarrow> nat \<Rightarrow> nat \<Rightarrow> nat \<Rightarrow> bytes list option" where
  "bmp_rows buf offset pitch h = those (map (\<lambda>y. slice buf (offset + pitch * y) pitch) [0..<h])"

definition LoadBmpFromMemory :: "bytes \<Rightarrow> bool \<Rightarrow> (bitmap \<times> color list) load" where
  "LoadBmpFromMemory buf want_pal =
     (case bmp_header_at buf of Fault \<Rightarrow> Fault | Null \<Rightarrow> Null
      | Loaded hdr \<Rightarrow>
          let w = unat (h_width hdr); h = unat (h_height hdr); depth = unat (h_bits hdr);
              offset = unat (h_offset hdr); fmt = Bpp2Fmt depth;
              pitch = ((depth + 7) div 8 * w + 3) div 4 * 4 in
          (case (if want_pal \<and> depth = 8 then read_palette 256 buf 54 offset else Some []) of
             None \<Rightarrow> Fault
           | Some pal \<Rightarrow>
               if \<not> size_ok w h fmt then Fault
               else (case new_bitmap w h fmt of None \<Rightarrow> Fault
               | Some bmp \<Rightarrow>
                   if depth \<in> {8, 15, 16, 24, 32}
                   then (case bmp_rows buf offset pitch h of None \<Rightarrow> Fault
                         | Some rows \<Rightarrow> Loaded (bmp\<lparr>bm_lines := rev rows\<rparr>, pal))
                   else Loaded (bmp, pal))))"

text \<open>\<open>Pixel_FilePutWord\<close> and \<open>Pixel_FilePutLong\<close>.\<close>

definition put_word :: "nat \<Rightarrow> bytes" where "put_word w = le_bytes 2 (word_of_nat w :: u16)"
definition put_long :: "nat \<Rightarrow> bytes" where "put_long x = le_bytes 4 (word_of_nat x :: u32)"

definition save_bpp :: "nat \<Rightarrow> nat" where
  "save_bpp depth = (if depth = 15 \<or> depth = 16 then 24 else depth)"

definition bmp_filler :: "nat \<Rightarrow> nat \<Rightarrow> nat" where
  "bmp_filler w bpp = nat (3 - ((int w * int (bpp div 8) - 1) AND 3))"

text \<open>What is written of one pixel: \<open>c\<close> as it is fetched at \<open>_bpp\<close> bits.\<close>

definition saved_value :: "nat \<Rightarrow> u32 \<Rightarrow> u32" where
  "saved_value bpp c =
     (if bpp = 15 then (case pixel_disasm_1555 c of (a, r, g, b) \<Rightarrow> pixel_asm_8888 a r g b)
      else if bpp = 16 then (case pixel_disasm_565 c of (r, g, b) \<Rightarrow> pixel_asm_8888 255 r g b)
      else c)"

definition saved_row :: "bitmap \<Rightarrow> nat \<Rightarrow> bytes" where
  "saved_row b j =
     (let bpp = fmt_bpp (bm_fmt b); n = save_bpp bpp div 8 in
      concat (map (\<lambda>i. le_bytes n (saved_value bpp (px_get (pixelsize (bm_fmt b)) (bm_lines b ! j) i))) [0..<bm_w b]) @
      replicate (bmp_filler (bm_w b) (save_bpp bpp)) 0)"

definition gray_palette :: "color list" where
  "gray_palette = map (\<lambda>i. \<lparr>c_b = word_of_nat i, c_g = word_of_nat i, c_r = word_of_nat i, c_a = 255\<rparr>) [0..<256]"

definition palette_bytes :: "color list \<Rightarrow> bytes" where
  "palette_bytes pal = concat (map (\<lambda>i. [c_b (pal ! i), c_g (pal ! i), c_r (pal ! i), 0]) [0..<256])"

definition bmp_headers :: "bitmap \<Rightarrow> nat \<Rightarrow> bytes" where
  "bmp_headers b bpp =
     (let w = bm_w b; h = bm_h b;
          start = (if bpp = 8 then 54 + 256 * 4 else 54);
          biSizeImage = (if bpp = 8 then (w + bmp_filler w 8) * h else (w * (bpp div 8) + 3) div 4 * 4 * h)
      in put_word 0x4D42 @ put_long (start + biSizeImage) @ put_word 0 @ put_word 0 @ put_long start @
         put_long 40 @ put_long w @ put_long h @ put_word 1 @ put_word bpp @ put_long 0 @
         put_long biSizeImage @ put_long 0xB12 @ put_long 0xB12 @
         (if bpp = 8 then put_long 256 @ put_long 256 else put_long 0 @ put_long 0))"

text \<open>The result and the file; \<open>None\<close> when it could not be opened.\<close>

definition SaveBmp :: "bool \<Rightarrow> bitmap \<Rightarrow> color list option \<Rightarrow> int \<times> bytes option" where
  "SaveBmp can_open b pal =
     (if \<not> can_open then (-1, None)
      else
        let bpp = save_bpp (fmt_bpp (bm_fmt b)); p = (case pal of None \<Rightarrow> gray_palette | Some p \<Rightarrow> p) in
        if bpp \<notin> {8, 24, 32} then (-2, Some [])
        else (0, Some (bmp_headers b bpp @ (if bpp = 8 then palette_bytes p else []) @
                       concat (map (saved_row b) (rev [0..<bm_h b])))))"

text \<open>\<open>LoadBmp\<close> and \<open>LoadTga\<close> after loading: the conversion to the wanted format.\<close>

definition to_format :: "pixel_fmt \<Rightarrow> bitmap \<Rightarrow> bitmap option" where
  "to_format fmt bmp =
     (if fmt = UNKNOW \<or> fmt = bm_fmt bmp then Some bmp
      else map_option (\<lambda>cvt. snd (Convert cvt 0 0 bmp 0 0 0 (int (bm_w bmp)) (int (bm_h bmp)) 0))
             (new_bitmap (bm_w bmp) (bm_h bmp) fmt))"

definition LoadBmp :: "bytes option \<Rightarrow> pixel_fmt \<Rightarrow> bool \<Rightarrow> (bitmap \<times> color list) load" where
  "LoadBmp content fmt want_pal =
     (case content of None \<Rightarrow> Null
      | Some buf \<Rightarrow>
          (case LoadBmpFromMemory buf want_pal of Fault \<Rightarrow> Fault | Null \<Rightarrow> Null
           | Loaded (bmp, pal) \<Rightarrow> (case to_format fmt bmp of None \<Rightarrow> Fault | Some b \<Rightarrow> Loaded (b, pal))))"

text \<open>\<open>SavePPM\<close>: its test of the format always holds, so the bitmap is always converted.\<close>

definition ppm_pixel :: "u32 \<Rightarrow> bytes" where
  "ppm_pixel c = [ucast (drop_bit 16 c), ucast (drop_bit 8 c), ucast c]"

definition SavePPM :: "bool \<Rightarrow> (nat \<Rightarrow> bytes) \<Rightarrow> bitmap \<Rightarrow> int \<times> bytes option" where
  "SavePPM can_open decimal b =
     (if \<not> can_open then (-1, None)
      else
        let dst = (if bm_fmt b \<noteq> A8R8G8B8 \<or> bm_fmt b \<noteq> X8R8G8B8
          then (case new_bitmap (bm_w b) (bm_h b) A8R8G8B8 of None \<Rightarrow> None
                | Some tmp \<Rightarrow> Some (snd (Convert tmp 0 0 b 0 0 0 (int (bm_w b)) (int (bm_h b)) 0)))
          else Some b) in
        case dst of None \<Rightarrow> (-1, Some [])
        | Some d \<Rightarrow> (0, Some (lit ''P6'' @ [0x0A] @ decimal (bm_w b) @ [0x20] @ decimal (bm_h b) @ [0x0A] @
              lit ''255'' @ [0x0A] @
              concat (map (\<lambda>j. concat (map (\<lambda>i. ppm_pixel (px_get 4 (bm_lines d ! j) i)) [0..<bm_w b])) [0..<bm_h b]))))"

section \<open>A saved BMP file loads again\<close>

lemma concat_chunk:
  "(\<And>x. x \<in> set xs \<Longrightarrow> length x = n) \<Longrightarrow> i < length xs \<Longrightarrow> take n (drop (n * i) (concat xs @ r)) = xs ! i"
proof (induction xs arbitrary: i)
  case (Cons x xs)
  have l: "length x = n" using Cons.prems(1) by simp
  show ?case
  proof (cases i)
    case (Suc k)
    then show ?thesis using Cons l by simp
  qed (simp add: l)
qed simp

lemma length_concat_chunks: "(\<And>x. x \<in> set xs \<Longrightarrow> length x = n) \<Longrightarrow> length (concat xs) = n * length xs"
  by (induction xs) auto

lemma slice_chunk:
  assumes "\<And>x. x \<in> set xs \<Longrightarrow> length x = n" and "i < length xs" and "length a = p"
  shows "slice (a @ concat xs @ r) (p + n * i) n = Some (xs ! i)"
proof -
  have "n * Suc i \<le> n * length xs" using assms(2) by (intro mult_le_mono2) simp
  then show ?thesis
    using concat_chunk[OF assms(1,2)] length_concat_chunks[OF assms(1)] assms(3) by (simp add: slice_def)
qed

lemma those_Some: "those (map (\<lambda>x. Some (f x)) xs) = Some (map f xs)"
  by (induction xs) simp_all

lemma bmp_rows_chunks:
  assumes "\<And>x. x \<in> set xs \<Longrightarrow> length x = n" and "length xs = h" and "length a = p"
  shows "bmp_rows (a @ concat xs) p n h = Some xs"
proof -
  have "map (\<lambda>y. slice (a @ concat xs) (p + n * y) n) [0..<h] = map (\<lambda>y. Some (xs ! y)) [0..<h]"
    using slice_chunk[OF assms(1) _ assms(3), where r = "[]"] assms(2) by simp
  then show ?thesis using map_nth[of xs] assms(2) unfolding bmp_rows_def by (simp only: those_Some)
qed

definition saved_fmt :: "bitmap \<Rightarrow> pixel_fmt" where
  "saved_fmt b = Bpp2Fmt (save_bpp (fmt_bpp (bm_fmt b)))"

lemma saved_fmt_cases:
  assumes "canvas_ok b"
  shows "save_bpp (fmt_bpp (bm_fmt b)) \<in> {8, 24, 32}"
    and "pixelsize (saved_fmt b) = save_bpp (fmt_bpp (bm_fmt b)) div 8" and "saved_fmt b \<noteq> UNKNOW"
  using assms by (cases "bm_fmt b"; simp add: canvas_ok_def saved_fmt_def save_bpp_def Bpp2Fmt_def pixelsize_def)+

lemma filler_nat: "bmp_filler w (8 * n) = (3 - (w * n + 3) mod 4)"
proof -
  have "(int w * int n - 1) AND 3 = (int w * int n - 1) mod 4"
    using take_bit_eq_mask[of 2 "int w * int n - 1"] by (simp add: take_bit_eq_mod mask_eq_exp_minus_1)
  also have "\<dots> = (int (w * n) + 3) mod 4"
    using mod_add_self2[of "int w * int n - 1" 4] by (simp add: algebra_simps)
  also have "\<dots> = int ((w * n + 3) mod 4)" by (simp add: zmod_int)
  finally have e: "(int w * int n - 1) AND 3 = int ((w * n + 3) mod 4)" .
  have "nat (3 - int ((w * n + 3) mod 4)) = 3 - (w * n + 3) mod 4" by (simp add: nat_diff_distrib)
  then show ?thesis by (simp add: bmp_filler_def e)
qed

lemma round_filler: "w * n + (3 - (w * n + 3) mod 4) = pixel_round (w * n) 4" for w n :: nat
  unfolding pixel_round_def by presburger

lemma length_saved_row:
  assumes "canvas_ok b"
  shows "length (saved_row b j) = pitch_of (bm_w b) (saved_fmt b)"
proof -
  define n where "n = save_bpp (fmt_bpp (bm_fmt b)) div 8"
  have s: "save_bpp (fmt_bpp (bm_fmt b)) = 8 * n" using saved_fmt_cases(1)[OF assms] by (auto simp: n_def)
  show ?thesis
    using length_concat_chunks[of "map f [0..<bm_w b]" n for f]
    by (simp add: saved_row_def Let_def s filler_nat pitch_of_def saved_fmt_cases(2)[OF assms] sum_list_triv o_def
        length_concat flip: round_filler)
qed

lemma saved_row_pixel:
  assumes "canvas_ok b" and "i < bm_w b"
  shows "px_get (pixelsize (saved_fmt b)) (saved_row b j) i =
    px_wrap (pixelsize (saved_fmt b))
      (saved_value (fmt_bpp (bm_fmt b)) (px_get (pixelsize (bm_fmt b)) (bm_lines b ! j) i))"
proof -
  define n where "n = pixelsize (saved_fmt b)"
  let ?f = "\<lambda>i. le_bytes n (saved_value (fmt_bpp (bm_fmt b)) (px_get (pixelsize (bm_fmt b)) (bm_lines b ! j) i))"
  have "take n (drop (n * i) (saved_row b j)) = map ?f [0..<bm_w b] ! i"
    unfolding saved_row_def Let_def saved_fmt_cases(2)[OF assms(1), symmetric] n_def[symmetric]
    by (rule concat_chunk) (use assms(2) in auto)
  then show ?thesis using assms(2) by (simp add: px_get_def n_def[symmetric] px_wrap_def le_word_le_bytes)
qed

lemma Bpp2Fmt_ps: "d \<in> {8, 24, 32} \<Longrightarrow> pixelsize (Bpp2Fmt d) = d div 8"
  by (auto simp: Bpp2Fmt_def pixelsize_def)

lemma length_headers: "length (bmp_headers b bpp) = 54"
  by (simp add: bmp_headers_def Let_def put_word_def put_long_def)

lemma put_magic: "put_word 0x4D42 = [0x42, 0x4d]"
proof -
  have "le_bytes 2 (0x4D42 :: u16) = [0x42, 0x4d]" by code_simp
  then show ?thesis by (simp add: put_word_def)
qed

lemma headers_read:
  "bmp_header_at (bmp_headers b bpp @ r) =
     Loaded \<lparr>h_offset = (if bpp = 8 then 1078 else 54), h_width = word_of_nat (bm_w b),
             h_height = word_of_nat (bm_h b), h_bits = word_of_nat bpp\<rparr>"
  unfolding bmp_headers_def put_magic
  by (simp add: bmp_header_at_def Let_def put_word_def put_long_def rd8_def rd16_def rd32_def
      slice_def le_word_le_bytes take_bit_word_eq_self)

definition pal_entry :: "color \<Rightarrow> bytes" where
  "pal_entry c = [c_b c, c_g c, c_r c, 0]"

lemma rd8_at: "length a = p \<Longrightarrow> rd8 (a @ x # r) p = Some x"
  by (simp add: rd8_def slice_def)

lemma read_palette_entries:
  "length a = p \<Longrightarrow> read_palette (length ps) (a @ concat (map pal_entry ps) @ r) p (p + 4 * length ps) =
     Some (map (\<lambda>c. c\<lparr>c_a := 255\<rparr>) ps)"
proof (induction ps arbitrary: a p)
  case (Cons c ps)
  let ?r = "concat (map pal_entry ps) @ r" and ?buf = "a @ concat (map pal_entry (c # ps)) @ r"
  have "rd8 ?buf p = Some (c_b c)" "rd8 ?buf (p + 1) = Some (c_g c)" "rd8 ?buf (p + 2) = Some (c_r c)"
    using rd8_at[of a p "c_b c"] rd8_at[of "a @ [c_b c]" "p + 1" "c_g c"]
      rd8_at[of "a @ [c_b c, c_g c]" "p + 2" "c_r c"] Cons.prems by (simp_all add: pal_entry_def)
  moreover have "read_palette (length ps) ?buf (p + 4) (p + 4 * length (c # ps)) =
      Some (map (\<lambda>c. c\<lparr>c_a := 255\<rparr>) ps)"
    using Cons.IH[of "a @ pal_entry c" "p + 4"] Cons.prems by (simp add: pal_entry_def[of c] algebra_simps)
  ultimately show ?case by (simp del: map_eq_Cons_conv)
qed simp

lemma palette_bytes_entries: "256 \<le> length pal \<Longrightarrow> palette_bytes pal = concat (map pal_entry (take 256 pal))"
proof -
  assume l: "256 \<le> length pal"
  have "map (\<lambda>i. pal_entry (pal ! i)) [0..<256] = map pal_entry (take 256 pal)"
    by (rule nth_equalityI) (use l in \<open>auto simp: nth_append\<close>)
  then show ?thesis by (simp add: palette_bytes_def pal_entry_def)
qed

lemma length_palette_bytes: "256 \<le> length pal \<Longrightarrow> length (palette_bytes pal) = 1024"
  using length_concat_chunks[of "map pal_entry (take 256 pal)" 4]
  by (force simp: palette_bytes_entries pal_entry_def[abs_def])

definition file_palette :: "bitmap \<Rightarrow> color list option \<Rightarrow> bytes" where
  "file_palette b pal = (if save_bpp (fmt_bpp (bm_fmt b)) = 8
     then palette_bytes (case pal of None \<Rightarrow> gray_palette | Some p \<Rightarrow> p) else [])"

lemma SaveBmp_file:
  "canvas_ok b \<Longrightarrow> SaveBmp True b pal =
     (0, Some ((bmp_headers b (save_bpp (fmt_bpp (bm_fmt b))) @ file_palette b pal) @
               concat (map (saved_row b) (rev [0..<bm_h b]))))"
  using saved_fmt_cases(1)[of b] by (auto simp: SaveBmp_def Let_def file_palette_def)

lemma word_of_nat_31: "n < 2 ^ 31 \<Longrightarrow> unat (word_of_nat n :: u32) = n"
  by (simp add: unat_of_nat take_bit_nat_eq_self)

lemma pitch_eq: "bpp \<in> {8, 24, 32} \<Longrightarrow> ((bpp + 7) div 8 * w + 3) div 4 * 4 = pitch_of w (Bpp2Fmt bpp)"
  by (auto simp: pitch_of_def pixel_round_def Bpp2Fmt_def pixelsize_def algebra_simps)

lemma load_saved:
  assumes b: "canvas_ok b" and s: "size_ok (bm_w b) (bm_h b) (saved_fmt b)"
    and p: "\<And>ps. pal = Some ps \<Longrightarrow> length ps = 256"
  shows "LoadBmpFromMemory (the (snd (SaveBmp True b pal))) want =
    Loaded (\<lparr>bm_w = bm_w b, bm_h = bm_h b, bm_fmt = saved_fmt b, bm_lines = map (saved_row b) [0..<bm_h b]\<rparr>,
      if want \<and> bm_fmt b = G8
      then map (\<lambda>c. c\<lparr>c_a := 255\<rparr>) (case pal of None \<Rightarrow> gray_palette | Some ps \<Rightarrow> ps) else [])"
proof -
  define bpp where "bpp = save_bpp (fmt_bpp (bm_fmt b))"
  define P where "P = (case pal of None \<Rightarrow> gray_palette | Some ps \<Rightarrow> ps)"
  define a where "a = bmp_headers b bpp @ file_palette b pal"
  define rows where "rows = map (saved_row b) (rev [0..<bm_h b])"
  have P: "length P = 256" using p by (auto simp: P_def gray_palette_def split: option.split)
  have bpp: "bpp \<in> {8, 24, 32}" using saved_fmt_cases(1)[OF b] by (simp add: bpp_def)
  have g: "bpp = 8 \<longleftrightarrow> bm_fmt b = G8"
    using b by (cases "bm_fmt b") (simp_all add: bpp_def save_bpp_def canvas_ok_def)
  have f: "Bpp2Fmt bpp = saved_fmt b" by (simp add: saved_fmt_def bpp_def)
  have fp: "file_palette b pal = (if bpp = 8 then palette_bytes P else [])"
    by (simp add: file_palette_def bpp_def P_def)
  have la: "length a = (if bpp = 8 then 1078 else 54)"
    using length_palette_bytes[of P] P by (simp add: a_def length_headers fp)
  have rows: "bmp_rows (a @ concat rows) (if bpp = 8 then 1078 else 54) (pitch_of (bm_w b) (saved_fmt b)) (bm_h b) = Some rows"
    by (rule bmp_rows_chunks) (auto simp: rows_def length_saved_row[OF b] la)
  have pl: "read_palette 256 (a @ concat rows) 54 1078 = Some (map (\<lambda>c. c\<lparr>c_a := 255\<rparr>) P)" if "bpp = 8"
    using read_palette_entries[of "bmp_headers b bpp" 54 P "concat rows"] that P
    by (simp add: a_def fp length_headers palette_bytes_entries)
  have u: "unat (word_of_nat bpp :: u16) = bpp" "unat (word_of_nat (bm_w b) :: u32) = bm_w b"
    "unat (word_of_nat (bm_h b) :: u32) = bm_h b"
    using bpp s word_of_nat_31 by (auto simp: size_ok_def)
  have h: "bmp_header_at (a @ concat rows) =
     Loaded \<lparr>h_offset = (if bpp = 8 then 1078 else 54), h_width = word_of_nat (bm_w b),
             h_height = word_of_nat (bm_h b), h_bits = word_of_nat bpp\<rparr>"
    using headers_read[of b bpp "file_palette b pal @ concat rows"] by (simp add: a_def)
  have e: "the (snd (SaveBmp True b pal)) = a @ concat rows"
    using SaveBmp_file[OF b, of pal] by (simp add: a_def rows_def bpp_def)
  have o: "unat (if bpp = 8 then 1078 else 54 :: u32) = (if bpp = 8 then 1078 else 54)" by simp
  have d: "bpp \<in> {8, 15, 16, 24, 32}" using bpp by auto
  have r: "rev rows = map (saved_row b) [0..<bm_h b]" by (simp add: rows_def rev_map)
  show ?thesis
    unfolding e LoadBmpFromMemory_def h load.case bmp_header.simps Let_def u o pitch_eq[OF bpp] f
    using s saved_fmt_cases(3)[OF b] rows d
    by (cases "bpp = 8") (simp_all add: g pl[unfolded g] r new_bitmap_def P_def[symmetric])
qed

text \<open>
  C35. A bitmap saved as a BMP file loads again with its size: the file read back with
  \<open>LoadBmpFromMemory\<close> is a well-formed bitmap of the same width and height, in the format of the
  depth it was saved at, and every pixel is the one that was written - unchanged at 8, 24 and 32
  bits, and for all 16-bit formats its expansion through 5-6-5 bits - although rows are stored
  from the lowest up, padded to four bytes.
\<close>

theorem bmp_roundtrip:
  assumes "canvas_ok b" and "size_ok (bm_w b) (bm_h b) (saved_fmt b)"
    and "\<And>ps. pal = Some ps \<Longrightarrow> length ps = 256"
  shows "\<exists>file d p. SaveBmp True b pal = (0, Some file) \<and> LoadBmpFromMemory file want = Loaded (d, p) \<and>
    canvas_ok d \<and> bm_w d = bm_w b \<and> bm_h d = bm_h b \<and> bm_fmt d = saved_fmt b \<and>
    (\<forall>x y. GetPixel d x y = (if in_bitmap b x y
       then bm_wrap d (saved_value (fmt_bpp (bm_fmt b)) (GetPixel b x y)) else 0))"
proof -
  define d where "d = \<lparr>bm_w = bm_w b, bm_h = bm_h b, bm_fmt = saved_fmt b, bm_lines = map (saved_row b) [0..<bm_h b]\<rparr>"
  have "canvas_ok d"
    using saved_fmt_cases(3)[OF assms(1)]
    by (auto simp: canvas_ok_def bitmap_ok_def d_def length_saved_row[OF assms(1)])
  moreover have "GetPixel d x y = (if in_bitmap b x y
       then bm_wrap d (saved_value (fmt_bpp (bm_fmt b)) (GetPixel b x y)) else 0)" for x y
  proof -
    have i: "in_bitmap d x y = in_bitmap b x y" by (simp add: in_bitmap_def d_def)
    have l: "Line d y = saved_row b (nat y)" "nat x < bm_w b" if "in_bitmap b x y"
      using that by (simp_all add: Line_def d_def in_bitmap_def nat_less_iff)
    show ?thesis
      using saved_row_pixel[OF assms(1) l(2), of "nat y"] l(1)
      by (simp add: GetPixel_def i bm_wrap_def Line_def) (simp add: d_def)
  qed
  moreover have "\<exists>file p. SaveBmp True b pal = (0, Some file) \<and> LoadBmpFromMemory file want = Loaded (d, p)"
    using load_saved[where pal = pal and want = want, OF assms(1,2) assms(3)] SaveBmp_file[OF assms(1), of pal]
    unfolding d_def[symmetric] by auto
  moreover have "bm_w d = bm_w b \<and> bm_h d = bm_h b \<and> bm_fmt d = saved_fmt b" by (simp add: d_def)
  ultimately show ?thesis by blast
qed

theorem bmp_roundtrip_witness:
  "\<exists>file d p. SaveBmp True \<lparr>bm_w = 1, bm_h = 2, bm_fmt = R5G6B5, bm_lines = [[0, 0xf8, 0, 0], [1, 0, 0, 0]]\<rparr> None =
     (0, Some file) \<and> LoadBmpFromMemory file True = Loaded (d, p) \<and>
     canvas_ok d \<and> bm_w d = 1 \<and> bm_h d = 2 \<and> bm_fmt d = R8G8B8 \<and>
     GetPixel d 0 0 = 0xff0000 \<and> GetPixel d 0 1 = 8"
proof -
  define b where "b = \<lparr>bm_w = 1, bm_h = 2, bm_fmt = R5G6B5, bm_lines = [[0, 0xf8, 0, 0], [1, 0, 0, 0]]\<rparr>"
  have f: "canvas_ok b" "size_ok (bm_w b) (bm_h b) (saved_fmt b)" "saved_fmt b = R8G8B8"
    by (simp_all add: b_def canvas_ok_def bitmap_ok_def saved_fmt_def save_bpp_def Bpp2Fmt_def size_ok_def
        pixelsize_def pitch_of_def pixel_round_def)
  have v: "px_wrap 3 (saved_value 16 (GetPixel b 0 0)) = 0xff0000" "px_wrap 3 (saved_value 16 (GetPixel b 0 1)) = 8"
    "in_bitmap b 0 0" "in_bitmap b 0 1"
    unfolding b_def by code_simp+
  show ?thesis
    using bmp_roundtrip[OF f(1,2), where pal = None and want = True] v f(3)
    unfolding b_def[symmetric] bm_wrap_def
    by (fastforce simp: b_def pixelsize_def)
qed

section \<open>TGA files\<close>

text \<open>\<open>PixelTgaReadSingle\<close>: the pixel and the position behind it.\<close>

definition tga_single :: "bytes \<Rightarrow> nat \<Rightarrow> nat \<Rightarrow> (u32 \<times> nat) option" where
  "tga_single buf ptr bpp =
     (if bpp = 8 then map_option (\<lambda>c. (ucast c, ptr + 1)) (rd8 buf ptr)
      else if bpp = 15 \<or> bpp = 16 then map_option (\<lambda>c. (ucast c, ptr + 2)) (rd16 buf ptr)
      else if bpp \<noteq> 24 \<and> bpp \<noteq> 32 then Some (0, ptr)
      else (case (rd8 buf ptr, rd8 buf (ptr + 1), rd8 buf (ptr + 2)) of
          (Some b, Some g, Some r) \<Rightarrow>
            if bpp = 32
            then map_option (\<lambda>a. (pixel_asm_8888 (ucast a) (ucast r) (ucast g) (ucast b), ptr + 4)) (rd8 buf (ptr + 3))
            else Some (pixel_asm_8888 0 (ucast r) (ucast g) (ucast b) AND 0xffffff, ptr + 3)
        | _ \<Rightarrow> None))"

text \<open>
  The pixel memory of the bitmap, all rows one after the other: a pixel of \<open>n\<close> bytes stored at
  \<open>lptr\<close>, and the same for consecutive ones; \<open>None\<close> outside of the memory.
\<close>

definition tga_store :: "nat \<Rightarrow> bytes \<Rightarrow> nat \<Rightarrow> u32 \<Rightarrow> bytes option" where
  "tga_store n bits lptr c =
     (if lptr + n \<le> length bits then Some (take lptr bits @ le_bytes n c @ drop (lptr + n) bits) else None)"

fun tga_write :: "nat \<Rightarrow> bytes \<Rightarrow> nat \<Rightarrow> u32 list \<Rightarrow> bytes option" where
  "tga_write n bits lptr [] = Some bits"
| "tga_write n bits lptr (c # cs) =
     (case tga_store n bits lptr c of None \<Rightarrow> None | Some bits' \<Rightarrow> tga_write n bits' (lptr + n) cs)"

fun PixelTgaReadn :: "bytes \<Rightarrow> bytes \<Rightarrow> nat \<Rightarrow> nat \<Rightarrow> nat \<Rightarrow> nat \<Rightarrow> (bytes \<times> nat) option" where
  "PixelTgaReadn buf bits lptr ptr 0 bpp = Some (bits, ptr)"
| "PixelTgaReadn buf bits lptr ptr (Suc w) bpp =
     (let n = (bpp + 7) div 8 in
      case tga_single buf ptr bpp of None \<Rightarrow> None
      | Some (c, ptr') \<Rightarrow> (case tga_store n bits lptr c of None \<Rightarrow> None
          | Some bits' \<Rightarrow> PixelTgaReadn buf bits' (lptr + n) ptr' w bpp))"

text \<open>The packets of one row: a count of pixels decides when the row is over.\<close>

function tga_packets :: "bytes \<Rightarrow> bytes \<Rightarrow> nat \<Rightarrow> nat \<Rightarrow> nat \<Rightarrow> nat \<Rightarrow> nat \<Rightarrow> (bytes \<times> nat) option" where
  "tga_packets buf bits lptr ptr x w bpp =
     (if x \<ge> w then Some (bits, ptr)
      else case rd8 buf ptr of None \<Rightarrow> None
      | Some t \<Rightarrow>
          let n = (bpp + 7) div 8; count = unat (t AND 0x7f) + 1 in
          if t AND 0x80 \<noteq> 0
          then (case tga_single buf (ptr + 1) bpp of None \<Rightarrow> None
                | Some (c, ptr') \<Rightarrow> (case tga_write n bits lptr (replicate count c) of None \<Rightarrow> None
                    | Some bits' \<Rightarrow> tga_packets buf bits' (lptr + n * count) ptr' (x + count) w bpp))
          else (case PixelTgaReadn buf bits lptr (ptr + 1) (unat t + 1) bpp of None \<Rightarrow> None
                | Some (bits', ptr') \<Rightarrow>
                    tga_packets buf bits' (lptr + n * (unat t + 1)) ptr' (x + (unat t + 1)) w bpp))"
  by pat_completeness auto
termination by (relation "measure (\<lambda>(buf, bits, lptr, ptr, x, w, bpp). w - x)") auto

record tga_header =
  t_id_length :: u8
  t_palette_type :: u8
  t_image_type :: u8
  t_palette_colors :: u16
  t_entry_size :: u8
  t_width :: u16
  t_height :: u16
  t_bpp :: u8
  t_descriptor :: u8

definition tga_header_at :: "bytes \<Rightarrow> tga_header option" where
  "tga_header_at buf =
     (case (rd8 buf 0, rd8 buf 1, rd8 buf 2, rd16 buf 5, rd8 buf 7, rd16 buf 12, rd16 buf 14, rd8 buf 16, rd8 buf 17) of
        (Some il, Some pt, Some it, Some pc, Some es, Some w, Some h, Some b, Some d) \<Rightarrow>
          Some \<lparr>t_id_length = il, t_palette_type = pt, t_image_type = it, t_palette_colors = pc,
                t_entry_size = es, t_width = w, t_height = h, t_bpp = b, t_descriptor = d\<rparr>
      | _ \<Rightarrow> None)"

text \<open>
  The colour map, read into 256 entries whose content before is \<open>img\<close>: an entry of 16 bits or
  24 keeps its old alpha, one of another size below 24 all of it.
\<close>

definition tga_entry :: "bytes \<Rightarrow> nat \<Rightarrow> nat \<Rightarrow> color \<Rightarrow> (color \<times> nat) option" where
  "tga_entry buf ptr es old =
     (if es = 16 then map_option (\<lambda>c. (old\<lparr>c_b := ucast (scale_5 (ucast c) 0), c_g := ucast (scale_5 (ucast c) 5),
           c_r := ucast (scale_5 (ucast c) 10)\<rparr>, ptr + 2)) (rd16 buf ptr)
      else if es \<ge> 24 then
        (case (rd8 buf ptr, rd8 buf (ptr + 1), rd8 buf (ptr + 2)) of
           (Some b, Some g, Some r) \<Rightarrow>
             if es = 32
             then map_option (\<lambda>a. (\<lparr>c_b = b, c_g = g, c_r = r, c_a = a\<rparr>, ptr + 4)) (rd8 buf (ptr + 3))
             else Some (old\<lparr>c_b := b, c_g := g, c_r := r\<rparr>, ptr + 3)
         | _ \<Rightarrow> None)
      else Some (old, ptr))"

fun tga_palette :: "bytes \<Rightarrow> nat \<Rightarrow> nat \<Rightarrow> nat \<Rightarrow> nat \<Rightarrow> color list \<Rightarrow> (color list \<times> nat) option" where
  "tga_palette buf ptr es i 0 img = Some (img, ptr)"
| "tga_palette buf ptr es i (Suc k) img =
     (if i \<ge> length img then None
      else case tga_entry buf ptr es (img ! i) of None \<Rightarrow> None
      | Some (c, ptr') \<Rightarrow> tga_palette buf ptr' es (Suc i) k (img[i := c]))"

text \<open>What the image type asks of the depth, and the palette it leaves; \<open>None\<close>: \<open>NULL\<close>.\<close>

definition tga_type :: "nat \<Rightarrow> nat \<Rightarrow> nat \<Rightarrow> nat \<Rightarrow> color list \<Rightarrow> color list \<Rightarrow> (nat \<times> color list) option" where
  "tga_type it pt bpp pc img pal =
     (if it = 1 then (if pt \<noteq> 1 \<or> bpp \<noteq> 8 then None else Some (bpp, take pc img @ drop pc pal))
      else if it = 2 then
        (if pt \<noteq> 0 \<or> bpp \<notin> {15, 16, 24, 32} then None else Some (if bpp = 16 then 15 else bpp, pal))
      else (if pt \<noteq> 0 \<or> bpp \<noteq> 8 then None else Some (bpp, gray_palette)))"

fun tga_rows :: "bytes \<Rightarrow> bool \<Rightarrow> bool \<Rightarrow> nat \<Rightarrow> nat \<Rightarrow> nat \<Rightarrow> nat \<Rightarrow> bytes \<Rightarrow> nat \<Rightarrow> nat \<Rightarrow> bytes option" where
  "tga_rows buf compressed topdown w h bpp pitch bits ptr 0 = Some bits"
| "tga_rows buf compressed topdown w h bpp pitch bits ptr (Suc y) =
     (let yc = (if topdown then h - Suc y else y); lptr = pitch * yc in
      case (if \<not> compressed then PixelTgaReadn buf bits lptr ptr w bpp
            else tga_packets buf bits lptr ptr 0 w bpp) of
        None \<Rightarrow> None
      | Some (bits', ptr') \<Rightarrow> tga_rows buf compressed topdown w h bpp pitch bits' ptr' y)"

text \<open>Back from the memory to the rows.\<close>

definition bits_lines :: "nat \<Rightarrow> nat \<Rightarrow> bytes \<Rightarrow> bytes list" where
  "bits_lines pitch h bits = map (\<lambda>j. take pitch (drop (pitch * j) bits)) [0..<h]"

definition LoadTgaFromMemory :: "color list \<Rightarrow> bytes \<Rightarrow> color list \<Rightarrow> (bitmap \<times> color list) load" where
  "LoadTgaFromMemory img0 buf pal0 =
     (case tga_header_at buf of None \<Rightarrow> Fault
      | Some t \<Rightarrow>
          let ty = unat (t_image_type t); pt = unat (t_palette_type t);
              w = unat (t_width t); h = unat (t_height t); pc = unat (t_palette_colors t);
              ptr = 18 + unat (t_id_length t) in
          if (ty < 1 \<or> ty > 3) \<and> (ty < 9 \<or> ty > 11) then Null
          else if pt \<noteq> 0 \<and> pt \<noteq> 1 then Null
          else (case (if pt = 1 then tga_palette buf ptr (unat (t_entry_size t)) 0 pc img0 else Some (img0, ptr)) of
              None \<Rightarrow> Fault
            | Some (img, ptr') \<Rightarrow>
                (case tga_type (unat (t_image_type t AND 7)) pt (unat (t_bpp t)) pc img pal0 of
                   None \<Rightarrow> Null
                 | Some (bpp, pal) \<Rightarrow>
                     let fmt = Bpp2Fmt bpp in
                     if \<not> size_ok w h fmt then Fault
                     else (case new_bitmap w h fmt of None \<Rightarrow> Fault
                       | Some bmp \<Rightarrow>
                           (case tga_rows buf (t_image_type t AND 8 \<noteq> 0) (t_descriptor t AND 0x20 \<noteq> 0)
                                   w h bpp (pitch_of w fmt) (concat (bm_lines bmp)) ptr' h of
                              None \<Rightarrow> Fault
                            | Some bits \<Rightarrow> Loaded (bmp\<lparr>bm_lines := bits_lines (pitch_of w fmt) h bits\<rparr>, pal))))))"

definition LoadTga :: "color list \<Rightarrow> bytes option \<Rightarrow> pixel_fmt \<Rightarrow> color list \<Rightarrow> (bitmap \<times> color list) load" where
  "LoadTga img0 content fmt pal0 =
     (case content of None \<Rightarrow> Null
      | Some buf \<Rightarrow>
          (case LoadTgaFromMemory img0 buf pal0 of Fault \<Rightarrow> Fault | Null \<Rightarrow> Null
           | Loaded (bmp, pal) \<Rightarrow> (case to_format fmt bmp of None \<Rightarrow> Fault | Some b \<Rightarrow> Loaded (b, pal))))"

section \<open>Any file\<close>

text \<open>
  The type is told from the first bytes; PNG and JPEG go to GDI+, whose answer is \<open>gdi\<close>.  A file
  that does not begin with one of the signatures must have a third byte.
\<close>

definition LoadImageFromMemory :: "(bytes \<Rightarrow> bitmap option) \<Rightarrow> color list \<Rightarrow> bytes \<Rightarrow> color list option \<Rightarrow>
    (bitmap \<times> color list) load" where
  "LoadImageFromMemory gdi img0 buf pal =
     (let at = (\<lambda>p v. rd8 buf p = Some v);
          by_gdi = (case gdi buf of None \<Rightarrow> Null | Some b \<Rightarrow> Loaded (b, [])) in
      if buf = [] then Fault
      else if at 0 0x42 \<and> length buf = 1 then Fault
      else if at 0 0x42 \<and> at 1 0x4d then LoadBmpFromMemory buf (pal \<noteq> None)
      else if at 0 0x89 \<and> (length buf = 1 \<or> at 1 0x50 \<and> (length buf = 2 \<or> at 2 0x4e \<and> length buf = 3)) then Fault
      else if at 0 0x89 \<and> at 1 0x50 \<and> at 2 0x4e \<and> at 3 0x47 then by_gdi
      else if at 0 0xff \<and> length buf = 1 then Fault
      else if at 0 0xff \<and> at 1 0xd8 then by_gdi
      else case rd8 buf 2 of None \<Rightarrow> Fault
        | Some t \<Rightarrow> if 1 \<le> t \<and> t \<le> 3 \<or> 9 \<le> t \<and> t \<le> 11
            then LoadTgaFromMemory img0 buf (case pal of None \<Rightarrow> [] | Some p \<Rightarrow> p) else Null)"

definition LoadFile :: "(bytes \<Rightarrow> bitmap option) \<Rightarrow> color list \<Rightarrow> bytes option \<Rightarrow> pixel_fmt \<Rightarrow> color list option \<Rightarrow>
    (bitmap \<times> color list) load" where
  "LoadFile gdi img0 content fmt pal =
     (case content of None \<Rightarrow> Null
      | Some buf \<Rightarrow>
          (case LoadImageFromMemory gdi img0 buf pal of Fault \<Rightarrow> Fault | Null \<Rightarrow> Null
           | Loaded (bmp, p) \<Rightarrow> (case to_format fmt bmp of None \<Rightarrow> Fault | Some b \<Rightarrow> Loaded (b, p))))"

text \<open>A saved bitmap is taken for what it is, whichever reader would come later.\<close>

lemma saved_bmp_detected:
  assumes "SaveBmp True b pal0 = (0, Some file)"
  shows "LoadImageFromMemory gdi img0 file pal = LoadBmpFromMemory file (pal \<noteq> None)"
proof -
  obtain r where f: "file = 0x42 # 0x4d # r"
    using assms by (auto simp: SaveBmp_def Let_def bmp_headers_def put_magic split: if_splits)
  then have "rd8 file 0 = Some 0x42" "rd8 file 1 = Some 0x4d" by (simp_all add: rd8_def slice_def)
  then show ?thesis by (simp add: LoadImageFromMemory_def f)
qed

section \<open>Run-length decoding is the inverse of packing\<close>

definition found_at :: "bytes \<Rightarrow> nat \<Rightarrow> bytes \<Rightarrow> bool" where
  "found_at buf p bs \<longleftrightarrow> slice buf p (length bs) = Some bs"

lemma found_at_append: "found_at buf p (a @ b) \<longleftrightarrow> found_at buf p a \<and> found_at buf (p + length a) b"
proof -
  have "take (length a + length b) (drop p buf) = a @ b \<longleftrightarrow>
      take (length a) (drop p buf) = a \<and> take (length b) (drop (p + length a) buf) = b"
    if "p + (length a + length b) \<le> length buf"
    using that by (simp add: take_add add.commute append_eq_append_conv)
  then show ?thesis by (auto simp: found_at_def slice_def)
qed

lemma found_at_Cons: "found_at buf p (x # b) \<longleftrightarrow> rd8 buf p = Some x \<and> found_at buf (p + 1) b"
proof -
  have "found_at buf p [x] \<longleftrightarrow> rd8 buf p = Some x"
    by (cases "drop p buf") (auto simp: found_at_def rd8_def slice_def)
  then show ?thesis using found_at_append[of buf p "[x]" b] by simp
qed

lemma found_at_here: "length a = p \<Longrightarrow> found_at (a @ bs @ r) p bs"
  by (simp add: found_at_def slice_def)

definition px_bytes :: "nat \<Rightarrow> u32 \<Rightarrow> bytes" where
  "px_bytes bpp c = le_bytes ((bpp + 7) div 8) c"

definition px_fits :: "nat \<Rightarrow> u32 \<Rightarrow> bool" where
  "px_fits bpp c \<longleftrightarrow> px_wrap ((bpp + 7) div 8) c = c"

lemma asm_le_word: "pixel_asm_8888 (ucast a) (ucast r) (ucast g) (ucast b) = le_word [b, g, r, a]"
  by (simp add: pixel_asm_8888_def push_bit_or) (simp add: ac_simps)

lemma ucast_two_bytes:
  "ucast (ucast x OR push_bit 8 (ucast y) :: u16) = (ucast x OR push_bit 8 (ucast y) :: u32)" for x y :: u8
  by (rule bit_word_eqI) (auto simp: bit_simps dest: bit_imp_le_length)

lemma tga_single_found:
  assumes "bpp \<in> {8, 15, 24, 32}" and "px_fits bpp c" and "found_at buf p (px_bytes bpp c)"
  shows "tga_single buf p bpp = Some (c, p + (bpp + 7) div 8)"
proof -
  define n where "n = (bpp + 7) div 8"
  have c: "le_word (le_bytes n c) = c" using assms(2) by (simp add: px_fits_def px_wrap_def n_def le_word_le_bytes)
  consider "bpp = 8" "n = 1" | "bpp = 15" "n = 2" | "bpp = 24" "n = 3" | "bpp = 32" "n = 4"
    using assms(1) by (auto simp: n_def)
  then show ?thesis
  proof cases
    case 1
    then have "rd8 buf p = Some (ucast c)"
      using assms(3) by (simp add: px_bytes_def n_def[symmetric] le_bytes_numeral found_at_Cons)
    moreover have "ucast (ucast c :: u8) = c" using c 1 by (simp add: le_bytes_numeral)
    ultimately show ?thesis using 1 by (simp add: tga_single_def)
  next
    case 2
    have "slice buf p 2 = Some (le_bytes 2 c)"
      using assms(3) 2 by (simp add: px_bytes_def n_def[symmetric] found_at_def)
    moreover have "ucast (le_word (le_bytes 2 c) :: u16) = c"
      using c 2 by (simp add: le_bytes_numeral ucast_two_bytes)
    ultimately show ?thesis using 2 by (simp add: tga_single_def rd16_def)
  next
    case 3
    have m: "c AND 0xffffff = c"
      using assms(2) 3 by (simp add: px_fits_def px_wrap_def take_bit_eq_mask mask_eq_exp_minus_1)
    have "le_bytes 3 c = [ucast c, ucast (drop_bit 8 c), ucast (drop_bit 16 c)]" by (simp add: le_bytes_numeral)
    then show ?thesis
      using assms(3) c 3 m asm_le_word[of 0 "ucast (drop_bit 16 c)" "ucast (drop_bit 8 c)" "ucast c"]
      by (simp add: px_bytes_def n_def[symmetric] found_at_Cons tga_single_def numeral_3_eq_3 numeral_2_eq_2)
  next
    case 4
    have "le_bytes 4 c = [ucast c, ucast (drop_bit 8 c), ucast (drop_bit 16 c), ucast (drop_bit 24 c)]"
      by (simp add: le_bytes_numeral)
    then have b: "rd8 buf p = Some (ucast c)" "rd8 buf (p + 1) = Some (ucast (drop_bit 8 c))"
      "rd8 buf (p + 2) = Some (ucast (drop_bit 16 c))" "rd8 buf (p + 3) = Some (ucast (drop_bit 24 c))"
      using assms(3) 4 by (simp_all add: px_bytes_def n_def[symmetric] found_at_Cons numeral_3_eq_3 numeral_2_eq_2)
    show ?thesis
      using b c 4 asm_le_word[of "ucast (drop_bit 24 c)" "ucast (drop_bit 16 c)" "ucast (drop_bit 8 c)" "ucast c"]
      by (simp add: tga_single_def le_bytes_numeral n_def[symmetric])
  qed
qed

datatype packet = Run nat u32 | Literal "u32 list"

fun packet_pixels :: "packet \<Rightarrow> u32 list" where
  "packet_pixels (Run k c) = replicate k c"
| "packet_pixels (Literal cs) = cs"

fun packet_bytes :: "nat \<Rightarrow> packet \<Rightarrow> bytes" where
  "packet_bytes bpp (Run k c) = word_of_nat (127 + k) # px_bytes bpp c"
| "packet_bytes bpp (Literal cs) = word_of_nat (length cs - 1) # concat (map (px_bytes bpp) cs)"

fun packet_ok :: "nat \<Rightarrow> packet \<Rightarrow> bool" where
  "packet_ok bpp (Run k c) \<longleftrightarrow> 1 \<le> k \<and> k \<le> 128 \<and> px_fits bpp c"
| "packet_ok bpp (Literal cs) \<longleftrightarrow> 1 \<le> length cs \<and> length cs \<le> 128 \<and> list_all (px_fits bpp) cs"

abbreviation row_pixels :: "packet list \<Rightarrow> u32 list" where
  "row_pixels ps \<equiv> concat (map packet_pixels ps)"

definition row_bytes :: "nat \<Rightarrow> bool \<Rightarrow> packet list \<Rightarrow> bytes" where
  "row_bytes bpp compressed ps = (if compressed then concat (map (packet_bytes bpp) ps)
     else concat (map (px_bytes bpp) (row_pixels ps)))"

lemma length_px_bytes [simp]: "length (px_bytes bpp c) = (bpp + 7) div 8"
  by (simp add: px_bytes_def)

lemma length_px_row: "length (concat (map (px_bytes bpp) cs)) = (bpp + 7) div 8 * length cs"
  by (induction cs) simp_all

lemma tga_write_append:
  "tga_write n bits lptr (a @ b) =
     (case tga_write n bits lptr a of None \<Rightarrow> None | Some bits' \<Rightarrow> tga_write n bits' (lptr + n * length a) b)"
  by (induction a arbitrary: bits lptr) (auto simp: algebra_simps split: option.split)

lemma PixelTgaReadn_found:
  assumes "bpp \<in> {8, 15, 24, 32}"
  shows "list_all (px_fits bpp) cs \<Longrightarrow> found_at buf ptr (concat (map (px_bytes bpp) cs)) \<Longrightarrow>
    PixelTgaReadn buf bits lptr ptr (length cs) bpp =
      map_option (\<lambda>b. (b, ptr + length (concat (map (px_bytes bpp) cs)))) (tga_write ((bpp + 7) div 8) bits lptr cs)"
proof (induction cs arbitrary: bits lptr ptr)
  case (Cons c cs)
  then have "tga_single buf ptr bpp = Some (c, ptr + (bpp + 7) div 8)"
    using tga_single_found[OF assms] by (simp add: found_at_append)
  then show ?case using Cons by (simp add: Let_def found_at_append add.assoc split: option.split)
qed simp

lemma unat_byte: "n < 256 \<Longrightarrow> unat (word_of_nat n :: u8) = n"
  by (simp add: unat_of_nat take_bit_nat_eq_self)

lemma byte_flag: "unat (t AND 0x7f) = unat t mod 128" "t AND 0x80 = 0 \<longleftrightarrow> unat t < 128" for t :: u8
proof -
  have "unat (t AND 0x7f) = unat t AND 127" by (simp add: unsigned_and_eq)
  also have "\<dots> = take_bit 7 (unat t)" by (simp add: take_bit_eq_mask mask_eq_exp_minus_1)
  finally show "unat (t AND 0x7f) = unat t mod 128" by (simp add: take_bit_eq_mod)
  have "t AND 0x80 = 0 \<longleftrightarrow> \<not> bit t 7" using and_exp_eq_0_iff_not_bit[of t 7] by simp
  also have "bit t 7 \<longleftrightarrow> bit (unat t) 7" by (simp add: bit_unsigned_iff)
  also have "bit (unat t) 7 \<longleftrightarrow> odd (unat t div 128)" by (simp add: bit_iff_odd)
  also have "\<not> odd (unat t div 128) \<longleftrightarrow> unat t < 128"
  proof (cases "unat t < 128")
    case False
    have "unat t < 256" using unsigned_less[of t, where 'a = nat] by simp
    then have "unat t div 128 = 1" using False by (intro div_nat_eqI) simp_all
    then show ?thesis using False by simp
  qed simp
  finally show "t AND 0x80 = 0 \<longleftrightarrow> unat t < 128" .
qed

lemma run_count:
  assumes "1 \<le> k" "k \<le> 128"
  shows "unat ((word_of_nat (127 + k) :: u8) AND 0x7f) + 1 = k \<and> (word_of_nat (127 + k) :: u8) AND 0x80 \<noteq> 0"
proof -
  have "unat (word_of_nat (127 + k) :: u8) = 127 + k" by (rule unat_byte) (use assms in simp)
  moreover have "(127 + k) mod 128 = k - 1" using assms by (simp add: mod_if)
  ultimately show ?thesis using assms by (simp only: byte_flag) simp
qed

lemma literal_count:
  assumes "1 \<le> k" "k \<le> 128"
  shows "unat (word_of_nat (k - 1) :: u8) + 1 = k \<and> (word_of_nat (k - 1) :: u8) AND 0x80 = 0"
proof -
  have "unat (word_of_nat (k - 1) :: u8) = k - 1" by (rule unat_byte) (use assms in simp)
  then show ?thesis using assms by (simp only: byte_flag) simp
qed

declare tga_packets.simps [simp del]

lemma tga_packets_found:
  assumes bpp: "bpp \<in> {8, 15, 24, 32}"
  shows "list_all (packet_ok bpp) ps \<Longrightarrow> found_at buf ptr (concat (map (packet_bytes bpp) ps)) \<Longrightarrow>
    x + length (row_pixels ps) = w \<Longrightarrow>
    tga_packets buf bits lptr ptr x w bpp =
      map_option (\<lambda>b. (b, ptr + length (concat (map (packet_bytes bpp) ps))))
        (tga_write ((bpp + 7) div 8) bits lptr (row_pixels ps))"
proof (induction ps arbitrary: bits lptr ptr x)
  case Nil
  then show ?case by (simp add: tga_packets.simps)
next
  case (Cons p ps)
  have rest: "tga_packets buf b (lptr + l) (ptr + length (packet_bytes bpp p)) (x + length (packet_pixels p)) w bpp =
      map_option (\<lambda>b. (b, ptr + length (concat (map (packet_bytes bpp) (p # ps)))))
        (tga_write ((bpp + 7) div 8) b (lptr + l) (row_pixels ps))" for b l
    using Cons.prems Cons.IH[of "ptr + length (packet_bytes bpp p)" "x + length (packet_pixels p)" b "lptr + l"]
    by (simp add: found_at_append add.assoc)
  show ?case
  proof (cases p)
    case (Run k c)
    then have k: "1 \<le> k" "k \<le> 128" "px_fits bpp c" and f: "rd8 buf ptr = Some (word_of_nat (127 + k))"
      "found_at buf (ptr + 1) (px_bytes bpp c)"
      using Cons.prems by (simp_all add: found_at_append found_at_Cons)
    have "x < w" using Cons.prems(3) k Run by simp
    then show ?thesis
      using rest[of _ "(bpp + 7) div 8 * k"] Run k f run_count[OF k(1,2)] tga_single_found[OF bpp k(3) f(2)]
      by (subst tga_packets.simps) (simp add: Let_def tga_write_append split: option.split)
  next
    case (Literal cs)
    then have k: "1 \<le> length cs" "length cs \<le> 128" "list_all (px_fits bpp) cs"
      and f: "rd8 buf ptr = Some (word_of_nat (length cs - 1))"
      "found_at buf (ptr + 1) (concat (map (px_bytes bpp) cs))"
      using Cons.prems by (simp_all add: found_at_append found_at_Cons)
    have "x < w" using Cons.prems(3) k Literal by simp
    moreover obtain t where "rd8 buf ptr = Some t" "unat t + 1 = length cs" "t AND 0x80 = 0"
      using f(1) literal_count[OF k(1,2)] by blast
    ultimately show ?thesis
      using rest[of _ "(bpp + 7) div 8 * length cs"] Literal PixelTgaReadn_found[OF bpp k(3) f(2)]
      by (subst tga_packets.simps) (simp add: Let_def tga_write_append split: option.split)
  qed
qed

lemma tga_write_eq:
  "lptr + n * length cs \<le> length bits \<Longrightarrow> tga_write n bits lptr cs =
     Some (take lptr bits @ concat (map (le_bytes n) cs) @ drop (lptr + n * length cs) bits)"
proof (induction cs arbitrary: bits lptr)
  case (Cons c cs)
  define b where "b = take lptr bits @ le_bytes n c @ drop (lptr + n) bits"
  have "tga_store n bits lptr c = Some b" using Cons.prems by (simp add: tga_store_def b_def)
  moreover have "lptr + n + n * length cs \<le> length b" using Cons.prems by (simp add: b_def)
  moreover have "take (lptr + n) b = take lptr bits @ le_bytes n c"
    "drop (lptr + n + n * length cs) b = drop (lptr + n * length (c # cs)) bits"
    using Cons.prems by (simp_all add: b_def ac_simps)
  ultimately show ?case using Cons.IH[of "lptr + n" b] by simp
qed simp

definition mem_line :: "nat \<Rightarrow> bytes \<Rightarrow> nat \<Rightarrow> bytes" where
  "mem_line pitch bits j = take pitch (drop (pitch * j) bits)"

lemma mem_line_fill:
  assumes "length bits = pitch * h" and "length r \<le> pitch" and "i < h" and "j < h"
  shows "mem_line pitch (take (pitch * i) bits @ r @ drop (pitch * i + length r) bits) j =
    (if j = i then r @ drop (length r) (mem_line pitch bits i) else mem_line pitch bits j)"
proof -
  have b: "pitch * i + pitch \<le> length bits" "pitch * j + pitch \<le> length bits"
    using mult_le_mono2[of "Suc i" h pitch] mult_le_mono2[of "Suc j" h pitch] assms by simp_all
  consider "j < i" | "j = i" | "i < j" by linarith
  then show ?thesis
  proof cases
    case 1
    then have "pitch * j + pitch \<le> pitch * i" using mult_le_mono2[of "Suc j" i pitch] by simp
    then show ?thesis using 1 b by (simp add: mem_line_def take_drop min_def)
  next
    case 2
    then show ?thesis using b assms(2) by (simp add: mem_line_def drop_take add.commute)
  next
    case 3
    then have "pitch * i + pitch \<le> pitch * j" using mult_le_mono2[of "Suc i" j pitch] by simp
    then show ?thesis using 3 b assms(2) by (simp add: mem_line_def)
  qed
qed

text \<open>Row \<open>j\<close> of the bitmap is row \<open>tga_index\<close> of the file.\<close>

definition tga_index :: "bool \<Rightarrow> nat \<Rightarrow> nat \<Rightarrow> nat" where
  "tga_index topdown h j = (if topdown then j else h - 1 - j)"

lemma tga_row_read:
  assumes "bpp \<in> {8, 15, 24, 32}" and "list_all (packet_ok bpp) ps" and "length (row_pixels ps) = w"
    and "found_at buf ptr (row_bytes bpp compressed ps)" and "lptr + (bpp + 7) div 8 * w \<le> length bits"
  shows "(if \<not> compressed then PixelTgaReadn buf bits lptr ptr w bpp else tga_packets buf bits lptr ptr 0 w bpp) =
    Some (take lptr bits @ concat (map (px_bytes bpp) (row_pixels ps)) @ drop (lptr + (bpp + 7) div 8 * w) bits,
      ptr + length (row_bytes bpp compressed ps))"
proof -
  have fits: "list_all (px_fits bpp) (packet_pixels p)" if "packet_ok bpp p" for p
    using that by (cases p) (auto simp: list_all_iff)
  then have "list_all (px_fits bpp) (row_pixels ps)" using assms(2) by (fastforce simp: list_all_iff)
  moreover have "px_bytes bpp = le_bytes ((bpp + 7) div 8)" by (rule ext) (simp add: px_bytes_def)
  ultimately show ?thesis
    using PixelTgaReadn_found[OF assms(1), of "row_pixels ps" buf ptr bits lptr] assms(2-5)
      tga_packets_found[OF assms(1,2), of buf ptr 0 w bits lptr]
      tga_write_eq[of lptr "(bpp + 7) div 8" "row_pixels ps" bits]
    by (cases compressed) (simp_all add: row_bytes_def)
qed

lemma tga_rows_read:
  assumes bpp: "bpp \<in> {8, 15, 24, 32}" and p: "(bpp + 7) div 8 * w \<le> pitch"
  shows "list_all (list_all (packet_ok bpp)) rs \<Longrightarrow> list_all (\<lambda>ps. length (row_pixels ps) = w) rs \<Longrightarrow>
    found_at buf ptr (concat (map (row_bytes bpp compressed) rs)) \<Longrightarrow> length rs \<le> h \<Longrightarrow> length bits = pitch * h \<Longrightarrow>
    \<exists>bits'. tga_rows buf compressed topdown w h bpp pitch bits ptr (length rs) = Some bits' \<and>
      length bits' = pitch * h \<and>
      (\<forall>j<h. mem_line pitch bits' j =
        (if (if topdown then h - length rs \<le> j else j < length rs)
         then concat (map (px_bytes bpp) (row_pixels (rs ! (if topdown then j - (h - length rs) else length rs - 1 - j)))) @
           drop ((bpp + 7) div 8 * w) (mem_line pitch bits j)
         else mem_line pitch bits j))"
proof (induction rs arbitrary: bits ptr)
  case (Cons ps rs)
  define i where "i = (if topdown then h - Suc (length rs) else length rs)"
  define r where "r = concat (map (px_bytes bpp) (row_pixels ps))"
  have i: "i < h" using Cons.prems(4) by (simp add: i_def)
  have w: "length (row_pixels ps) = w" "list_all (packet_ok bpp) ps" using Cons.prems by simp_all
  have r: "length r = (bpp + 7) div 8 * w"
    by (simp only: r_def length_px_row w(1))
  have in_mem: "pitch * i + (bpp + 7) div 8 * w \<le> length bits"
    using mult_le_mono2[of "Suc i" h pitch] i p Cons.prems(5) by simp
  define b where "b = take (pitch * i) bits @ r @ drop (pitch * i + length r) bits"
  have row: "(if \<not> compressed then PixelTgaReadn buf bits (pitch * i) ptr w bpp
      else tga_packets buf bits (pitch * i) ptr 0 w bpp) = Some (b, ptr + length (row_bytes bpp compressed ps))"
    using tga_row_read[OF bpp w(2,1) _ in_mem, of buf ptr compressed] Cons.prems(3) r
    by (simp add: b_def r_def found_at_append)
  have lb: "length b = pitch * h" using in_mem r Cons.prems(5) by (simp add: b_def)
  obtain bits' where b': "tga_rows buf compressed topdown w h bpp pitch b (ptr + length (row_bytes bpp compressed ps)) (length rs) = Some bits'"
    "length bits' = pitch * h"
    "\<And>j. j < h \<Longrightarrow> mem_line pitch bits' j =
        (if (if topdown then h - length rs \<le> j else j < length rs)
         then concat (map (px_bytes bpp) (row_pixels (rs ! (if topdown then j - (h - length rs) else length rs - 1 - j)))) @
           drop ((bpp + 7) div 8 * w) (mem_line pitch b j)
         else mem_line pitch b j)"
    using Cons.IH[of "ptr + length (row_bytes bpp compressed ps)" b] Cons.prems lb by (auto simp: found_at_append)
  have line: "mem_line pitch b j = (if j = i then r @ drop (length r) (mem_line pitch bits i) else mem_line pitch bits j)"
    if "j < h" for j
    unfolding b_def using mem_line_fill[OF Cons.prems(5) _ i that, of r] r p by simp
  have "tga_rows buf compressed topdown w h bpp pitch bits ptr (length (ps # rs)) = Some bits'"
    using row b'(1) by (simp add: Let_def i_def[symmetric])
  moreover have "mem_line pitch bits' j =
        (if (if topdown then h - length (ps # rs) \<le> j else j < length (ps # rs))
         then concat (map (px_bytes bpp) (row_pixels ((ps # rs) ! (if topdown then j - (h - length (ps # rs)) else length (ps # rs) - 1 - j)))) @
           drop ((bpp + 7) div 8 * w) (mem_line pitch bits j)
         else mem_line pitch bits j)" if j: "j < h" for j
  proof (cases topdown)
    case True
    then have i': "h - Suc (length rs) = i" "h - length rs = Suc i" using Cons.prems(4) by (auto simp: i_def)
    consider "j < i" | "j = i" | "i < j" by linarith
    then show ?thesis
    proof cases
      case 3
      then have "j - i = Suc (j - Suc i)" by simp
      then show ?thesis using 3 True b'(3)[OF j] line[OF j] by (simp add: i')
    qed (use True b'(3)[OF j] line[OF j] r in \<open>simp_all add: r_def[symmetric] i'\<close>)
  next
    case False
    then have i': "i = length rs" by (simp add: i_def)
    consider "j < i" | "j = i" | "i < j" by linarith
    then show ?thesis
    proof cases
      case 1
      then have "length rs - j = Suc (length rs - Suc j)" using i' by simp
      then show ?thesis using 1 False b'(3)[OF j] line[OF j] i' by simp
    qed (use False b'(3)[OF j] line[OF j] i' r in \<open>simp_all add: r_def[symmetric]\<close>)
  qed
  ultimately show ?case using b'(2) by blast
qed simp

definition tga_header_bytes :: "tga_header \<Rightarrow> bytes" where
  "tga_header_bytes t = [t_id_length t, t_palette_type t, t_image_type t, 0, 0] @ le_bytes 2 (t_palette_colors t) @
     [t_entry_size t, 0, 0, 0, 0] @ le_bytes 2 (t_width t) @ le_bytes 2 (t_height t) @ [t_bpp t, t_descriptor t]"

lemma tga_header_read: "tga_header_at (tga_header_bytes t @ r) = Some t"
  by (simp add: tga_header_at_def tga_header_bytes_def rd8_def rd16_def slice_def le_word_le_bytes
      take_bit_word_eq_self)

lemma length_tga_header: "length (tga_header_bytes t) = 18"
  by (simp add: tga_header_bytes_def)

text \<open>A file of rows of packets, packed or not.\<close>

definition tga_depth :: "tga_header \<Rightarrow> nat" where
  "tga_depth t = (if t_bpp t = 16 then 15 else unat (t_bpp t))"

definition tga_file :: "tga_header \<Rightarrow> bytes \<Rightarrow> bool \<Rightarrow> packet list list \<Rightarrow> bytes" where
  "tga_file t ident compressed rs =
     tga_header_bytes (t\<lparr>t_image_type := t_image_type t + (if compressed then 8 else 0)\<rparr>) @ ident @
     concat (map (row_bytes (tga_depth t) compressed) rs)"

definition tga_rows_ok :: "tga_header \<Rightarrow> packet list list \<Rightarrow> bool" where
  "tga_rows_ok t rs \<longleftrightarrow> length rs = unat (t_height t) \<and> list_all (list_all (packet_ok (tga_depth t))) rs \<and>
     list_all (\<lambda>ps. length (row_pixels ps) = unat (t_width t)) rs"

lemma row_fits: "list_all (packet_ok bpp) ps \<Longrightarrow> c \<in> set (row_pixels ps) \<Longrightarrow> px_fits bpp c"
proof -
  have "packet_ok bpp p \<Longrightarrow> c \<in> set (packet_pixels p) \<Longrightarrow> px_fits bpp c" for p
    by (cases p) (auto simp: list_all_iff)
  then show "list_all (packet_ok bpp) ps \<Longrightarrow> c \<in> set (row_pixels ps) \<Longrightarrow> px_fits bpp c"
    by (fastforce simp: list_all_iff)
qed

lemma px_get_row:
  assumes "list_all (packet_ok bpp) ps" and "i < length (row_pixels ps)"
  shows "px_get ((bpp + 7) div 8) (concat (map (px_bytes bpp) (row_pixels ps)) @ r) i = row_pixels ps ! i"
proof -
  have "take ((bpp + 7) div 8) (drop ((bpp + 7) div 8 * i) (concat (map (px_bytes bpp) (row_pixels ps)) @ r)) =
      map (px_bytes bpp) (row_pixels ps) ! i"
    by (rule concat_chunk) (use assms(2) in \<open>auto simp del: length_concat\<close>)
  moreover have "px_fits bpp (row_pixels ps ! i)" by (rule row_fits[OF assms(1) nth_mem[OF assms(2)]])
  ultimately show ?thesis
    using assms(2) by (simp add: px_get_def px_bytes_def le_word_le_bytes px_fits_def px_wrap_def nth_map)
qed

definition tga_kind_ok :: "tga_header \<Rightarrow> bool" where
  "tga_kind_ok t \<longleftrightarrow> t_palette_type t = 0 \<and>
     (t_image_type t, t_bpp t) \<in> {(2, 15), (2, 16), (2, 24), (2, 32), (3, 8)} \<and>
     size_ok (unat (t_width t)) (unat (t_height t)) (Bpp2Fmt (tga_depth t))"

lemma tga_depth_ok:
  "tga_kind_ok t \<Longrightarrow> tga_depth t \<in> {8, 15, 24, 32} \<and> pixelsize (Bpp2Fmt (tga_depth t)) = (tga_depth t + 7) div 8 \<and>
     Bpp2Fmt (tga_depth t) \<noteq> UNKNOW"
  by (auto simp: tga_kind_ok_def tga_depth_def Bpp2Fmt_def pixelsize_def)

lemma load_tga_rows:
  assumes k: "tga_kind_ok t" and ident: "length ident = unat (t_id_length t)" and rs: "tga_rows_ok t rs"
  shows "\<exists>lines p. LoadTgaFromMemory img0 (tga_file t ident compressed rs) pal0 =
      Loaded (\<lparr>bm_w = unat (t_width t), bm_h = unat (t_height t), bm_fmt = Bpp2Fmt (tga_depth t), bm_lines = lines\<rparr>, p) \<and>
    length lines = unat (t_height t) \<and>
    (\<forall>j<unat (t_height t). length (lines ! j) = pitch_of (unat (t_width t)) (Bpp2Fmt (tga_depth t)) \<and>
       (\<exists>r. lines ! j = concat (map (px_bytes (tga_depth t))
          (row_pixels (rs ! tga_index (t_descriptor t AND 0x20 \<noteq> 0) (unat (t_height t)) j))) @ r))"
proof -
  define bpp w h td where "bpp = tga_depth t" and "w = unat (t_width t)" and "h = unat (t_height t)"
    and "td = (t_descriptor t AND 0x20 \<noteq> 0)"
  define fmt pitch where "fmt = Bpp2Fmt bpp" and "pitch = pitch_of w fmt"
  define t' where "t' = t\<lparr>t_image_type := t_image_type t + (if compressed then 8 else 0)\<rparr>"
  define buf where "buf = tga_file t ident compressed rs"
  define bits where "bits = concat (replicate h (replicate pitch (0 :: u8)))"
  note d = tga_depth_ok[OF k, folded bpp_def, folded fmt_def]
  have pw: "(bpp + 7) div 8 * w \<le> pitch"
    using pitch_holds_row[of w fmt] d by (simp add: pitch_def mult.commute)
  have lb: "length bits = pitch * h" by (simp add: bits_def length_concat sum_list_replicate)
  have f: "found_at buf (18 + unat (t_id_length t)) (concat (map (row_bytes bpp compressed) rs))"
    using found_at_here[of "tga_header_bytes t' @ ident" "18 + unat (t_id_length t)" _ "[]"] ident
    by (simp add: buf_def tga_file_def t'_def bpp_def length_tga_header)
  obtain bits' where b': "tga_rows buf compressed td w h bpp pitch bits (18 + unat (t_id_length t)) h = Some bits'"
      "length bits' = pitch * h"
      "\<And>j. j < h \<Longrightarrow> mem_line pitch bits' j = concat (map (px_bytes bpp) (row_pixels (rs ! tga_index td h j))) @
         drop ((bpp + 7) div 8 * w) (mem_line pitch bits j)"
    using tga_rows_read[OF _ pw _ _ f, of h bits td] d rs lb
    by (auto simp: tga_rows_ok_def bpp_def w_def h_def tga_index_def)
  have hd: "tga_header_at buf = Some t'"
    using tga_header_read[of t' "ident @ concat (map (row_bytes bpp compressed) rs)"]
    by (simp add: buf_def tga_file_def t'_def bpp_def)
  have ty: "t_image_type t' AND 8 \<noteq> 0 \<longleftrightarrow> compressed" "t_image_type t' AND 7 = t_image_type t"
    "\<not> ((unat (t_image_type t') < 1 \<or> 3 < unat (t_image_type t')) \<and>
        (unat (t_image_type t') < 9 \<or> 11 < unat (t_image_type t')))"
    using k by (auto simp: t'_def tga_kind_ok_def)
  have tt: "t_palette_type t' = 0" "t_id_length t' = t_id_length t" "t_width t' = t_width t" "t_height t' = t_height t"
    "t_descriptor t' = t_descriptor t" "t_bpp t' = t_bpp t"
    using k by (simp_all add: t'_def tga_kind_ok_def)
  obtain p where p: "tga_type (unat (t_image_type t)) 0 (unat (t_bpp t)) (unat (t_palette_colors t')) img0 pal0 = Some (bpp, p)"
    using k by (auto simp: tga_kind_ok_def tga_type_def bpp_def tga_depth_def)
  have s: "size_ok w h fmt" using k by (simp add: tga_kind_ok_def w_def h_def fmt_def bpp_def)
  have "LoadTgaFromMemory img0 buf pal0 =
      Loaded (\<lparr>bm_w = w, bm_h = h, bm_fmt = fmt, bm_lines = bits_lines pitch h bits'\<rparr>, p)"
    unfolding LoadTgaFromMemory_def hd option.case Let_def ty(1,2) tt
    using ty(3) p s d b'(1)
    by (simp add: new_bitmap_def w_def[symmetric] h_def[symmetric] td_def[symmetric] fmt_def[symmetric]
        pitch_def[symmetric] bits_def[symmetric])
  moreover have "\<forall>j<h. length (bits_lines pitch h bits' ! j) = pitch \<and>
      (\<exists>r. bits_lines pitch h bits' ! j = concat (map (px_bytes bpp) (row_pixels (rs ! tga_index td h j))) @ r)"
  proof (intro allI impI)
    fix j assume that: "j < h"
    have "bits_lines pitch h bits' ! j = mem_line pitch bits' j"
      using that by (simp add: bits_lines_def mem_line_def)
    moreover have "length (mem_line pitch bits' j) = pitch"
      using mult_le_mono2[of "Suc j" h pitch] that b'(2) by (simp add: mem_line_def)
    ultimately show "length (bits_lines pitch h bits' ! j) = pitch \<and>
      (\<exists>r. bits_lines pitch h bits' ! j = concat (map (px_bytes bpp) (row_pixels (rs ! tga_index td h j))) @ r)"
      using b'(3)[OF that] by metis
  qed
  moreover have "length (bits_lines pitch h bits') = h" by (simp add: bits_lines_def)
  ultimately show ?thesis
    unfolding buf_def bpp_def w_def h_def fmt_def pitch_def td_def by (intro exI conjI)
qed

text \<open>
  C36. The run-length decoder inverts packing: a TGA file whose rows are written as packets - runs
  of one pixel and literal pixels, at most 128 each - loads to the same pixels whether it is
  stored packed or as plain pixels: for each row, in either vertical order, the pixels of its
  packets one after the other.
\<close>

theorem tga_packing_inverted:
  assumes "tga_kind_ok t" and "length ident = unat (t_id_length t)" and "tga_rows_ok t rs"
  shows "\<exists>d p. LoadTgaFromMemory imgs (tga_file t ident compressed rs) pals = Loaded (d, p) \<and> canvas_ok d \<and>
    bm_w d = unat (t_width t) \<and> bm_h d = unat (t_height t) \<and> bm_fmt d = Bpp2Fmt (tga_depth t) \<and>
    (\<forall>x y. in_bitmap d x y \<longrightarrow> GetPixel d x y =
       row_pixels (rs ! tga_index (t_descriptor t AND 0x20 \<noteq> 0) (bm_h d) (nat y)) ! nat x)"
proof -
  obtain lines p where l: "LoadTgaFromMemory imgs (tga_file t ident compressed rs) pals =
      Loaded (\<lparr>bm_w = unat (t_width t), bm_h = unat (t_height t), bm_fmt = Bpp2Fmt (tga_depth t), bm_lines = lines\<rparr>, p)"
    "length lines = unat (t_height t)"
    and row: "\<And>j. j < unat (t_height t) \<Longrightarrow>
       length (lines ! j) = pitch_of (unat (t_width t)) (Bpp2Fmt (tga_depth t)) \<and>
       (\<exists>r. lines ! j = concat (map (px_bytes (tga_depth t))
          (row_pixels (rs ! tga_index (t_descriptor t AND 0x20 \<noteq> 0) (unat (t_height t)) j))) @ r)"
    using load_tga_rows[OF assms] by blast
  define d where "d = \<lparr>bm_w = unat (t_width t), bm_h = unat (t_height t), bm_fmt = Bpp2Fmt (tga_depth t), bm_lines = lines\<rparr>"
  have "canvas_ok d"
    using l(2) row tga_depth_ok[OF assms(1)] by (auto simp: canvas_ok_def bitmap_ok_def d_def in_set_conv_nth)
  moreover have "GetPixel d x y = row_pixels (rs ! tga_index (t_descriptor t AND 0x20 \<noteq> 0) (bm_h d) (nat y)) ! nat x"
    if i: "in_bitmap d x y" for x y
  proof -
    let ?k = "tga_index (t_descriptor t AND 0x20 \<noteq> 0) (unat (t_height t)) (nat y)"
    have xy: "nat y < unat (t_height t)" "nat x < unat (t_width t)"
      using i by (simp_all add: in_bitmap_def d_def nat_less_iff)
    then have "?k < length rs" using assms(3) by (auto simp: tga_index_def tga_rows_ok_def)
    then have "list_all (packet_ok (tga_depth t)) (rs ! ?k)" "length (row_pixels (rs ! ?k)) = unat (t_width t)"
      using assms(3) by (simp_all add: tga_rows_ok_def list_all_length)
    then show ?thesis
      using row[OF xy(1)] xy(2) px_get_row[of "tga_depth t" "rs ! ?k" "nat x"] tga_depth_ok[OF assms(1)] i
      by (auto simp: GetPixel_def Line_def) (auto simp: d_def)
  qed
  ultimately show ?thesis using l(1) by (auto simp: d_def)
qed

theorem tga_packing_inverted_witness:
  "\<exists>d p. LoadTgaFromMemory [] ([0, 0, 11, 0, 0, 0, 0, 0, 0, 0, 0, 0, 3, 0, 1, 0, 8, 0x20] @ [0x81, 7, 0, 9]) [] = Loaded (d, p) \<and>
     canvas_ok d \<and> bm_w d = 3 \<and> bm_h d = 1 \<and> bm_fmt d = G8 \<and> GetPixel d 1 0 = 7 \<and> GetPixel d 2 0 = 9"
proof -
  define t where "t = \<lparr>t_id_length = 0, t_palette_type = 0, t_image_type = 3, t_palette_colors = 0,
    t_entry_size = 0, t_width = 3, t_height = 1, t_bpp = 8, t_descriptor = 0x20\<rparr>"
  define rs where "rs = [[Run 2 7, Literal [9]]]"
  have s: "Bpp2Fmt (tga_depth t) = G8" by (simp add: t_def tga_depth_def Bpp2Fmt_def)
  have d: "tga_depth t = 8" "pixelsize G8 = 1" by (simp_all add: t_def tga_depth_def pixelsize_def)
  have k: "tga_kind_ok t"
    using s d by (simp add: tga_kind_ok_def size_ok_def pitch_of_def pixel_round_def) (simp add: t_def)
  have r: "tga_rows_ok t rs" using d by (simp add: tga_rows_ok_def rs_def px_fits_def px_wrap_def) (simp add: t_def)
  have f: "tga_file t [] True rs = [0, 0, 11, 0, 0, 0, 0, 0, 0, 0, 0, 0, 3, 0, 1, 0, 8, 0x20] @ [0x81, 7, 0, 9]"
    unfolding t_def rs_def by code_simp
  have i: "length [] = unat (t_id_length t)" by (simp add: t_def)
  obtain e p where e: "LoadTgaFromMemory [] (tga_file t [] True rs) [] = Loaded (e, p)" "canvas_ok e"
    "bm_w e = 3" "bm_h e = 1" "bm_fmt e = G8"
    and g: "\<And>x y. in_bitmap e x y \<Longrightarrow> GetPixel e x y = row_pixels (rs ! tga_index True 1 (nat y)) ! nat x"
    using tga_packing_inverted[OF k i r, where imgs = "[]" and pals = "[]" and compressed = True] s
    by (auto simp: t_def)
  have "GetPixel e 1 0 = 7" "GetPixel e 2 0 = 9"
    using g[of 1 0] g[of 2 0] e by (simp_all add: in_bitmap_def tga_index_def rs_def numeral_2_eq_2)
  then show ?thesis using e f by auto
qed

section \<open>What the readers and the writer do not guard\<close>

text \<open>
  A packet that goes on behind the last row is written behind the pixels: here the one row of a
  bitmap of one pixel, four bytes long.
\<close>

lemma packet_past_the_end: "tga_packets [0x84, 7] [0, 0, 0, 0] 0 0 0 1 8 = None"
proof -
  have w: "tga_write 1 [0, 0, 0, 0] 0 (replicate 5 c) = None" for c
    by (simp add: tga_store_def eval_nat_numeral)
  have "rd8 [0x84, 7] 0 = Some 0x84" "tga_single [0x84, 7] 1 8 = Some (7, 2)" by code_simp+
  then show ?thesis using w[of 7] by (subst tga_packets.simps) (simp add: Let_def)
qed

text \<open>A colour map of more than 256 entries leaves the array of 256.\<close>

lemma palette_past_the_end: "length img < i + k \<Longrightarrow> i \<le> length img \<Longrightarrow> tga_palette buf ptr es i k img = None"
  by (induction buf ptr es i k img rule: tga_palette.induct) (auto split: option.split)

lemma palette_257:
  assumes "tga_header_at buf = Some t" and "t_palette_type t = 1" and "256 < unat (t_palette_colors t)"
    and "t_image_type t = 1" and "length img0 = 256"
  shows "LoadTgaFromMemory img0 buf pal0 = Fault"
  using assms by (simp add: LoadTgaFromMemory_def palette_past_the_end)

text \<open>A file cut short is read behind its end; a BMP file stored top-down cannot be allocated.\<close>

lemma short_bmp: "LoadBmpFromMemory [0x42, 0x4d] want = Fault"
  by (simp add: LoadBmpFromMemory_def bmp_header_at_def slice_def)

lemma top_down_bmp:
  assumes "bmp_header_at buf = Loaded hdr" and "2 ^ 31 \<le> unat (h_height hdr)"
  shows "LoadBmpFromMemory buf want = Fault"
  using assms by (auto simp: LoadBmpFromMemory_def size_ok_def Let_def split: option.split)

text \<open>A read error leaves \<open>LoadContent\<close> in its loop: nothing read, and no end of file.\<close>

lemma read_error_never_ends: "0 < remain \<Longrightarrow> load_loop remain False (replicate k (0, False)) = None"
  by (induction k) simp_all

lemma load_loop_left: "load_loop remain eof rs = Some r \<Longrightarrow> r \<le> remain"
  by (induction remain eof rs rule: load_loop.induct) (fastforce split: if_splits)+

text \<open>
  \<open>_bpp\<close> is 16 for all 16-bit formats, so \<open>A1R5G5B5\<close> is saved as if it were \<open>R5G6B5\<close>: pure red
  becomes a blue tone less red.  \<open>A8B8G8R8\<close> is saved without exchanging red and blue.
\<close>

lemma save_1555_as_565:
  "px_wrap 3 (saved_value (fmt_bpp A1R5G5B5) 0x7c00) = 0x7b8100" "fetch_px A1R5G5B5 0x7c00 = 0x00ff0000"
  by code_simp+

lemma save_abgr_raw: "saved_value (fmt_bpp A8B8G8R8) c = c" "Bpp2Fmt (save_bpp (fmt_bpp A8B8G8R8)) = A8R8G8B8"
  by (simp_all add: saved_value_def save_bpp_def Bpp2Fmt_def)

lemma SavePPM_converts: "bm_fmt b \<noteq> A8R8G8B8 \<or> bm_fmt b \<noteq> X8R8G8B8"
  by (cases "bm_fmt b") simp_all

end
