(* ===== verification/Tool_Bar.thy ===== *)
theory Tool_Bar
  imports Main_Wnd Bitmap
begin

text \<open>
  obZrv/Toolbar.cpp and StatusBar.cpp: the pictures of the tool bar buttons (\<open>IconPixels\<close>: from
  a decoded strip or from an image list, to a premultiplied or a greyed bitmap), the image lists
  the tool bar owns and rebuilds when the DPI changes, the buttons, and the parts of the status
  bar.  Handles are numbers in the order they are asked for; the world \<open>gdi\<close> keeps the image
  lists, bitmaps, icons and memory blocks that are alive, and a fault flag for a handle that is
  used or destroyed when it is not alive and for a read outside a buffer.
\<close>

unbundle bit_operations_syntax

section \<open>Pictures\<close>

record icon =
  ic_w :: nat
  ic_h :: nat
  ic_bgra :: bytes

definition no_icon :: icon where
  "no_icon = \<lparr>ic_w = 0, ic_h = 0, ic_bgra = []\<rparr>"

definition ic_valid :: "icon \<Rightarrow> bool" where
  "ic_valid p \<longleftrightarrow> ic_w p > 0 \<and> ic_h p > 0 \<and> ic_bgra p \<noteq> []"

text \<open>
  What \<open>LockBits\<close> gives: the stride, and the bytes at each offset from \<open>Scan0\<close> (\<open>None\<close> outside
  of the locked picture).  The result of \<open>FromGdiBitmap\<close> is \<open>None\<close> when it reads outside.
\<close>

record locked =
  lk_stride :: int
  lk_mem :: "int \<Rightarrow> u8 option"

definition gdi_row :: "int \<Rightarrow> int \<Rightarrow> int \<Rightarrow> int" where
  "gdi_row stride h y = (if stride \<ge> 0 then y * stride else (h - 1 - y) * (- stride))"

definition gdi_copy_row :: "locked \<Rightarrow> nat \<Rightarrow> nat \<Rightarrow> nat \<Rightarrow> bytes option" where
  "gdi_copy_row l w h y = those (map (\<lambda>i. lk_mem l (gdi_row (lk_stride l) (int h) (int y) + int i)) [0..<w * 4])"

definition FromGdiBitmap :: "(nat \<times> nat \<times> locked option) option \<Rightarrow> icon option" where
  "FromGdiBitmap bmp =
     (case bmp of None \<Rightarrow> Some no_icon
      | Some (w, h, None) \<Rightarrow> Some no_icon
      | Some (w, h, Some l) \<Rightarrow>
          map_option (\<lambda>rows. \<lparr>ic_w = w, ic_h = h, ic_bgra = concat rows\<rparr>)
            (those (map (gdi_copy_row l w h) [0..<h])))"

text \<open>A pixel in memory order: blue, green, red, alpha.\<close>

type_synonym quad = "u8 \<times> u8 \<times> u8 \<times> u8"

fun quad_bytes :: "quad \<Rightarrow> bytes" where
  "quad_bytes (b, g, r, a) = [b, g, r, a]"

definition quad :: "bytes \<Rightarrow> nat \<Rightarrow> quad" where
  "quad bs i = (bs ! (4 * i), bs ! (4 * i + 1), bs ! (4 * i + 2), bs ! (4 * i + 3))"

definition Unpremultiply :: "u8 \<Rightarrow> u8 \<Rightarrow> u8" where
  "Unpremultiply v a =
     (let out = (ucast v :: u32) * 255 div ucast a in if out > 255 then 255 else ucast out)"

fun unpremul_px :: "quad \<Rightarrow> quad" where
  "unpremul_px (b, g, r, a) =
     (if a = 0 then (0, 0, 0, a) else (Unpremultiply b a, Unpremultiply g a, Unpremultiply r a, a))"

text \<open>
  What is known of an entry of an image list: the size of the strip it lies in, its rectangle
  there, and the rows \<open>GetDIBits\<close> copies, the lowest first (\<open>None\<close> when it copies none).
\<close>

record strip_info =
  si_w :: int
  si_h :: int
  si_rc :: rect
  si_dib :: "bytes option"

text \<open>Where the \<open>d\<close>-th of \<open>sz\<close> rows or columns lies in \<open>n\<close> of them from \<open>s0\<close> on.\<close>

definition sample :: "int \<Rightarrow> int \<Rightarrow> int \<Rightarrow> int \<Rightarrow> int" where
  "sample s0 n d sz = s0 + (if sz > 1 then d * (n - 1) sdiv (sz - 1) else 0)"

definition strip_pixel :: "strip_info \<Rightarrow> bytes \<Rightarrow> nat \<Rightarrow> nat \<times> nat \<Rightarrow> quad option" where
  "strip_pixel ii strip sz = (\<lambda>(dy, dx).
     let srcX = r_left (si_rc ii); srcY = r_top (si_rc ii);
         srcW = r_right (si_rc ii) - srcX; srcH = r_bottom (si_rc ii) - srcY;
         sytd = sample srcY srcH (int dy) (int sz);
         sybu = (si_h ii - 1) - sytd;
         sx = sample srcX srcW (int dx) (int sz);
         off = (sybu * si_w ii + sx) * 4
     in if 0 \<le> off \<and> nat off + 4 \<le> length strip
        then Some (unpremul_px (quad (drop (nat off) strip) 0)) else None)"

definition FromImageList :: "strip_info option \<Rightarrow> nat \<Rightarrow> icon option" where
  "FromImageList info sz =
     (case info of None \<Rightarrow> Some no_icon
      | Some ii \<Rightarrow>
          if si_w ii \<le> 0 \<or> si_h ii \<le> 0 then Some no_icon
          else case si_dib ii of None \<Rightarrow> Some no_icon
            | Some strip \<Rightarrow>
                map_option (\<lambda>px. \<lparr>ic_w = sz, ic_h = sz, ic_bgra = concat (map quad_bytes px)\<rparr>)
                  (those (map (strip_pixel ii strip sz) (List.product [0..<sz] [0..<sz]))))"

text \<open>The loop over the pixels of both conversions, and the bytes they write.\<close>

definition each_pixel :: "(quad \<Rightarrow> quad) \<Rightarrow> icon \<Rightarrow> bytes" where
  "each_pixel f p = concat (map (\<lambda>i. quad_bytes (f (quad (ic_bgra p) i))) [0..<ic_w p * ic_h p])"

definition premul_px :: "u32 \<Rightarrow> quad \<Rightarrow> quad" where
  "premul_px alphaPercent = (\<lambda>(b, g, r, alpha).
     let a = (ucast alpha :: u32) * alphaPercent div 100 in
     (ucast ((ucast b :: u32) * a div 255), ucast ((ucast g :: u32) * a div 255),
      ucast ((ucast r :: u32) * a div 255), ucast a))"

definition luminance :: "u8 \<Rightarrow> u8 \<Rightarrow> u8 \<Rightarrow> u8" where
  "luminance b g r = ucast (drop_bit 8 ((ucast r :: u32) * 77 + ucast g * 150 + ucast b * 29))"

definition disabled_px :: "u32 \<Rightarrow> u32 \<times> u32 \<times> u32 \<Rightarrow> quad \<Rightarrow> quad" where
  "disabled_px iconOpacity = (\<lambda>(bgR, bgG, bgB) (b, g, r, a).
     let lum = (ucast (luminance b g r) :: u32);
         iconW = (ucast a :: u32) * iconOpacity;
         bgW = 25500 - iconW
     in (ucast ((lum * iconW + bgB * bgW) div 25500), ucast ((lum * iconW + bgG * bgW) div 25500),
         ucast ((lum * iconW + bgR * bgW) div 25500), 255))"

definition ToPremultipliedBitmap :: "icon \<Rightarrow> u32 \<Rightarrow> bytes option" where
  "ToPremultipliedBitmap p alphaPercent =
     (if \<not> ic_valid p then None else Some (each_pixel (premul_px alphaPercent) p))"

definition ToDisabledBitmap :: "icon \<Rightarrow> u32 \<Rightarrow> u32 \<times> u32 \<times> u32 \<Rightarrow> bytes option" where
  "ToDisabledBitmap p iconOpacity btnface =
     (if \<not> ic_valid p then None else Some (each_pixel (disabled_px iconOpacity btnface) p))"

section \<open>DPI tiers and buttons\<close>

definition SelectDpiTier :: "int \<Rightarrow> int \<times> nat" where
  "SelectDpiTier d =
     (if d < 108 then (301, 20) else if d < 132 then (302, 25)
      else if d < 168 then (303, 30) else (304, 40))"

text \<open>The image a command without one of its own borrows, and the one appended to the strip.\<close>

definition IMG_ZOOM :: nat where "IMG_ZOOM = 8"
definition IMG_SAVEAS :: nat where "IMG_SAVEAS = 12"

text \<open>\<open>GetMenuIcon\<close>: the index of the image for a command.\<close>

definition menu_icon_index :: "int \<Rightarrow> nat option" where
  "menu_icon_index cmd =
     (if cmd = ID_FILE_OPEN then Some 0 else if cmd = ID_FILE_PREV then Some 1
      else if cmd = ID_FILE_NEXT then Some 2 else if cmd = ID_VIEW_ZOOMIN then Some 3
      else if cmd = ID_VIEW_ZOOMTO then Some 4 else if cmd = ID_VIEW_ZOOMOUT then Some 5
      else if cmd = ID_VIEW_ZOOMMODE then Some 6 else if cmd = ID_VIEW_ZOOMREM then Some 7
      else if cmd = ID_VIEW_ZOOM then Some IMG_ZOOM else if cmd = ID_VIEW_SLIDESHOW then Some IMG_ZOOM
      else if cmd = ID_VIEW_FILELIST then Some 9 else if cmd = ID_FILE_OPEN_REMOTE then Some 10
      else if cmd = ID_FILE_REFRESH then Some 11 else if cmd = ID_FILE_SAVE_AS then Some IMG_SAVEAS
      else None)"

datatype btn_style = BtnButton | BtnCheck | BtnDropdown | BtnSep

text \<open>\<open>Create\<close>'s table: image, command, whether the button starts enabled, style.\<close>

definition button_table :: "(nat \<times> int \<times> bool \<times> btn_style) list" where
  "button_table =
    [(0, ID_FILE_OPEN, True, BtnButton), (10, ID_FILE_OPEN_REMOTE, True, BtnButton),
     (12, ID_FILE_SAVE_AS, False, BtnButton), (11, ID_FILE_REFRESH, True, BtnButton),
     (9, ID_VIEW_FILELIST, True, BtnCheck), (1, ID_FILE_PREV, True, BtnButton),
     (2, ID_FILE_NEXT, True, BtnButton), (0, 0, True, BtnSep),
     (3, ID_VIEW_ZOOMIN, True, BtnButton), (4, ID_VIEW_ZOOMTO, False, BtnButton),
     (6, ID_VIEW_ZOOMMODE, True, BtnDropdown), (5, ID_VIEW_ZOOMOUT, True, BtnButton),
     (7, ID_VIEW_ZOOMREM, False, BtnButton), (8, ID_VIEW_SLIDESHOW, True, BtnButton),
     (0, 0, True, BtnSep)]"

section \<open>Handles\<close>

text \<open>
  Every request for a handle takes the next number; \<open>mk n\<close> says whether request \<open>n\<close> succeeds.
  An image list holds the bitmaps and icons that were added to it.
\<close>

datatype list_entry = Bmp bytes | Ico nat

record gdi =
  g_next :: nat
  g_lists :: "(nat \<times> list_entry list) list"
  g_bmps :: "(nat \<times> bytes) list"
  g_icons :: "nat list"
  g_blocks :: nat
  g_fault :: bool

definition no_handles :: "gdi \<Rightarrow> bool" where
  "no_handles g \<longleftrightarrow> g_lists g = [] \<and> g_bmps g = [] \<and> g_icons g = [] \<and> g_blocks g = 0"

definition ImageList_Create :: "(nat \<Rightarrow> bool) \<Rightarrow> gdi \<Rightarrow> nat option \<times> gdi" where
  "ImageList_Create mk g =
     (if mk (g_next g) then (Some (g_next g), g\<lparr>g_next := Suc (g_next g), g_lists := (g_next g, []) # g_lists g\<rparr>)
      else (None, g\<lparr>g_next := Suc (g_next g)\<rparr>))"

definition ImageList_Destroy :: "nat \<Rightarrow> gdi \<Rightarrow> gdi" where
  "ImageList_Destroy h g =
     (if h \<in> fst ` set (g_lists g) then g\<lparr>g_lists := filter (\<lambda>e. fst e \<noteq> h) (g_lists g)\<rparr>
      else g\<lparr>g_fault := True\<rparr>)"

definition ImageList_Add :: "nat \<Rightarrow> list_entry \<Rightarrow> gdi \<Rightarrow> gdi" where
  "ImageList_Add h e g =
     (if h \<in> fst ` set (g_lists g)
      then g\<lparr>g_lists := map (\<lambda>(k, es). (k, if k = h then es @ [e] else es)) (g_lists g)\<rparr>
      else g\<lparr>g_fault := True\<rparr>)"

definition new_bitmap_handle :: "(nat \<Rightarrow> bool) \<Rightarrow> bytes option \<Rightarrow> gdi \<Rightarrow> nat option \<times> gdi" where
  "new_bitmap_handle mk bits g =
     (case bits of None \<Rightarrow> (None, g)
      | Some bs \<Rightarrow>
          if mk (g_next g) then (Some (g_next g), g\<lparr>g_next := Suc (g_next g), g_bmps := (g_next g, bs) # g_bmps g\<rparr>)
          else (None, g\<lparr>g_next := Suc (g_next g)\<rparr>))"

definition bitmap_bits :: "gdi \<Rightarrow> nat \<Rightarrow> bytes" where
  "bitmap_bits g h = (case map_of (g_bmps g) h of None \<Rightarrow> [] | Some bs \<Rightarrow> bs)"

definition DeleteBitmap :: "nat \<Rightarrow> gdi \<Rightarrow> gdi" where
  "DeleteBitmap h g =
     (if h \<in> fst ` set (g_bmps g) then g\<lparr>g_bmps := filter (\<lambda>e. fst e \<noteq> h) (g_bmps g)\<rparr>
      else g\<lparr>g_fault := True\<rparr>)"

definition new_icon_handle :: "(nat \<Rightarrow> bool) \<Rightarrow> gdi \<Rightarrow> nat option \<times> gdi" where
  "new_icon_handle mk g =
     (if mk (g_next g) then (Some (g_next g), g\<lparr>g_next := Suc (g_next g), g_icons := g_next g # g_icons g\<rparr>)
      else (None, g\<lparr>g_next := Suc (g_next g)\<rparr>))"

definition DestroyIcon :: "nat \<Rightarrow> gdi \<Rightarrow> gdi" where
  "DestroyIcon h g =
     (if h \<in> set (g_icons g) then g\<lparr>g_icons := remove1 h (g_icons g)\<rparr> else g\<lparr>g_fault := True\<rparr>)"

text \<open>\<open>LoadShell32Icon\<close>: the extracted icon only lives until it has been copied.\<close>

definition LoadShell32Icon :: "(nat \<Rightarrow> bool) \<Rightarrow> gdi \<Rightarrow> nat option \<times> gdi" where
  "LoadShell32Icon mk g =
     (case new_icon_handle mk g of
        (None, g1) \<Rightarrow> (None, g1)
      | (Some hLarge, g1) \<Rightarrow>
          (case new_icon_handle mk g1 of (hSized, g2) \<Rightarrow> (hSized, DestroyIcon hLarge g2)))"

section \<open>The image lists\<close>

text \<open>
  What \<open>LoadPngStrip\<close> finds on its way: the resource (\<open>None\<close>: not found, not loaded or empty),
  memory for a copy of it, a stream on that memory (which then owns it), and the picture GDI+
  decodes from the stream.
\<close>

record png_env =
  pe_data :: "int \<Rightarrow> bytes option"
  pe_alloc :: bool
  pe_stream :: bool
  pe_decode :: "bytes \<Rightarrow> (nat \<times> nat \<times> locked option) option"
  pe_face :: "u32 \<times> u32 \<times> u32"

definition decode_strip :: "png_env \<Rightarrow> int \<Rightarrow> gdi \<Rightarrow> icon option \<times> gdi" where
  "decode_strip e resId g =
     (case pe_data e resId of None \<Rightarrow> (None, g)
      | Some bs \<Rightarrow>
          if \<not> pe_alloc e then (None, g)
          else
            let g1 = g\<lparr>g_blocks := Suc (g_blocks g)\<rparr> in
            if \<not> pe_stream e then (None, g1\<lparr>g_blocks := g_blocks g1 - 1\<rparr>)
            else
              let bmp = pe_decode e bs; g2 = g1\<lparr>g_blocks := g_blocks g1 - 1\<rparr> in
              (case bmp of None \<Rightarrow> (None, g2)
               | Some b \<Rightarrow>
                   (case FromGdiBitmap (Some b) of
                      None \<Rightarrow> (None, g2\<lparr>g_fault := True\<rparr>)
                    | Some p \<Rightarrow> (if ic_valid p then Some p else None, g2))))"

definition LoadPngStrip :: "(nat \<Rightarrow> bool) \<Rightarrow> png_env \<Rightarrow> int \<Rightarrow> gdi \<Rightarrow> nat option \<times> nat option \<times> gdi" where
  "LoadPngStrip mk e resId g =
     (case decode_strip e resId g of
        (None, g1) \<Rightarrow> (None, None, g1)
      | (Some pixels, g1) \<Rightarrow>
          case new_bitmap_handle mk (ToPremultipliedBitmap pixels 100) g1 of (hbmpNormal, g2) \<Rightarrow>
          case new_bitmap_handle mk (ToDisabledBitmap pixels 40 (pe_face e)) g2 of (hbmpDis, g3) \<Rightarrow>
          case (case hbmpDis of None \<Rightarrow> (None, g3)
                | Some d \<Rightarrow>
                    case ImageList_Create mk g3 of
                      (None, g4) \<Rightarrow> (None, DeleteBitmap d g4)
                    | (Some himlDis, g4) \<Rightarrow>
                        (Some himlDis, DeleteBitmap d (ImageList_Add himlDis (Bmp (bitmap_bits g4 d)) g4)))
            of (himlDis, g5) \<Rightarrow>
          (case hbmpNormal of None \<Rightarrow> (None, himlDis, g5)
           | Some n \<Rightarrow>
               case ImageList_Create mk g5 of
                 (None, g6) \<Rightarrow> (None, himlDis, DeleteBitmap n g6)
               | (Some himl, g6) \<Rightarrow>
                   (Some himl, himlDis, DeleteBitmap n (ImageList_Add himl (Bmp (bitmap_bits g6 n)) g6))))"

text \<open>
  The tool bar; the last two fields are what the control was last told (\<open>TB_SETIMAGELIST\<close>,
  \<open>TB_SETDISABLEDIMAGELIST\<close>).
\<close>

record toolbar =
  tb_hwnd :: bool
  tb_himl :: "nat option"
  tb_himlDis :: "nat option"
  tb_bandH :: int
  tb_shown :: "nat option"
  tb_shownDis :: "nat option"

text \<open>
  One call of \<open>UpdateDpi\<close>: the DPI, the strip, whether adding the icon gives an index, what is
  known of that entry, and the height of a button afterwards.
\<close>

record dpi_env =
  de_dpi :: int
  de_png :: png_env
  de_added :: bool
  de_info :: "strip_info option"
  de_height :: int

definition append_save_icon :: "(nat \<Rightarrow> bool) \<Rightarrow> dpi_env \<Rightarrow> nat \<Rightarrow> nat \<Rightarrow> nat option \<Rightarrow> gdi \<Rightarrow> gdi" where
  "append_save_icon mk e iconSz himlNew himlNewDis g =
     (case LoadShell32Icon mk g of
        (None, g1) \<Rightarrow> g1
      | (Some hSaveAs, g1) \<Rightarrow>
          let g2 = (if de_added e then ImageList_Add himlNew (Ico hSaveAs) g1 else g1);
              g3 = (case himlNewDis of None \<Rightarrow> g2
                    | Some d \<Rightarrow>
                        case (if de_added e
                              then (case FromImageList (de_info e) iconSz of
                                      None \<Rightarrow> (None, g2\<lparr>g_fault := True\<rparr>)
                                    | Some pixels \<Rightarrow>
                                        new_bitmap_handle mk (ToDisabledBitmap pixels 40 (pe_face (de_png e))) g2)
                              else (None, g2))
                          of (None, g') \<Rightarrow> ImageList_Add d (Ico hSaveAs) g'
                           | (Some b, g') \<Rightarrow>
                               DeleteBitmap b (ImageList_Add d (Bmp (bitmap_bits g' b)) g'))
          in DestroyIcon hSaveAs g3)"

definition destroy_if :: "nat option \<Rightarrow> gdi \<Rightarrow> gdi" where
  "destroy_if h g = (case h of None \<Rightarrow> g | Some x \<Rightarrow> ImageList_Destroy x g)"

definition UpdateDpi :: "(nat \<Rightarrow> bool) \<Rightarrow> dpi_env \<Rightarrow> toolbar \<times> gdi \<Rightarrow> toolbar \<times> gdi" where
  "UpdateDpi mk e = (\<lambda>(t, g).
     if \<not> tb_hwnd t then (t, g)
     else
       case SelectDpiTier (de_dpi e) of (resId, iconSz) \<Rightarrow>
       case LoadPngStrip mk (de_png e) resId g of (himlNew, himlNewDis, g1) \<Rightarrow>
       let g2 = (case himlNew of None \<Rightarrow> g1 | Some h \<Rightarrow> append_save_icon mk e iconSz h himlNewDis g1);
           (shown, shownDis) = (if tb_himl t = None then (tb_shown t, tb_shownDis t) else (None, None));
           g3 = destroy_if (tb_himlDis t) (destroy_if (tb_himl t) g2)
       in (t\<lparr>tb_himl := himlNew, tb_himlDis := himlNewDis,
             tb_shown := (if himlNew = None then shown else himlNew),
             tb_shownDis := (if himlNewDis = None then shownDis else himlNewDis),
             tb_bandH := de_height e + 4\<rparr>, g3))"

text \<open>Construction, \<open>Create\<close> (the band window and the control may fail), and destruction.\<close>

definition new_toolbar :: toolbar where
  "new_toolbar = \<lparr>tb_hwnd = False, tb_himl = None, tb_himlDis = None, tb_bandH = 0,
     tb_shown = None, tb_shownDis = None\<rparr>"

definition toolbar_Create :: "(nat \<Rightarrow> bool) \<Rightarrow> bool \<Rightarrow> bool \<Rightarrow> dpi_env \<Rightarrow> gdi \<Rightarrow> bool \<times> toolbar \<times> gdi" where
  "toolbar_Create mk band_ok ctl_ok e g =
     (if \<not> band_ok \<or> \<not> ctl_ok then (False, new_toolbar, g)
      else (True, UpdateDpi mk e (new_toolbar\<lparr>tb_hwnd := True\<rparr>, g)))"

definition destroy_toolbar :: "toolbar \<times> gdi \<Rightarrow> gdi" where
  "destroy_toolbar = (\<lambda>(t, g). destroy_if (tb_himlDis t) (destroy_if (tb_himl t) g))"

text \<open>\<open>GetShellMenuIcon\<close>: \<open>info\<close> describes the entry of the list that is made for it.\<close>

definition GetShellMenuIcon :: "(nat \<Rightarrow> bool) \<Rightarrow> bool \<Rightarrow> strip_info option \<Rightarrow> nat \<Rightarrow> gdi \<Rightarrow> nat option \<times> gdi" where
  "GetShellMenuIcon mk added info sz g =
     (case LoadShell32Icon mk g of
        (None, g1) \<Rightarrow> (None, g1)
      | (Some hIcon, g1) \<Rightarrow>
          case ImageList_Create mk g1 of
            (None, g2) \<Rightarrow> (None, DestroyIcon hIcon g2)
          | (Some himl, g2) \<Rightarrow>
              let g3 = (if added then ImageList_Add himl (Ico hIcon) g2 else g2);
                  g4 = DestroyIcon hIcon g3;
                  (hbmp, g5) = (if added
                                then (case FromImageList info sz of
                                        None \<Rightarrow> (None, g4\<lparr>g_fault := True\<rparr>)
                                      | Some p \<Rightarrow> new_bitmap_handle mk (ToPremultipliedBitmap p 100) g4)
                                else (None, g4))
              in (hbmp, ImageList_Destroy himl g5))"

text \<open>\<open>GetMenuIcon\<close>: \<open>info\<close> describes the entries of the tool bar's list, if it has one.\<close>

definition GetMenuIcon :: "(nat \<Rightarrow> bool) \<Rightarrow> (nat \<Rightarrow> strip_info option) \<Rightarrow> toolbar \<Rightarrow> int \<Rightarrow> nat \<Rightarrow> gdi \<Rightarrow>
    nat option \<times> gdi" where
  "GetMenuIcon mk info t cmd sz g =
     (case menu_icon_index cmd of None \<Rightarrow> (None, g)
      | Some idx \<Rightarrow>
          (case FromImageList (if tb_himl t = None then None else info idx) sz of
             None \<Rightarrow> (None, g\<lparr>g_fault := True\<rparr>)
           | Some p \<Rightarrow> new_bitmap_handle mk (ToPremultipliedBitmap p 100) g))"

text \<open>
  The rest of the tool bar: which messages the band hands to its parent, registering its class
  once, the sizes \<open>AutoSize\<close> sets (of the band and of the control), and the messages that press
  or enable a button.
\<close>

datatype band_msg = BandCommand | BandNotify | BandOther

definition BandProc :: "band_msg \<Rightarrow> bool" where
  "BandProc msg \<longleftrightarrow> msg = BandCommand \<or> msg = BandNotify"

definition RegisterBandClass :: "bool \<Rightarrow> bool \<times> bool" where
  "RegisterBandClass s_done = (True, \<not> s_done)"

definition toolbar_AutoSize :: "bool \<Rightarrow> toolbar \<Rightarrow> int \<Rightarrow> (sz \<times> sz) option" where
  "toolbar_AutoSize band t rc_right =
     (if \<not> band \<or> \<not> tb_hwnd t then None else Some ((rc_right, tb_bandH t), (rc_right, tb_bandH t)))"

datatype tb_msg = CheckButton int bool | EnableButton int bool

definition toolbar_SetPressed :: "toolbar \<Rightarrow> int \<Rightarrow> bool \<Rightarrow> tb_msg list" where
  "toolbar_SetPressed t cmd pressed = (if tb_hwnd t then [CheckButton cmd pressed] else [])"

definition toolbar_EnableButton :: "toolbar \<Rightarrow> int \<Rightarrow> bool \<Rightarrow> tb_msg list" where
  "toolbar_EnableButton t cmd enable = (if tb_hwnd t then [EnableButton cmd enable] else [])"

section \<open>The status bar\<close>

text \<open>The right edge of its first part (the second takes the rest), and the two texts.\<close>

record status_bar =
  sb_hwnd :: bool
  sb_part :: int
  sb_info :: wstr
  sb_hint :: wstr

definition sb_UpdateParts :: "int \<Rightarrow> status_bar \<Rightarrow> status_bar" where
  "sb_UpdateParts rc_right s = (if sb_hwnd s then s\<lparr>sb_part := status_split rc_right\<rparr> else s)"

definition sb_Create :: "bool \<Rightarrow> int \<Rightarrow> bool \<times> status_bar" where
  "sb_Create created rc_right =
     (let s = \<lparr>sb_hwnd = created, sb_part = 0, sb_info = [], sb_hint = []\<rparr> in
      if \<not> created then (False, s) else (True, sb_UpdateParts rc_right s))"

text \<open>The control takes its new width before the parts are set; \<open>rc_right\<close> is that width.\<close>

definition sb_OnParentSize :: "int \<Rightarrow> status_bar \<Rightarrow> status_bar" where
  "sb_OnParentSize rc_right s = (if \<not> sb_hwnd s then s else sb_UpdateParts rc_right s)"

definition sb_SetFileInfo :: "wstr \<Rightarrow> status_bar \<Rightarrow> status_bar" where
  "sb_SetFileInfo text s = (if sb_hwnd s then s\<lparr>sb_info := text\<rparr> else s)"

definition sb_SetHint :: "wstr \<Rightarrow> status_bar \<Rightarrow> status_bar" where
  "sb_SetHint text s = (if sb_hwnd s then s\<lparr>sb_hint := text\<rparr> else s)"

definition sb_height :: "int \<Rightarrow> status_bar \<Rightarrow> int" where
  "sb_height rc_bottom s = (if \<not> sb_hwnd s then 0 else rc_bottom)"

section \<open>The pictures\<close>

lemma those_map: "(\<And>x. x \<in> set xs \<Longrightarrow> f x = Some (g x)) \<Longrightarrow> those (map f xs) = Some (map g xs)"
  by (induction xs) simp_all

lemma length_quad_bytes [simp]: "length (quad_bytes q) = 4"
  by (cases q) simp

lemma quad_Cons_bytes: "quad (quad_bytes q @ bs) 0 = q" "quad (quad_bytes q @ bs) (Suc i) = quad bs i"
  by (cases q; simp add: quad_def numeral_eq_Suc)+

lemma quad_concat: "i < length qs \<Longrightarrow> quad (concat (map quad_bytes qs)) i = qs ! i"
proof (induction qs arbitrary: i)
  case (Cons q qs)
  then show ?case by (cases i) (simp_all add: quad_Cons_bytes)
qed simp

lemma length_concat_quads: "length (concat (map quad_bytes qs)) = 4 * length qs"
  by (induction qs) simp_all

lemma quad_drop: "quad (drop (4 * n) bs) i = quad bs (n + i)" if "4 * (n + i) + 4 \<le> length bs"
  using that by (simp add: quad_def algebra_simps)

lemma each_pixel_quad: "i < ic_w p * ic_h p \<Longrightarrow> quad (each_pixel f p) i = f (quad (ic_bgra p) i)"
  using quad_concat[of i "map (\<lambda>i. f (quad (ic_bgra p) i)) [0..<ic_w p * ic_h p]"]
  by (simp add: each_pixel_def comp_def)

lemma sample_range:
  assumes "0 < n" and "0 \<le> d" and "d < sz"
  shows "s0 \<le> sample s0 n d sz \<and> sample s0 n d sz < s0 + n"
proof (cases "sz > 1")
  case True
  have "0 \<le> d * (n - 1)" using assms by simp
  moreover have "d * (n - 1) \<le> (sz - 1) * (n - 1)" using assms by (intro mult_right_mono) auto
  ultimately have "0 \<le> d * (n - 1) div (sz - 1)" "d * (n - 1) div (sz - 1) \<le> n - 1"
    using True zdiv_mono1[of "d * (n - 1)" "(sz - 1) * (n - 1)" "sz - 1"]
    by (simp_all add: pos_imp_zdiv_nonneg_iff)
  then show ?thesis using True \<open>0 \<le> d * (n - 1)\<close> by (simp add: sample_def sdiv_div)
next
  case False
  then show ?thesis using assms by (simp add: sample_def)
qed

lemma sample_same: "0 \<le> d \<Longrightarrow> d < sz \<Longrightarrow> sample s0 sz d sz = s0 + d"
  by (auto simp: sample_def sdiv_div)

text \<open>An entry as Windows describes it: its rectangle lies in the strip, and the rows are all there.\<close>

definition strip_ok :: "strip_info \<Rightarrow> bool" where
  "strip_ok ii \<longleftrightarrow> 0 \<le> r_left (si_rc ii) \<and> r_left (si_rc ii) < r_right (si_rc ii) \<and> r_right (si_rc ii) \<le> si_w ii \<and>
     0 \<le> r_top (si_rc ii) \<and> r_top (si_rc ii) < r_bottom (si_rc ii) \<and> r_bottom (si_rc ii) \<le> si_h ii \<and>
     (\<forall>strip. si_dib ii = Some strip \<longrightarrow> int (length strip) = 4 * (si_w ii * si_h ii))"

text \<open>Which pixel of the strip, counted from its first byte, the icon shows at \<open>(dy, dx)\<close>.\<close>

definition shown_at :: "strip_info \<Rightarrow> nat \<Rightarrow> nat \<Rightarrow> nat \<Rightarrow> int" where
  "shown_at ii sz dy dx =
     (si_h ii - 1 - sample (r_top (si_rc ii)) (r_bottom (si_rc ii) - r_top (si_rc ii)) (int dy) (int sz)) * si_w ii +
     sample (r_left (si_rc ii)) (r_right (si_rc ii) - r_left (si_rc ii)) (int dx) (int sz)"

lemma shown_at_range:
  assumes "strip_ok ii" and "dy < sz" and "dx < sz"
  shows "0 \<le> shown_at ii sz dy dx \<and> shown_at ii sz dy dx < si_w ii * si_h ii"
proof -
  define y where "y = sample (r_top (si_rc ii)) (r_bottom (si_rc ii) - r_top (si_rc ii)) (int dy) (int sz)"
  define x where "x = sample (r_left (si_rc ii)) (r_right (si_rc ii) - r_left (si_rc ii)) (int dx) (int sz)"
  have "r_top (si_rc ii) \<le> y \<and> y < r_top (si_rc ii) + (r_bottom (si_rc ii) - r_top (si_rc ii))"
    unfolding y_def using assms by (intro sample_range) (auto simp: strip_ok_def)
  moreover have "r_left (si_rc ii) \<le> x \<and> x < r_left (si_rc ii) + (r_right (si_rc ii) - r_left (si_rc ii))"
    unfolding x_def using assms by (intro sample_range) (auto simp: strip_ok_def)
  ultimately have y: "0 \<le> si_h ii - 1 - y" "si_h ii - 1 - y \<le> si_h ii - 1" and x: "0 \<le> x" "x < si_w ii"
    using assms(1) by (auto simp: strip_ok_def)
  have "(si_h ii - 1 - y) * si_w ii \<le> (si_h ii - 1) * si_w ii"
    using y x by (intro mult_right_mono) auto
  moreover have "0 \<le> (si_h ii - 1 - y) * si_w ii" using y x by simp
  ultimately show ?thesis using x unfolding shown_at_def y_def[symmetric] x_def[symmetric]
    by (simp add: algebra_simps)
qed

lemma strip_pixel_ok:
  assumes "strip_ok ii" and "si_dib ii = Some strip" and "dy < sz" and "dx < sz"
  shows "strip_pixel ii strip sz (dy, dx) = Some (unpremul_px (quad strip (nat (shown_at ii sz dy dx))))"
proof -
  define k where "k = nat (shown_at ii sz dy dx)"
  have k: "shown_at ii sz dy dx = int k" and b: "4 * k + 4 \<le> length strip"
    using shown_at_range[OF assms(1,3,4)] assms(1,2) by (auto simp: k_def strip_ok_def)
  have "strip_pixel ii strip sz (dy, dx) = (if 0 \<le> shown_at ii sz dy dx * 4 \<and>
      nat (shown_at ii sz dy dx * 4) + 4 \<le> length strip
      then Some (unpremul_px (quad (drop (nat (shown_at ii sz dy dx * 4)) strip) 0)) else None)"
    by (simp add: strip_pixel_def shown_at_def Let_def)
  also have "nat (shown_at ii sz dy dx * 4) = 4 * k" by (simp add: k nat_mult_distrib)
  finally show ?thesis using b quad_drop[of k 0 strip] by (simp add: k k_def[symmetric])
qed

lemma FromImageList_ok:
  assumes "strip_ok ii" and "si_dib ii = Some strip"
  shows "FromImageList (Some ii) sz = Some \<lparr>ic_w = sz, ic_h = sz, ic_bgra = concat (map quad_bytes
     (map (\<lambda>(dy, dx). unpremul_px (quad strip (nat (shown_at ii sz dy dx)))) (List.product [0..<sz] [0..<sz])))\<rparr>"
proof -
  have "0 < si_w ii" "0 < si_h ii" using assms(1) by (auto simp: strip_ok_def)
  moreover have "those (map (strip_pixel ii strip sz) (List.product [0..<sz] [0..<sz])) =
      Some (map (\<lambda>(dy, dx). unpremul_px (quad strip (nat (shown_at ii sz dy dx)))) (List.product [0..<sz] [0..<sz]))"
    by (rule those_map) (auto simp: strip_pixel_ok[OF assms])
  ultimately show ?thesis by (simp add: FromImageList_def assms(2))
qed

lemma nth_product_upt: "i < n \<Longrightarrow> j < m \<Longrightarrow> List.product [0..<n] [0..<m] ! (i * m + j) = (i, j)"
proof -
  assume "i < n" "j < m"
  then have "i * m + j < n * m"
    by (metis add_less_cancel_left less_le_trans mult_le_mono1 mult_Suc add.commute Suc_leI)
  then show ?thesis using \<open>i < n\<close> \<open>j < m\<close> by (simp add: product_nth)
qed

lemma FromImageList_pixel:
  assumes "strip_ok ii" and "si_dib ii = Some strip" and "FromImageList (Some ii) sz = Some p"
    and "dy < sz" and "dx < sz"
  shows "ic_w p = sz \<and> ic_h p = sz \<and> quad (ic_bgra p) (dy * sz + dx) =
     unpremul_px (quad strip (nat (shown_at ii sz dy dx)))"
proof -
  define qs where "qs = map (\<lambda>(dy, dx). unpremul_px (quad strip (nat (shown_at ii sz dy dx)))) (List.product [0..<sz] [0..<sz])"
  have "dy * sz + dx < sz * sz"
    using assms(4,5) by (metis add_less_cancel_left less_le_trans mult_le_mono1 mult_Suc add.commute Suc_leI)
  then have l: "dy * sz + dx < length qs" by (simp add: qs_def)
  have "p = \<lparr>ic_w = sz, ic_h = sz, ic_bgra = concat (map quad_bytes qs)\<rparr>"
    using assms(3) unfolding FromImageList_ok[OF assms(1,2)] qs_def by simp
  moreover have "qs ! (dy * sz + dx) = unpremul_px (quad strip (nat (shown_at ii sz dy dx)))"
    using l nth_product_upt[OF assms(4,5)] by (simp add: qs_def)
  ultimately show ?thesis using quad_concat[OF l] by simp
qed

text \<open>An opaque pixel keeps its colour, and a premultiplied one never exceeds its alpha.\<close>

lemma unat_byte_word [simp]: "unat (ucast (x :: u8) :: u32) = unat x"
  using unsigned_less[of x, where 'a = nat] by (simp add: unsigned_ucast_eq take_bit_nat_eq_self)

lemma channel_le: "unat (x :: u8) \<le> 255"
  using unsigned_less[of x, where 'a = nat] by simp

lemma unat_byte_of_small: "unat (x :: u32) \<le> 255 \<Longrightarrow> unat (ucast x :: u8) = unat x"
  by (simp add: unsigned_ucast_eq take_bit_nat_eq_self)

lemma byte_mult: "unat (x :: u32) \<le> 255 \<Longrightarrow> unat y \<le> 25500 \<Longrightarrow> unat (x * y) = unat x * unat y"
proof -
  assume "unat x \<le> 255" "unat y \<le> 25500"
  then have "unat x * unat y \<le> 255 * 25500" by (rule mult_le_mono)
  then show ?thesis by (intro unat_mult_small) simp
qed

lemma Unpremultiply_opaque: "Unpremultiply v 255 = v"
proof -
  have "unat ((ucast v :: u32) * 255) = unat v * 255"
    using channel_le[of v] by (subst byte_mult) simp_all
  then have "unat ((ucast v :: u32) * 255 div 255) = unat v" by (simp add: unat_div)
  then have "(ucast v :: u32) * 255 div 255 = ucast v" by (simp add: word_unat_eq_iff)
  moreover have "\<not> (255 :: u32) < ucast v" using channel_le[of v] by (simp add: word_less_nat_alt)
  moreover have "(ucast (ucast v :: u32) :: u8) = v"
    using channel_le[of v] by (simp add: word_unat_eq_iff unat_byte_of_small)
  ultimately show ?thesis by (simp add: Unpremultiply_def Let_def)
qed

lemma premul_px_opaque: "premul_px 100 (b, g, r, 255) = (b, g, r, 255)"
proof -
  have d: "(ucast (ucast v * 255 div 255 :: u32) :: u8) = v" for v :: u8
  proof -
    have "unat ((ucast v :: u32) * 255) = unat v * 255"
      using channel_le[of v] by (subst byte_mult) simp_all
    then have "unat ((ucast v :: u32) * 255 div 255) = unat v" by (simp add: unat_div)
    then show ?thesis using channel_le[of v] by (simp add: word_unat_eq_iff unat_byte_of_small)
  qed
  show ?thesis by (simp add: premul_px_def d)
qed

lemma unpremul_px_opaque: "unpremul_px (b, g, r, 255) = (b, g, r, 255)"
  by (simp add: Unpremultiply_opaque)

text \<open>One channel of a greyed icon: between the grey value and the background, rounded down.\<close>

lemma grey_mix:
  assumes a: "a \<le> 255" and op: "op \<le> 100" and lo: "lo \<le> s" "lo \<le> b" and up: "s \<le> up" "b \<le> (up :: nat)"
  shows "lo \<le> (s * (a * op) + b * (25500 - a * op)) div 25500 \<and>
    (s * (a * op) + b * (25500 - a * op)) div 25500 \<le> up"
proof -
  have w: "a * op \<le> 25500" using mult_le_mono[OF a op] by simp
  have "lo * (a * op) + lo * (25500 - a * op) \<le> s * (a * op) + b * (25500 - a * op)"
    "s * (a * op) + b * (25500 - a * op) \<le> up * (a * op) + up * (25500 - a * op)"
    using lo up by (auto intro!: add_mono mult_right_mono)
  moreover have "lo * (a * op) + lo * (25500 - a * op) = lo * 25500"
    "up * (a * op) + up * (25500 - a * op) = up * 25500"
    using w by (simp_all flip: distrib_left)
  ultimately show ?thesis
    by (metis div_le_mono div_mult_self_is_m zero_less_numeral)
qed

lemma disabled_channel:
  assumes op: "unat op \<le> 100" and bg: "unat bg \<le> 255"
    and lo: "lo \<le> unat s" "lo \<le> unat bg" and up: "unat s \<le> up" "unat bg \<le> up" "up \<le> 255"
  shows "lo \<le> unat (ucast ((ucast (s :: u8) * (ucast (a :: u8) * op) + bg * (25500 - ucast a * op)) div 25500 :: u32) :: u8) \<and>
    unat (ucast ((ucast s * (ucast a * op) + bg * (25500 - ucast a * op)) div 25500 :: u32) :: u8) \<le> up"
proof -
  define A where "A = (ucast a :: u32) * op"
  have A: "unat A = unat a * unat op"
    unfolding A_def using op channel_le[of a] by (subst byte_mult) simp_all
  have w: "unat A \<le> 25500" unfolding A using mult_le_mono[OF channel_le[of a] op] by simp
  have i: "unat (25500 - A) = 25500 - unat A" using w by (simp add: unat_sub word_le_nat_alt)
  have p: "unat (ucast s * A :: u32) = unat s * unat A" "unat (bg * (25500 - A)) = unat bg * (25500 - unat A)"
    using channel_le[of s] bg w i by (simp_all add: byte_mult)
  have "unat s * unat A \<le> 255 * 25500" "unat bg * (25500 - unat A) \<le> 255 * 25500"
    using channel_le[of s] bg w by (intro mult_le_mono; simp)+
  then have "unat (ucast s * A + bg * (25500 - A) :: u32) = unat s * unat A + unat bg * (25500 - unat A)"
    by (subst unat_add_small) (simp_all add: p)
  then have v: "unat ((ucast s * A + bg * (25500 - A)) div 25500 :: u32) =
      (unat s * (unat a * unat op) + unat bg * (25500 - unat a * unat op)) div 25500"
    by (simp add: unat_div A)
  have "lo \<le> unat ((ucast s * A + bg * (25500 - A)) div 25500 :: u32) \<and>
      unat ((ucast s * A + bg * (25500 - A)) div 25500 :: u32) \<le> up"
    unfolding v using channel_le op lo up by (intro grey_mix) auto
  then show ?thesis using up(3) unfolding A_def[symmetric]
    by (simp add: unat_byte_of_small)
qed

text \<open>
  Every pixel of a greyed icon is opaque, and each of its channels lies between the grey value
  of the icon's pixel and the background's channel.
\<close>

lemma disabled_px_between:
  assumes op: "unat op \<le> 100" and bg: "unat bgR \<le> 255" "unat bgG \<le> 255" "unat bgB \<le> 255"
  shows "case disabled_px op (bgR, bgG, bgB) (b, g, r, a) of (b', g', r', a') \<Rightarrow>
    a' = 255 \<and> (\<forall>(bg, c) \<in> {(bgB, b'), (bgG, g'), (bgR, r')}.
      min (unat (luminance b g r)) (unat bg) \<le> unat c \<and> unat c \<le> max (unat (luminance b g r)) (unat bg))"
  using disabled_channel[OF op bg(1), of "min (unat (luminance b g r)) (unat bgR)" "luminance b g r" "max (unat (luminance b g r)) (unat bgR)" a]
    disabled_channel[OF op bg(2), of "min (unat (luminance b g r)) (unat bgG)" "luminance b g r" "max (unat (luminance b g r)) (unat bgG)" a]
    disabled_channel[OF op bg(3), of "min (unat (luminance b g r)) (unat bgB)" "luminance b g r" "max (unat (luminance b g r)) (unat bgB)" a]
    channel_le[of "luminance b g r"] bg
  by (simp add: disabled_px_def Let_def)

text \<open>A fully transparent pixel shows the background.\<close>

lemma disabled_px_transparent:
  "unat bgR \<le> 255 \<Longrightarrow> unat bgG \<le> 255 \<Longrightarrow> unat bgB \<le> 255 \<Longrightarrow>
    disabled_px op (bgR, bgG, bgB) (b, g, r, 0) = (ucast bgB, ucast bgG, ucast bgR, 255)"
proof -
  have d: "bg * 25500 div 25500 = bg" if "unat bg \<le> 255" for bg :: u32
  proof -
    have "unat (bg * 25500) = unat bg * 25500" using that by (subst byte_mult) simp_all
    then have "unat (bg * 25500 div 25500) = unat bg" by (simp add: unat_div)
    then show ?thesis by (simp add: word_unat_eq_iff)
  qed
  assume "unat bgR \<le> 255" "unat bgG \<le> 255" "unat bgB \<le> 255"
  then show ?thesis by (simp add: disabled_px_def d)
qed

section \<open>Handles alive\<close>

text \<open>
  No handle was destroyed twice and nothing was read outside; the image lists, bitmaps and icons
  alive are the given ones, without repetition and numbered below the next handle.
\<close>

definition gdi_has :: "nat list \<Rightarrow> nat list \<Rightarrow> nat list \<Rightarrow> gdi \<Rightarrow> bool" where
  "gdi_has own B I g \<longleftrightarrow> \<not> g_fault g \<and> g_blocks g = 0 \<and>
     mset (map fst (g_lists g)) = mset own \<and> distinct own \<and> (\<forall>h\<in>set own. h < g_next g) \<and>
     map fst (g_bmps g) = B \<and> distinct B \<and> (\<forall>h\<in>set B. h < g_next g) \<and>
     g_icons g = I \<and> distinct I \<and> (\<forall>h\<in>set I. h < g_next g)"

definition opt_list :: "'a option \<Rightarrow> 'a list" where
  "opt_list x = (case x of None \<Rightarrow> [] | Some a \<Rightarrow> [a])"

lemma opt_list_simps [simp]: "opt_list None = []" "opt_list (Some a) = [a]"
  by (simp_all add: opt_list_def)

lemma mem_lists: "gdi_has own B I g \<Longrightarrow> fst ` set (g_lists g) = set own"
  unfolding gdi_has_def by (metis set_map set_mset_mset)

lemma less_SucI_ball: "\<forall>h\<in>S. h < n \<Longrightarrow> \<forall>h\<in>S. h < Suc (n :: nat)"
  by auto

lemma has_ImageList_Create: "gdi_has own B I g \<Longrightarrow>
    case ImageList_Create mk g of (r, g') \<Rightarrow> gdi_has (opt_list r @ own) B I g'"
  by (auto simp: ImageList_Create_def gdi_has_def less_SucI)

lemma has_new_bitmap: "gdi_has own B I g \<Longrightarrow>
    case new_bitmap_handle mk bits g of (r, g') \<Rightarrow> gdi_has own (opt_list r @ B) I g'"
  by (auto simp: new_bitmap_handle_def gdi_has_def less_SucI split: option.splits)

lemma has_new_icon: "gdi_has own B I g \<Longrightarrow>
    case new_icon_handle mk g of (r, g') \<Rightarrow> gdi_has own B (opt_list r @ I) g'"
  by (auto simp: new_icon_handle_def gdi_has_def less_SucI)

lemma has_ImageList_Add: "gdi_has own B I g \<Longrightarrow> h \<in> set own \<Longrightarrow> gdi_has own B I (ImageList_Add h e g)"
  using mem_lists[of own B I g]
  by (simp add: ImageList_Add_def gdi_has_def comp_def split_def)

lemma filter_fst: "map fst (filter (\<lambda>e. fst e \<noteq> h) xs) = filter (\<lambda>k. k \<noteq> h) (map fst xs)"
  by (induction xs) auto

lemma has_ImageList_Destroy: "gdi_has own B I g \<Longrightarrow> h \<in> set own \<Longrightarrow>
    gdi_has (filter (\<lambda>k. k \<noteq> h) own) B I (ImageList_Destroy h g)"
  using mem_lists[of own B I g]
  by (simp add: ImageList_Destroy_def gdi_has_def filter_fst mset_filter)

lemma has_DeleteBitmap: "gdi_has own B I g \<Longrightarrow> h \<in> set B \<Longrightarrow>
    gdi_has own (filter (\<lambda>k. k \<noteq> h) B) I (DeleteBitmap h g)"
  by (auto simp: DeleteBitmap_def gdi_has_def filter_fst)

lemma has_DestroyIcon: "gdi_has own B I g \<Longrightarrow> h \<in> set I \<Longrightarrow> gdi_has own B (remove1 h I) (DestroyIcon h g)"
  by (auto simp: DestroyIcon_def gdi_has_def dest: notin_set_remove1)

lemma has_LoadShell32Icon: "gdi_has own B I g \<Longrightarrow>
    case LoadShell32Icon mk g of (r, g') \<Rightarrow> gdi_has own B (opt_list r @ I) g'"
proof -
  assume g: "gdi_has own B I g"
  obtain r g1 where 1: "new_icon_handle mk g = (r, g1)" by fastforce
  have h1: "gdi_has own B (opt_list r @ I) g1" using has_new_icon[OF g, of mk] 1 by simp
  show ?thesis
  proof (cases r)
    case None
    then show ?thesis using 1 h1 by (simp add: LoadShell32Icon_def)
  next
    case (Some x)
    obtain s g2 where 2: "new_icon_handle mk g1 = (s, g2)" by fastforce
    have h2: "gdi_has own B (opt_list s @ x # I) g2" using has_new_icon[OF h1, of mk] 2 Some by simp
    then have "x \<notin> set (opt_list s)" by (auto simp: gdi_has_def)
    then have "remove1 x (opt_list s @ x # I) = opt_list s @ I" by (simp add: remove1_append)
    then show ?thesis using has_DestroyIcon[OF h2, of x] 1 2 Some by (simp add: LoadShell32Icon_def)
  qed
qed

text \<open>What Windows and GDI+ promise of the memory they describe.\<close>

definition locked_ok :: "locked \<Rightarrow> nat \<Rightarrow> nat \<Rightarrow> bool" where
  "locked_ok l w h \<longleftrightarrow> (\<forall>y<h. gdi_copy_row l w h y \<noteq> None)"

definition png_ok :: "png_env \<Rightarrow> bool" where
  "png_ok e \<longleftrightarrow> (\<forall>r bs w h l. pe_data e r = Some bs \<longrightarrow> pe_decode e bs = Some (w, h, Some l) \<longrightarrow> locked_ok l w h)"

definition env_reads_ok :: "dpi_env \<Rightarrow> bool" where
  "env_reads_ok e \<longleftrightarrow> png_ok (de_png e) \<and> (\<forall>ii. de_info e = Some ii \<longrightarrow> strip_ok ii)"

lemma those_Some_iff: "those xs \<noteq> None \<longleftrightarrow> None \<notin> set xs"
  by (induction xs) (auto split: option.splits)

lemma FromGdiBitmap_ok: "locked_ok l w h \<Longrightarrow> FromGdiBitmap (Some (w, h, Some l)) \<noteq> None"
  using those_Some_iff[of "map (gdi_copy_row l w h) [0..<h]"]
  by (auto simp: FromGdiBitmap_def locked_ok_def)

lemma FromImageList_reads: "(\<forall>ii. info = Some ii \<longrightarrow> strip_ok ii) \<Longrightarrow> FromImageList info sz \<noteq> None"
proof (cases info)
  case (Some ii)
  assume "\<forall>ii. info = Some ii \<longrightarrow> strip_ok ii"
  then have ok: "strip_ok ii" using Some by simp
  show ?thesis
  proof (cases "si_dib ii")
    case None
    then show ?thesis by (simp add: FromImageList_def Some)
  next
    case (Some strip)
    then show ?thesis using FromImageList_ok[OF ok Some] \<open>info = Some ii\<close> by simp
  qed
qed (simp add: FromImageList_def)

lemma decode_strip_frame:
  assumes "png_ok e"
  shows "snd (decode_strip e r g) = g"
proof -
  have f: "FromGdiBitmap (Some b) \<noteq> None" if "pe_data e r = Some bs" "pe_decode e bs = Some b" for bs b
  proof (cases b)
    case (fields w h lo)
    show ?thesis
    proof (cases lo)
      case None
      then show ?thesis by (simp add: fields FromGdiBitmap_def)
    next
      case (Some l)
      then show ?thesis using that assms FromGdiBitmap_ok[of l w h] by (auto simp: fields png_ok_def)
    qed
  qed
  show ?thesis
  proof (cases "pe_data e r")
    case (Some bs)
    show ?thesis
    proof (cases "pe_decode e bs")
      case None
      then show ?thesis by (simp add: decode_strip_def Some Let_def)
    next
      case (Some b)
      then show ?thesis using f[OF \<open>pe_data e r = Some bs\<close> Some] \<open>pe_data e r = Some bs\<close>
        by (auto simp: decode_strip_def Let_def)
    qed
  qed (simp add: decode_strip_def)
qed


text \<open>A bitmap that is only made to be added to a list it is added to.\<close>

lemma has_add_and_delete:
  assumes "gdi_has own (b # B) I g" and "h \<in> set own"
  shows "gdi_has own B I (DeleteBitmap b (ImageList_Add h e g))"
proof -
  have "b \<notin> set B" using assms(1) by (simp add: gdi_has_def)
  then have "filter (\<lambda>k. k \<noteq> b) (b # B) = B" by (simp add: filter_id_conv) blast
  then show ?thesis using has_DeleteBitmap[OF has_ImageList_Add[OF assms], of b] by simp
qed

lemma has_delete: "gdi_has own (b # B) I g \<Longrightarrow> gdi_has own B I (DeleteBitmap b g)"
proof -
  assume g: "gdi_has own (b # B) I g"
  then have "b \<notin> set B" by (simp add: gdi_has_def)
  then have "filter (\<lambda>k. k \<noteq> b) (b # B) = B" by (simp add: filter_id_conv) blast
  then show ?thesis using has_DeleteBitmap[OF g, of b] by simp
qed

text \<open>A bitmap becomes the first image of a new list, or is given up with it.\<close>

definition list_of_bitmap :: "(nat \<Rightarrow> bool) \<Rightarrow> nat \<Rightarrow> gdi \<Rightarrow> nat option \<times> gdi" where
  "list_of_bitmap mk b g =
     (case ImageList_Create mk g of
        (None, g1) \<Rightarrow> (None, DeleteBitmap b g1)
      | (Some l, g1) \<Rightarrow> (Some l, DeleteBitmap b (ImageList_Add l (Bmp (bitmap_bits g1 b)) g1)))"

lemma has_list_of_bitmap:
  assumes "gdi_has own (b # B) I g" and "list_of_bitmap mk b g = (r, g')"
  shows "gdi_has (opt_list r @ own) B I g'"
proof -
  obtain l g1 where c: "ImageList_Create mk g = (l, g1)" by fastforce
  have h: "gdi_has (opt_list l @ own) (b # B) I g1" using has_ImageList_Create[OF assms(1), of mk] c by simp
  show ?thesis using assms(2) h has_delete[of own b B I g1]
      has_add_and_delete[of "opt_list l @ own" b B I g1 "the l"]
    by (cases l) (auto simp: list_of_bitmap_def c)
qed

lemma LoadPngStrip_steps:
  "LoadPngStrip mk e r g =
     (case decode_strip e r g of
        (None, g1) \<Rightarrow> (None, None, g1)
      | (Some pixels, g1) \<Rightarrow>
          case new_bitmap_handle mk (ToPremultipliedBitmap pixels 100) g1 of (n, g2) \<Rightarrow>
          case new_bitmap_handle mk (ToDisabledBitmap pixels 40 (pe_face e)) g2 of (d, g3) \<Rightarrow>
          case (case d of None \<Rightarrow> (None, g3) | Some d \<Rightarrow> list_of_bitmap mk d g3) of (ld, g5) \<Rightarrow>
          (case n of None \<Rightarrow> (None, ld, g5)
           | Some n \<Rightarrow> case list_of_bitmap mk n g5 of (lx, g6) \<Rightarrow> (lx, ld, g6)))"
  by (simp add: LoadPngStrip_def list_of_bitmap_def split: option.splits prod.splits)

lemma has_LoadPngStrip:
  assumes "png_ok e" and g: "gdi_has own [] [] g" and s: "LoadPngStrip mk e r g = (n, d, g')"
  shows "gdi_has (opt_list n @ opt_list d @ own) [] [] g'"
proof (cases "fst (decode_strip e r g)")
  case None
  then have "LoadPngStrip mk e r g = (None, None, g)"
    using decode_strip_frame[OF assms(1), of r g] by (cases "decode_strip e r g") (simp add: LoadPngStrip_def)
  then show ?thesis using g s by simp
next
  case (Some pixels)
  then have dec: "decode_strip e r g = (Some pixels, g)"
    using decode_strip_frame[OF assms(1), of r g] by (metis prod.collapse)
  obtain bn g2 where 1: "new_bitmap_handle mk (ToPremultipliedBitmap pixels 100) g = (bn, g2)" by fastforce
  obtain bd g3 where 2: "new_bitmap_handle mk (ToDisabledBitmap pixels 40 (pe_face e)) g2 = (bd, g3)" by fastforce
  obtain ld g5 where 3: "(case bd of None \<Rightarrow> (None, g3) | Some d \<Rightarrow> list_of_bitmap mk d g3) = (ld, g5)" by fastforce
  have "gdi_has own (opt_list bn) [] g2" using has_new_bitmap[OF g, of mk "ToPremultipliedBitmap pixels 100"] 1 by simp
  then have "gdi_has own (opt_list bd @ opt_list bn) [] g3"
    using has_new_bitmap[of own _ _ g2 mk "ToDisabledBitmap pixels 40 (pe_face e)"] 2 by fastforce
  then have h5: "gdi_has (opt_list ld @ own) (opt_list bn) [] g5"
    using 3 has_list_of_bitmap by (cases bd) fastforce+
  show ?thesis
  proof (cases bn)
    case None
    then show ?thesis using s h5 by (simp add: LoadPngStrip_steps dec 1 2 3)
  next
    case (Some b)
    obtain lx g6 where 4: "list_of_bitmap mk b g5 = (lx, g6)" by fastforce
    have "gdi_has (opt_list lx @ opt_list ld @ own) [] [] g6"
      using has_list_of_bitmap[OF _ 4, of "opt_list ld @ own" "[]" "[]"] h5 Some by simp
    then show ?thesis using s by (simp add: LoadPngStrip_steps dec 1 2 3 Some 4)
  qed
qed

lemma has_append_save_icon:
  assumes e: "env_reads_ok e" and g: "gdi_has own [] [] g" and n: "n \<in> set own"
    and d: "\<forall>h. d = Some h \<longrightarrow> h \<in> set own"
  shows "gdi_has own [] [] (append_save_icon mk e sz n d g)"
proof -
  obtain s g1 where 1: "LoadShell32Icon mk g = (s, g1)" by fastforce
  have h1: "gdi_has own [] (opt_list s) g1" using has_LoadShell32Icon[OF g, of mk] 1 by simp
  show ?thesis
  proof (cases s)
    case None
    then show ?thesis using h1 1 by (simp add: append_save_icon_def)
  next
    case (Some ico)
    define g2 where "g2 = (if de_added e then ImageList_Add n (Ico ico) g1 else g1)"
    have h2: "gdi_has own [] [ico] g2" using h1 has_ImageList_Add[OF _ n] Some by (simp add: g2_def)
    obtain pixels where px: "FromImageList (de_info e) sz = Some pixels"
      using e FromImageList_reads[of "de_info e" sz] by (auto simp: env_reads_ok_def)
    define r where "r = (if de_added e
      then new_bitmap_handle mk (ToDisabledBitmap pixels 40 (pe_face (de_png e))) g2 else (None, g2))"
    define g3 where "g3 = (case d of None \<Rightarrow> g2
      | Some d \<Rightarrow> case r of (None, g') \<Rightarrow> ImageList_Add d (Ico ico) g'
          | (Some b, g') \<Rightarrow> DeleteBitmap b (ImageList_Add d (Bmp (bitmap_bits g' b)) g'))"
    have app: "append_save_icon mk e sz n d g = DestroyIcon ico g3"
      by (cases d; cases "de_added e") (simp_all add: append_save_icon_def 1 Some Let_def g2_def r_def g3_def px)
    have hr: "gdi_has own (opt_list (fst r)) [ico] (snd r)"
      using h2 has_new_bitmap[OF h2, of mk "ToDisabledBitmap pixels 40 (pe_face (de_png e))"]
      by (auto simp: r_def split: prod.splits)
    have "gdi_has own [] [ico] g3"
    proof (cases d)
      case None
      then show ?thesis using h2 by (simp add: g3_def)
    next
      case (Some h)
      then have "h \<in> set own" using d by simp
      then show ?thesis using hr has_ImageList_Add has_add_and_delete
        by (cases r; cases "fst r") (auto simp: g3_def Some)
    qed
    then show ?thesis using has_DestroyIcon[of own "[]" "[ico]" g3 ico] by (simp add: app)
  qed
qed

text \<open>The tool bar between two operations, and what it does to the lists.\<close>

definition toolbar_ok :: "toolbar \<times> gdi \<Rightarrow> bool" where
  "toolbar_ok = (\<lambda>(t, g). gdi_has (opt_list (tb_himl t) @ opt_list (tb_himlDis t)) [] [] g \<and>
     tb_shown t = tb_himl t)"

lemma filter_opt: "h \<notin> set xs \<Longrightarrow> filter (\<lambda>k. k \<noteq> h) xs = xs"
  by (auto simp: filter_id_conv)

lemma has_destroy_if:
  assumes "gdi_has (xs @ opt_list h @ ys) B I g"
  shows "gdi_has (xs @ ys) B I (destroy_if h g)"
proof (cases h)
  case (Some x)
  then have "x \<notin> set xs" "x \<notin> set ys" using assms by (auto simp: gdi_has_def)
  then show ?thesis using has_ImageList_Destroy[OF assms, of x] Some
    by (simp add: destroy_if_def filter_opt)
qed (use assms in \<open>simp add: destroy_if_def\<close>)

lemma UpdateDpi_ok:
  assumes "env_reads_ok e" and "toolbar_ok (t, g)"
  shows "toolbar_ok (UpdateDpi mk e (t, g))"
proof (cases "tb_hwnd t")
  case True
  obtain resId sz where tier: "SelectDpiTier (de_dpi e) = (resId, sz)" by fastforce
  obtain n d g1 where l: "LoadPngStrip mk (de_png e) resId g = (n, d, g1)" by (cases "LoadPngStrip mk (de_png e) resId g") auto
  define own where "own = opt_list (tb_himl t) @ opt_list (tb_himlDis t)"
  have h: "gdi_has (opt_list n @ opt_list d @ own) [] [] g1"
    using has_LoadPngStrip[OF _ _ l] assms by (simp add: env_reads_ok_def toolbar_ok_def own_def)
  define g2 where "g2 = (case n of None \<Rightarrow> g1 | Some h \<Rightarrow> append_save_icon mk e sz h d g1)"
  have "gdi_has (opt_list n @ opt_list d @ own) [] [] g2"
    using h has_append_save_icon[OF assms(1) h] by (cases n) (auto simp: g2_def)
  then have "gdi_has ((opt_list n @ opt_list d) @ opt_list (tb_himlDis t)) [] [] (destroy_if (tb_himl t) g2)"
    using has_destroy_if[of "opt_list n @ opt_list d" "tb_himl t" "opt_list (tb_himlDis t)"] by (simp add: own_def)
  then have "gdi_has (opt_list n @ opt_list d) [] [] (destroy_if (tb_himlDis t) (destroy_if (tb_himl t) g2))"
    using has_destroy_if[of "opt_list n @ opt_list d" "tb_himlDis t" "[]"] by simp
  then show ?thesis using assms(2) True
    by (cases "tb_himl t"; cases n) (auto simp: UpdateDpi_def tier l Let_def g2_def toolbar_ok_def)
qed (use assms in \<open>simp add: UpdateDpi_def\<close>)

text \<open>Any number of DPI changes, each with its own outcome of every call.\<close>

definition dpi_changes :: "((nat \<Rightarrow> bool) \<times> dpi_env) list \<Rightarrow> toolbar \<times> gdi \<Rightarrow> toolbar \<times> gdi" where
  "dpi_changes es tg = foldl (\<lambda>tg (mk, e). UpdateDpi mk e tg) tg es"

lemma dpi_changes_ok: "\<forall>(mk, e)\<in>set es. env_reads_ok e \<Longrightarrow> toolbar_ok tg \<Longrightarrow> toolbar_ok (dpi_changes es tg)"
  unfolding dpi_changes_def
proof (induction es arbitrary: tg)
  case (Cons x es)
  then show ?case using UpdateDpi_ok[of "snd x" "fst tg" "snd tg" "fst x"] by (cases x) simp
qed simp

definition no_gdi :: gdi where
  "no_gdi = \<lparr>g_next = 0, g_lists = [], g_bmps = [], g_icons = [], g_blocks = 0, g_fault = False\<rparr>"

lemma toolbar_Create_ok:
  assumes "env_reads_ok e" and "toolbar_Create mk band ctl e no_gdi = (r, tg)"
  shows "toolbar_ok tg"
proof -
  have n: "toolbar_ok (new_toolbar\<lparr>tb_hwnd := h\<rparr>, no_gdi)" for h
    by (simp add: toolbar_ok_def new_toolbar_def no_gdi_def gdi_has_def)
  moreover have "new_toolbar\<lparr>tb_hwnd := False\<rparr> = new_toolbar" by (simp add: new_toolbar_def)
  ultimately have "toolbar_ok (new_toolbar, no_gdi)" by metis
  then show ?thesis using assms(2) UpdateDpi_ok[OF assms(1) n[of True], of mk]
    by (auto simp: toolbar_Create_def split: if_splits)
qed

lemma toolbar_lists_alive:
  assumes "env_reads_ok e" and "\<forall>(mk, e)\<in>set es. env_reads_ok e"
    and "toolbar_Create mk band ctl e no_gdi = (r, tg)" and "dpi_changes es tg = (t, g)"
  shows "\<not> g_fault g \<and> mset (map fst (g_lists g)) = mset (opt_list (tb_himl t) @ opt_list (tb_himlDis t)) \<and>
     tb_shown t = tb_himl t \<and> g_bmps g = [] \<and> g_icons g = [] \<and> g_blocks g = 0 \<and>
     no_handles (destroy_toolbar (t, g)) \<and> \<not> g_fault (destroy_toolbar (t, g))"
proof -
  have ok: "toolbar_ok (t, g)"
    using dpi_changes_ok[OF assms(2) toolbar_Create_ok[OF assms(1,3)]] assms(4) by simp
  then have g: "gdi_has (opt_list (tb_himl t) @ opt_list (tb_himlDis t)) [] [] g" by (simp add: toolbar_ok_def)
  have "gdi_has ([] @ opt_list (tb_himlDis t) @ []) [] [] (destroy_if (tb_himl t) g)"
    using has_destroy_if[of "[]" "tb_himl t" "opt_list (tb_himlDis t)"] g by simp
  then have "gdi_has [] [] [] (destroy_toolbar (t, g))"
    using has_destroy_if by (fastforce simp: destroy_toolbar_def)
  then show ?thesis using ok g
    by (auto simp: toolbar_ok_def gdi_has_def no_handles_def)
qed

text \<open>
  Which greyed list the control shows.  A change without a new greyed list leaves what was shown
  when there was no normal list to take down.
\<close>

lemma UpdateDpi_dis: "UpdateDpi mk e (t, g) = (t', g') \<Longrightarrow>
    t' = t \<or> tb_shownDis t' = tb_himlDis t' \<or>
    tb_himlDis t' = None \<and> tb_himl t = None \<and> tb_shownDis t' = tb_shownDis t"
  by (auto simp: UpdateDpi_def Let_def split: if_splits prod.splits option.splits)

definition left_over :: "((nat \<Rightarrow> bool) \<times> dpi_env) list \<Rightarrow> toolbar \<times> gdi \<Rightarrow> nat \<Rightarrow> bool" where
  "left_over es tg x \<longleftrightarrow> (\<exists>k<length es. tb_himl (fst (dpi_changes (take k es) tg)) = None \<and>
     tb_himlDis (fst (dpi_changes (take k es) tg)) = Some x)"

lemma dpi_changes_dis:
  assumes "tb_shownDis (fst tg) = tb_himlDis (fst tg)"
  shows "tb_shownDis (fst (dpi_changes es tg)) = tb_himlDis (fst (dpi_changes es tg)) \<or>
    tb_himlDis (fst (dpi_changes es tg)) = None \<and>
    (\<exists>x. tb_shownDis (fst (dpi_changes es tg)) = Some x \<and> left_over es tg x)"
proof (induction es rule: rev_induct)
  case Nil
  then show ?case using assms by (simp add: dpi_changes_def)
next
  case (snoc p es)
  obtain mk e where p: "p = (mk, e)" by fastforce
  obtain t g where 0: "dpi_changes es tg = (t, g)" by fastforce
  obtain t' g' where 1: "UpdateDpi mk e (t, g) = (t', g')" by fastforce
  have d: "dpi_changes (es @ [p]) tg = (t', g')" using 0 1 p by (simp add: dpi_changes_def)
  have keep: "left_over (es @ [p]) tg x" if lo: "left_over es tg x" for x
  proof -
    obtain k where "k < length es" "tb_himl (fst (dpi_changes (take k es) tg)) = None"
      "tb_himlDis (fst (dpi_changes (take k es) tg)) = Some x"
      using lo unfolding left_over_def by blast
    then show ?thesis unfolding left_over_def by (intro exI[of _ k]) simp
  qed
  from UpdateDpi_dis[OF 1] show ?case
  proof (elim disjE conjE)
    assume "t' = t"
    then show ?thesis using snoc keep 0 d by auto
  next
    assume a: "tb_himlDis t' = None" "tb_himl t = None" "tb_shownDis t' = tb_shownDis t"
    show ?thesis
    proof (cases "tb_shownDis t = None")
      case True
      then show ?thesis using a d by simp
    next
      case False
      then obtain x where x: "tb_shownDis t = Some x" by blast
      have "left_over (es @ [p]) tg x"
      proof (cases "tb_himlDis t = Some x")
        case True
        then show ?thesis using a(2) 0 by (auto simp: left_over_def intro!: exI[of _ "length es"])
      next
        case False
        then show ?thesis using snoc keep 0 x by auto
      qed
      then show ?thesis using a x d by auto
    qed
  qed (simp add: d)
qed

lemma toolbar_Create_dis:
  "toolbar_Create mk band ctl e g = (r, tg) \<Longrightarrow> tb_shownDis (fst tg) = tb_himlDis (fst tg)"
  using UpdateDpi_dis[of mk e "new_toolbar\<lparr>tb_hwnd := True\<rparr>" g "fst tg" "snd tg"]
  by (auto simp: toolbar_Create_def new_toolbar_def split: if_splits)

text \<open>
  C33. Whatever fails of loading the strip, creating bitmaps, lists and icons, as long as the
  picture GDI+ locks and the image list entries Windows describes can be read where they are
  said to lie (\<open>env_reads_ok\<close>): after \<open>Create\<close> and any number of DPI changes the image lists
  alive are exactly the two the tool bar holds, no bitmap, icon or memory block is left over, the
  destructor leaves nothing alive, and none of these operations uses or destroys a handle after
  its destruction.  The control shows the normal list held; it also shows the greyed list held,
  with one exception: a greyed list that was held without a normal one at an earlier change can
  stay shown after it was destroyed, when there is no greyed list now
  (\<open>greyed_list_left_shown\<close>).
\<close>

theorem toolbar_owns_lists:
  assumes "env_reads_ok e" and "\<forall>(mk, e)\<in>set es. env_reads_ok e"
    and "toolbar_Create mk band ctl e no_gdi = (r, tg)" and "dpi_changes es tg = (t, g)"
  shows "\<not> g_fault g \<and> mset (map fst (g_lists g)) = mset (opt_list (tb_himl t) @ opt_list (tb_himlDis t)) \<and>
     tb_shown t = tb_himl t \<and>
     (tb_shownDis t = tb_himlDis t \<or> tb_himlDis t = None \<and>
       (\<exists>x k. tb_shownDis t = Some x \<and> k < length es \<and>
          tb_himl (fst (dpi_changes (take k es) tg)) = None \<and>
          tb_himlDis (fst (dpi_changes (take k es) tg)) = Some x)) \<and>
     g_bmps g = [] \<and> g_icons g = [] \<and> g_blocks g = 0 \<and>
     no_handles (destroy_toolbar (t, g)) \<and> \<not> g_fault (destroy_toolbar (t, g))"
  using toolbar_lists_alive[OF assms] dpi_changes_dis[OF toolbar_Create_dis[OF assms(3)], of es]
  unfolding assms(4) left_over_def fst_conv by blast

text \<open>A strip of one opaque red pixel; every handle can be created, and then only the first ones.\<close>

definition ex_locked :: locked where
  "ex_locked = \<lparr>lk_stride = 4, lk_mem = (\<lambda>i. if i = 0 \<or> i = 1 then Some 0 else if i = 2 \<or> i = 3 then Some 255 else None)\<rparr>"

definition ex_png :: png_env where
  "ex_png = \<lparr>pe_data = (\<lambda>r. Some [1]), pe_alloc = True, pe_stream = True,
     pe_decode = (\<lambda>bs. Some (1, 1, Some ex_locked)), pe_face = (240, 240, 240)\<rparr>"

definition ex_dpi :: "int \<Rightarrow> dpi_env" where
  "ex_dpi n = \<lparr>de_dpi = n, de_png = ex_png, de_added = True, de_info = None, de_height = 30\<rparr>"

lemma ex_copy_row: "gdi_copy_row ex_locked (Suc 0) (Suc 0) 0 = Some [0, 0, 255, 255]"
  by (simp add: gdi_copy_row_def gdi_row_def ex_locked_def upt_conv_Cons)

lemma ex_dpi_reads: "env_reads_ok (ex_dpi n)"
  by (simp add: env_reads_ok_def png_ok_def ex_dpi_def ex_png_def locked_ok_def ex_copy_row)

theorem toolbar_owns_lists_witness:
  "case toolbar_Create (\<lambda>n. True) True True (ex_dpi 96) no_gdi of (r, tg) \<Rightarrow>
   case dpi_changes [(\<lambda>n. n \<noteq> 9, ex_dpi 120)] tg of (t, g) \<Rightarrow>
     r \<and> \<not> g_fault g \<and> no_handles (destroy_toolbar (t, g))"
proof -
  obtain tg where c: "toolbar_Create (\<lambda>n. True) True True (ex_dpi 96) no_gdi = (True, tg)"
    by (simp add: toolbar_Create_def)
  obtain t g where d: "dpi_changes [(\<lambda>n. n \<noteq> 9, ex_dpi 120)] tg = (t, g)" by fastforce
  show ?thesis using toolbar_owns_lists[OF ex_dpi_reads _ c d] ex_dpi_reads by (simp add: c d)
qed

section \<open>Buttons, menus and icons\<close>

text \<open>
  A button and the menu item of the same command show the same image, and the menu asks for an
  image exactly where the main window expects one.
\<close>

lemma button_images: "(i, cmd, en, st) \<in> set button_table \<Longrightarrow> st \<noteq> BtnSep \<Longrightarrow> menu_icon_index cmd = Some i"
  by (auto simp: button_table_def menu_icon_index_def IMG_ZOOM_def IMG_SAVEAS_def id_defs)

lemma menu_icon_index_iff: "menu_icon_index cmd \<noteq> None \<longleftrightarrow> menu_image cmd"
  by (auto simp: menu_icon_index_def menu_image_def)

lemma menu_icon_index_bound: "menu_icon_index cmd = Some i \<Longrightarrow> i \<le> IMG_SAVEAS"
  by (auto simp: menu_icon_index_def IMG_ZOOM_def IMG_SAVEAS_def split: if_splits)

text \<open>
  A menu icon is cut out of the strip of images: whatever the sizes, every pixel is read
  inside the strip and within the image's rectangle there, an opaque strip gives its colours
  unchanged, and at the image's own size the icon is the image, the lowest row of the strip last.
\<close>

theorem menu_icon_from_strip:
  assumes "strip_ok ii" and "si_dib ii = Some strip" and "dy < sz" and "dx < sz"
  shows "\<exists>p. FromImageList (Some ii) sz = Some p \<and> ic_w p = sz \<and> ic_h p = sz \<and>
     0 \<le> shown_at ii sz dy dx \<and> shown_at ii sz dy dx < si_w ii * si_h ii \<and>
     quad (ic_bgra p) (dy * sz + dx) = unpremul_px (quad strip (nat (shown_at ii sz dy dx))) \<and>
     (\<forall>b g r. quad strip (nat (shown_at ii sz dy dx)) = (b, g, r, 255) \<longrightarrow>
        quad (ic_bgra p) (dy * sz + dx) = (b, g, r, 255)) \<and>
     (int sz = r_right (si_rc ii) - r_left (si_rc ii) \<and> int sz = r_bottom (si_rc ii) - r_top (si_rc ii) \<longrightarrow>
        shown_at ii sz dy dx =
          (si_h ii - 1 - (r_top (si_rc ii) + int dy)) * si_w ii + (r_left (si_rc ii) + int dx))"
proof -
  obtain p where p: "FromImageList (Some ii) sz = Some p"
    using FromImageList_ok[OF assms(1,2)] by simp
  have same: "shown_at ii sz dy dx = (si_h ii - 1 - (r_top (si_rc ii) + int dy)) * si_w ii + (r_left (si_rc ii) + int dx)"
    if "int sz = r_right (si_rc ii) - r_left (si_rc ii)" "int sz = r_bottom (si_rc ii) - r_top (si_rc ii)"
    unfolding shown_at_def that[symmetric] using assms(3,4) by (simp add: sample_same)
  show ?thesis
    using p same FromImageList_pixel[OF assms(1,2) p assms(3,4)] shown_at_range[OF assms(1,3,4)]
    by (intro exI[of _ p]) (simp add: unpremul_px_opaque del: unpremul_px.simps)
qed

definition ex_strip :: strip_info where
  "ex_strip = \<lparr>si_w = 2, si_h = 1, si_rc = mk_rect 1 0 2 1, si_dib = Some [1, 2, 3, 255, 4, 5, 6, 255]\<rparr>"

theorem menu_icon_from_strip_witness:
  "\<exists>p. FromImageList (Some ex_strip) 1 = Some p \<and> quad (ic_bgra p) 0 = (4, 5, 6, 255)"
proof -
  have ok: "strip_ok ex_strip" by (simp add: strip_ok_def ex_strip_def mk_rect_def)
  have at: "shown_at ex_strip 1 0 0 = 1"
    by (simp add: shown_at_def ex_strip_def mk_rect_def sample_def)
  have px: "quad [1, 2, 3, 255, 4, 5, 6, 255 :: u8] (nat 1) = (4, 5, 6, 255)" by (simp add: quad_def)
  show ?thesis
    using menu_icon_from_strip[OF ok, of "[1, 2, 3, 255, 4, 5, 6, 255]" 0 1 0] px
    unfolding at by (auto simp: ex_strip_def)
qed

text \<open>
  The greyed icon \<open>UpdateDpi\<close> adds: opaque everywhere, each channel between the icon's grey value
  and the button face.
\<close>

lemma disabled_icon_between:
  assumes "ToDisabledBitmap p op (bgR, bgG, bgB) = Some bits" and "i < ic_w p * ic_h p"
    and "unat op \<le> 100" and "unat bgR \<le> 255" and "unat bgG \<le> 255" and "unat bgB \<le> 255"
    and "quad (ic_bgra p) i = (b, g, r, a)"
  shows "case quad bits i of (b', g', r', a') \<Rightarrow>
    a' = 255 \<and> (\<forall>(bg, c) \<in> {(bgB, b'), (bgG, g'), (bgR, r')}.
      min (unat (luminance b g r)) (unat bg) \<le> unat c \<and> unat c \<le> max (unat (luminance b g r)) (unat bg))"
proof -
  have "bits = each_pixel (disabled_px op (bgR, bgG, bgB)) p"
    using assms(1) by (simp add: ToDisabledBitmap_def split: if_splits)
  then have "quad bits i = disabled_px op (bgR, bgG, bgB) (b, g, r, a)"
    using each_pixel_quad[OF assms(2)] assms(7) by simp
  then show ?thesis using disabled_px_between[OF assms(3-6), of b g r a] by simp
qed

text \<open>Only the bitmap that is handed out stays alive.\<close>

lemma GetShellMenuIcon_owned:
  assumes g: "gdi_has own B [] g" and info: "\<forall>ii. info = Some ii \<longrightarrow> strip_ok ii"
  shows "case GetShellMenuIcon mk added info sz g of (h, g') \<Rightarrow> gdi_has own (opt_list h @ B) [] g'"
proof -
  obtain ico g1 where 1: "LoadShell32Icon mk g = (ico, g1)" by fastforce
  have h1: "gdi_has own B (opt_list ico) g1" using has_LoadShell32Icon[OF g, of mk] 1 by simp
  show ?thesis
  proof (cases ico)
    case None
    then show ?thesis using h1 1 by (simp add: GetShellMenuIcon_def)
  next
    case (Some x)
    obtain l g2 where 2: "ImageList_Create mk g1 = (l, g2)" by fastforce
    have h2: "gdi_has (opt_list l @ own) B [x] g2" using has_ImageList_Create[OF h1, of mk] 2 Some by simp
    show ?thesis
    proof (cases l)
      case None
      then show ?thesis using h2 has_DestroyIcon[OF h2, of x] 1 2 Some by (simp add: GetShellMenuIcon_def)
    next
      case (Some k)
      obtain p where px: "FromImageList info sz = Some p" using FromImageList_reads[OF info] by blast
      define g4 where "g4 = DestroyIcon x (if added then ImageList_Add k (Ico x) g2 else g2)"
      obtain h g5 where 5: "(if added then new_bitmap_handle mk (ToPremultipliedBitmap p 100) g4 else (None, g4)) = (h, g5)"
        by fastforce
      have "gdi_has (k # own) B [x] (if added then ImageList_Add k (Ico x) g2 else g2)"
        using h2 has_ImageList_Add[of "k # own" B "[x]" g2 k] Some by simp
      then have h4: "gdi_has (k # own) B [] g4"
        using has_DestroyIcon[of "k # own" B "[x]" _ x] by (simp add: g4_def)
      have h5: "gdi_has (k # own) (opt_list h @ B) [] g5"
        using h4 5 has_new_bitmap[OF h4, of mk "ToPremultipliedBitmap p 100"] by (cases added) auto
      then have "k \<notin> set own" by (simp add: gdi_has_def)
      then have "gdi_has own (opt_list h @ B) [] (ImageList_Destroy k g5)"
        using has_ImageList_Destroy[OF h5, of k] by (simp add: filter_opt)
      moreover have "GetShellMenuIcon mk added info sz g = (h, ImageList_Destroy k g5)"
        using 5 unfolding g4_def
        by (cases added) (simp_all add: GetShellMenuIcon_def 1 \<open>ico = Some x\<close> 2 Some px Let_def)
      ultimately show ?thesis by simp
    qed
  qed
qed

text \<open>
  A bottom-up picture has a negative stride, and its first row is the one at \<open>Scan0\<close>; the code
  adds a multiple of the stride's size instead and reads past the end of the picture.
\<close>

lemma bottom_up_read_outside:
  assumes "lk_stride l = -4" and "\<forall>i. lk_mem l i \<noteq> None \<longrightarrow> i < 4"
  shows "FromGdiBitmap (Some (1, 2, Some l)) = None"
proof -
  have "lk_mem l 4 = None" using assms(2) by force
  then have "gdi_copy_row l 1 2 0 = None"
    using assms(1) by (simp add: gdi_copy_row_def gdi_row_def upt_conv_Cons)
  then show ?thesis by (simp add: FromGdiBitmap_def upt_conv_Cons)
qed

text \<open>
  The control is only told to forget both lists when the tool bar had a normal one: with a greyed
  list alone, whose successor cannot be made, it keeps a list that is destroyed.
\<close>

lemma greyed_list_left_shown:
  assumes "LoadPngStrip mk (de_png e) (fst (SelectDpiTier (de_dpi e))) g = (None, None, g1)"
  shows "tb_shownDis (fst (UpdateDpi mk e (new_toolbar\<lparr>tb_hwnd := True, tb_himlDis := Some d, tb_shownDis := Some d\<rparr>, g))) = Some d \<and>
    tb_himlDis (fst (UpdateDpi mk e (new_toolbar\<lparr>tb_hwnd := True, tb_himlDis := Some d, tb_shownDis := Some d\<rparr>, g))) = None"
  using assms by (cases "SelectDpiTier (de_dpi e)") (simp add: UpdateDpi_def new_toolbar_def Let_def)

text \<open>The hint part of the status bar takes at most its 200 pixels and at most half of the bar.\<close>

lemma hint_part_width:
  assumes "0 \<le> w" and "sb_hwnd s"
  shows "w - sb_part (sb_OnParentSize w s) = min 200 (w div 2)"
  using assms by (simp add: sb_OnParentSize_def sb_UpdateParts_def status_split_def sdiv_div min_def)

end
