(* ===== verification/App_Start.thy ===== *)
theory App_Start
  imports Tool_Bar
begin

text \<open>
  How the program starts and how window messages reach its objects: obZrv/main.cpp, App.cpp,
  WndBase.cpp and Menu.cpp, the creation of the main window and the dispatch of the messages in
  MainWnd.cpp, MainView.cpp, FileList.cpp and SlideShowDlg.cpp.  What Windows answers is an
  argument; a handler that only calls others is the list of its calls.
\<close>

section \<open>Windows and their objects\<close>

text \<open>
  Windows and objects are numbered: \<open>w_user\<close> is the pointer kept in \<open>GWLP_USERDATA\<close>, \<open>w_hwnd\<close>
  the member \<open>m_hwnd\<close> of an object.
\<close>

record windows =
  w_user :: "nat \<Rightarrow> nat option"
  w_hwnd :: "nat \<Rightarrow> nat option"

definition no_windows :: windows where
  "no_windows = \<lparr>w_user = (\<lambda>_. None), w_hwnd = (\<lambda>_. None)\<rparr>"

datatype wnd_msg = NcCreate nat | WndMsg nat

datatype route = ToObject nat | ToDefault

definition WndProcStatic :: "nat \<Rightarrow> wnd_msg \<Rightarrow> windows \<Rightarrow> route \<times> windows" where
  "WndProcStatic hwnd msg w =
     (let (self, w1) = (case msg of
            NcCreate this \<Rightarrow> (Some this, w\<lparr>w_user := (w_user w)(hwnd := Some this), w_hwnd := (w_hwnd w)(this := Some hwnd)\<rparr>)
          | WndMsg n \<Rightarrow> (w_user w hwnd, w))
      in (case self of Some this \<Rightarrow> ToObject this | None \<Rightarrow> ToDefault, w1))"

text \<open>The messages of all windows in the order they arrive, and where each of them goes.\<close>

fun wnd_run :: "(nat \<times> wnd_msg) list \<Rightarrow> windows \<Rightarrow> route list \<times> windows" where
  "wnd_run [] w = ([], w)"
| "wnd_run ((h, m) # ms) w =
     (case WndProcStatic h m w of (r, w1) \<Rightarrow> case wnd_run ms w1 of (rs, w2) \<Rightarrow> (r # rs, w2))"

text \<open>Destruction of the object: the window it still names, if any, is destroyed.\<close>

definition WndBase_destroy :: "nat \<Rightarrow> windows \<Rightarrow> nat option \<times> windows" where
  "WndBase_destroy this w = (w_hwnd w this, w\<lparr>w_hwnd := (w_hwnd w)(this := None)\<rparr>)"

section \<open>The menu\<close>

record menu_obj =
  mo_handle :: "nat option"
  mo_attached :: bool

definition new_menu :: menu_obj where
  "new_menu = \<lparr>mo_handle = None, mo_attached = False\<rparr>"

definition menu_Load :: "nat option \<Rightarrow> menu_obj \<Rightarrow> bool \<times> menu_obj" where
  "menu_Load loaded m = (loaded \<noteq> None, m\<lparr>mo_handle := loaded\<rparr>)"

definition menu_Attach :: "menu_obj \<Rightarrow> menu_obj" where
  "menu_Attach m = (if mo_handle m \<noteq> None then m\<lparr>mo_attached := True\<rparr> else m)"

datatype menu_call = CheckItem int bool | EnableItem int bool

definition menu_SetChecked :: "menu_obj \<Rightarrow> int \<Rightarrow> bool \<Rightarrow> menu_call list" where
  "menu_SetChecked m cmd checked = (if mo_handle m = None then [] else [CheckItem cmd checked])"

definition menu_EnableItem :: "menu_obj \<Rightarrow> int \<Rightarrow> bool \<Rightarrow> menu_call list" where
  "menu_EnableItem m cmd enable = (if mo_handle m = None then [] else [EnableItem cmd enable])"

definition menu_destroy :: "menu_obj \<Rightarrow> nat list" where
  "menu_destroy m = (case mo_handle m of None \<Rightarrow> [] | Some h \<Rightarrow> if mo_attached m then [] else [h])"

section \<open>Start and message loop\<close>

text \<open>
  One \<open>GetMessage\<close>: its result and the message it stores.  The loop ends at the first result that
  is not positive (0 for \<open>WM_QUIT\<close>, -1 for an error); \<open>None\<close>: the given messages are used up and
  the program still waits.  \<open>accel\<close>: the accelerator table, if it was loaded, takes the message.
\<close>

record loop_msg =
  lm_id :: nat
  lm_wParam :: int

datatype loop_call = TranslateAndDispatch loop_msg | Accelerator loop_msg

fun message_loop :: "(loop_msg \<Rightarrow> bool) option \<Rightarrow> (int \<times> loop_msg) list \<Rightarrow> (loop_call list \<times> int) option" where
  "message_loop accel [] = None"
| "message_loop accel ((ret, m) # ms) =
     (if ret > 0
      then map_option (\<lambda>(cs, r).
             ((case accel of None \<Rightarrow> TranslateAndDispatch m
               | Some takes \<Rightarrow> if takes m then Accelerator m else TranslateAndDispatch m) # cs, r))
           (message_loop accel ms)
      else Some ([], lm_wParam m))"

text \<open>What \<open>WinMain\<close> does, in its order; the object \<open>MainWnd\<close> lives within \<open>App::Run\<close>.\<close>

datatype app_event = EnableAwareness | InitControls | UpdateDpiFor "nat option" | GdiplusStart
  | MainCreate bool | OpenInitial wstr | Loop loop_call | DestroyAccel | MainDestroy | FreeArgs
  | GdiplusStop

definition app_Run :: "bool \<Rightarrow> (loop_msg \<Rightarrow> bool) option \<Rightarrow> wstr option \<Rightarrow> (int \<times> loop_msg) list \<Rightarrow>
    (app_event list \<times> int) option" where
  "app_Run created accel initPath ms =
     (if \<not> created then Some ([MainCreate False, MainDestroy], 1)
      else map_option (\<lambda>(cs, r).
             ([MainCreate True] @
              (case initPath of None \<Rightarrow> [] | Some p \<Rightarrow> if p \<noteq> [] then [OpenInitial p] else []) @
              map Loop cs @ (if accel = None then [] else [DestroyAccel]) @ [MainDestroy], r))
           (message_loop accel ms))"

definition init_path :: "wstr list option \<Rightarrow> wstr option" where
  "init_path argv = (case argv of None \<Rightarrow> None | Some vs \<Rightarrow> if length vs > 1 then Some (vs ! 1) else None)"

definition WinMain :: "wstr list option \<Rightarrow> bool \<Rightarrow> bool \<Rightarrow> (loop_msg \<Rightarrow> bool) option \<Rightarrow> (int \<times> loop_msg) list \<Rightarrow>
    (app_event list \<times> int) option" where
  "WinMain argv gdiplus_ok created accel ms =
     map_option (\<lambda>(es, r).
       ([EnableAwareness, InitControls, UpdateDpiFor None, GdiplusStart] @ es @
        (if argv = None then [] else [FreeArgs]) @ (if gdiplus_ok then [GdiplusStop] else []), r))
     (app_Run created accel (init_path argv) ms)"

section \<open>Creating the main window\<close>

text \<open>The place of the new window, and how it is shown first.\<close>

definition CW_USEDEFAULT :: int where "CW_USEDEFAULT = -2147483648"

definition main_place :: "(rect \<times> bool) option \<Rightarrow> int \<times> int \<times> int \<times> int" where
  "main_place sv =
     (case sv of None \<Rightarrow> (CW_USEDEFAULT, CW_USEDEFAULT, 800, 600)
      | Some (rc, m) \<Rightarrow> (r_left rc, r_top rc, r_right rc - r_left rc, r_bottom rc - r_top rc))"

definition main_maximized :: "(rect \<times> bool) option \<Rightarrow> bool" where
  "main_maximized sv = (case sv of None \<Rightarrow> False | Some (rc, m) \<Rightarrow> m)"

definition main_Create :: "bool \<Rightarrow> bool \<Rightarrow> bool" where
  "main_Create registered created \<longleftrightarrow> registered \<and> created"

text \<open>\<open>OnCreate\<close>: which parts could be created, and the zoom mode from the settings.\<close>

definition initial_zoom :: "int \<Rightarrow> int" where
  "initial_zoom sv =
     (if sv < ID_ZOOMMODE_W2I_ZOOMOUT \<or> sv > ID_ZOOMMODE_NOFIT then ID_ZOOMMODE_W2I_ZOOMOUT else sv)"

datatype create_call = DpiForWindow | LoadMenu | LoadRecent | RecentMenu | AttachMenu | CheckFileList
  | CreateToolbar | PressFileList | CreateStatus | CreateView | WireDoc | AcceptDrops
  | ApplyZoomMode int | FocusView | ButtonStates | MenuIcons

definition main_OnCreate :: "bool \<Rightarrow> bool \<Rightarrow> bool \<Rightarrow> bool \<Rightarrow> int \<Rightarrow> create_call list \<times> bool" where
  "main_OnCreate menu_ok tool_ok status_ok view_ok saved_zoom =
     (let c1 = [DpiForWindow, LoadMenu];
          c2 = c1 @ [LoadRecent, RecentMenu, AttachMenu, CheckFileList, CreateToolbar];
          c3 = c2 @ [PressFileList, CreateStatus];
          c4 = c3 @ [CreateView];
          c5 = c4 @ [WireDoc, AcceptDrops, ApplyZoomMode (initial_zoom saved_zoom), FocusView, ButtonStates, MenuIcons]
      in if \<not> menu_ok then (c1, False) else if \<not> tool_ok then (c2, False)
         else if \<not> status_ok then (c3, False) else if \<not> view_ok then (c4, False) else (c5, True))"

section \<open>Messages of the main window\<close>

datatype notify = GetDispInfo int | DropDown int | HotItem bool int | OtherNotify

datatype main_msg = MCreate bool | MSize int int | MCommand int | MMenuSelect int u16 | MTimer nat
  | MInitMenuPopup "int list" | MNotify notify | MDestroy | MDpiChanged rect | MResetTimer | MStop
  | MSetInfo wstr | MDropFiles "wstr option" | MOther nat

datatype main_call = DoSize int int | DoCommand int | Hint wstr | AdvanceShow | RadioItem int
  | ToolTip wstr | PopupZoomMenu | StopShowing | SavePlacement | PostQuit | NewDpi | ToolbarDpi
  | MoveWindowTo rect | NewMenuIcons | NewButtonStates | SyncAndReset | FileInfo wstr
  | WindowTitle wstr bool | OpenDropped wstr | DragFinish

text \<open>
  \<open>OnMenuSelect\<close> and \<open>OnNotify\<close>; \<open>res\<close> is the string resource of a command.  \<open>HotItem\<close> carries
  \<open>HICF_LEAVING\<close>.
\<close>

definition OnMenuSelect :: "(int \<Rightarrow> wstr) \<Rightarrow> int \<Rightarrow> u16 \<Rightarrow> main_call list" where
  "OnMenuSelect res i flags =
     (if flags = 0xFFFF then [Hint []]
      else if flags AND (0x10 OR 0x800) \<noteq> 0 then []
      else [Hint (LoadCommandHint (res i) 256 False)])"

definition OnNotify :: "(int \<Rightarrow> wstr) \<Rightarrow> bool \<Rightarrow> notify \<Rightarrow> main_call list" where
  "OnNotify res has_zoom_menu n =
     (case n of
        GetDispInfo i \<Rightarrow> [ToolTip (LoadCommandHint (res i) 128 True)]
      | DropDown i \<Rightarrow> (if i = ID_VIEW_ZOOMMODE \<and> has_zoom_menu then [PopupZoomMenu] else [])
      | HotItem leaving i \<Rightarrow> [Hint (if leaving then [] else LoadCommandHint (res i) 256 False)]
      | OtherNotify \<Rightarrow> [])"

definition main_OnDestroy :: "main_call list" where
  "main_OnDestroy = [StopShowing, SavePlacement, PostQuit]"

definition main_OnDpiChanged :: "rect \<Rightarrow> main_call list" where
  "main_OnDpiChanged rc = [NewDpi, ToolbarDpi, MoveWindowTo rc, NewMenuIcons, NewButtonStates]"

text \<open>
  \<open>ShowZoomModeMenu\<close>: the popup that directly holds the zoom modes, with the one that is checked,
  and where it opens (the lower left corner of the button, on the screen).
\<close>

definition ShowZoomModeMenu :: "mitem list \<Rightarrow> int \<Rightarrow> pt \<Rightarrow> (mitem list \<times> int \<times> pt) option" where
  "ShowZoomModeMenu menu zoommode corner =
     (case find_submenu ID_ZOOMMODE_W2I_ZOOMOUT menu of None \<Rightarrow> None
      | Some sub \<Rightarrow> Some (sub, zoommode, corner))"

text \<open>
  The title: \<open>_snwprintf\<close> into 268 characters, which ends the text with a NUL only when it is
  shorter; the flag says that it did.
\<close>

definition window_title :: "wstr \<Rightarrow> wstr \<times> bool" where
  "window_title name =
     (let t = takeWhile (\<lambda>c. c \<noteq> 0) name @ wlit '' - obZrv'' in (take 268 t, length t < 268))"

text \<open>
  \<open>HandleMessage\<close>: \<open>m_slideShowTimer\<close>, whether a running slide show is not just opening, the
  current zoom mode, the document's file name if it shows one.  The result of a message is
  \<open>None\<close> when it goes on to \<open>DefWindowProc\<close>.
\<close>

definition main_HandleMessage :: "(int \<Rightarrow> wstr) \<Rightarrow> nat \<Rightarrow> bool \<Rightarrow> bool \<Rightarrow> int \<Rightarrow> wstr option \<Rightarrow> main_msg \<Rightarrow>
    main_call list \<times> int option" where
  "main_HandleMessage res timer may_sync has_zoom_menu zoommode name msg =
     (case msg of
        MCreate ok \<Rightarrow> ([], Some (if ok then 0 else -1))
      | MSize cx cy \<Rightarrow> ([DoSize cx cy], Some 0)
      | MCommand i \<Rightarrow> ([DoCommand i], Some 0)
      | MMenuSelect i flags \<Rightarrow> (OnMenuSelect res i flags, Some 0)
      | MTimer i \<Rightarrow> (if i = timer then ([AdvanceShow], Some 0) else ([], None))
      | MInitMenuPopup ids \<Rightarrow> (if ID_ZOOMMODE_W2I_ZOOMOUT \<in> set ids then [RadioItem zoommode] else [], Some 0)
      | MNotify n \<Rightarrow> (OnNotify res has_zoom_menu n, Some 0)
      | MDestroy \<Rightarrow> (main_OnDestroy, Some 0)
      | MDpiChanged rc \<Rightarrow> (main_OnDpiChanged rc, Some 0)
      | MResetTimer \<Rightarrow> (if may_sync then [SyncAndReset] else [], Some 0)
      | MStop \<Rightarrow> ([StopShowing], Some 0)
      | MSetInfo t \<Rightarrow> ([FileInfo t, NewButtonStates] @
          (case name of None \<Rightarrow> [] | Some n \<Rightarrow> case window_title n of (t, z) \<Rightarrow> [WindowTitle t z]), Some 0)
      | MDropFiles p \<Rightarrow> ((case p of None \<Rightarrow> [] | Some q \<Rightarrow> [OpenDropped q]) @ [DragFinish], Some 0)
      | MOther n \<Rightarrow> ([], None))"

definition SlideShowDialog_folder :: "('h, 'w, 'img) doc \<Rightarrow> bool" where
  "SlideShowDialog_folder d \<longleftrightarrow> diridx d \<ge> 0 \<and> length (dirfiles d) > 0"

section \<open>Messages of the panels\<close>

datatype view_msg = VSize | VErase | VDown int | VMove int int | VLeave | VUp sz pt | VWheel
  | VSetCursor bool int | VOther nat

text \<open>The new state, whether the wheel goes on to the image view, and whether it was handled.\<close>

definition view_HandleMessage :: "int \<Rightarrow> bool \<Rightarrow> view_msg \<Rightarrow> main_view \<Rightarrow> main_view \<times> bool \<times> bool" where
  "view_HandleMessage d has_view msg v =
     (case msg of
        VSize \<Rightarrow> (v, False, True)
      | VErase \<Rightarrow> (v, False, True)
      | VDown x \<Rightarrow> (mv_LButtonDown d x v, False, True)
      | VMove w x \<Rightarrow> (mv_MouseMove d w x v, False, True)
      | VLeave \<Rightarrow> (mv_MouseLeave v, False, True)
      | VUp ws p \<Rightarrow> (mv_LButtonUp d ws p v, False, True)
      | VWheel \<Rightarrow> (v, has_view, True)
      | VSetCursor over x \<Rightarrow> (v, False, OnSetCursor d over x v)
      | VOther n \<Rightarrow> (v, False, False))"

text \<open>
  The list panel: a notification of its list with what changed (\<open>fl_item_changed\<close>), the row and
  whether the mouse button is down.
\<close>

datatype list_msg = LSize | LNotify bool bool bool bool int bool | LFocus | LOther nat

datatype list_call = SizeList | ActivateItem int bool | FocusList

definition list_HandleMessage :: "bool \<Rightarrow> bool \<Rightarrow> list_msg \<Rightarrow> list_call list \<times> bool" where
  "list_HandleMessage rebuild has_list msg =
     (case msg of
        LSize \<Rightarrow> ([SizeList], True)
      | LNotify from_list state_changed new_sel old_sel i byMouse \<Rightarrow>
          (if from_list \<and> fl_item_changed rebuild state_changed new_sel old_sel
           then ([ActivateItem i byMouse], True) else ([], False))
      | LFocus \<Rightarrow> (if has_list then [FocusList] else [], True)
      | LOther n \<Rightarrow> ([], False))"

datatype sub_msg = ButtonDown | NcDestroy | SubOther nat

definition ListViewProc :: "sub_msg \<Rightarrow> bool \<times> bool" where
  "ListViewProc msg = (msg = ButtonDown, msg = NcDestroy)"

text \<open>The size of the list and the width of its column, if it is set.\<close>

definition UpdateListSize :: "bool \<Rightarrow> bool \<Rightarrow> sz \<Rightarrow> int \<Rightarrow> (sz \<times> int option) option" where
  "UpdateListSize has_wnd has_list rc lrc_right =
     (if \<not> has_wnd \<or> \<not> has_list then None
      else Some (rc, if lrc_right > 0 then Some lrc_right else None))"

section \<open>The status text\<close>

text \<open>\<open>updateStatus\<close>: what the image and the document report, in 512 characters.\<close>

record status_info =
  si_idx :: int
  si_cnt :: int
  si_dim :: sz
  si_color :: wstr
  si_format :: wstr
  si_anim :: bool
  si_frame :: int
  si_frames :: int
  si_level :: int
  si_fit :: int
  si_cost :: int

definition status_text :: "status_info \<Rightarrow> wstr" where
  "status_text s =
     (let zm = (if si_level s \<noteq> 0 then si_level s else si_fit s);
          sep = wlit '' | '' in
      wdec (si_idx s + 1) @ wlit ''/'' @ wdec (si_cnt s) @ sep @
      wdec (fst (si_dim s)) @ wlit ''x'' @ wdec (snd (si_dim s)) @ sep @
      si_color s @ sep @ si_format s @ sep @
      (if si_anim s then wlit ''frame '' @ wdec (si_frame s + 1) @ wlit ''/'' @ wdec (si_frames s) @ sep else []) @
      wdec zm @ wlit ''%'' @ sep @ wdec (si_cost s) @ wlit ''ms'')"

definition updateStatus :: "status_info option \<Rightarrow> (wstr \<times> bool) option" where
  "updateStatus i =
     (case i of None \<Rightarrow> None
      | Some s \<Rightarrow> Some (take 512 (status_text s), length (status_text s) < 512))"

section \<open>The slide show dialog\<close>

text \<open>What the user does: edit a control, or a button, with the answer of the dialog it opens.\<close>

datatype dlg_cmd = Edit dlg_state | SourceClicked | ClickAddFiles "wstr option"
  | ClickAddFolder "(wstr \<times> (bool \<times> wstr) list) option" | ClickMove bool "nat list"
  | ClickStart bool | ClickCancel

record 'f dlg_run =
  dr_ctl :: dlg_state
  dr_items :: "slide_item list"
  dr_opts :: slide_options
  dr_custom :: bool
  dr_result :: "bool option"
  dr_store :: 'f

record dlg_env =
  dv_wu :: "wstr \<Rightarrow> string option"
  dv_pathext :: "wstr \<Rightarrow> wstr"
  dv_le :: "wstr \<Rightarrow> wstr \<Rightarrow> int"
  dv_types :: "string list"

definition DlgProc :: "'f ini_api \<Rightarrow> config \<Rightarrow> dlg_env \<Rightarrow> dlg_cmd \<Rightarrow> 'f dlg_run \<Rightarrow> 'f dlg_run" where
  "DlgProc api c E cmd r =
     (if dr_result r \<noteq> None then r
      else case cmd of
        Edit d \<Rightarrow> r\<lparr>dr_ctl := d\<rparr>
      | SourceClicked \<Rightarrow> r\<lparr>dr_custom := \<not> d_current (dr_ctl r)\<rparr>
      | ClickAddFiles b \<Rightarrow> (case b of None \<Rightarrow> r | Some buf \<Rightarrow> r\<lparr>dr_items := AddFiles (dv_wu E) buf (dr_items r)\<rparr>)
      | ClickAddFolder f \<Rightarrow> (case f of None \<Rightarrow> r
          | Some (dir, es) \<Rightarrow> r\<lparr>dr_items := AddFolder (dv_wu E) (dv_pathext E) (dv_le E) (dv_types E) dir es (dr_items r)\<rparr>)
      | ClickMove down sel \<Rightarrow> (case move_selection down sel (dr_items r) of None \<Rightarrow> r
          | Some (items, pos, n) \<Rightarrow> r\<lparr>dr_items := items\<rparr>)
      | ClickStart fullscreen \<Rightarrow>
          (case ValidateAndSave api c (dr_ctl r) (dr_items r)
                  (if fullscreen then START_FULLSCREEN else START_WINDOWED) (dr_opts r) (dr_store r) of (ok, o', st) \<Rightarrow>
             r\<lparr>dr_opts := o', dr_store := st, dr_result := (if ok then Some True else None)\<rparr>)
      | ClickCancel \<Rightarrow> r\<lparr>dr_opts := (dr_opts r)\<lparr>o_start := START_CANCEL\<rparr>, dr_result := Some False\<rparr>)"

text \<open>\<open>Show\<close>, with what the user does: \<open>None\<close> as long as the dialog is open.\<close>

definition SlideShowDlg_Show :: "'f ini_api \<Rightarrow> config \<Rightarrow> dlg_env \<Rightarrow> bool \<Rightarrow> int \<Rightarrow> slide_options \<Rightarrow>
    dlg_cmd list \<Rightarrow> 'f \<Rightarrow> (bool \<times> slide_options \<times> 'f) option" where
  "SlideShowDlg_Show api c E hasCurrentFolder currentZoomMode opts cmds st =
     (let o1 = opts\<lparr>o_zoom := currentZoomMode\<rparr>;
          d = init_dialog api c hasCurrentFolder (o_zoom o1) st;
          r = foldl (\<lambda>r cmd. DlgProc api c E cmd r)
                \<lparr>dr_ctl = d, dr_items = o_items o1, dr_opts = o1, dr_custom = \<not> d_current d,
                 dr_result = None, dr_store = st\<rparr> cmds
      in case dr_result r of None \<Rightarrow> None
         | Some res \<Rightarrow> Some (res \<and> o_start (dr_opts r) \<noteq> START_CANCEL, dr_opts r, dr_store r))"

section \<open>Messages reach their object\<close>

text \<open>The object a window was last created with, after the first messages.\<close>

definition creator :: "(nat \<times> wnd_msg) list \<Rightarrow> nat \<Rightarrow> nat option" where
  "creator ms h = foldl (\<lambda>c (h', m). case m of NcCreate this \<Rightarrow> if h' = h then Some this else c | WndMsg n \<Rightarrow> c) None ms"

lemma creator_snoc: "creator (ms @ [(h', m)]) h =
    (case m of NcCreate this \<Rightarrow> if h' = h then Some this else creator ms h | WndMsg n \<Rightarrow> creator ms h)"
  by (cases m) (simp_all add: creator_def)

lemma wnd_run_append: "wnd_run (ms @ ns) w =
    (case wnd_run ms w of (rs, w1) \<Rightarrow> case wnd_run ns w1 of (qs, w2) \<Rightarrow> (rs @ qs, w2))"
  by (induction ms arbitrary: w) (auto split: prod.splits)

lemma wnd_run_creators: "length (fst (wnd_run ms no_windows)) = length ms \<and>
    w_user (snd (wnd_run ms no_windows)) h = creator ms h"
proof (induction ms rule: rev_induct)
  case Nil
  then show ?case by (simp add: no_windows_def creator_def)
next
  case (snoc x ms)
  then show ?case
    by (cases x; cases "snd x") (auto simp: wnd_run_append WndProcStatic_def creator_snoc split: prod.splits)
qed

text \<open>
  Every message goes to the object its window was created with, from \<open>WM_NCCREATE\<close> on; the
  messages that come before it, such as \<open>WM_GETMINMAXINFO\<close>, go to \<open>DefWindowProc\<close>.
\<close>

lemma route_at: "fst (wnd_run (xs @ (h, m) # ys) no_windows) ! length xs =
    fst (WndProcStatic h m (snd (wnd_run xs no_windows)))"
  using wnd_run_creators[of xs] by (auto simp: wnd_run_append nth_append split: prod.splits)

lemma messages_reach_object:
  assumes "i < length ms"
  shows "fst (wnd_run ms no_windows) ! i =
     (case creator (take (Suc i) ms) (fst (ms ! i)) of Some this \<Rightarrow> ToObject this | None \<Rightarrow> ToDefault)"
proof -
  obtain h m where e: "ms ! i = (h, m)" by fastforce
  have s: "take (Suc i) ms = take i ms @ [(h, m)]" using assms e by (simp add: take_Suc_conv_app_nth)
  have "ms = take i ms @ (h, m) # drop (Suc i) ms" using id_take_nth_drop[OF assms] e by simp
  then have "fst (wnd_run ms no_windows) ! i = fst (WndProcStatic h m (snd (wnd_run (take i ms) no_windows)))"
    using route_at[of "take i ms" h m "drop (Suc i) ms"] assms by (metis length_take min.absorb4)
  then show ?thesis unfolding s creator_snoc e using wnd_run_creators[of "take i ms" h]
    by (cases m) (auto simp: WndProcStatic_def)
qed

text \<open>A menu that was attached belongs to its window: the object does not destroy it as well.\<close>

lemma menu_destroyed_once:
  "menu_destroy (menu_Attach (snd (menu_Load h new_menu))) = [] \<and>
   menu_destroy (snd (menu_Load (Some k) new_menu)) = [k] \<and> menu_destroy new_menu = []"
  by (cases h) (simp_all add: menu_Load_def menu_Attach_def menu_destroy_def new_menu_def)

section \<open>The program from start to end\<close>

lemma message_loop_ends:
  "message_loop accel ms = (case find_first (\<lambda>p. fst p \<le> 0) ms of None \<Rightarrow> None
     | Some k \<Rightarrow> Some (map (\<lambda>(r, m). case accel of None \<Rightarrow> TranslateAndDispatch m
           | Some takes \<Rightarrow> if takes m then Accelerator m else TranslateAndDispatch m) (take k ms),
         lm_wParam (snd (ms ! k))))"
  by (induction accel ms rule: message_loop.induct) (auto split: option.splits)

text \<open>
  GDI+ is started before the main window exists and stopped after it is gone, so that no object of
  the window outlives it, and the exit code is the one of the message that ended the loop.
\<close>

lemma WinMain_order:
  assumes "WinMain argv True created accel ms = Some (es, r)"
  shows "\<exists>as bs. es = [EnableAwareness, InitControls, UpdateDpiFor None, GdiplusStart] @ [MainCreate created] @ as @
      [MainDestroy] @ bs @ [GdiplusStop] \<and> set bs \<subseteq> {FreeArgs} \<and> GdiplusStop \<notin> set as \<and> MainDestroy \<notin> set as \<and>
    r = (if created then lm_wParam (snd (ms ! the (find_first (\<lambda>p. fst p \<le> 0) ms))) else 1)"
proof (cases created)
  case False
  then have "es = [EnableAwareness, InitControls, UpdateDpiFor None, GdiplusStart] @ [MainCreate created] @ [] @
      [MainDestroy] @ (if argv = None then [] else [FreeArgs]) @ [GdiplusStop]" "r = 1"
    using assms by (auto simp: WinMain_def app_Run_def)
  then show ?thesis using False by (intro exI[of _ "[]"] exI[of _ "if argv = None then [] else [FreeArgs]"]) auto
next
  case True
  obtain cs where l: "message_loop accel ms = Some (cs, r)"
    using assms True by (auto simp: WinMain_def app_Run_def)
  define as where "as = (case init_path argv of None \<Rightarrow> [] | Some p \<Rightarrow> if p \<noteq> [] then [OpenInitial p] else []) @
      map Loop cs @ (if accel = None then [] else [DestroyAccel])"
  have "es = [EnableAwareness, InitControls, UpdateDpiFor None, GdiplusStart] @ [MainCreate created] @ as @
      [MainDestroy] @ (if argv = None then [] else [FreeArgs]) @ [GdiplusStop]"
    using assms True by (auto simp: WinMain_def app_Run_def l as_def)
  moreover have "GdiplusStop \<notin> set as \<and> MainDestroy \<notin> set as"
    by (auto simp: as_def split: option.splits)
  moreover have "r = lm_wParam (snd (ms ! the (find_first (\<lambda>p. fst p \<le> 0) ms)))"
    using l by (auto simp: message_loop_ends split: option.splits)
  moreover have "set (if argv = None then [] else [FreeArgs]) \<subseteq> {FreeArgs}" by simp
  ultimately show ?thesis using True by (metis (no_types, lifting))
qed

text \<open>A long file name, as a remote directory may have it, leaves the title without an end.\<close>

lemma title_not_ended: "0 \<notin> set name \<Longrightarrow> 260 \<le> length name \<Longrightarrow> \<not> snd (window_title name)"
proof -
  assume n: "0 \<notin> set name" and l: "260 \<le> length name"
  have t: "takeWhile (\<lambda>c. c \<noteq> 0) name = name" using n unfolding takeWhile_eq_all_conv by blast
  have "length (wlit '' - obZrv'') = 8" by (simp add: wlit_def)
  then show ?thesis using l unfolding window_title_def t by (simp add: Let_def)
qed

text \<open>Every message the main window names is answered; all others go on to \<open>DefWindowProc\<close>.\<close>

lemma main_unhandled: "snd (main_HandleMessage res timer sync zm mode name msg) = None \<longleftrightarrow>
    (\<exists>n. msg = MOther n) \<or> (\<exists>i. msg = MTimer i \<and> i \<noteq> timer)"
  by (cases msg) (auto simp: main_HandleMessage_def)

section \<open>What the slide show dialog returns\<close>

definition slide_options_ok :: "slide_options \<Rightarrow> bool" where
  "slide_options_ok opts \<longleftrightarrow> 1 \<le> o_interval opts \<and> o_interval opts \<le> 3600 \<and> 1 \<le> o_rounds opts \<and> o_rounds opts \<le> 9999 \<and>
     o_zoom opts \<in> set zoom_ids \<and> (o_source opts = SOURCE_CUSTOM \<longrightarrow> o_items opts \<noteq> [])"

lemma SelectedZoom_in: "SelectedZoom i \<in> set zoom_ids"
proof (cases "i < 0 \<or> i \<ge> int (length zoom_ids)")
  case False
  then have "nat i < length zoom_ids" by linarith
  then show ?thesis using False by (simp add: SelectedZoom_def)
qed (simp add: SelectedZoom_def zoom_ids_def)

lemma ValidateAndSave_result:
  assumes "ValidateAndSave api c d items start opts st = (ok, o', st')"
  shows "(ok \<longrightarrow> slide_options_ok o' \<and> o_items o' = items \<and> o_start o' = start) \<and> (\<not> ok \<longrightarrow> st' = st)"
proof -
  define n where "n = clamp (GetIntText (d_interval d) 5) 1 3600"
  define k where "k = clamp (GetIntText (d_rounds d) 1) 1 9999"
  have b: "1 \<le> n \<and> n \<le> 3600" "1 \<le> k \<and> k \<le> 9999"
    unfolding n_def k_def by (rule clamp_bounds; simp)+
  show ?thesis using assms b unfolding ValidateAndSave_def n_def[symmetric] k_def[symmetric]
    by (cases "d_current d"; cases items) (auto simp: slide_options_ok_def Let_def SelectedZoom_in)
qed

definition dlg_inv :: "'f \<Rightarrow> 'f dlg_run \<Rightarrow> bool" where
  "dlg_inv st r \<longleftrightarrow>
     (dr_result r = Some True \<longrightarrow> slide_options_ok (dr_opts r) \<and> o_items (dr_opts r) = dr_items r \<and>
        o_start (dr_opts r) \<noteq> START_CANCEL) \<and>
     (dr_result r = Some False \<longrightarrow> o_start (dr_opts r) = START_CANCEL) \<and>
     (dr_result r \<noteq> Some True \<longrightarrow> dr_store r = st)"

lemma DlgProc_inv:
  assumes i: "dlg_inv st r"
  shows "dlg_inv st (DlgProc api c E cmd r)"
proof (cases "dr_result r = None")
  case True
  show ?thesis
  proof (cases cmd)
    case (ClickStart fs)
    define start where "start = (if fs then START_FULLSCREEN else START_WINDOWED)"
    obtain ok o' st' where v: "ValidateAndSave api c (dr_ctl r) (dr_items r) start (dr_opts r) (dr_store r) = (ok, o', st')"
      by (cases "ValidateAndSave api c (dr_ctl r) (dr_items r) start (dr_opts r) (dr_store r)") auto
    have "start \<noteq> START_CANCEL" by (simp add: start_def)
    moreover have "DlgProc api c E cmd r =
        r\<lparr>dr_opts := o', dr_store := st', dr_result := (if ok then Some True else None)\<rparr>"
      using True v by (simp add: DlgProc_def ClickStart start_def)
    ultimately show ?thesis using i True ValidateAndSave_result[OF v]
      by (cases ok) (simp_all add: dlg_inv_def)
  qed (use i True in \<open>auto simp: DlgProc_def dlg_inv_def split: option.splits prod.splits\<close>)
next
  case False
  then show ?thesis using i by (simp add: DlgProc_def)
qed

lemma DlgProc_run_inv: "dlg_inv st r \<Longrightarrow> dlg_inv st (foldl (\<lambda>r cmd. DlgProc api c E cmd r) r cmds)"
  by (induction cmds arbitrary: r) (simp_all add: DlgProc_inv)

text \<open>
  C34. Whatever the user does in the slide show dialog: when it answers that the show should start,
  the interval, the rounds and the zoom mode are in their ranges, a custom list has at least one
  file, and a start mode is chosen; when it does not, the start mode is "cancel" and nothing was
  stored in the settings.
\<close>

theorem slide_dialog_returns_valid:
  assumes "SlideShowDlg_Show api c E folder z opts cmds st = Some (res, o', st')"
  shows "if res then slide_options_ok o' \<and> o_start o' \<noteq> START_CANCEL else o_start o' = START_CANCEL \<and> st' = st"
proof -
  define r0 where "r0 = \<lparr>dr_ctl = init_dialog api c folder z st, dr_items = o_items opts,
    dr_opts = opts\<lparr>o_zoom := z\<rparr>, dr_custom = \<not> d_current (init_dialog api c folder z st),
    dr_result = None, dr_store = st\<rparr>"
  define r where "r = foldl (\<lambda>r cmd. DlgProc api c E cmd r) r0 cmds"
  have "dlg_inv st r" unfolding r_def by (rule DlgProc_run_inv) (simp add: dlg_inv_def r0_def)
  then show ?thesis using assms
    by (cases "dr_result r") (auto simp: SlideShowDlg_Show_def Let_def r0_def[symmetric] r_def[symmetric] dlg_inv_def)
qed

definition ex_dlg_env :: dlg_env where
  "ex_dlg_env = \<lparr>dv_wu = (\<lambda>w. None), dv_pathext = (\<lambda>p. []), dv_le = (\<lambda>a b. 0), dv_types = []\<rparr>"

text \<open>A custom list without files is refused; then the folder is chosen, with a bad interval.\<close>

definition ex_dlg_state :: "bool \<Rightarrow> dlg_state" where
  "ex_dlg_state folder = \<lparr>d_current = folder, d_order = ORDER_RANDOM, d_count = False,
     d_interval = wlit ''99999'', d_rounds = [], d_zoom = 7\<rparr>"

definition no_ini :: "unit ini_api" where
  "no_ini = \<lparr>ini_get = (\<lambda>_ _ _ _. None), ini_put = (\<lambda>_ _ _ _ _. ()), ini_int = (\<lambda>_ _ _ d _. d)\<rparr>"

theorem slide_dialog_returns_valid_witness:
  "case SlideShowDlg_Show no_ini ex_config ex_dlg_env True ID_ZOOMMODE_W2I_ZOOMOUT default_options
      [Edit (ex_dlg_state False), ClickStart True, Edit (ex_dlg_state True), ClickStart False] () of
     None \<Rightarrow> False
   | Some (res, o', st') \<Rightarrow> res \<and> slide_options_ok o' \<and> o_interval o' = 3600 \<and> o_start o' = START_WINDOWED"
proof -
  have v: "GetIntText (wlit ''99999'') 5 = 99999" "GetIntText [] 1 = 1" by code_simp+
  obtain o' where s: "SlideShowDlg_Show no_ini ex_config ex_dlg_env True ID_ZOOMMODE_W2I_ZOOMOUT default_options
      [Edit (ex_dlg_state False), ClickStart True, Edit (ex_dlg_state True), ClickStart False] () = Some (True, o', ())"
    and i: "o_interval o' = 3600" "o_start o' = START_WINDOWED"
    by (simp add: SlideShowDlg_Show_def DlgProc_def ValidateAndSave_def Let_def ex_dlg_state_def
        default_options_def v clamp_def)
  show ?thesis using slide_dialog_returns_valid[OF s] i by (simp add: s)
qed

end
