(* ===== verification/Spec2Isabelle.thy ===== *)
theory Spec2Isabelle
  imports Prelude Uni_File ZData_File File_Type Protocol Remote_Conn Remote_File Paths Uni_Fs Remote_Fs
    Nix_Fs Win_Fs File_List Doc Bitmap Codecs Doc_Anim Geometry Image_View Settings Slide_Show
    Main_View Connect_Dlg Main_Wnd Pixels Blit Span Scaling Scale_Crop Shapes Scale_Show
    Stretch Bitmap_Ops Resample Bmp_File Tool_Bar App_Start
begin

text \<open>
  \<^bold>\<open>A verification library for obZrv, an image viewer for local and remote folders (C++).\<close>

  \<^bold>\<open>The program.\<close>  A window (obZrv/MainWnd.cpp) shows one document (obZrv/Doc.cpp): the open
  image with the sorted list of the images in its folder.  The document reads files through
  two interfaces, \<open>UniFile\<close> (unifs/unifile.hpp) and \<open>UniFs\<close> (unifs/unifs.hpp), with providers
  for Windows, Linux, and a server reached over one connection that all remote files share
  (unifs/remote_conn.cpp).  Two codecs turn the bytes into images; the view (obZrv/ImageView.cpp)
  lays an image out, the panel (obZrv/FileList.cpp) lists the folder, a timer animates it or
  steps a slide show, and settings live in INI files.

  \<^bold>\<open>Theories and sources.\<close>  \<open>Prelude\<close> holds the machine types (\<open>int\<close> values are Isabelle
  integers with \<open>sdiv\<close> for the division of C, fixed-width values are words), C strings and the
  vector operations.

  \<^item> Files: \<open>Uni_File\<close> (the interface as locale \<open>unifile\<close>, unifs/local_file.cpp, reading a whole
    file, the copy loop of \<open>Doc::saveAsLocal\<close>), \<open>ZData_File\<close> (obZrv/ZDataFile.hpp, masked
    files), \<open>File_Type\<close> (obZrv/filetype.cpp).
  \<^item> The remote side: \<open>Protocol\<close> (unifs/protocol.hpp and the frame), \<open>Remote_Conn\<close>
    (unifs/remote_conn.cpp), \<open>Remote_File\<close> (unifs/remote_file.cpp), \<open>Remote_Fs\<close>
    (unifs/remote_fs.cpp).
  \<^item> Folders: \<open>Uni_Fs\<close> (directory iterators as locale \<open>dir_iterator\<close>), \<open>Nix_Fs\<close>, \<open>Win_Fs\<close>,
    \<open>Paths\<close> (obZrv/strutil.h, unifs/win_path.hpp).
  \<^item> Images: \<open>Codecs\<close> (obZrv/GdiPlusCodec.cpp, obZrv/WebpCodec.cpp, with the locale \<open>frames\<close>).
  \<^item> The bitmap library obZrv/BasicBitmap: \<open>Bitmap\<close> (formats, rows, \<open>BlendColor\<close> portable and
    SSE2), \<open>Pixels\<close> (single pixels, \<open>Fetch\<close> and \<open>Store\<close> of rows in every format, lines, cards,
    mirroring), \<open>Blit\<close> (\<open>ClipRect\<close>, \<open>Fill\<close>, \<open>Blit\<close>, \<open>Convert\<close>), \<open>Span\<close> (the blending modes and
    \<open>Blend\<close>), \<open>Scaling\<close> (the four- and six-tap scalers), \<open>Scale_Crop\<close> (interpolation, the box
    filter, \<open>ScaleCrop\<close> and \<open>ScaleCropAda\<close>), \<open>Shapes\<close> (what drawing keeps), \<open>Scale_Show\<close> (what the
    scaled pictures show, and \<open>getBBitmap\<close> of the codecs, which the view calls).  What the viewer
    itself does not call: \<open>Stretch\<close> (\<open>ClipScale\<close>, \<open>BresenhamStretch\<close>), \<open>Bitmap_Ops\<close>
    (premultiplying, shuffling, blocks, palettes, glyphs and quick text, channels, halving),
    \<open>Resample\<close> (\<open>Scale\<close>, \<open>Resample\<close> with the averaging filter, the bilinear sampler), \<open>Bmp_File\<close>
    (\<open>LoadContent\<close> and the BMP, TGA and PPM files).
  \<^item> The document: \<open>File_List\<close>, \<open>Doc\<close>, and \<open>Doc_Anim\<close> for \<open>Doc::onAnimate\<close>.
  \<^item> The windows: \<open>Geometry\<close> (obZrv/dpi.cpp), \<open>Image_View\<close>, \<open>Main_View\<close>, \<open>Settings\<close>
    (obZrv/config.cpp, obZrv/RecentFileRegistry.cpp and the address history), \<open>Slide_Show\<close>
    (obZrv/SlideShowDlg.cpp and the player in obZrv/MainWnd.cpp), \<open>Connect_Dlg\<close>
    (obZrv/ConnectDlg.cpp), \<open>Main_Wnd\<close> (commands and menus of obZrv/MainWnd.cpp),
    \<open>Tool_Bar\<close> (obZrv/Toolbar.cpp and obZrv/StatusBar.cpp: icons, image lists, buttons, parts),
    \<open>App_Start\<close> (obZrv/main.cpp, App.cpp, WndBase.cpp, Menu.cpp: start, message loop, routing of
    messages to objects, and the message dispatch of the windows and the slide show dialog).

  State is a record per class, with the fields of the class; an operation is a function that
  returns the updated record, a handler or critical section that interleaves with others is a
  case of an inductive step relation.  Windows, the C library, asio, GDI+ and libwebp are
  parameters: what they answer is an argument or a field of an environment record
  (\<open>env\<close> in \<open>Doc\<close>, \<open>conn_env\<close> in \<open>Connect_Dlg\<close>, \<open>ini_api\<close> in \<open>Settings\<close>, \<open>slide_ops\<close> in
  \<open>Slide_Show\<close>), with their documented behaviour as a named hypothesis where it matters.

  \<^bold>\<open>Interfaces.\<close>  The locale \<open>unifile\<close> is the contract of a readable, seekable file; the
  clients (loading a file, detecting its type, unmasking it) are proved once over it.  Local
  files interpret it, a masked file is a sublocale of it over any \<open>unifile\<close>, and a remote file
  over any \<open>file_server\<close>: the server is not part of this repository, so the locale's assumptions are
  the documented meaning of the requests, and the theorems on remote files hold for every server
  that keeps to it; a small example server shows that they can be met.  \<open>dir_iterator\<close> is interpreted by
  the three folder providers.  \<open>frames\<close>, the contract of an animated image, is interpreted by
  the GDI+ images and, through \<open>webp_decoder\<close>, by the WebP images, and is what the animation
  theorems rest on.  \<open>slide_player\<close> states what the slide show needs of a document, and the
  interpretation \<open>doc_player\<close> discharges it for \<open>Doc::open\<close>.
  \<open>raster\<close> is a row of elements that are read and written by index; rows of packed pixels and
  lists interpret it, and the lemmas on runs, mirroring and masked writes are proved in it.
  \<open>canvas\<close> is what drawing by single pixels needs; bitmaps interpret it.

  \<^bold>\<open>What is shown.\<close>
  \<^item> Remote: in every interleaving of user threads, IO thread, completions and timer no promise is
    lost, one write is in flight at a time, frames leave in the order of the queue, pending
    numbers are distinct, and answers reach their callers however the stream is cut up; a read
    of a file on any \<open>file_server\<close> returns exactly the bytes asked for; a listing survives encoding
    and parsing.
  \<^item> Files and folders: random access in masked files, type detection with the position restored,
    copies of whole files and what is left of them when the device is full, listings of the local
    file systems, paths in and out.
  \<^item> The document: an invariant of the list, the index and the panel under every operation; where
    navigation, opening by name and deletion lead; the panel's smooth rebuild is a rebuild.
  \<^item> Images: the SSE2 blend is the portable blend on every pixel; blocks of rows copy the image;
    the animation callback always returns under its hypotheses, keeps its schedule and leaves the
    same file with a frame that exists, whose picture is that frame's or, after a failed
    conversion, none.
  \<^item> Bitmaps: everything that draws keeps size, format and row lengths; a row fetched and stored
    comes back; clipping leaves exactly the admissible pixels, and a blit moves each of them; the
    shortcuts of the interpolation and of the tint compute the general case; positions and sums
    of the scalers fit 32 bits.  Stretching and unfiltered scaling take each pixel from its place
    on the source; resampling neither wraps nor brightens as long as a \<open>long\<close> of 32 bits counts the
    bytes of its buffer; halving averages, the palette search finds a nearest colour although it
    gives up early, blocks and premultiplied opaque pixels come back; a BMP file loads what was
    saved and the TGA decoder inverts run-length packing.  Every pixel of every crop of a scaled
    picture that is not too large for \<open>ScaleCrop\<close> is a function of the picture, the scaled size and its
    place alone, for the three paths \<open>ScaleCropAda\<close> takes, and so is what a paint of the view shows.
  \<^item> The view: the layout that is painted is the one of the state after every event; zooming in
    and out is inverse; a fitted window lies in the work area; a zoom drag keeps its
    anchor, the point of an image that fills the view where the button went down, on both axes.
  \<^item> The windows: the recent list is the last twenty distinct files and survives a restart; the
    slide show keeps timer, index and window state consistent, shows its files in order, shows
    an image whenever it is active, and stops when no file opens; the connection dialog returns
    only an image that a listing of the returned connection holds, the slide show dialog only
    valid options; menu bitmaps and the image lists of the
    tool bar are neither lost nor used after deletion, whichever creation fails; the window
    placement survives the settings; messages reach the object that created the window.
  Lemmas that show where the code falls short stand in sections of their own near the end of
  the theory of their component.

  \<^bold>\<open>Loops and bounds.\<close>  There is no fuel: loops over buffers, chunks and lists recurse on a
  measure.  The three loops whose end depends on what they call are partial functions into
  \<open>option\<close>: the loop over a directory iterator (proved to return for every \<open>dir_iterator\<close>), the
  copy loop of Save As (proved to return as soon as a read delivers nothing) and the catch-up loop of the animation (proved to return when the first frame has a delay, with an
  example where it does not).  32-bit and 16-bit fields of the protocol, request numbers,
  pixels, masks and time stamps are words and wrap; screen coordinates are unbounded integers,
  and \<open>Geometry\<close> states up to which sizes they fit.

  The kernels' weight tables and the block sizes of the box filter, which the code computes with
  \<open>float\<close>s, are parameters (a table per kernel, and \<open>box_rule\<close> with the one bound \<open>box_rule_ok\<close>,
  which exact arithmetic meets), and so is the content of freshly allocated buffers.

  \<^bold>\<open>Not modelled.\<close>  asio, libwebp, GDI+ and the Windows libraries (third party): what they
  promise of memory, threads and drawing is assumed.  Of obZrv/BasicBitmap: colours as \<open>float\<close>s,
  the bicubic sampler, whose result is a parameter of \<open>Resample\<close>, and the generation of the weight
  tables, as HOL has no IEEE arithmetic among the theories used here; DIBs, drawing to device
  contexts and loading through GDI+, which only call Windows; and the SSE2 and
  AVX drivers other than \<open>BlendColorRow\<close>, which are never installed.  Of the windows, the calls
  that create controls, set fonts and colours, and paint, which only pass arguments to Windows.
\<close>

unbundle bit_operations_syntax

section \<open>From the view to the pixels\<close>

text \<open>
  C19.  What a paint puts on the screen: whatever happened to the view before, the bitmap the codec
  makes for the scale and the crop of the painted view has, at every place, the pixel of the one
  scaled picture that the crop puts there.  The conditions are those of a single crop: the sizes
  of crop and picture joined with bitwise or are below 0x7fff (otherwise \<open>ScaleCrop\<close> returns and
  the bitmap keeps its fresh content); no block of the box filter is larger than the picture
  (\<open>box_rule_ok\<close>); and if the picture is at least 20 x 20 and three times the scaled size, so that
  it is box filtered, the averaged part differs in width from the scaled picture, and if it is
  not, the position of the crop's last column lies on the picture.
\<close>

theorem painted_pixels:
  assumes "view_reachable pw (Some (int (bm_w fb), int (bm_h fb)), v)" and "1 \<le> fst ws" and "1 \<le> snd ws"
    and "v' = OnPaint (Some (int (bm_w fb), int (bm_h fb))) ws v"
    and "canvas_ok fb" and "0 < bm_w fb" and "0 < bm_h fb" and "box_rule_ok pf"
    and "sc = vscale v'" and "c = vcrop v'"
    and "if shrinks_much fb (fst sc) (snd sc)
      then part_width pf (int (bm_w fb)) (fst sc) (r_left c) (r_right c - r_left c) \<noteq> fst sc
      else fix_int (scale_off (int (bm_w fb)) (fst sc) + (r_right c - 1) * scale_inc (int (bm_w fb)) (fst sc)) < int (bm_w fb)"
    and "(r_right c - r_left c) OR (r_bottom c - r_top c) OR int (bm_w fb) OR int (bm_h fb) < 0x7fff"
    and "0 \<le> x" and "x < r_right c - r_left c" and "0 \<le> y" and "y < r_bottom c - r_top c"
  shows "\<exists>out. getBBitmap wt fresh pf fb m sc (r_left c, r_top c, r_right c, r_bottom c) = Some out \<and>
    GetPixel out x y = shown_pixel wt pf fb (fst sc) (snd sc) (r_left c + x) (r_top c + y)"
proof -
  have "crop_ok ws sc c"
    using paint_ok[OF assms(2,3) view_inv_reachable[OF assms(1)]] assms(2-4,9,10)
    by (auto simp: Image_View.bitmap_ok_def)
  then have "0 \<le> r_left c" "r_right c \<le> fst sc" "0 \<le> r_top c" "r_bottom c \<le> snd sc"
    by (simp_all add: crop_ok_def axis_ok_def)
  from getBBitmap_pixel[OF assms(5-7) this(1) _ this(2,3) _ this(4) assms(8,11,12) assms(13-16)] assms(13-16)
  show ?thesis by simp
qed

definition ex_photo :: bitmap where
  "ex_photo = \<lparr>bm_w = 1600, bm_h = 1200, bm_fmt = A8R8G8B8, bm_lines = replicate 1200 (replicate 6400 0x80)\<rparr>"

theorem painted_pixels_witness:
  "\<exists>out. getBBitmap (\<lambda>_. ex_wtab6) (\<lambda>_. 0) ex_rule ex_photo 0 (667, 500) (0, 0, 667, 500) = Some out \<and>
     GetPixel out 3 4 = shown_pixel (\<lambda>_. ex_wtab6) ex_rule ex_photo 667 500 3 4"
proof -
  have p: "canvas_ok ex_photo" "bm_w ex_photo = 1600" "bm_h ex_photo = 1200"
    by (simp_all add: ex_photo_def canvas_ok_def Bitmap.bitmap_ok_def pitch_of_def pixel_round_def pixelsize_def)
  define v where "v = OnPaint (Some (1600, 1200)) (800, 500) demo_view"
  have v: "vscale v = (667, 500)" "r_left (vcrop v) = 0" "r_top (vcrop v) = 0" "r_right (vcrop v) = 667"
    "r_bottom (vcrop v) = 500" unfolding v_def by code_simp+
  have q: "(667 :: int) OR 500 OR 1600 OR 1200 < 0x7fff" by code_simp
  have r: "view_reachable pw (Some (int (bm_w ex_photo), int (bm_h ex_photo)), demo_view)" for pw
    using demo_reachable p(2,3) by simp
  have b: "box_rule_ok ex_rule" by (auto simp: box_rule_ok_def ex_rule_def split: if_splits)
  have s: "\<not> shrinks_much ex_photo 667 500" using p by (simp add: shrinks_much_def)
  from painted_pixels[OF r, of "(800, 500)" v ex_rule "(667, 500)" "vcrop v" 3 4 "\<lambda>_. ex_wtab6" "\<lambda>_. 0" 0] show ?thesis
    using p q b s v by (simp add: v_def[symmetric] scale_off_def scale_inc_def fix_int_def)
qed

end
